(* ===== verification/Cyn_Prelude.thy ===== *)
theory Cyn_Prelude
  imports Main "HOL-Library.Word"
begin

unbundle bit_operations_syntax

text \<open>
  Shared vocabulary of the development: the C integer types of \<^verbatim>\<open>include/common.h\<close>
  as machine words, results that may fail (\<open>bnd\<close>), little-endian byte sequences, the
  alignment macro \<open>CynAlign\<close>, and the collections of simplification rules that the
  component theories extend.
\<close>

named_theorems cyn_defs "definitions of straight-line code, unfolded in proofs"
named_theorems cyn_frame "what an operation leaves unchanged"

section \<open>Integer types\<close>

type_synonym u8 = "8 word"
type_synonym u16 = "16 word"
type_synonym u32 = "32 word"
type_synonym u64 = "64 word"

text \<open>A C \<open>i64\<close> is the same 64 bits, read with \<open>sint\<close>.\<close>

type_synonym i64 = "64 word"

section \<open>Results that may fail\<close>

definition bnd :: "'e + 'a \<Rightarrow> ('a \<Rightarrow> 'e + 'b) \<Rightarrow> 'e + 'b" where
  "bnd m f = (case m of Inl e \<Rightarrow> Inl e | Inr x \<Rightarrow> f x)"

lemma bnd_Inl [simp]: "bnd (Inl e) f = Inl e"
  by (simp add: bnd_def)

lemma bnd_Inr [simp]: "bnd (Inr x) f = f x"
  by (simp add: bnd_def)

lemma bnd_eq_Inr: "bnd m f = Inr y \<longleftrightarrow> (\<exists>x. m = Inr x \<and> f x = Inr y)"
  by (cases m) auto

lemma bnd_InrE [elim!]:
  assumes "bnd m f = Inr y"
  obtains x where "m = Inr x" and "f x = Inr y"
  using assms by (auto simp: bnd_eq_Inr)

lemma bnd_cong [fundef_cong]:
  "m = m' \<Longrightarrow> (\<And>x. m' = Inr x \<Longrightarrow> f x = g x) \<Longrightarrow> bnd m f = bnd m' g"
  by (cases m') auto

section \<open>Little-endian byte sequences\<close>

lemma bit_u8_less: "bit (b :: u8) n \<Longrightarrow> n < 8"
  using bit_imp_le_length [of b n] by simp

primrec le_bytes :: "nat \<Rightarrow> u64 \<Rightarrow> u8 list" where
  "le_bytes 0 w = []"
| "le_bytes (Suc n) w = ucast w # le_bytes n (drop_bit 8 w)"

primrec le_word :: "u8 list \<Rightarrow> u64" where
  "le_word [] = 0"
| "le_word (b # bs) = ucast b OR push_bit 8 (le_word bs)"

lemma length_le_bytes [simp]: "length (le_bytes n w) = n"
  by (induction n arbitrary: w) auto

lemma ucast_or_push_take:
  "ucast (ucast w :: u8) OR push_bit 8 (take_bit k (drop_bit 8 w)) = take_bit (8 + k) (w :: u64)"
  by (rule bit_word_eqI) (auto simp: bit_simps)

lemma le_word_le_bytes: "le_word (le_bytes n w) = take_bit (8 * n) w"
proof (induction n arbitrary: w)
  case 0
  show ?case by simp
next
  case (Suc n)
  show ?case
    by (simp add: Suc.IH ucast_or_push_take)
qed

lemma le_word_le_bytes_8 [simp]: "le_word (le_bytes 8 w) = w"
  by (simp add: le_word_le_bytes take_bit_word_eq_self)

lemma ucast_le_word_Cons [simp]: "ucast (le_word (b # bs)) = (b :: u8)"
  by (rule bit_word_eqI) (auto simp: bit_simps)

lemma le_word_bound: "length bs \<le> n \<Longrightarrow> take_bit (8 * n) (le_word bs) = le_word bs"
proof (induction bs arbitrary: n)
  case Nil
  show ?case by simp
next
  case (Cons b bs)
  then obtain m where m: "n = Suc m" by (cases n) auto
  with Cons have "take_bit (8 * m) (le_word bs) = le_word bs" by simp
  then have lt: "bit (le_word bs) i \<Longrightarrow> i < 8 * m" for i
    by (metis bit_take_bit_iff)
  have "bit (le_word (b # bs)) i \<Longrightarrow> i < 8 * n" for i
    using lt [of "i - 8"] bit_u8_less [of b i] by (auto simp: bit_simps m)
  then show ?case
    by (auto intro!: bit_word_eqI simp: bit_take_bit_iff simp del: le_word.simps)
qed

lemma le_bytes_le_word: "length bs \<le> 8 \<Longrightarrow> le_bytes (length bs) (le_word bs) = bs"
proof (induction bs)
  case Nil
  show ?case by simp
next
  case (Cons b bs)
  have "take_bit 56 (le_word bs) = le_word bs"
    using le_word_bound [of bs 7] Cons.prems by simp
  then have lt: "bit (le_word bs) i \<Longrightarrow> i < 56" for i
    by (metis bit_take_bit_iff)
  have "drop_bit 8 (le_word (b # bs)) = le_word bs"
    by (auto intro!: bit_word_eqI simp: bit_simps dest: lt bit_u8_less)
  with Cons show ?case by (simp del: le_word.simps)
qed

section \<open>Alignment\<close>

text \<open>
  \<open>CynAlign(S, A)\<close> rounds up to a power of two: \<open>(S + (A - 1)) & ~(A - 1)\<close>, in the
  arithmetic of the wider operand.
\<close>

definition CynAlign :: "'a::len word \<Rightarrow> 'a word \<Rightarrow> 'a word" where
  "CynAlign s a = (s + (a - 1)) AND NOT (a - 1)"

lemma NOT_mask_8: "(NOT (7 :: 'a::len word)) = NOT (mask 3)"
  by (simp add: mask_eq_exp_minus_1)

lemma and_not_mask_mult:
  "unat (w AND NOT (mask n) :: 'a::len word) = unat w div 2 ^ n * 2 ^ n"
proof -
  have "w AND NOT (mask n) = push_bit n (drop_bit n w)"
    by (rule bit_word_eqI) (auto simp: bit_simps)
  moreover have "unat (push_bit n (drop_bit n w)) = unat w div 2 ^ n * 2 ^ n"
  proof -
    have d: "unat (drop_bit n w) = unat w div 2 ^ n"
      using drop_bit_eq_div [of n "unat w"] by (simp only: unat_drop_bit_eq)
    have "unat (push_bit n (drop_bit n w)) = take_bit LENGTH('a) (unat w div 2 ^ n * 2 ^ n)"
      by (simp only: unsigned_push_bit_eq d push_bit_eq_mult [of n "unat w div 2 ^ n"])
    also have "\<dots> = unat w div 2 ^ n * 2 ^ n"
      by (rule take_bit_nat_eq_self)
        (metis div_times_less_eq_dividend le_less_trans unsigned_less)
    finally show ?thesis .
  qed
  ultimately show ?thesis by simp
qed

lemma unat_CynAlign_8:
  fixes k :: u32
  assumes "unat k + 7 < 2 ^ 32"
  shows "unat (CynAlign k 8) = (unat k + 7) div 8 * 8"
proof -
  have "CynAlign k 8 = (k + 7) AND NOT (mask 3)" by (simp add: CynAlign_def mask_eq_exp_minus_1)
  moreover have "unat (k + 7) = unat k + 7" using assms by (simp add: unat_word_ariths)
  ultimately show ?thesis using and_not_mask_mult [of "k + 7" 3] by simp
qed

text \<open>The same function without complements, for evaluation.\<close>

lemma CynAlign_code [code]: "CynAlign s a = (let m = a - 1; w = s + m in w - (w AND m))"
proof -
  have "w AND NOT m = w - (w AND m)" for w m :: "'a word"
  proof -
    have "(w AND m) + (w AND NOT m) = (w AND m) OR (w AND NOT m)"
      by (rule disjunctive_add_eq_or) (auto intro!: bit_word_eqI simp: bit_simps)
    also have "\<dots> = w" by (rule bit_word_eqI) (auto simp: bit_simps)
    finally show ?thesis by (simp add: algebra_simps)
  qed
  then show ?thesis by (simp add: CynAlign_def Let_def)
qed

end
