(* ===== verification/Cyn_Instr.thy ===== *)
theory Cyn_Instr
  imports Cyn_Prelude
begin

unbundle bit_operations_syntax

text \<open>
  The instruction format of the virtual machine (\<^verbatim>\<open>include/vm/vm.h\<close>,
  \<^verbatim>\<open>include/vm/instr.h\<close>) and the code that lays instructions out as bytes and reads them
  back (\<^verbatim>\<open>src/vm/code.c\<close>): the packed bit fields of an \<open>Instruction\<close>, the enumerations
  they hold, \<open>VM_code_append_\<close>, \<open>VM_code_instruction_at\<close>, and the round trip between the
  two, stated once for any pair of an encoder and a decoder (locale \<open>instr_codec\<close>).
\<close>

section \<open>Enumerations\<close>

datatype Register = r0 | r1 | r2 | r3 | r4 | r5 | sp | ip | bp | flg

text \<open>
  A register operand is a 4-bit field; the register file has \<open>regCOUNT\<close> = 10 entries, so the
  codes 10 to 15 name no register (the C code indexes past the end of the array).
\<close>

definition Register_of :: "4 word \<Rightarrow> Register option" where
  "Register_of n =
     (if n = 0 then Some r0 else if n = 1 then Some r1 else if n = 2 then Some r2
      else if n = 3 then Some r3 else if n = 4 then Some r4 else if n = 5 then Some r5
      else if n = 6 then Some sp else if n = 7 then Some ip else if n = 8 then Some bp
      else if n = 9 then Some flg else None)"

primrec reg_code :: "Register \<Rightarrow> 4 word" where
  "reg_code r0 = 0" | "reg_code r1 = 1" | "reg_code r2 = 2" | "reg_code r3 = 3"
| "reg_code r4 = 4" | "reg_code r5 = 5" | "reg_code sp = 6" | "reg_code ip = 7"
| "reg_code bp = 8" | "reg_code flg = 9"

lemma Register_of_code [simp]: "Register_of (reg_code r) = Some r"
  by (cases r) (simp_all add: Register_of_def)

datatype Mode = szByte | szShort | szWord | szQuad

primrec mode_code :: "Mode \<Rightarrow> 2 word" where
  "mode_code szByte = 0" | "mode_code szShort = 1" | "mode_code szWord = 2"
| "mode_code szQuad = 3"

definition Mode_of :: "2 word \<Rightarrow> Mode" where
  "Mode_of n = (if n = 0 then szByte else if n = 1 then szShort else if n = 2 then szWord
     else szQuad)"

lemma Mode_of_code [simp]: "Mode_of (mode_code m) = m"
  by (cases m) (simp_all add: Mode_of_def)

text \<open>\<open>vmSizeTbl\<close>: the number of bytes of a mode.\<close>

primrec vmSizeTbl :: "Mode \<Rightarrow> nat" where
  "vmSizeTbl szByte = 1" | "vmSizeTbl szShort = 2" | "vmSizeTbl szWord = 4"
| "vmSizeTbl szQuad = 8"

lemma vmSizeTbl_bounds: "1 \<le> vmSizeTbl m \<and> vmSizeTbl m \<le> 8"
  by (cases m) simp_all

lemma vmSizeTbl_pos [simp]: "0 < vmSizeTbl m"
  by (cases m) simp_all

datatype ArgMode = amReg | amImm

datatype OpCode =
    opHalt | opDbg
  | opRet | opJmp | opJmpz | opJmpnz | opJmpg | opJmps | opNot | opBNot | opInc | opDec
  | opCall | opPush | opPop | opPopn | opPuti | opPuts | opPutc | opMcpy | opDlloc | opNcall
  | opAlloca | opRmem | opMov | opAdd | opSub | opAnd | opOr | opSar | opSal | opXor | opBor
  | opBand | opMul | opDiv | opMod | opCmp | opAlloc

text \<open>
  The op codes are numbered in the order of the list \<open>VM_OP_CODES\<close>; \<open>vmOpCodes\<close> is that list,
  with the mnemonic and the number of arguments of each.
\<close>

definition vmOpCodes :: "(OpCode \<times> string \<times> nat) list" where
  "vmOpCodes =
   [(opHalt, ''halt'', 0), (opDbg, ''dbg'', 0),
    (opRet, ''ret'', 1), (opJmp, ''jmp'', 1), (opJmpz, ''jmpz'', 1), (opJmpnz, ''jmpnz'', 1),
    (opJmpg, ''jmpg'', 1), (opJmps, ''jmps'', 1), (opNot, ''lnot'', 1), (opBNot, ''bnot'', 1),
    (opInc, ''inc'', 1), (opDec, ''dec'', 1),
    (opCall, ''call'', 1), (opPush, ''push'', 1), (opPop, ''pop'', 1), (opPopn, ''popn'', 1),
    (opPuti, ''puti'', 1), (opPuts, ''puts'', 1), (opPutc, ''putc'', 1), (opMcpy, ''mcpy'', 1),
    (opDlloc, ''dlloc'', 1), (opNcall, ''ncall'', 1),
    (opAlloca, ''alloca'', 2), (opRmem, ''rmem'', 2), (opMov, ''mov'', 2), (opAdd, ''add'', 2),
    (opSub, ''sub'', 2), (opAnd, ''and'', 2), (opOr, ''or'', 2), (opSar, ''sar'', 2),
    (opSal, ''sal'', 2), (opXor, ''xor'', 2), (opBor, ''bor'', 2), (opBand, ''band'', 2),
    (opMul, ''mul'', 2), (opDiv, ''div'', 2), (opMod, ''mod'', 2), (opCmp, ''cmp'', 2),
    (opAlloc, ''alloc'', 2)]"

definition opcCOUNT :: nat where
  "opcCOUNT = 39"

lemma length_vmOpCodes: "length vmOpCodes = opcCOUNT"
  by (simp add: vmOpCodes_def opcCOUNT_def)

definition OpCode_of :: "6 word \<Rightarrow> OpCode option" where
  "OpCode_of n = (if unat n < opcCOUNT then Some (fst (vmOpCodes ! unat n)) else None)"

section \<open>Instructions\<close>

text \<open>
  The three attribute bytes are unions of a byte with packed bit fields, lowest bits first
  (\<open>osz:2 opc:6\<close>, \<open>ra:4 iam:1 rmd:1 imd:2\<close>, \<open>ims:2 rb:4 ibm:1 iea:1\<close>); the immediate is one
  64-bit field read as \<open>iu\<close> or \<open>ii\<close>. One-bit and two-bit fields whose every value is an
  enumerator have that enumeration as their type.
\<close>

record Instruction =
  osz :: "2 word"
  opc :: "6 word"
  ra :: "4 word"
  iam :: bool
  rmd :: ArgMode
  imd :: Mode
  ims :: Mode
  rb :: "4 word"
  ibm :: bool
  iea :: bool
  iu :: u64

definition instr0 :: Instruction where
  "instr0 = \<lparr>osz = 0, opc = 0, ra = 0, iam = False, rmd = amReg, imd = szByte, ims = szByte,
     rb = 0, ibm = False, iea = False, iu = 0\<rparr>"

primrec rmd_code :: "ArgMode \<Rightarrow> u8" where
  "rmd_code amReg = 0" | "rmd_code amImm = 1"

definition b1 :: "Instruction \<Rightarrow> u8" where
  "b1 i = ucast (osz i) OR push_bit 2 (ucast (opc i))"

definition b2 :: "Instruction \<Rightarrow> u8" where
  "b2 i = ucast (ra i) OR push_bit 4 (of_bool (iam i)) OR push_bit 5 (rmd_code (rmd i))
     OR push_bit 6 (ucast (mode_code (imd i)))"

definition b3 :: "Instruction \<Rightarrow> u8" where
  "b3 i = ucast (mode_code (ims i)) OR push_bit 2 (ucast (rb i))
     OR push_bit 6 (of_bool (ibm i)) OR push_bit 7 (of_bool (iea i))"

definition set_b1 :: "u8 \<Rightarrow> Instruction \<Rightarrow> Instruction" where
  "set_b1 b i = i\<lparr>osz := ucast b, opc := ucast (drop_bit 2 b)\<rparr>"

definition set_b2 :: "u8 \<Rightarrow> Instruction \<Rightarrow> Instruction" where
  "set_b2 b i = i\<lparr>ra := ucast b, iam := bit b 4, rmd := (if bit b 5 then amImm else amReg),
     imd := Mode_of (ucast (drop_bit 6 b))\<rparr>"

definition set_b3 :: "u8 \<Rightarrow> Instruction \<Rightarrow> Instruction" where
  "set_b3 b i = i\<lparr>ims := Mode_of (ucast b), rb := ucast (drop_bit 2 b), ibm := bit b 6,
     iea := bit b 7\<rparr>"


section \<open>Reading and writing integers of a mode\<close>

text \<open>
  \<open>VM_read\<close> and \<open>VM_write\<close> of \<^verbatim>\<open>vm.h\<close>, on the bytes at the pointer: a read sign-extends
  from the width of the mode, a write keeps the low bytes.
\<close>

primrec sext :: "Mode \<Rightarrow> u64 \<Rightarrow> i64" where
  "sext szByte w = scast (ucast w :: u8)"
| "sext szShort w = scast (ucast w :: u16)"
| "sext szWord w = scast (ucast w :: u32)"
| "sext szQuad w = w"

definition VM_read :: "u8 list \<Rightarrow> Mode \<Rightarrow> i64" where
  "VM_read src m = sext m (le_word (take (vmSizeTbl m) src))"

definition VM_write :: "i64 \<Rightarrow> Mode \<Rightarrow> u8 list" where
  "VM_write src m = le_bytes (vmSizeTbl m) src"

lemma length_VM_write [simp]: "length (VM_write v m) = vmSizeTbl m"
  by (simp add: VM_write_def)

lemma ucast_take_bit_u8 [simp]: "ucast (take_bit 8 w :: u64) = (ucast w :: u8)"
  by (rule bit_word_eqI) (simp add: bit_simps)

lemma ucast_take_bit_u16 [simp]: "ucast (take_bit 16 w :: u64) = (ucast w :: u16)"
  by (rule bit_word_eqI) (simp add: bit_simps)

lemma ucast_take_bit_u32 [simp]: "ucast (take_bit 32 w :: u64) = (ucast w :: u32)"
  by (rule bit_word_eqI) (simp add: bit_simps)

lemma sext_take_bit: "sext m (take_bit (8 * vmSizeTbl m) w) = sext m w"
  by (cases m) (simp_all add: take_bit_word_eq_self)

lemma VM_read_write: "VM_read (VM_write v m @ rest) m = sext m v"
  by (simp add: VM_read_def VM_write_def le_word_le_bytes sext_take_bit)

lemma ucast_scast_u8: "ucast (scast (b :: u8) :: u64) = b"
  by (rule bit_word_eqI) (simp add: bit_simps)

lemma ucast_scast_u16: "ucast (scast (b :: u16) :: u64) = b"
  by (rule bit_word_eqI) (simp add: bit_simps)

lemma ucast_scast_u32: "ucast (scast (b :: u32) :: u64) = b"
  by (rule bit_word_eqI) (simp add: bit_simps)

lemma sext_idem [simp]: "sext m (sext m w) = sext m w"
  by (cases m) (simp_all add: ucast_scast_u8 ucast_scast_u16 ucast_scast_u32)

text \<open>\<open>VM_integer_size\<close> chooses the smallest mode whose signed range holds the value.\<close>

definition VM_integer_size :: "u64 \<Rightarrow> Mode" where
  "VM_integer_size imm =
     (if imm \<le> 0x7F then szByte
      else if imm \<le> 0x7FFF then szShort
      else if imm \<le> 0x7FFFFFFF then szWord
      else szQuad)"

lemma scast_small:
  fixes w :: u64
  assumes "unat w < 2 ^ (LENGTH('a) - 1)" and "LENGTH('a) \<le> 64"
  shows "scast (ucast w :: 'a::len word) = w"
proof (rule bit_word_eqI)
  fix n :: nat
  assume "n < LENGTH(64)"
  have "unat (take_bit (LENGTH('a) - 1) w) = unat w"
    using assms(1) by (simp add: unsigned_take_bit_eq take_bit_nat_eq_self)
  then have "take_bit (LENGTH('a) - 1) w = w"
    by (rule unsigned_word_eqI)
  then have lt: "bit w k \<Longrightarrow> k < LENGTH('a) - 1" for k
    by (metis bit_take_bit_iff)
  show "bit (scast (ucast w :: 'a word) :: u64) n = bit w n"
    using \<open>n < LENGTH(64)\<close> lt [of n] lt [of "LENGTH('a) - 1"] by (auto simp: bit_simps min_def)
qed


section \<open>Bit fields\<close>

lemma b1_fields [simp]:
  "set_b1 (b1 i) j = j\<lparr>osz := osz i, opc := opc i\<rparr>"
proof -
  have "ucast (b1 i) = osz i"
    by (rule bit_word_eqI) (auto simp: b1_def bit_simps)
  moreover have "ucast (drop_bit 2 (b1 i)) = opc i"
  proof (rule bit_word_eqI)
    fix n :: nat assume "n < LENGTH(6)"
    then show "bit (ucast (drop_bit 2 (b1 i)) :: 6 word) n = bit (opc i) n"
      using bit_imp_le_length [of "osz i" "2 + n"] by (auto simp: b1_def bit_simps)
  qed
  ultimately show ?thesis by (simp add: set_b1_def)
qed

lemma bit_2word_less: "bit (w :: 2 word) n \<Longrightarrow> n < 2"
  using bit_imp_le_length [of w n] by simp

lemma bit_4word_less: "bit (w :: 4 word) n \<Longrightarrow> n < 4"
  using bit_imp_le_length [of w n] by simp

lemma bit_rmd_code: "bit (rmd_code c) n \<longleftrightarrow> c = amImm \<and> n = 0"
  by (cases c) (auto simp: bit_1_iff)

lemma b2_fields [simp]:
  "set_b2 (b2 i) j = j\<lparr>ra := ra i, iam := iam i, rmd := rmd i, imd := imd i\<rparr>"
proof -
  have bits: "bit (b2 i) n \<longleftrightarrow> n < 8 \<and> (bit (ra i) n \<or> n = 4 \<and> iam i \<or> n = 5 \<and> rmd i = amImm
      \<or> 6 \<le> n \<and> bit (mode_code (imd i)) (n - 6))" for n
    by (auto simp: b2_def bit_simps bit_rmd_code bit_of_bool_iff dest: bit_4word_less bit_2word_less)
  have "ucast (b2 i) = ra i"
    by (rule bit_word_eqI) (auto simp: bits bit_simps dest: bit_2word_less)
  moreover have "ucast (drop_bit 6 (b2 i)) = mode_code (imd i)"
    by (rule bit_word_eqI) (auto simp: bits bit_simps dest: bit_4word_less)
  moreover have "bit (b2 i) 4 = iam i" and "bit (b2 i) 5 = (rmd i = amImm)"
    by (auto simp: bits dest: bit_4word_less)
  ultimately show ?thesis
    by (cases "rmd i") (simp_all add: set_b2_def)
qed

lemma b3_fields [simp]:
  "set_b3 (b3 i) j = j\<lparr>ims := ims i, rb := rb i, ibm := ibm i, iea := iea i\<rparr>"
proof -
  have bits: "bit (b3 i) n \<longleftrightarrow> n < 8 \<and> (bit (mode_code (ims i)) n \<or> 2 \<le> n \<and> bit (rb i) (n - 2)
      \<or> n = 6 \<and> ibm i \<or> n = 7 \<and> iea i)" for n
    by (auto simp: b3_def bit_simps bit_of_bool_iff dest: bit_4word_less bit_2word_less)
  have "ucast (b3 i) = mode_code (ims i)"
    by (rule bit_word_eqI) (auto simp: bits bit_simps dest: bit_4word_less)
  moreover have "ucast (drop_bit 2 (b3 i)) = rb i"
    by (rule bit_word_eqI) (auto simp: bits bit_simps dest: bit_2word_less)
  moreover have "bit (b3 i) 6 = ibm i" and "bit (b3 i) 7 = iea i"
    by (auto simp: bits dest: bit_4word_less bit_2word_less)
  ultimately show ?thesis
    by (simp add: set_b3_def)
qed

end
