(* ===== verification/Cyn_Code.thy ===== *)
theory Cyn_Code
  imports Cyn_Instr
begin

unbundle bit_operations_syntax

text \<open>
  Bytecode (\<^verbatim>\<open>src/vm/code.c\<close>): \<open>VM_code_append\<close> writes instructions at the end of a code
  vector, \<open>VM_code_instruction_at\<close> reads one back. A \<open>Code\<close> vector is the list of its bytes.
  The locale \<open>instr_codec\<close> is what a reader of bytecode relies on: whatever stands before and
  after it, the bytes of an instruction decode to that instruction. It is interpreted here on
  the disassembler's reader and in \<open>Cyn_VM\<close> on the fetch stage of the machine.
\<close>

type_synonym Code = "u8 list"

text \<open>\<open>*Vector_at(code, i)\<close>: out of range \<open>Vector_at\<close> is \<open>NULL\<close>, and reading it undefined.\<close>

definition Vector_at :: "Code \<Rightarrow> nat \<Rightarrow> u8 option" where
  "Vector_at code i = (if i < length code then Some (code ! i) else None)"

text \<open>
  Reading an integer of a mode through \<open>Vector_at\<close>: \<open>None\<close> when the pointer is \<open>NULL\<close> or the
  integer runs past the end of the vector, both undefined in the source.
\<close>

definition read_code :: "Code \<Rightarrow> nat \<Rightarrow> Mode \<Rightarrow> i64 option" where
  "read_code code i m =
     (if i + vmSizeTbl m \<le> length code then Some (VM_read (drop i code) m) else None)"

section \<open>Appending instructions\<close>

text \<open>
  The mode of the immediate is \<open>ra\<close> for a two-byte instruction and \<open>ims\<close> otherwise; it indexes
  \<open>vmSizeTbl\<close>, which has four entries.
\<close>

definition append_mode :: "Instruction \<Rightarrow> Mode option" where
  "append_mode i =
     (if osz i = 2 then (if ra i < 4 then Some (Mode_of (ucast (ra i))) else None)
      else Some (ims i))"

fun VM_code_append :: "Code \<Rightarrow> Instruction list \<Rightarrow> Code option" where
  "VM_code_append code [] = Some code"
| "VM_code_append code (i # seq) =
     (let code = code @ [b1 i];
          code = (if osz i > 1 then code @ [b2 i] else code);
          code = (if osz i > 2 then code @ [b3 i] else code)
      in if osz i > 1 \<and> (rmd i = amImm \<or> iea i) then
           (case append_mode i of
              None \<Rightarrow> None
            | Some m \<Rightarrow> VM_code_append (code @ VM_write (iu i) m) seq)
         else VM_code_append code seq)"

section \<open>Reading an instruction\<close>

definition VM_code_instruction_at :: "Code \<Rightarrow> Instruction \<Rightarrow> u32 \<Rightarrow> (Instruction \<times> u32) option" where
  "VM_code_instruction_at code i iip =
    (let start = iip; len = (of_nat (length code) :: u32) in
     if iip + 1 > len then Some (i\<lparr>osz := 0\<rparr>, 0)
     else Option.bind (Vector_at code (unat iip)) (\<lambda>b.
       let i = set_b1 b i; iip = iip + 1 in
       if start + ucast (osz i) > len then Some (i\<lparr>osz := 0\<rparr>, 0)
       else if osz i \<le> 1 then Some (i, ucast (osz i))
       else Option.bind (Vector_at code (unat iip)) (\<lambda>b.
         let i = set_b2 b i; iip = iip + 1;
             i = (if osz i = 2 \<and> rmd i = amImm
                  then i\<lparr>ims := Mode_of (ucast (ra i)), ra := 0\<rparr> else i)
         in Option.bind
              (if osz i = 3
               then Option.bind (Vector_at code (unat iip)) (\<lambda>b. Some (set_b3 b i, iip + 1))
               else Some (i, iip))
              (\<lambda>(i, iip).
                 if rmd i = amImm \<or> iea i then
                   Option.bind (read_code code (unat iip) (ims i)) (\<lambda>v.
                     Some (i\<lparr>iu := v\<rparr>, iip + of_nat (vmSizeTbl (ims i)) - start))
                 else Some (i, iip - start)))))"

section \<open>The bytes of one instruction\<close>

text \<open>What an instruction must satisfy for its bytes to determine it.\<close>

definition encodable :: "Instruction \<Rightarrow> bool" where
  "encodable i \<longleftrightarrow> osz i \<noteq> 0 \<and> (osz i = 2 \<longrightarrow> (if rmd i = amImm then ra i < 4 else \<not> iea i))"

definition has_imm :: "Instruction \<Rightarrow> bool" where
  "has_imm i \<longleftrightarrow> osz i > 1 \<and> (rmd i = amImm \<or> iea i)"

definition imm_mode :: "Instruction \<Rightarrow> Mode" where
  "imm_mode i = (if osz i = 2 then Mode_of (ucast (ra i)) else ims i)"

definition attr_bytes :: "Instruction \<Rightarrow> u8 list" where
  "attr_bytes i = [b1 i] @ (if osz i > 1 then [b2 i] else []) @ (if osz i > 2 then [b3 i] else [])"

definition instr_bytes :: "Instruction \<Rightarrow> u8 list" where
  "instr_bytes i = attr_bytes i @ (if has_imm i then VM_write (iu i) (imm_mode i) else [])"

text \<open>
  The instruction a reader gets back: the fields that its size has no bytes for are zero, the
  mode of a two-byte immediate moves from \<open>ra\<close> to \<open>ims\<close>, and the immediate is sign-extended
  from its mode.
\<close>

definition decoded :: "Instruction \<Rightarrow> Instruction" where
  "decoded i =
     (if osz i = 1 then instr0\<lparr>osz := 1, opc := opc i\<rparr>
      else if osz i = 2 then
        instr0\<lparr>osz := 2, opc := opc i, ra := (if rmd i = amImm then 0 else ra i), iam := iam i,
          rmd := rmd i, imd := imd i, ims := (if has_imm i then imm_mode i else szByte),
          iu := (if has_imm i then sext (imm_mode i) (iu i) else 0)\<rparr>
      else i\<lparr>iu := (if has_imm i then sext (imm_mode i) (iu i) else 0)\<rparr>)"

lemma osz_cases: "(osz i = 0 \<Longrightarrow> P) \<Longrightarrow> (osz i = 1 \<Longrightarrow> P) \<Longrightarrow> (osz i = 2 \<Longrightarrow> P) \<Longrightarrow> (osz i = 3 \<Longrightarrow> P) \<Longrightarrow> P"
  for i :: Instruction
proof -
  assume a: "osz i = 0 \<Longrightarrow> P" "osz i = 1 \<Longrightarrow> P" "osz i = 2 \<Longrightarrow> P" "osz i = 3 \<Longrightarrow> P"
  have "unat (osz i) < 4" using unsigned_less [of "osz i"] by simp
  then have "unat (osz i) = 0 \<or> unat (osz i) = 1 \<or> unat (osz i) = 2 \<or> unat (osz i) = 3" by arith
  then have "osz i = 0 \<or> osz i = 1 \<or> osz i = 2 \<or> osz i = 3"
    by (auto simp: word_unat_eq_iff)
  with a show P by blast
qed

lemma append_mode_encodable: "encodable i \<Longrightarrow> has_imm i \<Longrightarrow> append_mode i = Some (imm_mode i)"
  by (rule osz_cases [of i]) (auto simp: encodable_def has_imm_def append_mode_def imm_mode_def
      split: if_splits)

lemma VM_code_append_encodable:
  assumes "\<forall>i \<in> set seq. encodable i"
  shows "VM_code_append code seq = Some (code @ concat (map instr_bytes seq))"
  using assms
proof (induction seq arbitrary: code)
  case Nil
  show ?case by simp
next
  case (Cons i seq)
  then show ?case
    by (auto simp: Let_def append_mode_encodable has_imm_def instr_bytes_def attr_bytes_def)
qed


section \<open>Reading back what was appended\<close>

lemma Vector_at_drop: "drop n code = b # rest \<Longrightarrow> Vector_at code n = Some b"
  by (metis Vector_at_def drop_eq_Nil linorder_not_less list.distinct(1) nth_via_drop)

lemma read_code_drop: "drop n code = VM_write v m @ rest \<Longrightarrow> read_code code n m = Some (sext m v)"
proof -
  assume d: "drop n code = VM_write v m @ rest"
  then have "length code - n = vmSizeTbl m + length rest"
    by (metis length_VM_write length_append length_drop)
  then have "n + vmSizeTbl m \<le> length code"
    using vmSizeTbl_pos [of m] by linarith
  with d show ?thesis by (simp add: read_code_def VM_read_write)
qed

lemma unat_of_nat_u32: "n < 2 ^ 32 \<Longrightarrow> unat (of_nat n :: u32) = n"
  by (simp add: unat_of_nat)

lemma of_nat_less_u32: "a < 2 ^ 32 \<Longrightarrow> b < 2 ^ 32 \<Longrightarrow> (of_nat a < (of_nat b :: u32)) = (a < b)"
  by (simp only: word_less_nat_alt unat_of_nat_u32)

lemma ucast_osz: "osz i = 1 \<Longrightarrow> (ucast (osz i) :: u32) = 1" "osz i = 2 \<Longrightarrow> (ucast (osz i) :: u32) = 2"
  "osz i = 3 \<Longrightarrow> (ucast (osz i) :: u32) = 3"
  by simp_all

lemma length_attr_bytes:
  "osz i \<noteq> 0 \<Longrightarrow> length (attr_bytes i) = unat (osz i)"
  by (rule osz_cases [of i]) (simp_all add: attr_bytes_def)

lemma length_instr_bytes:
  "osz i \<noteq> 0 \<Longrightarrow> length (instr_bytes i) =
     unat (osz i) + (if has_imm i then vmSizeTbl (imm_mode i) else 0)"
  by (simp add: instr_bytes_def length_attr_bytes)

text \<open>The bytes that a reader finds at the place of an instruction.\<close>

lemma encoded_reads:
  assumes enc: "encodable i" and at: "drop L code = instr_bytes i @ post"
  shows "L + length (instr_bytes i) \<le> length code"
    and "Vector_at code L = Some (b1 i)"
    and "osz i > 1 \<Longrightarrow> Vector_at code (Suc L) = Some (b2 i)"
    and "osz i = 3 \<Longrightarrow> Vector_at code (Suc (Suc L)) = Some (b3 i)"
    and "has_imm i \<Longrightarrow> read_code code (L + unat (osz i)) (imm_mode i) = Some (sext (imm_mode i) (iu i))"
proof -
  from enc have o0: "osz i \<noteq> 0" by (simp add: encodable_def)
  have d: "drop (L + k) code = drop k (instr_bytes i @ post)" for k
    using arg_cong [OF at, of "drop k"] by (simp add: add.commute)
  have "length (drop L code) = length (instr_bytes i) + length post"
    by (simp add: at)
  moreover have "0 < length (instr_bytes i)"
    by (simp add: instr_bytes_def attr_bytes_def)
  ultimately show "L + length (instr_bytes i) \<le> length code"
    unfolding length_drop by arith
  show "Vector_at code L = Some (b1 i)"
    using d [of 0] by (auto intro!: Vector_at_drop simp: instr_bytes_def attr_bytes_def)
  show "osz i > 1 \<Longrightarrow> Vector_at code (Suc L) = Some (b2 i)"
    using d [of 1] by (auto intro!: Vector_at_drop simp: instr_bytes_def attr_bytes_def)
  show "osz i = 3 \<Longrightarrow> Vector_at code (Suc (Suc L)) = Some (b3 i)"
    using d [of 2] by (auto intro!: Vector_at_drop simp: instr_bytes_def attr_bytes_def)
  show "has_imm i \<Longrightarrow> read_code code (L + unat (osz i)) (imm_mode i) = Some (sext (imm_mode i) (iu i))"
    using d [of "unat (osz i)"] length_attr_bytes [OF o0]
    by (auto intro!: read_code_drop simp: instr_bytes_def)
qed

lemma instruction_at_encoded:
  assumes enc: "encodable i"
    and len: "length code < 2 ^ 31"
    and at: "drop L code = instr_bytes i @ post"
  shows "VM_code_instruction_at code instr0 (of_nat L) =
     Some (decoded i, of_nat (length (instr_bytes i)))"
proof -
  let ?N = "length code"
  from enc have o0: "osz i \<noteq> 0" by (simp add: encodable_def)
  note reads = encoded_reads [OF enc at]
  have bound: "L + length (instr_bytes i) \<le> ?N" by (rule reads)
  then have osz_bound: "L + unat (osz i) \<le> ?N"
    by (simp add: length_instr_bytes [OF o0])
  have "1 \<le> unat (osz i)"
    using o0 by (simp add: Suc_le_eq unat_gt_0)
  with osz_bound have one: "L + 1 \<le> ?N" by simp
  note at0 = reads(2) and at1 = reads(3) and at2 = reads(4) and imm = reads(5)
  have L3: "L + 3 = Suc (Suc (Suc L))" by simp
  define w :: u32 where "w = of_nat L"
  have un: "unat w = L" "unat (1 + w) = Suc L"
    "osz i > 1 \<Longrightarrow> unat (2 + w) = Suc (Suc L)"
    "osz i = 3 \<Longrightarrow> unat (3 + w) = Suc (Suc (Suc L))"
    using osz_bound len one unat_of_nat_u32 [of L] unat_of_nat_u32 [of "Suc L"]
      unat_of_nat_u32 [of "Suc (Suc L)"] unat_of_nat_u32 [of "Suc (Suc (Suc L))"]
    by (simp_all add: w_def word_less_nat_alt add.commute)
  have uN: "unat (of_nat ?N :: u32) = ?N"
    using len by (intro unat_of_nat_u32) simp
  have lt1: "\<not> (of_nat ?N :: u32) < 1 + w"
    using one by (simp add: word_less_nat_alt un uN)
  have lt2: "osz i = 2 \<Longrightarrow> \<not> (of_nat ?N :: u32) < 2 + w" "osz i = 3 \<Longrightarrow> \<not> (of_nat ?N :: u32) < 3 + w"
    using osz_bound by (simp_all add: word_less_nat_alt un uN)
  note base = VM_code_instruction_at_def Let_def un at0 at1 at2 lt1 lt2 length_instr_bytes [OF o0]
    instr0_def decoded_def word_le_nat_alt [of _ 1] add.commute [of w]
  have "VM_code_instruction_at code instr0 w = Some (decoded i, of_nat (length (instr_bytes i)))"
    (is ?thesis)
  proof (rule osz_cases [of i])
    assume "osz i = 0" with o0 show ?thesis by simp
  next
    assume o: "osz i = 1"
    show ?thesis
      by (simp add: base o has_imm_def)
  next
    assume o: "osz i = 2"
    show ?thesis
    proof (cases "rmd i = amImm")
      case True
      with o enc have im: "has_imm i" and m: "imm_mode i = Mode_of (ucast (ra i))"
        by (simp_all add: has_imm_def imm_mode_def)
      with imm [OF im] o True show ?thesis
        by (simp add: base)
    next
      case False
      with o enc have im: "\<not> has_imm i" and "rmd i = amReg" and "\<not> iea i"
        by (auto simp add: has_imm_def encodable_def intro: ArgMode.exhaust)
      with o show ?thesis
        by (simp add: base)
    qed
  next
    assume o: "osz i = 3"
    have hi: "has_imm i = (rmd i = amImm \<or> iea i)" and m: "imm_mode i = ims i"
      using o by (simp_all add: has_imm_def imm_mode_def)
    have eq: "i\<lparr>iu := v\<rparr> = \<lparr>osz = 3, opc = opc i, ra = ra i, iam = iam i, rmd = rmd i, imd = imd i,
        ims = ims i, rb = rb i, ibm = ibm i, iea = iea i, iu = v\<rparr>" for v
      using o by (cases i) simp
    show ?thesis
    proof (cases "rmd i = amImm \<or> iea i")
      case True
      with imm o hi m show ?thesis
        by (simp add: base eq L3)
    next
      case False
      with o show ?thesis
        by (simp add: base hi eq)
    qed
  qed
  then show ?thesis by (simp only: w_def)
qed


section \<open>Readers of bytecode\<close>

text \<open>Where the \<open>n\<close>-th of a sequence of encoded things starts.\<close>

lemma drop_encoded_nth:
  assumes "drop k code = concat (map enc seq) @ post" and "n < length seq"
  shows "drop (k + length (concat (map enc (take n seq)))) code =
    enc (seq ! n) @ (concat (map enc (drop (Suc n) seq)) @ post)"
proof -
  let ?p = "concat (map enc (take n seq))"
  have split: "concat (map enc seq) = ?p @ enc (seq ! n) @ concat (map enc (drop (Suc n) seq))"
    using assms(2) by (subst id_take_nth_drop [of n seq]) simp_all
  have "drop (k + length ?p) code = drop (length ?p) (drop k code)"
    by (simp add: add.commute)
  then show ?thesis by (simp add: assms(1) split)
qed

text \<open>
  A reader takes a code vector and an offset and gives the instruction at the offset with the
  number of bytes it occupies. The law: at the bytes of an encodable instruction it gives that
  instruction, up to \<open>norm\<close>.
\<close>

locale instr_codec =
  fixes enc :: "'i \<Rightarrow> u8 list"
    and dec :: "u8 list \<Rightarrow> nat \<Rightarrow> ('i \<times> nat) option"
    and ok :: "'i \<Rightarrow> bool"
    and norm :: "'i \<Rightarrow> 'i"
  assumes dec_enc: "ok i \<Longrightarrow> length code < 2 ^ 31 \<Longrightarrow> drop k code = enc i @ post \<Longrightarrow>
      dec code k = Some (norm i, length (enc i))"
begin

text \<open>Reading \<open>n\<close> instructions one after the other from an offset.\<close>

primrec walk :: "u8 list \<Rightarrow> nat \<Rightarrow> nat \<Rightarrow> 'i list option" where
  "walk code k 0 = Some []"
| "walk code k (Suc n) =
     (case dec code k of
        None \<Rightarrow> None
      | Some (i, len) \<Rightarrow> map_option ((#) i) (walk code (k + len) n))"

lemma walk_enc:
  assumes "\<forall>i \<in> set seq. ok i" and "length code < 2 ^ 31"
    and "drop k code = concat (map enc seq) @ post"
  shows "walk code k (length seq) = Some (map norm seq)"
  using assms
proof (induction seq arbitrary: k)
  case Nil
  show ?case by simp
next
  case (Cons i seq)
  have at: "drop k code = enc i @ (concat (map enc seq) @ post)"
    using Cons.prems(3) by simp
  have "drop (k + length (enc i)) code = concat (map enc seq) @ post"
    using arg_cong [OF at, of "drop (length (enc i))"] by (simp add: add.commute)
  then have "walk code (k + length (enc i)) (length seq) = Some (map norm seq)"
    using Cons by simp
  moreover have "dec code k = Some (norm i, length (enc i))"
    using dec_enc [OF _ Cons.prems(2) at] Cons.prems(1) by simp
  ultimately show ?case by simp
qed

text \<open>The offset of the \<open>n\<close>-th instruction of a sequence, and the read there.\<close>

lemma dec_nth:
  assumes "\<forall>i \<in> set seq. ok i" and "length code < 2 ^ 31"
    and "drop k code = concat (map enc seq) @ post" and "n < length seq"
  shows "dec code (k + length (concat (map enc (take n seq)))) =
    Some (norm (seq ! n), length (enc (seq ! n)))"
  using assms by (intro dec_enc [OF _ _ drop_encoded_nth]) auto

end

text \<open>The reader of the disassembler, as offsets and sizes that are numbers.\<close>

definition instruction_at :: "Code \<Rightarrow> nat \<Rightarrow> (Instruction \<times> nat) option" where
  "instruction_at code k =
     map_option (\<lambda>(i, n). (i, unat n)) (VM_code_instruction_at code instr0 (of_nat k))"

lemma instr_bytes_bounds: "osz i \<noteq> 0 \<Longrightarrow> 1 \<le> length (instr_bytes i) \<and> length (instr_bytes i) \<le> 11"
  by (rule osz_cases [of i])
    (insert vmSizeTbl_bounds [of "imm_mode i"], auto simp: length_instr_bytes)

interpretation disasm: instr_codec instr_bytes instruction_at encodable decoded
proof (unfold_locales)
  fix i code k post
  assume ok: "encodable i" and len: "length code < 2 ^ 31"
    and at: "drop k code = instr_bytes i @ post"
  have "length (instr_bytes i) < 2 ^ 32"
    using instr_bytes_bounds [of i] ok by (auto simp: encodable_def)
  then show "instruction_at code k = Some (decoded i, length (instr_bytes i))"
    by (simp add: instruction_at_def instruction_at_encoded [OF ok len at] unat_of_nat_u32)
qed

end
