(* ===== verification/Cyn_Alloc.thy ===== *)
theory Cyn_Alloc
  imports Cyn_Prelude "HOL-Library.Multiset"
begin

unbundle bit_operations_syntax

text \<open>
  The contract of the heap allocator, on lists of blocks (address and size) instead of linked
  descriptors: what the functions of \<^verbatim>\<open>src/vm/memory.c\<close> do to the free and the used
  blocks, and the invariant they keep. The invariant is a tiling: put in order of address, the
  free and the used blocks follow each other without gaps from the heap boundary to \<open>top\<close>.
  \<open>Cyn_Heap\<close> shows that the pointer code implements these operations.
\<close>

type_synonym block = "u32 \<times> u32"

record AHeap =
  afree :: "block list"
  aused :: "block list"
  afresh :: nat
  atop :: u32
  asth :: u32
  almt :: u32
  aaln :: u8

section \<open>Operations\<close>

definition a_insert :: "block \<Rightarrow> block list \<Rightarrow> block list" where
  "a_insert b fs = takeWhile (\<lambda>c. fst c < fst b) fs @ b # dropWhile (\<lambda>c. fst c < fst b) fs"

fun coalesce :: "block list \<Rightarrow> block list" where
  "coalesce ((a, s) # (b, t) # fs) =
     (if a + s = b then coalesce ((a, s + t) # fs) else (a, s) # coalesce ((b, t) # fs))"
| "coalesce fs = fs"

definition a_top :: "AHeap \<Rightarrow> u32 \<Rightarrow> block \<Rightarrow> bool" where
  "a_top h n b \<longleftrightarrow> fst b + snd b \<ge> atop h \<and> fst b + n \<le> almt h"

definition a_release :: "block \<Rightarrow> AHeap \<Rightarrow> AHeap" where
  "a_release b h = (let fs = a_insert b (afree h) in
     h\<lparr>afree := coalesce fs, afresh := afresh h + (length fs - length (coalesce fs))\<rparr>)"

definition a_alloc_block :: "u32 \<Rightarrow> AHeap \<Rightarrow> block option \<times> AHeap" where
  "a_alloc_block n h =
     (case List.extract (\<lambda>b. a_top h n b \<or> snd b \<ge> n) (afree h) of
        Some (xs, b, ys) \<Rightarrow>
          if a_top h n b then
            (Some (fst b, n), h\<lparr>afree := xs @ ys, aused := (fst b, n) # aused h, atop := fst b + n\<rparr>)
          else if afresh h \<noteq> 0 \<and> snd b - n \<ge> asth h then
            (Some (fst b, n),
             a_release (fst b + n, snd b - n)
               (h\<lparr>afree := xs @ ys, aused := (fst b, n) # aused h, afresh := afresh h - 1\<rparr>))
          else (Some b, h\<lparr>afree := xs @ ys, aused := b # aused h\<rparr>)
      | None \<Rightarrow>
          if afresh h \<noteq> 0 \<and> atop h + n \<le> almt h then
            (Some (atop h, n), h\<lparr>aused := (atop h, n) # aused h, afresh := afresh h - 1,
                                 atop := atop h + n\<rparr>)
          else (None, h))"

definition a_alloc :: "u32 \<Rightarrow> AHeap \<Rightarrow> u32 \<times> AHeap" where
  "a_alloc n h = (case a_alloc_block (CynAlign n (ucast (aaln h))) h of
     (Some b, h) \<Rightarrow> (fst b, h) | (None, h) \<Rightarrow> (0, h))"

definition a_free :: "u32 \<Rightarrow> AHeap \<Rightarrow> bool \<times> AHeap" where
  "a_free a h =
     (if a = 0 then (False, h)
      else case List.extract (\<lambda>b. a = fst b) (aused h) of
        Some (xs, b, ys) \<Rightarrow> (True, a_release b (h\<lparr>aused := xs @ ys\<rparr>))
      | None \<Rightarrow> (False, h))"

section \<open>Tilings\<close>

primrec tiles :: "nat \<Rightarrow> block list \<Rightarrow> nat \<Rightarrow> bool" where
  "tiles a [] t \<longleftrightarrow> a = t"
| "tiles a (b # bs) t \<longleftrightarrow>
     unat (fst b) = a \<and> snd b \<noteq> 0 \<and> tiles (a + unat (snd b)) bs t"

lemma tiles_append: "tiles a (xs @ ys) t \<longleftrightarrow> (\<exists>u. tiles a xs u \<and> tiles u ys t)"
  by (induction xs arbitrary: a) auto

lemma tiles_le: "tiles a bs t \<Longrightarrow> a \<le> t"
  by (induction bs arbitrary: a) (auto, metis add_leD1)

lemma tiles_bound: "tiles a bs t \<Longrightarrow> b \<in> set bs \<Longrightarrow>
  a \<le> unat (fst b) \<and> 0 < unat (snd b) \<and> unat (fst b) + unat (snd b) \<le> t"
proof (induction bs arbitrary: a)
  case Nil
  then show ?case by simp
next
  case (Cons c bs)
  show ?case
  proof (cases "b = c")
    case True
    with Cons.prems show ?thesis
      by (auto simp: unat_gt_0 dest: tiles_le)
  next
    case False
    with Cons.prems Cons.IH [of "a + unat (snd c)"] show ?thesis by auto
  qed
qed

definition seg :: "block \<Rightarrow> nat set" where
  "seg b = {unat (fst b)..<unat (fst b) + unat (snd b)}"

lemma tiles_cover: "tiles a bs t \<Longrightarrow> (\<Union>b\<in>set bs. seg b) = {a..<t}"
proof (induction bs arbitrary: a)
  case Nil
  then show ?case by simp
next
  case (Cons b bs)
  then have "(\<Union>c\<in>set bs. seg c) = {a + unat (snd b)..<t}" "a + unat (snd b) \<le> t"
    by (auto dest: tiles_le)
  with Cons.prems show ?case
    by (simp add: seg_def ivl_disj_un)
qed

lemma tiles_distinct: "tiles a bs t \<Longrightarrow> distinct (map fst bs)"
proof (induction bs arbitrary: a)
  case Nil
  then show ?case by simp
next
  case (Cons b bs)
  have "fst c \<noteq> fst b" if "c \<in> set bs" for c
    using tiles_bound [of "a + unat (snd b)" bs t c] that Cons.prems
    by (auto simp: unat_gt_0 unat_eq_0)
  then show ?case using Cons by fastforce
qed

lemma tiles_disjoint:
  assumes "tiles a bs t" "b \<in> set bs" "c \<in> set bs" "b \<noteq> c"
  shows "seg b \<inter> seg c = {}"
  using assms
proof (induction bs arbitrary: a)
  case Nil
  then show ?case by simp
next
  case (Cons d bs)
  have *: "seg d \<inter> seg e = {}" if "e \<in> set bs" for e
    using tiles_bound [of "a + unat (snd d)" bs t e] that Cons.prems
    by (auto simp: seg_def)
  show ?case
    using Cons.IH [of "a + unat (snd d)"] Cons.prems * [of b] * [of c] by auto
qed

text \<open>Two blocks of a tiling that touch are neighbours in it.\<close>

lemma tiles_neighbours:
  assumes "tiles a bs t" "b \<in> set bs" "c \<in> set bs" "unat (fst b) + unat (snd b) = unat (fst c)"
  shows "\<exists>xs ys. bs = xs @ b # c # ys"
proof -
  obtain xs zs where bs: "bs = xs @ b # zs" using assms(2) by (auto simp: in_set_conv_decomp)
  with assms(1) have xs: "tiles a xs (unat (fst b))"
    and zs: "tiles (unat (fst b) + unat (snd b)) zs t" and b: "snd b \<noteq> 0"
    by (auto simp: tiles_append)
  have "c \<notin> set xs"
    by (intro notI, drule tiles_bound [OF xs]) (use assms(4) in linarith)
  moreover have "c \<noteq> b" using assms(4) b by (auto simp: unat_eq_0)
  ultimately have c: "c \<in> set zs" using assms(3) bs by auto
  then obtain d ds where d: "zs = d # ds" by (cases zs) auto
  have "c = d"
  proof (rule ccontr)
    assume "c \<noteq> d"
    then have "c \<in> set ds" using c d by simp
    then have "unat (fst b) + unat (snd b) + unat (snd d) \<le> unat (fst c)"
      using zs d tiles_bound [of _ ds t c] by fastforce
    then show False using assms(4) zs d by (simp add: unat_eq_0)
  qed
  then show ?thesis using bs d by blast
qed

section \<open>The invariant\<close>

definition tiled :: "nat \<Rightarrow> nat \<Rightarrow> block multiset \<Rightarrow> bool" where
  "tiled hb t M \<longleftrightarrow> (\<exists>bs. mset bs = M \<and> tiles hb bs t)"

fun apart :: "block list \<Rightarrow> bool" where
  "apart (b # c # fs) \<longleftrightarrow> fst b + snd b \<noteq> fst c \<and> apart (c # fs)"
| "apart fs \<longleftrightarrow> True"

abbreviation ascending :: "block list \<Rightarrow> bool" where
  "ascending fs \<equiv> sorted_wrt (<) (map fst fs)"

definition heap_inv :: "nat \<Rightarrow> nat \<Rightarrow> AHeap \<Rightarrow> bool" where
  "heap_inv hb n h \<longleftrightarrow>
     tiled hb (unat (atop h)) (mset (afree h) + mset (aused h)) \<and> atop h \<le> almt h \<and>
     ascending (afree h) \<and> apart (afree h) \<and> asth h \<noteq> 0 \<and>
     afresh h + length (afree h) + length (aused h) = n"

lemma tiled_bound: "tiled hb t M \<Longrightarrow> b \<in># M \<Longrightarrow>
  hb \<le> unat (fst b) \<and> 0 < unat (snd b) \<and> unat (fst b) + unat (snd b) \<le> t"
  by (auto simp: tiled_def dest: tiles_bound)

lemma tiled_disjoint: "tiled hb t M \<Longrightarrow> b \<in># M \<Longrightarrow> c \<in># M \<Longrightarrow> b \<noteq> c \<Longrightarrow> seg b \<inter> seg c = {}"
  unfolding tiled_def using tiles_disjoint by fastforce

lemma mset_in_set: "mset bs = M \<Longrightarrow> b \<in># M \<Longrightarrow> b \<in> set bs"
  by auto

lemma tiled_cover: "tiled hb t M \<Longrightarrow> (\<Union>b\<in>set_mset M. seg b) = {hb..<t}"
  by (metis set_mset_mset tiled_def tiles_cover)

lemma tiled_distinct:
  assumes "tiled hb t (add_mset b (add_mset c M))"
  shows "fst b \<noteq> fst c"
proof -
  obtain bs where bs: "mset bs = add_mset b (add_mset c M)" "tiles hb bs t"
    using assms by (auto simp: tiled_def)
  have "mset (map fst bs) = image_mset fst (add_mset b (add_mset c M))"
    using bs by simp
  moreover have "distinct (map fst bs)" using tiles_distinct bs by blast
  ultimately have "count (add_mset (fst b) (add_mset (fst c) (image_mset fst M))) (fst b) \<le> 1"
    by (metis distinct_count_atmost_1 image_mset_add_mset order.refl zero_le_one)
  then show ?thesis by auto
qed

text \<open>Replacing blocks of a tiling: two touching ones by their union, one by two parts, the last
  one by another, and a new one at the end.\<close>

lemma tiled_merge:
  assumes "tiled hb t (add_mset (a, s) (add_mset (a + s, u) M))" "t < 2 ^ 32"
  shows "tiled hb t (add_mset (a, s + u) M)"
proof -
  obtain bs where bs: "mset bs = add_mset (a, s) (add_mset (a + s, u) M)" "tiles hb bs t"
    using assms by (auto simp: tiled_def)
  have m: "(a, s) \<in> set bs" "(a + s, u) \<in> set bs"
    using mset_in_set [OF bs(1)] by auto
  have as: "unat (a + s) = unat a + unat s"
    using tiles_bound [OF bs(2) m(1)] assms(2) by (simp add: unat_word_ariths)
  have "\<exists>xs ys. bs = xs @ (a, s) # (a + s, u) # ys"
    by (rule tiles_neighbours [OF bs(2) m]) (simp add: as)
  then obtain xs ys where L: "bs = xs @ (a, s) # (a + s, u) # ys" by blast
  have su: "unat (s + u) = unat s + unat u"
    using tiles_bound [OF bs(2) m(2)] assms(2) as by (simp add: unat_word_ariths)
  have "s + u \<noteq> 0"
    using su tiles_bound [OF bs(2) m(2)] by (auto simp del: unat_gt_0)
  then have "tiles hb (xs @ (a, s + u) # ys) t"
    using bs(2) L su as by (auto simp: tiles_append add.assoc)
  moreover have "mset (xs @ (a, s + u) # ys) = add_mset (a, s + u) M"
    using bs(1) L by (simp add: add_mset_commute)
  ultimately show ?thesis unfolding tiled_def by blast
qed

lemma tiled_split:
  assumes "tiled hb t (add_mset (a, s) M)" "n < s" "n \<noteq> 0" "t < 2 ^ 32"
  shows "tiled hb t (add_mset (a, n) (add_mset (a + n, s - n) M))"
proof -
  obtain bs where bs: "mset bs = add_mset (a, s) M" "tiles hb bs t"
    using assms by (auto simp: tiled_def)
  have m: "(a, s) \<in> set bs" using mset_in_set [OF bs(1)] by auto
  then obtain xs ys where L: "bs = xs @ (a, s) # ys" by (auto simp: in_set_conv_decomp)
  have lt: "unat n < unat s" using assms(2) by (simp add: word_less_nat_alt)
  have an: "unat (a + n) = unat a + unat n"
    using tiles_bound [OF bs(2) m] assms(4) lt by (simp add: unat_word_ariths)
  have sn: "unat (s - n) = unat s - unat n"
    using assms(2) by (simp add: unat_sub less_imp_le)
  have "s - n \<noteq> 0" using assms(2) by auto
  then have "tiles hb (xs @ (a, n) # (a + n, s - n) # ys) t"
    using bs(2) L an sn lt assms(3) by (auto simp: tiles_append)
  moreover have "mset (xs @ (a, n) # (a + n, s - n) # ys) = add_mset (a, n) (add_mset (a + n, s - n) M)"
    using bs(1) L by simp
  ultimately show ?thesis unfolding tiled_def by blast
qed

lemma tiled_last:
  assumes "tiled hb t (add_mset (a, s) M)" "t \<le> unat a + unat s" "n \<noteq> 0"
  shows "tiled hb (unat a + unat n) (add_mset (a, n) M)"
proof -
  obtain bs where bs: "mset bs = add_mset (a, s) M" "tiles hb bs t"
    using assms by (auto simp: tiled_def)
  have m: "(a, s) \<in> set bs" using mset_in_set [OF bs(1)] by auto
  then obtain xs ys where L: "bs = xs @ (a, s) # ys" by (auto simp: in_set_conv_decomp)
  have "tiles (unat a + unat s) ys t" using bs(2) L by (auto simp: tiles_append)
  then have "ys = []" using assms(2) by (cases ys) (auto dest!: tiles_le simp flip: unat_gt_0)
  then have "tiles hb (xs @ [(a, n)]) (unat a + unat n)"
    using bs(2) L assms(3) by (auto simp: tiles_append)
  moreover have "mset (xs @ [(a, n)]) = add_mset (a, n) M"
    using bs(1) L \<open>ys = []\<close> by simp
  ultimately show ?thesis unfolding tiled_def by blast
qed

lemma tiled_extend:
  assumes "tiled hb (unat t) M" "n \<noteq> 0"
  shows "tiled hb (unat t + unat n) (add_mset (t, n) M)"
proof -
  obtain bs where bs: "mset bs = M" "tiles hb bs (unat t)" using assms by (auto simp: tiled_def)
  then have "tiles hb (bs @ [(t, n)]) (unat t + unat n)" using assms by (auto simp: tiles_append)
  moreover have "mset (bs @ [(t, n)]) = add_mset (t, n) M" using bs by simp
  ultimately show ?thesis unfolding tiled_def by blast
qed

section \<open>Insertion and compaction\<close>

lemma mset_a_insert [simp]: "mset (a_insert b fs) = add_mset b (mset fs)"
proof -
  have "mset (takeWhile P fs) + mset (dropWhile P fs) = mset fs" for P
    by (metis mset_append takeWhile_dropWhile_id)
  then show ?thesis by (simp add: a_insert_def)
qed

lemma set_a_insert [simp]: "set (a_insert b fs) = insert b (set fs)"
  by (metis mset_a_insert set_mset_add_mset_insert set_mset_mset)

lemma length_a_insert [simp]: "length (a_insert b fs) = Suc (length fs)"
  by (metis mset_a_insert size_add_mset size_mset)

lemma ascending_a_insert:
  assumes "ascending fs" "fst b \<notin> fst ` set fs"
  shows "ascending (a_insert b fs)"
  using assms
proof (induction fs)
  case Nil
  then show ?case by (simp add: a_insert_def)
next
  case (Cons c fs)
  have "a_insert b (c # fs) = (if fst c < fst b then c # a_insert b fs else b # c # fs)"
    by (simp add: a_insert_def)
  moreover have "fst c < fst b \<or> fst b < fst c" using Cons.prems(2) by auto
  ultimately show ?case using Cons by fastforce
qed

lemma length_coalesce: "length (coalesce fs) \<le> length fs"
  by (induction fs rule: coalesce.induct) auto

lemma fst_coalesce: "fst ` set (coalesce fs) \<subseteq> fst ` set fs"
  by (induction fs rule: coalesce.induct) auto

lemma ascending_coalesce: "ascending fs \<Longrightarrow> ascending (coalesce fs)"
proof (induction fs rule: coalesce.induct)
  case (1 a s b t fs)
  then show ?case using fst_coalesce [of "(b, t) # fs"] by fastforce
qed auto

lemma coalesce_Cons: "\<exists>s' fs'. coalesce ((a, s) # fs) = (a, s') # fs'"
proof (induction fs arbitrary: s)
  case Nil
  then show ?case by simp
next
  case (Cons c fs)
  then show ?case by (cases c) auto
qed

lemma apart_coalesce: "apart (coalesce fs)"
proof (induction fs rule: coalesce.induct)
  case (1 a s b t fs)
  obtain t' fs' where "coalesce ((b, t) # fs) = (b, t') # fs'" using coalesce_Cons by blast
  then show ?case using 1 by auto
qed auto

lemma coalesce_apart: "apart fs \<Longrightarrow> coalesce fs = fs"
  by (induction fs rule: coalesce.induct) auto

lemma tiled_coalesce:
  "tiled hb t (mset fs + M) \<Longrightarrow> t < 2 ^ 32 \<Longrightarrow> tiled hb t (mset (coalesce fs) + M)"
proof (induction fs arbitrary: M rule: coalesce.induct)
  case (1 a s b t' fs)
  show ?case
  proof (cases "a + s = b")
    case True
    then show ?thesis
      using 1(1) [OF True, of M] 1(3,4) tiled_merge [of hb t a s t' "mset fs + M"] by simp
  next
    case False
    then show ?thesis using 1(2) [OF False, of "add_mset (a, s) M"] 1(3,4) by simp
  qed
qed auto

section \<open>The operations keep the invariant\<close>

lemma extract_Some:
  "List.extract P xs = Some (ys, x, zs) \<Longrightarrow> xs = ys @ x # zs \<and> P x \<and> (\<forall>y\<in>set ys. \<not> P y)"
  by (simp add: extract_Some_iff)

lemma apart_remove:
  "ascending (xs @ b # ys) \<Longrightarrow> apart (xs @ b # ys) \<Longrightarrow>
   tiled hb t (mset (xs @ b # ys) + M) \<Longrightarrow> t < 2 ^ 32 \<Longrightarrow> apart (xs @ ys)"
proof (induction xs arbitrary: M)
  case Nil
  then show ?case by (cases ys) auto
next
  case (Cons c xs)
  have IH: "apart (xs @ ys)"
  proof (rule Cons.IH [of "add_mset c M"])
    show "apart (xs @ b # ys)" using Cons.prems(2) by (cases xs) auto
  qed (use Cons.prems in auto)
  show ?case
  proof (cases xs)
    case (Cons d xs')
    then show ?thesis using IH Cons.prems(2) by simp
  next
    case Nil
    show ?thesis
    proof (cases ys)
      case (Cons d ys')
      have "unat (fst c) + unat (snd c) \<le> t" "unat (fst b) + unat (snd b) \<le> t"
        "0 < unat (snd b)" "fst c < fst b" "fst b < fst d"
        using Cons.prems tiled_bound [OF Cons.prems(3), of c] tiled_bound [OF Cons.prems(3), of b]
        by (auto simp: Nil Cons)
      moreover have "seg c \<inter> seg b = {}" "c \<noteq> b"
        using Cons.prems tiled_disjoint [OF Cons.prems(3), of c b] \<open>fst c < fst b\<close>
        by (auto simp: Nil)
      ultimately have "unat (fst c) + unat (snd c) < unat (fst d)"
        using Cons.prems(4) by (auto simp: seg_def word_less_nat_alt ivl_disj_un)
      moreover have "unat (fst c + snd c) = unat (fst c) + unat (snd c)"
        using Cons.prems(4) \<open>unat (fst c) + unat (snd c) \<le> t\<close> by (simp add: unat_word_ariths)
      ultimately have "fst c + snd c \<noteq> fst d" by auto
      then show ?thesis using IH by (simp add: Nil Cons)
    qed (simp add: Nil)
  qed
qed

lemma ascending_remove: "ascending (xs @ b # ys) \<Longrightarrow> ascending (xs @ ys)"
  by (auto simp: sorted_wrt_append)

lemma heap_inv_release:
  assumes "tiled hb (unat (atop h)) (mset (afree h) + add_mset b (mset (aused h)))"
    and "atop h \<le> almt h" "ascending (afree h)" "asth h \<noteq> 0"
    and "afresh h + length (afree h) + length (aused h) + 1 = n"
  shows "heap_inv hb n (a_release b h)"
proof -
  let ?fs = "a_insert b (afree h)"
  have lt: "unat (atop h) < 2 ^ 32" using unsigned_less [of "atop h"] by simp
  have fb: "fst b \<notin> fst ` set (afree h)"
  proof
    assume "fst b \<in> fst ` set (afree h)"
    then obtain c where c: "c \<in># mset (afree h)" "fst b = fst c" by auto
    then obtain M where "mset (afree h) = add_mset c M" by (metis insert_DiffM)
    with assms(1) c(2) tiled_distinct [of hb _ b c "M + mset (aused h)"] show False by simp
  qed
  have "tiled hb (unat (atop h)) (mset (coalesce ?fs) + mset (aused h))"
    by (rule tiled_coalesce [OF _ lt]) (use assms(1) in simp)
  moreover have "ascending (coalesce ?fs)"
    by (intro ascending_coalesce ascending_a_insert assms fb)
  moreover have "length (coalesce ?fs) \<le> Suc (length (afree h))"
    using length_coalesce [of ?fs] by simp
  ultimately show ?thesis
    using assms by (simp add: heap_inv_def a_release_def Let_def apart_coalesce)
qed

lemma heap_inv_take:
  assumes "heap_inv hb n h" "afree h = xs @ b # ys"
  shows "tiled hb (unat (atop h)) (add_mset b (mset (xs @ ys) + mset (aused h)))"
    and "ascending (xs @ ys)" and "apart (xs @ ys)"
  using assms ascending_remove [of xs b ys] apart_remove [of xs b ys hb "unat (atop h)" "mset (aused h)"]
    unsigned_less [of "atop h"]
  by (auto simp: heap_inv_def)

lemma unat_top_sum:
  assumes "(t :: u32) + n \<le> l" "t \<le> l" "unat l + unat n < 2 ^ 32"
  shows "unat (t + n) = unat t + unat n"
  using assms by (simp add: unat_word_ariths word_le_nat_alt)

lemma heap_inv_alloc_block:
  assumes inv: "heap_inv hb n h" and k: "k \<noteq> 0" "unat (almt h) + unat k < 2 ^ 32"
  shows "heap_inv hb n (snd (a_alloc_block k h))"
proof -
  have lmt: "atop h \<le> almt h" using inv by (simp add: heap_inv_def)
  show ?thesis
  proof (cases "List.extract (\<lambda>b. a_top h k b \<or> k \<le> snd b) (afree h)")
    case None
    have "tiled hb (unat (atop h + k)) (mset (afree h) + mset ((atop h, k) # aused h))"
      if "atop h + k \<le> almt h"
      using inv k tiled_extend [of hb "atop h" "mset (afree h) + mset (aused h)" k]
        unat_top_sum [OF that lmt] by (simp add: heap_inv_def)
    then show ?thesis using inv by (auto simp: a_alloc_block_def None heap_inv_def)
  next
    case (Some r)
    obtain xs b ys where r: "r = (xs, b, ys)" by (cases r)
    have fs: "afree h = xs @ b # ys" and fit: "a_top h k b \<or> k \<le> snd b"
      using extract_Some [OF Some [unfolded r]] by auto
    note take = heap_inv_take [OF inv fs]
    have bt: "unat (fst b) + unat (snd b) \<le> unat (atop h)" and "fst b \<le> atop h"
      using tiled_bound [OF take(1), of b] by (auto simp: word_le_nat_alt)
    have tl: "unat (atop h) < 2 ^ 32" using unsigned_less [of "atop h"] by simp
    have sum: "unat (fst b + snd b) = unat (fst b) + unat (snd b)"
      using bt tl by (simp add: unat_word_ariths)
    show ?thesis
    proof (cases "a_top h k b")
      case True
      have "unat (fst b + k) = unat (fst b) + unat k"
        using True lmt \<open>fst b \<le> atop h\<close> k
        by (intro unat_top_sum [of _ _ "almt h"]) (auto simp: a_top_def)
      moreover have "tiled hb (unat (fst b) + unat k) (add_mset (fst b, k) (mset (xs @ ys) + mset (aused h)))"
        using tiled_last [of hb "unat (atop h)" "fst b" "snd b" _ k] take(1) True sum k
        by (simp add: a_top_def word_le_nat_alt)
      moreover have "fst b + k \<le> almt h" using True by (simp add: a_top_def)
      moreover have "snd (a_alloc_block k h) =
          h\<lparr>afree := xs @ ys, aused := (fst b, k) # aused h, atop := fst b + k\<rparr>"
        by (simp add: a_alloc_block_def Some r True)
      ultimately show ?thesis
        using take inv fs by (simp add: heap_inv_def)
    next
      case top: False
      then have ks: "k \<le> snd b" using fit by simp
      show ?thesis
      proof (cases "afresh h \<noteq> 0 \<and> asth h \<le> snd b - k")
        case True
        then have "k < snd b" using ks inv by (auto simp: heap_inv_def le_less)
        then have "tiled hb (unat (atop h))
            (add_mset (fst b, k) (add_mset (fst b + k, snd b - k) (mset (xs @ ys) + mset (aused h))))"
          using tiled_split [of hb "unat (atop h)" "fst b" "snd b" _ k] take(1) k tl by simp
        moreover have "snd (a_alloc_block k h) = a_release (fst b + k, snd b - k)
            (h\<lparr>afree := xs @ ys, aused := (fst b, k) # aused h, afresh := afresh h - 1\<rparr>)"
          by (simp add: a_alloc_block_def Some r True top)
        moreover have "heap_inv hb n (a_release (fst b + k, snd b - k)
            (h\<lparr>afree := xs @ ys, aused := (fst b, k) # aused h, afresh := afresh h - 1\<rparr>))"
          by (rule heap_inv_release)
            (use calculation True inv fs take in \<open>auto simp: heap_inv_def add_mset_commute\<close>)
        ultimately show ?thesis by simp
      next
        case False
        then have "snd (a_alloc_block k h) = h\<lparr>afree := xs @ ys, aused := b # aused h\<rparr>"
          by (auto simp: a_alloc_block_def Some r top)
        then show ?thesis
          using inv fs take by (simp add: heap_inv_def)
      qed
    qed
  qed
qed

lemma heap_inv_free:
  assumes inv: "heap_inv hb n h"
  shows "heap_inv hb n (snd (a_free a h))"
proof (cases "a = 0 \<or> List.extract (\<lambda>b. a = fst b) (aused h) = None")
  case True
  then show ?thesis using inv by (auto simp: a_free_def)
next
  case False
  then obtain xs b ys where r: "List.extract (\<lambda>b. a = fst b) (aused h) = Some (xs, b, ys)"
    by auto
  have "aused h = xs @ b # ys" using extract_Some [OF r] by simp
  with inv have "heap_inv hb n (a_release b (h\<lparr>aused := xs @ ys\<rparr>))"
    by (intro heap_inv_release) (auto simp: heap_inv_def)
  with False r show ?thesis by (auto simp: a_free_def)
qed

text \<open>No two free blocks touch: in order of address they would be neighbours in the free list.\<close>

lemma ascending_between:
  assumes "ascending fs" "apart fs" "b \<in> set fs" "c \<in> set fs" "fst b + snd b = fst c" "fst b < fst c"
  shows "\<exists>d\<in>set fs. fst b < fst d \<and> fst d < fst c"
  using assms
proof (induction fs)
  case Nil
  then show ?case by simp
next
  case (Cons x fs)
  have fs: "ascending fs" "apart fs"
    using Cons.prems(1,2) by (auto, cases fs) auto
  show ?case
  proof (cases "b = x")
    case False
    then have b: "b \<in> set fs" using Cons.prems(3) by simp
    have "fst x < fst b" using Cons.prems(1) b by auto
    then have "c \<in> set fs" using Cons.prems(4,6) by auto
    then show ?thesis using Cons.IH fs b Cons.prems(5,6) by auto
  next
    case True
    obtain y ys where y: "fs = y # ys" using Cons.prems(4,6) True by (cases fs) auto
    have "fst b + snd b \<noteq> fst y" using Cons.prems(2) True y by simp
    then have "c \<in> set ys" "fst y < fst c" using Cons.prems(1,4,5,6) True y by auto
    moreover have "fst b < fst y" using Cons.prems(1) True y by simp
    ultimately show ?thesis using y by auto
  qed
qed

lemma heap_inv_no_touch:
  assumes inv: "heap_inv hb n h" and m: "b \<in> set (afree h)" "c \<in> set (afree h)"
  shows "fst b + snd b \<noteq> fst c"
proof
  assume eq: "fst b + snd b = fst c"
  have t: "tiled hb (unat (atop h)) (mset (afree h) + mset (aused h))"
    using inv by (simp add: heap_inv_def)
  have lt: "unat (atop h) < 2 ^ 32" using unsigned_less [of "atop h"] by simp
  have bb: "0 < unat (snd b)" "unat (fst b) + unat (snd b) \<le> unat (atop h)"
    using tiled_bound [OF t, of b] m(1) by auto
  then have sum: "unat (fst c) = unat (fst b) + unat (snd b)"
    using lt by (simp add: eq [symmetric] unat_word_ariths)
  then have "fst b < fst c" using bb(1) by (simp add: word_less_nat_alt)
  then obtain d where d: "d \<in> set (afree h)" "fst b < fst d" "fst d < fst c"
    using ascending_between [of "afree h" b c] inv m eq by (auto simp: heap_inv_def)
  have "d \<noteq> b" using d(2) by auto
  then have "seg b \<inter> seg d = {}" using tiled_disjoint [OF t, of b d] d(1) m(1) by auto
  moreover have "unat (fst d) \<in> seg b" using d sum by (simp add: seg_def word_less_nat_alt)
  moreover have "unat (fst d) \<in> seg d"
    using tiled_bound [OF t, of d] d(1) by (simp add: seg_def)
  ultimately show False by blast
qed

section \<open>What the operations promise\<close>

abbreviation live :: "AHeap \<Rightarrow> block set" where
  "live h \<equiv> set (aused h)"

lemma aused_release [simp]: "aused (a_release b h) = aused h"
  by (simp add: a_release_def Let_def)

lemma heap_inv_apart: "heap_inv hb n h \<Longrightarrow> apart (afree h)"
  by (simp add: heap_inv_def)

lemma heap_inv_live:
  assumes "heap_inv hb n h" "b \<in> live h"
  shows "hb \<le> unat (fst b)" "snd b \<noteq> 0" "unat (fst b) + unat (snd b) \<le> unat (atop h)"
  using assms tiled_bound [of hb _ _ b] by (auto simp: heap_inv_def simp flip: unat_gt_0)

lemma heap_inv_live_disjoint:
  "heap_inv hb n h \<Longrightarrow> b \<in> live h \<Longrightarrow> c \<in> live h \<Longrightarrow> b \<noteq> c \<Longrightarrow> seg b \<inter> seg c = {}"
  by (rule tiled_disjoint [of hb]) (auto simp: heap_inv_def)

lemma heap_inv_free_disjoint:
  assumes "heap_inv hb n h" "b \<in> live h" "c \<in> set (afree h)"
  shows "seg b \<inter> seg c = {}"
proof (rule tiled_disjoint [of hb])
  show "tiled hb (unat (atop h)) (mset (afree h) + mset (aused h))"
    using assms by (simp add: heap_inv_def)
  obtain M K where "mset (aused h) = add_mset b M" "mset (afree h) = add_mset c K"
    using assms(2,3) by (metis insert_DiffM set_mset_mset)
  then show "b \<noteq> c"
    using assms(1) tiled_distinct [of hb _ b c "K + M"] by (auto simp: heap_inv_def add_mset_commute)
qed (use assms in auto)

lemma heap_inv_live_distinct:
  assumes "heap_inv hb n h"
  shows "distinct (map fst (aused h))"
proof -
  obtain bs where "mset bs = mset (afree h @ aused h)" "tiles hb bs (unat (atop h))"
    using assms by (auto simp: heap_inv_def tiled_def)
  then have "distinct (map fst (afree h @ aused h))"
    by (metis mset_eq_imp_distinct_iff mset_map tiles_distinct)
  then show ?thesis by simp
qed

text \<open>A successful allocation returns a block that is large enough and becomes live; nothing
  else changes among the live blocks. It fails only when no free block fits and either the
  descriptors or the memory are exhausted.\<close>

lemma a_alloc_block_Some:
  assumes "a_alloc_block k h = (Some b, h')"
  shows "k \<le> snd b" "aused h' = b # aused h"
  using assms
  by (auto simp: a_alloc_block_def dest!: extract_Some split: option.splits if_splits)

lemma a_alloc_block_None:
  assumes "a_alloc_block k h = (None, h')"
  shows "h' = h" "\<forall>b\<in>set (afree h). snd b < k" "afresh h = 0 \<or> atop h + k > almt h"
  using assms
  by (auto simp: a_alloc_block_def extract_None_iff not_le split: option.splits if_splits)

lemma a_alloc_block_addr:
  assumes inv: "heap_inv hb n h" and k: "k \<noteq> 0" "unat (almt h) + unat k < 2 ^ 32"
    and r: "a_alloc_block k h = (Some b, h')"
  shows "hb \<le> unat (fst b)" "fst b \<notin> fst ` live h"
    "unat (fst b) + unat (snd b) \<le> unat (atop h')" "atop h' \<le> almt h'"
proof -
  have inv': "heap_inv hb n h'" using heap_inv_alloc_block [OF inv k] r by simp
  have b: "aused h' = b # aused h" by (rule a_alloc_block_Some [OF r])
  show "hb \<le> unat (fst b)" "unat (fst b) + unat (snd b) \<le> unat (atop h')" "atop h' \<le> almt h'"
    using heap_inv_live [OF inv', of b] b inv' by (simp_all add: heap_inv_def)
  show "fst b \<notin> fst ` live h" using heap_inv_live_distinct [OF inv'] b by simp
qed

lemma a_free_aused:
  assumes "heap_inv hb n h" "a \<noteq> 0"
  shows "fst (a_free a h) \<longleftrightarrow> a \<in> fst ` live h" "live (snd (a_free a h)) = {b \<in> live h. fst b \<noteq> a}"
proof -
  note d = heap_inv_live_distinct [OF assms(1)]
  have "(fst (a_free a h) \<longleftrightarrow> a \<in> fst ` live h) \<and> live (snd (a_free a h)) = {b \<in> live h. fst b \<noteq> a}"
  proof (cases "List.extract (\<lambda>b. a = fst b) (aused h)")
    case None
    then have "\<forall>b\<in>live h. a \<noteq> fst b" by (simp add: extract_None_iff)
    with None assms(2) show ?thesis by (auto simp: a_free_def)
  next
    case (Some r)
    obtain xs b ys where r: "r = (xs, b, ys)" by (cases r)
    have e: "aused h = xs @ b # ys" "a = fst b" using extract_Some [OF Some [unfolded r]] by auto
    have "distinct (map fst xs @ fst b # map fst ys)" using d by (simp only: e(1) map_append list.map)
    then have nb: "fst b \<notin> fst ` set (xs @ ys)" by (simp add: image_Un)
    have "c \<in> {c \<in> live h. fst c \<noteq> a} \<longleftrightarrow> c \<in> set (xs @ ys)" for c
    proof (cases "fst c = fst b")
      case True
      then have "c \<notin> set (xs @ ys)" using nb by (metis image_eqI)
      then show ?thesis using True by (simp add: e(2))
    next
      case False
      then show ?thesis by (auto simp: e)
    qed
    then have "{c \<in> live h. fst c \<noteq> a} = set (xs @ ys)" by blast
    moreover have "a_free a h = (True, a_release b (h\<lparr>aused := xs @ ys\<rparr>))"
      using assms(2) by (simp add: a_free_def Some r)
    moreover have "a \<in> fst ` live h" by (simp add: e)
    ultimately show ?thesis by simp
  qed
  then show "fst (a_free a h) \<longleftrightarrow> a \<in> fst ` live h"
    "live (snd (a_free a h)) = {b \<in> live h. fst b \<noteq> a}"
    by simp_all
qed

section \<open>The interface of an allocator\<close>

text \<open>
  What the rest of the virtual machine relies on. \<open>blocks\<close> are the live blocks, \<open>good\<close> the
  sizes for which the allocator keeps its promises.
\<close>

locale allocator =
  fixes inv :: "'h \<Rightarrow> bool"
    and blocks :: "'h \<Rightarrow> block set"
    and good :: "u32 \<Rightarrow> bool"
    and alloc :: "'h \<Rightarrow> u32 \<Rightarrow> (u32 \<times> 'h) option"
    and free :: "'h \<Rightarrow> u32 \<Rightarrow> (bool \<times> 'h) option"
  assumes alloc_law: "inv h \<Longrightarrow> good n \<Longrightarrow> \<exists>a h'. alloc h n = Some (a, h') \<and> inv h' \<and>
      (a = 0 \<and> blocks h' = blocks h \<or>
       a \<noteq> 0 \<and> (\<exists>s \<ge> n. blocks h' = insert (a, s) (blocks h) \<and> a \<notin> fst ` blocks h))"
    and free_law: "inv h \<Longrightarrow> \<exists>r h'. free h a = Some (r, h') \<and> inv h' \<and>
      (r \<longleftrightarrow> a \<in> fst ` blocks h) \<and> blocks h' = {b \<in> blocks h. fst b \<noteq> a}"
    and disjoint_law: "inv h \<Longrightarrow> b \<in> blocks h \<Longrightarrow> c \<in> blocks h \<Longrightarrow> b \<noteq> c \<Longrightarrow> seg b \<inter> seg c = {}"
    and room_law: "inv h \<Longrightarrow> b \<in> blocks h \<Longrightarrow> unat (fst b) + unat (snd b) < 2 ^ 32"
begin

lemma alloc_fresh:
  assumes "inv h" "good n" "alloc h n = Some (a, h')" "a \<noteq> 0"
  obtains s where "n \<le> s" "(a, s) \<in> blocks h'" "\<And>b. b \<in> blocks h \<Longrightarrow> b \<in> blocks h' \<and> seg b \<inter> seg (a, s) = {}"
proof -
  obtain s where s: "n \<le> s" "blocks h' = insert (a, s) (blocks h)" "a \<notin> fst ` blocks h" "inv h'"
    using alloc_law [OF assms(1,2)] assms(3,4) by auto
  have "b \<noteq> (a, s)" if "b \<in> blocks h" for b using s(3) that by force
  then show thesis using that [of s] s disjoint_law [OF s(4)] by simp
qed

text \<open>Giving a block back right away restores the live blocks.\<close>

lemma alloc_free:
  assumes "inv h" "good n" "alloc h n = Some (a, h')" "a \<noteq> 0"
  shows "\<exists>h''. free h' a = Some (True, h'') \<and> inv h'' \<and> blocks h'' = blocks h"
proof -
  obtain s where s: "blocks h' = insert (a, s) (blocks h)" "a \<notin> fst ` blocks h" "inv h'"
    using alloc_law [OF assms(1,2)] assms(3,4) by auto
  then have "{b \<in> blocks h'. fst b \<noteq> a} = blocks h" by force
  with free_law [OF s(3), of a] s(1) show ?thesis by auto
qed

lemma double_free:
  assumes "inv h" "free h a = Some (True, h')"
  shows "\<exists>h''. free h' a = Some (False, h'') \<and> blocks h'' = blocks h'"
proof -
  have "inv h'" "blocks h' = {b \<in> blocks h. fst b \<noteq> a}"
    using free_law [OF assms(1), of a] assms(2) by auto
  then show ?thesis using free_law [of h' a] by auto
qed

end

text \<open>A script of requests, as a client issues them; what was not freed stays allocated.\<close>

datatype request = Alloc u32 | Free u32

primrec perform :: "('h \<Rightarrow> u32 \<Rightarrow> (u32 \<times> 'h) option) \<Rightarrow> ('h \<Rightarrow> u32 \<Rightarrow> (bool \<times> 'h) option) \<Rightarrow>
    request \<Rightarrow> 'h \<Rightarrow> 'h option" where
  "perform al fr (Alloc n) h = map_option snd (al h n)"
| "perform al fr (Free a) h = map_option snd (fr h a)"

primrec script :: "('h \<Rightarrow> u32 \<Rightarrow> (u32 \<times> 'h) option) \<Rightarrow> ('h \<Rightarrow> u32 \<Rightarrow> (bool \<times> 'h) option) \<Rightarrow>
    request list \<Rightarrow> 'h \<Rightarrow> 'h option" where
  "script al fr [] h = Some h"
| "script al fr (r # rs) h = Option.bind (perform al fr r h) (script al fr rs)"

context allocator
begin

definition good_script :: "request list \<Rightarrow> bool" where
  "good_script rs \<longleftrightarrow> (\<forall>n. Alloc n \<in> set rs \<longrightarrow> good n)"

lemma perform_step:
  assumes "inv h" "good_script [r]"
  obtains h' where "perform alloc free r h = Some h'" "inv h'"
    "\<And>b. b \<in> blocks h \<Longrightarrow> Free (fst b) \<noteq> r \<Longrightarrow> b \<in> blocks h'"
proof (cases r)
  case (Alloc n)
  then obtain a h' where "alloc h n = Some (a, h')" "inv h'" "blocks h \<subseteq> blocks h'"
    using alloc_law [OF assms(1), of n] assms(2) by (auto simp: good_script_def)
  then show thesis using that [of h'] Alloc by auto
next
  case (Free a)
  obtain x h' where "free h a = Some (x, h')" "inv h'" "blocks h' = {b \<in> blocks h. fst b \<noteq> a}"
    using free_law [OF assms(1), of a] by auto
  then show thesis using that [of h'] Free by auto
qed

lemma script_total:
  assumes "inv h" "good_script rs"
  shows "\<exists>h'. script alloc free rs h = Some h' \<and> inv h' \<and>
    (\<forall>b\<in>blocks h. Free (fst b) \<notin> set rs \<longrightarrow> b \<in> blocks h')"
  using assms
proof (induction rs arbitrary: h)
  case Nil
  then show ?case by simp
next
  case (Cons r rs)
  have "good_script [r]" "good_script rs" using Cons.prems(2) by (auto simp: good_script_def)
  then obtain h1 where h1: "perform alloc free r h = Some h1" "inv h1"
      "\<And>b. b \<in> blocks h \<Longrightarrow> Free (fst b) \<noteq> r \<Longrightarrow> b \<in> blocks h1"
    using perform_step [OF Cons.prems(1)] by metis
  obtain h2 where "script alloc free rs h1 = Some h2" "inv h2"
      "\<forall>b\<in>blocks h1. Free (fst b) \<notin> set rs \<longrightarrow> b \<in> blocks h2"
    using Cons.IH [OF h1(2) \<open>good_script rs\<close>] by blast
  with h1 show ?case by auto
qed

end

end
