(* ===== verification/Cyn_Heap.thy ===== *)
theory Cyn_Heap
  imports Cyn_Alloc
begin

unbundle bit_operations_syntax

text \<open>
  The heap allocator of the virtual machine (\<^verbatim>\<open>src/vm/memory.c\<close>). Its state is a table of
  block descriptors threaded into three singly linked lists: \<open>free\<close> (sorted by address),
  \<open>used\<close> and \<open>fresh\<close> (descriptors not in use). The model keeps the table and the links
  (\<open>bnext\<close>), so the pointer surgery of the source is what is modelled; a descriptor is named
  by its index in \<open>heap->mem\<close>, and \<open>NULL\<close> is \<open>None\<close>. The loops are
  \<^theory_text>\<open>partial_function (option)\<close>: \<open>None\<close> is a run that does not return (a cycle) or
  that follows \<open>NULL\<close>. The lemmas relate each operation to its effect on the three lists of
  descriptors and show that the memory between the heap boundary and \<open>top\<close> is at every moment
  divided, without overlap and without gaps, among the free and the used blocks. Tracing
  (\<open>VM_dbg_trace\<close>) is left out.
\<close>

section \<open>State\<close>

record HeapBlock =
  bnext :: "nat option"
  bsize :: u32
  baddr :: u32

type_synonym store = "nat \<Rightarrow> HeapBlock"

record Heap =
  hfree :: "nat option"
  hused :: "nat option"
  hfresh :: "nat option"
  htop :: u32
  hsth :: u32
  hlmt :: u32
  haln :: u8
  hmem :: store

definition set_next :: "nat \<Rightarrow> nat option \<Rightarrow> Heap \<Rightarrow> Heap" where
  "set_next b p h = h\<lparr>hmem := (hmem h)(b := (hmem h b)\<lparr>bnext := p\<rparr>)\<rparr>"

definition set_size :: "nat \<Rightarrow> u32 \<Rightarrow> Heap \<Rightarrow> Heap" where
  "set_size b n h = h\<lparr>hmem := (hmem h)(b := (hmem h b)\<lparr>bsize := n\<rparr>)\<rparr>"

definition set_addr :: "nat \<Rightarrow> u32 \<Rightarrow> Heap \<Rightarrow> Heap" where
  "set_addr b a h = h\<lparr>hmem := (hmem h)(b := (hmem h b)\<lparr>baddr := a\<rparr>)\<rparr>"

section \<open>Operations\<close>

text \<open>The search loop of the insertion: the first block whose address is not below \<open>a\<close>.\<close>

partial_function (option) insert_scan ::
  "store \<Rightarrow> u32 \<Rightarrow> nat option \<Rightarrow> nat option \<Rightarrow> (nat option \<times> nat option) option" where
  "insert_scan m a prev ptr =
     (case ptr of
        None \<Rightarrow> Some (prev, None)
      | Some p \<Rightarrow> if a \<le> baddr (m p) then Some (prev, ptr)
                  else insert_scan m a ptr (bnext (m p)))"

definition VM_heap_insert_heap_block :: "Heap \<Rightarrow> nat \<Rightarrow> Heap option" where
  "VM_heap_insert_heap_block h block =
     Option.bind (insert_scan (hmem h) (baddr (hmem h block)) None (hfree h)) (\<lambda>(prev, ptr).
       let h = (case prev of
                  Some q \<Rightarrow> set_next q (Some block) h
                | None \<Rightarrow> h\<lparr>hfree := Some block\<rparr>)
       in Some (set_next block ptr h))"

partial_function (option) VM_heap_release_heap_blocks ::
  "Heap \<Rightarrow> nat option \<Rightarrow> nat option \<Rightarrow> Heap option" where
  "VM_heap_release_heap_blocks h scan to =
     (if scan = to then Some h
      else case scan of
             None \<Rightarrow> None
           | Some s \<Rightarrow>
               (let snext = bnext (hmem h s);
                    h = set_next s (hfresh h) h;
                    h = h\<lparr>hfresh := Some s\<rparr>;
                    h = set_size s 0 (set_addr s 0 h)
                in VM_heap_release_heap_blocks h snext to))"

text \<open>The inner loop of the compaction: as long as blocks follow each other without a gap.\<close>

partial_function (option) compact_scan ::
  "store \<Rightarrow> nat \<Rightarrow> nat option \<Rightarrow> (nat \<times> nat option) option" where
  "compact_scan m prev scan =
     (case scan of
        None \<Rightarrow> Some (prev, None)
      | Some s \<Rightarrow> if baddr (m prev) + bsize (m prev) = baddr (m s)
                  then compact_scan m s (bnext (m s))
                  else Some (prev, scan))"

definition compact_merge :: "Heap \<Rightarrow> nat \<Rightarrow> nat \<Rightarrow> Heap option" where
  "compact_merge h ptr prev =
     (if prev \<noteq> ptr then
        let newSize = baddr (hmem h prev) - baddr (hmem h ptr) + bsize (hmem h prev);
            h = set_size ptr newSize h;
            nxt = bnext (hmem h prev)
        in Option.bind (VM_heap_release_heap_blocks h (bnext (hmem h ptr)) (bnext (hmem h prev)))
             (\<lambda>h. Some (set_next ptr nxt h))
      else Some h)"

partial_function (option) compact_loop :: "Heap \<Rightarrow> nat option \<Rightarrow> Heap option" where
  "compact_loop h ptr =
     (case ptr of
        None \<Rightarrow> Some h
      | Some p \<Rightarrow>
          Option.bind (compact_scan (hmem h) p (bnext (hmem h p))) (\<lambda>(prev, scan).
          Option.bind (compact_merge h p prev) (\<lambda>h.
          compact_loop h (bnext (hmem h p)))))"

definition VM_heap_compact :: "Heap \<Rightarrow> Heap option" where
  "VM_heap_compact h = compact_loop h (hfree h)"

text \<open>
  The search loop of the allocation: \<open>Some None\<close> when no block of the free list fits, otherwise
  the predecessor, the block, and whether it is the top block.
\<close>

definition is_top :: "Heap \<Rightarrow> u32 \<Rightarrow> u32 \<Rightarrow> nat \<Rightarrow> bool" where
  "is_top h t n p \<longleftrightarrow>
     baddr (hmem h p) + bsize (hmem h p) \<ge> t \<and> baddr (hmem h p) + n \<le> hlmt h"

partial_function (option) alloc_scan ::
  "Heap \<Rightarrow> u32 \<Rightarrow> u32 \<Rightarrow> nat option \<Rightarrow> nat option \<Rightarrow> (nat option \<times> nat \<times> bool) option option" where
  "alloc_scan h t n prev ptr =
     (case ptr of
        None \<Rightarrow> Some None
      | Some p \<Rightarrow>
          if is_top h t n p \<or> bsize (hmem h p) \<ge> n then Some (Some (prev, p, is_top h t n p))
          else alloc_scan h t n ptr (bnext (hmem h p)))"

definition VM_heap_alloc_heap_block :: "Heap \<Rightarrow> u32 \<Rightarrow> (nat option \<times> Heap) option" where
  "VM_heap_alloc_heap_block h n =
    (let t = htop h; n = CynAlign n (ucast (haln h)) in
     Option.bind (alloc_scan h t n None (hfree h)) (\<lambda>found.
       case found of
         Some (prev, ptr, isTop) \<Rightarrow>
           (let h = (case prev of
                       Some q \<Rightarrow> set_next q (bnext (hmem h ptr)) h
                     | None \<Rightarrow> h\<lparr>hfree := bnext (hmem h ptr)\<rparr>);
                h = set_next ptr (hused h) h;
                h = h\<lparr>hused := Some ptr\<rparr>
            in if isTop then
                 Some (Some ptr, set_size ptr n h\<lparr>htop := baddr (hmem h ptr) + n\<rparr>)
               else
                 (case hfresh h of
                    Some split \<Rightarrow>
                      (let excess = bsize (hmem h ptr) - n in
                       if excess \<ge> hsth h then
                         let h = set_size ptr n h;
                             h = h\<lparr>hfresh := bnext (hmem h split)\<rparr>;
                             h = set_addr split (baddr (hmem h ptr) + n) h;
                             h = set_size split excess h
                         in Option.bind (VM_heap_insert_heap_block h split) (\<lambda>h.
                            Option.bind (VM_heap_compact h) (\<lambda>h. Some (Some ptr, h)))
                       else Some (Some ptr, h))
                  | None \<Rightarrow> Some (Some ptr, h)))
       | None \<Rightarrow>
           (let newTop = t + n in
            case hfresh h of
              Some ptr \<Rightarrow>
                if newTop \<le> hlmt h then
                  (let h = h\<lparr>hfresh := bnext (hmem h ptr)\<rparr>;
                       h = set_addr ptr t h;
                       h = set_next ptr (hused h) h;
                       h = set_size ptr n h;
                       h = h\<lparr>hused := Some ptr, htop := newTop\<rparr>
                   in Some (Some ptr, h))
                else Some (None, h)
            | None \<Rightarrow> Some (None, h))))"

definition VM_alloc :: "Heap \<Rightarrow> u32 \<Rightarrow> (u32 \<times> Heap) option" where
  "VM_alloc h n =
     Option.bind (VM_heap_alloc_heap_block h n) (\<lambda>(block, h).
       case block of
         Some b \<Rightarrow> Some (baddr (hmem h b), h)
       | None \<Rightarrow> Some (0, h))"

text \<open>The search loop of \<open>VM_free\<close>.\<close>

partial_function (option) free_scan ::
  "store \<Rightarrow> u32 \<Rightarrow> nat option \<Rightarrow> nat option \<Rightarrow> (nat option \<times> nat) option option" where
  "free_scan m a prev block =
     (case block of
        None \<Rightarrow> Some None
      | Some b \<Rightarrow> if a = baddr (m b) then Some (Some (prev, b))
                  else free_scan m a block (bnext (m b)))"

definition VM_free :: "Heap \<Rightarrow> u32 \<Rightarrow> (bool \<times> Heap) option" where
  "VM_free h a =
     (if a = 0 then Some (False, h)
      else Option.bind (free_scan (hmem h) a None (hused h)) (\<lambda>found.
        case found of
          Some (prev, block) \<Rightarrow>
            (let h = (case prev of
                        Some q \<Rightarrow> set_next q (bnext (hmem h block)) h
                      | None \<Rightarrow> h\<lparr>hused := bnext (hmem h block)\<rparr>)
             in Option.bind (VM_heap_insert_heap_block h block) (\<lambda>h.
                Option.bind (VM_heap_compact h) (\<lambda>h. Some (True, h))))
        | None \<Rightarrow> Some (False, h)))"

text \<open>
  The loop that threads the descriptors of a new heap onto the fresh list. \<open>m\<close> is what the
  memory held before. With no blocks at all the source's counter wraps round and the loop runs
  past the table.
\<close>

primrec init_links :: "nat \<Rightarrow> nat \<Rightarrow> store \<Rightarrow> store" where
  "init_links 0 block m = m(block := (m block)\<lparr>bnext := None\<rparr>)"
| "init_links (Suc i) block m =
     init_links i (Suc block) (m(block := (m block)\<lparr>bnext := Some (Suc block)\<rparr>))"

definition VM_heap_init :: "u32 \<Rightarrow> u32 \<Rightarrow> u8 \<Rightarrow> u32 \<Rightarrow> u32 \<Rightarrow> store \<Rightarrow> Heap option" where
  "VM_heap_init blocks sth alignment hlm hb m =
     (if blocks = 0 then None
      else Some \<lparr>hfree = None, hused = None, hfresh = Some 0, htop = hb, hsth = sth, hlmt = hlm,
        haln = alignment, hmem = init_links (unat (blocks - 1)) 0 m\<rparr>)"

declare insert_scan.simps [code] VM_heap_release_heap_blocks.simps [code] compact_scan.simps [code]
  compact_loop.simps [code] alloc_scan.simps [code] free_scan.simps [code]

section \<open>Lists of descriptors\<close>

primrec hpath :: "store \<Rightarrow> nat option \<Rightarrow> nat list \<Rightarrow> nat option \<Rightarrow> bool" where
  "hpath m p [] q \<longleftrightarrow> p = q"
| "hpath m p (b # bs) q \<longleftrightarrow> p = Some b \<and> hpath m (bnext (m b)) bs q"

lemma hpath_append: "hpath m p (xs @ ys) q \<longleftrightarrow> (\<exists>r. hpath m p xs r \<and> hpath m r ys q)"
  by (induction xs arbitrary: p) auto

lemma hpath_cong:
  "(\<And>b. b \<in> set xs \<Longrightarrow> bnext (m b) = bnext (m' b)) \<Longrightarrow> hpath m p xs q \<longleftrightarrow> hpath m' p xs q"
  by (induction xs arbitrary: p) auto

lemma hpath_frame:
  assumes "hpath m p xs q" "\<And>b. b \<in> set xs \<Longrightarrow> m' b = m b"
  shows "hpath m' p xs q"
  using assms hpath_cong [of xs m' m] by simp

definition headof :: "nat list \<Rightarrow> nat option" where
  "headof xs = (case xs of [] \<Rightarrow> None | x # _ \<Rightarrow> Some x)"

definition lastof :: "nat option \<Rightarrow> nat list \<Rightarrow> nat option" where
  "lastof p xs = (if xs = [] then p else Some (last xs))"

lemma headof_simps [simp]: "headof [] = None" "headof (x # xs) = Some x"
  by (simp_all add: headof_def)

lemma lastof_simps [simp]: "lastof p [] = p" "lastof p (x # xs) = lastof (Some x) xs"
  by (simp_all add: lastof_def)

lemma hpath_headof: "hpath m p xs None \<Longrightarrow> p = headof xs"
  by (cases xs) auto

text \<open>Redirecting the last link of a segment.\<close>

lemma hpath_redirect:
  assumes "hpath m p xs r" "xs \<noteq> []" "distinct xs"
    and "\<And>b. b \<in> set xs \<Longrightarrow> b \<noteq> last xs \<Longrightarrow> bnext (m' b) = bnext (m b)"
    and "bnext (m' (last xs)) = q"
  shows "hpath m' p xs q"
  using assms
proof (induction xs arbitrary: p)
  case Nil
  then show ?case by simp
next
  case (Cons x xs)
  show ?case
  proof (cases "xs = []")
    case True
    then show ?thesis using Cons.prems by simp
  next
    case False
    then have "x \<noteq> last xs" using Cons.prems(3) by (metis distinct.simps(2) last_in_set)
    then show ?thesis using Cons False by simp
  qed
qed

abbreviation blk :: "store \<Rightarrow> nat \<Rightarrow> block" where
  "blk m b \<equiv> (baddr (m b), bsize (m b))"

definition shape :: "Heap \<Rightarrow> nat list \<Rightarrow> nat list \<Rightarrow> nat list \<Rightarrow> bool" where
  "shape h fs us ns \<longleftrightarrow>
     hpath (hmem h) (hfree h) fs None \<and> hpath (hmem h) (hused h) us None \<and>
     hpath (hmem h) (hfresh h) ns None \<and> distinct (fs @ us @ ns)"

definition view :: "Heap \<Rightarrow> nat list \<Rightarrow> nat list \<Rightarrow> nat list \<Rightarrow> AHeap" where
  "view h fs us ns = \<lparr>afree = map (blk (hmem h)) fs, aused = map (blk (hmem h)) us,
     afresh = length ns, atop = htop h, asth = hsth h, almt = hlmt h, aaln = haln h\<rparr>"

definition represents :: "Heap \<Rightarrow> AHeap \<Rightarrow> bool" where
  "represents h s \<longleftrightarrow> (\<exists>fs us ns. shape h fs us ns \<and> s = view h fs us ns)"

text \<open>The fields that only the allocation changes.\<close>

definition same_bounds :: "Heap \<Rightarrow> Heap \<Rightarrow> bool" where
  "same_bounds h h' \<longleftrightarrow> htop h' = htop h \<and> hsth h' = hsth h \<and> hlmt h' = hlmt h \<and> haln h' = haln h"

lemma set_next_fields [simp]:
  "hfree (set_next b p h) = hfree h" "hused (set_next b p h) = hused h"
  "hfresh (set_next b p h) = hfresh h" "htop (set_next b p h) = htop h"
  "hsth (set_next b p h) = hsth h" "hlmt (set_next b p h) = hlmt h"
  "haln (set_next b p h) = haln h"
  "hmem (set_next b p h) = (hmem h)(b := (hmem h b)\<lparr>bnext := p\<rparr>)"
  by (simp_all add: set_next_def)

lemma set_size_fields [simp]:
  "hfree (set_size b n h) = hfree h" "hused (set_size b n h) = hused h"
  "hfresh (set_size b n h) = hfresh h" "htop (set_size b n h) = htop h"
  "hsth (set_size b n h) = hsth h" "hlmt (set_size b n h) = hlmt h"
  "haln (set_size b n h) = haln h"
  "hmem (set_size b n h) = (hmem h)(b := (hmem h b)\<lparr>bsize := n\<rparr>)"
  by (simp_all add: set_size_def)

lemma set_addr_fields [simp]:
  "hfree (set_addr b a h) = hfree h" "hused (set_addr b a h) = hused h"
  "hfresh (set_addr b a h) = hfresh h" "htop (set_addr b a h) = htop h"
  "hsth (set_addr b a h) = hsth h" "hlmt (set_addr b a h) = hlmt h"
  "haln (set_addr b a h) = haln h"
  "hmem (set_addr b a h) = (hmem h)(b := (hmem h b)\<lparr>baddr := a\<rparr>)"
  by (simp_all add: set_addr_def)

section \<open>The search loops\<close>

lemma insert_scan_path:
  "hpath m ptr bs None \<Longrightarrow> insert_scan m a prev ptr =
     Some (lastof prev (takeWhile (\<lambda>b. baddr (m b) < a) bs), headof (dropWhile (\<lambda>b. baddr (m b) < a) bs))"
  by (induction bs arbitrary: prev ptr) (subst insert_scan.simps, auto simp: not_less)+

lemma alloc_scan_path:
  "hpath (hmem h) ptr bs None \<Longrightarrow> alloc_scan h t n prev ptr =
     Some (map_option (\<lambda>(xs, p, ys). (lastof prev xs, p, is_top h t n p))
       (List.extract (\<lambda>p. is_top h t n p \<or> n \<le> bsize (hmem h p)) bs))"
  by (induction bs arbitrary: prev ptr)
    (auto simp: alloc_scan.simps extract_Nil_code extract_Cons_code map_option_case split: option.splits)

lemma free_scan_path:
  "hpath m ptr bs None \<Longrightarrow> free_scan m a prev ptr =
     Some (map_option (\<lambda>(xs, p, ys). (lastof prev xs, p)) (List.extract (\<lambda>p. a = baddr (m p)) bs))"
  by (induction bs arbitrary: prev ptr)
    (auto simp: free_scan.simps extract_Nil_code extract_Cons_code map_option_case split: option.splits)

lemma extract_map:
  "List.extract P (map f xs) =
     map_option (\<lambda>(ys, x, zs). (map f ys, f x, map f zs)) (List.extract (\<lambda>x. P (f x)) xs)"
  by (induction xs)
    (auto simp: extract_Nil_code extract_Cons_code map_option_case split: option.splits)

section \<open>Insertion and removal\<close>

definition link_in :: "nat option \<Rightarrow> nat \<Rightarrow> Heap \<Rightarrow> Heap" where
  "link_in prev b h =
     (case prev of Some q \<Rightarrow> set_next q (Some b) h | None \<Rightarrow> h\<lparr>hfree := Some b\<rparr>)"

lemma insert_block:
  assumes "hpath (hmem h) (hfree h) fs None" "distinct fs" "b \<notin> set fs"
    and fs: "fs = xs @ ys"
  shows "hpath (hmem (set_next b (headof ys) (link_in (lastof None xs) b h)))
           (hfree (set_next b (headof ys) (link_in (lastof None xs) b h))) (xs @ b # ys) None"
    (is "hpath (hmem ?h) (hfree ?h) _ _")
proof -
  obtain r where r: "hpath (hmem h) (hfree h) xs r" "hpath (hmem h) r ys None"
    using assms by (auto simp: hpath_append)
  have "last xs \<notin> set ys" if "xs \<noteq> []"
    using assms last_in_set [OF that] by auto
  then have "hpath (hmem ?h) (headof ys) ys None \<longleftrightarrow> hpath (hmem h) (headof ys) ys None"
    using assms by (intro hpath_cong) (auto simp: link_in_def lastof_def)
  then have ys: "hpath (hmem ?h) (headof ys) ys None" using r(2) hpath_headof by auto
  have xs: "hpath (hmem ?h) (hfree ?h) xs (Some b)"
  proof (cases "xs = []")
    case True
    then show ?thesis by (simp add: link_in_def)
  next
    case False
    then have "last xs \<noteq> b" "hfree ?h = hfree h"
      using assms by (auto simp: link_in_def lastof_def)
    with False show ?thesis
      using assms by (auto intro!: hpath_redirect [OF r(1)] simp: link_in_def lastof_def)
  qed
  show ?thesis using xs ys by (auto simp: hpath_append)
qed

lemma blk_update_next [simp]: "blk (m(b := (m b)\<lparr>bnext := p\<rparr>)) = blk m"
  by auto

lemma VM_heap_insert_heap_block_path:
  assumes path: "hpath (hmem h) (hfree h) fs None" "distinct fs" "b \<notin> set fs"
  obtains h' fs' where "VM_heap_insert_heap_block h b = Some h'" "hpath (hmem h') (hfree h') fs' None"
    "mset fs' = add_mset b (mset fs)" "hused h' = hused h" "hfresh h' = hfresh h" "same_bounds h h'"
    "\<And>c. c \<notin> insert b (set fs) \<Longrightarrow> hmem h' c = hmem h c"
    "\<And>c. blk (hmem h') c = blk (hmem h) c"
    "map (blk (hmem h)) fs' = a_insert (blk (hmem h) b) (map (blk (hmem h)) fs)"
proof -
  let ?P = "\<lambda>c. baddr (hmem h c) < baddr (hmem h b)"
  let ?xs = "takeWhile ?P fs" and ?ys = "dropWhile ?P fs"
  let ?h = "set_next b (headof ?ys) (link_in (lastof None ?xs) b h)"
  have "VM_heap_insert_heap_block h b = Some ?h"
    unfolding VM_heap_insert_heap_block_def insert_scan_path [OF path(1)] link_in_def
    by (simp add: Let_def)
  moreover have "hpath (hmem ?h) (hfree ?h) (?xs @ b # ?ys) None"
    using insert_block [OF path, of ?xs ?ys] by simp
  moreover have "mset (?xs @ b # ?ys) = add_mset b (mset fs)"
    by (metis mset_a_insert a_insert_def takeWhile_dropWhile_id mset_append union_mset_add_mset_right mset.simps(2))
  moreover have "hused ?h = hused h" "hfresh ?h = hfresh h" "same_bounds h ?h"
    by (auto simp: link_in_def same_bounds_def split: option.split)
  moreover have "hmem ?h c = hmem h c" if "c \<notin> insert b (set fs)" for c
  proof -
    have "last ?xs \<in> set fs" if "?xs \<noteq> []"
      using last_in_set [OF that] set_takeWhileD by fast
    with that show ?thesis by (auto simp: link_in_def lastof_def)
  qed
  moreover have "blk (hmem ?h) c = blk (hmem h) c" for c
    by (auto simp: link_in_def split: option.split)
  moreover have "map (blk (hmem h)) (?xs @ b # ?ys) = a_insert (blk (hmem h) b) (map (blk (hmem h)) fs)"
    by (simp add: a_insert_def takeWhile_map dropWhile_map comp_def)
  ultimately show thesis using that by blast
qed

text \<open>Taking a block out of a list, from its predecessor or from the head.\<close>

lemma hpath_remove:
  assumes path: "hpath m p (xs @ b # ys) None" "distinct (xs @ b # ys)"
    and cut: "\<And>c. c \<in> set (xs @ ys) \<Longrightarrow> lastof None xs \<noteq> Some c \<Longrightarrow> bnext (m' c) = bnext (m c)"
    and redirect: "xs \<noteq> [] \<Longrightarrow> bnext (m' (last xs)) = bnext (m b)"
  shows "hpath m' (if xs = [] then bnext (m b) else p) (xs @ ys) None"
proof -
  have xs: "hpath m p xs (Some b)" and ys: "hpath m (bnext (m b)) ys None"
    using path(1) by (auto simp: hpath_append)
  have "last xs \<notin> set ys" if "xs \<noteq> []"
    using path(2) last_in_set [OF that] by auto
  then have "hpath m' (bnext (m b)) ys None \<longleftrightarrow> hpath m (bnext (m b)) ys None"
    using path(2) by (intro hpath_cong cut) (auto simp: lastof_def)
  moreover have "hpath m' p xs (bnext (m b))" if "xs \<noteq> []"
    using hpath_redirect [OF xs that, of m'] path(2) cut redirect that by (auto simp: lastof_def)
  ultimately show ?thesis using ys by (auto simp: hpath_append)
qed

section \<open>Compaction\<close>

lemma VM_heap_release_heap_blocks_path:
  assumes "hpath (hmem h) scan xs to" "to \<notin> Some ` set xs" "hpath (hmem h) (hfresh h) ns None"
    and "distinct (xs @ ns)"
  shows "\<exists>h'. VM_heap_release_heap_blocks h scan to = Some h' \<and>
    hpath (hmem h') (hfresh h') (rev xs @ ns) None \<and>
    hfree h' = hfree h \<and> hused h' = hused h \<and> same_bounds h h' \<and>
    (\<forall>c. c \<notin> set xs \<longrightarrow> hmem h' c = hmem h c)"
  using assms
proof (induction xs arbitrary: h scan ns)
  case Nil
  have "VM_heap_release_heap_blocks h scan to = Some h"
    using Nil.prems by (subst VM_heap_release_heap_blocks.simps) simp
  with Nil.prems show ?case by (simp add: same_bounds_def)
next
  case (Cons x xs)
  let ?h = "set_size x 0 (set_addr x 0 (set_next x (hfresh h) h\<lparr>hfresh := Some x\<rparr>))"
  have step: "VM_heap_release_heap_blocks h scan to =
      VM_heap_release_heap_blocks ?h (bnext (hmem h x)) to"
    using Cons.prems by (subst VM_heap_release_heap_blocks.simps) (auto simp: Let_def)
  have "hpath (hmem ?h) (bnext (hmem h x)) xs to \<longleftrightarrow> hpath (hmem h) (bnext (hmem h x)) xs to"
    using Cons.prems by (intro hpath_cong) auto
  then have 1: "hpath (hmem ?h) (bnext (hmem h x)) xs to" using Cons.prems by simp
  have "hpath (hmem ?h) (hfresh h) ns None \<longleftrightarrow> hpath (hmem h) (hfresh h) ns None"
    using Cons.prems by (intro hpath_cong) auto
  then have 2: "hpath (hmem ?h) (hfresh ?h) (x # ns) None" using Cons.prems by simp
  obtain h' where "VM_heap_release_heap_blocks ?h (bnext (hmem h x)) to = Some h'"
    "hpath (hmem h') (hfresh h') (rev xs @ x # ns) None"
    "hfree h' = hfree ?h" "hused h' = hused ?h" "same_bounds ?h h'"
    "\<forall>c. c \<notin> set xs \<longrightarrow> hmem h' c = hmem ?h c"
    using Cons.IH [OF 1 _ 2] Cons.prems by auto
  with step show ?case by (auto simp: same_bounds_def)
qed

text \<open>A run of blocks that follow each other without gaps.\<close>

fun chain :: "block \<Rightarrow> block list \<Rightarrow> bool" where
  "chain b [] \<longleftrightarrow> True"
| "chain b (c # cs) \<longleftrightarrow> fst b + snd b = fst c \<and> chain c cs"

lemma coalesce_chain:
  assumes "chain b run" "suf = [] \<or> fst (last (b # run)) + snd (last (b # run)) \<noteq> fst (hd suf)"
  shows "coalesce (b # run @ suf) =
    (fst b, fst (last (b # run)) - fst b + snd (last (b # run))) # coalesce suf"
  using assms
proof (induction run arbitrary: b)
  case Nil
  then show ?case by (cases b; cases suf) auto
next
  case (Cons c run)
  let ?m = "(fst b, snd b + snd c)"
  have c: "fst c = fst b + snd b" using Cons.prems by simp
  have "chain ?m run" using Cons.prems c by (cases run) (auto simp: add.assoc)
  moreover have "fst (last (?m # run)) + snd (last (?m # run)) = fst (last (c # run)) + snd (last (c # run))"
    using c by (auto simp: add.assoc)
  ultimately have "coalesce (?m # run @ suf) =
      (fst b, fst (last (?m # run)) - fst b + snd (last (?m # run))) # coalesce suf"
    using Cons.IH [of ?m] Cons.prems by simp
  moreover have "coalesce (b # (c # run) @ suf) = coalesce (?m # run @ suf)"
    using c by (cases b; cases c) simp
  moreover have "fst (last (?m # run)) - fst b + snd (last (?m # run)) =
      fst (last (b # c # run)) - fst b + snd (last (b # c # run))"
    using c by (auto simp: algebra_simps)
  ultimately show ?case by simp
qed

lemma compact_scan_path:
  assumes "hpath m (bnext (m p)) bs None"
  shows "\<exists>run suf. bs = run @ suf \<and>
    compact_scan m p (bnext (m p)) = Some (last (p # run), headof suf) \<and>
    chain (blk m p) (map (blk m) run) \<and>
    (suf = [] \<or> baddr (m (last (p # run))) + bsize (m (last (p # run))) \<noteq> baddr (m (hd suf)))"
  using assms
proof (induction bs arbitrary: p)
  case Nil
  have "compact_scan m p (bnext (m p)) = Some (p, None)"
    using Nil.prems by (subst compact_scan.simps) simp
  then show ?case by simp
next
  case (Cons b bs)
  have b: "bnext (m p) = Some b" "hpath m (bnext (m b)) bs None" using Cons.prems by auto
  show ?case
  proof (cases "baddr (m p) + bsize (m p) = baddr (m b)")
    case True
    obtain run suf where r: "bs = run @ suf"
      "compact_scan m b (bnext (m b)) = Some (last (b # run), headof suf)"
      "chain (blk m b) (map (blk m) run)"
      "suf = [] \<or> baddr (m (last (b # run))) + bsize (m (last (b # run))) \<noteq> baddr (m (hd suf))"
      using Cons.IH [OF b(2)] by auto
    have "compact_scan m p (bnext (m p)) = compact_scan m b (bnext (m b))"
      using True b(1) by (subst compact_scan.simps) simp
    with r True show ?thesis
      by (intro exI [of _ "b # run"] exI [of _ suf]) auto
  next
    case False
    then have "compact_scan m p (bnext (m p)) = Some (p, Some b)"
      using b(1) by (subst compact_scan.simps) simp
    with False show ?thesis by (intro exI [of _ "[]"] exI [of _ "b # bs"]) auto
  qed
qed

definition compacted :: "Heap \<Rightarrow> nat list \<Rightarrow> nat option \<Rightarrow> Heap \<Rightarrow> nat list \<Rightarrow> nat list \<Rightarrow> nat list \<Rightarrow> bool" where
  "compacted h fs ptr h' fs' ns ns' \<longleftrightarrow>
     hpath (hmem h') ptr fs' None \<and> hpath (hmem h') (hfresh h') ns' None \<and>
     mset (fs' @ ns') = mset (fs @ ns) \<and> headof fs' = headof fs \<and>
     map (blk (hmem h')) fs' = coalesce (map (blk (hmem h)) fs) \<and>
     hfree h' = hfree h \<and> hused h' = hused h \<and> same_bounds h h' \<and>
     (\<forall>c. c \<notin> set fs \<longrightarrow> hmem h' c = hmem h c)"

text \<open>One round of the outer loop: the run after \<open>p\<close> is merged into \<open>p\<close>.\<close>

lemma compact_merge_path:
  assumes path: "hpath (hmem h) (Some p) (p # run @ suf) None" "hpath (hmem h) (hfresh h) ns None"
    and dist: "distinct (p # run @ suf @ ns)"
  shows "\<exists>h'. compact_merge h p (last (p # run)) = Some h' \<and>
    bnext (hmem h' p) = headof suf \<and> hpath (hmem h') (headof suf) suf None \<and>
    hpath (hmem h') (hfresh h') (rev run @ ns) None \<and>
    baddr (hmem h' p) = baddr (hmem h p) \<and>
    bsize (hmem h' p) = baddr (hmem h (last (p # run))) - baddr (hmem h p) + bsize (hmem h (last (p # run))) \<and>
    hfree h' = hfree h \<and> hused h' = hused h \<and> same_bounds h h' \<and>
    (\<forall>c. c \<notin> set (p # run) \<longrightarrow> hmem h' c = hmem h c)"
proof (cases "run = []")
  case True
  then show ?thesis
    using path hpath_headof [of "hmem h" "bnext (hmem h p)" suf]
    by (auto simp: compact_merge_def same_bounds_def)
next
  case False
  let ?l = "last run"
  let ?h = "set_size p (baddr (hmem h ?l) - baddr (hmem h p) + bsize (hmem h ?l)) h"
  have l: "?l \<in> set run" "?l \<noteq> p" using False dist by auto
  obtain r where r: "hpath (hmem h) (bnext (hmem h p)) run r" "hpath (hmem h) r suf None"
    using path(1) by (auto simp: hpath_append)
  have rs: "r = headof suf" using hpath_headof [OF r(2)] .
  have "bnext (hmem h ?l) = r"
    using r(1) False by (induction run arbitrary: p) (auto split: if_splits)
  then have nl: "bnext (hmem ?h ?l) = headof suf" using rs l by simp
  have 1: "hpath (hmem ?h) (bnext (hmem ?h p)) run (bnext (hmem ?h ?l))"
    using r(1) hpath_cong [of run "hmem ?h" "hmem h"] dist nl rs by auto
  have "bnext (hmem ?h ?l) \<notin> Some ` set run"
    unfolding nl using dist by (cases suf) auto
  moreover have "hpath (hmem ?h) (hfresh ?h) ns None"
    using path(2) hpath_cong [of ns "hmem ?h" "hmem h"] dist by auto
  ultimately obtain h' where h': "VM_heap_release_heap_blocks ?h (bnext (hmem ?h p)) (bnext (hmem ?h ?l)) = Some h'"
    "hpath (hmem h') (hfresh h') (rev run @ ns) None"
    "hfree h' = hfree ?h" "hused h' = hused ?h" "same_bounds ?h h'"
    "\<forall>c. c \<notin> set run \<longrightarrow> hmem h' c = hmem ?h c"
    using VM_heap_release_heap_blocks_path [OF 1, of ns] dist by auto
  let ?h' = "set_next p (headof suf) h'"
  have "compact_merge h p (last (p # run)) = Some ?h'"
    using False l h'(1) nl by (simp add: compact_merge_def Let_def)
  moreover have "hpath (hmem ?h') (headof suf) suf None \<longleftrightarrow> hpath (hmem h) (headof suf) suf None"
    by (intro hpath_cong) (use dist h'(6) in auto)
  then have "hpath (hmem ?h') (headof suf) suf None" using r(2) rs by simp
  moreover have "hpath (hmem ?h') (hfresh ?h') (rev run @ ns) None \<longleftrightarrow>
      hpath (hmem h') (hfresh ?h') (rev run @ ns) None"
    by (intro hpath_cong) (use dist in auto)
  then have "hpath (hmem ?h') (hfresh ?h') (rev run @ ns) None" using h'(2) by simp
  ultimately show ?thesis
    using h' False dist by (auto simp: same_bounds_def)
qed

lemma compact_loop_path:
  assumes "hpath (hmem h) ptr fs None" "hpath (hmem h) (hfresh h) ns None" "distinct (fs @ ns)"
  shows "\<exists>h' fs' ns'. compact_loop h ptr = Some h' \<and> compacted h fs ptr h' fs' ns ns'"
  using assms
proof (induction fs arbitrary: h ptr ns rule: length_induct)
  case (1 fs)
  show ?case
  proof (cases fs)
    case Nil
    then have "compact_loop h ptr = Some h"
      using 1(2) by (subst compact_loop.simps) simp
    moreover have "compacted h fs ptr h [] ns ns"
      using 1(2,3) Nil by (auto simp: compacted_def same_bounds_def)
    ultimately show ?thesis by blast
  next
    case (Cons p bs)
    obtain run suf where bs: "bs = run @ suf"
      and scan: "compact_scan (hmem h) p (bnext (hmem h p)) = Some (last (p # run), headof suf)"
      and ch: "chain (blk (hmem h) p) (map (blk (hmem h)) run)"
      and stop: "suf = [] \<or> baddr (hmem h (last (p # run))) + bsize (hmem h (last (p # run))) \<noteq> baddr (hmem h (hd suf))"
      using compact_scan_path [of "hmem h" p bs] 1(2) Cons by auto
    have ptr: "ptr = Some p" using 1(2) Cons by simp
    obtain h1 where h1: "compact_merge h p (last (p # run)) = Some h1"
      "bnext (hmem h1 p) = headof suf" "hpath (hmem h1) (headof suf) suf None"
      "hpath (hmem h1) (hfresh h1) (rev run @ ns) None"
      "blk (hmem h1) p = (baddr (hmem h p), baddr (hmem h (last (p # run))) - baddr (hmem h p) + bsize (hmem h (last (p # run))))"
      "hfree h1 = hfree h" "hused h1 = hused h" "same_bounds h h1"
      "\<forall>c. c \<notin> set (p # run) \<longrightarrow> hmem h1 c = hmem h c"
      using compact_merge_path [of h p run suf ns] 1(2-4) Cons bs ptr by auto
    have "distinct (suf @ rev run @ ns)" using 1(4) Cons bs by auto
    then obtain h2 fs' ns' where h2: "compact_loop h1 (headof suf) = Some h2"
      "compacted h1 suf (headof suf) h2 fs' (rev run @ ns) ns'"
      using 1(1) [rule_format, of suf h1 "headof suf" "rev run @ ns"] h1(3,4) Cons bs by auto
    have step: "compact_loop h ptr = Some h2"
      using ptr scan h1(1,2) h2(1) by (subst compact_loop.simps) simp
    have suf: "map (blk (hmem h1)) suf = map (blk (hmem h)) suf"
      using h1(9) 1(4) Cons bs by auto
    have merged: "blk (hmem h1) p # coalesce (map (blk (hmem h)) suf) = coalesce (map (blk (hmem h)) fs)"
    proof -
      have l: "last (blk (hmem h) p # map (blk (hmem h)) run) = blk (hmem h) (last (p # run))"
        by (cases "run = []") (simp_all add: last_map)
      have "map (blk (hmem h)) suf = [] \<or> baddr (hmem h (last (p # run))) +
          bsize (hmem h (last (p # run))) \<noteq> fst (hd (map (blk (hmem h)) suf))"
        using stop by (cases suf) auto
      with coalesce_chain [OF ch, of "map (blk (hmem h)) suf"] show ?thesis
        using Cons bs h1(5) by (simp add: l del: last.simps)
    qed
    have p: "hmem h2 p = hmem h1 p"
      using h2(2) 1(4) Cons bs by (auto simp: compacted_def)
    have "map (blk (hmem h2)) fs' = coalesce (map (blk (hmem h1)) suf)"
      using h2(2) by (simp only: compacted_def)
    then have blks: "map (blk (hmem h2)) (p # fs') = coalesce (map (blk (hmem h)) fs)"
      unfolding list.map p by (simp only: suf merged)
    have "hpath (hmem h2) ptr (p # fs') None"
      using h2(2) h1(2) p ptr by (simp add: compacted_def)
    moreover have "mset ((p # fs') @ ns') = mset (fs @ ns)"
      using h2(2) Cons bs by (simp add: compacted_def)
    moreover have "hmem h2 c = hmem h c" if "c \<notin> set fs" for c
      using h2(2) h1(9) that Cons bs by (simp add: compacted_def)
    ultimately have "compacted h fs ptr h2 (p # fs') ns ns'"
      using blks h1(6-8) h2(2) Cons unfolding compacted_def same_bounds_def by simp
    then show ?thesis using step by blast
  qed
qed

lemma VM_heap_compact_path:
  assumes "shape h fs us ns"
  obtains h' fs' ns' where "VM_heap_compact h = Some h'" "shape h' fs' us ns'" "same_bounds h h'"
    "map (blk (hmem h')) fs' = coalesce (map (blk (hmem h)) fs)"
    "length fs' + length ns' = length fs + length ns"
    "\<And>c. c \<in> set us \<Longrightarrow> hmem h' c = hmem h c" "set fs' \<union> set ns' = set fs \<union> set ns"
proof -
  obtain h' fs' ns' where h': "compact_loop h (hfree h) = Some h'" "compacted h fs (hfree h) h' fs' ns ns'"
    using compact_loop_path [of h "hfree h" fs ns] assms unfolding shape_def by fastforce
  have m: "mset (fs' @ ns') = mset (fs @ ns)" using h'(2) by (simp add: compacted_def)
  have s: "set fs' \<union> set ns' = set fs \<union> set ns" using m by (metis set_append set_mset_mset)
  have l: "length fs' + length ns' = length fs + length ns" using m by (metis length_append size_mset)
  have d: "distinct (fs' @ ns')" using assms mset_eq_imp_distinct_iff [OF m] by (auto simp: shape_def)
  have "hpath (hmem h') (hused h) us None \<longleftrightarrow> hpath (hmem h) (hused h) us None"
    using h'(2) assms by (intro hpath_cong) (auto simp: compacted_def shape_def)
  then have "shape h' fs' us ns'"
    using h'(2) assms s d by (auto simp: compacted_def shape_def)
  moreover have "\<And>c. c \<in> set us \<Longrightarrow> hmem h' c = hmem h c"
    using h'(2) assms by (auto simp: compacted_def shape_def)
  ultimately show thesis
    using that [of h' fs' ns'] h' s l by (auto simp: VM_heap_compact_def compacted_def)
qed

section \<open>The operations implement the contract\<close>

lemma represents_view: "shape h fs us ns \<Longrightarrow> represents h (view h fs us ns)"
  by (auto simp: represents_def)

text \<open>Giving a block back: insertion followed by compaction.\<close>

definition give_back :: "Heap \<Rightarrow> nat \<Rightarrow> Heap option" where
  "give_back h b = Option.bind (VM_heap_insert_heap_block h b) VM_heap_compact"

lemma give_back_represents:
  assumes "shape h fs us ns" "b \<notin> set (fs @ us @ ns)"
  shows "\<exists>h'. give_back h b = Some h' \<and>
    represents h' (a_release (blk (hmem h) b) (view h fs us ns)) \<and>
    (\<forall>c\<in>set us. hmem h' c = hmem h c)"
proof -
  obtain h1 fs1 where h1: "VM_heap_insert_heap_block h b = Some h1" "hpath (hmem h1) (hfree h1) fs1 None"
    "mset fs1 = add_mset b (mset fs)" "hused h1 = hused h" "hfresh h1 = hfresh h" "same_bounds h h1"
    "\<And>c. c \<notin> insert b (set fs) \<Longrightarrow> hmem h1 c = hmem h c"
    "\<And>c. blk (hmem h1) c = blk (hmem h) c"
    "map (blk (hmem h)) fs1 = a_insert (blk (hmem h) b) (map (blk (hmem h)) fs)"
    using VM_heap_insert_heap_block_path [of h fs b] assms by (auto simp: shape_def)
  have s1: "set fs1 = insert b (set fs)" using h1(3) by (metis set_mset_add_mset_insert set_mset_mset)
  have d1: "distinct fs1"
    using mset_eq_imp_distinct_iff [of fs1 "b # fs"] h1(3) assms by (auto simp: shape_def)
  have same: "hmem h1 c = hmem h c" if "c \<in> set us \<union> set ns" for c
    by (rule h1(7)) (use that assms in \<open>auto simp: shape_def\<close>)
  have "hpath (hmem h1) (hused h) us None" "hpath (hmem h1) (hfresh h) ns None"
    by (rule hpath_frame [of "hmem h"], use assms same in \<open>simp_all add: shape_def\<close>)+
  then have sh1: "shape h1 fs1 us ns" using assms h1(2,4,5) s1 d1 by (auto simp: shape_def)
  obtain h2 fs2 ns2 where h2: "VM_heap_compact h1 = Some h2" "shape h2 fs2 us ns2" "same_bounds h1 h2"
    "map (blk (hmem h2)) fs2 = coalesce (map (blk (hmem h1)) fs1)"
    "length fs2 + length ns2 = length fs1 + length ns"
    "\<And>c. c \<in> set us \<Longrightarrow> hmem h2 c = hmem h1 c"
    by (rule VM_heap_compact_path [OF sh1], rule that) (assumption | blast)+
  have b1: "map (blk (hmem h1)) fs1 = a_insert (blk (hmem h) b) (map (blk (hmem h)) fs)"
  proof -
    have "blk (hmem h1) = blk (hmem h)" by (rule ext) (rule h1(8))
    then show ?thesis by (simp only: h1(9))
  qed
  have us: "hmem h2 c = hmem h c" if "c \<in> set us" for c
    using h2(6) same that by simp
  have len: "length ns2 = length ns + (length fs1 - length fs2)" "length fs2 \<le> length fs1"
    using h2(5) length_coalesce [of "map (blk (hmem h1)) fs1"] arg_cong [OF h2(4), of length] by auto
  have "length fs1 = length (a_insert (blk (hmem h) b) (map (blk (hmem h)) fs))"
    unfolding b1 [symmetric] by simp
  moreover have "length fs2 = length (coalesce (a_insert (blk (hmem h) b) (map (blk (hmem h)) fs)))"
    unfolding b1 [symmetric] h2(4) [symmetric] by simp
  ultimately have "a_release (blk (hmem h) b) (view h fs us ns) = view h2 fs2 us ns2"
    using h2(3,4) h1(6) len(1) us b1
    by (auto simp: a_release_def view_def same_bounds_def Let_def)
  with h1(1) h2(1,2) us show ?thesis
    by (auto simp: give_back_def represents_view)
qed

lemma VM_free_represents:
  assumes "represents h s"
  shows "\<exists>h'. VM_free h a = Some (fst (a_free a s), h') \<and> represents h' (snd (a_free a s))"
proof -
  obtain fs us ns where sh: "shape h fs us ns" and s: "s = view h fs us ns"
    using assms by (auto simp: represents_def)
  note scan = free_scan_path [of "hmem h" "hused h" us a None]
  show ?thesis
  proof (cases "a = 0 \<or> List.extract (\<lambda>p. a = baddr (hmem h p)) us = None")
    case True
    then show ?thesis
      using sh scan represents_view [OF sh]
      by (auto simp: VM_free_def a_free_def s view_def extract_map shape_def)
  next
    case False
    then obtain xs b ys where e: "List.extract (\<lambda>p. a = baddr (hmem h p)) us = Some (xs, b, ys)"
      by auto
    then have us: "us = xs @ b # ys" by (rule extract_Some [THEN conjunct1])
    let ?h = "case lastof None xs of Some q \<Rightarrow> set_next q (bnext (hmem h b)) h
                | None \<Rightarrow> h\<lparr>hused := bnext (hmem h b)\<rparr>"
    have same: "hmem ?h c = hmem h c" if "c \<notin> set xs" for c
      using that last_in_set [of xs] by (auto simp: lastof_def)
    have blk: "blk (hmem ?h) c = blk (hmem h) c" for c
      by (auto split: option.split)
    have f: "hfree ?h = hfree h" "hfresh ?h = hfresh h" "same_bounds h ?h"
      by (auto simp: same_bounds_def split: option.split)
    have "hpath (hmem ?h) (if xs = [] then bnext (hmem h b) else hused h) (xs @ ys) None"
      using sh by (intro hpath_remove) (auto simp: us shape_def lastof_def)
    moreover have "hused ?h = (if xs = [] then bnext (hmem h b) else hused h)"
      by (simp add: lastof_def)
    moreover have "hmem ?h c = hmem h c" if "c \<in> set fs \<union> set ns" for c
      by (rule same) (use that sh in \<open>auto simp: shape_def us\<close>)
    then have "hpath (hmem ?h) (hfree h) fs None" "hpath (hmem ?h) (hfresh h) ns None"
      by (rule_tac hpath_frame [of "hmem h"], use sh in \<open>simp_all add: shape_def\<close>)+
    ultimately have sh': "shape ?h fs (xs @ ys) ns"
      using sh f by (auto simp: shape_def us)
    have "b \<notin> set (fs @ (xs @ ys) @ ns)" using sh by (auto simp: shape_def us)
    then obtain h' where h': "give_back ?h b = Some h'"
      "represents h' (a_release (blk (hmem ?h) b) (view ?h fs (xs @ ys) ns))"
      using give_back_represents [OF sh'] by blast
    have "VM_free h a = Some (True, h')"
      using False scan sh e h'(1)
      by (auto simp: VM_free_def shape_def give_back_def Let_def bind_eq_Some_conv)
    moreover have "a_free a s = (True, a_release (blk (hmem ?h) b) (view ?h fs (xs @ ys) ns))"
      using False e f blk
      by (auto simp: a_free_def s view_def extract_map same_bounds_def)
    ultimately show ?thesis using h'(2) by simp
  qed
qed

text \<open>Moving a block from the free list to the used list.\<close>

definition take_block :: "nat option \<Rightarrow> nat \<Rightarrow> Heap \<Rightarrow> Heap" where
  "take_block prev b h =
     (let h = (case prev of Some q \<Rightarrow> set_next q (bnext (hmem h b)) h
               | None \<Rightarrow> h\<lparr>hfree := bnext (hmem h b)\<rparr>)
      in (set_next b (hused h) h)\<lparr>hused := Some b\<rparr>)"

lemma take_block_shape:
  assumes sh: "shape h (xs @ b # ys) us ns"
  defines "h' \<equiv> take_block (lastof None xs) b h"
  shows "shape h' (xs @ ys) (b # us) ns" "same_bounds h h'" "blk (hmem h') = blk (hmem h)"
    "hfresh h' = hfresh h"
proof -
  have same: "hmem h' c = hmem h c" if "c \<notin> set xs" "c \<noteq> b" for c
    using that last_in_set [of xs] by (auto simp: h'_def take_block_def lastof_def)
  have lb: "last xs \<noteq> b" if "xs \<noteq> []"
    using sh last_in_set [OF that] by (auto simp: shape_def)
  have "hpath (hmem h') (if xs = [] then bnext (hmem h b) else hfree h) (xs @ ys) None"
    using sh lb
    by (intro hpath_remove) (auto simp: shape_def lastof_def h'_def take_block_def Let_def)
  moreover have "hfree h' = (if xs = [] then bnext (hmem h b) else hfree h)"
    by (simp add: h'_def take_block_def lastof_def)
  moreover have f: "hused h' = Some b" "hfresh h' = hfresh h" "bnext (hmem h' b) = hused h"
    by (auto simp: h'_def take_block_def Let_def split: option.split)
  moreover have "hmem h' c = hmem h c" if "c \<in> set us \<union> set ns" for c
    by (rule same) (use that sh in \<open>auto simp: shape_def\<close>)
  then have "hpath (hmem h') (hused h) us None" "hpath (hmem h') (hfresh h) ns None"
    by (rule_tac hpath_frame [of "hmem h"], use sh in \<open>simp_all add: shape_def\<close>)+
  ultimately show "shape h' (xs @ ys) (b # us) ns" using sh by (auto simp: shape_def)
  show "hfresh h' = hfresh h" by (rule f)
  show "same_bounds h h'" "blk (hmem h') = blk (hmem h)"
    by (auto simp: h'_def take_block_def same_bounds_def Let_def split: option.split)
qed

text \<open>Updates of sizes and addresses leave the lists alone.\<close>

lemma shape_links:
  assumes "shape h fs us ns" "hfree h' = hfree h" "hused h' = hused h" "hfresh h' = hfresh h"
    and "\<And>c. bnext (hmem h' c) = bnext (hmem h c)"
  shows "shape h' fs us ns"
  using assms hpath_cong [of _ "hmem h'" "hmem h"] by (simp add: shape_def)

definition allocated :: "(nat option \<times> Heap) option \<Rightarrow> block option \<times> AHeap \<Rightarrow> bool" where
  "allocated r s \<longleftrightarrow> (\<exists>p h. r = Some (p, h) \<and> represents h (snd s) \<and> map_option (blk (hmem h)) p = fst s)"

lemma is_top_view: "is_top h (htop h) n p \<longleftrightarrow> a_top (view h fs us ns) n (blk (hmem h) p)"
  by (simp add: is_top_def a_top_def view_def)

lemma alloc_top:
  assumes sh: "shape h (xs @ b # ys) us ns"
  defines "h1 \<equiv> take_block (lastof None xs) b h"
  shows "allocated (Some (Some b, (set_size b n h1)\<lparr>htop := baddr (hmem h1 b) + n\<rparr>))
     (Some (baddr (hmem h b), n), (view h (xs @ b # ys) us ns)
       \<lparr>afree := map (blk (hmem h)) (xs @ ys), aused := (baddr (hmem h b), n) # map (blk (hmem h)) us,
        atop := baddr (hmem h b) + n\<rparr>)"
proof -
  let ?h = "(set_size b n h1)\<lparr>htop := baddr (hmem h1 b) + n\<rparr>"
  note t = take_block_shape [OF sh, folded h1_def]
  have "shape ?h (xs @ ys) (b # us) ns" by (rule shape_links [OF t(1)]) auto
  moreover have "blk (hmem h1) c = blk (hmem h) c" for c using fun_cong [OF t(3)] .
  moreover have "b \<notin> set (xs @ ys) \<union> set us" using sh by (auto simp: shape_def)
  ultimately have "(view h (xs @ b # ys) us ns)
       \<lparr>afree := map (blk (hmem h)) (xs @ ys), aused := (baddr (hmem h b), n) # map (blk (hmem h)) us,
        atop := baddr (hmem h b) + n\<rparr> = view ?h (xs @ ys) (b # us) ns"
    using t(2) by (auto simp: view_def same_bounds_def)
  moreover have "blk (hmem ?h) b = (baddr (hmem h b), n)"
    using fun_cong [OF t(3), of b] by simp
  ultimately show ?thesis
    using represents_view [OF \<open>shape ?h _ _ _\<close>] by (simp add: allocated_def)
qed

lemma alloc_whole:
  assumes sh: "shape h (xs @ b # ys) us ns"
  shows "allocated (Some (Some b, take_block (lastof None xs) b h))
     (Some (blk (hmem h) b), (view h (xs @ b # ys) us ns)
       \<lparr>afree := map (blk (hmem h)) (xs @ ys), aused := blk (hmem h) b # map (blk (hmem h)) us\<rparr>)"
proof -
  note t = take_block_shape [OF sh]
  have "(view h (xs @ b # ys) us ns)
       \<lparr>afree := map (blk (hmem h)) (xs @ ys), aused := blk (hmem h) b # map (blk (hmem h)) us\<rparr> =
     view (take_block (lastof None xs) b h) (xs @ ys) (b # us) ns"
    using t(2) unfolding view_def t(3) by (simp add: same_bounds_def)
  then show ?thesis
    using represents_view [OF t(1)] fun_cong [OF t(3), of b] by (simp add: allocated_def)
qed

lemma alloc_split:
  fixes n :: u32
  assumes sh: "shape h (xs @ b # ys) us (c # ns)"
  defines "h1 \<equiv> take_block (lastof None xs) b h"
  defines "excess \<equiv> bsize (hmem h b) - n"
  defines "h2 \<equiv> set_size c excess (set_addr c (baddr (hmem h b) + n)
      ((set_size b n h1)\<lparr>hfresh := bnext (hmem h1 c)\<rparr>))"
  shows "allocated (map_option (\<lambda>h. (Some b, h)) (give_back h2 c))
     (Some (baddr (hmem h b), n), a_release (baddr (hmem h b) + n, excess)
       ((view h (xs @ b # ys) us (c # ns))
       \<lparr>afree := map (blk (hmem h)) (xs @ ys), aused := (baddr (hmem h b), n) # map (blk (hmem h)) us,
        afresh := length ns\<rparr>))"
proof -
  note t = take_block_shape [OF sh, folded h1_def]
  have d: "distinct (xs @ b # ys @ us @ c # ns)" using sh by (auto simp: shape_def)
  have "shape (h1\<lparr>hfresh := bnext (hmem h1 c)\<rparr>) (xs @ ys) (b # us) ns"
    using t(1) by (auto simp: shape_def)
  then have sh2: "shape h2 (xs @ ys) (b # us) ns"
    by (rule shape_links) (auto simp: h2_def)
  have blk: "blk (hmem h1) d = blk (hmem h) d" for d using fun_cong [OF t(3)] .
  have b2: "blk (hmem h2) b = (baddr (hmem h b), n)" "blk (hmem h2) c = (baddr (hmem h b) + n, excess)"
    and o2: "\<And>d. d \<noteq> b \<Longrightarrow> d \<noteq> c \<Longrightarrow> blk (hmem h2) d = blk (hmem h) d"
    using blk d by (auto simp: h2_def)
  have "map (blk (hmem h2)) zs = map (blk (hmem h)) zs" if "b \<notin> set zs" "c \<notin> set zs" for zs
    by (rule map_cong [OF refl], rule o2) (use that in auto)
  from this [of "xs @ ys"] this [of us] have "map (blk (hmem h2)) (xs @ ys) = map (blk (hmem h)) (xs @ ys)"
    "map (blk (hmem h2)) us = map (blk (hmem h)) us"
    using d by auto
  then have v: "view h2 (xs @ ys) (b # us) ns = (view h (xs @ b # ys) us (c # ns))
       \<lparr>afree := map (blk (hmem h)) (xs @ ys), aused := (baddr (hmem h b), n) # map (blk (hmem h)) us,
        afresh := length ns\<rparr>"
    using t(2) b2 by (simp add: view_def same_bounds_def h2_def)
  have "c \<notin> set ((xs @ ys) @ (b # us) @ ns)" using d by auto
  from give_back_represents [OF sh2 this] obtain h3 where h3: "give_back h2 c = Some h3"
    "represents h3 (a_release (blk (hmem h2) c) (view h2 (xs @ ys) (b # us) ns))"
    "\<forall>d\<in>set (b # us). hmem h3 d = hmem h2 d" by blast
  have "blk (hmem h3) b = (baddr (hmem h b), n)" using h3(3) b2(1) by simp
  with h3(1,2) show ?thesis unfolding v b2 by (simp add: allocated_def)
qed

lemma alloc_new:
  assumes sh: "shape h fs us (c # ns)"
  shows "allocated (Some (Some c, (set_size c n (set_next c (hused h) (set_addr c (htop h)
        (h\<lparr>hfresh := bnext (hmem h c)\<rparr>))))\<lparr>hused := Some c, htop := htop h + n\<rparr>))
     (Some (htop h, n), (view h fs us (c # ns))
       \<lparr>aused := (htop h, n) # map (blk (hmem h)) us, afresh := length ns, atop := htop h + n\<rparr>)"
    (is "allocated (Some (_, ?h)) _")
proof -
  have d: "c \<notin> set fs" "c \<notin> set us" "c \<notin> set ns" using sh by (auto simp: shape_def)
  have o: "hmem ?h e = hmem h e" if "e \<noteq> c" for e using that by simp
  have "hpath (hmem ?h) (hfree h) fs None" "hpath (hmem ?h) (hused h) us None"
    "hpath (hmem ?h) (bnext (hmem h c)) ns None"
    by (rule hpath_frame [of "hmem h"], use sh d in \<open>auto simp: shape_def\<close>)+
  then have "shape ?h fs (c # us) ns" using sh by (auto simp: shape_def)
  moreover have "map (blk (hmem ?h)) fs = map (blk (hmem h)) fs"
    "map (blk (hmem ?h)) us = map (blk (hmem h)) us"
    using d by auto
  then have "view ?h fs (c # us) ns = (view h fs us (c # ns))
       \<lparr>aused := (htop h, n) # map (blk (hmem h)) us, afresh := length ns, atop := htop h + n\<rparr>"
    by (simp add: view_def)
  ultimately show ?thesis
    using represents_view [of ?h fs "c # us" ns] by (simp add: allocated_def)
qed

lemma VM_heap_alloc_heap_block_represents:
  assumes "represents h s"
  shows "allocated (VM_heap_alloc_heap_block h n) (a_alloc_block (CynAlign n (ucast (aaln s))) s)"
proof -
  obtain fs us ns where sh: "shape h fs us ns" and s: "s = view h fs us ns"
    using assms by (auto simp: represents_def)
  define k where "k = CynAlign n (ucast (haln h))"
  have k: "CynAlign n (ucast (aaln s)) = k" by (simp add: k_def s view_def)
  have fresh: "hfresh h = headof ns" using sh hpath_headof [of "hmem h" "hfresh h" ns] by (simp add: shape_def)
  have scan: "alloc_scan h (htop h) k None (hfree h) =
      Some (map_option (\<lambda>(xs, p, ys). (lastof None xs, p, is_top h (htop h) k p))
       (List.extract (\<lambda>p. is_top h (htop h) k p \<or> k \<le> bsize (hmem h p)) fs))"
    using sh by (intro alloc_scan_path) (simp add: shape_def)
  have ext: "List.extract (\<lambda>b. a_top s k b \<or> k \<le> snd b) (afree s) =
      map_option (\<lambda>(ys, x, zs). (map (blk (hmem h)) ys, blk (hmem h) x, map (blk (hmem h)) zs))
       (List.extract (\<lambda>p. is_top h (htop h) k p \<or> k \<le> bsize (hmem h p)) fs)"
    by (simp add: is_top_view [where fs = fs and us = us and ns = ns] s view_def extract_map)
  show ?thesis
  proof (cases "List.extract (\<lambda>p. is_top h (htop h) k p \<or> k \<le> bsize (hmem h p)) fs")
    case None
    show ?thesis
    proof (cases "ns \<noteq> [] \<and> htop h + k \<le> hlmt h")
      case True
      then obtain c ns' where ns: "ns = c # ns'" by (cases ns) auto
      have "VM_heap_alloc_heap_block h n = Some (Some c, (set_size c k (set_next c (hused h) (set_addr c (htop h)
        (h\<lparr>hfresh := bnext (hmem h c)\<rparr>))))\<lparr>hused := Some c, htop := htop h + k\<rparr>)"
        using True by (simp add: VM_heap_alloc_heap_block_def k_def [symmetric] scan None fresh ns Let_def)
      moreover have "a_alloc_block k s = (Some (htop h, k), (view h fs us (c # ns'))
       \<lparr>aused := (htop h, k) # map (blk (hmem h)) us, afresh := length ns', atop := htop h + k\<rparr>)"
        using True by (simp add: a_alloc_block_def ext None, simp add: s view_def ns)
      ultimately show ?thesis using alloc_new [of h fs us c ns' k] sh ns k by simp
    next
      case False
      then have "VM_heap_alloc_heap_block h n = Some (None, h)"
        by (auto simp: VM_heap_alloc_heap_block_def k_def [symmetric] scan None fresh Let_def headof_def split: list.split)
      moreover have "a_alloc_block k s = (None, s)"
        unfolding a_alloc_block_def ext None using False by (auto simp: s view_def)
      ultimately show ?thesis using assms k by (simp add: allocated_def)
    qed
  next
    case (Some r)
    obtain xs b ys where r: "r = (xs, b, ys)" by (cases r)
    have fs: "fs = xs @ b # ys" and fit: "is_top h (htop h) k b \<or> k \<le> bsize (hmem h b)"
      using extract_Some [OF Some [unfolded r]] by auto
    note sh' = sh [unfolded fs]
    let ?h1 = "take_block (lastof None xs) b h"
    note t = take_block_shape [OF sh']
    have top: "a_top s k (blk (hmem h) b) \<longleftrightarrow> is_top h (htop h) k b"
      by (simp add: is_top_view [where fs = fs and us = us and ns = ns] s)
    have code: "VM_heap_alloc_heap_block h n =
      (if is_top h (htop h) k b then Some (Some b, (set_size b k ?h1)\<lparr>htop := baddr (hmem ?h1 b) + k\<rparr>)
       else case hfresh ?h1 of
          Some split \<Rightarrow> (let excess = bsize (hmem ?h1 b) - k in
            if excess \<ge> hsth ?h1 then
              map_option (\<lambda>h. (Some b, h)) (give_back (set_size split excess (set_addr split (baddr (hmem ?h1 b) + k)
      ((set_size b k ?h1)\<lparr>hfresh := bnext (hmem ?h1 split)\<rparr>))) split)
            else Some (Some b, ?h1))
        | None \<Rightarrow> Some (Some b, ?h1))"
      unfolding VM_heap_alloc_heap_block_def k_def [symmetric] Let_def scan Some r give_back_def
        map_conv_bind_option Option.bind_assoc take_block_def
      by (cases "lastof None xs") (simp_all add: comp_def split: option.split)
    show ?thesis
    proof (cases "is_top h (htop h) k b")
      case True
      then have "a_alloc_block k s = (Some (baddr (hmem h b), k), (view h (xs @ b # ys) us ns)
         \<lparr>afree := map (blk (hmem h)) (xs @ ys), aused := (baddr (hmem h b), k) # map (blk (hmem h)) us,
          atop := baddr (hmem h b) + k\<rparr>)"
        unfolding a_alloc_block_def ext Some r using top by (simp, simp add: s view_def fs)
      then show ?thesis using alloc_top [OF sh', of k] code True k by simp
    next
      case False
      have whole: "allocated (Some (Some b, ?h1)) (Some (blk (hmem h) b), s
         \<lparr>afree := map (blk (hmem h)) (xs @ ys), aused := blk (hmem h) b # aused s\<rparr>)"
        using alloc_whole [OF sh'] by (simp add: s fs view_def)
      have h1: "hfresh ?h1 = headof ns" "hsth ?h1 = hsth h" "blk (hmem ?h1) b = blk (hmem h) b"
        using t(2,4) fun_cong [OF t(3), of b] fresh by (simp_all add: same_bounds_def)
      show ?thesis
      proof (cases "ns \<noteq> [] \<and> hsth h \<le> bsize (hmem h b) - k")
        case True
        then obtain c ns' where ns: "ns = c # ns'" by (cases ns) auto
        have "a_alloc_block k s = (Some (baddr (hmem h b), k), a_release (baddr (hmem h b) + k, bsize (hmem h b) - k)
           ((view h (xs @ b # ys) us (c # ns'))
           \<lparr>afree := map (blk (hmem h)) (xs @ ys), aused := (baddr (hmem h b), k) # map (blk (hmem h)) us,
            afresh := length ns'\<rparr>))"
          unfolding a_alloc_block_def ext Some r using top False True
          by (simp, simp add: s view_def fs ns)
        then show ?thesis
          using alloc_split [OF sh' [unfolded ns], of k] code False True k h1 ns by (simp add: Let_def)
      next
        case no: False
        have "a_alloc_block k s = (Some (blk (hmem h) b), s
           \<lparr>afree := map (blk (hmem h)) (xs @ ys), aused := blk (hmem h) b # aused s\<rparr>)"
          unfolding a_alloc_block_def ext Some r using top False no
          by (auto simp: s view_def fs)
        moreover have "VM_heap_alloc_heap_block h n = Some (Some b, ?h1)"
          using code False no h1 by (auto simp: Let_def headof_def split: list.split)
        ultimately show ?thesis using whole k by simp
      qed
    qed
  qed
qed

end
