(* ===== verification/Cyn_HeapInv.thy ===== *)
theory Cyn_HeapInv
  imports Cyn_Heap
begin

unbundle bit_operations_syntax

text \<open>
  The invariant of the linked heap of \<open>Cyn_Heap\<close>, the interpretation of the interface
  \<open>allocator\<close> on \<open>VM_alloc\<close> and \<open>VM_free\<close>, and the properties of the allocator.
\<close>

section \<open>A new heap\<close>

lemma init_links_path:
  "hpath (init_links n b m) (Some b) [b..<Suc (b + n)] None \<and>
   (\<forall>c. c < b \<longrightarrow> init_links n b m c = m c)"
proof (induction n arbitrary: b m)
  case 0
  then show ?case by simp
next
  case (Suc n)
  let ?m = "m(b := (m b)\<lparr>bnext := Some (Suc b)\<rparr>)"
  have "[b..<Suc (b + Suc n)] = b # [Suc b..<Suc (Suc b + n)]" by (simp add: upt_rec)
  moreover have I: "hpath (init_links n (Suc b) ?m) (Some (Suc b)) [Suc b..<Suc (Suc b + n)] None"
    "\<forall>c<Suc b. init_links n (Suc b) ?m c = ?m c"
    using Suc [of "Suc b" ?m] by blast+
  moreover have "bnext (init_links (Suc n) b m b) = Some (Suc b)" using I(2) by simp
  ultimately show ?case by (simp del: upt_Suc)
qed

lemma VM_heap_init_represents:
  assumes "blocks \<noteq> 0"
  shows "\<exists>h. VM_heap_init blocks sth al hlm hb m = Some h \<and>
    represents h \<lparr>afree = [], aused = [], afresh = unat blocks, atop = hb, asth = sth, almt = hlm, aaln = al\<rparr>"
proof -
  let ?n = "unat (blocks - 1)"
  have "unat blocks = Suc ?n"
    using assms by (metis Suc_pred' add_diff_cancel_left' diff_add_cancel unat_gt_0 unat_minus_one)
  moreover define h where "h = \<lparr>hfree = None, hused = None, hfresh = Some 0, htop = hb, hsth = sth,
      hlmt = hlm, haln = al, hmem = init_links ?n 0 m\<rparr>"
  have "shape h [] [] [0..<Suc ?n]"
    using init_links_path [of ?n 0 m] by (simp add: shape_def h_def del: upt_Suc)
  then have "represents h (view h [] [] [0..<Suc ?n])" by (rule represents_view)
  ultimately show ?thesis
    using assms by (auto simp: VM_heap_init_def view_def h_def simp del: upt_Suc)
qed

section \<open>The invariant of the linked heap\<close>

lemma hpath_unique: "hpath m p xs None \<Longrightarrow> hpath m p ys None \<Longrightarrow> xs = ys"
proof (induction xs arbitrary: p ys)
  case Nil
  then show ?case by (cases ys) auto
next
  case (Cons x xs)
  then show ?case by (cases ys) auto
qed

definition live_blocks :: "Heap \<Rightarrow> block set" where
  "live_blocks h = {blk (hmem h) b |b us. hpath (hmem h) (hused h) us None \<and> b \<in> set us}"

definition heap_ok :: "nat \<Rightarrow> nat \<Rightarrow> Heap \<Rightarrow> bool" where
  "heap_ok hb n h \<longleftrightarrow> (\<exists>s. represents h s \<and> heap_inv hb n s)"

lemma represents_live: "represents h s \<Longrightarrow> live_blocks h = live s"
proof -
  assume "represents h s"
  then obtain fs us ns where s: "hpath (hmem h) (hused h) us None" "s = view h fs us ns"
    by (auto simp: represents_def shape_def)
  have "us' = us" if "hpath (hmem h) (hused h) us' None" for us'
    using hpath_unique [OF that s(1)] .
  then have "live_blocks h = blk (hmem h) ` set us"
    using s(1) unfolding live_blocks_def by blast
  then show "live_blocks h = live s" using s(2) by (simp add: view_def)
qed

lemma represents_bounds: "represents h s \<Longrightarrow> atop s = htop h \<and> almt s = hlmt h \<and> aaln s = haln h"
  by (auto simp: represents_def view_def)

lemma a_bounds [simp]:
  "almt (a_release b s) = almt s" "aaln (a_release b s) = aaln s"
  "almt (snd (a_alloc_block k s)) = almt s" "aaln (snd (a_alloc_block k s)) = aaln s"
  "almt (snd (a_free a s)) = almt s" "aaln (snd (a_free a s)) = aaln s"
  by (auto simp: a_release_def a_alloc_block_def a_free_def Let_def split: option.split prod.split)

lemma VM_alloc_represents:
  assumes "represents h s"
  shows "\<exists>h'. VM_alloc h n = Some (fst (a_alloc n s), h') \<and> represents h' (snd (a_alloc n s))"
proof -
  obtain p h' where "VM_heap_alloc_heap_block h n = Some (p, h')"
    "represents h' (snd (a_alloc_block (CynAlign n (ucast (aaln s))) s))"
    "map_option (blk (hmem h')) p = fst (a_alloc_block (CynAlign n (ucast (aaln s))) s)"
    using VM_heap_alloc_heap_block_represents [OF assms, of n] by (auto simp: allocated_def)
  then show ?thesis
    by (cases "a_alloc_block (CynAlign n (ucast (aaln s))) s"; cases p)
      (auto simp: VM_alloc_def a_alloc_def)
qed

text \<open>The alignment of the sizes.\<close>

definition fits :: "u32 \<Rightarrow> u32 \<Rightarrow> bool" where
  "fits lmt k \<longleftrightarrow> k \<noteq> 0 \<and> unat k + unat lmt + 7 < 2 ^ 32"

lemma fits_CynAlign:
  assumes "fits lmt k"
  shows "CynAlign k 8 \<noteq> 0" "k \<le> CynAlign k 8" "unat lmt + unat (CynAlign k 8) < 2 ^ 32"
    "8 dvd unat (CynAlign k 8)"
proof -
  have u: "unat (CynAlign k 8) = (unat k + 7) div 8 * 8"
    using assms by (intro unat_CynAlign_8) (simp add: fits_def)
  show "k \<le> CynAlign k 8" unfolding word_le_nat_alt u by presburger
  then show "CynAlign k 8 \<noteq> 0" using assms by (auto simp: fits_def)
  show "unat lmt + unat (CynAlign k 8) < 2 ^ 32" 
    using assms div_times_less_eq_dividend [of "unat k + 7" 8] unfolding fits_def u by linarith
  show "8 dvd unat (CynAlign k 8)" unfolding u by simp
qed

text \<open>The heap as the virtual machine sets it up: sizes aligned to 8, a boundary above 0.\<close>

definition vm_heap :: "nat \<Rightarrow> nat \<Rightarrow> u32 \<Rightarrow> Heap \<Rightarrow> bool" where
  "vm_heap hb n lmt h \<longleftrightarrow> heap_ok hb n h \<and> hlmt h = lmt \<and> haln h = 8 \<and> 0 < hb"

lemma vm_heap_alloc:
  assumes inv: "vm_heap hb n lmt h" and k: "fits lmt k"
  shows "\<exists>a h'. VM_alloc h k = Some (a, h') \<and> vm_heap hb n lmt h' \<and>
      (a = 0 \<and> live_blocks h' = live_blocks h \<or>
       a \<noteq> 0 \<and> (\<exists>s \<ge> k. live_blocks h' = insert (a, s) (live_blocks h) \<and> a \<notin> fst ` live_blocks h))"
proof -
  obtain s where s: "represents h s" "heap_inv hb n s" and b: "hlmt h = lmt" "haln h = 8" "0 < hb"
    using inv by (auto simp: vm_heap_def heap_ok_def)
  have al: "CynAlign k (ucast (aaln s)) = CynAlign k 8"
    using represents_bounds [OF s(1)] b by simp
  note f = fits_CynAlign [OF k]
  have lim: "unat (almt s) + unat (CynAlign k 8) < 2 ^ 32"
    using f(3) represents_bounds [OF s(1)] b by simp
  obtain r s' where r: "a_alloc_block (CynAlign k 8) s = (r, s')" by fastforce
  have inv': "heap_inv hb n s'" using heap_inv_alloc_block [OF s(2) f(1) lim] r by simp
  have bd: "almt s' = almt s" "aaln s' = aaln s"
    using a_bounds(3,4) [of "CynAlign k 8" s] r by simp_all
  obtain h' where h': "VM_alloc h k = Some (fst (a_alloc k s), h')" "represents h' (snd (a_alloc k s))"
    using VM_alloc_represents [OF s(1)] by blast
  have s': "snd (a_alloc k s) = s'" using r al by (auto simp: a_alloc_def split: option.split)
  have ok: "vm_heap hb n lmt h'"
    using h'(2) inv' bd b represents_bounds [OF s(1)] represents_bounds [OF h'(2)]
    by (auto simp: vm_heap_def heap_ok_def s')
  note live = represents_live [OF s(1)] represents_live [OF h'(2), unfolded s']
  show ?thesis
  proof (cases r)
    case None
    then show ?thesis
      using a_alloc_block_None(1) [of "CynAlign k 8" s s'] r h'(1) ok live al
      by (auto simp: a_alloc_def)
  next
    case (Some b')
    note r' = r [unfolded Some]
    have "fst b' \<noteq> 0" using a_alloc_block_addr(1) [OF s(2) f(1) lim r'] b(3) by auto
    moreover have "k \<le> snd b'" using a_alloc_block_Some(1) [OF r'] f(2) by simp
    moreover have "live_blocks h' = insert b' (live_blocks h)"
      using live a_alloc_block_Some(2) [OF r'] by simp
    moreover have "fst b' \<notin> fst ` live_blocks h"
      using a_alloc_block_addr(2) [OF s(2) f(1) lim r'] live by simp
    moreover have "VM_alloc h k = Some (fst b', h')" using h'(1) r' al by (simp add: a_alloc_def)
    ultimately show ?thesis using ok by (cases b') auto
  qed
qed

lemma vm_heap_free:
  assumes inv: "vm_heap hb n lmt h"
  shows "\<exists>r h'. VM_free h a = Some (r, h') \<and> vm_heap hb n lmt h' \<and>
      (r \<longleftrightarrow> a \<in> fst ` live_blocks h) \<and> live_blocks h' = {b \<in> live_blocks h. fst b \<noteq> a}"
proof -
  obtain s where s: "represents h s" "heap_inv hb n s" and b: "hlmt h = lmt" "haln h = 8" "0 < hb"
    using inv by (auto simp: vm_heap_def heap_ok_def)
  obtain h' where h': "VM_free h a = Some (fst (a_free a s), h')" "represents h' (snd (a_free a s))"
    using VM_free_represents [OF s(1)] by blast
  have ok: "vm_heap hb n lmt h'"
    using h'(2) heap_inv_free [OF s(2), of a] b represents_bounds [OF s(1)] represents_bounds [OF h'(2)]
    by (auto simp: vm_heap_def heap_ok_def)
  note live = represents_live [OF s(1)] represents_live [OF h'(2)]
  show ?thesis
  proof (cases "a = 0")
    case True
    then have "VM_free h a = Some (False, h)" by (simp add: VM_free_def)
    moreover have "fst c \<noteq> 0" if "c \<in> live_blocks h" for c
      using heap_inv_live(1) [OF s(2), of c] that live b(3) by auto
    ultimately show ?thesis using inv True by force
  next
    case False
    then show ?thesis using a_free_aused [OF s(2), of a] h'(1) ok live by auto
  qed
qed

lemma vm_heap_disjoint:
  assumes "vm_heap hb n lmt h" "b \<in> live_blocks h" "c \<in> live_blocks h" "b \<noteq> c"
  shows "seg b \<inter> seg c = {}"
proof -
  obtain s where s: "represents h s" "heap_inv hb n s" using assms(1) by (auto simp: vm_heap_def heap_ok_def)
  show ?thesis
    by (rule heap_inv_live_disjoint [OF s(2)]) (use assms represents_live [OF s(1)] in simp_all)
qed

lemma vm_heap_room:
  assumes "vm_heap hb n lmt h" "b \<in> live_blocks h"
  shows "hb \<le> unat (fst b)" "snd b \<noteq> 0" "unat (fst b) + unat (snd b) \<le> unat (htop h)" "htop h \<le> hlmt h"
proof -
  obtain s where s: "represents h s" "heap_inv hb n s" using assms by (auto simp: vm_heap_def heap_ok_def)
  show "hb \<le> unat (fst b)" "snd b \<noteq> 0" "unat (fst b) + unat (snd b) \<le> unat (htop h)"
    using heap_inv_live [OF s(2), of b] assms(2) represents_live [OF s(1)] represents_bounds [OF s(1)] by auto
  show "htop h \<le> hlmt h" using s represents_bounds [OF s(1)] by (simp add: heap_inv_def)
qed

interpretation vm_alloc: allocator "vm_heap hb n lmt" live_blocks "fits lmt" VM_alloc VM_free
  for hb n :: nat and lmt :: u32
proof
  fix h a
  show "vm_heap hb n lmt h \<Longrightarrow> b \<in> live_blocks h \<Longrightarrow> unat (fst b) + unat (snd b) < 2 ^ 32" for b
    using vm_heap_room(3) [of hb n lmt h b] unsigned_less [where 'a = nat, of "htop h"] by simp
qed (fact vm_heap_alloc vm_heap_free vm_heap_disjoint)+

section \<open>Properties\<close>

text \<open>A small heap for the concrete instances: four descriptors, limit 1000, boundary 64.\<close>

definition demo_heap :: Heap where
  "demo_heap = the (VM_heap_init 4 16 8 1000 64 (\<lambda>_. \<lparr>bnext = None, bsize = 0, baddr = 0\<rparr>))"

lemma demo_heap_vm_heap: "vm_heap 64 4 1000 demo_heap"
proof -
  obtain h where h: "VM_heap_init 4 16 8 1000 64 (\<lambda>_. \<lparr>bnext = None, bsize = 0, baddr = 0\<rparr>) = Some h"
    and r: "represents h \<lparr>afree = [], aused = [], afresh = unat (4 :: u32), atop = 64, asth = 16, almt = 1000, aaln = 8\<rparr>"
    using VM_heap_init_represents [of 4 16 8 1000 64] by fastforce
  have "heap_inv 64 4 \<lparr>afree = [], aused = [], afresh = unat (4 :: u32), atop = 64, asth = 16, almt = 1000, aaln = 8\<rparr>"
    by (auto simp: heap_inv_def tiled_def)
  with h r represents_bounds [OF r] show ?thesis
    by (auto simp: vm_heap_def heap_ok_def demo_heap_def)
qed

text \<open>
  C1. On a heap that satisfies the invariant, an allocation of \<open>k\<close> bytes (not zero,
  and such that limit plus size does not wrap) returns; the invariant holds again; either the
  result is 0 and the live blocks are unchanged, or the result is the address of a new block of
  at least \<open>k\<close> bytes that lies between the heap boundary and the limit, overlaps no block that
  was live before, and all of those are still live.
\<close>

theorem VM_alloc_sound:
  assumes "vm_heap hb n lmt h" and "fits lmt k"
  shows "\<exists>a h'. VM_alloc h k = Some (a, h') \<and> vm_heap hb n lmt h' \<and>
    (a = 0 \<and> live_blocks h' = live_blocks h \<or>
     (\<exists>s \<ge> k. live_blocks h' = insert (a, s) (live_blocks h) \<and> hb \<le> unat a \<and> unat a + unat s \<le> unat lmt \<and>
        (\<forall>b. b \<in> live_blocks h \<longrightarrow> seg b \<inter> seg (a, s) = {})))"
proof -
  obtain a h' where r: "VM_alloc h k = Some (a, h')" "vm_heap hb n lmt h'"
    and c: "a = 0 \<and> live_blocks h' = live_blocks h \<or>
       a \<noteq> 0 \<and> (\<exists>s \<ge> k. live_blocks h' = insert (a, s) (live_blocks h) \<and> a \<notin> fst ` live_blocks h)"
    using vm_alloc.alloc_law [OF assms] by blast
  have "hb \<le> unat a \<and> unat a + unat s \<le> unat lmt \<and> (\<forall>b. b \<in> live_blocks h \<longrightarrow> seg b \<inter> seg (a, s) = {})"
    if "live_blocks h' = insert (a, s) (live_blocks h)" "a \<notin> fst ` live_blocks h" for s
    using vm_heap_room [OF r(2), of "(a, s)"] r(2) that vm_heap_disjoint [OF r(2), of _ "(a, s)"]
    by (force simp: vm_heap_def word_le_nat_alt)
  with r c show ?thesis by blast
qed

theorem VM_alloc_sound_witness:
  "\<exists>a h'. VM_alloc demo_heap 24 = Some (a, h') \<and> vm_heap 64 4 1000 h'"
proof -
  have "fits 1000 24" by (simp add: fits_def)
  from VM_alloc_sound [OF demo_heap_vm_heap this] show ?thesis by blast
qed

text \<open>
  C13. On a heap that satisfies the invariant \<open>VM_free\<close> returns for every argument;
  it answers true exactly for the address of a live block, and then that block and no other stops
  being live. The invariant holds again.
\<close>

theorem VM_free_sound:
  assumes "vm_heap hb n lmt h"
  shows "\<exists>r h'. VM_free h a = Some (r, h') \<and> vm_heap hb n lmt h' \<and>
    (r \<longleftrightarrow> a \<in> fst ` live_blocks h) \<and> live_blocks h' = {b \<in> live_blocks h. fst b \<noteq> a}"
  using vm_alloc.free_law [OF assms] .

theorem VM_free_sound_witness:
  "\<exists>r h'. VM_free demo_heap 64 = Some (r, h') \<and> vm_heap 64 4 1000 h'"
  using VM_free_sound [OF demo_heap_vm_heap, of 64] by blast

text \<open>Whatever the sizes are, the requests return: the loops end on every heap that is well shaped.\<close>

lemma script_returns:
  assumes "represents h s"
  shows "\<exists>h' s'. script VM_alloc VM_free rs h = Some h' \<and> represents h' s'"
  using assms
proof (induction rs arbitrary: h s)
  case (Cons r rs)
  have "\<exists>h1 s1. perform VM_alloc VM_free r h = Some h1 \<and> represents h1 s1"
    using VM_alloc_represents [OF Cons.prems] VM_free_represents [OF Cons.prems] by (cases r) (metis option.simps(9) perform.simps snd_conv)+
  then show ?case using Cons.IH by auto
qed auto

text \<open>
  C14. A client may issue any sequence of allocations, of whatever sizes, and of releases, with
  whatever addresses: every request of the sequence returns. When the sizes are not zero and such that limit plus
  size does not wrap, the invariant holds at the end, and a block
  that was live at the start and is never named in a release is still live.
\<close>

theorem VM_heap_requests:
  assumes "vm_heap hb n lmt h"
  shows "\<exists>h'. script VM_alloc VM_free rs h = Some h' \<and>
    ((\<forall>k. Alloc k \<in> set rs \<longrightarrow> fits lmt k) \<longrightarrow> vm_heap hb n lmt h' \<and>
      (\<forall>b \<in> live_blocks h. Free (fst b) \<notin> set rs \<longrightarrow> b \<in> live_blocks h'))"
proof -
  obtain s where "represents h s" using assms by (auto simp: vm_heap_def heap_ok_def)
  then obtain h' where "script VM_alloc VM_free rs h = Some h'" using script_returns [of h s rs] by blast
  then show ?thesis using vm_alloc.script_total [OF assms, of rs] by (auto simp: vm_alloc.good_script_def)
qed

theorem VM_heap_requests_witness:
  "\<exists>h'. script VM_alloc VM_free [Alloc 24, Alloc 8, Free 64, Alloc 100, Free 3] demo_heap = Some h' \<and>
    vm_heap 64 4 1000 h'"
proof -
  have "fits 1000 k" if "Alloc k \<in> set [Alloc 24, Alloc 8, Free 64, Alloc 100, Free 3]" for k
    using that by (auto simp: fits_def)
  with VM_heap_requests [OF demo_heap_vm_heap, of "[Alloc 24, Alloc 8, Free 64, Alloc 100, Free 3]"] show ?thesis by blast
qed

text \<open>
  C16. Compaction is complete: after a release on a heap that satisfies the invariant, no free block ends where another free block begins, wherever
  the two are in the free list.
\<close>

theorem VM_free_compacts:
  assumes "vm_heap hb n lmt h" and "VM_free h a = Some (r, h')"
    and "hpath (hmem h') (hfree h') fs None" and "b \<in> set fs" and "c \<in> set fs"
  shows "baddr (hmem h' b) + bsize (hmem h' b) \<noteq> baddr (hmem h' c)"
proof -
  have "vm_heap hb n lmt h'" using vm_heap_free [OF assms(1), of a] assms(2) by auto
  then obtain s where s: "represents h' s" "heap_inv hb n s" by (auto simp: vm_heap_def heap_ok_def)
  then have "afree s = map (blk (hmem h')) fs"
    using hpath_unique [OF assms(3)] by (auto simp: represents_def shape_def view_def)
  then show ?thesis
    using heap_inv_no_touch [OF s(2), of "blk (hmem h') b" "blk (hmem h') c"] assms(4,5) by auto
qed

definition demo_used :: Heap where
  "demo_used = the (script VM_alloc VM_free [Alloc 24, Alloc 8, Alloc 40, Free 64] demo_heap)"

definition demo_freed :: Heap where
  "demo_freed = snd (the (VM_free demo_used 96))"

theorem VM_free_compacts_witness:
  "baddr (hmem demo_freed 0) + bsize (hmem demo_freed 0) \<noteq> baddr (hmem demo_freed 2)"
proof -
  have "vm_alloc.good_script 1000 [Alloc 24, Alloc 8, Alloc 40, Free 64]"
    by (auto simp: vm_alloc.good_script_def fits_def)
  then have "vm_heap 64 4 1000 demo_used"
    using vm_alloc.script_total [OF demo_heap_vm_heap] by (fastforce simp: demo_used_def)
  moreover then have "VM_free demo_used 96 = Some (fst (the (VM_free demo_used 96)), demo_freed)"
    using vm_heap_free [of 64 4 1000 demo_used 96] by (auto simp: demo_freed_def)
  moreover have "hpath (hmem demo_freed) (hfree demo_freed) [0, 2] None" by code_simp
  ultimately show ?thesis by (rule VM_free_compacts) simp_all
qed

text \<open>
  C11. The linked implementation refines the contract on lists of blocks, for every
  size and in every state: both operations return, the answer is that of the abstract operation,
  and the new state represents the new abstract state.
\<close>

theorem VM_alloc_refines:
  assumes "represents h s"
  shows "(\<exists>h'. VM_alloc h n = Some (fst (a_alloc n s), h') \<and> represents h' (snd (a_alloc n s))) \<and>
    (\<exists>h'. VM_free h a = Some (fst (a_free a s), h') \<and> represents h' (snd (a_free a s)))"
  using VM_alloc_represents [OF assms] VM_free_represents [OF assms] by blast

theorem VM_alloc_refines_witness:
  "\<exists>s h'. represents demo_heap s \<and> VM_alloc demo_heap 24 = Some (fst (a_alloc 24 s), h')"
proof -
  obtain s where s: "represents demo_heap s"
    using demo_heap_vm_heap by (auto simp: vm_heap_def heap_ok_def)
  from VM_alloc_refines [OF s, of 24 0] s show ?thesis by blast
qed

text \<open>
  A heap that \<open>VM_heap_init_\<close> has set up, with at least one descriptor, a
  positive split threshold, sizes aligned to 8 and a boundary above 0 and not above the limit,
  satisfies the invariant and has no live block.
\<close>

theorem VM_heap_init_sound:
  assumes "blocks \<noteq> 0" and "sth \<noteq> 0" and "hb \<noteq> 0" and "hb \<le> hlm"
  shows "\<exists>h. VM_heap_init blocks sth 8 hlm hb m = Some h \<and>
    vm_heap (unat hb) (unat blocks) hlm h \<and> live_blocks h = {}"
proof -
  let ?s = "\<lparr>afree = [], aused = [], afresh = unat blocks, atop = hb, asth = sth, almt = hlm, aaln = 8\<rparr>"
  obtain h where h: "VM_heap_init blocks sth 8 hlm hb m = Some h" "represents h ?s"
    using VM_heap_init_represents [OF assms(1), of sth 8 hlm hb m] by blast
  have "heap_inv (unat hb) (unat blocks) ?s"
    using assms by (auto simp: heap_inv_def tiled_def)
  with h assms(3) represents_bounds [OF h(2)] represents_live [OF h(2)] show ?thesis
    by (auto simp: vm_heap_def heap_ok_def unat_gt_0)
qed

theorem VM_heap_init_sound_witness:
  "\<exists>h. VM_heap_init 256 16 8 8000 40 (\<lambda>_. \<lparr>bnext = None, bsize = 7, baddr = 9\<rparr>) = Some h \<and>
    vm_heap (unat (40 :: u32)) (unat (256 :: u32)) 8000 h \<and> live_blocks h = {}"
  by (rule VM_heap_init_sound) simp_all

text \<open>
  The two conditions on the size are needed. The sums \<open>top + size\<close> and
  \<open>addr + size\<close> are taken modulo \<open>2 ^ 32\<close>: a request of \<open>0xFFFFFFF0\<close> bytes on a heap of 936
  bytes succeeds, moves \<open>top\<close> below the heap boundary, and the next block overlaps the program's
  constants. A request of 0 bytes returns an address that the next request returns again.
\<close>

theorem VM_alloc_limits:
  "Option.bind (VM_alloc demo_heap 0xFFFFFFF0) (\<lambda>(a, h). map_option (\<lambda>(b, _). (a, b)) (VM_alloc h 8)) = Some (64, 48)
   \<and> Option.bind (VM_alloc demo_heap 0) (\<lambda>(a, h). map_option (\<lambda>(b, _). (a, b)) (VM_alloc h 8)) = Some (64, 64)"
  by (rule conjI; code_simp)

end
