(* ===== verification/Cyn_Text.thy ===== *)
theory Cyn_Text
  imports Cyn_Prelude
begin

unbundle bit_operations_syntax

text \<open>
  Characters: the UTF-8 writers (\<open>VM_put_utf8_chr_\<close> of \<^verbatim>\<open>src/vm/utils.c\<close> and
  \<open>Stream_putUtf8\<close> of \<^verbatim>\<open>src/stream.c\<close>), the reader of the compiler's lexer
  (\<open>Lexer_readRune\<close> of \<^verbatim>\<open>src/compiler/common/lexer.c\<close>) and the decimal output of
  \<open>printf\<close>. A C \<open>char\<close> is its byte. The writer and the reader are shown to fit together.
\<close>

section \<open>Writing a character\<close>

text \<open>The bytes written, or \<open>None\<close> above \<open>0x1FFFFF\<close>, where both functions stop.\<close>

definition VM_put_utf8_chr :: "u32 \<Rightarrow> u8 list option" where
  "VM_put_utf8_chr chr =
     (if chr < 0x80 then Some [ucast chr]
      else if chr < 0x800 then
        Some [ucast (0xC0 OR drop_bit 6 chr), ucast (0x80 OR (chr AND 0x3F))]
      else if chr < 0x10000 then
        Some [ucast (0xE0 OR drop_bit 12 chr),
              ucast (0x80 OR (drop_bit 6 chr AND 0x3F)),
              ucast (0x80 OR (chr AND 0x3F))]
      else if chr < 0x200000 then
        Some [ucast (0xF0 OR drop_bit 18 chr),
              ucast (0x80 OR (drop_bit 12 chr AND 0x3F)),
              ucast (0x80 OR (drop_bit 6 chr AND 0x3F)),
              ucast (0x80 OR (chr AND 0x3F))]
      else None)"

text \<open>\<open>Stream_putUtf8\<close> writes the same bytes to a growing buffer.\<close>

definition Stream_putUtf8 :: "u8 list \<Rightarrow> u32 \<Rightarrow> u8 list option" where
  "Stream_putUtf8 S chr =
     (if chr < 0x80 then Some (S @ [ucast chr])
      else if chr < 0x800 then
        Some (S @ [ucast (0xC0 OR drop_bit 6 chr), ucast (0x80 OR (chr AND 0x3F))])
      else if chr < 0x10000 then
        Some (S @ [ucast (0xE0 OR drop_bit 12 chr),
                   ucast (0x80 OR (drop_bit 6 chr AND 0x3F)),
                   ucast (0x80 OR (chr AND 0x3F))])
      else if chr < 0x200000 then
        Some (S @ [ucast (0xF0 OR drop_bit 18 chr),
                   ucast (0x80 OR (drop_bit 12 chr AND 0x3F)),
                   ucast (0x80 OR (drop_bit 6 chr AND 0x3F)),
                   ucast (0x80 OR (chr AND 0x3F))])
      else None)"

lemma Stream_putUtf8_eq: "Stream_putUtf8 S chr = map_option ((@) S) (VM_put_utf8_chr chr)"
  by (simp add: Stream_putUtf8_def VM_put_utf8_chr_def)

section \<open>Reading a character\<close>

text \<open>The number of leading one bits of a byte.\<close>

fun clz_from :: "u8 \<Rightarrow> nat \<Rightarrow> nat" where
  "clz_from c 0 = 8"
| "clz_from c (Suc i) = (if \<not> bit c i then 7 - i else clz_from c i)"

definition Lexer_clz :: "u8 \<Rightarrow> nat" where
  "Lexer_clz c = clz_from c 8"

datatype rune_error = TooLong | BadContinuation | BadSequence | PastEnd

text \<open>
  \<open>s\<close> is the view of the range. A range longer than the length that the first byte announces is
  an error unless that byte is ASCII; a shorter range is not noticed by the source, which then
  reads the bytes behind it: \<open>PastEnd\<close> here.
\<close>

definition Lexer_readRune :: "u8 list \<Rightarrow> rune_error + (nat \<times> u32)" where
  "Lexer_readRune s =
     (case s of
        [] \<Rightarrow> Inl PastEnd
      | s0 # _ \<Rightarrow>
          (let len = Lexer_clz s0 in
           if len = 0 then Inr (1, ucast s0)
           else if length s > len then Inl TooLong
           else if length s < len then Inl PastEnd
           else if \<exists>c\<in>set (take (len - 1) (tl s)). c AND 0xC0 \<noteq> 0x80 then Inl BadContinuation
           else if len = 2 then
             Inr (2, push_bit 6 (ucast (s0 AND 0x1F)) OR ucast (s ! 1 AND 0x3F))
           else if len = 3 then
             Inr (3, push_bit 12 (ucast (s0 AND 0xF)) OR push_bit 6 (ucast (s ! 1 AND 0x3F))
                     OR ucast (s ! 2 AND 0x3F))
           else if len = 4 then
             Inr (4, push_bit 18 (ucast (s0 AND 0x7)) OR push_bit 12 (ucast (s ! 1 AND 0x3F))
                     OR push_bit 6 (ucast (s ! 2 AND 0x3F)) OR ucast (s ! 3 AND 0x3F))
           else Inl BadSequence))"

section \<open>Round trip\<close>

lemma bits_less:
  assumes "unat (c :: u32) < 2 ^ k" "bit c n"
  shows "n < k"
proof -
  have "take_bit k (unat c) = unat c" using assms(1) by (simp add: take_bit_nat_eq_self)
  then have "take_bit k c = c" by (simp add: word_unat_eq_iff unsigned_take_bit_eq)
  then show ?thesis using assms(2) by (metis bit_take_bit_iff)
qed

lemma and_masks:
  "(x :: u8) AND 0x3F = take_bit 6 x" "x AND 0x1F = take_bit 5 x" "x AND 0xF = take_bit 4 x"
  "x AND 0x7 = take_bit 3 x" "(y :: u32) AND 0x3F = take_bit 6 y"
  by (simp_all add: take_bit_eq_mask mask_eq_exp_minus_1)

lemma high_bits:
  "bit (0xC0 :: int) n \<Longrightarrow> 6 \<le> n" "bit (0xE0 :: int) n \<Longrightarrow> 5 \<le> n"
  "bit (0xF0 :: int) n \<Longrightarrow> 4 \<le> n" "bit (0x80 :: int) n \<Longrightarrow> 7 \<le> n"
proof -
  have *: "bit w n \<Longrightarrow> w = push_bit k v \<Longrightarrow> k \<le> n" for w v :: "int" and k
    by (simp add: bit_push_bit_iff_int)
  show "bit (0xC0 :: int) n \<Longrightarrow> 6 \<le> n" by (erule * [of _ 6 3]) simp
  show "bit (0xE0 :: int) n \<Longrightarrow> 5 \<le> n" by (erule * [of _ 5 7]) simp
  show "bit (0xF0 :: int) n \<Longrightarrow> 4 \<le> n" by (erule * [of _ 4 15]) simp
  show "bit (0x80 :: int) n \<Longrightarrow> 7 \<le> n" by (erule * [of _ 7 1]) simp
qed

lemma lead_bits:
  "ucast ((ucast (0xC0 OR (x :: u32)) :: u8) AND 0x1F) = take_bit 5 x"
  "ucast ((ucast (0xE0 OR x) :: u8) AND 0xF) = take_bit 4 x"
  "ucast ((ucast (0xF0 OR x) :: u8) AND 0x7) = take_bit 3 x"
  "ucast ((ucast (0x80 OR (x AND 0x3F)) :: u8) AND 0x3F) = take_bit 6 x"
  unfolding and_masks
  by (auto intro!: bit_word_eqI simp: bit_simps dest!: high_bits)

lemma continuation: "(ucast (0x80 OR ((x :: u32) AND 0x3F)) :: u8) AND 0xC0 = 0x80"
proof -
  have "(ucast (0x80 OR (x AND 0x3F)) :: u8) = 0x80 OR (ucast x AND 0x3F)"
    by (simp add: unsigned_or_eq unsigned_and_eq)
  then show ?thesis by (simp add: bit.conj_disj_distrib2 and.assoc)
qed

lemma Lexer_clz_eq:
  "Lexer_clz c = (if \<not> bit c 7 then 0 else if \<not> bit c 6 then 1 else if \<not> bit c 5 then 2
     else if \<not> bit c 4 then 3 else if \<not> bit c 3 then 4 else if \<not> bit c 2 then 5
     else if \<not> bit c 1 then 6 else if \<not> bit c 0 then 7 else 8)"
proof -
  have "(8 :: nat) = Suc (Suc (Suc (Suc (Suc (Suc (Suc (Suc 0)))))))" by simp
  then show ?thesis by (simp add: Lexer_clz_def numeral_eq_Suc)
qed

lemma clz_lead:
  assumes "unat (c :: u32) < 2 ^ k"
  shows "k = 7 \<Longrightarrow> Lexer_clz (ucast c) = 0"
    "k = 11 \<Longrightarrow> Lexer_clz (ucast (0xC0 OR drop_bit 6 c)) = 2"
    "k = 16 \<Longrightarrow> Lexer_clz (ucast (0xE0 OR drop_bit 12 c)) = 3"
    "k = 21 \<Longrightarrow> Lexer_clz (ucast (0xF0 OR drop_bit 18 c)) = 4"
proof -
  have lt: "\<not> bit c n" if "k \<le> n" for n using bits_less [OF assms, of n] that by auto
  show "k = 7 \<Longrightarrow> Lexer_clz (ucast c) = 0"
    "k = 11 \<Longrightarrow> Lexer_clz (ucast (0xC0 OR drop_bit 6 c)) = 2"
    "k = 16 \<Longrightarrow> Lexer_clz (ucast (0xE0 OR drop_bit 12 c)) = 3"
    "k = 21 \<Longrightarrow> Lexer_clz (ucast (0xF0 OR drop_bit 18 c)) = 4"
    by (simp_all add: Lexer_clz_eq bit_simps lt)
qed

lemma join_bits:
  assumes "unat (c :: u32) < 2 ^ k"
  shows "k = 11 \<Longrightarrow> push_bit 6 (take_bit 5 (drop_bit 6 c)) OR take_bit 6 c = c"
    "k = 16 \<Longrightarrow> push_bit 12 (take_bit 4 (drop_bit 12 c)) OR (push_bit 6 (take_bit 6 (drop_bit 6 c)) OR take_bit 6 c) = c"
    "k = 21 \<Longrightarrow> push_bit 18 (take_bit 3 (drop_bit 18 c)) OR (push_bit 12 (take_bit 6 (drop_bit 12 c))
       OR (push_bit 6 (take_bit 6 (drop_bit 6 c)) OR take_bit 6 c)) = c"
proof -
  have lt: "bit c n \<longrightarrow> n < k" for n using bits_less [OF assms, of n] by auto
  show "push_bit 6 (take_bit 5 (drop_bit 6 c)) OR take_bit 6 c = c" if k: "k = 11"
  proof (rule bit_word_eqI)
    fix n :: nat
    assume "n < LENGTH(32)"
    then show "bit (push_bit 6 (take_bit 5 (drop_bit 6 c)) OR take_bit 6 c) n = bit c n"
      using lt [of n] unfolding k by (cases "n < 12") (auto simp: bit_simps)
  qed
  show "push_bit 12 (take_bit 4 (drop_bit 12 c)) OR (push_bit 6 (take_bit 6 (drop_bit 6 c)) OR take_bit 6 c) = c" if k: "k = 16"
  proof (rule bit_word_eqI)
    fix n :: nat
    assume "n < LENGTH(32)"
    then show "bit (push_bit 12 (take_bit 4 (drop_bit 12 c)) OR (push_bit 6 (take_bit 6 (drop_bit 6 c)) OR take_bit 6 c)) n = bit c n"
      using lt [of n] unfolding k by (cases "n < 12") (auto simp: bit_simps)
  qed
  show "push_bit 18 (take_bit 3 (drop_bit 18 c)) OR (push_bit 12 (take_bit 6 (drop_bit 12 c))
       OR (push_bit 6 (take_bit 6 (drop_bit 6 c)) OR take_bit 6 c)) = c" if k: "k = 21"
  proof (rule bit_word_eqI)
    fix n :: nat
    assume "n < LENGTH(32)"
    then show "bit (push_bit 18 (take_bit 3 (drop_bit 18 c)) OR (push_bit 12 (take_bit 6 (drop_bit 12 c))
       OR (push_bit 6 (take_bit 6 (drop_bit 6 c)) OR take_bit 6 c))) n = bit c n"
      using lt [of n] unfolding k by (cases "n < 12") (auto simp: bit_simps)
  qed
qed

lemma Lexer_readRune_put:
  assumes "VM_put_utf8_chr c = Some bs"
  shows "Lexer_readRune bs = Inr (length bs, c)"
proof -
  consider "c < 0x80" | "\<not> c < 0x80" "c < 0x800" | "\<not> c < 0x80" "\<not> c < 0x800" "c < 0x10000"
    | "\<not> c < 0x80" "\<not> c < 0x800" "\<not> c < 0x10000" "c < 0x200000"
    using assms by (auto simp: VM_put_utf8_chr_def split: if_splits)
  then show ?thesis
  proof cases
    case 1
    then have u: "unat c < 2 ^ 7" by (simp add: word_less_nat_alt)
    have "bit c n \<Longrightarrow> n < 8" for n using bits_less [OF u, of n] by simp
    then have "ucast (ucast c :: u8) = c" by (auto intro!: bit_word_eqI simp: bit_simps)
    then show ?thesis
      using 1 assms clz_lead(1) [OF u] by (auto simp: VM_put_utf8_chr_def Lexer_readRune_def Let_def)
  next
    case 2
    then have u: "unat c < 2 ^ 11" by (simp add: word_less_nat_alt)
    show ?thesis
      using 2 assms clz_lead(2) [OF u refl]
      by (auto simp: VM_put_utf8_chr_def Lexer_readRune_def Let_def continuation lead_bits join_bits [OF u])
  next
    case 3
    then have u: "unat c < 2 ^ 16" by (simp add: word_less_nat_alt)
    show ?thesis
      using 3 assms clz_lead(3) [OF u refl]
      by (auto simp: VM_put_utf8_chr_def Lexer_readRune_def Let_def continuation lead_bits join_bits [OF u])
  next
    case 4
    then have u: "unat c < 2 ^ 21" by (simp add: word_less_nat_alt)
    show ?thesis
      using 4 assms clz_lead(4) [OF u refl]
      by (auto simp: VM_put_utf8_chr_def Lexer_readRune_def Let_def continuation lead_bits join_bits [OF u])
  qed
qed

section \<open>Decimal output\<close>

text \<open>What \<open>printf\<close> writes for \<open>%u\<close> and \<open>%PRId64\<close>.\<close>

fun dec_nat :: "nat \<Rightarrow> u8 list" where
  "dec_nat n = (if n < 10 then [48 + of_nat n] else dec_nat (n div 10) @ [48 + of_nat (n mod 10)])"

declare dec_nat.simps [simp del]

definition dec_int :: "int \<Rightarrow> u8 list" where
  "dec_int i = (if i < 0 then 45 # dec_nat (nat (- i)) else dec_nat (nat i))"

definition dec_value :: "u8 list \<Rightarrow> nat" where
  "dec_value = foldl (\<lambda>n c. 10 * n + (unat c - 48)) 0"

lemma unat_digit: "d < 10 \<Longrightarrow> unat (48 + of_nat d :: u8) = 48 + d"
  by (simp add: unat_word_ariths unat_of_nat)

lemma dec_value_dec_nat: "dec_value (dec_nat n) = n"
proof (induction n rule: dec_nat.induct)
  case (1 n)
  show ?case
  proof (cases "n < 10")
    case True
    then show ?thesis by (simp add: dec_nat.simps [of n] dec_value_def unat_digit)
  next
    case False
    with 1 show ?thesis
      by (simp add: dec_nat.simps [of n] dec_value_def unat_digit)
  qed
qed

section \<open>Properties\<close>

text \<open>
  C18. Both writers accept every character below \<open>0x200000\<close> and write the same one
  to four bytes; the reader of the lexer, given exactly these bytes, returns the character and
  their number.
\<close>

theorem utf8_round_trip:
  assumes "c < 0x200000"
  shows "\<exists>bs. VM_put_utf8_chr c = Some bs \<and> Stream_putUtf8 S c = Some (S @ bs) \<and>
    Lexer_readRune bs = Inr (length bs, c) \<and> length bs \<in> {1..4}"
proof -
  have "VM_put_utf8_chr c \<noteq> None" using assms by (simp add: VM_put_utf8_chr_def)
  then obtain bs where bs: "VM_put_utf8_chr c = Some bs" by auto
  moreover have "length bs \<in> {1..4}" using bs by (auto simp: VM_put_utf8_chr_def split: if_splits)
  ultimately show ?thesis using Lexer_readRune_put [OF bs] by (simp add: Stream_putUtf8_eq)
qed

theorem utf8_round_trip_witness:
  "\<exists>bs. VM_put_utf8_chr 0x20AC = Some bs \<and> Stream_putUtf8 [65] 0x20AC = Some ([65] @ bs) \<and>
    Lexer_readRune bs = Inr (length bs, 0x20AC) \<and> length bs \<in> {1..4}"
  by (rule utf8_round_trip) simp

end
