(* ===== verification/Cyn_Machine.thy ===== *)
theory Cyn_Machine
  imports Cyn_Code Cyn_HeapInv Cyn_Text
begin

unbundle bit_operations_syntax

text \<open>
  The state of the virtual machine (\<^verbatim>\<open>include/vm/vm.h\<close>): its registers, its memory with the
  guarded access \<open>MEM\<close>, the locations an operand can denote, and the stack. Every way in which
  the C program stops or has no defined meaning is a value of \<open>fault\<close>. Memory is little-endian;
  signed arithmetic wraps round, as compiled for the 64-bit targets of the project.
\<close>

section \<open>Faults\<close>

text \<open>The calls of \<open>VM_abort\<close>, by what they report.\<close>

datatype abort_reason =
  MemoryViolation | StackOverflow | StackUnderflow | BeyondCode | UnknownInstruction
| InvalidUcs | OutOfHeap | NativeArgs | NativeMissing

text \<open>
  \<open>Undefined\<close>: an access outside an object, a null pointer, a bad shift count, overlapping
  \<open>memcpy\<close>. \<open>Unspecified\<close>: the result depends on the order in which C evaluates operands.
  \<open>Unreachable\<close>: the macro of that name. \<open>DivTrap\<close>: the processor's division trap. \<open>Foreign\<close>: the
  program leaves the machine through a native pointer. \<open>Hang\<close>: a loop of the heap that does not
  end. \<open>Descriptors\<close>: an access below \<open>ram.base\<close>. The program goes on after it, on the descriptors of the heap
  that lie there, but their bytes are not modelled: nothing is said of what comes after.
\<close>

datatype fault = Abort abort_reason | Undefined | Unspecified | Unreachable | DivTrap | Foreign | Hang | Descriptors

section \<open>State\<close>

text \<open>
  \<open>mbase\<close> is the native address of \<open>ram.base\<close>, \<open>cells\<close> the bytes from there on; the heap
  descriptors lie below \<open>ram.base\<close> and are the component \<open>heap\<close>. \<open>out\<close> is what was written to
  the standard output, \<open>world\<close> the state of the operating system.
\<close>

record Memory =
  mbase :: u64
  cells :: "nat \<Rightarrow> u8"
  msb :: u32
  mhb :: u32
  mhlm :: u32
  msize :: u32

record 'w VM =
  vflags :: u64
  regs :: "Register \<Rightarrow> u64"
  vcode :: Code
  ram :: Memory
  heap :: Heap
  out :: "u8 list"
  world :: 'w

abbreviation REG :: "'w VM \<Rightarrow> Register \<Rightarrow> u64" where
  "REG vm r \<equiv> regs vm r"

definition set_reg :: "Register \<Rightarrow> u64 \<Rightarrow> 'w VM \<Rightarrow> 'w VM" where
  "set_reg r v vm = vm\<lparr>regs := (regs vm)(r := v)\<rparr>"

definition put :: "u8 list \<Rightarrow> 'w VM \<Rightarrow> 'w VM" where
  "put bs vm = vm\<lparr>out := out vm @ bs\<rparr>"

text \<open>The register of a 4-bit field; the codes above 9 index past the end of \<open>regs\<close>.\<close>

definition reg_field :: "4 word \<Rightarrow> fault + Register" where
  "reg_field n = (case Register_of n of None \<Rightarrow> Inl Undefined | Some r \<Rightarrow> Inr r)"

section \<open>Memory\<close>

text \<open>What a pointer operand refers to: memory at an offset from \<open>ram.base\<close>, a register, or the
  immediate of the instruction that is being executed.\<close>

datatype loc = LNull | LReg Register | LMem int | LImm u64

definition MEM :: "'w VM \<Rightarrow> u32 \<Rightarrow> fault + loc" where
  "MEM vm addr =
     (if addr > msize (ram vm) then Inl (Abort MemoryViolation) else Inr (LMem (int (unat addr))))"

definition in_ram :: "Memory \<Rightarrow> int \<Rightarrow> nat \<Rightarrow> bool" where
  "in_ram m a n \<longleftrightarrow> 0 \<le> a \<and> a + int n \<le> int (unat (msize m))"

definition outside :: "int \<Rightarrow> fault" where
  "outside a = (if a < 0 then Descriptors else Undefined)"

lemma outside_neq [simp]: "outside a \<noteq> Hang" "outside (int n) = Undefined"
  by (simp_all add: outside_def)

definition load_bytes :: "Memory \<Rightarrow> int \<Rightarrow> nat \<Rightarrow> fault + u8 list" where
  "load_bytes m a n =
     (if in_ram m a n then Inr (map (\<lambda>k. cells m (nat a + k)) [0..<n]) else Inl (outside a))"

definition store_bytes :: "Memory \<Rightarrow> int \<Rightarrow> u8 list \<Rightarrow> fault + Memory" where
  "store_bytes m a bs =
     (if in_ram m a (length bs)
      then Inr (m\<lparr>cells := (\<lambda>k. if nat a \<le> k \<and> k < nat a + length bs then bs ! (k - nat a)
                              else cells m k)\<rparr>)
      else Inl (outside a))"

definition write_ram :: "'w VM \<Rightarrow> int \<Rightarrow> u8 list \<Rightarrow> fault + 'w VM" where
  "write_ram vm a bs = bnd (store_bytes (ram vm) a bs) (\<lambda>m. Inr (vm\<lparr>ram := m\<rparr>))"

text \<open>\<open>VM_read\<close> and \<open>VM_write\<close> through a pointer.\<close>

fun read_loc :: "'w VM \<Rightarrow> loc \<Rightarrow> Mode \<Rightarrow> fault + i64" where
  "read_loc vm LNull m = Inl Undefined"
| "read_loc vm (LReg r) m = Inr (VM_read (le_bytes 8 (REG vm r)) m)"
| "read_loc vm (LMem a) m = bnd (load_bytes (ram vm) a (vmSizeTbl m)) (\<lambda>bs. Inr (VM_read bs m))"
| "read_loc vm (LImm v) m = Inr (VM_read (le_bytes 8 v) m)"

fun write_loc :: "'w VM \<Rightarrow> loc \<Rightarrow> i64 \<Rightarrow> Mode \<Rightarrow> fault + 'w VM" where
  "write_loc vm LNull v m = Inl Undefined"
| "write_loc vm (LReg r) v m =
     Inr (set_reg r (le_word (VM_write v m @ drop (vmSizeTbl m) (le_bytes 8 (REG vm r)))) vm)"
| "write_loc vm (LMem a) v m = write_ram vm a (VM_write v m)"
| "write_loc vm (LImm w) v m = Inr vm"

text \<open>A string in memory, up to its terminating zero.\<close>

definition cstring :: "Memory \<Rightarrow> int \<Rightarrow> fault + u8 list" where
  "cstring m a =
     (let rest = map (cells m) [nat a..<unat (msize m)]; s = takeWhile (\<lambda>c. c \<noteq> 0) rest in
      if 0 \<le> a \<and> length s < length rest then Inr s else Inl (outside a))"

section \<open>The stack\<close>

text \<open>The data pushed by \<open>VM_pushn\<close>: none (\<open>NULL\<close>), bytes outside the machine, or a location in it.\<close>

datatype source = NoData | Bytes "u8 list" | At loc

fun memcpy :: "'w VM \<Rightarrow> loc \<Rightarrow> source \<Rightarrow> nat \<Rightarrow> fault + 'w VM" where
  "memcpy vm (LMem d) (Bytes bs) n = write_ram vm d (take n bs)"
| "memcpy vm (LMem d) (At (LMem s)) n =
     (if 0 < n \<and> d < s + int n \<and> s < d + int n then Inl Undefined
      else bnd (load_bytes (ram vm) s n) (\<lambda>bs. write_ram vm d bs))"
| "memcpy vm l s n = Inl Undefined"

text \<open>The count is a byte: only its low eight bits are pushed or popped.\<close>

definition VM_pushn :: "'w VM \<Rightarrow> source \<Rightarrow> u8 \<Rightarrow> fault + (loc \<times> 'w VM)" where
  "VM_pushn vm data cnt =
     (let size = push_bit 3 (ucast cnt) :: u32 in
      if REG vm sp - ucast size \<le> ucast (msb (ram vm)) then Inl (Abort StackOverflow)
      else let vm = set_reg sp (REG vm sp - ucast size) vm in
        bnd (if data \<noteq> NoData
             then bnd (MEM vm (ucast (REG vm sp))) (\<lambda>d. memcpy vm d data (unat size))
             else Inr vm)
          (\<lambda>vm. bnd (MEM vm (ucast (REG vm sp))) (\<lambda>l. Inr (l, vm))))"

definition VM_push :: "'w VM \<Rightarrow> u64 \<Rightarrow> fault + 'w VM" where
  "VM_push vm val = bnd (VM_pushn vm NoData 1) (\<lambda>(l, vm). write_loc vm l val szQuad)"

text \<open>No caller of \<open>VM_popn\<close> passes it a buffer; the copy into the buffer is left out.\<close>

definition VM_popn :: "'w VM \<Rightarrow> u8 \<Rightarrow> fault + (loc \<times> 'w VM)" where
  "VM_popn vm cnt =
     (let size = push_bit 3 (ucast cnt) :: u32 in
      if REG vm sp + ucast size > ucast (msize (ram vm)) then Inl (Abort StackUnderflow)
      else bnd (MEM vm (ucast (REG vm sp))) (\<lambda>ret. Inr (ret, set_reg sp (REG vm sp + ucast size) vm)))"

definition VM_pop :: "'w VM \<Rightarrow> fault + (u64 \<times> 'w VM)" where
  "VM_pop vm = bnd (VM_popn vm 1) (\<lambda>(l, vm). bnd (read_loc vm l szQuad) (\<lambda>v. Inr (v, vm)))"

text \<open>
  Leaving a frame, as \<open>VM_returnx\<close> and the instruction \<open>ret\<close> do: drop the frame, restore \<open>bp\<close> and
  \<open>ip\<close>, drop the arguments below their count.
\<close>

definition leave_frame :: "'w VM \<Rightarrow> fault + 'w VM" where
  "leave_frame vm =
     (let vm = set_reg sp (REG vm bp) vm in
      bnd (VM_pop vm) (\<lambda>(v, vm). let vm = set_reg bp v vm in
      bnd (VM_pop vm) (\<lambda>(v, vm). let vm = set_reg ip v vm in
      bnd (VM_pop vm) (\<lambda>(v, vm). let nargs = ucast v :: u32 in
      if nargs \<noteq> 0 then bnd (VM_popn vm (ucast nargs)) (\<lambda>(_, vm). Inr vm) else Inr vm))))"

definition VM_returnx :: "'w VM \<Rightarrow> source \<Rightarrow> u32 \<Rightarrow> fault + 'w VM" where
  "VM_returnx vm vals cnt =
     bnd (leave_frame vm) (\<lambda>vm.
     bnd (if cnt \<noteq> 0 then bnd (VM_pushn vm vals (ucast cnt)) (\<lambda>(_, vm). Inr vm) else Inr vm)
       (\<lambda>vm. VM_push vm (ucast cnt)))"

end
