(* ===== verification/Cyn_Native.thy ===== *)
theory Cyn_Native
  imports Cyn_Machine
begin

unbundle bit_operations_syntax

text \<open>
  The native calls of the virtual machine (\<^verbatim>\<open>src/vm/builtins.c\<close>): the table of builtins, how
  each reads its arguments from the stack of the caller, and how it returns. The operating system
  is a parameter: a function from the name of the system call, its converted arguments and the machine to
  a result and the machine after the call. The arguments are raw pointers, so a call may write anywhere: to the memory of the
  machine, to the descriptors of its heap in front of it, even to its registers and its code.
\<close>

type_synonym 'w syscalls = "string \<Rightarrow> u64 list \<Rightarrow> 'w VM \<Rightarrow> u64 \<times> 'w VM"

text \<open>
  The C types of the arguments and results: \<open>int\<close> keeps 32 bits and sign-extends, \<open>socklen_t\<close> and
  \<open>mode_t\<close> keep 32 bits, pointers, \<open>size_t\<close>, \<open>ssize_t\<close>, \<open>off_t\<close> and \<open>nfds_t\<close> keep all.
\<close>

datatype cty = CInt | CU32 | CLong

primrec conv :: "cty \<Rightarrow> u64 \<Rightarrow> u64" where
  "conv CInt v = scast (ucast v :: u32)"
| "conv CU32 v = ucast (ucast v :: u32)"
| "conv CLong v = v"

text \<open>\<open>Arg k t\<close> is \<open>args[-k]\<close> converted to \<open>t\<close>.\<close>

datatype narg = Arg nat cty | Const u64

text \<open>
  A builtin: the numbers of arguments it asserts, each with the arguments it hands to the system
  call, and the type of the result. \<open>Missing\<close> are the calls that only abort.
\<close>

datatype native = Native "(nat \<times> narg list) list" cty | Missing

definition vmBncRead :: native where
  "vmBncRead = Native [(3, [Arg 0 CInt, Arg 1 CLong, Arg 2 CLong])] CLong"

definition vmBncWrite :: native where
  "vmBncWrite = Native [(3, [Arg 0 CInt, Arg 1 CLong, Arg 2 CLong])] CLong"

definition vmBncOpen :: native where
  "vmBncOpen = Native [(2, [Arg 0 CLong, Arg 1 CInt, Const 0x1A0]), (3, [Arg 0 CLong, Arg 1 CInt, Arg 2 CU32])] CInt"

definition vmBncClose :: native where
  "vmBncClose = Native [(1, [Arg 0 CInt])] CInt"

definition vmBncStat :: native where
  "vmBncStat = Native [(2, [Arg 0 CLong, Arg 1 CLong])] CInt"

definition vmBncFstat :: native where
  "vmBncFstat = Native [(2, [Arg 0 CInt, Arg 1 CLong])] CInt"

definition vmBncLstat :: native where
  "vmBncLstat = Native [(2, [Arg 0 CLong, Arg 1 CLong])] CInt"

definition vmBncPoll :: native where
  "vmBncPoll = Native [(3, [Arg 0 CLong, Arg 1 CLong, Arg 2 CInt])] CInt"

definition vmBncLseek :: native where
  "vmBncLseek = Native [(3, [Arg 0 CInt, Arg 1 CLong, Arg 2 CInt])] CLong"

definition vmBncPipe :: native where
  "vmBncPipe = Native [(1, [Arg 0 CLong])] CInt"

definition vmBncSelect :: native where
  "vmBncSelect = Native [(5, [Arg 0 CInt, Arg 1 CLong, Arg 2 CLong, Arg 3 CLong, Arg 4 CLong])] CInt"

definition vmBncDup :: native where
  "vmBncDup = Native [(1, [Arg 0 CInt])] CInt"

definition vmBncDup2 :: native where
  "vmBncDup2 = Native [(1, [Arg 0 CInt, Arg 1 CInt])] CInt"

definition vmBncGetpid :: native where
  "vmBncGetpid = Native [(0, [])] CInt"

definition vmBncSendfile :: native where
  "vmBncSendfile = Native [(4, [Arg 0 CInt, Arg 1 CInt, Arg 2 CLong, Arg 3 CLong])] CLong"

definition vmBncSocket :: native where
  "vmBncSocket = Native [(3, [Arg 0 CInt, Arg 1 CInt, Arg 2 CInt])] CInt"

definition vmBncConnect :: native where
  "vmBncConnect = Native [(3, [Arg 0 CInt, Arg 1 CLong, Arg 2 CU32])] CInt"

definition vmBncAccept :: native where
  "vmBncAccept = Native [(3, [Arg 0 CInt, Arg 1 CLong, Arg 2 CLong])] CInt"

definition vmBncSendto :: native where
  "vmBncSendto = Native [(6, [Arg 0 CInt, Arg 1 CLong, Arg 2 CLong, Arg 3 CInt, Arg 4 CLong, Arg 5 CU32])] CLong"

definition vmBncRecvfrom :: native where
  "vmBncRecvfrom = Native [(6, [Arg 0 CInt, Arg 1 CLong, Arg 2 CLong, Arg 3 CInt, Arg 4 CLong, Arg 5 CLong])] CLong"

definition vmBncShutdown :: native where
  "vmBncShutdown = Native [(2, [Arg 0 CInt, Arg 1 CInt])] CInt"

definition vmBncBind :: native where
  "vmBncBind = Native [(3, [Arg 0 CInt, Arg 1 CLong, Arg 2 CU32])] CInt"

definition vmBncListen :: native where
  "vmBncListen = Native [(2, [Arg 0 CInt, Arg 1 CInt])] CInt"

definition vmBncGetsockname :: native where
  "vmBncGetsockname = Native [(3, [Arg 0 CInt, Arg 1 CLong, Arg 2 CLong])] CInt"

definition vmBncGetpeername :: native where
  "vmBncGetpeername = Native [(3, [Arg 0 CInt, Arg 1 CLong, Arg 2 CLong])] CInt"

text \<open>\<open>fcntl\<close> passes its third argument exactly when it was called with two.\<close>

definition vmBncFcntl :: native where
  "vmBncFcntl = Native [(2, [Arg 0 CInt, Arg 1 CInt, Arg 2 CLong]), (3, [Arg 0 CInt, Arg 1 CInt])] CInt"

definition vmNativeBuiltinCallTbl :: "(string \<times> native) list" where
  "vmNativeBuiltinCallTbl = 
     [(''read'', vmBncRead),
      (''write'', vmBncWrite),
      (''open'', vmBncOpen),
      (''close'', vmBncClose),
      (''stat'', vmBncStat),
      (''fstat'', vmBncFstat),
      (''lstat'', vmBncLstat),
      (''poll'', vmBncPoll),
      (''lseek'', vmBncLseek),
      (''pipe'', vmBncPipe),
      (''select'', vmBncSelect),
      (''dup'', vmBncDup),
      (''dup2'', vmBncDup2),
      (''getpid'', vmBncGetpid),
      (''sendfile'', vmBncSendfile),
      (''socket'', vmBncSocket),
      (''connect'', vmBncConnect),
      (''accept'', vmBncAccept),
      (''sendto'', vmBncSendto),
      (''recvfrom'', vmBncRecvfrom),
      (''shutdown'', vmBncShutdown),
      (''bind'', vmBncBind),
      (''listen'', vmBncListen),
      (''getsockname'', vmBncGetsockname),
      (''getpeername'', vmBncGetpeername),
      (''fcntl'', vmBncFcntl)] @
     map (\<lambda>n. (n, Missing))
       [''flock'', ''fsync'', ''getcwd'', ''chdir'', ''rename'', ''mkdir'', ''rmdir'', ''creat'',
        ''link'', ''unlink'', ''symlink'']"

definition bncCOUNT :: nat where
  "bncCOUNT = 37"

lemma length_vmNativeBuiltinCallTbl: "length vmNativeBuiltinCallTbl = bncCOUNT"
  by (simp add: vmNativeBuiltinCallTbl_def bncCOUNT_def)

section \<open>Calling a builtin\<close>

fun native_arg :: "'w VM \<Rightarrow> loc option \<Rightarrow> narg \<Rightarrow> fault + u64" where
  "native_arg vm args (Const v) = Inr v"
| "native_arg vm (Some (LMem a)) (Arg k t) =
     bnd (read_loc vm (LMem (a - 8 * int k)) szQuad) (\<lambda>v. Inr (conv t v))"
| "native_arg vm args (Arg k t) = Inl Undefined"

primrec native_args :: "'w VM \<Rightarrow> loc option \<Rightarrow> narg list \<Rightarrow> fault + u64 list" where
  "native_args vm args [] = Inr []"
| "native_args vm args (n # ns) =
     bnd (native_arg vm args n) (\<lambda>v. bnd (native_args vm args ns) (\<lambda>vs. Inr (v # vs)))"

definition call_builtin :: "'w syscalls \<Rightarrow> nat \<Rightarrow> 'w VM \<Rightarrow> loc option \<Rightarrow> u32 \<Rightarrow> fault + 'w VM" where
  "call_builtin sys nid vm args nargs =
     (case vmNativeBuiltinCallTbl ! nid of
        (_, Missing) \<Rightarrow> Inl (Abort NativeMissing)
      | (name, Native arities ret) \<Rightarrow>
          (case map_of arities (unat nargs) of
             None \<Rightarrow> Inl (Abort NativeArgs)
           | Some ns \<Rightarrow>
               bnd (native_args vm args ns) (\<lambda>vs.
               let (r, vm) = sys name vs vm
               in VM_returnx vm (Bytes (le_bytes 8 (conv ret r))) 1)))"

end
