(* ===== verification/Cyn_VM.thy ===== *)
theory Cyn_VM
  imports Cyn_Native "HOL-Library.Signed_Division"
begin

unbundle bit_operations_syntax

text \<open>
  The interpreter (\<^verbatim>\<open>src/vm/vm.c\<close>): fetching an instruction, executing it, setting up the memory
  and running a program. \<open>VM_execute\<close> first resolves the operands and then dispatches on the
  operation code; the groups of instructions are definitions of their own.
\<close>

section \<open>Fetching\<close>

definition code_len :: "'w VM \<Rightarrow> u64" where
  "code_len vm = of_nat (length (vcode vm))"

definition code_byte :: "'w VM \<Rightarrow> fault + u8" where
  "code_byte vm = (case Vector_at (vcode vm) (unat (REG vm ip)) of None \<Rightarrow> Inl Undefined | Some b \<Rightarrow> Inr b)"

definition skip :: "u64 \<Rightarrow> 'w VM \<Rightarrow> 'w VM" where
  "skip n vm = set_reg ip (REG vm ip + n) vm"

definition fetch_imm :: "Instruction \<Rightarrow> 'w VM \<Rightarrow> fault + (Instruction \<times> 'w VM)" where
  "fetch_imm i vm =
     (if rmd i \<noteq> amReg \<or> iea i then
        let i = (if osz i = 2 then i\<lparr>ims := Mode_of (ucast (ra i)), ra := 0\<rparr> else i) in
        case read_code (vcode vm) (unat (REG vm ip)) (ims i) of
          None \<Rightarrow> Inl Undefined
        | Some v \<Rightarrow> Inr (i\<lparr>iu := v\<rparr>, skip (of_nat (vmSizeTbl (ims i))) vm)
      else Inr (i, vm))"

definition VM_fetch :: "'w VM \<Rightarrow> fault + (Instruction \<times> u64 \<times> 'w VM)" where
  "VM_fetch vm =
    (let ret = REG vm ip in
     if REG vm ip + 1 > code_len vm then Inl (Abort BeyondCode)
     else bnd (code_byte vm) (\<lambda>b.
       let i = set_b1 b instr0; vm = skip 1 vm in
       if osz i = 1 then Inr (i, ret, vm)
       else if REG vm ip + (ucast (osz i) - 1) > code_len vm then Inl (Abort BeyondCode)
       else bnd (code_byte vm) (\<lambda>b.
         let i = set_b2 b i; vm = skip 1 vm in
         bnd (if osz i = 3 then bnd (code_byte vm) (\<lambda>b. Inr (set_b3 b i, skip 1 vm)) else Inr (i, vm)) (\<lambda>(i, vm).
         bnd (fetch_imm i vm) (\<lambda>(i, vm).
         if REG vm ip > code_len vm then Inl (Abort BeyondCode)
         else Inr (i, ret, vm))))))"

section \<open>Operands\<close>

definition reg_operand :: "'w VM \<Rightarrow> bool \<Rightarrow> 4 word \<Rightarrow> fault + loc" where
  "reg_operand vm mem n =
     bnd (reg_field n) (\<lambda>r. if mem then MEM vm (ucast (REG vm r)) else Inr (LReg r))"

definition imm_operand :: "'w VM \<Rightarrow> bool \<Rightarrow> u64 \<Rightarrow> fault + loc" where
  "imm_operand vm mem v = (if mem then MEM vm (ucast v) else Inr (LImm v))"

text \<open>Moving a pointer into memory by the immediate; the result is not checked again.\<close>

definition displace :: "i64 \<Rightarrow> loc \<Rightarrow> loc" where
  "displace d l = (case l of LMem a \<Rightarrow> LMem (a + sint d) | _ \<Rightarrow> l)"

definition operands :: "Instruction \<Rightarrow> 'w VM \<Rightarrow> fault + (loc \<times> loc)" where
  "operands i vm =
     (if osz i = 1 then Inr (LNull, LNull)
      else if osz i = 2 then
        bnd (if rmd i = amReg then reg_operand vm (iam i) (ra i) else imm_operand vm (iam i) (iu i))
          (\<lambda>rA. Inr (rA, LNull))
      else if osz i = 3 then
        bnd (reg_operand vm (iam i) (ra i)) (\<lambda>rA.
        bnd (if rmd i = amReg then
               (if ibm i then
                  bnd (reg_operand vm True (rb i)) (\<lambda>l. Inr (if iea i then displace (iu i) l else l))
                else reg_operand vm False (rb i))
             else imm_operand vm (ibm i) (iu i))
          (\<lambda>rB. Inr (rA, rB)))
      else Inl Unreachable)"

text \<open>The mode of the last argument: \<open>imd\<close> in the register forms, otherwise \<open>ims\<close>.\<close>

definition reg_form :: "Instruction \<Rightarrow> bool" where
  "reg_form i \<longleftrightarrow> osz i \<noteq> 1 \<and> rmd i = amReg"

definition TB :: "Instruction \<Rightarrow> Mode" where
  "TB i = (if reg_form i then imd i else ims i)"

section \<open>Arithmetic\<close>

definition truth :: "bool \<Rightarrow> i64" where
  "truth b = of_bool b"

text \<open>
  The operators on two \<open>i64\<close>. The shift counts outside \<open>0\<dots>63\<close> are undefined; the division by zero
  and the one that overflows trap.
\<close>

definition shift_count :: "i64 \<Rightarrow> fault + nat" where
  "shift_count y = (if unat y < 64 then Inr (unat y) else Inl Undefined)"

definition binary_op :: "OpCode \<Rightarrow> i64 \<Rightarrow> i64 \<Rightarrow> fault + i64" where
  "binary_op opr x y =
     (case opr of
        opAdd \<Rightarrow> Inr (x + y)
      | opSub \<Rightarrow> Inr (x - y)
      | opSar \<Rightarrow> bnd (shift_count y) (\<lambda>n. Inr (signed_drop_bit n x))
      | opSal \<Rightarrow> bnd (shift_count y) (\<lambda>n. Inr (push_bit n x))
      | opXor \<Rightarrow> Inr (x XOR y)
      | opBor \<Rightarrow> Inr (x OR y)
      | opBand \<Rightarrow> Inr (x AND y)
      | opMul \<Rightarrow> Inr (x * y)
      | opDiv \<Rightarrow> if y = 0 \<or> sint x = - (2 ^ 63) \<and> y = -1 then Inl DivTrap else Inr (word_of_int (sint x sdiv sint y))
      | _ \<Rightarrow> Inl Unreachable)"

text \<open>\<open>&&\<close> and \<open>||\<close> read their right operand only if the left one does not decide.\<close>

definition exec_binary :: "OpCode \<Rightarrow> Instruction \<Rightarrow> loc \<Rightarrow> loc \<Rightarrow> 'w VM \<Rightarrow> fault + 'w VM" where
  "exec_binary opr i rA rB vm =
     bnd (read_loc vm rA (imd i)) (\<lambda>x.
     bnd (if opr = opAnd then (if x = 0 then Inr 0 else bnd (read_loc vm rB (TB i)) (\<lambda>y. Inr (truth (y \<noteq> 0))))
          else if opr = opOr then (if x \<noteq> 0 then Inr 1 else bnd (read_loc vm rB (TB i)) (\<lambda>y. Inr (truth (y \<noteq> 0))))
          else bnd (read_loc vm rB (TB i)) (binary_op opr x))
       (\<lambda>v. write_loc vm rA v (imd i)))"

definition exec_unary :: "OpCode \<Rightarrow> Instruction \<Rightarrow> loc \<Rightarrow> 'w VM \<Rightarrow> fault + 'w VM" where
  "exec_unary opr i rA vm =
     (case opr of
        opNot \<Rightarrow> bnd (read_loc vm rA (TB i)) (\<lambda>x. write_loc vm rA (truth (x = 0)) (imd i))
      | opBNot \<Rightarrow> bnd (read_loc vm rA (TB i)) (\<lambda>x. write_loc vm rA (NOT x) (imd i))
      | opInc \<Rightarrow> bnd (read_loc vm rA (TB i)) (\<lambda>x. write_loc vm rA (x + 1) (imd i))
      | opDec \<Rightarrow> bnd (read_loc vm rA (TB i)) (\<lambda>x. write_loc vm rA (x - 1) (imd i))
      | _ \<Rightarrow> Inl Unreachable)"

definition exec_move :: "OpCode \<Rightarrow> Instruction \<Rightarrow> loc \<Rightarrow> loc \<Rightarrow> 'w VM \<Rightarrow> fault + 'w VM" where
  "exec_move opr i rA rB vm =
     (if opr = opMov then bnd (read_loc vm rB (TB i)) (\<lambda>y. write_loc vm rA y (imd i))
      else bnd (read_loc vm rB (TB i)) (\<lambda>y.
           bnd (MEM vm (ucast y)) (\<lambda>_. write_loc vm rA (mbase (ram vm) + ucast (ucast y :: u32)) (imd i))))"

section \<open>Jumps\<close>

definition flgZero :: u64 where "flgZero = 0x80"
definition flgLess :: u64 where "flgLess = 0x40"
definition flgGreater :: u64 where "flgGreater = 0x20"

definition jump_taken :: "OpCode \<Rightarrow> 'w VM \<Rightarrow> bool" where
  "jump_taken opr vm =
     (case opr of
        opJmp \<Rightarrow> True
      | opJmpz \<Rightarrow> REG vm flg AND flgZero \<noteq> 0
      | opJmpnz \<Rightarrow> REG vm flg AND flgZero = 0
      | opJmpg \<Rightarrow> REG vm flg AND flgGreater \<noteq> 0
      | opJmps \<Rightarrow> REG vm flg AND flgLess \<noteq> 0
      | _ \<Rightarrow> False)"

definition exec_jump :: "OpCode \<Rightarrow> Instruction \<Rightarrow> u64 \<Rightarrow> loc \<Rightarrow> 'w VM \<Rightarrow> fault + 'w VM" where
  "exec_jump opr i iip rA vm =
     (if jump_taken opr vm then bnd (read_loc vm rA (TB i)) (\<lambda>d. Inr (set_reg ip (iip + d) vm))
      else Inr vm)"

definition exec_cmp :: "Instruction \<Rightarrow> loc \<Rightarrow> loc \<Rightarrow> 'w VM \<Rightarrow> fault + 'w VM" where
  "exec_cmp i rA rB vm =
     bnd (read_loc vm rA (imd i)) (\<lambda>a.
     bnd (read_loc vm rB (TB i)) (\<lambda>b.
     Inr (set_reg flg (if a = b then flgZero else if sint a < sint b then flgLess else flgGreater) vm)))"

section \<open>Stack and calls\<close>

text \<open>
  In \<open>push\<close> the source stores \<open>VM_read(rA)\<close> through the pointer that \<open>VM_pushn\<close> returns; C does not
  say which is evaluated first, and for the register \<open>sp\<close> itself it matters.
\<close>

definition exec_push :: "Instruction \<Rightarrow> loc \<Rightarrow> 'w VM \<Rightarrow> fault + 'w VM" where
  "exec_push i rA vm =
     (if rA = LReg sp then Inl Unspecified
      else bnd (read_loc vm rA (TB i)) (\<lambda>v. VM_push vm v))"

definition exec_pop :: "Instruction \<Rightarrow> loc \<Rightarrow> 'w VM \<Rightarrow> fault + 'w VM" where
  "exec_pop i rA vm = bnd (VM_pop vm) (\<lambda>(v, vm). write_loc vm rA v (TB i))"

definition exec_popn :: "Instruction \<Rightarrow> loc \<Rightarrow> 'w VM \<Rightarrow> fault + 'w VM" where
  "exec_popn i rA vm =
     bnd (read_loc vm rA (TB i)) (\<lambda>n. bnd (VM_popn vm (ucast n)) (\<lambda>(_, vm). Inr vm))"

text \<open>The output is \<open>"count %u = %u\n"\<close>.\<close>

definition exec_alloca :: "Instruction \<Rightarrow> loc \<Rightarrow> loc \<Rightarrow> 'w VM \<Rightarrow> fault + 'w VM" where
  "exec_alloca i rA rB vm =
     bnd (read_loc vm rB (TB i)) (\<lambda>y.
     let ta = unat (mode_code (imd i)); cnt = ucast (signed_drop_bit (3 - ta) y) :: u32;
         vm = put ([99, 111, 117, 110, 116, 32] @ dec_nat ta @ [32, 61, 32] @ dec_nat (unat cnt) @ [10]) vm
     in bnd (write_loc vm rA (REG vm sp - 8) szQuad) (\<lambda>vm.
        bnd (VM_pushn vm NoData (ucast cnt)) (\<lambda>(_, vm). Inr vm)))"

definition exec_call :: "Instruction \<Rightarrow> u64 \<Rightarrow> loc \<Rightarrow> 'w VM \<Rightarrow> fault + 'w VM" where
  "exec_call i iip rA vm =
     bnd (VM_push vm (REG vm ip)) (\<lambda>vm.
     bnd (VM_push vm (REG vm bp)) (\<lambda>vm.
     let vm = set_reg bp (REG vm sp) vm in
     bnd (read_loc vm rA (TB i)) (\<lambda>d. Inr (set_reg ip (iip + d) vm))))"

definition exec_ret :: "Instruction \<Rightarrow> loc \<Rightarrow> 'w VM \<Rightarrow> fault + 'w VM" where
  "exec_ret i rA vm =
     bnd (read_loc vm rA (TB i)) (\<lambda>n. let nret = ucast n :: u32 in
     bnd (if nret \<noteq> 0 then VM_popn vm (ucast nret) else Inr (LNull, vm)) (\<lambda>(ret, vm).
     VM_returnx vm (At ret) nret))"

definition exec_ncall :: "'w syscalls \<Rightarrow> Instruction \<Rightarrow> loc \<Rightarrow> 'w VM \<Rightarrow> fault + 'w VM" where
  "exec_ncall sys i rA vm =
     bnd (read_loc vm rA (TB i)) (\<lambda>nid.
     bnd (MEM vm (ucast (REG vm sp))) (\<lambda>nargs.
     bnd (read_loc vm nargs szQuad) (\<lambda>n.
     bnd (if n = 0 then Inr None else map_sum (\<lambda>x. x) Some (MEM vm (ucast (REG vm sp + push_bit 3 n)))) (\<lambda>argv.
     bnd (VM_push vm (REG vm ip)) (\<lambda>vm.
     bnd (VM_push vm (REG vm bp)) (\<lambda>vm.
     let vm = set_reg bp (REG vm sp) vm in
     bnd (read_loc vm nargs szQuad) (\<lambda>n.
     if unat nid < bncCOUNT then call_builtin sys (unat nid) vm argv (ucast n)
     else Inl Foreign)))))))"

section \<open>Output and heap\<close>

definition exec_put :: "OpCode \<Rightarrow> Instruction \<Rightarrow> loc \<Rightarrow> 'w VM \<Rightarrow> fault + 'w VM" where
  "exec_put opr i rA vm =
     (case opr of
        opPutc \<Rightarrow> bnd (read_loc vm rA (TB i)) (\<lambda>v.
          case VM_put_utf8_chr (ucast v) of None \<Rightarrow> Inl (Abort InvalidUcs) | Some bs \<Rightarrow> Inr (put bs vm))
      | opPuti \<Rightarrow> bnd (read_loc vm rA (TB i)) (\<lambda>v. Inr (put (dec_int (sint v)) vm))
      | opPuts \<Rightarrow>
          if iam i then
            (case rA of LMem a \<Rightarrow> bnd (cstring (ram vm) a) (\<lambda>s. Inr (put s vm)) | _ \<Rightarrow> Inl Undefined)
          else bnd (read_loc vm rA (TB i)) (\<lambda>p.
            let a = p - mbase (ram vm) in
            if a < ucast (msize (ram vm)) then bnd (cstring (ram vm) (int (unat a))) (\<lambda>s. Inr (put s vm))
            else Inl Foreign)
      | _ \<Rightarrow> Inl Unreachable)"

definition exec_alloc :: "Instruction \<Rightarrow> loc \<Rightarrow> loc \<Rightarrow> 'w VM \<Rightarrow> fault + 'w VM" where
  "exec_alloc i rA rB vm =
     bnd (read_loc vm rB (TB i)) (\<lambda>n.
     case VM_alloc (heap vm) (ucast n) of
       None \<Rightarrow> Inl Hang
     | Some (a, h) \<Rightarrow> write_loc (vm\<lparr>heap := h\<rparr>) rA (ucast a) (imd i))"

definition exec_dlloc :: "Instruction \<Rightarrow> loc \<Rightarrow> 'w VM \<Rightarrow> fault + 'w VM" where
  "exec_dlloc i rA vm =
     bnd (read_loc vm rA (TB i)) (\<lambda>a.
     case VM_free (heap vm) (ucast a) of
       None \<Rightarrow> Inl Hang
     | Some (_, h) \<Rightarrow> Inr (vm\<lparr>heap := h\<rparr>))"

section \<open>The dispatch\<close>

definition eflHalt :: u64 where "eflHalt = 1"

definition exec_op :: "'w syscalls \<Rightarrow> OpCode \<Rightarrow> Instruction \<Rightarrow> u64 \<Rightarrow> loc \<Rightarrow> loc \<Rightarrow> 'w VM \<Rightarrow> fault + 'w VM" where
  "exec_op sys opr i iip rA rB vm =
     (if opr \<in> {opAdd, opSub, opAnd, opOr, opSar, opSal, opXor, opBor, opBand, opMul, opDiv}
        then exec_binary opr i rA rB vm
      else if opr \<in> {opMov, opRmem} then exec_move opr i rA rB vm
      else if opr \<in> {opNot, opBNot, opInc, opDec} then exec_unary opr i rA vm
      else if opr \<in> {opJmp, opJmpz, opJmpnz, opJmpg, opJmps} then exec_jump opr i iip rA vm
      else if opr \<in> {opPutc, opPuti, opPuts} then exec_put opr i rA vm
      else case opr of
        opPush \<Rightarrow> exec_push i rA vm
      | opAlloca \<Rightarrow> exec_alloca i rA rB vm
      | opPop \<Rightarrow> exec_pop i rA vm
      | opPopn \<Rightarrow> exec_popn i rA vm
      | opCmp \<Rightarrow> exec_cmp i rA rB vm
      | opCall \<Rightarrow> exec_call i iip rA vm
      | opRet \<Rightarrow> exec_ret i rA vm
      | opNcall \<Rightarrow> exec_ncall sys i rA vm
      | opAlloc \<Rightarrow> exec_alloc i rA rB vm
      | opDlloc \<Rightarrow> exec_dlloc i rA vm
      | opHalt \<Rightarrow> Inr (vm\<lparr>vflags := eflHalt\<rparr>)
      | opDbg \<Rightarrow> Inr vm
      | _ \<Rightarrow> Inl (Abort UnknownInstruction))"

definition VM_execute :: "'w syscalls \<Rightarrow> Instruction \<Rightarrow> u64 \<Rightarrow> 'w VM \<Rightarrow> fault + 'w VM" where
  "VM_execute sys i iip vm =
     bnd (operands i vm) (\<lambda>(rA, rB).
     case OpCode_of (opc i) of
       None \<Rightarrow> Inl (Abort UnknownInstruction)
     | Some opr \<Rightarrow> exec_op sys opr i iip rA rB vm)"

section \<open>Running\<close>

definition VM_step :: "'w syscalls \<Rightarrow> 'w VM \<Rightarrow> fault + 'w VM" where
  "VM_step sys vm = bnd (VM_fetch vm) (\<lambda>(i, iip, vm). VM_execute sys i iip vm)"

text \<open>
  The loop of \<open>VM_run\<close>, with the number of iterations allowed: \<open>None\<close> when they do not suffice.
\<close>

fun VM_loop :: "'w syscalls \<Rightarrow> nat \<Rightarrow> 'w VM \<Rightarrow> (fault + 'w VM) option" where
  "VM_loop sys 0 vm = None"
| "VM_loop sys (Suc n) vm =
     (if REG vm ip < code_len vm then
        (case VM_step sys vm of
           Inl f \<Rightarrow> Some (Inl f)
         | Inr vm \<Rightarrow> if vflags vm AND eflHalt \<noteq> 0 then Some (Inr vm) else VM_loop sys n vm)
      else Some (Inr vm))"

section \<open>Setting up\<close>

text \<open>\<open>ptr\<close> is the block that \<open>malloc\<close> returned, \<open>garbage\<close> its contents.\<close>

definition VM_memory_init :: "u64 \<Rightarrow> (nat \<Rightarrow> u8) \<Rightarrow> u64 \<Rightarrow> u32 \<Rightarrow> u32 \<Rightarrow> u32 \<Rightarrow> Memory" where
  "VM_memory_init ptr garbage sz bk ss db =
     (let msz = ucast (sz - ucast bk) :: u32; sb = msz - ss in
      \<lparr>mbase = ptr + ucast bk, cells = garbage, msb = sb, mhb = db, mhlm = sb - 8, msize = msz\<rparr>)"

text \<open>The field \<open>db\<close> of the header, the bytes 8 to 11 of the code.\<close>

definition header_db :: "Code \<Rightarrow> fault + u32" where
  "header_db code =
     (if 12 \<le> length code then Inr (ucast (le_word (take 4 (drop 8 code)))) else Inl Undefined)"

definition sizeof_Heap :: u64 where "sizeof_Heap = 37"
definition sizeof_HeapBlock :: u64 where "sizeof_HeapBlock = 16"

primrec write_guard :: "nat \<Rightarrow> u32 \<Rightarrow> 'w VM \<Rightarrow> fault + 'w VM" where
  "write_guard 0 a vm = Inr vm"
| "write_guard (Suc n) a vm =
     bnd (MEM vm a) (\<lambda>l. bnd (write_loc vm l 0xA3 szByte) (write_guard n (a - 1)))"

definition VM_init_with :: "u64 \<Rightarrow> (nat \<Rightarrow> u8) \<Rightarrow> store \<Rightarrow> 'w \<Rightarrow> Code \<Rightarrow> u64 \<Rightarrow> u32 \<Rightarrow> u32 \<Rightarrow> fault + 'w VM" where
  "VM_init_with ptr garbage blocks w code mem nhbs ss =
     bnd (header_db code) (\<lambda>db.
     let bk = ucast (CynAlign (sizeof_Heap + sizeof_HeapBlock * ucast nhbs) 8) :: u32;
         mem = mem + ucast (db + bk);
         mem = CynAlign mem 8;
         ss = ucast (CynAlign (ucast ss + 8 :: u64) 8) :: u32;
         m = VM_memory_init ptr garbage mem bk ss db
     in case VM_heap_init nhbs 16 8 (mhlm m) (mhb m) blocks of
          None \<Rightarrow> Inl Undefined
        | Some h \<Rightarrow>
            let vm = \<lparr>vflags = 0, regs = (\<lambda>_. 0), vcode = code, ram = m, heap = h, out = [], world = w\<rparr> in
            if length code < unat db then Inl Undefined
            else bnd (write_ram vm 0 (take (unat db) code)) (write_guard 8 ss))"

definition VM_cstring_dup :: "'w VM \<Rightarrow> u8 list \<Rightarrow> u32 \<Rightarrow> fault + (u32 \<times> 'w VM)" where
  "VM_cstring_dup vm s len =
     (case VM_alloc (heap vm) (len + 1) of
        None \<Rightarrow> Inl Hang
      | Some (mem, h) \<Rightarrow>
          if mem = 0 then Inl (Abort OutOfHeap)
          else let vm = vm\<lparr>heap := h\<rparr> in
            bnd (MEM vm mem) (\<lambda>d.
            bnd (memcpy vm d (Bytes (s @ replicate (unat len - length s) 0)) (unat len)) (\<lambda>vm.
            Inr (mem, vm))))"

primrec push_args :: "u8 list list \<Rightarrow> 'w VM \<Rightarrow> fault + 'w VM" where
  "push_args [] vm = Inr vm"
| "push_args (s # argv) vm =
     bnd (VM_cstring_dup vm s (of_nat (length s))) (\<lambda>(a, vm). bnd (VM_push vm (ucast a)) (push_args argv))"

text \<open>What \<open>VM_run\<close> does before its loop.\<close>

definition VM_start :: "'w VM \<Rightarrow> u8 list list \<Rightarrow> fault + 'w VM" where
  "VM_start vm argv =
     bnd (header_db (vcode vm)) (\<lambda>db.
     let top = ucast (msize (ram vm));
         vm = vm\<lparr>regs := (\<lambda>_. 0)(sp := top, bp := top, ip := ucast db, r0 := of_nat (length argv))\<rparr> in
     bnd (push_args argv vm) (\<lambda>vm.
     bnd (VM_push vm (of_nat (length argv))) (\<lambda>vm.
     bnd (VM_push vm (code_len vm)) (\<lambda>vm.
     bnd (VM_push vm (REG vm bp)) (\<lambda>vm.
     Inr (set_reg bp (REG vm sp) vm))))))"

definition VM_run :: "'w syscalls \<Rightarrow> nat \<Rightarrow> 'w VM \<Rightarrow> u8 list list \<Rightarrow> (fault + 'w VM) option" where
  "VM_run sys fuel vm argv =
     (case VM_start vm argv of Inl f \<Rightarrow> Some (Inl f) | Inr vm \<Rightarrow> VM_loop sys fuel vm)"

end
