(* ===== verification/Cyn_Fetch.thy ===== *)
theory Cyn_Fetch
  imports Cyn_VM
begin

unbundle bit_operations_syntax

text \<open>
  The fetch stage of the machine: it reads back what \<open>VM_code_append\<close> wrote, as an
  interpretation of \<open>instr_codec\<close>, and it sees the instructions that the disassembler shows.
\<close>

section \<open>Reading an encoded instruction\<close>

lemma set_reg_same [simp]: "set_reg r v (set_reg r w vm) = set_reg r v vm"
  by (simp add: set_reg_def)

lemma set_reg_fields [simp]:
  "regs (set_reg r v vm) = (regs vm)(r := v)" "vcode (set_reg r v vm) = vcode vm"
  "ram (set_reg r v vm) = ram vm" "heap (set_reg r v vm) = heap vm" "vflags (set_reg r v vm) = vflags vm"
  "out (set_reg r v vm) = out vm" "world (set_reg r v vm) = world vm"
  by (simp_all add: set_reg_def)

lemma skip_set_reg [simp]: "skip n vm = set_reg ip (REG vm ip + n) vm"
  by (simp add: skip_def)

lemma code_len_set_reg [simp]: "code_len (set_reg r v vm) = code_len vm"
  by (simp add: code_len_def)

lemma unat_of_nat_u64: "n < 2 ^ 64 \<Longrightarrow> unat (of_nat n :: u64) = n"
  by (simp add: unat_of_nat)

lemma code_byte_at:
  assumes "REG vm ip = of_nat k" "Vector_at (vcode vm) k = Some b" "length (vcode vm) < 2 ^ 31"
  shows "code_byte vm = Inr b"
proof -
  have "k < length (vcode vm)" using assms(2) by (auto simp: Vector_at_def split: if_splits)
  then have "unat (REG vm ip) = k" using assms(1,3) by (simp add: unat_of_nat_u64)
  then show ?thesis using assms(2) by (simp add: code_byte_def)
qed

lemma fetch_bound:
  assumes "k \<le> length (vcode vm)" "length (vcode vm) < 2 ^ 31"
  shows "\<not> of_nat k > code_len vm"
  using assms by (simp add: code_len_def word_less_nat_alt unat_of_nat_u64)

lemma VM_fetch_3:
  assumes o: "osz i = 3" and b0: "code_byte vm = Inr (b1 i)" and pc: "REG vm ip = of_nat L"
    and f: "\<not> of_nat (Suc L) > code_len vm" "\<not> of_nat (Suc (Suc (Suc L))) > code_len vm"
      "code_byte (set_reg ip (of_nat (Suc L)) vm) = Inr (b2 i)"
      "code_byte (set_reg ip (of_nat (Suc (Suc L))) vm) = Inr (b3 i)"
    and j: "set_b3 (b3 i) (set_b2 (b2 i) (set_b1 (b1 i) instr0)) = j"
    and fi: "fetch_imm j (set_reg ip (of_nat (Suc (Suc (Suc L)))) vm) = Inr (k, set_reg ip M vm)"
    and g: "\<not> M > code_len vm"
  shows "VM_fetch vm = Inr (k, of_nat L, set_reg ip M vm)"
proof -
  have n: "of_nat L + 1 = (of_nat (Suc L) :: u64)" "of_nat (Suc L) + 1 = (of_nat (Suc (Suc L)) :: u64)"
    "of_nat (Suc (Suc L)) + 1 = (of_nat (Suc (Suc (Suc L))) :: u64)"
    "of_nat (Suc L) + 2 = (of_nat (Suc (Suc (Suc L))) :: u64)"
    by simp_all
  have i: "osz (set_b1 (b1 i) instr0) = 3" "osz (set_b2 (b2 i) (set_b1 (b1 i) instr0)) = 3"
    using o by simp_all
  show ?thesis
    unfolding VM_fetch_def Let_def pc n
    by (simp only: n f if_False b0 bnd_Inr skip_set_reg set_reg_fields fun_upd_same code_len_set_reg pc)
      (simp del: of_nat_Suc b1_fields b2_fields b3_fields add: i n f fi g j)
qed

lemma VM_fetch_encoded:
  assumes enc: "encodable i" and len: "length (vcode vm) < 2 ^ 31"
    and at: "drop L (vcode vm) = instr_bytes i @ post" and pc: "REG vm ip = of_nat L"
  shows "VM_fetch vm = Inr (decoded i, of_nat L, set_reg ip (of_nat (L + length (instr_bytes i))) vm)"
proof -
  note reads = encoded_reads [OF enc at]
  have o0: "osz i \<noteq> 0" using enc by (simp add: encodable_def)
  have tot: "L + unat (osz i) \<le> length (vcode vm)"
    using reads(1) by (simp add: length_instr_bytes [OF o0])
  have byte: "code_byte (set_reg ip (of_nat k) vm) = Inr b" if "Vector_at (vcode vm) k = Some b" for k b
    by (rule code_byte_at [where k = k]) (use that len in simp_all)
  have bnds: "\<not> of_nat k > code_len vm" if "k \<le> length (vcode vm)" for k
    by (rule fetch_bound [OF that len])
  have b0: "code_byte vm = Inr (b1 i)" by (rule code_byte_at [OF pc reads(2) len])
  have un: "unat (of_nat k :: u64) = k" if "k \<le> length (vcode vm)" for k
    using that len by (intro unat_of_nat_u64) simp
  show ?thesis
  proof (rule osz_cases [of i])
    assume "osz i = 0" with o0 show ?thesis by simp
  next
    assume o: "osz i = 1"
    have "\<not> of_nat (Suc L) > code_len vm" using tot o by (intro bnds) simp
    then show ?thesis using b0 o pc
      by (simp add: VM_fetch_def Let_def decoded_def length_instr_bytes [OF o0] has_imm_def instr0_def add.commute)
  next
    assume o: "osz i = 2"
    have f: "\<not> of_nat (Suc L) > code_len vm" "\<not> of_nat (Suc (Suc L)) > code_len vm"
      "code_byte (set_reg ip (of_nat (Suc L)) vm) = Inr (b2 i)"
      using tot o reads(3) bnds [of "Suc L"] bnds [of "Suc (Suc L)"] byte [of "Suc L"] by simp_all
    show ?thesis
    proof (cases "rmd i = amImm")
      case True
      with o enc have im: "has_imm i" and m: "imm_mode i = Mode_of (ucast (ra i))"
        by (simp_all add: has_imm_def imm_mode_def)
      have "\<not> of_nat (Suc (Suc L) + vmSizeTbl (imm_mode i)) > code_len vm" "unat (of_nat (Suc (Suc L)) :: u64) = L + 2"
        using reads(1) o im bnds [of "Suc (Suc L) + vmSizeTbl (imm_mode i)"] un [of "Suc (Suc L)"]
        by (simp_all add: length_instr_bytes [OF o0])
      with b0 f o pc True m im reads(5) [OF im] show ?thesis
        by (simp add: VM_fetch_def fetch_imm_def Let_def decoded_def length_instr_bytes [OF o0] instr0_def
            ac_simps)
    next
      case False
      with o enc have im: "\<not> has_imm i" and "rmd i = amReg" and "\<not> iea i"
        by (auto simp add: has_imm_def encodable_def intro: ArgMode.exhaust)
      with b0 f o pc show ?thesis
        by (simp add: VM_fetch_def fetch_imm_def Let_def decoded_def length_instr_bytes [OF o0] instr0_def
            ac_simps)
    qed
  next
    assume o: "osz i = 3"
    have f: "\<not> of_nat (Suc L) > code_len vm" "\<not> of_nat (Suc (Suc (Suc L))) > code_len vm"
      "code_byte (set_reg ip (of_nat (Suc L)) vm) = Inr (b2 i)"
      "code_byte (set_reg ip (of_nat (Suc (Suc L))) vm) = Inr (b3 i)"
      using tot o reads(3,4) bnds [of "Suc L"] bnds [of "Suc (Suc (Suc L))"] byte [of "Suc L"] byte [of "Suc (Suc L)"]
      by simp_all
    have hi: "has_imm i = (rmd i = amImm \<or> iea i)" and m: "imm_mode i = ims i"
      using o by (simp_all add: has_imm_def imm_mode_def)
    have eq: "i\<lparr>iu := v\<rparr> = \<lparr>osz = 3, opc = opc i, ra = ra i, iam = iam i, rmd = rmd i, imd = imd i,
        ims = ims i, rb = rb i, ibm = ibm i, iea = iea i, iu = v\<rparr>" for v
      using o by (cases i) simp
    show ?thesis
    proof (cases "has_imm i")
      case True
      let ?pc = "of_nat (Suc (Suc (Suc L))) :: u64"
      have g: "\<not> of_nat (L + length (instr_bytes i)) > code_len vm" by (rule bnds [OF reads(1)])
      have u: "unat ?pc = L + 3" using tot o un [of "Suc (Suc (Suc L))"] by simp
      have n: "?pc + of_nat (vmSizeTbl (ims i)) = of_nat (L + length (instr_bytes i))"
        using True m o by (simp add: length_instr_bytes [OF o0] add.assoc)
      have "rmd i \<noteq> amReg \<or> iea i" using True hi by auto
      then have fi: "fetch_imm (i\<lparr>iu := 0\<rparr>) (set_reg ip ?pc vm) =
          Inr (i\<lparr>iu := sext (ims i) (iu i)\<rparr>, set_reg ip (of_nat (L + length (instr_bytes i))) vm)"
        using reads(5) [OF True] o m by (simp add: fetch_imm_def u n del: of_nat_Suc of_nat_add)
      have j: "set_b3 (b3 i) (set_b2 (b2 i) (set_b1 (b1 i) instr0)) = i\<lparr>iu := 0\<rparr>"
        using o by (simp add: eq instr0_def)
      have "decoded i = i\<lparr>iu := sext (ims i) (iu i)\<rparr>"
        using o True m by (simp add: decoded_def)
      then show ?thesis
        by (simp only:) (rule VM_fetch_3 [OF o b0 pc f j fi g])
    next
      case False
      have nm: "\<not> (rmd i \<noteq> amReg \<or> iea i)" using False hi by (cases "rmd i") auto
      have "L + length (instr_bytes i) = Suc (Suc (Suc L))"
        using o False by (simp add: length_instr_bytes [OF o0])
      moreover have fi: "fetch_imm (i\<lparr>iu := 0\<rparr>) (set_reg ip (of_nat (Suc (Suc (Suc L)))) vm) =
          Inr (i\<lparr>iu := 0\<rparr>, set_reg ip (of_nat (Suc (Suc (Suc L)))) vm)"
        using nm by (simp add: fetch_imm_def del: of_nat_Suc)
      moreover have "decoded i = i\<lparr>iu := 0\<rparr>"
        using o False by (simp add: decoded_def)
      moreover have j: "set_b3 (b3 i) (set_b2 (b2 i) (set_b1 (b1 i) instr0)) = i\<lparr>iu := 0\<rparr>"
        using o by (simp add: eq instr0_def)
      ultimately show ?thesis
        by (simp only:) (rule VM_fetch_3 [OF o b0 pc f j fi f(2)])
    qed
  qed
qed

section \<open>The interpretation\<close>

text \<open>What the machine \<open>vm\<close> would fetch at an offset of a code vector, as an offset and a size.\<close>

definition fetch_at :: "'w VM \<Rightarrow> Code \<Rightarrow> nat \<Rightarrow> (Instruction \<times> nat) option" where
  "fetch_at vm code k =
     (case VM_fetch (set_reg ip (of_nat k) (vm\<lparr>vcode := code\<rparr>)) of
        Inl f \<Rightarrow> None
      | Inr (i, iip, vm') \<Rightarrow> Some (i, unat (REG vm' ip - iip)))"

interpretation fetch: instr_codec instr_bytes "fetch_at vm" encodable decoded for vm :: "'w VM"
proof (unfold_locales)
  fix i code k post
  assume ok: "encodable i" and len: "length code < 2 ^ 31"
    and at: "drop k code = instr_bytes i @ post"
  have "length (instr_bytes i) < 2 ^ 64"
    using instr_bytes_bounds [of i] ok by (auto simp: encodable_def)
  then show "fetch_at vm code k = Some (decoded i, length (instr_bytes i))"
    using VM_fetch_encoded [OF ok, of "set_reg ip (of_nat k) (vm\<lparr>vcode := code\<rparr>)" k post] len at
    by (simp add: fetch_at_def unat_of_nat_u64)
qed

text \<open>The place of the \<open>n\<close>-th instruction of a program.\<close>

definition offset :: "Instruction list \<Rightarrow> nat \<Rightarrow> nat" where
  "offset prog n = length (concat (map instr_bytes (take n prog)))"

lemma offset_0 [simp]: "offset prog 0 = 0"
  by (simp add: offset_def)

lemma offset_Suc: "n < length prog \<Longrightarrow> offset prog (Suc n) = offset prog n + length (instr_bytes (prog ! n))"
  by (simp add: offset_def take_Suc_conv_app_nth)

lemma VM_fetch_nth:
  assumes code: "vcode vm = hdr @ concat (map instr_bytes prog) @ rest" and ok: "\<forall>i\<in>set prog. encodable i"
    and len: "length (vcode vm) < 2 ^ 31" and n: "n < length prog"
    and pc: "REG vm ip = of_nat (length hdr + offset prog n)"
  shows "VM_fetch vm = Inr (decoded (prog ! n), REG vm ip, set_reg ip (of_nat (length hdr + offset prog (Suc n))) vm)"
proof -
  have "drop (length hdr) (vcode vm) = concat (map instr_bytes prog) @ rest" using code by simp
  from drop_encoded_nth [OF this n]
  have at: "drop (length hdr + offset prog n) (vcode vm) =
      instr_bytes (prog ! n) @ (concat (map instr_bytes (drop (Suc n) prog)) @ rest)"
    by (simp add: offset_def)
  have "encodable (prog ! n)" using ok n by simp
  from VM_fetch_encoded [OF this len at pc] show ?thesis
    using pc by (simp add: offset_Suc [OF n] add.assoc)
qed

section \<open>Agreement with the disassembler\<close>

lemma code_len_less: "length (vcode vm) < 2 ^ 31 \<Longrightarrow> k < 2 ^ 32 \<Longrightarrow> code_len vm < of_nat k \<longleftrightarrow> length (vcode vm) < k"
  by (simp add: code_len_def word_less_nat_alt unat_of_nat_u64)

lemma of_nat_less_code: "N < 2 ^ 31 \<Longrightarrow> k < 2 ^ 32 \<Longrightarrow> (of_nat N :: u32) < of_nat k \<longleftrightarrow> N < k"
  by (simp add: word_less_nat_alt unat_of_nat_u32)

lemma ucast_of_nat_u64: "(ucast (of_nat n :: u64) :: u32) = of_nat n"
  by (rule bit_word_eqI) (simp add: bit_simps)

lemma ucast_add_u64: "(ucast (a + b :: u64) :: u32) = ucast a + ucast b"
proof -
  have "(ucast (of_nat (unat a) + of_nat (unat b) :: u64) :: u32) =
      ucast (of_nat (unat a) :: u64) + ucast (of_nat (unat b) :: u64)"
    by (simp only: ucast_of_nat_u64 flip: of_nat_add)
  then show ?thesis by simp
qed

lemma ArgMode_neq: "m \<noteq> amReg \<longleftrightarrow> m = amImm"
  by (cases m) auto

lemma VM_fetch_instruction_at:
  assumes len: "length (vcode vm) < 2 ^ 31" and f: "VM_fetch vm = Inr (i, iip, vm')" and o: "osz i \<noteq> 0"
  shows "VM_code_instruction_at (vcode vm) instr0 (ucast (REG vm ip)) =
    Some (i, ucast (REG vm' ip - REG vm ip))"
proof -
  let ?N = "length (vcode vm)"
  obtain b where b: "code_byte vm = Inr b" using f by (auto simp: VM_fetch_def Let_def split: if_splits)
  define L where "L = unat (REG vm ip)"
  have at0: "Vector_at (vcode vm) L = Some b" and L: "L < ?N"
    using b by (auto simp: code_byte_def L_def Vector_at_def split: option.splits if_splits)
  have pc: "REG vm ip = of_nat L" by (simp add: L_def)
  define j where "j = set_b1 b instr0"
  have byte: "code_byte (set_reg ip (of_nat k) vm) = (case Vector_at (vcode vm) k of None \<Rightarrow> Inl Undefined | Some b \<Rightarrow> Inr b)"
    if "k < 2 ^ 32" for k
    using that by (simp add: code_byte_def unat_of_nat_u64)
  note byte1 = byte [of "Suc L"] and byte2 = byte [of "Suc (Suc L)"]
  have l1: "\<not> of_nat ?N < (1 + of_nat L :: u32)"
    using of_nat_less_code [of ?N "Suc L"] L len by simp
  have u: "unat (of_nat L :: u32) = L" "unat (1 + of_nat L :: u32) = Suc L" "unat (2 + of_nat L :: u32) = Suc (Suc L)"
    "unat (of_nat L + 2 :: u32) = Suc (Suc L)" "unat (of_nat L + 3 :: u32) = Suc (Suc (Suc L))"
    "unat (3 + of_nat L :: u32) = Suc (Suc (Suc L))"
    using unat_of_nat_u32 [of L] unat_of_nat_u32 [of "Suc L"] unat_of_nat_u32 [of "Suc (Suc L)"]
      unat_of_nat_u32 [of "Suc (Suc (Suc L))"] L len by (simp_all add: add.commute)
  have v: "unat (of_nat L + 2 :: u64) = Suc (Suc L)" "unat (2 + of_nat L :: u64) = Suc (Suc L)"
    "unat (of_nat L + 3 :: u64) = Suc (Suc (Suc L))" "unat (3 + of_nat L :: u64) = Suc (Suc (Suc L))"
    using unat_of_nat_u64 [of "Suc (Suc L)"] unat_of_nat_u64 [of "Suc (Suc (Suc L))"] L len
    by (simp_all add: add.commute)
  have l2: "(of_nat ?N :: u32) < of_nat L + 2 \<longleftrightarrow> code_len vm < of_nat L + 2"
    using of_nat_less_code [of ?N "Suc (Suc L)"] code_len_less [of vm "Suc (Suc L)"] L len
    by (simp add: add.commute)
  have l3: "(of_nat ?N :: u32) < of_nat L + 3 \<longleftrightarrow> code_len vm < of_nat L + 3"
    using of_nat_less_code [of ?N "Suc (Suc (Suc L))"] code_len_less [of vm "Suc (Suc (Suc L))"] L len
    by (simp add: add.commute)
  have w: "(ucast (REG vm ip) :: u32) = of_nat L" by (simp add: pc ucast_of_nat_u64)
  have keep: "osz i' = osz k" if "fetch_imm k m = Inr (i', m')" for k i' and m m' :: "'a VM"
    using that by (auto simp: fetch_imm_def Let_def split: if_splits option.splits)
  show ?thesis
  proof (rule osz_cases [of j])
    assume "osz j = 0"
    then have "osz i = 0"
      using f b by (auto simp: VM_fetch_def Let_def j_def [symmetric] set_b2_def set_b3_def dest!: keep split: if_splits)
    with o show ?thesis by simp
  next
    assume oj: "osz j = 1"
    then have "i = j" "vm' = skip 1 vm"
      using f b by (auto simp: VM_fetch_def Let_def j_def [symmetric] split: if_splits)
    then show ?thesis
      using oj at0 l1 by (simp add: VM_code_instruction_at_def w u j_def [symmetric] Let_def add.commute)
  next
    assume oj: "osz j = 2"
    obtain c where c: "Vector_at (vcode vm) (Suc L) = Some c"
      and fi: "fetch_imm (set_b2 c j) (set_reg ip (of_nat L + 2) vm) = Inr (i, vm')"
      and nl: "\<not> code_len vm < of_nat L + 2"
      using f b oj byte1 L len
      by (auto simp: VM_fetch_def Let_def j_def [symmetric] pc add.commute [of 1] add.commute [of 2] add.commute [of 3] set_b2_def split: if_splits option.splits)
    have z: "\<not> iea (set_b2 c j)" "osz (set_b2 c j) = 2"
      using oj by (simp_all add: j_def set_b1_def set_b2_def instr0_def)
    show ?thesis
      using fi z at0 c l1 l2 nl oj u v
      by (auto simp: VM_code_instruction_at_def w j_def [symmetric] Let_def fetch_imm_def pc ArgMode_neq
          ucast_of_nat_u64 ucast_add_u64 word_le_nat_alt [of _ "1 :: 2 word"]
          add.commute [of 1] add.commute [of 2] add.commute [of 3] split: if_splits option.splits)
  next
    assume oj: "osz j = 3"
    obtain c d where c: "Vector_at (vcode vm) (Suc L) = Some c" "Vector_at (vcode vm) (Suc (Suc L)) = Some d"
      and fi: "fetch_imm (set_b3 d (set_b2 c j)) (set_reg ip (of_nat L + 3) vm) = Inr (i, vm')"
      and nl: "\<not> code_len vm < of_nat L + 3"
      using f b oj byte1 byte2 L len
      by (auto simp: VM_fetch_def Let_def j_def [symmetric] pc add.commute [of 1] add.commute [of 2] add.commute [of 3] set_b2_def
          split: if_splits option.splits)
    have z: "osz (set_b3 d (set_b2 c j)) = 3"
      using oj by (simp add: set_b2_def set_b3_def)
    show ?thesis
      using fi z at0 c l1 l3 nl oj u v
      by (auto simp: VM_code_instruction_at_def w j_def [symmetric] Let_def fetch_imm_def pc ArgMode_neq
          ucast_of_nat_u64 ucast_add_u64 word_le_nat_alt [of _ "1 :: 2 word"] set_b2_def
          add.commute [of 1] add.commute [of 2] add.commute [of 3] split: if_splits option.splits)
  qed
qed

section \<open>Where the readers disagree\<close>

text \<open>
  The instructions that are not encodable: of size zero, for which one byte is written, or of two bytes with a register and the
  flag of an effective address, for which an immediate is written that the readers do not expect. Neither reader
  reaches the end of what was written.
\<close>

lemma unencodable_cases:
  assumes "\<not> encodable i" "VM_code_append hdr [i] = Some code"
  shows "osz i = 0 \<and> code = hdr @ [b1 i] \<or>
    (\<exists>bs. osz i = 2 \<and> rmd i = amReg \<and> bs \<noteq> [] \<and> code = hdr @ b1 i # b2 i # bs)"
proof (rule osz_cases [of i])
  assume o: "osz i = 2"
  have n: "VM_write v m \<noteq> []" for v m using vmSizeTbl_pos [of m] by (metis length_VM_write length_greater_0_conv)
  show ?thesis
    using assms o n by (cases "rmd i") (auto simp: encodable_def Let_def append_mode_def split: if_splits)
qed (use assms in \<open>auto simp: encodable_def Let_def\<close>)

lemma one_header: "unat (of_nat n :: u32) = n" "unat (of_nat n + 1 :: u32) = Suc n" "unat (1 + of_nat n :: u32) = Suc n"
  "\<not> (of_nat (Suc n + k) :: u32) < of_nat n + 1"
  if "Suc n + k < 2 ^ 31" for n k
proof -
  show "unat (of_nat n :: u32) = n" using that by (intro unat_of_nat_u32) simp
  show u: "unat (1 + of_nat n :: u32) = Suc n" "unat (of_nat n + 1 :: u32) = Suc n"
    using that unat_of_nat_u32 [of "Suc n"] by (simp_all add: add.commute)
  show "\<not> (of_nat (Suc n + k) :: u32) < of_nat n + 1"
  proof -
    have "unat (of_nat (Suc n + k) :: u32) = Suc n + k" using that by (intro unat_of_nat_u32) simp
    then show ?thesis unfolding word_less_nat_alt u by simp
  qed
qed

lemma unencodable_listed:
  assumes "\<not> encodable i" "VM_code_append hdr [i] = Some code" "length code < 2 ^ 31" "instruction_at code (length hdr) = Some (j, n)"
  shows "length hdr + n < length code"
  using unencodable_cases [OF assms(1,2)]
proof (elim disjE exE conjE)
  assume c: "osz i = 0" "code = hdr @ [b1 i]"
  then show ?thesis
    using assms(3,4) one_header [of "length hdr" 0]
    by (auto simp: instruction_at_def VM_code_instruction_at_def Let_def Vector_at_def instr0_def split: if_splits)
next
  fix bs
  assume c: "osz i = 2" "rmd i = amReg" "bs \<noteq> []" "code = hdr @ b1 i # b2 i # bs"
  have l: "Suc (length hdr) + Suc (length bs) < 2 ^ 31" using assms(3) c(4) by simp
  show ?thesis
    using assms(3,4) c one_header [OF l] 
    by (auto simp: instruction_at_def VM_code_instruction_at_def Let_def Vector_at_def instr0_def nth_append split: if_splits)
qed

lemma unencodable_fetched:
  assumes "\<not> encodable i" "VM_code_append hdr [i] = Some code" "length code < 2 ^ 31" "fetch_at vm code (length hdr) = Some (j, n)"
  shows "length hdr + n < length code"
proof -
  let ?vm = "set_reg ip (of_nat (length hdr)) (vm\<lparr>vcode := code\<rparr>)"
  obtain iip vm' where f: "VM_fetch ?vm = Inr (j, iip, vm')" "n = unat (REG vm' ip - iip)"
    using assms(4) by (auto simp: fetch_at_def split: sum.splits)
  have p: "iip = of_nat (length hdr)" using f(1) by (auto simp: VM_fetch_def Let_def split: if_splits)
  show ?thesis
    using unencodable_cases [OF assms(1,2)]
  proof (elim disjE exE conjE)
    assume c: "osz i = 0" "code = hdr @ [b1 i]"
    have u: "unat (of_nat (length hdr) :: u64) = length hdr" "unat (of_nat (length hdr) + 1 :: u64) = Suc (length hdr)"
      using unat_of_nat_u64 [of "length hdr"] unat_of_nat_u64 [of "Suc (length hdr)"] assms(3) c(2) by (simp_all add: add.commute)
    have "code_byte ?vm = Inr (b1 i)" "code_byte (skip 1 ?vm) = Inl Undefined"
      using c(2) u by (simp_all add: code_byte_def Vector_at_def)
    then have "\<not> (\<exists>x. VM_fetch ?vm = Inr x)" using c(1) by (simp add: VM_fetch_def Let_def)
    then show ?thesis using f(1) by blast
  next
    fix bs
    assume c: "osz i = 2" "rmd i = amReg" "bs \<noteq> []" "code = hdr @ b1 i # b2 i # bs"
    have u: "unat (of_nat (length hdr) :: u64) = length hdr" "unat (of_nat (length hdr) + 1 :: u64) = Suc (length hdr)"
      using unat_of_nat_u64 [of "length hdr"] unat_of_nat_u64 [of "Suc (length hdr)"] assms(3) c(4) by (simp_all add: add.commute)
    have b: "code_byte ?vm = Inr (b1 i)" "code_byte (skip 1 ?vm) = Inr (b2 i)"
      using c(4) u by (simp_all add: code_byte_def Vector_at_def nth_append)
    have i: "fetch_imm (set_b2 (b2 i) (set_b1 (b1 i) instr0)) (skip 1 (skip 1 ?vm)) = Inr (set_b2 (b2 i) (set_b1 (b1 i) instr0), skip 1 (skip 1 ?vm))"
      using c(2) by (simp add: fetch_imm_def instr0_def)
    have "vm' = skip 1 (skip 1 ?vm)" using f(1) b c(1) i by (auto simp: VM_fetch_def Let_def split: if_splits)
    then have "n = 2" using f(2) p by simp
    then show ?thesis using c(3,4) by (cases bs) auto
  qed
qed

text \<open>With a size of zero the machine goes on by two bytes at least, the disassembler by none.\<close>

lemma VM_fetch_empty:
  assumes "length (vcode vm) < 2 ^ 31" "VM_fetch vm = Inr (i, iip, vm')" "osz i = 0"
  shows "\<exists>j. VM_code_instruction_at (vcode vm) instr0 (ucast (REG vm ip)) = Some (j, 0) \<and> opc j = opc i \<and>
    2 \<le> unat (REG vm' ip - REG vm ip)"
proof -
  obtain b where b: "code_byte vm = Inr b" using assms(2) by (auto simp: VM_fetch_def Let_def split: if_splits)
  define L where "L = unat (REG vm ip)"
  have at0: "Vector_at (vcode vm) L = Some b" and L: "L < length (vcode vm)"
    using b by (auto simp: code_byte_def L_def Vector_at_def split: option.splits if_splits)
  have pc: "REG vm ip = of_nat L" by (simp add: L_def)
  define j where "j = set_b1 b instr0"
  have keep: "osz i' = osz k \<and> opc i' = opc k \<and> (\<exists>m. REG m' ip = REG m0 ip + of_nat (vmSizeTbl m) \<or> REG m' ip = REG m0 ip)"
    if "fetch_imm k m0 = Inr (i', m')" for k i' and m0 m' :: "'a VM"
    using that by (auto simp: fetch_imm_def Let_def split: if_splits option.splits)
  have o: "osz j \<noteq> 1" "osz j \<noteq> 3"
    using assms(2,3) b by (auto simp: VM_fetch_def Let_def j_def [symmetric] set_b2_def set_b3_def dest!: keep split: if_splits)
  then have z: "osz j = 0 \<and> opc j = opc i \<and> (\<exists>m. REG vm' ip = REG vm ip + 2 + of_nat (vmSizeTbl m) \<or> REG vm' ip = REG vm ip + 2)"
    using assms(2,3) b by (auto simp: VM_fetch_def Let_def j_def [symmetric] set_b2_def set_b3_def dest!: keep split: if_splits)
  have "VM_code_instruction_at (vcode vm) instr0 (ucast (REG vm ip)) = Some (j, 0)"
  proof -
    obtain k where k: "length (vcode vm) = Suc L + k" using L less_iff_Suc_add by auto
    then have "Suc L + k < 2 ^ 31" using assms(1) by simp
    from one_header [OF this] show ?thesis
      using z at0 by (auto simp: VM_code_instruction_at_def Let_def pc ucast_of_nat_u64 j_def k word_less_nat_alt)
  qed
  moreover have "2 \<le> unat (REG vm' ip - REG vm ip)"
  proof -
    obtain m where "REG vm' ip = REG vm ip + 2 + of_nat (vmSizeTbl m) \<or> REG vm' ip = REG vm ip + 2" using z by blast
    then have "REG vm' ip - REG vm ip = 2 + of_nat (vmSizeTbl m) \<or> REG vm' ip - REG vm ip = 2" by (auto simp: algebra_simps)
    then show ?thesis by (cases m) auto
  qed
  ultimately show ?thesis using z by blast
qed

section \<open>Properties\<close>

text \<open>
  C12. What \<open>VM_code_append_\<close> appends to a code vector, the disassembler's
  reader and the machine's fetch stage both read back, instruction by instruction: each gives the
  appended sequence, with the immediates sign-extended from their mode and the fields that have
  no byte in the encoding at zero. This holds for sequences of encodable instructions: not of size zero, and
  of two bytes only with an immediate of a valid mode or a register without the flag of an effective address. It fails for every
  other instruction: if it can be appended at all, neither reader reaches the end of its bytes.
\<close>

theorem program_reads_back:
  assumes "\<forall>i\<in>set prog. encodable i" and "VM_code_append hdr prog = Some code" and "length code < 2 ^ 31"
  shows "instr_codec.walk instruction_at code (length hdr) (length prog) = Some (map decoded prog) \<and>
    instr_codec.walk (fetch_at vm) code (length hdr) (length prog) = Some (map decoded prog) \<and>
    (\<forall>i c j n. \<not> encodable i \<and> VM_code_append hdr [i] = Some c \<and> length c < 2 ^ 31 \<and>
       (instruction_at c (length hdr) = Some (j, n) \<or> fetch_at vm c (length hdr) = Some (j, n)) \<longrightarrow> length hdr + n < length c)"
proof -
  have "drop (length hdr) code = concat (map instr_bytes prog) @ []"
    using assms(1,2) by (auto simp: VM_code_append_encodable)
  with disasm.walk_enc [OF assms(1,3)] fetch.walk_enc [OF assms(1,3)] show ?thesis
    using unencodable_listed unencodable_fetched by blast
qed

text \<open>A program for the instances: \<open>mov r1, -1\<close>, \<open>add r1, [r2 + 8]\<close>, \<open>jmp -9\<close>, \<open>halt\<close>.\<close>

definition demo_prog :: "Instruction list" where
  "demo_prog =
   [instr0\<lparr>osz := 3, opc := 24, ra := 1, rmd := amImm, imd := szQuad, ims := szByte, iu := -1\<rparr>,
    instr0\<lparr>osz := 3, opc := 25, ra := 1, imd := szQuad, ims := szByte, rb := 2, ibm := True, iea := True, iu := 8\<rparr>,
    instr0\<lparr>osz := 2, opc := 3, ra := 0, rmd := amImm, imd := szQuad, iu := -9\<rparr>,
    instr0\<lparr>osz := 1, opc := 0\<rparr>]"

lemma demo_prog_encodable: "\<forall>i\<in>set demo_prog. encodable i"
  by (simp add: demo_prog_def encodable_def instr0_def)

lemma demo_prog_size: "length (concat (map instr_bytes demo_prog)) = 12"
  by (simp add: demo_prog_def instr_bytes_def attr_bytes_def has_imm_def imm_mode_def instr0_def Mode_of_def)

theorem program_reads_back_witness:
  "instr_codec.walk instruction_at (the (VM_code_append [1, 2, 3] demo_prog)) 3 4 = Some (map decoded demo_prog)"
proof -
  have a: "VM_code_append [1, 2, 3] demo_prog = Some (the (VM_code_append [1, 2, 3] demo_prog))"
    by (simp add: VM_code_append_encodable demo_prog_encodable)
  have "length (the (VM_code_append [1, 2, 3] demo_prog)) < 2 ^ 31"
    using demo_prog_size by (simp add: VM_code_append_encodable demo_prog_encodable)
  note r = program_reads_back [OF demo_prog_encodable a this, where vm = "undefined :: unit VM", THEN conjunct1]
  have "length demo_prog = 4" "length [1, 2, 3 :: u8] = 3" by (simp_all add: demo_prog_def)
  then show ?thesis using r by (simp only:)
qed

text \<open>
  C10. Whatever bytes the code consists of: when the fetch stage delivers an
  instruction of nonzero size, the disassembler asked for the same offset shows the same
  instruction with the same fields, and steps over exactly the bytes the machine consumed. When the size is zero, the
  disassembler shows the operation code and steps over nothing, while the machine has consumed two bytes at least.
\<close>

theorem VM_fetch_disassembled:
  assumes "length (vcode vm) < 2 ^ 31" and "VM_fetch vm = Inr (i, iip, vm')"
  shows "if osz i \<noteq> 0
    then VM_code_instruction_at (vcode vm) instr0 (ucast (REG vm ip)) = Some (i, ucast (REG vm' ip - REG vm ip))
    else \<exists>j. VM_code_instruction_at (vcode vm) instr0 (ucast (REG vm ip)) = Some (j, 0) \<and> opc j = opc i \<and> 2 \<le> unat (REG vm' ip - REG vm ip)"
  using VM_fetch_instruction_at [OF assms] VM_fetch_empty [OF assms] by simp

definition idle_vm :: "Code \<Rightarrow> unit VM" where
  "idle_vm code = \<lparr>vflags = 0, regs = (\<lambda>_. 0), vcode = code,
     ram = \<lparr>mbase = 0x10000, cells = (\<lambda>_. 0), msb = 1024, mhb = 64, mhlm = 1016, msize = 2048\<rparr>,
     heap = the (VM_heap_init 4 16 8 1016 64 (\<lambda>_. \<lparr>bnext = None, bsize = 0, baddr = 0\<rparr>)), out = [], world = ()\<rparr>"

theorem VM_fetch_disassembled_witness:
  "VM_code_instruction_at (vcode (idle_vm [0x01])) instr0 0 = Some (instr0\<lparr>osz := 1, opc := 0\<rparr>, 1)"
proof -
  have f: "VM_fetch (idle_vm [0x01]) = Inr (instr0\<lparr>osz := 1, opc := 0\<rparr>, 0, set_reg ip 1 (idle_vm [0x01]))"
    by (simp add: VM_fetch_def code_len_def idle_vm_def code_byte_def Vector_at_def set_b1_def Let_def)
  from VM_fetch_disassembled [OF _ f] show ?thesis by (simp add: idle_vm_def)
qed

end
