(* ===== verification/Cyn_Stack.thy ===== *)
theory Cyn_Stack
  imports Cyn_Fetch
begin

unbundle bit_operations_syntax

text \<open>
  The stack of the machine as a sequence of 64-bit words, and the discipline of calls: what
  \<open>VM_push\<close>, \<open>VM_pop\<close>, \<open>call\<close> and \<open>ret\<close> do to the words of the memory.
\<close>

section \<open>Words of the memory\<close>

definition word_at :: "Memory \<Rightarrow> nat \<Rightarrow> u64" where
  "word_at m a = le_word (map (\<lambda>k. cells m (a + k)) [0..<8])"

definition put_word :: "Memory \<Rightarrow> nat \<Rightarrow> u64 \<Rightarrow> Memory" where
  "put_word m a v = m\<lparr>cells := (\<lambda>k. if a \<le> k \<and> k < a + 8 then le_bytes 8 v ! (k - a) else cells m k)\<rparr>"

lemma put_word_fields [simp]:
  "mbase (put_word m a v) = mbase m" "msb (put_word m a v) = msb m" "mhb (put_word m a v) = mhb m"
  "mhlm (put_word m a v) = mhlm m" "msize (put_word m a v) = msize m"
  by (simp_all add: put_word_def)

lemma word_at_put_same [simp]: "word_at (put_word m a v) a = v"
proof -
  have "map (\<lambda>k. cells (put_word m a v) (a + k)) [0..<8] = le_bytes 8 v"
    by (rule nth_equalityI) (simp_all add: put_word_def)
  then show ?thesis by (simp add: word_at_def)
qed

lemma word_at_put_other [simp]: "b + 8 \<le> a \<or> a + 8 \<le> b \<Longrightarrow> word_at (put_word m a v) b = word_at m b"
  unfolding word_at_def put_word_def
  by (intro arg_cong [of _ _ le_word] map_cong) auto

lemma word_at_cong: "(\<And>k. a \<le> k \<Longrightarrow> k < a + 8 \<Longrightarrow> cells m k = cells m' k) \<Longrightarrow> word_at m a = word_at m' a"
  unfolding word_at_def by (intro arg_cong [of _ _ le_word] map_cong) auto

lemma VM_read_quad: "length bs = 8 \<Longrightarrow> VM_read bs szQuad = le_word bs"
  by (simp add: VM_read_def)

lemma in_ram_int [simp]: "in_ram m (int a) n \<longleftrightarrow> a + n \<le> unat (msize m)"
  unfolding in_ram_def by (simp only: of_nat_le_iff flip: of_nat_add) simp

lemma read_loc_quad:
  "a + 8 \<le> unat (msize (ram vm)) \<Longrightarrow> read_loc vm (LMem (int a)) szQuad = Inr (word_at (ram vm) a)"
  by (simp add: load_bytes_def word_at_def VM_read_quad)

lemma write_loc_quad:
  "a + 8 \<le> unat (msize (ram vm)) \<Longrightarrow>
   write_loc vm (LMem (int a)) v szQuad = Inr (vm\<lparr>ram := put_word (ram vm) a v\<rparr>)"
  by (simp add: write_ram_def store_bytes_def put_word_def VM_write_def cong: if_cong)

lemma le_bytes_add: "le_bytes (a + b) w = le_bytes a w @ le_bytes b (drop_bit (8 * a) w)"
  by (induction a arbitrary: w) (simp_all add: add.commute)

lemma VM_read_reg: "VM_read (le_bytes 8 v) m = sext m v"
proof -
  have "le_bytes 8 v = VM_write v m @ le_bytes (8 - vmSizeTbl m) (drop_bit (8 * vmSizeTbl m) v)"
    using le_bytes_add [of "vmSizeTbl m" "8 - vmSizeTbl m" v] vmSizeTbl_bounds [of m]
    by (simp add: VM_write_def)
  then show ?thesis by (simp only: VM_read_write)
qed

section \<open>Pushing and popping\<close>

text \<open>A stack pointer inside the memory.\<close>

lemma MEM_sp:
  assumes "unat (w :: u64) \<le> unat (msize (ram vm))"
  shows "MEM vm (ucast w) = Inr (LMem (int (unat w)))"
proof -
  have "unat w < 2 ^ 32" using assms unsigned_less [where 'a = nat, of "msize (ram vm)"] by simp
  then have "unat (ucast w :: u32) = unat w" by (simp add: unsigned_ucast_eq take_bit_nat_eq_self)
  then show ?thesis using assms by (simp add: MEM_def word_less_nat_alt)
qed

lemma unat_minus: "unat (b :: u64) \<le> unat a \<Longrightarrow> unat (a - b) = unat a - unat b"
  by (simp add: unat_sub word_le_nat_alt)

lemma unat_plus_64: "unat (a :: u64) + unat b < 2 ^ 64 \<Longrightarrow> unat (a + b) = unat a + unat b"
  by (simp add: unat_word_ariths)

lemma unat_u32_less: "unat (w :: u32) < 2 ^ 32"
  using unsigned_less [where 'a = nat, of w] by simp

lemma ucast_u32: "unat (ucast (w :: u32) :: u64) = unat w"
  using unat_u32_less [of w] by (simp add: unsigned_ucast_eq take_bit_nat_eq_self)

lemma VM_push_eq:
  assumes "unat (REG vm sp) \<le> unat (msize (ram vm))" and "unat (msb (ram vm)) + 8 < unat (REG vm sp)"
  shows "VM_push vm v = Inr ((set_reg sp (REG vm sp - 8) vm)\<lparr>ram := put_word (ram vm) (unat (REG vm sp) - 8) v\<rparr>)"
proof -
  let ?vm = "set_reg sp (REG vm sp - 8) vm"
  have s: "unat (REG vm sp - 8) = unat (REG vm sp) - 8"
    using assms(2) by (subst unat_minus) auto
  have ov: "\<not> REG vm sp - 8 \<le> ucast (msb (ram vm))"
    using assms(2) by (simp add: word_le_nat_alt s ucast_u32)
  have "MEM ?vm (ucast (REG vm sp - 8)) = Inr (LMem (int (unat (REG vm sp) - 8)))"
    using MEM_sp [of "REG vm sp - 8" ?vm] s assms(1) by simp
  then have "VM_pushn vm NoData 1 = Inr (LMem (int (unat (REG vm sp) - 8)), ?vm)"
    using ov by (simp add: VM_pushn_def Let_def)
  moreover have "write_loc ?vm (LMem (int (unat (REG vm sp) - 8))) v szQuad =
      Inr (?vm\<lparr>ram := put_word (ram vm) (unat (REG vm sp) - 8) v\<rparr>)"
    using assms by (subst write_loc_quad) auto
  ultimately show ?thesis by (simp add: VM_push_def del: write_loc.simps)
qed

lemma VM_push_overflow:
  assumes "unat (REG vm sp) \<le> unat (msb (ram vm)) + 8" and "8 \<le> unat (REG vm sp)"
  shows "VM_push vm v = Inl (Abort StackOverflow)"
proof -
  have "unat (REG vm sp - 8) = unat (REG vm sp) - 8"
    using assms(2) by (subst unat_minus) auto
  then have "REG vm sp - 8 \<le> ucast (msb (ram vm))"
    using assms by (simp add: word_le_nat_alt ucast_u32)
  then show ?thesis by (simp add: VM_push_def VM_pushn_def Let_def)
qed

lemma VM_popn_eq:
  assumes "unat (REG vm sp) + 8 * unat n \<le> unat (msize (ram vm))"
  shows "VM_popn vm n = Inr (LMem (int (unat (REG vm sp))), set_reg sp (REG vm sp + of_nat (8 * unat n)) vm)"
proof -
  have n: "unat n < 256" using unsigned_less [where 'a = nat, of n] by simp
  have sz: "unat (push_bit 3 (ucast n) :: u32) = 8 * unat n"
  proof -
    have "unat (ucast n :: u32) = unat n" using n by (simp add: unsigned_ucast_eq take_bit_nat_eq_self)
    then show ?thesis using n
      by (simp add: push_bit_eq_mult unat_word_ariths)
  qed
  then have sz': "(ucast (push_bit 3 (ucast n) :: u32) :: u64) = of_nat (8 * unat n)"
    by (metis ucast_u32 word_of_nat_eq_iff word_unat_eq_iff unat_of_nat_u64 of_nat_unat)
  have u: "unat (of_nat (8 * unat n) :: u64) = 8 * unat n"
    using n by (intro unat_of_nat_u64) simp
  have "unat (REG vm sp + of_nat (8 * unat n)) = unat (REG vm sp) + 8 * unat n"
    using assms unat_u32_less [of "msize (ram vm)"] by (subst unat_plus_64) (simp_all only: u, simp)
  then have "\<not> REG vm sp + of_nat (8 * unat n) > ucast (msize (ram vm))"
    using assms by (simp add: word_less_nat_alt ucast_u32)
  moreover have "MEM vm (ucast (REG vm sp)) = Inr (LMem (int (unat (REG vm sp))))"
    using assms by (intro MEM_sp) simp
  ultimately show ?thesis by (simp only: VM_popn_def Let_def sz' if_False bnd_Inr)
qed

lemma VM_pop_eq:
  assumes "unat (REG vm sp) + 8 \<le> unat (msize (ram vm))"
  shows "VM_pop vm = Inr (word_at (ram vm) (unat (REG vm sp)), set_reg sp (REG vm sp + 8) vm)"
proof -
  have "VM_popn vm 1 = Inr (LMem (int (unat (REG vm sp))), set_reg sp (REG vm sp + 8) vm)"
    using VM_popn_eq [of vm 1] assms by simp
  then show ?thesis
    using assms read_loc_quad [of "unat (REG vm sp)" "set_reg sp (REG vm sp + 8) vm"]
    by (simp add: VM_pop_def del: read_loc.simps)
qed

lemma VM_pop_underflow:
  assumes "unat (REG vm sp) \<le> unat (msize (ram vm))" and "unat (msize (ram vm)) < unat (REG vm sp) + 8"
  shows "VM_pop vm = Inl (Abort StackUnderflow)"
proof -
  have "unat (REG vm sp + 8) = unat (REG vm sp) + 8"
    using assms(1) unat_u32_less [of "msize (ram vm)"] by (subst unat_plus_64) auto
  then have "REG vm sp + 8 > ucast (msize (ram vm))"
    using assms by (simp add: word_less_nat_alt ucast_u32)
  then show ?thesis by (simp add: VM_pop_def VM_popn_def Let_def)
qed

section \<open>Copying\<close>

definition copy_bytes :: "Memory \<Rightarrow> nat \<Rightarrow> nat \<Rightarrow> nat \<Rightarrow> Memory" where
  "copy_bytes m d s n =
     m\<lparr>cells := (\<lambda>k. if d \<le> k \<and> k < d + n then cells m (s + (k - d)) else cells m k)\<rparr>"

lemma copy_bytes_fields [simp]:
  "mbase (copy_bytes m d s n) = mbase m" "msb (copy_bytes m d s n) = msb m"
  "mhb (copy_bytes m d s n) = mhb m" "mhlm (copy_bytes m d s n) = mhlm m"
  "msize (copy_bytes m d s n) = msize m"
  by (simp_all add: copy_bytes_def)

lemma word_at_copy: "8 * j + 8 \<le> n \<Longrightarrow> word_at (copy_bytes m d s n) (d + 8 * j) = word_at m (s + 8 * j)"
  unfolding word_at_def copy_bytes_def
  by (intro arg_cong [of _ _ le_word] map_cong) (auto simp: add.assoc)

lemma word_at_copy_other: "a + 8 \<le> d \<or> d + n \<le> a \<Longrightarrow> word_at (copy_bytes m d s n) a = word_at m a"
  by (rule word_at_cong) (auto simp: copy_bytes_def)

lemma memcpy_eq:
  assumes "d + n \<le> unat (msize (ram vm))" "s + n \<le> unat (msize (ram vm))" "s + n \<le> d \<or> d + n \<le> s"
  shows "memcpy vm (LMem (int d)) (At (LMem (int s))) n = Inr (vm\<lparr>ram := copy_bytes (ram vm) d s n\<rparr>)"
proof -
  have "\<not> (0 < n \<and> int d < int s + int n \<and> int s < int d + int n)"
    using assms(3) by auto
  moreover have "(\<lambda>k. if d \<le> k \<and> k < d + n then map (\<lambda>k. cells (ram vm) (s + k)) [0..<n] ! (k - d) else cells (ram vm) k) =
      (\<lambda>k. if d \<le> k \<and> k < d + n then cells (ram vm) (s + (k - d)) else cells (ram vm) k)"
    by (intro ext if_cong refl) auto
  ultimately show ?thesis
    using assms(1,2)
    by (simp add: load_bytes_def write_ram_def store_bytes_def copy_bytes_def del: nth_map cong: if_cong)
qed

lemma unat_size_u32: "unat (push_bit 3 (ucast (n :: u8)) :: u32) = 8 * unat n"
proof -
  have n: "unat n < 256" using unsigned_less [where 'a = nat, of n] by simp
  then have "unat (ucast n :: u32) = unat n" by (simp add: unsigned_ucast_eq take_bit_nat_eq_self)
  then show ?thesis using n by (simp add: push_bit_eq_mult unat_word_ariths)
qed

lemma VM_pushn_copy:
  assumes sp: "unat (REG vm sp) \<le> unat (msize (ram vm))" "unat (msb (ram vm)) + 8 * unat n < unat (REG vm sp)"
    and s: "s + 8 * unat n \<le> unat (msize (ram vm))"
    and dis: "s + 8 * unat n \<le> unat (REG vm sp) - 8 * unat n \<or> unat (REG vm sp) \<le> s"
  defines "d \<equiv> unat (REG vm sp) - 8 * unat n"
  shows "VM_pushn vm (At (LMem (int s))) n =
    Inr (LMem (int d), (set_reg sp (REG vm sp - of_nat (8 * unat n)) vm)\<lparr>ram := copy_bytes (ram vm) d s (8 * unat n)\<rparr>)"
proof -
  let ?w = "REG vm sp - of_nat (8 * unat n)"
  have n: "unat n < 256" using unsigned_less [where 'a = nat, of n] by simp
  have sz: "(ucast (push_bit 3 (ucast n) :: u32) :: u64) = of_nat (8 * unat n)"
    by (metis ucast_u32 unat_size_u32 word_unat_eq_iff unat_of_nat_u64 of_nat_unat)
  have u: "unat (of_nat (8 * unat n) :: u64) = 8 * unat n"
    using n by (intro unat_of_nat_u64) simp
  have "unat (of_nat (8 * unat n) :: u64) \<le> unat (REG vm sp)" using sp(2) u by linarith
  from unat_minus [OF this] have w: "unat ?w = d" by (simp only: u d_def)
  have ov: "\<not> ?w \<le> ucast (msb (ram vm))"
    unfolding word_le_nat_alt w ucast_u32 d_def using sp(2) by linarith
  have mem: "MEM v (ucast ?w) = Inr (LMem (int d))" if "msize (ram v) = msize (ram vm)" for v :: "'a VM"
  proof -
    have "unat ?w \<le> unat (msize (ram v))" unfolding w that d_def using sp(1) by simp
    from MEM_sp [OF this] show ?thesis by (simp only: w)
  qed
  have "memcpy (set_reg sp ?w vm) (LMem (int d)) (At (LMem (int s))) (8 * unat n) =
      Inr ((set_reg sp ?w vm)\<lparr>ram := copy_bytes (ram vm) d s (8 * unat n)\<rparr>)"
    using sp s dis by (subst memcpy_eq) (auto simp: d_def)
  then show ?thesis
    using ov by (simp add: VM_pushn_def Let_def sz unat_size_u32 mem del: memcpy.simps of_nat_mult of_nat_numeral)
qed

section \<open>Leaving a frame\<close>

definition frame_regs :: "u64 \<Rightarrow> u64 \<Rightarrow> u64 \<Rightarrow> 'w VM \<Rightarrow> 'w VM" where
  "frame_regs s b i vm = set_reg sp s (set_reg ip i (set_reg bp b vm))"

lemma leave_frame_eq:
  assumes c: "word_at (ram vm) (unat (REG vm bp) + 16) = of_nat c" "c < 256"
    and room: "unat (REG vm bp) + 24 + 8 * c \<le> unat (msize (ram vm))"
  shows "leave_frame vm = Inr (frame_regs (REG vm bp + of_nat (24 + 8 * c))
    (word_at (ram vm) (unat (REG vm bp))) (word_at (ram vm) (unat (REG vm bp) + 8)) vm)"
proof -
  let ?b = "REG vm bp"
  have lt: "unat ?b + 24 + 8 * c < 2 ^ 32" using room unat_u32_less [of "msize (ram vm)"] by simp
  have u: "unat (8 + ?b) = unat ?b + 8" "unat (16 + ?b) = unat ?b + 16" "unat (24 + ?b) = unat ?b + 24"
    using lt by (subst unat_plus_64; simp)+
  have p1: "VM_pop (set_reg sp ?b vm) = Inr (word_at (ram vm) (unat ?b), set_reg sp (8 + ?b) vm)"
    using VM_pop_eq [of "set_reg sp ?b vm"] room by (simp add: add.commute)
  let ?v1 = "set_reg bp (word_at (ram vm) (unat ?b)) (set_reg sp (8 + ?b) vm)"
  have p2: "VM_pop ?v1 = Inr (word_at (ram vm) (unat ?b + 8), set_reg sp (16 + ?b) ?v1)"
    using VM_pop_eq [of ?v1] room by (simp add: u)
  let ?v2 = "set_reg ip (word_at (ram vm) (unat ?b + 8)) (set_reg sp (16 + ?b) ?v1)"
  have p3: "VM_pop ?v2 = Inr (of_nat c, set_reg sp (24 + ?b) ?v2)"
    using VM_pop_eq [of ?v2] room by (simp add: u c)
  let ?v3 = "set_reg sp (24 + ?b) ?v2"
  have uc: "unat (ucast (of_nat c :: u64) :: u32) = c" "unat (ucast (ucast (of_nat c :: u64) :: u32) :: u8) = c"
    using c(2) by (simp_all add: ucast_of_nat_u64 unsigned_ucast_eq unat_of_nat take_bit_nat_eq_self)
  have p4: "VM_popn ?v3 (ucast (ucast (of_nat c :: u64) :: u32)) =
      Inr (LMem (int (unat (24 + ?b))), set_reg sp (24 + ?b + of_nat (8 * c)) ?v3)"
    using VM_popn_eq [of ?v3 "ucast (ucast (of_nat c :: u64) :: u32)"] room by (simp add: uc u)
  have z: "(ucast (of_nat c :: u64) :: u32) = 0 \<longleftrightarrow> c = 0" using uc(1) by (metis unat_eq_0)
  have regs: "set_reg sp x (set_reg sp y v) = set_reg sp x v" for x y and v :: "'a VM" by simp
  have fr: "set_reg sp (24 + ?b + of_nat (8 * c)) ?v2 = frame_regs (?b + of_nat (24 + 8 * c))
    (word_at (ram vm) (unat ?b)) (word_at (ram vm) (unat ?b + 8)) vm"
    by (simp add: frame_regs_def set_reg_def fun_upd_twist ac_simps)
  show ?thesis
  proof (cases "c = 0")
    case True
    then show ?thesis
      using fr by (simp add: leave_frame_def Let_def p1 p2 p3 z)
  next
    case False
    then show ?thesis
      using fr by (simp add: leave_frame_def Let_def p1 p2 p3 p4 z add.assoc)
  qed
qed

section \<open>Calling and returning\<close>

lemma exec_call_eq:
  assumes sp: "unat (REG vm sp) \<le> unat (msize (ram vm))" "unat (msb (ram vm)) + 16 < unat (REG vm sp)"
  defines "s \<equiv> unat (REG vm sp)"
  shows "exec_call i iip (LImm d) vm = Inr ((set_reg ip (iip + sext (TB i) d)
      (set_reg bp (REG vm sp - 16) (set_reg sp (REG vm sp - 16) vm)))
      \<lparr>ram := put_word (put_word (ram vm) (s - 8) (REG vm ip)) (s - 16) (REG vm bp)\<rparr>)"
proof -
  let ?v1 = "(set_reg sp (REG vm sp - 8) vm)\<lparr>ram := put_word (ram vm) (s - 8) (REG vm ip)\<rparr>"
  have s8: "unat (REG vm sp - 8) = s - 8" using sp(2) unfolding s_def by (subst unat_minus) auto
  have p1: "VM_push vm (REG vm ip) = Inr ?v1" unfolding s_def using sp by (subst VM_push_eq) auto
  have "VM_push ?v1 (REG vm bp) = Inr ((set_reg sp (REG vm sp - 8 - 8) ?v1)
      \<lparr>ram := put_word (put_word (ram vm) (s - 8) (REG vm ip)) (s - 8 - 8) (REG vm bp)\<rparr>)"
    using sp s8 by (subst VM_push_eq) (auto simp: s_def)
  moreover have "REG vm sp - 8 - 8 = REG vm sp - 16" by simp
  moreover have "s - 8 - 8 = s - 16" by simp
  ultimately have p2: "VM_push ?v1 (REG vm bp) = Inr ((set_reg sp (REG vm sp - 16) ?v1)
      \<lparr>ram := put_word (put_word (ram vm) (s - 8) (REG vm ip)) (s - 16) (REG vm bp)\<rparr>)"
    by (simp only:)
  have "exec_call i iip (LImm d) vm = bnd (VM_push vm (REG vm ip)) (\<lambda>vm. bnd (VM_push vm (REG vm bp)) (\<lambda>vm.
      Inr (set_reg ip (iip + sext (TB i) d) (set_reg bp (REG vm sp) vm))))"
    by (simp add: exec_call_def Let_def VM_read_reg)
  also have "\<dots> = Inr (set_reg ip (iip + sext (TB i) d) (set_reg bp (REG vm sp - 16) ((set_reg sp (REG vm sp - 16) ?v1)
      \<lparr>ram := put_word (put_word (ram vm) (s - 8) (REG vm ip)) (s - 16) (REG vm bp)\<rparr>)))"
    by (simp add: p1 p2)
  finally show ?thesis by (simp add: set_reg_def)
qed

lemma exec_ret_eq:
  assumes rd: "read_loc vm rA (TB i) = Inr (of_nat n)" and n: "n < 256"
    and c: "word_at (ram vm) (unat (REG vm bp) + 16) = of_nat c" "c < 256" "n \<le> c + 3"
    and room: "unat (REG vm bp) + 24 + 8 * c \<le> unat (msize (ram vm))"
    and res: "unat (REG vm sp) + 8 * n \<le> unat (REG vm bp)" and sb: "unat (msb (ram vm)) < unat (REG vm sp)"
  defines "d \<equiv> unat (REG vm bp) + 24 + 8 * c - 8 * n"
  shows "\<exists>vm'. exec_ret i rA vm = Inr vm' \<and> REG vm' bp = word_at (ram vm) (unat (REG vm bp)) \<and>
    REG vm' ip = word_at (ram vm) (unat (REG vm bp) + 8) \<and> unat (REG vm' sp) = d - 8 \<and>
    word_at (ram vm') (d - 8) = of_nat n \<and>
    (\<forall>j<n. word_at (ram vm') (d + 8 * j) = word_at (ram vm) (unat (REG vm sp) + 8 * j))"
proof -
  let ?b = "REG vm bp" and ?s = "unat (REG vm sp)"
  have lt: "unat ?b + 24 + 8 * c < 2 ^ 32" using room unat_u32_less [of "msize (ram vm)"] by simp
  define nret :: u32 where "nret = ucast (of_nat n :: u64)"
  have un: "unat nret = n" "unat (ucast nret :: u8) = n" "unat (ucast nret :: u64) = n" "(ucast nret :: u64) = of_nat n"
    using n by (simp_all add: nret_def ucast_of_nat_u64 unsigned_ucast_eq unat_of_nat take_bit_nat_eq_self
        word_unat_eq_iff)
  have z: "nret = 0 \<longleftrightarrow> n = 0" using un(1) by (metis unat_eq_0)
  define vm1 where "vm1 = (if n = 0 then vm else set_reg sp (REG vm sp + of_nat (8 * n)) vm)"
  have pop: "bnd (if nret \<noteq> 0 then VM_popn vm (ucast nret) else Inr (LNull, vm)) f =
      f (if n = 0 then LNull else LMem (int ?s), vm1)" for f :: "loc \<times> 'a VM \<Rightarrow> fault + 'a VM"
    using VM_popn_eq [of vm "ucast nret"] res room by (simp add: z un vm1_def)
  have "exec_ret i rA vm = bnd (if nret \<noteq> 0 then VM_popn vm (ucast nret) else Inr (LNull, vm))
      (\<lambda>(ret, vm). VM_returnx vm (At ret) nret)"
    by (simp add: exec_ret_def rd Let_def nret_def)
  then have ret: "exec_ret i rA vm = VM_returnx vm1 (At (if n = 0 then LNull else LMem (int ?s))) nret"
    by (simp only: pop prod.case)
  let ?top = "?b + of_nat (24 + 8 * c)"
  let ?vm2 = "frame_regs ?top (word_at (ram vm) (unat ?b)) (word_at (ram vm) (unat ?b + 8)) vm"
  have "leave_frame vm1 = Inr (frame_regs ?top (word_at (ram vm) (unat ?b)) (word_at (ram vm) (unat ?b + 8)) vm1)"
    using leave_frame_eq [of vm1 c] c room by (simp add: vm1_def)
  moreover have "frame_regs t x y vm1 = frame_regs t x y vm" for t x y
    by (simp add: vm1_def frame_regs_def set_reg_def fun_upd_twist)
  ultimately have lf: "leave_frame vm1 = Inr ?vm2" by simp
  have "unat (of_nat (24 + 8 * c) :: u64) = 24 + 8 * c" using c(2) by (intro unat_of_nat_u64) simp
  then have top: "unat ?top = unat ?b + 24 + 8 * c"
    using lt unat_plus_64 [of ?b "of_nat (24 + 8 * c)"] by (simp del: of_nat_add of_nat_mult)
  have top_d: "unat ?top = d + 8 * n" unfolding top d_def using c(3) res by linarith
  have r2: "REG ?vm2 sp = ?top" "ram ?vm2 = ram vm" "REG ?vm2 bp = word_at (ram vm) (unat ?b)"
    "REG ?vm2 ip = word_at (ram vm) (unat ?b + 8)"
    by (simp_all add: frame_regs_def)
  define vm3 where "vm3 = (if n = 0 then ?vm2 else
     (set_reg sp (?top - of_nat (8 * n)) ?vm2)\<lparr>ram := copy_bytes (ram vm) d ?s (8 * n)\<rparr>)"
  have d: "?s < d" "d + 8 * n \<le> unat (msize (ram vm))" "?s + 8 * n \<le> d"
    using c(3) res room unfolding d_def by auto
  have push: "bnd (if nret \<noteq> 0 then bnd (VM_pushn ?vm2 (At (if n = 0 then LNull else LMem (int ?s))) (ucast nret))
      (\<lambda>(_, vm). Inr vm) else Inr ?vm2) f = f vm3" for f :: "'a VM \<Rightarrow> fault + 'a VM"
    using VM_pushn_copy [of ?vm2 "ucast nret" ?s] d sb
    by (simp add: z un vm3_def r2(1,2) top_d del: of_nat_mult of_nat_add)
  have s3: "unat (REG vm3 sp) = d"
  proof (cases "n = 0")
    case False
    have "unat (of_nat (8 * n) :: u64) = 8 * n" using n by (intro unat_of_nat_u64) simp
    then show ?thesis using False unat_minus [of "of_nat (8 * n)" ?top] top_d
      by (simp add: vm3_def del: of_nat_mult of_nat_add)
  qed (use top_d in \<open>simp add: vm3_def frame_regs_def\<close>)
  have m3: "msize (ram vm3) = msize (ram vm)" "msb (ram vm3) = msb (ram vm)"
    "REG vm3 bp = word_at (ram vm) (unat ?b)" "REG vm3 ip = word_at (ram vm) (unat ?b + 8)"
    by (simp_all add: vm3_def frame_regs_def)
  let ?vm4 = "(set_reg sp (REG vm3 sp - 8) vm3)\<lparr>ram := put_word (ram vm3) (d - 8) (of_nat n)\<rparr>"
  have "unat (msb (ram vm)) + 8 < d"
    using sb res c(3) unfolding d_def by (cases "n = 0") auto
  then have "VM_push vm3 (of_nat n) = Inr ?vm4"
    using VM_push_eq [of vm3 "of_nat n"] d(2) by (simp add: s3 m3)
  then have "exec_ret i rA vm = Inr ?vm4"
    by (simp only: ret VM_returnx_def lf bnd_Inr push un(4))
  moreover have "unat (REG vm3 sp - 8) = d - 8"
    using d(1) s3 \<open>unat (msb (ram vm)) + 8 < d\<close> by (subst unat_minus) auto
  moreover have "word_at (ram vm3) (d + 8 * j) = word_at (ram vm) (?s + 8 * j)" if "j < n" for j
    using that word_at_copy [of j "8 * n"] by (simp add: vm3_def frame_regs_def)
  ultimately show ?thesis
    using m3 \<open>unat (msb (ram vm)) + 8 < d\<close> by (intro exI [of _ ?vm4]) simp
qed

section \<open>Properties\<close>

text \<open>
  C17. With a stack pointer inside the memory and more than eight bytes above the stack
  boundary, \<open>VM_push\<close> succeeds and stores the word just below; \<open>VM_pop\<close> then returns it and
  restores every register, and every word outside the pushed one is as before. At eight bytes or
  less above the boundary the push aborts with a stack overflow, and a pop with less than eight
  bytes left aborts with an underflow.
\<close>

theorem VM_push_pop:
  fixes vm :: "'w VM"
  defines "s \<equiv> unat (REG vm sp)" and "sz \<equiv> unat (msize (ram vm))" and "sb \<equiv> unat (msb (ram vm))"
  assumes "s \<le> sz" and "8 \<le> s"
  shows "(sb + 8 < s \<longrightarrow> (\<exists>vm1 vm2. VM_push vm v = Inr vm1 \<and> unat (REG vm1 sp) = s - 8 \<and>
        VM_pop vm1 = Inr (v, vm2) \<and> regs vm2 = regs vm \<and>
        (\<forall>a. a + 8 \<le> s - 8 \<or> s \<le> a \<longrightarrow> word_at (ram vm2) a = word_at (ram vm) a))) \<and>
    (s \<le> sb + 8 \<longrightarrow> VM_push vm v = Inl (Abort StackOverflow)) \<and>
    (sz < s + 8 \<longrightarrow> VM_pop vm = Inl (Abort StackUnderflow))"
proof (intro conjI impI)
  assume ok: "sb + 8 < s"
  let ?vm1 = "(set_reg sp (REG vm sp - 8) vm)\<lparr>ram := put_word (ram vm) (s - 8) v\<rparr>"
  have push: "VM_push vm v = Inr ?vm1"
    using VM_push_eq [of vm v] assms ok by (simp add: s_def sz_def sb_def)
  have s1: "unat (REG ?vm1 sp) = s - 8"
    using unat_minus [of 8 "REG vm sp"] assms(5) by (simp add: s_def)
  have "VM_pop ?vm1 = Inr (v, set_reg sp (REG vm sp) ?vm1)"
    using VM_pop_eq [of ?vm1] s1 assms(4,5) by (simp add: s_def sz_def)
  moreover have "regs (set_reg sp (REG vm sp) ?vm1) = regs vm" by (simp add: set_reg_def)
  ultimately show "\<exists>vm1 vm2. VM_push vm v = Inr vm1 \<and> unat (REG vm1 sp) = s - 8 \<and>
        VM_pop vm1 = Inr (v, vm2) \<and> regs vm2 = regs vm \<and>
        (\<forall>a. a + 8 \<le> s - 8 \<or> s \<le> a \<longrightarrow> word_at (ram vm2) a = word_at (ram vm) a)"
    using push s1 assms(5)
    by (intro exI [of _ ?vm1] exI [of _ "set_reg sp (REG vm sp) ?vm1"] conjI) auto
next
  assume "s \<le> sb + 8"
  then show "VM_push vm v = Inl (Abort StackOverflow)"
    using VM_push_overflow [of vm v] assms(5) by (simp add: s_def sb_def)
next
  assume "sz < s + 8"
  then show "VM_pop vm = Inl (Abort StackUnderflow)"
    using VM_pop_underflow [of vm] assms(4) by (simp add: s_def sz_def)
qed

definition stack_vm :: "unit VM" where
  "stack_vm = set_reg ip 77 (set_reg bp 2048 (set_reg sp 2000 (idle_vm [])))"

lemma stack_vm_fields: "REG stack_vm sp = 2000" "REG stack_vm bp = 2048" "REG stack_vm ip = 77"
  "msize (ram stack_vm) = 2048" "msb (ram stack_vm) = 1024" "cells (ram stack_vm) = (\<lambda>_. 0)"
  by (simp_all add: stack_vm_def idle_vm_def)

theorem VM_push_pop_witness:
  "\<exists>vm1 vm2. VM_push stack_vm 5 = Inr vm1 \<and> VM_pop vm1 = Inr (5, vm2) \<and> regs vm2 = regs stack_vm"
  using VM_push_pop [of stack_vm 5] by (auto simp: stack_vm_fields)

text \<open>
  C2. The calling convention is kept. Let \<open>vm\<close> be about to execute \<open>call\<close> with the argument
  count \<open>c\<close> on top of the stack and \<open>c\<close> argument words above it. The call succeeds and jumps by its
  offset. Whatever the called code then does, as long as it comes to a \<open>ret\<close> of \<open>n \<le> c + 3\<close> results
  (no more than the words that are given up, the arguments and the frame; of more results the copy would overlap its
  source), \<open>c\<close> and \<open>n\<close> below 256, with the base pointer and the three words of the frame as the call left them and its results
  below the frame, the \<open>ret\<close> succeeds: execution continues behind the call, the caller's base
  pointer is back, the arguments and their count are gone, and in their place are the \<open>n\<close> results
  in order with their number on top.
\<close>

theorem call_ret:
  fixes vm vm2 :: "'w VM"
  defines "s \<equiv> unat (REG vm sp)"
  assumes sp: "s + 8 + 8 * c \<le> unat (msize (ram vm))" "unat (msb (ram vm)) + 16 < s"
    and c: "word_at (ram vm) s = of_nat c" "c < 256"
    and call: "exec_call i iip (LImm d) vm = Inr vm1"
    and frame: "REG vm2 bp = REG vm1 bp" "msize (ram vm2) = msize (ram vm)" "msb (ram vm2) = msb (ram vm)"
      "\<forall>a\<in>{s - 16, s - 8, s}. word_at (ram vm2) a = word_at (ram vm1) a"
    and res: "read_loc vm2 rA (TB j) = Inr (of_nat n)" "n \<le> c + 3" "n < 256"
      "unat (msb (ram vm)) < unat (REG vm2 sp)" "unat (REG vm2 sp) + 8 * n \<le> s - 16"
  shows "REG vm1 ip = iip + sext (TB i) d \<and>
    (\<exists>vm3. exec_ret j rA vm2 = Inr vm3 \<and> REG vm3 ip = REG vm ip \<and> REG vm3 bp = REG vm bp \<and>
      unat (REG vm3 sp) = s + 8 * c - 8 * n \<and> word_at (ram vm3) (s + 8 * c - 8 * n) = of_nat n \<and>
      (\<forall>k<n. word_at (ram vm3) (s + 8 * c - 8 * n + 8 + 8 * k) = word_at (ram vm2) (unat (REG vm2 sp) + 8 * k)))"
proof -
  have vm1: "vm1 = (set_reg ip (iip + sext (TB i) d) (set_reg bp (REG vm sp - 16) (set_reg sp (REG vm sp - 16) vm)))
      \<lparr>ram := put_word (put_word (ram vm) (s - 8) (REG vm ip)) (s - 16) (REG vm bp)\<rparr>"
    using exec_call_eq [of vm i iip d] call sp by (simp add: s_def)
  have b: "unat (REG vm2 bp) = s - 16"
    using unat_minus [of 16 "REG vm sp"] sp(2) frame(1) by (simp add: vm1 s_def)
  have w: "word_at (ram vm2) (s - 16) = REG vm bp" "word_at (ram vm2) (s - 8) = REG vm ip"
    "word_at (ram vm2) s = of_nat c"
    using frame(4) sp c by (simp_all add: vm1)
  have bs: "unat (REG vm2 bp) + 16 = s" "unat (REG vm2 bp) + 8 = s - 8"
    "unat (REG vm2 bp) + 24 + 8 * c = s + 8 + 8 * c"
    "unat (REG vm2 bp) + 24 + 8 * c - 8 * n - 8 = s + 8 * c - 8 * n"
    "unat (REG vm2 bp) + 24 + 8 * c - 8 * n = s + 8 * c - 8 * n + 8"
    using b sp res(2,5) by auto
  have wb: "word_at (ram vm2) (unat (REG vm2 bp)) = REG vm bp" using b w by simp
  have "\<exists>vm3. exec_ret j rA vm2 = Inr vm3 \<and> REG vm3 bp = word_at (ram vm2) (unat (REG vm2 bp)) \<and>
    REG vm3 ip = word_at (ram vm2) (unat (REG vm2 bp) + 8) \<and>
    unat (REG vm3 sp) = unat (REG vm2 bp) + 24 + 8 * c - 8 * n - 8 \<and>
    word_at (ram vm3) (unat (REG vm2 bp) + 24 + 8 * c - 8 * n - 8) = of_nat n \<and>
    (\<forall>k<n. word_at (ram vm3) (unat (REG vm2 bp) + 24 + 8 * c - 8 * n + 8 * k) = word_at (ram vm2) (unat (REG vm2 sp) + 8 * k))"
    by (rule exec_ret_eq [OF res(1,3)]) (use bs b w c sp res frame in simp_all)
  then show ?thesis unfolding bs(2,4,5) wb w add_diff_cancel_right'
    by (intro conjI) (simp add: vm1, blast)
qed

definition call_vm :: "unit VM" where
  "call_vm = stack_vm\<lparr>ram := put_word (ram stack_vm) 2000 2\<rparr>"

definition called_vm :: "unit VM" where
  "called_vm = (set_reg ip 137 (set_reg bp 1984 (set_reg sp 1984 call_vm)))
      \<lparr>ram := put_word (put_word (ram call_vm) 1992 77) 1984 2048\<rparr>"

theorem call_ret_witness:
  "\<exists>vm3. exec_ret instr0 (LImm 1) (set_reg sp 1976 called_vm) = Inr vm3 \<and> REG vm3 ip = 77 \<and>
    REG vm3 bp = 2048 \<and> unat (REG vm3 sp) = 2008"
proof -
  have f: "REG call_vm sp = 2000" "REG call_vm bp = 2048" "REG call_vm ip = 77" "msize (ram call_vm) = 2048"
    "msb (ram call_vm) = 1024" "word_at (ram call_vm) 2000 = 2"
    by (simp_all add: call_vm_def stack_vm_fields)
  have call: "exec_call (instr0\<lparr>osz := 2, rmd := amImm, ims := szWord\<rparr>) 100 (LImm 37) call_vm = Inr called_vm"
    using exec_call_eq [of call_vm "instr0\<lparr>osz := 2, rmd := amImm, ims := szWord\<rparr>" 100 37]
    by (simp add: f called_vm_def TB_def reg_form_def)
  have rd: "read_loc (set_reg sp 1976 called_vm) (LImm 1) (TB instr0) = Inr (of_nat 1)"
    by (simp add: TB_def reg_form_def instr0_def VM_read_reg)
  have "unat (REG call_vm sp) = 2000" by (simp add: f)
  from call_ret [of call_vm 2 "instr0\<lparr>osz := 2, rmd := amImm, ims := szWord\<rparr>" 100 37 called_vm
      "set_reg sp 1976 called_vm", OF _ _ _ _ call _ _ _ _ rd] show ?thesis
    by (auto simp: f called_vm_def)
qed

end
