(* ===== verification/Cyn_Exec.thy ===== *)
theory Cyn_Exec
  imports Cyn_Stack
begin

unbundle bit_operations_syntax

text \<open>
  The descriptors of the heap during an execution: of the instructions only \<open>alloc\<close> and \<open>dlloc\<close> touch them, and leave them
  well formed, so no heap operation of a running program fails to return, as long as no native call writes over the
  descriptors. Executions are the reflexive transitive steps of the loop of \<open>VM_run\<close>.
\<close>

section \<open>Instructions that leave the descriptors alone\<close>

definition keeps :: "'w VM \<Rightarrow> 'w VM \<Rightarrow> bool" where
  "keeps vm vm' \<longleftrightarrow> heap vm' = heap vm"

text \<open>
  An operating system whose calls leave the descriptors as they are: it writes only where it is told to, and the programs pass
  it no pointers into the descriptors.
\<close>

definition spares_descriptors :: "'w syscalls \<Rightarrow> bool" where
  "spares_descriptors sys \<longleftrightarrow> (\<forall>name vs vm. heap (snd (sys name vs vm)) = heap vm)"

lemma keeps_refl [simp]: "keeps vm vm"
  by (simp add: keeps_def)

lemma keeps_trans: "keeps a b \<Longrightarrow> keeps b c \<Longrightarrow> keeps a c"
  by (simp add: keeps_def)

lemma keeps_set_reg [simp]:
  "keeps (set_reg r v a) b \<longleftrightarrow> keeps a b" "keeps a (set_reg r v b) \<longleftrightarrow> keeps a b"
  by (simp_all add: keeps_def)

lemma keeps_put [simp]: "keeps a (put bs b) \<longleftrightarrow> keeps a b" "keeps (put bs a) b \<longleftrightarrow> keeps a b"
  by (simp_all add: keeps_def put_def)

lemma keeps_skip [simp]: "keeps a (skip n b) \<longleftrightarrow> keeps a b"
  by simp

lemma keeps_write_ram [cyn_frame]: "write_ram vm a bs = Inr vm' \<Longrightarrow> keeps vm vm'"
  by (auto simp: write_ram_def store_bytes_def keeps_def split: if_splits)

lemma keeps_write_loc [cyn_frame]: "write_loc vm l v m = Inr vm' \<Longrightarrow> keeps vm vm'"
  by (cases l) (auto dest: cyn_frame)

lemma keeps_memcpy [cyn_frame]: "memcpy vm l s n = Inr vm' \<Longrightarrow> keeps vm vm'"
  by (induction vm l s n rule: memcpy.induct) (auto dest: cyn_frame split: if_splits)

lemma keeps_pushn [cyn_frame]: "VM_pushn vm d n = Inr (l, vm') \<Longrightarrow> keeps vm vm'"
  by (auto simp: VM_pushn_def Let_def dest!: cyn_frame split: if_splits)

lemma keeps_push [cyn_frame]: "VM_push vm v = Inr vm' \<Longrightarrow> keeps vm vm'"
  by (auto simp: VM_push_def dest!: cyn_frame intro: keeps_trans)

lemma keeps_popn [cyn_frame]: "VM_popn vm n = Inr (l, vm') \<Longrightarrow> keeps vm vm'"
  by (auto simp: VM_popn_def Let_def split: if_splits)

lemma keeps_pop [cyn_frame]: "VM_pop vm = Inr (v, vm') \<Longrightarrow> keeps vm vm'"
  by (auto simp: VM_pop_def dest!: cyn_frame)

lemma keeps_leave_frame [cyn_frame]: "leave_frame vm = Inr vm' \<Longrightarrow> keeps vm vm'"
  unfolding leave_frame_def Let_def
  by (auto dest!: cyn_frame split: if_splits) (blast intro: keeps_trans)+

lemma keeps_returnx [cyn_frame]: "VM_returnx vm s n = Inr vm' \<Longrightarrow> keeps vm vm'"
  unfolding VM_returnx_def
  by (auto dest!: cyn_frame split: if_splits) (blast intro: keeps_trans)+

lemma keeps_call_builtin:
  assumes "spares_descriptors sys" "call_builtin sys k vm a n = Inr vm'"
  shows "keeps vm vm'"
proof -
  obtain name vs v where r: "VM_returnx (snd (sys name vs vm)) v 1 = Inr vm'"
    using assms(2) by (auto simp: call_builtin_def Let_def split: prod.splits native.splits option.splits) (metis snd_conv)
  have "keeps vm (snd (sys name vs vm))" using assms(1) by (simp add: spares_descriptors_def keeps_def)
  then show ?thesis using keeps_returnx [OF r] by (rule keeps_trans)
qed

section \<open>The instructions\<close>

lemma keeps_fetch: "VM_fetch vm = Inr (i, iip, vm') \<Longrightarrow> keeps vm vm'"
  by (auto simp: VM_fetch_def fetch_imm_def Let_def split: if_splits option.splits)

lemma keeps_binary [cyn_frame]: "exec_binary opr i a b vm = Inr vm' \<Longrightarrow> keeps vm vm'"
  by (auto simp: exec_binary_def dest!: cyn_frame)

lemma keeps_unary [cyn_frame]: "exec_unary opr i a vm = Inr vm' \<Longrightarrow> keeps vm vm'"
  by (auto simp: exec_unary_def dest!: cyn_frame split: OpCode.splits)

lemma keeps_move [cyn_frame]: "exec_move opr i a b vm = Inr vm' \<Longrightarrow> keeps vm vm'"
  by (auto simp: exec_move_def dest!: cyn_frame split: if_splits)

lemma keeps_jump [cyn_frame]: "exec_jump opr i iip a vm = Inr vm' \<Longrightarrow> keeps vm vm'"
  by (auto simp: exec_jump_def split: if_splits)

lemma keeps_cmp [cyn_frame]: "exec_cmp i a b vm = Inr vm' \<Longrightarrow> keeps vm vm'"
  by (auto simp: exec_cmp_def)

lemma keeps_exec_push [cyn_frame]: "exec_push i a vm = Inr vm' \<Longrightarrow> keeps vm vm'"
  by (auto simp: exec_push_def dest!: cyn_frame split: if_splits)

lemma keeps_exec_pop [cyn_frame]: "exec_pop i a vm = Inr vm' \<Longrightarrow> keeps vm vm'"
  by (auto simp: exec_pop_def dest!: cyn_frame intro: keeps_trans)

lemma keeps_exec_popn [cyn_frame]: "exec_popn i a vm = Inr vm' \<Longrightarrow> keeps vm vm'"
  by (auto simp: exec_popn_def dest!: cyn_frame)

lemma keeps_alloca [cyn_frame]: "exec_alloca i a b vm = Inr vm' \<Longrightarrow> keeps vm vm'"
  by (auto simp: exec_alloca_def Let_def dest!: cyn_frame intro: keeps_trans)

lemma keeps_call [cyn_frame]: "exec_call i iip a vm = Inr vm' \<Longrightarrow> keeps vm vm'"
  by (auto simp: exec_call_def Let_def dest!: cyn_frame intro: keeps_trans)

lemma keeps_ret [cyn_frame]: "exec_ret i a vm = Inr vm' \<Longrightarrow> keeps vm vm'"
  by (auto simp: exec_ret_def Let_def dest!: cyn_frame intro: keeps_trans split: if_splits)

lemma keeps_ncall: "spares_descriptors sys \<Longrightarrow> exec_ncall sys i a vm = Inr vm' \<Longrightarrow> keeps vm vm'"
  unfolding exec_ncall_def Let_def
  by (auto dest!: keeps_push keeps_call_builtin split: if_splits) (auto intro: keeps_trans)

lemma keeps_exec_put [cyn_frame]: "exec_put opr i a vm = Inr vm' \<Longrightarrow> keeps vm vm'"
  by (auto simp: exec_put_def Let_def split: OpCode.splits option.splits loc.splits if_splits)

section \<open>The heap during an execution\<close>

text \<open>The descriptors form three finite disjoint lists.\<close>

definition heap_wf :: "'w VM \<Rightarrow> bool" where
  "heap_wf vm \<longleftrightarrow> (\<exists>s. represents (heap vm) s)"

lemma keeps_heap_wf: "keeps vm vm' \<Longrightarrow> heap_wf vm \<Longrightarrow> heap_wf vm'"
  by (simp add: keeps_def heap_wf_def)

lemma exec_alloc_heap:
  assumes "exec_alloc i a b vm = Inr vm'"
  obtains n r h where "read_loc vm b (TB i) = Inr n" "VM_alloc (heap vm) (ucast n) = Some (r, h)"
    "heap vm' = h"
proof -
  obtain n r h where n: "read_loc vm b (TB i) = Inr n" "VM_alloc (heap vm) (ucast n) = Some (r, h)"
    and w: "write_loc (vm\<lparr>heap := h\<rparr>) a (ucast r) (imd i) = Inr vm'"
    using assms by (auto simp: exec_alloc_def split: option.splits)
  have "keeps (vm\<lparr>heap := h\<rparr>) vm'" by (rule keeps_write_loc [OF w])
  then show thesis using that n by (auto simp: keeps_def)
qed

lemma exec_dlloc_heap:
  assumes "exec_dlloc i a vm = Inr vm'"
  obtains n r h where "read_loc vm a (TB i) = Inr n" "VM_free (heap vm) (ucast n) = Some (r, h)"
    "heap vm' = h"
  using assms by (auto simp: exec_dlloc_def split: option.splits)

lemma heap_wf_alloc:
  assumes "heap_wf vm" "VM_alloc (heap vm) n = Some (r, h)" "heap vm' = h"
  shows "heap_wf vm'"
proof -
  obtain s where "represents (heap vm) s" using assms(1) by (auto simp: heap_wf_def)
  from VM_alloc_represents [OF this, of n] show ?thesis using assms(2,3) by (auto simp: heap_wf_def)
qed

lemma heap_wf_free:
  assumes "heap_wf vm" "VM_free (heap vm) n = Some (r, h)" "heap vm' = h"
  shows "heap_wf vm'"
proof -
  obtain s where "represents (heap vm) s" using assms(1) by (auto simp: heap_wf_def)
  from VM_free_represents [OF this, of n] show ?thesis using assms(2,3) by (auto simp: heap_wf_def)
qed

text \<open>Either nothing of this concerns the heap, or the instruction is one of its two.\<close>

lemma exec_op_cases:
  assumes "spares_descriptors sys" "exec_op sys opr i iip a b vm = Inr vm'"
  shows "keeps vm vm' \<or> opr = opAlloc \<and> exec_alloc i a b vm = Inr vm' \<or> opr = opDlloc \<and> exec_dlloc i a vm = Inr vm'"
proof -
  have "keeps vm (vm\<lparr>vflags := x\<rparr>)" for x by (simp add: keeps_def)
  with assms show ?thesis
    by (cases opr) (auto simp: exec_op_def dest: cyn_frame keeps_ncall)
qed

lemma VM_step_cases:
  assumes "spares_descriptors sys" "VM_step sys vm = Inr vm'"
  obtains (quiet) "keeps vm vm'"
  | (alloc) i iip vm1 a b where "VM_fetch vm = Inr (i, iip, vm1)" "operands i vm1 = Inr (a, b)"
      "OpCode_of (opc i) = Some opAlloc" "exec_alloc i a b vm1 = Inr vm'" "keeps vm vm1"
  | (dlloc) i iip vm1 a b where "VM_fetch vm = Inr (i, iip, vm1)" "operands i vm1 = Inr (a, b)"
      "OpCode_of (opc i) = Some opDlloc" "exec_dlloc i a vm1 = Inr vm'" "keeps vm vm1"
proof -
  obtain i iip vm1 a b opr where f: "VM_fetch vm = Inr (i, iip, vm1)" "operands i vm1 = Inr (a, b)"
    "OpCode_of (opc i) = Some opr" "exec_op sys opr i iip a b vm1 = Inr vm'"
    using assms(2) by (auto simp: VM_step_def VM_execute_def split: option.splits)
  have k: "keeps vm vm1" by (rule keeps_fetch [OF f(1)])
  from exec_op_cases [OF assms(1) f(4)] show thesis
    using that f k by (auto intro: keeps_trans)
qed

inductive runs :: "'w syscalls \<Rightarrow> 'w VM \<Rightarrow> 'w VM \<Rightarrow> bool" for sys where
  runs_refl: "runs sys vm vm"
| runs_step: "runs sys vm vm1 \<Longrightarrow> REG vm1 ip < code_len vm1 \<Longrightarrow> VM_step sys vm1 = Inr vm2 \<Longrightarrow> runs sys vm vm2"

lemma VM_step_heap_wf:
  assumes "VM_step sys vm = Inr vm'" "spares_descriptors sys" "heap_wf vm"
  shows "heap_wf vm'"
  using assms(2,1)
  by (rule VM_step_cases)
    (use assms(3) in \<open>auto elim!: exec_alloc_heap exec_dlloc_heap intro: keeps_heap_wf heap_wf_alloc heap_wf_free\<close>)

lemma runs_heap_wf: "runs sys vm vm' \<Longrightarrow> spares_descriptors sys \<Longrightarrow> heap_wf vm \<Longrightarrow> heap_wf vm'"
  by (induction rule: runs.induct) (auto dest: VM_step_heap_wf)

text \<open>The loop with fuel goes through reachable states.\<close>

lemma VM_loop_runs:
  "VM_loop sys n vm = Some (Inr vm') \<Longrightarrow> runs sys vm0 vm \<Longrightarrow> runs sys vm0 vm'"
  by (induction n arbitrary: vm)
    (auto split: if_splits sum.splits intro: runs_step)

section \<open>No operation hangs\<close>

named_theorems cyn_returns "operations that do not hang"

definition returns :: "fault + 'a \<Rightarrow> bool" where
  "returns m \<longleftrightarrow> m \<noteq> Inl Hang"

lemma returns_simps [simp]: "returns (Inr x)" "returns (Inl f) \<longleftrightarrow> f \<noteq> Hang"
  by (simp_all add: returns_def)

lemma returns_bnd [intro!]: "returns m \<Longrightarrow> (\<And>x. m = Inr x \<Longrightarrow> returns (f x)) \<Longrightarrow> returns (bnd m f)"
  by (cases m) (auto simp: returns_def)

lemma returns_map_sum [simp]: "returns (map_sum (\<lambda>x. x) f m) \<longleftrightarrow> returns m"
  by (cases m) (auto simp: returns_def)

lemma returns_memory [cyn_returns, intro, simp]:
  "returns (MEM vm x)" "returns (reg_field r)" "returns (load_bytes m k n)" "returns (store_bytes m k bs)"
  "returns (write_ram vm k bs)" "returns (cstring m k)" "returns (code_byte vm)" "returns (shift_count y)"
  by (auto simp: MEM_def reg_field_def load_bytes_def store_bytes_def write_ram_def cstring_def code_byte_def
      shift_count_def Let_def split: option.split)

lemma returns_loc [cyn_returns, intro, simp]: "returns (read_loc vm l m)" "returns (write_loc vm l v m)"
  by (cases l; auto)+

lemma returns_memcpy [cyn_returns, intro, simp]: "returns (memcpy vm l s n)"
  by (induction vm l s n rule: memcpy.induct) auto

lemma returns_stack [cyn_returns, intro, simp]:
  "returns (VM_pushn vm d n)" "returns (VM_push vm v)" "returns (VM_popn vm n)" "returns (VM_pop vm)"
  by (auto simp: VM_pushn_def VM_push_def VM_popn_def VM_pop_def Let_def)

lemma returns_frame [cyn_returns, intro, simp]: "returns (leave_frame vm)" "returns (VM_returnx vm s n)"
  unfolding VM_returnx_def leave_frame_def Let_def by (auto split: prod.split)

lemma returns_native [cyn_returns, intro, simp]:
  "returns (native_arg vm l n)" "returns (native_args vm l ns)" "returns (call_builtin sys k vm l m)"
proof -
  show arg: "returns (native_arg vm l n)" for n by (cases "(vm, l, n)" rule: native_arg.cases) auto
  show args: "returns (native_args vm l ns)" by (induction ns) (auto intro: arg)
  have "returns (native_args vm l ns)" for ns by (induction ns) (auto intro: arg)
  then show "returns (call_builtin sys k vm l m)"
    by (auto simp: call_builtin_def Let_def split: prod.split native.split option.split)
qed

lemma returns_operands [intro, simp]: "returns (operands i vm)"
  by (auto simp: operands_def reg_operand_def imm_operand_def)

lemma returns_fetch [intro, simp]: "returns (VM_fetch vm)"
  unfolding VM_fetch_def fetch_imm_def Let_def by (auto split: option.split)

lemma returns_binary_op [intro, simp]: "returns (binary_op opr x y)"
  by (auto simp: binary_op_def split: OpCode.split)

lemma returns_exec [intro, simp]:
  "returns (exec_binary opr i a b vm)" "returns (exec_unary opr i a vm)" "returns (exec_move opr i a b vm)"
  "returns (exec_jump opr i iip a vm)" "returns (exec_cmp i a b vm)" "returns (exec_push i a vm)"
  "returns (exec_pop i a vm)" "returns (exec_popn i a vm)" "returns (exec_alloca i a b vm)"
  "returns (exec_call i iip a vm)" "returns (exec_ret i a vm)" "returns (exec_ncall sys i a vm)"
  by (auto simp: exec_binary_def exec_unary_def exec_move_def exec_jump_def exec_cmp_def exec_push_def exec_pop_def
      exec_popn_def exec_alloca_def exec_call_def exec_ret_def exec_ncall_def Let_def split: OpCode.split)

lemma returns_exec_put [intro, simp]: "returns (exec_put opr i a vm)"
  by (auto simp: exec_put_def Let_def split: OpCode.split option.split loc.split)

lemma returns_heap:
  assumes "heap_wf vm"
  shows "returns (exec_alloc i a b vm)" "returns (exec_dlloc i a vm)"
proof -
  obtain s where s: "represents (heap vm) s" using assms by (auto simp: heap_wf_def)
  show "returns (exec_alloc i a b vm)"
    unfolding exec_alloc_def using VM_alloc_represents [OF s] by (fastforce split: option.split)
  show "returns (exec_dlloc i a vm)"
    unfolding exec_dlloc_def using VM_free_represents [OF s] by (fastforce split: option.split)
qed

lemma returns_step:
  assumes "heap_wf vm"
  shows "returns (VM_step sys vm)"
proof -
  have "returns (VM_execute sys i iip vm1)" if f: "VM_fetch vm = Inr (i, iip, vm1)" for i iip vm1
  proof -
    have "heap_wf vm1" using keeps_heap_wf [OF keeps_fetch [OF f] assms] .
    then have "returns (exec_op sys opr i iip a b vm1)" for opr a b
      by (cases opr) (auto simp: exec_op_def returns_heap)
    then show ?thesis by (auto simp: VM_execute_def split: option.split)
  qed
  then show ?thesis by (auto simp: VM_step_def)
qed

section \<open>Properties\<close>


lemma idle_vm_heap: "vm_heap 64 4 1016 (heap (idle_vm code))"
proof -
  obtain h where h: "VM_heap_init 4 16 8 1016 64 (\<lambda>_. \<lparr>bnext = None, bsize = 0, baddr = 0\<rparr>) = Some h"
    and r: "represents h \<lparr>afree = [], aused = [], afresh = unat (4 :: u32), atop = 64, asth = 16, almt = 1016, aaln = 8\<rparr>"
    using VM_heap_init_represents [of 4 16 8 1016 64] by fastforce
  have "heap_inv 64 4 \<lparr>afree = [], aused = [], afresh = unat (4 :: u32), atop = 64, asth = 16, almt = 1016, aaln = 8\<rparr>"
    by (auto simp: heap_inv_def tiled_def)
  with h r represents_bounds [OF r] show ?thesis
    by (auto simp: vm_heap_def heap_ok_def idle_vm_def)
qed


end
