(* ===== verification/Cyn_Tree.thy ===== *)
theory Cyn_Tree
  imports Cyn_Prelude "HOL-Library.Multiset"
begin

text \<open>
  The red-black trees of \<^verbatim>\<open>src/tree.c\<close> and \<^verbatim>\<open>include/tree.h\<close>. Nodes live in a store and refer to each
  other by address, with a parent link each, as in the source; the word that packs the parent link
  and the colour is a pair of fields. Nodes are created at an address that the caller of the model
  supplies, the result of the allocator. An operation that follows a null pointer, or that does not
  end, is \<open>None\<close>.
\<close>

section \<open>Nodes\<close>

datatype color = rbtRed | rbtBlack

record 'v RbTreeNode =
  rb_left :: "nat option"
  rb_right :: "nat option"
  rb_parent :: "nat option"
  rb_color :: color
  rb_data :: 'v

record 'v RbTreeBase =
  rb_root :: "nat option"
  rb_node :: "nat \<Rightarrow> 'v RbTreeNode"

definition upd_node :: "nat \<Rightarrow> ('v RbTreeNode \<Rightarrow> 'v RbTreeNode) \<Rightarrow> 'v RbTreeBase \<Rightarrow> 'v RbTreeBase" where
  "upd_node a f t = t\<lparr>rb_node := (rb_node t)(a := f (rb_node t a))\<rparr>"

abbreviation left_of :: "'v RbTreeBase \<Rightarrow> nat \<Rightarrow> nat option" where "left_of t a \<equiv> rb_left (rb_node t a)"
abbreviation right_of :: "'v RbTreeBase \<Rightarrow> nat \<Rightarrow> nat option" where "right_of t a \<equiv> rb_right (rb_node t a)"
abbreviation parent_of :: "'v RbTreeBase \<Rightarrow> nat \<Rightarrow> nat option" where "parent_of t a \<equiv> rb_parent (rb_node t a)"
abbreviation color_of :: "'v RbTreeBase \<Rightarrow> nat \<Rightarrow> color" where "color_of t a \<equiv> rb_color (rb_node t a)"

abbreviation set_left :: "nat \<Rightarrow> nat option \<Rightarrow> 'v RbTreeBase \<Rightarrow> 'v RbTreeBase" where
  "set_left a p \<equiv> upd_node a (\<lambda>n. n\<lparr>rb_left := p\<rparr>)"
abbreviation set_right :: "nat \<Rightarrow> nat option \<Rightarrow> 'v RbTreeBase \<Rightarrow> 'v RbTreeBase" where
  "set_right a p \<equiv> upd_node a (\<lambda>n. n\<lparr>rb_right := p\<rparr>)"

definition RbTree_set_parent :: "nat \<Rightarrow> nat option \<Rightarrow> 'v RbTreeBase \<Rightarrow> 'v RbTreeBase" where
  "RbTree_set_parent node p = upd_node node (\<lambda>n. n\<lparr>rb_parent := p\<rparr>)"

definition RbTree_set_color :: "nat \<Rightarrow> color \<Rightarrow> 'v RbTreeBase \<Rightarrow> 'v RbTreeBase" where
  "RbTree_set_color node c = upd_node node (\<lambda>n. n\<lparr>rb_color := c\<rparr>)"

definition RbTree_set_parent_color :: "nat \<Rightarrow> nat option \<Rightarrow> color \<Rightarrow> 'v RbTreeBase \<Rightarrow> 'v RbTreeBase" where
  "RbTree_set_parent_color node p c = upd_node node (\<lambda>n. n\<lparr>rb_parent := p, rb_color := c\<rparr>)"

definition RbTree_change_child :: "nat \<Rightarrow> nat option \<Rightarrow> nat option \<Rightarrow> 'v RbTreeBase \<Rightarrow> 'v RbTreeBase" where
  "RbTree_change_child old new p t =
     (case p of
        Some a \<Rightarrow> if left_of t a = Some old then set_left a new t else set_right a new t
      | None \<Rightarrow> t\<lparr>rb_root := new\<rparr>)"

text \<open>A pointer to a link: the root of the tree, or the left or right link of a node.\<close>

datatype link = Root | LeftOf nat | RightOf nat

fun get_link :: "'v RbTreeBase \<Rightarrow> link \<Rightarrow> nat option" where
  "get_link t Root = rb_root t"
| "get_link t (LeftOf a) = left_of t a"
| "get_link t (RightOf a) = right_of t a"

fun set_link :: "link \<Rightarrow> nat option \<Rightarrow> 'v RbTreeBase \<Rightarrow> 'v RbTreeBase" where
  "set_link Root p t = t\<lparr>rb_root := p\<rparr>"
| "set_link (LeftOf a) p t = set_left a p t"
| "set_link (RightOf a) p t = set_right a p t"

definition RbTree_link_node :: "link \<Rightarrow> nat \<Rightarrow> nat option \<Rightarrow> 'v RbTreeBase \<Rightarrow> 'v RbTreeBase" where
  "RbTree_link_node link node p t =
     set_link link (Some node)
       (upd_node node (\<lambda>n. n\<lparr>rb_parent := p, rb_color := rbtRed, rb_left := None, rb_right := None\<rparr>) t)"

definition RbTree_rotate_set_parents :: "nat \<Rightarrow> nat \<Rightarrow> color \<Rightarrow> 'v RbTreeBase \<Rightarrow> 'v RbTreeBase" where
  "RbTree_rotate_set_parents old new c t =
     (let p = parent_of t old;
          t = upd_node new (\<lambda>n. n\<lparr>rb_parent := parent_of t old, rb_color := color_of t old\<rparr>) t;
          t = RbTree_set_parent_color old (Some new) c t
      in RbTree_change_child old (Some new) p t)"

section \<open>Insertion\<close>

definition is_red :: "'v RbTreeBase \<Rightarrow> nat option \<Rightarrow> bool" where
  "is_red t p = (case p of Some a \<Rightarrow> color_of t a = rbtRed | None \<Rightarrow> False)"

definition adopt :: "nat option \<Rightarrow> nat \<Rightarrow> 'v RbTreeBase \<Rightarrow> 'v RbTreeBase" where
  "adopt tmp p t = (case tmp of Some a \<Rightarrow> RbTree_set_parent_color a (Some p) rbtBlack t | None \<Rightarrow> t)"

text \<open>Cases 2 and 3, with the parent the left child of the grandparent, and mirrored.\<close>

definition insert_rotate_left :: "nat \<Rightarrow> nat \<Rightarrow> nat \<Rightarrow> 'v RbTreeBase \<Rightarrow> 'v RbTreeBase" where
  "insert_rotate_left node par gp t =
     (let tmp = right_of t par;
          (t, par, tmp) =
            (if tmp = Some node then
               let tmp = left_of t node;
                   t = set_right par tmp t;
                   t = set_left node (Some par) t;
                   t = adopt tmp par t;
                   t = RbTree_set_parent_color par (Some node) rbtBlack t
               in (t, node, right_of t node)
             else (t, par, tmp));
          t = set_left gp tmp t;
          t = set_right par (Some gp) t;
          t = adopt tmp gp t
      in RbTree_rotate_set_parents gp par rbtRed t)"

definition insert_rotate_right :: "nat \<Rightarrow> nat \<Rightarrow> nat \<Rightarrow> 'v RbTreeBase \<Rightarrow> 'v RbTreeBase" where
  "insert_rotate_right node par gp t =
     (let tmp = left_of t par;
          (t, par, tmp) =
            (if tmp = Some node then
               let tmp = right_of t node;
                   t = set_left par tmp t;
                   t = set_right node (Some par) t;
                   t = adopt tmp par t;
                   t = RbTree_set_parent_color par (Some node) rbtRed t
               in (t, node, left_of t node)
             else (t, par, tmp));
          t = set_right gp tmp t;
          t = set_left par (Some gp) t;
          t = adopt tmp gp t
      in RbTree_rotate_set_parents gp par rbtRed t)"

text \<open>Case 1: the colours of the parent, the uncle and the grandparent are flipped.\<close>

definition insert_flip :: "nat \<Rightarrow> nat \<Rightarrow> nat \<Rightarrow> 'v RbTreeBase \<Rightarrow> 'v RbTreeBase" where
  "insert_flip uncle par gp t =
     (let t = RbTree_set_parent_color uncle (Some gp) rbtBlack t;
          t = RbTree_set_parent_color par (Some gp) rbtBlack t
      in RbTree_set_parent_color gp (parent_of t gp) rbtRed t)"

partial_function (option) insert_loop :: "nat \<Rightarrow> nat option \<Rightarrow> 'v RbTreeBase \<Rightarrow> 'v RbTreeBase option" where
  "insert_loop node par t =
     (case par of
        None \<Rightarrow> Some (RbTree_set_parent_color node None rbtBlack t)
      | Some p \<Rightarrow>
          if color_of t p = rbtBlack then Some t
          else (case parent_of t p of
             None \<Rightarrow> None
           | Some gp \<Rightarrow>
               let tmp = right_of t gp; other = left_of t gp in
               if tmp \<noteq> Some p then
                 if is_red t tmp then
                   let t = insert_flip (the tmp) p gp t in insert_loop gp (parent_of t gp) t
                 else Some (insert_rotate_left node p gp t)
               else
                 if is_red t other then
                   let t = insert_flip (the other) p gp t in insert_loop gp (parent_of t gp) t
                 else Some (insert_rotate_right node p gp t)))"

definition RbTree_insert :: "nat \<Rightarrow> 'v RbTreeBase \<Rightarrow> 'v RbTreeBase option" where
  "RbTree_insert node t = insert_loop node (parent_of t node) t"

declare insert_loop.simps [code]

section \<open>Trees and contexts\<close>

text \<open>The tree of addresses and colours that a link stands for, and the way up from a node.\<close>

datatype rbt = Lf | Nd rbt nat color rbt

primrec addrs :: "rbt \<Rightarrow> nat list" where
  "addrs Lf = []"
| "addrs (Nd l a c r) = addrs l @ a # addrs r"

datatype crumb = InLeft nat color rbt | InRight rbt nat color

primrec plug1 :: "crumb \<Rightarrow> rbt \<Rightarrow> rbt" where
  "plug1 (InLeft a c r) x = Nd x a c r"
| "plug1 (InRight l a c) x = Nd l a c x"

primrec plug :: "crumb list \<Rightarrow> rbt \<Rightarrow> rbt" where
  "plug [] x = x"
| "plug (k # ks) x = plug ks (plug1 k x)"

primrec caddrs :: "crumb \<Rightarrow> nat list" where
  "caddrs (InLeft a c r) = a # addrs r"
| "caddrs (InRight l a c) = a # addrs l"

primrec before :: "crumb list \<Rightarrow> nat list" where
  "before [] = []"
| "before (k # ks) = before ks @ (case k of InLeft a c r \<Rightarrow> [] | InRight l a c \<Rightarrow> addrs l @ [a])"

primrec after :: "crumb list \<Rightarrow> nat list" where
  "after [] = []"
| "after (k # ks) = (case k of InLeft a c r \<Rightarrow> a # addrs r | InRight l a c \<Rightarrow> []) @ after ks"

lemma addrs_plug: "addrs (plug ks x) = before ks @ addrs x @ after ks"
  by (induction ks arbitrary: x) (auto split: crumb.split)

definition path :: "crumb list \<Rightarrow> nat list" where
  "path ks = concat (map caddrs ks)"

lemma path_simps [simp]: "path [] = []" "path (k # ks) = caddrs k @ path ks"
  by (simp_all add: path_def)

lemma set_path: "set (path ks) = set (before ks) \<union> set (after ks)"
proof (induction ks)
  case (Cons k ks)
  then show ?case by (cases k) auto
qed simp

lemma mset_plug: "mset (addrs (plug ks x)) = mset (addrs x @ path ks)"
proof (induction ks arbitrary: x)
  case (Cons k ks)
  have "mset (addrs (plug1 k x)) = mset (addrs x @ caddrs k)" by (cases k) simp_all
  with Cons show ?case by simp
qed simp

lemma distinct_plug: "distinct (addrs (plug ks x)) \<longleftrightarrow> distinct (addrs x) \<and> distinct (path ks) \<and> set (addrs x) \<inter> set (path ks) = {}"
  using mset_eq_imp_distinct_iff [OF mset_plug [of ks x]] by auto

lemma set_plug: "set (addrs (plug ks x)) = set (addrs x) \<union> set (path ks)"
  using mset_eq_setD [OF mset_plug [of ks x]] by simp

text \<open>What the store holds at a link with a given parent link.\<close>

primrec shape :: "(nat \<Rightarrow> 'v RbTreeNode) \<Rightarrow> nat option \<Rightarrow> rbt \<Rightarrow> nat option \<Rightarrow> bool" where
  "shape s par Lf p \<longleftrightarrow> p = None"
| "shape s par (Nd l a c r) p \<longleftrightarrow> p = Some a \<and> rb_parent (s a) = par \<and> rb_color (s a) = c \<and>
     shape s (Some a) l (rb_left (s a)) \<and> shape s (Some a) r (rb_right (s a))"

primrec ctx :: "(nat \<Rightarrow> 'v RbTreeNode) \<Rightarrow> nat option \<Rightarrow> crumb list \<Rightarrow> nat option \<Rightarrow> nat option \<Rightarrow> bool" where
  "ctx s rt [] par f \<longleftrightarrow> par = None \<and> f = rt"
| "ctx s rt (k # ks) par f \<longleftrightarrow>
     (case k of
        InLeft a c r \<Rightarrow> par = Some a \<and> rb_color (s a) = c \<and> rb_left (s a) = f \<and>
          shape s (Some a) r (rb_right (s a)) \<and> ctx s rt ks (rb_parent (s a)) (Some a)
      | InRight l a c \<Rightarrow> par = Some a \<and> rb_color (s a) = c \<and> rb_right (s a) = f \<and>
          shape s (Some a) l (rb_left (s a)) \<and> ctx s rt ks (rb_parent (s a)) (Some a))"

definition zipper :: "'v RbTreeBase \<Rightarrow> crumb list \<Rightarrow> rbt \<Rightarrow> nat option \<Rightarrow> nat option \<Rightarrow> bool" where
  "zipper t ks x par f \<longleftrightarrow> ctx (rb_node t) (rb_root t) ks par f \<and> shape (rb_node t) par x f \<and>
     distinct (addrs (plug ks x))"

definition represents_tree :: "'v RbTreeBase \<Rightarrow> rbt \<Rightarrow> bool" where
  "represents_tree t x \<longleftrightarrow> shape (rb_node t) None x (rb_root t) \<and> distinct (addrs x)"

lemma shape_upd [simp]: "a \<notin> set (addrs x) \<Longrightarrow> shape (s(a := n)) par x p = shape s par x p"
  by (induction x arbitrary: par p) auto

lemma ctx_upd [simp]: "a \<notin> set (path ks) \<Longrightarrow> ctx (s(a := n)) rt ks par p = ctx s rt ks par p"
  by (induction ks arbitrary: par p) (auto split: crumb.split)

lemma zipper_represents: "zipper t ks x par f \<Longrightarrow> represents_tree t (plug ks x)"
proof -
  have "ctx s rt ks par f \<Longrightarrow> shape s par x f \<Longrightarrow> shape s None (plug ks x) rt" for s :: "nat \<Rightarrow> 'v RbTreeNode" and rt
    by (induction ks arbitrary: x par f) (auto split: crumb.splits)
  then show "zipper t ks x par f \<Longrightarrow> represents_tree t (plug ks x)"
    by (auto simp: zipper_def represents_tree_def)
qed

lemma represents_zipper: "represents_tree t x \<Longrightarrow> zipper t [] x None (rb_root t)"
  by (simp add: zipper_def represents_tree_def)


lemma shape_cong: "(\<And>a. a \<in> set (addrs x) \<Longrightarrow> s' a = s a) \<Longrightarrow> shape s' par x p = shape s par x p"
  by (induction x arbitrary: par p) auto

section \<open>The repair after an insertion, on trees\<close>

primrec blacken :: "rbt \<Rightarrow> rbt" where
  "blacken Lf = Lf"
| "blacken (Nd l a c r) = Nd l a rbtBlack r"

primrec red :: "rbt \<Rightarrow> bool" where
  "red Lf = False"
| "red (Nd l a c r) = (c = rbtRed)"

primrec crumb_color :: "crumb \<Rightarrow> color" where
  "crumb_color (InLeft a c r) = c"
| "crumb_color (InRight l a c) = c"

primrec crumb_addr :: "crumb \<Rightarrow> nat" where
  "crumb_addr (InLeft a c r) = a"
| "crumb_addr (InRight l a c) = a"

lemma addrs_blacken [simp]: "addrs (blacken x) = addrs x"
  by (cases x) simp_all

primrec black_plug1 :: "crumb \<Rightarrow> rbt \<Rightarrow> rbt" where
  "black_plug1 (InLeft a c r) x = Nd x a rbtBlack r"
| "black_plug1 (InRight l a c) x = Nd l a rbtBlack x"

primrec turn_left :: "crumb \<Rightarrow> rbt \<Rightarrow> nat \<Rightarrow> rbt \<Rightarrow> nat \<Rightarrow> color \<Rightarrow> rbt \<Rightarrow> rbt" where
  "turn_left (InLeft pa pc pr) l a r ga gc u = Nd (Nd l a rbtRed r) pa gc (Nd (blacken pr) ga rbtRed u)"
| "turn_left (InRight pl pa pc) l a r ga gc u = Nd (Nd pl pa rbtBlack (blacken l)) a gc (Nd (blacken r) ga rbtRed u)"

primrec turn_right :: "crumb \<Rightarrow> rbt \<Rightarrow> nat \<Rightarrow> rbt \<Rightarrow> rbt \<Rightarrow> nat \<Rightarrow> color \<Rightarrow> rbt" where
  "turn_right (InLeft pa pc pr) l a r u ga gc = Nd (Nd u ga rbtRed (blacken l)) a gc (Nd (blacken r) pa rbtRed pr)"
| "turn_right (InRight pl pa pc) l a r u ga gc = Nd (Nd u ga rbtRed (blacken pl)) pa gc (Nd l a rbtRed r)"

fun fixup :: "crumb list \<Rightarrow> rbt \<Rightarrow> nat \<Rightarrow> rbt \<Rightarrow> rbt" where
  "fixup [] l a r = Nd l a rbtBlack r"
| "fixup [k] l a r = plug1 k (Nd l a rbtRed r)"
| "fixup (k # g # gs) l a r =
     (if crumb_color k = rbtBlack then plug (k # g # gs) (Nd l a rbtRed r)
      else case g of
        InLeft ga gc u \<Rightarrow>
          if red u then fixup gs (black_plug1 k (Nd l a rbtRed r)) ga (blacken u)
          else plug gs (turn_left k l a r ga gc u)
      | InRight u ga gc \<Rightarrow>
          if red u then fixup gs (blacken u) ga (black_plug1 k (Nd l a rbtRed r))
          else plug gs (turn_right k l a r u ga gc))"

lemma addrs_turn:
  "addrs (turn_left k l a r ga gc u) = addrs (plug1 k (Nd l a rbtRed r)) @ ga # addrs u"
  "addrs (turn_right k l a r u ga gc) = addrs u @ ga # addrs (plug1 k (Nd l a rbtRed r))"
  "addrs (black_plug1 k x) = addrs (plug1 k x)"
  by (cases k; simp)+

lemma addrs_fixup: "addrs (fixup ks l a r) = before ks @ addrs l @ a # addrs r @ after ks"
proof (induction ks l a r rule: fixup.induct)
  case (2 k l a r)
  then show ?case by (cases k) simp_all
next
  case (3 k g gs l a r)
  then show ?case by (cases k; cases g) (simp_all add: addrs_plug addrs_turn)
qed simp

section \<open>The repair in the store\<close>

lemma rb_node_simps [simp]:
  "rb_node (upd_node a f t) = (rb_node t)(a := f (rb_node t a))" "rb_root (upd_node a f t) = rb_root t"
  by (simp_all add: upd_node_def)

lemma change_child_ctx:
  assumes "ctx (rb_node t) (rb_root t) ks par (Some old)" "distinct (path ks)" "old \<notin> set (path ks)"
  shows "ctx (rb_node (RbTree_change_child old new par t)) (rb_root (RbTree_change_child old new par t))
      ks par new"
    and "b \<notin> set (path ks) \<Longrightarrow> rb_node (RbTree_change_child old new par t) b = rb_node t b"
proof -
  have "shape s q x (Some old) \<Longrightarrow> old \<in> set (addrs x)" for s :: "nat \<Rightarrow> 'a RbTreeNode" and q x by (cases x) auto
  then show "ctx (rb_node (RbTree_change_child old new par t)) (rb_root (RbTree_change_child old new par t))
      ks par new"
    using assms by (cases ks) (auto simp: RbTree_change_child_def split: crumb.splits)
  show "b \<notin> set (path ks) \<Longrightarrow> rb_node (RbTree_change_child old new par t) b = rb_node t b"
    using assms(1) by (cases ks) (auto simp: RbTree_change_child_def split: crumb.splits)
qed

lemma adopt_simps [simp]:
  "rb_root (adopt p q t) = rb_root t" "adopt None q t = t"
  "rb_node (adopt (Some b) q t) = (rb_node t)(b := (rb_node t b)\<lparr>rb_parent := Some q, rb_color := rbtBlack\<rparr>)"
  by (auto simp: adopt_def RbTree_set_parent_color_def split: option.split)

lemma rotate_set_parents_zipper:
  assumes c: "ctx (rb_node t) (rb_root t) ks (parent_of t old) (Some old)" "distinct (path ks)" "old \<notin> set (path ks)"
    and n: "new \<notin> set (path ks)" "old \<noteq> new"
  defines "t' \<equiv> RbTree_rotate_set_parents old new rbtRed t"
  shows "ctx (rb_node t') (rb_root t') ks (parent_of t old) (Some new)"
    and "b \<notin> set (path ks) \<Longrightarrow> rb_node t' b =
      (if b = old then (rb_node t old)\<lparr>rb_parent := Some new, rb_color := rbtRed\<rparr>
       else if b = new then (rb_node t new)\<lparr>rb_parent := parent_of t old, rb_color := color_of t old\<rparr>
       else rb_node t b)"
proof -
  define t1 where "t1 = RbTree_set_parent_color old (Some new) rbtRed
    (upd_node new (\<lambda>n. n\<lparr>rb_parent := parent_of t old, rb_color := color_of t old\<rparr>) t)"
  have "ctx (rb_node t1) (rb_root t1) ks (parent_of t old) (Some old)"
    using c n by (simp add: t1_def RbTree_set_parent_color_def)
  note cc = change_child_ctx [OF this c(2,3)]
  have t': "t' = RbTree_change_child old (Some new) (parent_of t old) t1"
    by (simp add: t'_def t1_def RbTree_rotate_set_parents_def Let_def)
  show "ctx (rb_node t') (rb_root t') ks (parent_of t old) (Some new)"
    using cc(1) unfolding t' .
  show "b \<notin> set (path ks) \<Longrightarrow> rb_node t' b =
      (if b = old then (rb_node t old)\<lparr>rb_parent := Some new, rb_color := rbtRed\<rparr>
       else if b = new then (rb_node t new)\<lparr>rb_parent := parent_of t old, rb_color := color_of t old\<rparr>
       else rb_node t b)"
    unfolding t' using cc(2) n by (simp add: t1_def RbTree_set_parent_color_def)
qed


lemma shape_Some: "shape s par x (Some b) \<Longrightarrow> \<exists>l c r. x = Nd l b c r"
  by (cases x) auto

lemma shape_adopt:
  assumes "shape (rb_node t) par x p" "distinct (addrs x)"
  shows "shape (rb_node (adopt p q t)) (Some q) (blacken x) p"
    and "b \<notin> set (addrs x) \<Longrightarrow> rb_node (adopt p q t) b = rb_node t b"
  using assms by (cases x; auto)+

lemma shape_neq: "shape s par x p \<Longrightarrow> a \<notin> set (addrs x) \<Longrightarrow> p \<noteq> Some a"
  by (cases x) auto

text \<open>The last rotation of both branches.\<close>

lemma rotate_right_tail:
  assumes c: "ctx (rb_node t) (rb_root t) gs (parent_of t ga) (Some ga)"
    and u: "shape (rb_node t) (Some ga) u (right_of t ga)"
    and x: "shape (rb_node t) (Some pa) x (left_of t pa)"
    and m: "shape (rb_node t) par m q"
    and d: "distinct (addrs (plug gs (Nd (Nd x pa gc m) ga rbtRed u)))"
  shows "represents_tree (RbTree_rotate_set_parents ga pa rbtRed (adopt q ga (set_right pa (Some ga) (set_left ga q t))))
    (plug gs (Nd x pa (color_of t ga) (Nd (blacken m) ga rbtRed u)))" (is "represents_tree ?t' _")
proof -
  define t1 where "t1 = set_right pa (Some ga) (set_left ga q t)"
  define t2 where "t2 = adopt q ga t1"
  have dis: "ga \<noteq> pa" "ga \<notin> set (addrs x)" "ga \<notin> set (addrs m)" "ga \<notin> set (addrs u)" "pa \<notin> set (addrs x)"
    "pa \<notin> set (addrs m)" "pa \<notin> set (addrs u)" "distinct (addrs m)" "distinct (path gs)"
    "ga \<notin> set (path gs)" "pa \<notin> set (path gs)"
    "set (addrs x) \<inter> set (path gs) = {}" "set (addrs m) \<inter> set (path gs) = {}" "set (addrs u) \<inter> set (path gs) = {}"
    "set (addrs x) \<inter> set (addrs m) = {}" "set (addrs u) \<inter> set (addrs m) = {}"
    using d by (auto simp: distinct_plug)
  have m1: "shape (rb_node t1) par m q" using m dis by (simp add: t1_def)
  note m2 = shape_adopt [where q = ga, OF m1 dis(8), folded t2_def]
  have same: "rb_node t2 b = rb_node t1 b" if "b \<notin> set (addrs m)" for b
    using m2(2) that by blast
  have r2: "rb_root t2 = rb_root t" by (simp add: t2_def t1_def)
  have c2: "ctx (rb_node t2) (rb_root t2) gs (parent_of t2 ga) (Some ga)"
  proof -
    have "ctx (rb_node t1) (rb_root t1) gs (parent_of t ga) (Some ga)" using c dis by (simp add: t1_def)
    then have "ctx (rb_node t2) (rb_root t1) gs (parent_of t ga) (Some ga)"
      using dis(13) by (cases m) (use m1 in \<open>auto simp: t2_def\<close>)
    then show ?thesis using same [of ga] dis by (simp add: t2_def t1_def)
  qed
  define t3 where "t3 = RbTree_rotate_set_parents ga pa rbtRed t2"
  have c3: "ctx (rb_node t3) (rb_root t3) gs (parent_of t2 ga) (Some pa)"
    and s3: "\<And>b. b \<notin> set (path gs) \<Longrightarrow> rb_node t3 b =
      (if b = ga then (rb_node t2 ga)\<lparr>rb_parent := Some pa, rb_color := rbtRed\<rparr>
       else if b = pa then (rb_node t2 pa)\<lparr>rb_parent := parent_of t2 ga, rb_color := color_of t2 ga\<rparr>
       else rb_node t2 b)"
    using rotate_set_parents_zipper [OF c2 dis(9,10,11,1)] unfolding t3_def by blast+
  have outer: "rb_node t3 b = rb_node t b" if "b \<notin> set (path gs)" "b \<notin> set (addrs m)" "b \<noteq> ga" "b \<noteq> pa" for b
    using that s3 [of b] same [of b] by (simp add: t1_def)
  have "\<forall>b \<in> set (addrs x). rb_node t3 b = rb_node t b" "\<forall>b \<in> set (addrs u). rb_node t3 b = rb_node t b"
    using dis by (metis disjoint_iff outer)+
  then have "shape (rb_node t3) (Some pa) x (left_of t pa)" "shape (rb_node t3) (Some ga) u (right_of t ga)"
    using x u shape_cong by metis+
  moreover have "shape (rb_node t3) (Some ga) (blacken m) q"
  proof -
    have "\<forall>b \<in> set (addrs (blacken m)). rb_node t3 b = rb_node t2 b"
      using dis s3 by (metis addrs_blacken disjoint_iff)
    then show ?thesis using m2(1) shape_cong by metis
  qed
  moreover have "distinct (addrs (plug gs (Nd x pa (color_of t ga) (Nd (blacken m) ga rbtRed u))))"
    using d by (simp add: addrs_plug)
  ultimately have "zipper t3 gs (Nd x pa (color_of t ga) (Nd (blacken m) ga rbtRed u)) (parent_of t2 ga) (Some pa)"
    using c3 s3 [of ga] s3 [of pa] same [of ga] same [of pa] dis by (simp add: zipper_def t1_def)
  then show ?thesis using zipper_represents unfolding t3_def t2_def t1_def by blast
qed

lemma rotate_left_tail:
  assumes c: "ctx (rb_node t) (rb_root t) gs (parent_of t ga) (Some ga)"
    and u: "shape (rb_node t) (Some ga) u (left_of t ga)"
    and x: "shape (rb_node t) (Some pa) x (right_of t pa)"
    and m: "shape (rb_node t) par m q"
    and d: "distinct (addrs (plug gs (Nd u ga rbtRed (Nd m pa gc x))))"
  shows "represents_tree (RbTree_rotate_set_parents ga pa rbtRed (adopt q ga (set_left pa (Some ga) (set_right ga q t))))
    (plug gs (Nd (Nd u ga rbtRed (blacken m)) pa (color_of t ga) x))" (is "represents_tree ?t' _")
proof -
  define t1 where "t1 = set_left pa (Some ga) (set_right ga q t)"
  define t2 where "t2 = adopt q ga t1"
  have dis: "ga \<noteq> pa" "ga \<notin> set (addrs x)" "ga \<notin> set (addrs m)" "ga \<notin> set (addrs u)" "pa \<notin> set (addrs x)"
    "pa \<notin> set (addrs m)" "pa \<notin> set (addrs u)" "distinct (addrs m)" "distinct (path gs)"
    "ga \<notin> set (path gs)" "pa \<notin> set (path gs)"
    "set (addrs x) \<inter> set (path gs) = {}" "set (addrs m) \<inter> set (path gs) = {}" "set (addrs u) \<inter> set (path gs) = {}"
    "set (addrs x) \<inter> set (addrs m) = {}" "set (addrs u) \<inter> set (addrs m) = {}"
    using d by (auto simp: distinct_plug)
  have m1: "shape (rb_node t1) par m q" using m dis by (simp add: t1_def)
  note m2 = shape_adopt [where q = ga, OF m1 dis(8), folded t2_def]
  have same: "rb_node t2 b = rb_node t1 b" if "b \<notin> set (addrs m)" for b
    using m2(2) that by blast
  have r2: "rb_root t2 = rb_root t" by (simp add: t2_def t1_def)
  have c2: "ctx (rb_node t2) (rb_root t2) gs (parent_of t2 ga) (Some ga)"
  proof -
    have "ctx (rb_node t1) (rb_root t1) gs (parent_of t ga) (Some ga)" using c dis by (simp add: t1_def)
    then have "ctx (rb_node t2) (rb_root t1) gs (parent_of t ga) (Some ga)"
      using dis(13) by (cases m) (use m1 in \<open>auto simp: t2_def\<close>)
    then show ?thesis using same [of ga] dis by (simp add: t2_def t1_def)
  qed
  define t3 where "t3 = RbTree_rotate_set_parents ga pa rbtRed t2"
  have c3: "ctx (rb_node t3) (rb_root t3) gs (parent_of t2 ga) (Some pa)"
    and s3: "\<And>b. b \<notin> set (path gs) \<Longrightarrow> rb_node t3 b =
      (if b = ga then (rb_node t2 ga)\<lparr>rb_parent := Some pa, rb_color := rbtRed\<rparr>
       else if b = pa then (rb_node t2 pa)\<lparr>rb_parent := parent_of t2 ga, rb_color := color_of t2 ga\<rparr>
       else rb_node t2 b)"
    using rotate_set_parents_zipper [OF c2 dis(9,10,11,1)] unfolding t3_def by blast+
  have outer: "rb_node t3 b = rb_node t b" if "b \<notin> set (path gs)" "b \<notin> set (addrs m)" "b \<noteq> ga" "b \<noteq> pa" for b
    using that s3 [of b] same [of b] by (simp add: t1_def)
  have "\<forall>b \<in> set (addrs x). rb_node t3 b = rb_node t b" "\<forall>b \<in> set (addrs u). rb_node t3 b = rb_node t b"
    using dis by (metis disjoint_iff outer)+
  then have "shape (rb_node t3) (Some pa) x (right_of t pa)" "shape (rb_node t3) (Some ga) u (left_of t ga)"
    using x u shape_cong by metis+
  moreover have "shape (rb_node t3) (Some ga) (blacken m) q"
  proof -
    have "\<forall>b \<in> set (addrs (blacken m)). rb_node t3 b = rb_node t2 b"
      using dis s3 by (metis addrs_blacken disjoint_iff)
    then show ?thesis using m2(1) shape_cong by metis
  qed
  moreover have "distinct (addrs (plug gs (Nd (Nd u ga rbtRed (blacken m)) pa (color_of t ga) x)))"
    using d by (simp add: addrs_plug)
  ultimately have "zipper t3 gs (Nd (Nd u ga rbtRed (blacken m)) pa (color_of t ga) x) (parent_of t2 ga) (Some pa)"
    using c3 s3 [of ga] s3 [of pa] same [of ga] same [of pa] dis by (simp add: zipper_def t1_def)
  then show ?thesis using zipper_represents unfolding t3_def t2_def t1_def by blast
qed

lemma insert_turn_left:
  assumes z: "zipper t (k # InLeft ga gc u # gs) (Nd l a rbtRed r) (Some p) (Some a)"
  shows "represents_tree (insert_rotate_left a p ga t) (plug gs (turn_left k l a r ga gc u))"
proof (cases k)
  case (InLeft pa pc pr)
  have f: "p = pa" "right_of t pa \<noteq> Some a" "gc = color_of t ga"
    using z InLeft by (auto simp: zipper_def distinct_plug dest!: shape_Some)
  have "represents_tree (RbTree_rotate_set_parents ga pa rbtRed (adopt (right_of t pa) ga (set_right pa (Some ga) (set_left ga (right_of t pa) t))))
    (plug gs (Nd (Nd l a rbtRed r) pa (color_of t ga) (Nd (blacken pr) ga rbtRed u)))"
    by (rule rotate_right_tail [where par = "Some pa" and gc = gc]) (use z InLeft in \<open>auto simp: zipper_def addrs_plug\<close>)
  then show ?thesis using f by (simp add: InLeft insert_rotate_left_def Let_def)
next
  case (InRight pl pa pc)
  define t' where "t' = RbTree_set_parent_color pa (Some a) rbtBlack (adopt (left_of t a) pa (set_left a (Some pa) (set_right pa (left_of t a) t)))"
  have dis: "a \<noteq> pa" "a \<noteq> ga" "pa \<noteq> ga" "a \<notin> set (addrs pl)" "a \<notin> set (addrs l)" "pa \<notin> set (addrs pl)"
    "pa \<notin> set (addrs l)" "ga \<notin> set (addrs l)" "a \<notin> set (addrs r)" "pa \<notin> set (addrs r)"
    "a \<notin> set (addrs u)" "pa \<notin> set (addrs u)" "distinct (addrs l)" "set (addrs l) \<inter> set (addrs pl) = {}"
    "set (addrs l) \<inter> set (addrs r) = {}" "set (addrs l) \<inter> set (addrs u) = {}"
    "a \<notin> set (path gs)" "pa \<notin> set (path gs)" "set (addrs l) \<inter> set (path gs) = {}"
    using z InRight by (auto simp: zipper_def distinct_plug)
  have f: "p = pa" "right_of t pa = Some a" "parent_of t pa = Some ga" "gc = color_of t ga"
    and s: "shape (rb_node t) (Some a) l (left_of t a)" "shape (rb_node t) (Some a) r (right_of t a)"
      "shape (rb_node t) (Some pa) pl (left_of t pa)" "shape (rb_node t) (Some ga) u (right_of t ga)"
    and c: "ctx (rb_node t) (rb_root t) gs (parent_of t ga) (Some ga)"
    using z InRight by (auto simp: zipper_def)
  have "represents_tree (RbTree_rotate_set_parents ga a rbtRed (adopt (right_of t' a) ga (set_right a (Some ga) (set_left ga (right_of t' a) t'))))
    (plug gs (Nd (Nd pl pa rbtBlack (blacken l)) a (color_of t' ga) (Nd (blacken r) ga rbtRed u)))"
  proof (rule rotate_right_tail [where par = "Some a" and gc = gc])
    show "ctx (rb_node t') (rb_root t') gs (parent_of t' ga) (Some ga)"
      using c dis s(1) by (cases l) (auto simp: t'_def RbTree_set_parent_color_def)
    show "shape (rb_node t') (Some ga) u (right_of t' ga)"
      using s dis by (cases l) (auto simp: t'_def RbTree_set_parent_color_def)
    show "shape (rb_node t') (Some a) (Nd pl pa rbtBlack (blacken l)) (left_of t' a)"
      using s dis by (cases l) (auto simp: t'_def RbTree_set_parent_color_def)
    show "shape (rb_node t') (Some a) r (right_of t' a)"
      using s dis by (cases l) (auto simp: t'_def RbTree_set_parent_color_def)
    show "distinct (addrs (plug gs (Nd (Nd (Nd pl pa rbtBlack (blacken l)) a gc r) ga rbtRed u)))"
      using z InRight by (simp add: zipper_def addrs_plug)
  qed
  moreover have "color_of t' ga = gc"
    using f s dis by (cases l) (auto simp: t'_def RbTree_set_parent_color_def)
  ultimately show ?thesis
    using f by (simp add: InRight insert_rotate_left_def Let_def t'_def [symmetric])
qed

lemma insert_turn_right:
  assumes z: "zipper t (k # InRight u ga gc # gs) (Nd l a rbtRed r) (Some p) (Some a)"
  shows "represents_tree (insert_rotate_right a p ga t) (plug gs (turn_right k l a r u ga gc))"
proof (cases k)
  case (InRight pl pa pc)
  have f: "p = pa" "left_of t pa \<noteq> Some a" "gc = color_of t ga"
    using z InRight by (auto simp: zipper_def distinct_plug dest!: shape_Some)
  have "represents_tree (RbTree_rotate_set_parents ga pa rbtRed (adopt (left_of t pa) ga (set_left pa (Some ga) (set_right ga (left_of t pa) t))))
    (plug gs (Nd (Nd u ga rbtRed (blacken pl)) pa (color_of t ga) (Nd l a rbtRed r)))"
    by (rule rotate_left_tail [where par = "Some pa" and gc = gc]) (use z InRight in \<open>auto simp: zipper_def addrs_plug\<close>)
  then show ?thesis using f by (simp add: InRight insert_rotate_right_def Let_def)
next
  case (InLeft pa pc pr)
  define t' where "t' = RbTree_set_parent_color pa (Some a) rbtRed (adopt (right_of t a) pa (set_right a (Some pa) (set_left pa (right_of t a) t)))"
  have dis: "a \<noteq> pa" "a \<noteq> ga" "pa \<noteq> ga" "a \<notin> set (addrs pr)" "a \<notin> set (addrs r)" "pa \<notin> set (addrs pr)"
    "pa \<notin> set (addrs r)" "ga \<notin> set (addrs r)" "a \<notin> set (addrs l)" "pa \<notin> set (addrs l)"
    "a \<notin> set (addrs u)" "pa \<notin> set (addrs u)" "distinct (addrs r)" "set (addrs r) \<inter> set (addrs pr) = {}"
    "set (addrs r) \<inter> set (addrs l) = {}" "set (addrs r) \<inter> set (addrs u) = {}"
    "a \<notin> set (path gs)" "pa \<notin> set (path gs)" "set (addrs r) \<inter> set (path gs) = {}"
    using z InLeft by (auto simp: zipper_def distinct_plug)
  have f: "p = pa" "left_of t pa = Some a" "parent_of t pa = Some ga" "gc = color_of t ga"
    and s: "shape (rb_node t) (Some a) r (right_of t a)" "shape (rb_node t) (Some a) l (left_of t a)"
      "shape (rb_node t) (Some pa) pr (right_of t pa)" "shape (rb_node t) (Some ga) u (left_of t ga)"
    and c: "ctx (rb_node t) (rb_root t) gs (parent_of t ga) (Some ga)"
    using z InLeft by (auto simp: zipper_def)
  have "represents_tree (RbTree_rotate_set_parents ga a rbtRed (adopt (left_of t' a) ga (set_left a (Some ga) (set_right ga (left_of t' a) t'))))
    (plug gs (Nd (Nd u ga rbtRed (blacken l)) a (color_of t' ga) (Nd (blacken r) pa rbtRed pr)))"
  proof (rule rotate_left_tail [where par = "Some a" and gc = gc])
    show "ctx (rb_node t') (rb_root t') gs (parent_of t' ga) (Some ga)"
      using c dis s(1) by (cases r) (auto simp: t'_def RbTree_set_parent_color_def)
    show "shape (rb_node t') (Some ga) u (left_of t' ga)"
      using s dis by (cases r) (auto simp: t'_def RbTree_set_parent_color_def)
    show "shape (rb_node t') (Some a) (Nd (blacken r) pa rbtRed pr) (right_of t' a)"
      using s dis by (cases r) (auto simp: t'_def RbTree_set_parent_color_def)
    show "shape (rb_node t') (Some a) l (left_of t' a)"
      using s dis by (cases r) (auto simp: t'_def RbTree_set_parent_color_def)
    show "distinct (addrs (plug gs (Nd u ga rbtRed (Nd l a gc (Nd (blacken r) pa rbtRed pr)))))"
      using z InLeft by (simp add: zipper_def addrs_plug)
  qed
  moreover have "color_of t' ga = gc"
    using f s dis by (cases r) (auto simp: t'_def RbTree_set_parent_color_def)
  ultimately show ?thesis
    using f by (simp add: InLeft insert_rotate_right_def Let_def t'_def [symmetric])
qed

lemma insert_flip_zipper:
  assumes z: "zipper t (k # g # gs) (Nd l a rbtRed r) (Some p) (Some a)"
    and g: "(g = InLeft ga gc (Nd ul ua uc ur) \<or> g = InRight (Nd ul ua uc ur) ga gc)"
  defines "t' \<equiv> insert_flip ua p ga t"
  shows "zipper t' gs
    (case g of InLeft b c u \<Rightarrow> Nd (black_plug1 k (Nd l a rbtRed r)) ga rbtRed (blacken u)
     | InRight u b c \<Rightarrow> Nd (blacken u) ga rbtRed (black_plug1 k (Nd l a rbtRed r))) (parent_of t' ga) (Some ga)"
  using z g unfolding t'_def insert_flip_def Let_def
  by (cases k) (auto simp: zipper_def distinct_plug RbTree_set_parent_color_def)

lemma data_frame [simp]:
  "rb_data (rb_node (adopt q p t) b) = rb_data (rb_node t b)"
  "rb_data (rb_node (RbTree_set_parent_color a q c t) b) = rb_data (rb_node t b)"
  "rb_data (rb_node (RbTree_change_child a q par t) b) = rb_data (rb_node t b)"
  "rb_data (rb_node (set_left a q t) b) = rb_data (rb_node t b)"
  "rb_data (rb_node (set_right a q t) b) = rb_data (rb_node t b)"
  by (auto simp: RbTree_set_parent_color_def RbTree_change_child_def adopt_def upd_node_def split: option.split)

lemma data_insert [simp]:
  "rb_data (rb_node (RbTree_rotate_set_parents a q c t) b) = rb_data (rb_node t b)"
  "rb_data (rb_node (insert_flip u p g t) b) = rb_data (rb_node t b)"
  "rb_data (rb_node (insert_rotate_left a p g t) b) = rb_data (rb_node t b)"
  "rb_data (rb_node (insert_rotate_right a p g t) b) = rb_data (rb_node t b)"
proof -
  show r: "rb_data (rb_node (RbTree_rotate_set_parents a q c t) b) = rb_data (rb_node t b)" for a q c t
    by (simp add: RbTree_rotate_set_parents_def Let_def)
  show "rb_data (rb_node (insert_flip u p g t) b) = rb_data (rb_node t b)"
    by (simp only: insert_flip_def Let_def data_frame)
  show "rb_data (rb_node (insert_rotate_left a p g t) b) = rb_data (rb_node t b)"
    "rb_data (rb_node (insert_rotate_right a p g t) b) = rb_data (rb_node t b)"
    unfolding insert_rotate_left_def insert_rotate_right_def Let_def
    by (simp_all only: r data_frame split: if_split prod.split) (simp_all add: r del: rb_node_simps)
qed


lemma zipper_par: "zipper t (k # ks) x par f \<Longrightarrow> par = Some (crumb_addr k)"
  by (cases k) (auto simp: zipper_def)

lemma zipper_up:
  assumes "zipper t (k # ks) x (Some p) f"
  shows "crumb_color k = color_of t p" "zipper t ks (plug1 k x) (parent_of t p) (Some p)"
  using assms by (cases k; simp add: zipper_def)+

lemma insert_loop_fixup:
  assumes "zipper t ks (Nd l a rbtRed r) par (Some a)" and "ks \<noteq> [] \<longrightarrow> crumb_color (last ks) = rbtBlack"
  shows "\<exists>t'. insert_loop a par t = Some t' \<and> represents_tree t' (fixup ks l a r) \<and>
    (\<forall>b. rb_data (rb_node t' b) = rb_data (rb_node t b))"
  using assms
proof (induction ks l a r arbitrary: t par rule: fixup.induct)
  case (1 l a r)
  then have "par = None" by (simp add: zipper_def)
  with 1 have "represents_tree (RbTree_set_parent_color a None rbtBlack t) (Nd l a rbtBlack r)"
    by (auto simp: zipper_def represents_tree_def RbTree_set_parent_color_def)
  with \<open>par = None\<close> show ?case by (subst insert_loop.simps) simp
next
  case (2 k l a r)
  then obtain p where p: "par = Some p" using zipper_par by blast
  with 2 zipper_up(1) [of t k "[]" _ p] have "color_of t p = rbtBlack" by auto
  with p zipper_represents [OF 2(1)] show ?case
    by (subst insert_loop.simps) simp
next
  case (3 k g gs l a r)
  note z = 3(3)
  obtain p where p: "par = Some p" using zipper_par [OF z] by blast
  note z = z [unfolded p]
  have col: "crumb_color k = color_of t p" using zipper_up(1) [OF z] .
  show ?case
  proof (cases "color_of t p = rbtBlack")
    case True
    then show ?thesis using col p zipper_represents [OF z]
      by (subst insert_loop.simps) simp
  next
    case False
    have red: "crumb_color k \<noteq> rbtBlack" using False col by simp
    have black: "gs \<noteq> [] \<longrightarrow> crumb_color (last gs) = rbtBlack" using 3(4) by auto
    show ?thesis
    proof (cases g)
      case (InLeft ga gc u)
      have gp: "parent_of t p = Some ga" "left_of t ga = Some p" and u: "shape (rb_node t) (Some ga) u (right_of t ga)"
        and pu: "p \<notin> set (addrs u)"
        using z InLeft by (cases k; auto simp: zipper_def distinct_plug)+
      have ne: "right_of t ga \<noteq> Some p" using shape_neq [OF u pu] .
      show ?thesis
      proof (cases "red u")
        case True
        then obtain ul ua ur where ux: "u = Nd ul ua rbtRed ur" by (cases u) auto
        let ?t = "insert_flip ua p ga t"
        have "zipper ?t gs (Nd (black_plug1 k (Nd l a rbtRed r)) ga rbtRed (blacken u)) (parent_of ?t ga) (Some ga)"
          using insert_flip_zipper [OF z, of ga gc ul ua rbtRed ur] InLeft ux by simp
        from "3.IH"(1) [OF red InLeft True this black]
        show ?thesis using u ux p gp False ne InLeft red by (subst insert_loop.simps) (auto simp: is_red_def Let_def)
      next
        case False
        then have "\<not> is_red t (right_of t ga)" using u by (cases u) (auto simp: is_red_def)
        then show ?thesis
          using insert_turn_left [OF z [unfolded InLeft]] p gp \<open>color_of t p \<noteq> rbtBlack\<close> ne InLeft red False
          by (subst insert_loop.simps) (auto simp: Let_def)
      qed
    next
      case (InRight u ga gc)
      have gp: "parent_of t p = Some ga" "right_of t ga = Some p" and u: "shape (rb_node t) (Some ga) u (left_of t ga)"
        using z InRight by (cases k; auto simp: zipper_def distinct_plug)+
      show ?thesis
      proof (cases "red u")
        case True
        then obtain ul ua ur where ux: "u = Nd ul ua rbtRed ur" by (cases u) auto
        let ?t = "insert_flip ua p ga t"
        have "zipper ?t gs (Nd (blacken u) ga rbtRed (black_plug1 k (Nd l a rbtRed r))) (parent_of ?t ga) (Some ga)"
          using insert_flip_zipper [OF z, of ga gc ul ua rbtRed ur] InRight ux by simp
        from "3.IH"(2) [OF red InRight True this black]
        show ?thesis using u ux p gp False InRight red by (subst insert_loop.simps) (auto simp: is_red_def Let_def)
      next
        case False
        then have "\<not> is_red t (left_of t ga)" using u by (cases u) (auto simp: is_red_def)
        then show ?thesis
          using insert_turn_right [OF z [unfolded InRight]] p gp \<open>color_of t p \<noteq> rbtBlack\<close> InRight red False
          by (subst insert_loop.simps) (auto simp: Let_def)
      qed
    qed
  qed
qed

end
