(* ===== verification/Cyn_TreeOps.thy ===== *)
theory Cyn_TreeOps
  imports Cyn_Tree
begin

text \<open>
  The operations on red-black trees that the rest of the program calls: insertion, lookup, traversal
  and release (\<^verbatim>\<open>src/tree.c\<close>), with the comparison functions of \<^verbatim>\<open>include/tree.h\<close>. What they
  promise is proved under the assumption that the comparison is a total preorder (the locale
  \<open>comparator\<close>), which the number and string comparisons are shown to be.
\<close>

section \<open>Operations\<close>

definition RbTree_init_node :: "nat \<Rightarrow> 'v RbTreeBase \<Rightarrow> 'v RbTreeBase" where
  "RbTree_init_node node =
     upd_node node (\<lambda>n. n\<lparr>rb_left := None, rb_right := None, rb_parent := Some node, rb_color := rbtRed\<rparr>)"

partial_function (option) add_scan ::
  "('k \<Rightarrow> 'v \<Rightarrow> int) \<Rightarrow> 'k \<Rightarrow> 'v RbTreeBase \<Rightarrow> nat option \<Rightarrow> link \<Rightarrow> (nat option \<times> link) option" where
  "add_scan cmp v t par link =
     (case get_link t link of
        None \<Rightarrow> Some (par, link)
      | Some p \<Rightarrow> add_scan cmp v t (Some p) (if cmp v (rb_data (rb_node t p)) < 0 then LeftOf p else RightOf p))"

text \<open>The new node is what the allocator has given; without one an assertion fails.\<close>

definition RbTree_add_ref :: "('k \<Rightarrow> 'v \<Rightarrow> int) \<Rightarrow> 'k \<Rightarrow> nat option \<Rightarrow> 'v RbTreeBase \<Rightarrow> 'v RbTreeBase option" where
  "RbTree_add_ref cmp v got t =
     Option.bind got (\<lambda>node.
     let t = RbTree_init_node node t in
     Option.bind (add_scan cmp v t None Root) (\<lambda>(par, link).
     RbTree_insert node (RbTree_link_node link node par t)))"

text \<open>The macro \<open>RbTree_add\<close>, which also stores the value.\<close>

definition RbTree_add :: "('v \<Rightarrow> 'v \<Rightarrow> int) \<Rightarrow> 'v \<Rightarrow> nat \<Rightarrow> 'v RbTreeBase \<Rightarrow> 'v RbTreeBase option" where
  "RbTree_add cmp v node t =
     Option.bind (RbTree_add_ref cmp v (Some node) t) (\<lambda>t. Some (upd_node node (\<lambda>n. n\<lparr>rb_data := v\<rparr>) t))"

text \<open>The search of \<open>RbTree_find_or_add_\<close>: an existing node, or where to link a new one.\<close>

partial_function (option) find_or_add_scan ::
  "('k \<Rightarrow> 'v \<Rightarrow> int) \<Rightarrow> 'k \<Rightarrow> 'v RbTreeBase \<Rightarrow> nat option \<Rightarrow> link \<Rightarrow> (nat + nat option \<times> link) option" where
  "find_or_add_scan cmp v t par link =
     (case get_link t link of
        None \<Rightarrow> Some (Inr (par, link))
      | Some p \<Rightarrow>
          let res = cmp v (rb_data (rb_node t p)) in
          if res < 0 then find_or_add_scan cmp v t (Some p) (LeftOf p)
          else if res > 0 then find_or_add_scan cmp v t (Some p) (RightOf p)
          else Some (Inl p))"

text \<open>The node is asked for only when there is none to be found.\<close>

definition RbTree_find_or_add_ref ::
  "('k \<Rightarrow> 'v \<Rightarrow> int) \<Rightarrow> 'k \<Rightarrow> nat option \<Rightarrow> 'v RbTreeBase \<Rightarrow> (bool \<times> nat \<times> 'v RbTreeBase) option" where
  "RbTree_find_or_add_ref cmp v got t =
     Option.bind (find_or_add_scan cmp v t None Root) (\<lambda>found.
       case found of
         Inl p \<Rightarrow> Some (False, p, t)
       | Inr (par, link) \<Rightarrow>
           Option.bind got (\<lambda>node.
           Option.bind (RbTree_insert node (RbTree_link_node link node par (RbTree_init_node node t)))
             (\<lambda>t. Some (True, node, t))))"

definition RbTree_find_or_add ::
  "('v \<Rightarrow> 'v \<Rightarrow> int) \<Rightarrow> 'v \<Rightarrow> nat \<Rightarrow> 'v RbTreeBase \<Rightarrow> (bool \<times> nat \<times> 'v RbTreeBase) option" where
  "RbTree_find_or_add cmp v node t =
     Option.bind (RbTree_find_or_add_ref cmp v (Some node) t) (\<lambda>(added, p, t).
       Some (added, p, if added then upd_node p (\<lambda>n. n\<lparr>rb_data := v\<rparr>) t else t))"

partial_function (option) find_loop :: "('k \<Rightarrow> 'v \<Rightarrow> int) \<Rightarrow> 'k \<Rightarrow> 'v RbTreeBase \<Rightarrow> nat option \<Rightarrow> nat option option" where
  "find_loop cmp v t node =
     (case node of
        None \<Rightarrow> Some None
      | Some p \<Rightarrow>
          let res = cmp v (rb_data (rb_node t p)) in
          if res < 0 then find_loop cmp v t (left_of t p)
          else if res > 0 then find_loop cmp v t (right_of t p)
          else Some (Some p))"

definition RbTree_find :: "('k \<Rightarrow> 'v \<Rightarrow> int) \<Rightarrow> 'k \<Rightarrow> 'v RbTreeBase \<Rightarrow> nat option option" where
  "RbTree_find cmp v t = find_loop cmp v t (rb_root t)"

text \<open>In \<open>RbTree_find_first_\<close> the variable \<open>match\<close> is not initialised: it starts as \<open>junk\<close>.\<close>

partial_function (option) find_first_loop ::
  "('k \<Rightarrow> 'v \<Rightarrow> int) \<Rightarrow> 'k \<Rightarrow> 'v RbTreeBase \<Rightarrow> nat option \<Rightarrow> nat option \<Rightarrow> nat option option" where
  "find_first_loop cmp v t node match =
     (case node of
        None \<Rightarrow> Some match
      | Some p \<Rightarrow>
          let res = cmp v (rb_data (rb_node t p)) in
          if res \<le> 0 then find_first_loop cmp v t (left_of t p) (if res = 0 then node else match)
          else find_first_loop cmp v t (right_of t p) match)"

definition RbTree_find_first :: "('k \<Rightarrow> 'v \<Rightarrow> int) \<Rightarrow> 'k \<Rightarrow> nat option \<Rightarrow> 'v RbTreeBase \<Rightarrow> nat option option" where
  "RbTree_find_first cmp v junk t = find_first_loop cmp v t (rb_root t) junk"

subsection \<open>Traversal\<close>

partial_function (option) leftmost :: "'v RbTreeBase \<Rightarrow> nat \<Rightarrow> nat option" where
  "leftmost t a = (case left_of t a of Some b \<Rightarrow> leftmost t b | None \<Rightarrow> Some a)"

partial_function (option) rightmost :: "'v RbTreeBase \<Rightarrow> nat \<Rightarrow> nat option" where
  "rightmost t a = (case right_of t a of Some b \<Rightarrow> rightmost t b | None \<Rightarrow> Some a)"

partial_function (option) climb_right :: "'v RbTreeBase \<Rightarrow> nat \<Rightarrow> nat option option" where
  "climb_right t a =
     (case parent_of t a of
        None \<Rightarrow> Some None
      | Some p \<Rightarrow> if right_of t p = Some a then climb_right t p else Some (Some p))"

partial_function (option) climb_left :: "'v RbTreeBase \<Rightarrow> nat \<Rightarrow> nat option option" where
  "climb_left t a =
     (case parent_of t a of
        None \<Rightarrow> Some None
      | Some p \<Rightarrow> if left_of t p = Some a then climb_left t p else Some (Some p))"

definition RbTree_node_is_empty :: "'v RbTreeBase \<Rightarrow> nat \<Rightarrow> bool" where
  "RbTree_node_is_empty t a \<longleftrightarrow> parent_of t a = Some a \<and> color_of t a = rbtRed"

definition RbTreeNode_next :: "'v RbTreeBase \<Rightarrow> nat \<Rightarrow> nat option option" where
  "RbTreeNode_next t a =
     (if RbTree_node_is_empty t a then Some None
      else case right_of t a of
             Some b \<Rightarrow> map_option Some (leftmost t b)
           | None \<Rightarrow> climb_right t a)"

definition RbTreeNode_prev :: "'v RbTreeBase \<Rightarrow> nat \<Rightarrow> nat option option" where
  "RbTreeNode_prev t a =
     (if RbTree_node_is_empty t a then Some None
      else case left_of t a of
             Some b \<Rightarrow> map_option Some (rightmost t b)
           | None \<Rightarrow> climb_left t a)"

definition RbTree_first :: "'v RbTreeBase \<Rightarrow> nat option option" where
  "RbTree_first t = (case rb_root t of None \<Rightarrow> Some None | Some a \<Rightarrow> map_option Some (leftmost t a))"

text \<open>The nodes that \<open>RbTree_for_each\<close> visits.\<close>

partial_function (option) for_each_from :: "'v RbTreeBase \<Rightarrow> nat option \<Rightarrow> nat list option" where
  "for_each_from t it =
     (case it of
        None \<Rightarrow> Some []
      | Some a \<Rightarrow> Option.bind (RbTreeNode_next t a) (\<lambda>b. Option.bind (for_each_from t b) (\<lambda>xs. Some (a # xs))))"

definition RbTree_for_each :: "'v RbTreeBase \<Rightarrow> nat list option" where
  "RbTree_for_each t = Option.bind (RbTree_first t) (for_each_from t)"

text \<open>The nodes in the order in which \<open>RbTree_deinit_\<close> hands them to the destructor and frees them.\<close>

partial_function (option) RbTree_deinit_node :: "'v RbTreeBase \<Rightarrow> nat option \<Rightarrow> nat list option" where
  "RbTree_deinit_node t node =
     (case node of
        None \<Rightarrow> Some []
      | Some a \<Rightarrow>
          Option.bind (RbTree_deinit_node t (left_of t a)) (\<lambda>xs.
          Option.bind (RbTree_deinit_node t (right_of t a)) (\<lambda>ys. Some (xs @ ys @ [a]))))"

definition RbTree_deinit :: "'v RbTreeBase \<Rightarrow> (nat list \<times> 'v RbTreeBase) option" where
  "RbTree_deinit t = map_option (\<lambda>xs. (xs, t\<lparr>rb_root := None\<rparr>)) (RbTree_deinit_node t (rb_root t))"

declare add_scan.simps [code] find_or_add_scan.simps [code] find_loop.simps [code] find_first_loop.simps [code]
  leftmost.simps [code] rightmost.simps [code] climb_right.simps [code] climb_left.simps [code]
  for_each_from.simps [code] RbTree_deinit_node.simps [code]

subsection \<open>Comparisons\<close>

definition RbTree_cmp_u32 :: "u32 \<Rightarrow> u32 \<Rightarrow> int" where
  "RbTree_cmp_u32 v1 v2 = (if v1 < v2 then -1 else if v1 > v2 then 1 else 0)"

text \<open>Strings are their bytes without the terminating zero; a C \<open>char\<close> is signed.\<close>

fun RbTree_strncmp :: "u8 list \<Rightarrow> u32 \<Rightarrow> u8 list \<Rightarrow> int" where
  "RbTree_strncmp (c1 # s1) len (c2 # s2) =
     (if len \<noteq> 0 then if c1 \<noteq> c2 then sint c1 - sint c2 else RbTree_strncmp s1 (len - 1) s2 else -1)"
| "RbTree_strncmp [] len (c2 # s2) = (if len \<noteq> 0 then - sint c2 else -1)"
| "RbTree_strncmp s1 len [] = (if len = 0 then 0 else 1)"

definition toupper :: "u8 \<Rightarrow> int" where
  "toupper c = (if 0x61 \<le> c \<and> c \<le> 0x7A then sint (c - 0x20) else sint c)"

fun RbTree_strncasecmp :: "u8 list \<Rightarrow> u32 \<Rightarrow> u8 list \<Rightarrow> int" where
  "RbTree_strncasecmp (c1 # s1) len (c2 # s2) =
     (if len \<noteq> 0 then if toupper c1 \<noteq> toupper c2 then toupper c1 - toupper c2
                       else RbTree_strncasecmp s1 (len - 1) s2
      else -1)"
| "RbTree_strncasecmp [] len (c2 # s2) = (if len \<noteq> 0 then - toupper c2 else -1)"
| "RbTree_strncasecmp s1 len [] = (if len = 0 then 0 else 1)"

text \<open>The library's \<open>strcmp\<close> compares as unsigned bytes; only the sign of its result is fixed.\<close>

fun strcmp :: "u8 list \<Rightarrow> u8 list \<Rightarrow> int" where
  "strcmp [] [] = 0"
| "strcmp [] (c # s) = -1"
| "strcmp (c # s) [] = 1"
| "strcmp (c1 # s1) (c2 # s2) = (if c1 = c2 then strcmp s1 s2 else uint c1 - uint c2)"

definition RbTree_cmp_string :: "u8 list \<Rightarrow> u32 \<Rightarrow> u8 list \<Rightarrow> int" where
  "RbTree_cmp_string s1 len s2 = (if len = 0 then strcmp s1 s2 else RbTree_strncmp s1 len s2)"


section \<open>The colours\<close>

lemma color_neq: "c \<noteq> rbtBlack \<longleftrightarrow> c = rbtRed" "c \<noteq> rbtRed \<longleftrightarrow> c = rbtBlack"
  by (cases c; simp)+

text \<open>No red node has a red child.\<close>

primrec nrr :: "rbt \<Rightarrow> bool" where
  "nrr Lf = True"
| "nrr (Nd l a c r) \<longleftrightarrow> nrr l \<and> nrr r \<and> (c = rbtRed \<longrightarrow> \<not> red l \<and> \<not> red r)"

lemma red_plug: "red (plug ks x) = (if ks = [] then red x else crumb_color (last ks) = rbtRed)"
proof (induction ks arbitrary: x)
  case (Cons k ks)
  then show ?case by (cases k) auto
qed simp

lemma nrr_plug_inner: "nrr (plug ks x) \<Longrightarrow> nrr x"
proof (induction ks arbitrary: x)
  case (Cons k ks)
  from Cons.IH [of "plug1 k x"] Cons.prems show ?case by (cases k) auto
qed simp

lemma nrr_plug_mono: "nrr (plug ks x) \<Longrightarrow> nrr y \<Longrightarrow> (red y \<Longrightarrow> red x) \<Longrightarrow> nrr (plug ks y)"
proof (induction ks arbitrary: x y)
  case (Cons k ks)
  have "nrr (plug1 k x)" using Cons.prems(1) nrr_plug_inner by simp
  then have "nrr (plug1 k y)" "red (plug1 k y) \<Longrightarrow> red (plug1 k x)" using Cons.prems(2,3) by (cases k; auto)+
  from Cons.IH [OF _ this] Cons.prems(1) show ?case by simp
qed simp

text \<open>At a black parent the new subtree may be red.\<close>

lemma nrr_plug_black: "nrr (plug (k # ks) x) \<Longrightarrow> crumb_color k = rbtBlack \<Longrightarrow> nrr y \<Longrightarrow> nrr (plug (k # ks) y)"
  using nrr_plug_mono [of ks "plug1 k x" "plug1 k y"] nrr_plug_inner [of ks "plug1 k x"]
  by (cases k) auto

lemma nrr_blacken [simp]: "nrr x \<Longrightarrow> nrr (blacken x)" "\<not> red (blacken x)"
  by (cases x; simp)+

lemma nrr_turn:
  assumes "nrr (plug1 k Lf)" "crumb_color k \<noteq> rbtBlack" "nrr l" "nrr r" "\<not> red l" "\<not> red r" "nrr u" "\<not> red u"
  shows "nrr (turn_left k l a r ga rbtBlack u)" "\<not> red (turn_left k l a r ga rbtBlack u)"
    "nrr (turn_right k l a r u ga rbtBlack)" "\<not> red (turn_right k l a r u ga rbtBlack)"
  using assms by (cases k; simp add: color_neq)+

lemma nrr_fixup:
  assumes "nrr (plug ks Lf)" "nrr l" "nrr r" "\<not> red l" "\<not> red r" "ks \<noteq> [] \<longrightarrow> crumb_color (last ks) = rbtBlack"
  shows "nrr (fixup ks l a r) \<and> \<not> red (fixup ks l a r)"
  using assms
proof (induction ks l a r rule: fixup.induct)
  case (2 k l a r)
  then show ?case by (cases k) auto
next
  case (3 k g gs l a r)
  have up: "nrr (plug gs (plug1 g (plug1 k Lf)))" using 3(3) by simp
  then have kg: "nrr (plug1 g (plug1 k Lf))" using nrr_plug_inner by blast
  show ?case
  proof (cases "crumb_color k = rbtBlack")
    case True
    with 3 show ?thesis using nrr_plug_black [OF 3(3) True, of "Nd l a rbtRed r"]
      by (auto simp: red_plug simp del: plug.simps)
  next
    case False
    then have g: "crumb_color g = rbtBlack" using kg by (cases "crumb_color g"; cases g; cases k) (simp_all add: color_neq)
    have top: "gs \<noteq> [] \<longrightarrow> crumb_color (last gs) = rbtBlack" using 3(8) by auto
    have hole: "nrr (plug gs Lf)" using nrr_plug_mono [OF up, of Lf] by simp
    have turn: "nrr (plug gs y) \<and> \<not> red (plug gs y)" if "nrr y" "\<not> red y" for y
      using nrr_plug_mono [OF up that(1)] that(2) top by (auto simp: red_plug)
    have sub: "nrr (black_plug1 k (Nd l a rbtRed r)) \<and> \<not> red (black_plug1 k (Nd l a rbtRed r))"
      using 3(4-7) kg by (cases g; cases k) auto
    show ?thesis
    proof (cases g)
      case (InLeft ga gc u)
      have "nrr u" "nrr (plug1 k Lf)" "gc = rbtBlack" using kg g InLeft by simp_all
      then have "nrr (turn_left k l a r ga gc u)" "\<not> red (turn_left k l a r ga gc u)" if "\<not> red u"
        using nrr_turn(1,2) [OF _ False 3(4-7)] that by blast+
      note black = turn [OF this]
      have "nrr u" using kg InLeft by simp
      from "3.IH"(1) [OF False InLeft _ hole conjunct1 [OF sub] nrr_blacken(1) [OF this] conjunct2 [OF sub] nrr_blacken(2) top]
      show ?thesis using black False InLeft by (cases "red u") simp_all
    next
      case (InRight u ga gc)
      have "nrr u" "nrr (plug1 k Lf)" "gc = rbtBlack" using kg g InRight by simp_all
      then have "nrr (turn_right k l a r u ga gc)" "\<not> red (turn_right k l a r u ga gc)" if "\<not> red u"
        using nrr_turn(3,4) [OF _ False 3(4-7)] that by blast+
      note black = turn [OF this]
      have "nrr u" using kg InRight by simp
      from "3.IH"(2) [OF False InRight _ hole nrr_blacken(1) [OF this] conjunct1 [OF sub] nrr_blacken(2) conjunct2 [OF sub] top]
      show ?thesis using black False InRight by (cases "red u") simp_all
    qed
  qed
qed simp


section \<open>Searching\<close>

primrec link_of :: "crumb list \<Rightarrow> link" where
  "link_of [] = Root"
| "link_of (k # ks) = (case k of InLeft a c r \<Rightarrow> LeftOf a | InRight l a c \<Rightarrow> RightOf a)"

lemma get_link_of: "zipper t ks x par f \<Longrightarrow> get_link t (link_of ks) = f"
  by (cases ks) (auto simp: zipper_def split: crumb.splits)

lemma zipper_down:
  assumes "zipper t ks (Nd l a c r) par f"
  shows "f = Some a" "zipper t (InLeft a c r # ks) l (Some a) (left_of t a)"
    "zipper t (InRight l a c # ks) r (Some a) (right_of t a)"
  using assms by (auto simp: zipper_def)

lemma zipper_Lf: "zipper t ks Lf par f \<Longrightarrow> f = None"
  by (simp add: zipper_def)

lemma zipper_link_node:
  assumes "zipper t ks Lf par None" "node \<notin> set (path ks)"
  shows "zipper (RbTree_link_node (link_of ks) node par (RbTree_init_node node t)) ks (Nd Lf node rbtRed Lf) par (Some node)"
  using assms
  by (cases ks) (auto simp: zipper_def RbTree_link_node_def RbTree_init_node_def distinct_plug split: crumb.splits)

abbreviation val :: "'v RbTreeBase \<Rightarrow> nat \<Rightarrow> 'v" where
  "val t a \<equiv> rb_data (rb_node t a)"

lemma val_link_node [simp]: "val (RbTree_link_node link node par (RbTree_init_node node t)) b = val t b"
  by (cases link) (auto simp: RbTree_link_node_def RbTree_init_node_def)

text \<open>A tree whose nodes, in order, are \<open>as\<close>, with the colours in order.\<close>

definition tree_nodes :: "'v RbTreeBase \<Rightarrow> nat list \<Rightarrow> bool" where
  "tree_nodes t as \<longleftrightarrow> (\<exists>x. represents_tree t x \<and> nrr x \<and> \<not> red x \<and> addrs x = as)"

lemma shape_data [simp]: "shape (s(a := (s a)\<lparr>rb_data := v\<rparr>)) q x f = shape s q x f"
  by (induction x arbitrary: q f) auto

lemma tree_nodes_data [simp]: "tree_nodes (upd_node a (\<lambda>n. n\<lparr>rb_data := v\<rparr>) t) as = tree_nodes t as"
  by (simp add: tree_nodes_def represents_tree_def)

definition ordered :: "('v \<Rightarrow> 'v \<Rightarrow> int) \<Rightarrow> 'v RbTreeBase \<Rightarrow> nat list \<Rightarrow> bool" where
  "ordered cmp t as \<longleftrightarrow> sorted_wrt (\<lambda>a b. cmp (val t a) (val t b) \<le> 0) as"

text \<open>Linking a new node where a search ended, and repairing the colours.\<close>

lemma insert_at:
  assumes "zipper t ks Lf par None" "nrr (plug ks Lf)" "\<not> red (plug ks Lf)" "node \<notin> set (path ks)"
  shows "\<exists>t'. RbTree_insert node (RbTree_link_node (link_of ks) node par (RbTree_init_node node t)) = Some t' \<and>
    tree_nodes t' (before ks @ node # after ks) \<and> (\<forall>b. val t' b = val t b)"
proof -
  let ?t = "RbTree_link_node (link_of ks) node par (RbTree_init_node node t)"
  have z: "zipper ?t ks (Nd Lf node rbtRed Lf) par (Some node)" by (rule zipper_link_node [OF assms(1,4)])
  then have p: "parent_of ?t node = par" by (auto simp: zipper_def)
  have top: "ks \<noteq> [] \<longrightarrow> crumb_color (last ks) = rbtBlack"
    using assms(3) by (auto simp: red_plug color_neq)
  obtain t' where t': "insert_loop node par ?t = Some t'" "represents_tree t' (fixup ks Lf node Lf)"
    "\<forall>b. val t' b = val ?t b"
    using insert_loop_fixup [OF z top] by blast
  have "nrr (fixup ks Lf node Lf) \<and> \<not> red (fixup ks Lf node Lf)"
    by (rule nrr_fixup) (use assms(2) top in auto)
  with t' p show ?thesis
    by (auto simp: RbTree_insert_def tree_nodes_def addrs_fixup intro!: exI [of _ "fixup ks Lf node Lf"])
qed


section \<open>Insertion and lookup in an ordered tree\<close>

locale comparator =
  fixes cmp :: "'v \<Rightarrow> 'v \<Rightarrow> int"
  assumes cmp_refl: "cmp x x = 0"
    and cmp_swap: "cmp x y < 0 \<longleftrightarrow> 0 < cmp y x"
    and cmp_trans: "cmp x y \<le> 0 \<Longrightarrow> cmp y z \<le> 0 \<Longrightarrow> cmp x z \<le> 0"

context comparator
begin

lemma less_le: "cmp x y < 0 \<Longrightarrow> cmp y z \<le> 0 \<Longrightarrow> cmp x z < 0"
  using cmp_swap [of x z] cmp_swap [of x y] cmp_trans [of y z x] cmp_swap [of z x] by force

lemma le_greater: "cmp x y \<le> 0 \<Longrightarrow> 0 < cmp z y \<Longrightarrow> 0 < cmp z x"
  using cmp_swap [of x z] cmp_swap [of y z] cmp_trans [of z x y] by force

lemma le_ge: "cmp x y \<le> 0 \<Longrightarrow> 0 \<le> cmp z y \<Longrightarrow> 0 \<le> cmp z x"
  using less_le [of z x y] by force

definition sep :: "'v RbTreeBase \<Rightarrow> 'v \<Rightarrow> crumb list \<Rightarrow> bool" where
  "sep t v ks \<longleftrightarrow> (\<forall>a \<in> set (before ks). 0 \<le> cmp v (val t a)) \<and> (\<forall>a \<in> set (after ks). cmp v (val t a) < 0)"

definition sep_strict :: "'v RbTreeBase \<Rightarrow> 'v \<Rightarrow> crumb list \<Rightarrow> bool" where
  "sep_strict t v ks \<longleftrightarrow> (\<forall>a \<in> set (before ks). 0 < cmp v (val t a)) \<and> (\<forall>a \<in> set (after ks). cmp v (val t a) < 0)"

lemma ordered_node:
  assumes "ordered cmp t (addrs (plug ks (Nd l a c r)))"
  shows "\<forall>b \<in> set (addrs l). cmp (val t b) (val t a) \<le> 0" "\<forall>b \<in> set (addrs r). cmp (val t a) (val t b) \<le> 0"
  using assms by (auto simp: ordered_def addrs_plug sorted_wrt_append)

lemma ordered_sub: "ordered cmp t (addrs (plug ks (Nd l a c r))) \<Longrightarrow>
    ordered cmp t (addrs (plug (InLeft a c r # ks) l)) \<and> ordered cmp t (addrs (plug (InRight l a c # ks) r))"
  by simp

lemma add_scan_sound:
  assumes "zipper t ks x par f" "ordered cmp t (addrs (plug ks x))" "sep t v ks"
  shows "\<exists>ks' par'. add_scan cmp v t par (link_of ks) = Some (par', link_of ks') \<and>
    zipper t ks' Lf par' None \<and> plug ks' Lf = plug ks x \<and> sep t v ks'"
  using assms
proof (induction x arbitrary: ks par f)
  case Lf
  with zipper_Lf [OF Lf(1)] get_link_of [OF Lf(1)] show ?case
    by (subst add_scan.simps) (auto intro!: exI [of _ ks])
next
  case (Nd l a c r)
  note down = zipper_down [OF Nd.prems(1)] and os = ordered_sub [OF Nd.prems(2)]
  note on = ordered_node [OF Nd.prems(2)]
  have g: "get_link t (link_of ks) = Some a" using get_link_of [OF Nd.prems(1)] down(1) by simp
  show ?case
  proof (cases "cmp v (val t a) < 0")
    case True
    have "sep t v (InLeft a c r # ks)" using Nd.prems(3) True on(2) less_le by (fastforce simp: sep_def)
    from Nd.IH(1) [OF down(2) conjunct1 [OF os] this] g True
    show ?thesis by (subst add_scan.simps) simp
  next
    case False
    have "sep t v (InRight l a c # ks)" using Nd.prems(3) False on(1) le_ge by (fastforce simp: sep_def)
    from Nd.IH(2) [OF down(3) conjunct2 [OF os] this] g False
    show ?thesis by (subst add_scan.simps) simp
  qed
qed

lemma find_or_add_scan_sound:
  assumes "zipper t ks x par f" "ordered cmp t (addrs (plug ks x))" "sep_strict t v ks"
  shows "(\<exists>p. find_or_add_scan cmp v t par (link_of ks) = Some (Inl p) \<and> p \<in> set (addrs x) \<and> cmp v (val t p) = 0) \<or>
    (\<exists>ks' par'. find_or_add_scan cmp v t par (link_of ks) = Some (Inr (par', link_of ks')) \<and>
      zipper t ks' Lf par' None \<and> plug ks' Lf = plug ks x \<and> sep_strict t v ks')"
  using assms
proof (induction x arbitrary: ks par f)
  case Lf
  with zipper_Lf [OF Lf(1)] get_link_of [OF Lf(1)] show ?case
    by (subst (1 2) find_or_add_scan.simps) (auto intro!: exI [of _ ks])
next
  case (Nd l a c r)
  note down = zipper_down [OF Nd.prems(1)] and os = ordered_sub [OF Nd.prems(2)]
  note on = ordered_node [OF Nd.prems(2)]
  have g: "get_link t (link_of ks) = Some a" using get_link_of [OF Nd.prems(1)] down(1) by simp
  consider "cmp v (val t a) < 0" | "0 < cmp v (val t a)" | "cmp v (val t a) = 0" by linarith
  then show ?case
  proof cases
    case 1
    have "sep_strict t v (InLeft a c r # ks)" using Nd.prems(3) 1 on(2) less_le by (fastforce simp: sep_strict_def)
    from Nd.IH(1) [OF down(2) conjunct1 [OF os] this] g 1
    show ?thesis by (subst (1 2) find_or_add_scan.simps) (auto simp: Let_def)
  next
    case 2
    have "sep_strict t v (InRight l a c # ks)" using Nd.prems(3) 2 on(1) le_greater by (fastforce simp: sep_strict_def)
    from Nd.IH(2) [OF down(3) conjunct2 [OF os] this] g 2
    show ?thesis by (subst (1 2) find_or_add_scan.simps) (auto simp: Let_def)
  next
    case 3
    with g show ?thesis by (subst (1 2) find_or_add_scan.simps) (auto simp: Let_def)
  qed
qed


lemma find_loop_sound:
  assumes "shape (rb_node t) par x p" "ordered cmp t (addrs x)"
  shows "\<exists>r. find_loop cmp v t p = Some r \<and>
    (case r of None \<Rightarrow> \<forall>a \<in> set (addrs x). cmp v (val t a) \<noteq> 0
     | Some a \<Rightarrow> a \<in> set (addrs x) \<and> cmp v (val t a) = 0)"
  using assms
proof (induction x arbitrary: par p)
  case Lf
  then show ?case by (subst find_loop.simps) simp
next
  case (Nd l a c r)
  have on: "\<forall>b \<in> set (addrs l). cmp (val t b) (val t a) \<le> 0" "\<forall>b \<in> set (addrs r). cmp (val t a) (val t b) \<le> 0"
    and o: "ordered cmp t (addrs l)" "ordered cmp t (addrs r)"
    using Nd.prems(2) by (auto simp: ordered_def sorted_wrt_append)
  have p: "p = Some a" using Nd.prems(1) by simp
  consider "cmp v (val t a) < 0" | "0 < cmp v (val t a)" | "cmp v (val t a) = 0" by linarith
  then show ?case
  proof cases
    case 1
    then have "\<forall>b \<in> set (addrs r). cmp v (val t b) \<noteq> 0" using on(2) less_le by fastforce
    moreover obtain q where "find_loop cmp v t (left_of t a) = Some q"
      "case q of None \<Rightarrow> \<forall>a \<in> set (addrs l). cmp v (val t a) \<noteq> 0
       | Some a \<Rightarrow> a \<in> set (addrs l) \<and> cmp v (val t a) = 0"
      using Nd.IH(1) [OF _ o(1)] Nd.prems(1) by auto
    ultimately show ?thesis using p 1 by (subst find_loop.simps) (auto split: option.splits)
  next
    case 2
    then have "\<forall>b \<in> set (addrs l). cmp v (val t b) \<noteq> 0" using on(1) le_greater by fastforce
    moreover obtain q where "find_loop cmp v t (right_of t a) = Some q"
      "case q of None \<Rightarrow> \<forall>a \<in> set (addrs r). cmp v (val t a) \<noteq> 0
       | Some a \<Rightarrow> a \<in> set (addrs r) \<and> cmp v (val t a) = 0"
      using Nd.IH(2) [OF _ o(2)] Nd.prems(1) by auto
    ultimately show ?thesis using p 2 by (subst find_loop.simps) (auto split: option.splits)
  next
    case 3
    with p show ?thesis by (subst find_loop.simps) simp
  qed
qed

text \<open>Adding a value to an ordered tree, and looking one up.\<close>

lemma ordered_cong:
  "\<forall>a \<in> set as. val t' a = val t a \<Longrightarrow> ordered cmp t' as \<longleftrightarrow> ordered cmp t as"
  by (induction as) (auto simp: ordered_def)

lemma ordered_insert:
  assumes "ordered cmp t (xs @ ys)" "\<forall>b. b \<noteq> node \<longrightarrow> val t' b = val t b" "val t' node = v" "node \<notin> set (xs @ ys)"
    and "\<forall>a \<in> set xs. 0 \<le> cmp v (val t a)" "\<forall>a \<in> set ys. cmp v (val t a) < 0"
  shows "ordered cmp t' (xs @ node # ys)"
proof -
  have same: "\<forall>a \<in> set (xs @ ys). val t' a = val t a" using assms(2,4) by metis
  have "ordered cmp t' (xs @ ys)" using assms(1) ordered_cong [OF same] by simp
  moreover have "cmp (val t' a) v \<le> 0" if "a \<in> set xs" for a
    using that assms(5) same cmp_swap [of v "val t a"] by force
  moreover have "cmp v (val t' a) \<le> 0" if "a \<in> set ys" for a
    using that assms(6) same by force
  ultimately show ?thesis using assms(3) by (auto simp: ordered_def sorted_wrt_append)
qed

lemma add_law:
  assumes "tree_nodes t as" "ordered cmp t as" "node \<notin> set as"
  shows "\<exists>t' xs ys. RbTree_add cmp v node t = Some t' \<and> as = xs @ ys \<and>
    tree_nodes t' (xs @ node # ys) \<and> ordered cmp t' (xs @ node # ys) \<and>
    val t' node = v \<and> (\<forall>b. b \<noteq> node \<longrightarrow> val t' b = val t b) \<and>
    (\<forall>a \<in> set xs. 0 \<le> cmp v (val t a)) \<and> (\<forall>a \<in> set ys. cmp v (val t a) < 0)"
proof -
  obtain x where x: "represents_tree t x" "nrr x" "\<not> red x" "addrs x = as"
    using assms(1) by (auto simp: tree_nodes_def)
  let ?t = "RbTree_init_node node t"
  have z: "zipper ?t [] x None (rb_root ?t)"
    using represents_zipper [OF x(1)] assms(3) x(4) by (simp add: zipper_def RbTree_init_node_def)
  have vals: "val ?t b = val t b" for b by (simp add: RbTree_init_node_def)
  obtain ks par where s: "add_scan cmp v ?t None Root = Some (par, link_of ks)" "zipper ?t ks Lf par None"
    "plug ks Lf = x" "sep ?t v ks"
    using add_scan_sound [OF z, of v] assms(2) x(4) vals by (fastforce simp: ordered_def sep_def)
  have as: "as = before ks @ after ks" using x(4) s(3) by (auto simp: addrs_plug)
  have "node \<notin> set (path ks)" using assms(3) as by (auto simp: set_path)
  from insert_at [OF s(2) _ _ this] s(3) x(2,3) obtain t' where
    t': "RbTree_insert node (RbTree_link_node (link_of ks) node par (RbTree_init_node node ?t)) = Some t'"
    "tree_nodes t' (before ks @ node # after ks)" "\<forall>b. val t' b = val ?t b" by auto
  have "RbTree_init_node node ?t = ?t" by (simp add: RbTree_init_node_def upd_node_def)
  define t'' where "t'' = upd_node node (\<lambda>n. n\<lparr>rb_data := v\<rparr>) t'"
  have v: "val t'' node = v" "\<forall>b. b \<noteq> node \<longrightarrow> val t'' b = val t b"
    using t'(3) vals by (simp_all add: t''_def)
  have "tree_nodes t'' (before ks @ node # after ks)"
    using t'(2) by (simp add: t''_def)
  moreover have "\<forall>a \<in> set (before ks). 0 \<le> cmp v (val t a)" "\<forall>a \<in> set (after ks). cmp v (val t a) < 0"
    using s(4) vals by (auto simp: sep_def)
  moreover have "RbTree_add cmp v node t = Some t''"
    using s(1) t'(1) \<open>RbTree_init_node node ?t = ?t\<close>
    by (simp add: RbTree_add_def RbTree_add_ref_def Let_def t''_def)
  ultimately show ?thesis
    using as v ordered_insert [OF _ v(2,1)] assms(2,3) by blast
qed

lemma find_law:
  assumes "tree_nodes t as" "ordered cmp t as"
  shows "\<exists>r. RbTree_find cmp v t = Some r \<and>
    (case r of None \<Rightarrow> \<forall>a \<in> set as. cmp v (val t a) \<noteq> 0 | Some a \<Rightarrow> a \<in> set as \<and> cmp v (val t a) = 0)"
  using assms find_loop_sound [of t None _ "rb_root t" v]
  by (auto simp: tree_nodes_def represents_tree_def RbTree_find_def)

lemma find_or_add_law:
  assumes "tree_nodes t as" "ordered cmp t as" "node \<notin> set as"
  shows "(\<exists>p \<in> set as. RbTree_find_or_add cmp v node t = Some (False, p, t) \<and> cmp v (val t p) = 0) \<or>
    (\<exists>t' xs ys. RbTree_find_or_add cmp v node t = Some (True, node, t') \<and> as = xs @ ys \<and>
      tree_nodes t' (xs @ node # ys) \<and> ordered cmp t' (xs @ node # ys) \<and>
      val t' node = v \<and> (\<forall>b. b \<noteq> node \<longrightarrow> val t' b = val t b) \<and> (\<forall>a \<in> set as. cmp v (val t a) \<noteq> 0))"
proof -
  obtain x where x: "represents_tree t x" "nrr x" "\<not> red x" "addrs x = as"
    using assms(1) by (auto simp: tree_nodes_def)
  have o: "ordered cmp t (addrs (plug [] x))" "sep_strict t v []" using assms(2) x(4) by (simp_all add: sep_strict_def)
  consider (found) p where "find_or_add_scan cmp v t None Root = Some (Inl p)" "p \<in> set as" "cmp v (val t p) = 0"
    | (new) ks par where "find_or_add_scan cmp v t None Root = Some (Inr (par, link_of ks))"
      "zipper t ks Lf par None" "plug ks Lf = x" "sep_strict t v ks"
    using find_or_add_scan_sound [OF represents_zipper [OF x(1)] o] x(4) by auto
  then show ?thesis
  proof cases
    case found
    then show ?thesis by (auto simp: RbTree_find_or_add_def RbTree_find_or_add_ref_def)
  next
    case new
    have as: "as = before ks @ after ks" using x(4) new(3) by (auto simp: addrs_plug)
    have "node \<notin> set (path ks)" using assms(3) as by (auto simp: set_path)
    from insert_at [OF new(2) _ _ this] new(3) x(2,3) obtain t' where
      t': "RbTree_insert node (RbTree_link_node (link_of ks) node par (RbTree_init_node node t)) = Some t'"
      "tree_nodes t' (before ks @ node # after ks)" "\<forall>b. val t' b = val t b" by auto
    let ?t = "upd_node node (\<lambda>n. n\<lparr>rb_data := v\<rparr>) t'"
    have s: "\<forall>a \<in> set (before ks). 0 < cmp v (val t a)" "\<forall>a \<in> set (after ks). cmp v (val t a) < 0"
      using new(4) by (auto simp: sep_strict_def)
    have v: "val ?t node = v" "\<forall>b. b \<noteq> node \<longrightarrow> val ?t b = val t b" using t'(3) by simp_all
    have "ordered cmp ?t (before ks @ node # after ks)"
      by (rule ordered_insert [OF _ v(2,1)]) (use assms(2,3) as s in \<open>force+\<close>)
    moreover have "\<forall>a \<in> set as. cmp v (val t a) \<noteq> 0" using s as by auto
    moreover have "RbTree_find_or_add cmp v node t = Some (True, node, ?t)"
      using new(1) t'(1) by (simp add: RbTree_find_or_add_def RbTree_find_or_add_ref_def)
    ultimately show ?thesis
      by (intro disjI2 exI [of _ ?t] exI [of _ "before ks"] exI [of _ "after ks"])
        (use as v t'(2) tree_nodes_data in \<open>simp del: rb_node_simps\<close>)
  qed
qed

end

end
