(* ===== verification/Cyn_TreeUse.thy ===== *)
theory Cyn_TreeUse
  imports Cyn_TreeOps
begin

text \<open>
  Traversal and release of red-black trees, the comparisons as instances of the locale
  \<open>comparator\<close>, and the properties of the trees.
\<close>

section \<open>Traversal\<close>

lemma leftmost_hd: "shape (rb_node t) par x (Some b) \<Longrightarrow> leftmost t b = Some (hd (addrs x))"
proof (induction x arbitrary: par b)
  case (Nd l a c r)
  then show ?case by (cases l) (subst leftmost.simps; auto simp: hd_append)+
qed simp

lemma rightmost_last: "shape (rb_node t) par x (Some b) \<Longrightarrow> rightmost t b = Some (last (addrs x))"
proof (induction x arbitrary: par b)
  case (Nd l a c r)
  then show ?case by (cases r) (subst rightmost.simps; auto)+
qed simp

definition first_of :: "nat list \<Rightarrow> nat option" where
  "first_of as = (case as of [] \<Rightarrow> None | a # _ \<Rightarrow> Some a)"

lemma first_of_hd: "as \<noteq> [] \<Longrightarrow> first_of as = Some (hd as)"
  by (cases as) (simp_all add: first_of_def)

definition last_of :: "nat list \<Rightarrow> nat option" where
  "last_of as = (if as = [] then None else Some (last as))"

lemma climb_right_after:
  "zipper t ks (Nd l a c r) par (Some a) \<Longrightarrow> climb_right t a = Some (first_of (after ks))"
proof (induction ks arbitrary: l a c r par)
  case Nil
  then show ?case by (subst climb_right.simps) (simp add: zipper_def first_of_def)
next
  case (Cons k ks)
  note z = Cons.prems [unfolded zipper_par [OF Cons.prems]]
  have p: "parent_of t a = Some (crumb_addr k)" using z by (simp add: zipper_def)
  show ?case
  proof (cases k)
    case (InLeft b d u)
    have "right_of t b \<noteq> Some a" using z InLeft by (auto simp: zipper_def distinct_plug dest!: shape_Some)
    then show ?thesis using p InLeft by (subst climb_right.simps) (simp add: first_of_def)
  next
    case (InRight u b d)
    have "right_of t b = Some a" using z InRight by (simp add: zipper_def)
    moreover have "climb_right t b = Some (first_of (after ks))"
      using Cons.IH zipper_up(2) [OF z] InRight by simp
    ultimately show ?thesis using p InRight by (subst climb_right.simps) simp
  qed
qed

lemma climb_left_before:
  "zipper t ks (Nd l a c r) par (Some a) \<Longrightarrow> climb_left t a = Some (last_of (before ks))"
proof (induction ks arbitrary: l a c r par)
  case Nil
  then show ?case by (subst climb_left.simps) (simp add: zipper_def last_of_def)
next
  case (Cons k ks)
  note z = Cons.prems [unfolded zipper_par [OF Cons.prems]]
  have p: "parent_of t a = Some (crumb_addr k)" using z by (simp add: zipper_def)
  show ?case
  proof (cases k)
    case (InRight u b d)
    have "left_of t b \<noteq> Some a" using z InRight by (auto simp: zipper_def distinct_plug dest!: shape_Some)
    then show ?thesis using p InRight by (subst climb_left.simps) (simp add: last_of_def)
  next
    case (InLeft b d u)
    have "left_of t b = Some a" using z InLeft by (simp add: zipper_def)
    moreover have "climb_left t b = Some (last_of (before ks))"
      using Cons.IH zipper_up(2) [OF z] InLeft by simp
    ultimately show ?thesis using p InLeft by (subst climb_left.simps) simp
  qed
qed

lemma not_empty_node: "zipper t ks (Nd l a c r) par (Some a) \<Longrightarrow> \<not> RbTree_node_is_empty t a"
proof (cases ks)
  case (Cons k gs)
  assume z: "zipper t ks (Nd l a c r) par (Some a)"
  then show ?thesis
    using zipper_par [of t k gs] unfolding Cons
    by (cases k) (auto simp: RbTree_node_is_empty_def zipper_def distinct_plug)
qed (auto simp: RbTree_node_is_empty_def zipper_def)

lemma next_zipper:
  assumes "zipper t ks (Nd l a c r) par (Some a)"
  shows "RbTreeNode_next t a = Some (first_of (addrs r @ after ks))"
    and "RbTreeNode_prev t a = Some (last_of (before ks @ addrs l))"
proof -
  have s: "shape (rb_node t) (Some a) l (left_of t a)" "shape (rb_node t) (Some a) r (right_of t a)"
    using assms by (auto simp: zipper_def)
  show "RbTreeNode_next t a = Some (first_of (addrs r @ after ks))"
    using s(2) climb_right_after [OF assms] not_empty_node [OF assms] leftmost_hd [of t "Some a" r]
    by (cases r) (auto simp: RbTreeNode_next_def first_of_def neq_Nil_conv hd_append split: list.split)
  show "RbTreeNode_prev t a = Some (last_of (before ks @ addrs l))"
    using s(1) climb_left_before [OF assms] not_empty_node [OF assms] rightmost_last [of t "Some a" l]
    by (cases l) (auto simp: RbTreeNode_prev_def last_of_def)
qed

text \<open>Every node of a represented tree is the focus of a zipper.\<close>

lemma focus_exists: "a \<in> set (addrs x) \<Longrightarrow> \<exists>ks l c r. plug ks (Nd l a c r) = x"
proof (induction x)
  case (Nd l b c r)
  have app: "\<exists>ks. plug ks y = plug1 k x" if "plug ks' y = x" for ks' y k x
    using that by (induction ks' arbitrary: y) (metis plug.simps)+
  consider "a = b" | "a \<in> set (addrs l)" | "a \<in> set (addrs r)" using Nd.prems by auto
  then show ?case
  proof cases
    case 1
    then show ?thesis using plug.simps(1) by blast
  next
    case 2
    with Nd.IH(1) obtain ks l' c' r' where "plug ks (Nd l' a c' r') = l" by blast
    from app [OF this, of "InLeft b c r"] show ?thesis by (metis plug1.simps(1))
  next
    case 3
    with Nd.IH(2) obtain ks l' c' r' where "plug ks (Nd l' a c' r') = r" by blast
    from app [OF this, of "InRight l b c"] show ?thesis by (metis plug1.simps(2))
  qed
qed simp

lemma zipper_exists: "represents_tree t (plug ks x) \<Longrightarrow> \<exists>par f. zipper t ks x par f"
proof (induction ks arbitrary: x)
  case Nil
  then show ?case using represents_zipper by fastforce
next
  case (Cons k ks)
  from Cons.IH [of "plug1 k x"] Cons.prems obtain par f where "zipper t ks (plug1 k x) par f" by auto
  then show ?case by (cases k) (auto simp: zipper_def)
qed

lemma distinct_split:
  assumes "xs @ a # ys = us @ a # vs" "a \<notin> set xs" "a \<notin> set us"
  shows "us = xs \<and> vs = ys"
  using assms by (induction xs arbitrary: us) (auto simp: Cons_eq_append_conv append_eq_Cons_conv)

lemma next_prev_nodes:
  assumes "tree_nodes t (xs @ a # ys)"
  shows "RbTreeNode_next t a = Some (first_of ys)" "RbTreeNode_prev t a = Some (last_of xs)"
proof -
  obtain x where x: "represents_tree t x" "addrs x = xs @ a # ys" using assms by (auto simp: tree_nodes_def)
  then obtain ks l c r where "plug ks (Nd l a c r) = x" using focus_exists [of a x] by auto
  then obtain par f where z: "zipper t ks (Nd l a c r) par f" using zipper_exists x(1) by blast
  then have z: "zipper t ks (Nd l a c r) par (Some a)" by (auto simp: zipper_def)
  have d: "distinct (xs @ a # ys)" using x by (auto simp: represents_tree_def)
  have e: "xs @ a # ys = (before ks @ addrs l) @ a # addrs r @ after ks"
    using x(2) \<open>plug ks _ = x\<close> by (auto simp: addrs_plug)
  have "a \<notin> set xs" using d by simp
  moreover have "a \<notin> set (before ks @ addrs l)" using d [unfolded e] by simp
  ultimately have "before ks @ addrs l = xs \<and> addrs r @ after ks = ys" by (rule distinct_split [OF e])
  with next_zipper [OF z] show "RbTreeNode_next t a = Some (first_of ys)" "RbTreeNode_prev t a = Some (last_of xs)"
    by auto
qed

lemma for_each_from_suffix: "tree_nodes t (xs @ ys) \<Longrightarrow> for_each_from t (first_of ys) = Some ys"
proof (induction ys arbitrary: xs)
  case Nil
  then show ?case by (subst for_each_from.simps) (simp add: first_of_def)
next
  case (Cons a ys)
  from Cons.IH [of "xs @ [a]"] Cons.prems have "for_each_from t (first_of ys) = Some ys" by simp
  with next_prev_nodes(1) [OF Cons.prems] show ?case
    by (subst for_each_from.simps) (simp add: first_of_def [of "a # ys"])
qed

lemma first_nodes: "tree_nodes t as \<Longrightarrow> RbTree_first t = Some (first_of as)"
proof -
  assume "tree_nodes t as"
  then obtain x where x: "represents_tree t x" "addrs x = as" by (auto simp: tree_nodes_def)
  then show ?thesis
    using leftmost_hd [of t None x]
    by (cases x) (auto simp: RbTree_first_def represents_tree_def first_of_hd, simp add: first_of_def)
qed

section \<open>Release\<close>

primrec postorder :: "rbt \<Rightarrow> nat list" where
  "postorder Lf = []"
| "postorder (Nd l a c r) = postorder l @ postorder r @ [a]"

lemma mset_postorder: "mset (postorder x) = mset (addrs x)"
  by (induction x) simp_all

lemma deinit_node_postorder: "shape (rb_node t) par x p \<Longrightarrow> RbTree_deinit_node t p = Some (postorder x)"
  by (induction x arbitrary: par p) (subst RbTree_deinit_node.simps; auto)+

section \<open>The comparisons\<close>

lemma RbTree_cmp_u32_sign:
  "RbTree_cmp_u32 a b < 0 \<longleftrightarrow> a < b" "0 < RbTree_cmp_u32 a b \<longleftrightarrow> b < a" "RbTree_cmp_u32 a b = 0 \<longleftrightarrow> a = b"
  "RbTree_cmp_u32 a b \<le> 0 \<longleftrightarrow> a \<le> b" "0 \<le> RbTree_cmp_u32 a b \<longleftrightarrow> b \<le> a"
  by (auto simp: RbTree_cmp_u32_def)

interpretation u32_order: comparator "\<lambda>x y. RbTree_cmp_u32 (key x) (key y)" for key :: "'v \<Rightarrow> u32"
  by unfold_locales (auto simp: RbTree_cmp_u32_sign)

lemma strcmp_refl: "strcmp s s = 0"
  by (induction s) simp_all

lemma strcmp_eq_0: "strcmp s1 s2 = 0 \<longleftrightarrow> s1 = s2"
  by (induction s1 s2 rule: strcmp.induct) (auto dest: word_uint_eqI)

lemma strcmp_swap: "strcmp s1 s2 = - strcmp s2 s1"
  by (induction s1 s2 rule: strcmp.induct) auto

lemma strcmp_trans: "strcmp x y \<le> 0 \<Longrightarrow> strcmp y z \<le> 0 \<Longrightarrow> strcmp x z \<le> 0"
proof (induction x y arbitrary: z rule: strcmp.induct)
  case (1 z) then show ?case by simp
next
  case (2 c s z) then show ?case by (cases z) auto
next
  case (4 c1 s1 c2 s2 z) then show ?case by (cases z) (auto split: if_splits dest: word_uint_eqI)
qed simp

interpretation string_order: comparator "\<lambda>s1 s2. RbTree_cmp_string s1 0 s2"
  by unfold_locales (auto simp: RbTree_cmp_string_def strcmp_refl intro: strcmp_trans, (metis strcmp_swap neg_0_less_iff_less neg_less_0_iff_less)+)


lemma strncmp_Cons:
  assumes "length (c1 # s1) < 2 ^ 32"
  shows "RbTree_strncmp (c1 # s1) (of_nat (length (c1 # s1))) s2 =
    (case s2 of [] \<Rightarrow> 1
     | c2 # s2 \<Rightarrow> if c1 \<noteq> c2 then sint c1 - sint c2 else RbTree_strncmp s1 (of_nat (length s1)) s2)"
proof -
  have "unat (of_nat (length (c1 # s1)) :: u32) = length (c1 # s1)"
    by (rule of_nat_inverse [OF refl]) (use assms in simp)
  then have "(of_nat (length (c1 # s1)) :: u32) \<noteq> 0" by (metis unat_0 length_greater_0_conv less_irrefl list.distinct(1))
  then show ?thesis by (cases s2) simp_all
qed

lemma sint_neq: "c1 \<noteq> c2 \<Longrightarrow> sint c1 \<noteq> sint (c2 :: u8)"
  by (metis word_eq_iff_signed)

lemma RbTree_strncmp_eq: "length s1 < 2 ^ 32 \<Longrightarrow> RbTree_strncmp s1 (of_nat (length s1)) s2 = 0 \<longleftrightarrow> s1 = s2"
proof (induction s1 arbitrary: s2)
  case Nil
  then show ?case by (cases s2) simp_all
next
  case (Cons c1 s1)
  then have "length s1 < 2 ^ 32" by simp
  with Cons show ?case
    using sint_neq by (cases s2) (auto simp: strncmp_Cons simp del: of_nat_Suc list.size RbTree_strncmp.simps)
qed

lemma sint_ascii: "c < 0x80 \<Longrightarrow> sint (c :: u8) = uint c"
  using order_trans [OF _ uint_nonnegative [of c], of "- 128"]
  by (auto simp: sint_uint word_less_def intro!: signed_take_bit_int_eq_self)

lemma strncmp_strcmp:
  assumes "length s1 < 2 ^ 32" "\<forall>c \<in> set s1 \<union> set s2. c < 0x80"
  shows "sgn (RbTree_strncmp s1 (of_nat (length s1)) s2) = sgn (strcmp s1 s2)"
  using assms
proof (induction s1 arbitrary: s2)
  case Nil
  then show ?case by (cases s2) simp_all
next
  case (Cons c1 s1)
  then have "length s1 < 2 ^ 32" by simp
  with Cons show ?case
    by (cases s2) (auto simp: strncmp_Cons sint_ascii simp del: of_nat_Suc list.size RbTree_strncmp.simps)
qed

lemma find_loop_sgn:
  assumes "shape (rb_node t) par x p" "\<forall>a \<in> set (addrs x). sgn (cmp v (val t a)) = sgn (cmp' v' (val t a))"
  shows "find_loop cmp v t p = find_loop cmp' v' t p"
  using assms
proof (induction x arbitrary: par p)
  case Lf
  then show ?case by (subst (1 2) find_loop.simps) simp
next
  case (Nd l a c r)
  have p: "p = Some a" using Nd.prems(1) by simp
  have IH: "find_loop cmp v t (left_of t a) = find_loop cmp' v' t (left_of t a)"
    "find_loop cmp v t (right_of t a) = find_loop cmp' v' t (right_of t a)"
    using Nd.IH Nd.prems by auto
  have "sgn (cmp v (val t a)) = sgn (cmp' v' (val t a))" using Nd.prems(2) by simp
  then have "cmp v (val t a) < 0 \<longleftrightarrow> cmp' v' (val t a) < 0" "0 < cmp v (val t a) \<longleftrightarrow> 0 < cmp' v' (val t a)"
    by (auto simp: sgn_if split: if_splits)
  with p IH show ?case by (subst (1 2) find_loop.simps) (simp add: Let_def)
qed


section \<open>Properties\<close>

text \<open>A tree of three nodes at the addresses 0, 1 and 2, with the values 20, 10 and 30.\<close>

definition demo_node :: "nat option \<Rightarrow> nat option \<Rightarrow> nat option \<Rightarrow> color \<Rightarrow> 'v \<Rightarrow> 'v RbTreeNode" where
  "demo_node l r p c v = \<lparr>rb_left = l, rb_right = r, rb_parent = p, rb_color = c, rb_data = v\<rparr>"

definition demo_tree :: "u32 RbTreeBase" where
  "demo_tree = \<lparr>rb_root = Some 0, rb_node = (\<lambda>_. demo_node None None None rbtRed 0)
     (0 := demo_node (Some 1) (Some 2) None rbtBlack 20,
      1 := demo_node None None (Some 0) rbtRed 10,
      2 := demo_node None None (Some 0) rbtRed 30)\<rparr>"

lemma demo_tree_nodes: "tree_nodes demo_tree [1, 0, 2]"
  unfolding tree_nodes_def represents_tree_def demo_tree_def demo_node_def
  by (rule exI [of _ "Nd (Nd Lf 1 rbtRed Lf) 0 rbtBlack (Nd Lf 2 rbtRed Lf)"]) simp

lemma demo_tree_data [simp]:
  "rb_data (rb_node demo_tree 0) = 20" "rb_data (rb_node demo_tree (Suc 0)) = 10" "rb_data (rb_node demo_tree 2) = 30"
  by (simp_all add: demo_tree_def demo_node_def)

lemma demo_tree_ordered: "ordered (\<lambda>x y. RbTree_cmp_u32 (id x) (id y)) demo_tree [1, 0, 2]"
  by (simp add: ordered_def demo_tree_def demo_node_def RbTree_cmp_u32_def)

text \<open>
  C20. Adding a value to a well-formed tree that is ordered by a number in its
  values returns a well-formed ordered tree: no red node has a red child, the root is black, the
  parent links are right, the new node stands behind all nodes whose key is not greater and before
  all others, which keep their order and their values.
\<close>

theorem RbTree_add_ordered:
  fixes key :: "'v \<Rightarrow> u32"
  assumes "tree_nodes t as" and "ordered (\<lambda>x y. RbTree_cmp_u32 (key x) (key y)) t as" and "node \<notin> set as"
  shows "\<exists>t' xs ys. RbTree_add (\<lambda>x y. RbTree_cmp_u32 (key x) (key y)) v node t = Some t' \<and> as = xs @ ys \<and>
    tree_nodes t' (xs @ node # ys) \<and> ordered (\<lambda>x y. RbTree_cmp_u32 (key x) (key y)) t' (xs @ node # ys) \<and>
    rb_data (rb_node t' node) = v \<and> (\<forall>b. b \<noteq> node \<longrightarrow> rb_data (rb_node t' b) = rb_data (rb_node t b)) \<and>
    (\<forall>a \<in> set xs. key (rb_data (rb_node t a)) \<le> key v) \<and> (\<forall>a \<in> set ys. key v < key (rb_data (rb_node t a)))"
  using u32_order.add_law [OF assms, of v] by (simp add: RbTree_cmp_u32_sign)

theorem RbTree_add_ordered_witness:
  "\<exists>t' xs ys. RbTree_add (\<lambda>x y. RbTree_cmp_u32 (id x) (id y)) 20 3 demo_tree = Some t' \<and> [1, 0, 2] = xs @ ys \<and>
    tree_nodes t' (xs @ 3 # ys)"
  using RbTree_add_ordered [OF demo_tree_nodes demo_tree_ordered, of 3 20] by auto

text \<open>
  C25. Looking up a key in such a tree returns a node with this key whenever
  there is one, and the null pointer otherwise.
\<close>

theorem RbTree_find_complete:
  fixes key :: "'v \<Rightarrow> u32"
  assumes "tree_nodes t as" and "ordered (\<lambda>x y. RbTree_cmp_u32 (key x) (key y)) t as"
  shows "\<exists>r. RbTree_find (\<lambda>x y. RbTree_cmp_u32 (key x) (key y)) v t = Some r \<and>
    (case r of None \<Rightarrow> \<forall>a \<in> set as. key (rb_data (rb_node t a)) \<noteq> key v
     | Some a \<Rightarrow> a \<in> set as \<and> key (rb_data (rb_node t a)) = key v)"
  using u32_order.find_law [OF assms, of v]
  by (auto simp: RbTree_cmp_u32_sign split: option.splits) (metis option.exhaust)+

theorem RbTree_find_complete_witness:
  "RbTree_find (\<lambda>x y. RbTree_cmp_u32 (id x) (id y)) 7 demo_tree = Some None"
proof -
  obtain r where r: "RbTree_find (\<lambda>x y. RbTree_cmp_u32 (id x) (id y)) 7 demo_tree = Some r"
    "case r of None \<Rightarrow> True | Some a \<Rightarrow> a \<in> set [1, 0, 2] \<and> id (rb_data (rb_node demo_tree a)) = id 7"
    using RbTree_find_complete [OF demo_tree_nodes demo_tree_ordered, of 7] by (auto split: option.splits)
  then show ?thesis by (cases r) auto
qed

text \<open>
  In a tree ordered by the string comparison, \<open>RbTree_find_or_add\<close>
  either returns an existing node with the same string and changes nothing, or, when there is none,
  links a new node with the string between the smaller and the greater ones.
\<close>

theorem RbTree_find_or_add_unique:
  assumes "tree_nodes t as" and "ordered (\<lambda>s1 s2. RbTree_cmp_string s1 0 s2) t as" and "node \<notin> set as"
  shows "(\<exists>p \<in> set as. RbTree_find_or_add (\<lambda>s1 s2. RbTree_cmp_string s1 0 s2) s node t = Some (False, p, t) \<and>
      rb_data (rb_node t p) = s) \<or>
    (\<exists>t' xs ys. RbTree_find_or_add (\<lambda>s1 s2. RbTree_cmp_string s1 0 s2) s node t = Some (True, node, t') \<and>
      as = xs @ ys \<and> tree_nodes t' (xs @ node # ys) \<and> ordered (\<lambda>s1 s2. RbTree_cmp_string s1 0 s2) t' (xs @ node # ys) \<and>
      rb_data (rb_node t' node) = s \<and> (\<forall>b. b \<noteq> node \<longrightarrow> rb_data (rb_node t' b) = rb_data (rb_node t b)) \<and>
      (\<forall>a \<in> set as. rb_data (rb_node t a) \<noteq> s))"
  using string_order.find_or_add_law [OF assms, of s]
  by (simp add: RbTree_cmp_string_def strcmp_eq_0) (metis (no_types))

text \<open>
  C27. Starting at \<open>RbTree_first\<close>, the successor function visits every node of
  a well-formed tree exactly once, in order, and ends; the predecessor function walks the same
  sequence backwards.
\<close>

theorem RbTree_for_each_in_order:
  assumes "tree_nodes t as"
  shows "RbTree_for_each t = Some as \<and> distinct as \<and>
    (\<forall>i < length as. RbTreeNode_prev t (as ! i) = Some (if i = 0 then None else Some (as ! (i - 1))))"
proof -
  have "RbTreeNode_prev t (as ! i) = Some (if i = 0 then None else Some (as ! (i - 1)))" if "i < length as" for i
  proof -
    have "as = take i as @ as ! i # drop (Suc i) as" using that by (rule id_take_nth_drop)
    from next_prev_nodes(2) [of t "take i as" "as ! i" "drop (Suc i) as"] assms this
    have "RbTreeNode_prev t (as ! i) = Some (last_of (take i as))" by simp
    then show ?thesis using that by (auto simp: last_of_def last_conv_nth)
  qed
  moreover have "RbTree_for_each t = Some as"
    using first_nodes [OF assms] for_each_from_suffix [of t "[]" as] assms by (simp add: RbTree_for_each_def)
  moreover have "distinct as" using assms by (auto simp: tree_nodes_def represents_tree_def)
  ultimately show ?thesis by blast
qed

theorem RbTree_for_each_in_order_witness: "RbTree_for_each demo_tree = Some [1, 0, 2]"
  using RbTree_for_each_in_order [OF demo_tree_nodes] by blast

text \<open>
  Releasing a tree hands every node to the destructor and to the allocator
  exactly once, a node after all nodes below it, and leaves an empty tree.
\<close>

theorem RbTree_deinit_frees_once:
  assumes "tree_nodes t as"
  shows "\<exists>fs t'. RbTree_deinit t = Some (fs, t') \<and> mset fs = mset as \<and> distinct fs \<and> rb_root t' = None \<and>
    (\<forall>x. represents_tree t x \<longrightarrow> fs = postorder x)"
proof -
  obtain x where x: "represents_tree t x" "addrs x = as" using assms by (auto simp: tree_nodes_def)
  have d: "RbTree_deinit_node t (rb_root t) = Some (postorder y)" if "represents_tree t y" for y
    using that deinit_node_postorder by (auto simp: represents_tree_def)
  have "distinct (postorder x)"
    using x(1) mset_eq_imp_distinct_iff [OF mset_postorder [of x]] by (simp add: represents_tree_def)
  moreover have "postorder x = postorder y" if "represents_tree t y" for y
    using d [OF x(1)] d [OF that] by simp
  moreover have "RbTree_deinit t = Some (postorder x, t\<lparr>rb_root := None\<rparr>)"
    using d [OF x(1)] by (simp add: RbTree_deinit_def)
  ultimately show ?thesis
    using mset_postorder [of x] x(2) by (intro exI [of _ "postorder x"] exI [of _ "t\<lparr>rb_root := None\<rparr>"]) simp
qed

theorem RbTree_deinit_frees_once_witness:
  "\<exists>fs t'. RbTree_deinit demo_tree = Some (fs, t') \<and> mset fs = mset [1, 0, 2]"
  using RbTree_deinit_frees_once [OF demo_tree_nodes] by blast

text \<open>
  The tree does not keep equal numbers of black nodes on its paths. Adding
  30, 10 and 20 to an empty tree makes a black node with a black left and a red right child, because
  one of the two mirrored branches colours the rotated parent black instead of red; adding 10, 30
  and 20 gives two red children.
\<close>

definition empty_tree :: "u32 RbTreeBase" where
  "empty_tree = \<lparr>rb_root = None, rb_node = (\<lambda>_. demo_node None None None rbtRed 0)\<rparr>"

definition add_all :: "u32 list \<Rightarrow> u32 RbTreeBase option" where
  "add_all vs = fst (fold (\<lambda>v (t, a). (Option.bind t (RbTree_add RbTree_cmp_u32 v a), Suc a)) vs (Some empty_tree, 0))"

definition colors_of :: "u32 RbTreeBase \<Rightarrow> nat list \<Rightarrow> (u32 \<times> color) list" where
  "colors_of t as = map (\<lambda>a. (rb_data (rb_node t a), rb_color (rb_node t a))) as"

theorem RbTree_add_unbalanced:
  "Option.bind (add_all [30, 10, 20]) (\<lambda>t. Option.bind (RbTree_for_each t) (\<lambda>as. Some (rb_root t, as, colors_of t as))) =
     Some (Some 2, [1, 2, 0], [(10, rbtBlack), (20, rbtBlack), (30, rbtRed)]) \<and>
   Option.bind (add_all [10, 30, 20]) (\<lambda>t. Option.bind (RbTree_for_each t) (\<lambda>as. Some (rb_root t, as, colors_of t as))) =
     Some (Some 2, [0, 2, 1], [(10, rbtRed), (20, rbtBlack), (30, rbtRed)])"
  by (rule conjI; code_simp)

text \<open>
  Trees of strings are filled with \<open>strcmp\<close> and searched with a string
  and its length. For ASCII strings the search is complete. For others it is not: \<open>char\<close> is signed
  in the comparison with a length and unsigned in \<open>strcmp\<close>.
\<close>

theorem RbTree_cmp_string_lookup:
  assumes "tree_nodes t as" and "ordered (\<lambda>s1 s2. RbTree_cmp_string s1 0 s2) t as" and "length s < 2 ^ 32"
    and "\<forall>c \<in> set s. c < 0x80" and "\<forall>a \<in> set as. \<forall>c \<in> set (rb_data (rb_node t a)). c < 0x80"
  shows "(\<exists>r. RbTree_find (\<lambda>(s, len). RbTree_cmp_string s len) (s, of_nat (length s)) t = Some r \<and>
      (case r of None \<Rightarrow> \<forall>a \<in> set as. rb_data (rb_node t a) \<noteq> s | Some a \<Rightarrow> a \<in> set as \<and> rb_data (rb_node t a) = s)) \<and>
    RbTree_cmp_string [0xC3] 1 [0x61] < 0 \<and> 0 < RbTree_cmp_string [0xC3] 0 [0x61]"
proof -
  obtain x where x: "represents_tree t x" "addrs x = as" using assms(1) by (auto simp: tree_nodes_def)
  have "sgn (RbTree_cmp_string s (of_nat (length s)) u) = sgn (RbTree_cmp_string s 0 u)" if "\<forall>c \<in> set u. c < 0x80" for u
    using strncmp_strcmp [of s u] assms(3,4) that by (auto simp: RbTree_cmp_string_def)
  then have "RbTree_find (\<lambda>(s, len). RbTree_cmp_string s len) (s, of_nat (length s)) t =
      RbTree_find (\<lambda>s1 s2. RbTree_cmp_string s1 0 s2) s t"
    unfolding RbTree_find_def using x assms(5)
    by (intro find_loop_sgn [of t None x]) (auto simp: represents_tree_def)
  moreover have "RbTree_cmp_string [0xC3] 1 [0x61] < 0 \<and> 0 < RbTree_cmp_string [0xC3] 0 [0x61]" by code_simp
  moreover obtain r where "RbTree_find (\<lambda>s1 s2. RbTree_cmp_string s1 0 s2) s t = Some r"
    "case r of None \<Rightarrow> \<forall>a \<in> set as. RbTree_cmp_string s 0 (rb_data (rb_node t a)) \<noteq> 0
     | Some a \<Rightarrow> a \<in> set as \<and> RbTree_cmp_string s 0 (rb_data (rb_node t a)) = 0"
    using string_order.find_law [OF assms(1,2), of s] by blast
  ultimately show ?thesis by (cases r) (auto simp: RbTree_cmp_string_def strcmp_eq_0)
qed

definition string_tree :: "u8 list RbTreeBase" where
  "string_tree = \<lparr>rb_root = Some 0, rb_node = (\<lambda>_. demo_node None None None rbtBlack [])
     (0 := demo_node None (Some 1) None rbtBlack [0x61], 1 := demo_node None None (Some 0) rbtRed [0x61, 0x62])\<rparr>"

lemma string_tree_nodes:
  "tree_nodes string_tree [0, 1]" "ordered (\<lambda>s1 s2. RbTree_cmp_string s1 0 s2) string_tree [0, 1]"
  "rb_data (rb_node string_tree 0) = [0x61]" "rb_data (rb_node string_tree (Suc 0)) = [0x61, 0x62]"
  unfolding tree_nodes_def represents_tree_def ordered_def
  by (auto simp: string_tree_def demo_node_def RbTree_cmp_string_def
      intro!: exI [of _ "Nd Lf 0 rbtBlack (Nd Lf 1 rbtRed Lf)"])

theorem RbTree_find_or_add_unique_witness:
  "\<exists>t' xs ys. RbTree_find_or_add (\<lambda>s1 s2. RbTree_cmp_string s1 0 s2) [0x62] 2 string_tree = Some (True, 2, t') \<and>
     tree_nodes t' (xs @ 2 # ys)"
  using RbTree_find_or_add_unique [OF string_tree_nodes(1,2), of 2 "[0x62]"] string_tree_nodes(3,4) by auto

theorem RbTree_cmp_string_lookup_witness:
  "RbTree_find (\<lambda>(s, len). RbTree_cmp_string s len) ([0x61, 0x62], 2) string_tree = Some (Some 1)"
proof -
  obtain r where r: "RbTree_find (\<lambda>(s, len). RbTree_cmp_string s len) ([0x61, 0x62], 2) string_tree = Some r"
    "case r of None \<Rightarrow> \<forall>a \<in> set [0, 1]. rb_data (rb_node string_tree a) \<noteq> [0x61, 0x62]
     | Some a \<Rightarrow> a \<in> set [0, 1] \<and> rb_data (rb_node string_tree a) = [0x61, 0x62]"
    using RbTree_cmp_string_lookup [OF string_tree_nodes(1,2), of "[0x61, 0x62]"] string_tree_nodes(3,4) by auto
  then show ?thesis using string_tree_nodes(3,4) by (cases r) auto
qed

end
