(* ===== verification/Cyn_TreeErase.thy ===== *)
theory Cyn_TreeErase
  imports Cyn_TreeUse
begin

text \<open>
  Removal of a node from a red-black tree (\<^verbatim>\<open>src/tree.c\<close>). Nothing in the program calls it. It is right
  for nodes with at most one child that need no rebalancing; with two children it leaves parent links
  to the removed node.
\<close>

section \<open>Operations\<close>

text \<open>Case 4 of the rebalancing, for a node that is the left child, and mirrored.\<close>

definition erase_rotate_left :: "nat option \<Rightarrow> nat \<Rightarrow> nat \<Rightarrow> 'v RbTreeBase \<Rightarrow> 'v RbTreeBase option" where
  "erase_rotate_left tmp1 sibling par t =
     (let tmp2 = left_of t sibling;
          t = set_right par tmp2 t;
          t = set_left sibling (Some par) t
      in Option.bind tmp1 (\<lambda>a.
         let t = RbTree_set_parent_color a (Some sibling) rbtBlack t;
             t = (case tmp2 of Some b \<Rightarrow> RbTree_set_parent b (Some par) t | None \<Rightarrow> t)
         in Some (RbTree_rotate_set_parents par sibling rbtBlack t)))"

definition erase_rotate_right :: "nat option \<Rightarrow> nat \<Rightarrow> nat \<Rightarrow> 'v RbTreeBase \<Rightarrow> 'v RbTreeBase option" where
  "erase_rotate_right tmp1 sibling par t =
     (let tmp2 = right_of t sibling;
          t = set_left par tmp2 t;
          t = set_right sibling (Some par) t
      in Option.bind tmp1 (\<lambda>a.
         let t = RbTree_set_parent_color a (Some sibling) rbtBlack t;
             t = (case tmp2 of Some b \<Rightarrow> RbTree_set_parent b (Some par) t | None \<Rightarrow> t)
         in Some (RbTree_rotate_set_parents par sibling rbtBlack t)))"

text \<open>Case 2: \<open>Inr\<close> to go on at the parent.\<close>

definition erase_flip :: "nat \<Rightarrow> nat \<Rightarrow> 'v RbTreeBase \<Rightarrow> 'v RbTreeBase + nat \<times> nat \<times> 'v RbTreeBase" where
  "erase_flip sibling par t =
     (let t = RbTree_set_parent_color sibling (Some par) rbtRed t in
      if color_of t par = rbtRed then Inl (RbTree_set_color par rbtBlack t)
      else case parent_of t par of
             Some p \<Rightarrow> Inr (par, p, t)
           | None \<Rightarrow> Inl t)"

definition erase_step_left ::
  "nat \<Rightarrow> 'v RbTreeBase \<Rightarrow> ('v RbTreeBase + nat \<times> nat \<times> 'v RbTreeBase) option" where
  "erase_step_left par t =
     Option.bind (right_of t par) (\<lambda>sibling.
     Option.bind
       (if color_of t sibling = rbtRed then
          Option.bind (left_of t sibling) (\<lambda>tmp1.
            let t = set_right par (Some tmp1) t;
                t = set_left sibling (Some par) t;
                t = RbTree_set_parent_color tmp1 (Some par) rbtBlack t
            in Some (tmp1, RbTree_rotate_set_parents par sibling rbtRed t))
        else Some (sibling, t)) (\<lambda>(sibling, t).
     if \<not> is_red t (right_of t sibling) then
       (case left_of t sibling of
          Some tmp2 \<Rightarrow>
            if color_of t tmp2 = rbtBlack then Some (erase_flip sibling par t)
            else
              let tmp1 = right_of t tmp2;
                  t = set_left sibling tmp1 t;
                  t = set_right tmp2 (Some sibling) t;
                  t = set_right par (Some tmp2) t;
                  t = adopt tmp1 sibling t
              in map_option Inl (erase_rotate_left (Some sibling) tmp2 par t)
        | None \<Rightarrow> Some (erase_flip sibling par t))
     else map_option Inl (erase_rotate_left (right_of t sibling) sibling par t)))"

definition erase_step_right ::
  "nat \<Rightarrow> 'v RbTreeBase \<Rightarrow> ('v RbTreeBase + nat \<times> nat \<times> 'v RbTreeBase) option" where
  "erase_step_right par t =
     Option.bind (left_of t par) (\<lambda>sibling.
     Option.bind
       (if color_of t sibling = rbtRed then
          Option.bind (right_of t sibling) (\<lambda>tmp1.
            let t = set_left par (Some tmp1) t;
                t = set_right sibling (Some par) t;
                t = RbTree_set_parent_color tmp1 (Some par) rbtBlack t
            in Some (tmp1, RbTree_rotate_set_parents par sibling rbtRed t))
        else Some (sibling, t)) (\<lambda>(sibling, t).
     if \<not> is_red t (left_of t sibling) then
       (case right_of t sibling of
          Some tmp2 \<Rightarrow>
            if color_of t tmp2 = rbtBlack then Some (erase_flip sibling par t)
            else
              let tmp1 = left_of t tmp2;
                  t = set_right sibling tmp1 t;
                  t = set_left tmp2 (Some sibling) t;
                  t = set_left par (Some tmp2) t;
                  t = adopt tmp1 sibling t
              in map_option Inl (erase_rotate_right (Some sibling) tmp2 par t)
        | None \<Rightarrow> Some (erase_flip sibling par t))
     else map_option Inl (erase_rotate_right (left_of t sibling) sibling par t)))"

partial_function (option) RbTree_erase_color :: "nat option \<Rightarrow> nat \<Rightarrow> 'v RbTreeBase \<Rightarrow> 'v RbTreeBase option" where
  "RbTree_erase_color node par t =
     Option.bind (if node \<noteq> right_of t par then erase_step_left par t else erase_step_right par t) (\<lambda>res.
       case res of
         Inl t \<Rightarrow> Some t
       | Inr (node, par, t) \<Rightarrow> RbTree_erase_color (Some node) par t)"

text \<open>The leftmost node below \<open>successor\<close>, whose left link is \<open>tmp\<close>, and its parent.\<close>

partial_function (option) successor_loop :: "'v RbTreeBase \<Rightarrow> nat \<Rightarrow> nat \<Rightarrow> (nat \<times> nat) option" where
  "successor_loop t successor tmp =
     (case left_of t tmp of
        Some l \<Rightarrow> successor_loop t tmp l
      | None \<Rightarrow> Some (successor, tmp))"

definition erase_two_children :: "nat \<Rightarrow> nat \<Rightarrow> 'v RbTreeBase \<Rightarrow> (nat option \<times> 'v RbTreeBase) option" where
  "erase_two_children node child t =
     Option.bind
       (case left_of t child of
          None \<Rightarrow> Some (child, child, right_of t child, t)
        | Some tmp \<Rightarrow>
            Option.bind (successor_loop t child tmp) (\<lambda>(par, successor).
            let child2 = right_of t successor;
                t = set_left par child2 t;
                t = set_right successor (Some child) t
            in Some (par, successor, child2, t))) (\<lambda>(par, successor, child2, t).
     let tmp = left_of t node;
         t = set_left successor tmp t;
         t = (case tmp of Some a \<Rightarrow> RbTree_set_parent a (Some successor) t | None \<Rightarrow> t);
         t = RbTree_change_child node (Some successor) (parent_of t node) t;
         t = RbTree_set_parent successor (Some node) t
     in case child2 of
          Some c \<Rightarrow> Some (None, RbTree_set_parent_color c (Some par) rbtBlack t)
        | None \<Rightarrow> Some (if color_of t successor = rbtBlack then Some par else None, t))"

definition RbTree_erase_augmented :: "nat \<Rightarrow> 'v RbTreeBase \<Rightarrow> (nat option \<times> 'v RbTreeBase) option" where
  "RbTree_erase_augmented node t =
     (case (left_of t node, right_of t node) of
        (None, child) \<Rightarrow>
          (let t' = RbTree_change_child node child (parent_of t node) t in
           case child of
             Some c \<Rightarrow> Some (None, upd_node c (\<lambda>n. n\<lparr>rb_parent := parent_of t node, rb_color := color_of t node\<rparr>) t')
           | None \<Rightarrow> Some (if color_of t node = rbtBlack then parent_of t node else None, t'))
      | (Some tmp, None) \<Rightarrow>
          (let t' = upd_node tmp (\<lambda>n. n\<lparr>rb_parent := parent_of t node, rb_color := color_of t node\<rparr>) t
           in Some (None, RbTree_change_child node (Some tmp) (parent_of t node) t'))
      | (Some _, Some child) \<Rightarrow> erase_two_children node child t)"

definition RbTree_erase :: "nat \<Rightarrow> 'v RbTreeBase \<Rightarrow> 'v RbTreeBase option" where
  "RbTree_erase node t =
     Option.bind (RbTree_erase_augmented node t) (\<lambda>(rebalance, t).
       case rebalance of
         Some p \<Rightarrow> RbTree_erase_color None p t
       | None \<Rightarrow> Some t)"

declare RbTree_erase_color.simps [code] successor_loop.simps [code]

section \<open>Nodes with one child\<close>

primrec recolor :: "color \<Rightarrow> rbt \<Rightarrow> rbt" where
  "recolor c Lf = Lf"
| "recolor c (Nd l a d r) = Nd l a c r"

lemma erase_no_left:
  assumes z: "zipper t ks (Nd Lf a c r) par (Some a)" and r: "r = Lf \<longrightarrow> c = rbtRed"
  shows "\<exists>t'. RbTree_erase a t = Some t' \<and> represents_tree t' (plug ks (recolor c r))"
proof -
  have s: "parent_of t a = par" "color_of t a = c" "left_of t a = None" "shape (rb_node t) (Some a) r (right_of t a)"
    and cx: "ctx (rb_node t) (rb_root t) ks par (Some a)" "distinct (path ks)" "a \<notin> set (path ks)"
    and d: "distinct (addrs r)" "set (addrs r) \<inter> set (path ks) = {}" "a \<notin> set (addrs r)"
    using z by (auto simp: zipper_def distinct_plug)
  let ?t = "RbTree_change_child a (right_of t a) par t"
  note cc = change_child_ctx [OF cx, where new = "right_of t a"]
  show ?thesis
  proof (cases r)
    case Lf
    then have "zipper ?t ks Lf par None" using cc(1) s(4) cx(2) by (simp add: zipper_def distinct_plug)
    moreover have "RbTree_erase a t = Some ?t"
      using Lf s r by (simp add: RbTree_erase_def RbTree_erase_augmented_def Let_def)
    ultimately show ?thesis using zipper_represents Lf by fastforce
  next
    case (Nd rl b rc rr)
    let ?u = "upd_node b (\<lambda>n. n\<lparr>rb_parent := par, rb_color := c\<rparr>) ?t"
    have b: "right_of t a = Some b" "b \<notin> set (path ks)" using Nd s d by auto
    have same: "rb_node ?t x = rb_node t x" if "x \<in> set (addrs r)" for x using cc(2) d that by blast
    then have "shape (rb_node ?t) (Some a) r (right_of t a)" using s(4) shape_cong by metis
    then have "shape (rb_node ?u) par (recolor c r) (Some b)" using Nd b d(1) by simp
    moreover have "ctx (rb_node ?u) (rb_root ?u) ks par (Some b)" using cc(1) b by simp
    ultimately have "zipper ?u ks (recolor c r) par (Some b)"
      using d cx(2) Nd by (simp add: zipper_def distinct_plug)
    moreover have "RbTree_erase a t = Some ?u"
      using b s by (simp add: RbTree_erase_def RbTree_erase_augmented_def Let_def)
    ultimately show ?thesis using zipper_represents by fastforce
  qed
qed


section \<open>Properties\<close>

text \<open>
  Removing a node that has no left child, and that is red or has a right child,
  returns a tree of the remaining nodes in their order, with the right child in the place of the
  removed node and in its colour, and with right parent links.
\<close>

theorem RbTree_erase_leaf:
  assumes "zipper t ks (Nd Lf a c r) par (Some a)" and "r = Lf \<longrightarrow> c = rbtRed"
  shows "\<exists>t' x. RbTree_erase a t = Some t' \<and> represents_tree t' x \<and> addrs x = before ks @ addrs r @ after ks"
proof -
  have "addrs (recolor c r) = addrs r" by (cases r) simp_all
  then have "addrs (plug ks (recolor c r)) = before ks @ addrs r @ after ks" by (simp add: addrs_plug)
  with erase_no_left [OF assms] show ?thesis by blast
qed

theorem RbTree_erase_leaf_witness:
  "\<exists>t' x. RbTree_erase 1 demo_tree = Some t' \<and> represents_tree t' x \<and> addrs x = [0, 2]"
proof -
  have "zipper demo_tree [InLeft 0 rbtBlack (Nd Lf 2 rbtRed Lf)] (Nd Lf 1 rbtRed Lf) (Some 0) (Some 1)"
    by (simp add: zipper_def demo_tree_def demo_node_def)
  from RbTree_erase_leaf [OF this] show ?thesis by simp
qed

text \<open>
  Removing a node with two children does not: the successor becomes the root
  but has the removed node as its parent, so the links form no tree any more.
\<close>

theorem RbTree_erase_dangling:
  "\<exists>t. RbTree_erase 0 demo_tree = Some t \<and> rb_root t = Some 2 \<and> parent_of t 2 = Some 0 \<and>
    (\<forall>x. \<not> represents_tree t x)"
proof -
  have "Option.bind (RbTree_erase 0 demo_tree) (\<lambda>t. Some (rb_root t, parent_of t 2)) = Some (Some 2, Some 0)"
    by code_simp
  then obtain t where t: "RbTree_erase 0 demo_tree = Some t" "rb_root t = Some 2" "parent_of t 2 = Some 0"
    by (auto simp: bind_eq_Some_conv)
  moreover have "\<not> represents_tree t x" for x
    using t by (cases x) (auto simp: represents_tree_def)
  ultimately show ?thesis by blast
qed

end
