(* ===== verification/Cyn_Map.thy ===== *)
theory Cyn_Map
  imports Cyn_Prelude "HOL-Library.Sublist" "HOL-Library.Multiset"
begin

unbundle bit_operations_syntax

text \<open>
  The hash map from strings of \<^verbatim>\<open>src/map.c\<close>. A bucket is the list of nodes of its chain. The
  contract of a string map is the locale \<open>string_map\<close>; the map meets it for key sets on which the
  hash tells apart a key from its proper prefixes, because nodes are compared by hash and by the
  first characters only. Whether an allocation succeeds is a parameter of the operation; \<open>None\<close> is
  an access outside the bucket array.
\<close>

section \<open>Maps\<close>

record 'v MapNode =
  nhash :: u32
  nkey :: "u8 list"
  nvalue :: 'v

record 'v Map_Base =
  buckets :: "'v MapNode list list"
  bucketCount :: u32
  nodeCount :: u32

definition Map_init0 :: "'v Map_Base" where
  "Map_init0 = \<lparr>buckets = [], bucketCount = 0, nodeCount = 0\<rparr>"

text \<open>FNV-1a; the bytes are \<open>char\<close>s, which the exclusive or extends by their sign.\<close>

definition Map_hash_string :: "u8 list \<Rightarrow> u32" where
  "Map_hash_string k = fold (\<lambda>c hash. (hash XOR scast c) * 16777619) k 2166136261"

definition Map_new_node :: "u8 list \<Rightarrow> 'v \<Rightarrow> 'v MapNode" where
  "Map_new_node key v = \<lparr>nhash = Map_hash_string key, nkey = key, nvalue = v\<rparr>"

definition Map_bucket_idx :: "'v Map_Base \<Rightarrow> u32 \<Rightarrow> nat" where
  "Map_bucket_idx m hash = unat (hash AND (bucketCount m - 1))"

definition Map_add_node :: "'v MapNode \<Rightarrow> 'v Map_Base \<Rightarrow> 'v Map_Base" where
  "Map_add_node node m =
     (let n = Map_bucket_idx m (nhash node) in m\<lparr>buckets := (buckets m)[n := node # buckets m ! n]\<rparr>)"

text \<open>The nodes chained up by the first loop of \<open>Map_resize_\<close>: each is put in front.\<close>

definition chain_nodes :: "'v MapNode list list \<Rightarrow> 'v MapNode list" where
  "chain_nodes bs = fold (\<lambda>b nodes. fold (#) b nodes) (rev bs) []"

definition Map_resize :: "bool \<Rightarrow> u32 \<Rightarrow> 'v Map_Base \<Rightarrow> (int \<times> 'v Map_Base) option" where
  "Map_resize ok numBuckets m =
     (let nodes = chain_nodes (buckets m) in
      if ok then
        Some (0, fold Map_add_node nodes
                   (m\<lparr>buckets := replicate (unat numBuckets) [], bucketCount := numBuckets\<rparr>))
      else if buckets m = [] then Some (-1, m)
      else if unat numBuckets \<le> length (buckets m) then
        Some (-1, fold Map_add_node nodes
                    (m\<lparr>buckets := replicate (unat numBuckets) [] @ drop (unat numBuckets) (buckets m)\<rparr>))
      else None)"

text \<open>The link that refers to the node of a key: its bucket and its place in the chain.\<close>

definition same_key :: "u32 \<Rightarrow> u8 list \<Rightarrow> 'v MapNode \<Rightarrow> bool" where
  "same_key hash key node \<longleftrightarrow> nhash node = hash \<and> take (length key) (nkey node) = key"

fun find_link :: "u32 \<Rightarrow> u8 list \<Rightarrow> 'v MapNode list \<Rightarrow> nat \<Rightarrow> nat option" where
  "find_link hash key [] i = None"
| "find_link hash key (node # chain) i =
     (if same_key hash key node then Some i else find_link hash key chain (Suc i))"

definition Map_get_ref :: "'v Map_Base \<Rightarrow> u8 list \<Rightarrow> (nat \<times> nat) option" where
  "Map_get_ref m key =
     (let hash = Map_hash_string key in
      if bucketCount m > 0 then
        let n = Map_bucket_idx m hash in
        map_option (Pair n) (find_link hash key (buckets m ! n) 0)
      else None)"

definition Map_get :: "'v Map_Base \<Rightarrow> u8 list \<Rightarrow> 'v option" where
  "Map_get m key = map_option (\<lambda>(n, i). nvalue (buckets m ! n ! i)) (Map_get_ref m key)"

definition Map_key :: "'v Map_Base \<Rightarrow> u8 list \<Rightarrow> u8 list option" where
  "Map_key m key = map_option (\<lambda>(n, i). nkey (buckets m ! n ! i)) (Map_get_ref m key)"

text \<open>The key returned is that of the node, or null when memory has run out.\<close>

definition Map_set :: "bool \<Rightarrow> bool \<Rightarrow> u8 list \<Rightarrow> 'v \<Rightarrow> 'v Map_Base \<Rightarrow> (u8 list option \<times> 'v Map_Base) option" where
  "Map_set okNode okBuckets key v m =
     (case Map_get_ref m key of
        Some (n, i) \<Rightarrow>
          Some (Some (nkey (buckets m ! n ! i)),
                m\<lparr>buckets := (buckets m)[n := (buckets m ! n)[i := (buckets m ! n ! i)\<lparr>nvalue := v\<rparr>]]\<rparr>)
      | None \<Rightarrow>
          if \<not> okNode then Some (None, m)
          else
            Option.bind
              (if nodeCount m \<ge> bucketCount m then
                 Map_resize okBuckets (if bucketCount m < 32 then 32 else push_bit 1 (bucketCount m)) m
               else Some (0, m)) (\<lambda>(r, m).
            if r \<noteq> 0 then Some (None, m)
            else let node = Map_new_node key v; m = Map_add_node node m
                 in Some (Some key, m\<lparr>nodeCount := nodeCount m + 1\<rparr>)))"

definition Map_remove :: "u8 list \<Rightarrow> 'v Map_Base \<Rightarrow> 'v Map_Base" where
  "Map_remove key m =
     (case Map_get_ref m key of
        Some (n, i) \<Rightarrow>
          m\<lparr>buckets := (buckets m)[n := take i (buckets m ! n) @ drop (Suc i) (buckets m ! n)],
            nodeCount := nodeCount m - 1\<rparr>
      | None \<Rightarrow> m)"

text \<open>An iterator: the bucket and the rest of its chain from the current node on.\<close>

record 'v Map_Iter =
  bucketIndex :: nat
  rest :: "'v MapNode list"

function next_bucket :: "'v Map_Base \<Rightarrow> nat \<Rightarrow> 'v Map_Iter option" where
  "next_bucket m i =
     (if Suc i \<ge> unat (bucketCount m) then None
      else if buckets m ! Suc i \<noteq> [] then Some \<lparr>bucketIndex = Suc i, rest = buckets m ! Suc i\<rparr>
      else next_bucket m (Suc i))"
  by auto
termination by (relation "measure (\<lambda>(m, i). unat (bucketCount m) - i)") auto

declare next_bucket.simps [simp del]

definition Map_iter_next :: "'v Map_Base \<Rightarrow> 'v Map_Iter \<Rightarrow> 'v Map_Iter option" where
  "Map_iter_next m it =
     (case rest it of
        [] \<Rightarrow> next_bucket m (bucketIndex it)
      | _ # chain \<Rightarrow> if chain = [] then next_bucket m (bucketIndex it) else Some (it\<lparr>rest := chain\<rparr>))"

definition Map_begin :: "'v Map_Base \<Rightarrow> 'v Map_Iter option" where
  "Map_begin m = (if bucketCount m > 0 then Map_iter_next m \<lparr>bucketIndex = 0, rest = []\<rparr> else None)"

text \<open>The keys and values that \<open>Map_foreach\<close> visits, with a bound on their number.\<close>

fun Map_foreach :: "nat \<Rightarrow> 'v Map_Base \<Rightarrow> 'v Map_Iter option \<Rightarrow> (u8 list \<times> 'v) list" where
  "Map_foreach (Suc n) m (Some it) =
     (nkey (hd (rest it)), nvalue (hd (rest it))) # Map_foreach n m (Map_iter_next m it)"
| "Map_foreach _ m _ = []"

section \<open>The contract\<close>

locale string_map =
  fixes get :: "'m \<Rightarrow> u8 list \<Rightarrow> 'v option"
    and set_key :: "u8 list \<Rightarrow> 'v \<Rightarrow> 'm \<Rightarrow> 'm option"
    and remove_key :: "u8 list \<Rightarrow> 'm \<Rightarrow> 'm"
    and inv :: "u8 list set \<Rightarrow> 'm \<Rightarrow> bool"
    and empty_map :: 'm
    and key_set :: "u8 list set \<Rightarrow> bool"
  assumes empty_inv: "key_set K \<Longrightarrow> inv K empty_map"
    and get_empty: "get empty_map k = None"
    and set_law: "inv K m \<Longrightarrow> k \<in> K \<Longrightarrow>
      \<exists>m'. set_key k v m = Some m' \<and> inv K m' \<and> get m' = (get m)(k \<mapsto> v)"
    and remove_law: "inv K m \<Longrightarrow> inv K (remove_key k m) \<and> get (remove_key k m) = (get m)(k := None)"

context string_map
begin

text \<open>Filling a map from a table.\<close>

primrec fill :: "(u8 list \<times> 'v) list \<Rightarrow> 'm \<Rightarrow> 'm option" where
  "fill [] m = Some m"
| "fill (p # ps) m = Option.bind (set_key (fst p) (snd p) m) (fill ps)"

lemma fill_law:
  "inv K m \<Longrightarrow> fst ` set ps \<subseteq> K \<Longrightarrow>
   \<exists>m'. fill ps m = Some m' \<and> inv K m' \<and> get m' = get m ++ map_of (rev ps)"
proof (induction ps arbitrary: m)
  case (Cons p ps)
  then obtain m1 where m1: "set_key (fst p) (snd p) m = Some m1" "inv K m1" "get m1 = (get m)(fst p \<mapsto> snd p)"
    using set_law [of K m "fst p" "snd p"] by auto
  from Cons.IH [OF m1(2)] Cons.prems(2) m1 show ?case
    by (cases p) (auto simp: map_add_def fun_eq_iff split: option.split)
qed simp

lemma fill_empty:
  assumes "key_set K" "fst ` set ps \<subseteq> K"
  shows "\<exists>m. fill ps empty_map = Some m \<and> inv K m \<and> get m = map_of (rev ps)"
proof -
  have "get empty_map ++ f = f" for f using get_empty by (auto simp: map_add_def fun_eq_iff split: option.split)
  then show ?thesis using fill_law [OF empty_inv [OF assms(1)] assms(2)] by metis
qed

end


section \<open>The invariant\<close>

definition placed :: "'v Map_Base \<Rightarrow> bool" where
  "placed m \<longleftrightarrow> length (buckets m) = unat (bucketCount m) \<and>
     (\<forall>n<length (buckets m). \<forall>x\<in>set (buckets m ! n). Map_bucket_idx m (nhash x) = n)"

definition entry :: "'v MapNode \<Rightarrow> u8 list \<times> 'v" where
  "entry x = (nkey x, nvalue x)"

lemma fst_entry [simp]: "fst (entry x) = nkey x"
  by (simp add: entry_def)

definition contents :: "'v Map_Base \<Rightarrow> (u8 list \<times> 'v) list" where
  "contents m = map entry (concat (buckets m))"

definition map_ok :: "u8 list set \<Rightarrow> 'v Map_Base \<Rightarrow> bool" where
  "map_ok K m \<longleftrightarrow> placed m \<and> distinct (map fst (contents m)) \<and> fst ` set (contents m) \<subseteq> K \<and>
     (\<forall>x\<in>set (concat (buckets m)). nhash x = Map_hash_string (nkey x)) \<and>
     nodeCount m = of_nat (length (contents m))"

text \<open>Sets of keys that the comparison of the code tells apart from all proper prefixes.\<close>

definition exact :: "u8 list set \<Rightarrow> bool" where
  "exact K \<longleftrightarrow> finite K \<and> card K < 2 ^ 30 \<and>
     (\<forall>s\<in>K. \<forall>k. prefix k s \<and> Map_hash_string k = Map_hash_string s \<longrightarrow> k = s)"

lemma bucket_idx_less: "bucketCount m > 0 \<Longrightarrow> Map_bucket_idx m h < unat (bucketCount m)"
proof -
  assume "bucketCount m > 0"
  then have "unat (bucketCount m - 1) < unat (bucketCount m)"
    by (metis unat_minus_one word_gt_0 unat_gt_0 diff_less zero_less_one)
  moreover have "h AND (bucketCount m - 1) \<le> bucketCount m - 1"
    by (rule word_and_le1)
  ultimately show ?thesis by (simp add: Map_bucket_idx_def word_le_nat_alt)
qed

lemma concat_update:
  "n < length bs \<Longrightarrow> mset (concat (bs[n := ys])) + mset (bs ! n) = mset (concat bs) + mset ys"
proof (induction bs arbitrary: n)
  case (Cons b bs)
  then show ?case by (cases n) (auto simp: ac_simps)
qed simp

lemma add_node_placed:
  assumes "placed m" "bucketCount m > 0"
  shows "placed (Map_add_node x m)" "mset (concat (buckets (Map_add_node x m))) = add_mset x (mset (concat (buckets m)))"
    "bucketCount (Map_add_node x m) = bucketCount m" "nodeCount (Map_add_node x m) = nodeCount m"
proof -
  let ?n = "Map_bucket_idx m (nhash x)"
  have n: "?n < length (buckets m)"
    using assms bucket_idx_less by (simp add: placed_def)
  show "placed (Map_add_node x m)"
    using assms(1) n by (auto simp: placed_def Map_add_node_def Let_def nth_list_update Map_bucket_idx_def)
  show "mset (concat (buckets (Map_add_node x m))) = add_mset x (mset (concat (buckets m)))"
    using concat_update [OF n, of "x # buckets m ! ?n"] by (simp add: Map_add_node_def Let_def)
qed (simp_all add: Map_add_node_def Let_def)

lemma add_nodes_placed:
  assumes "placed m" "bucketCount m > 0"
  shows "placed (fold Map_add_node xs m) \<and> mset (concat (buckets (fold Map_add_node xs m))) = mset xs + mset (concat (buckets m))
    \<and> bucketCount (fold Map_add_node xs m) = bucketCount m \<and> nodeCount (fold Map_add_node xs m) = nodeCount m"
  using assms by (induction xs arbitrary: m) (auto simp: add_node_placed)

lemma mset_fold_Cons: "mset (fold (#) b xs) = mset b + mset xs"
  by (induction b arbitrary: xs) auto

lemma mset_chain_nodes: "mset (chain_nodes bs) = mset (concat bs)"
proof -
  have "mset (fold (\<lambda>b nodes. fold (#) b nodes) cs xs) = mset (concat cs) + mset xs" for cs and xs :: "'b list"
    by (induction cs arbitrary: xs) (auto simp: mset_fold_Cons ac_simps)
  from this [of "rev bs" "[]"] show ?thesis
    by (simp only: chain_nodes_def mset_concat rev_map [symmetric] sum_list_rev) simp
qed

lemma resize_placed:
  assumes "numBuckets > 0"
  obtains m' where "Map_resize True numBuckets m = Some (0, m')" "placed m'" "bucketCount m' = numBuckets"
    "nodeCount m' = nodeCount m" "mset (concat (buckets m')) = mset (concat (buckets m))"
proof -
  let ?m = "m\<lparr>buckets := replicate (unat numBuckets) [], bucketCount := numBuckets\<rparr>"
  have p: "placed ?m" by (simp add: placed_def)
  have b: "bucketCount ?m > 0" using assms by simp
  have e: "concat (buckets ?m) = []" by (simp add: concat_replicate_trivial)
  show ?thesis
    using that add_nodes_placed [OF p b, of "chain_nodes (buckets m)"] e
    by (simp add: Map_resize_def Let_def mset_chain_nodes)
qed

lemma nodeCount_add_node [simp]: "nodeCount (Map_add_node x m) = nodeCount m"
  by (simp add: Map_add_node_def Let_def)

section \<open>Lookup\<close>

lemma find_link_Some:
  "find_link h k xs i = Some j \<Longrightarrow>
   \<exists>as x cs. xs = as @ x # cs \<and> j = i + length as \<and> same_key h k x \<and> (\<forall>y\<in>set as. \<not> same_key h k y)"
proof (induction xs arbitrary: i)
  case (Cons x xs)
  show ?case
  proof (cases "same_key h k x")
    case True
    with Cons.prems show ?thesis by (intro exI [of _ "[]"]) auto
  next
    case False
    with Cons obtain as y cs where "xs = as @ y # cs" "j = Suc i + length as" "same_key h k y" "\<forall>y\<in>set as. \<not> same_key h k y"
      by fastforce
    with False show ?thesis by (intro exI [of _ "x # as"]) auto
  qed
qed simp

lemma find_link_None: "find_link h k xs i = None \<longleftrightarrow> (\<forall>x\<in>set xs. \<not> same_key h k x)"
  by (induction xs arbitrary: i) auto

lemma same_key_exact:
  assumes "exact K" "map_ok K m" "x \<in> set (concat (buckets m))"
  shows "same_key (Map_hash_string k) k x \<longleftrightarrow> nkey x = k"
proof -
  have "nkey x \<in> K" "nhash x = Map_hash_string (nkey x)"
    using assms(2,3) by (simp_all only: map_ok_def contents_def set_map image_image fst_entry image_subset_iff)
  with assms(1) show ?thesis
    by (metis exact_def same_key_def take_is_prefix take_all order_refl)
qed

text \<open>Either no node has the key, or the link splits the chain of its bucket.\<close>

lemma get_ref_None:
  assumes "exact K" "map_ok K m" "Map_get_ref m k = None"
  shows "k \<notin> fst ` set (contents m)"
proof
  assume "k \<in> fst ` set (contents m)"
  then obtain n x where n: "n < length (buckets m)" "x \<in> set (buckets m ! n)" "nkey x = k"
    by (auto simp: contents_def in_set_conv_nth [of _ "buckets m"] entry_def)
  then have x: "x \<in> set (concat (buckets m))" by auto
  then have h: "nhash x = Map_hash_string k" using assms(2) n(3) by (auto simp: map_ok_def)
  have "Map_bucket_idx m (nhash x) = n" "bucketCount m > 0"
    using assms(2) n by (auto simp: map_ok_def placed_def word_gt_0)
  then have "\<not> same_key (Map_hash_string k) k x"
    using assms(3) n h by (auto simp: Map_get_ref_def Let_def find_link_None)
  then show False using same_key_exact [OF assms(1,2) x] n(3) by simp
qed

lemma get_ref_Some:
  assumes "exact K" "map_ok K m" "Map_get_ref m k = Some (n, i)"
  obtains as x cs where "n < length (buckets m)" "buckets m ! n = as @ x # cs" "i = length as" "nkey x = k"
    "Map_bucket_idx m (nhash x) = n"
proof -
  have b: "bucketCount m > 0" and n: "n = Map_bucket_idx m (Map_hash_string k)"
    and f: "find_link (Map_hash_string k) k (buckets m ! n) 0 = Some i"
    using assms(3) by (auto simp: Map_get_ref_def Let_def split: if_splits)
  have l: "n < length (buckets m)" using bucket_idx_less [OF b] assms(2) by (simp add: n map_ok_def placed_def)
  from find_link_Some [OF f] obtain as x cs where
    *: "buckets m ! n = as @ x # cs" "i = length as" "same_key (Map_hash_string k) k x" by auto
  have x: "x \<in> set (buckets m ! n)" using * by simp
  then have "x \<in> set (concat (buckets m))" using l by (auto intro: nth_mem)
  then have "nkey x = k" using same_key_exact [OF assms(1,2)] * by simp
  moreover have "Map_bucket_idx m (nhash x) = n" using assms(2) l x by (simp add: map_ok_def placed_def)
  ultimately show ?thesis using that l * by metis
qed

lemma map_of_mset:
  "mset xs = mset ys \<Longrightarrow> distinct (map fst xs) \<Longrightarrow> map_of xs = map_of ys"
  by (metis map_of_inject_set mset_eq_setD mset_map mset_eq_imp_distinct_iff)

lemma map_of_replace:
  assumes "distinct (map fst (A @ (k, v0) # B))"
  shows "map_of (A @ (k, v) # B) = (map_of (A @ (k, v0) # B))(k \<mapsto> v)"
    and "map_of (A @ B) = (map_of (A @ (k, v0) # B))(k := None)"
  using assms by (induction A) (auto simp: fun_eq_iff map_of_eq_None_iff)

lemma contents_replace:
  assumes "n < length (buckets m)" "buckets m ! n = as @ x # cs"
  obtains A B where "contents m = A @ entry x # B"
    "\<And>ys. contents (m\<lparr>buckets := (buckets m)[n := as @ ys @ cs]\<rparr>) = A @ map entry ys @ B"
proof -
  have bs: "buckets m = take n (buckets m) @ (as @ x # cs) # drop (Suc n) (buckets m)"
    using id_take_nth_drop [OF assms(1)] assms(2) by simp
  show ?thesis
  proof (rule that)
    show "contents m = map entry (concat (take n (buckets m)) @ as) @ entry x # map entry (cs @ concat (drop (Suc n) (buckets m)))"
      unfolding contents_def by (subst bs) simp
    show "contents (m\<lparr>buckets := (buckets m)[n := as @ ys @ cs]\<rparr>) =
      map entry (concat (take n (buckets m)) @ as) @ map entry ys @ map entry (cs @ concat (drop (Suc n) (buckets m)))" for ys
      using assms(1) by (simp add: contents_def upd_conv_take_nth_drop)
  qed
qed

lemma get_contents:
  assumes "exact K" "map_ok K m"
  shows "Map_get m = map_of (contents m)"
proof
  fix k
  show "Map_get m k = map_of (contents m) k"
  proof (cases "Map_get_ref m k")
    case None
    with get_ref_None [OF assms None] show ?thesis
      by (simp add: Map_get_def) (metis map_of_eq_None_iff)
  next
    case (Some r)
    then obtain n i where r: "Map_get_ref m k = Some (n, i)" by (cases r) simp
    from get_ref_Some [OF assms r] obtain as x cs where
      *: "n < length (buckets m)" "buckets m ! n = as @ x # cs" "i = length as" "nkey x = k" .
    from contents_replace [OF *(1,2)] obtain A B where "contents m = A @ entry x # B" .
    with assms(2) have "map_of (contents m) k = Some (nvalue x)"
      using *(4) by (intro map_of_is_SomeI) (auto simp: map_ok_def entry_def)
    with r * show ?thesis by (simp add: Map_get_def)
  qed
qed

lemma contents_bound:
  assumes "exact K" "map_ok K m"
  shows "length (contents m) < 2 ^ 30" "unat (nodeCount m) = length (contents m)"
proof -
  have "length (contents m) = card (fst ` set (contents m))"
    using assms(2) by (metis map_ok_def distinct_card length_map set_map)
  also have "\<dots> \<le> card K"
    using assms by (intro card_mono) (auto simp: exact_def map_ok_def)
  finally show "length (contents m) < 2 ^ 30" using assms(1) by (simp add: exact_def)
  then show "unat (nodeCount m) = length (contents m)"
    using assms(2) by (simp add: map_ok_def unat_of_nat take_bit_nat_eq_self)
qed

section \<open>The laws\<close>

lemma map_ok_replace:
  assumes "map_ok K m" "n < length (buckets m)" "buckets m ! n = as @ x # cs"
    and ys: "\<forall>y\<in>set ys. nkey y = nkey x \<and> nhash y = nhash x" "length ys \<le> 1"
    and c: "c = of_nat (length (contents m) - 1 + length ys)"
    and m': "m' = m\<lparr>buckets := (buckets m)[n := as @ ys @ cs], nodeCount := c\<rparr>"
  shows "map_ok K m'"
proof -
  from contents_replace [OF assms(2,3)] obtain A B where
    *: "contents m = A @ entry x # B" "contents (m\<lparr>buckets := (buckets m)[n := as @ ys @ cs]\<rparr>) = A @ map entry ys @ B" by metis
  then have k: "contents m' = A @ map entry ys @ B"
    by (simp add: m' contents_def)
  have p: "placed m'"
    using assms(1) assms(2,3) ys(1)
    by (auto simp: map_ok_def placed_def m' nth_list_update Map_bucket_idx_def)
  have h: "\<forall>y\<in>set (concat (buckets m')). nhash y = Map_hash_string (nkey y)"
  proof
    fix y assume "y \<in> set (concat (buckets m'))"
    then obtain j where j: "j < length (buckets m)" "y \<in> set ((buckets m)[n := as @ ys @ cs] ! j)"
      by (auto simp: m' in_set_conv_nth [of _ "(buckets m)[n := as @ ys @ cs]"])
    have "x \<in> set (concat (buckets m))" using assms(2,3) by (auto intro!: bexI [OF _ nth_mem [OF assms(2)]])
    moreover have "y \<in> set ys \<or> y \<in> set (concat (buckets m))"
      using j assms(2,3) by (cases "j = n") (auto intro!: bexI [OF _ nth_mem])
    ultimately show "nhash y = Map_hash_string (nkey y)"
      using assms(1) ys(1) unfolding map_ok_def by metis
  qed
  have "ys = [] \<or> (\<exists>y. ys = [y])" using ys(2) by (cases ys) auto
  then have "map fst (contents m') = map fst A @ map fst B \<or> map fst (contents m') = map fst (contents m)"
  proof
    assume "\<exists>y. ys = [y]"
    then obtain y where "ys = [y]" ..
    then have "map fst (contents m') = map fst (contents m)" using ys(1) *(1) k by simp
    then show ?thesis ..
  qed (simp add: k)
  then have "distinct (map fst (contents m')) \<and> set (map fst (contents m')) \<subseteq> set (map fst (contents m))"
    using assms(1) *(1) unfolding map_ok_def
    by (elim disjE) (simp_all only: list.simps map_append distinct_append distinct.simps set_append order_refl simp_thms, auto)
  moreover have "length (contents m') = length (contents m) - 1 + length ys" using *(1) k by simp
  moreover have "set (map fst (contents m)) \<subseteq> K" using assms(1) by (simp add: map_ok_def)
  ultimately have "distinct (map fst (contents m'))" "fst ` set (contents m') \<subseteq> K" "length (contents m') = length (contents m) - 1 + length ys"
    unfolding set_map by blast+
  with p h c show ?thesis unfolding map_ok_def by (simp add: m')
qed

lemma Map_remove_ok:
  assumes "exact K" "map_ok K m"
  shows "map_ok K (Map_remove k m) \<and> Map_get (Map_remove k m) = (Map_get m)(k := None)"
proof (cases "Map_get_ref m k")
  case None
  with get_ref_None [OF assms None] assms show ?thesis
    by (auto simp: Map_remove_def get_contents fun_eq_iff map_of_eq_None_iff)
next
  case (Some r)
  then obtain n i where r: "Map_get_ref m k = Some (n, i)" by (cases r) simp
  from get_ref_Some [OF assms r] obtain as x cs where
    *: "n < length (buckets m)" "buckets m ! n = as @ x # cs" "i = length as" "nkey x = k" .
  from contents_replace [OF *(1,2)] obtain A B where
    c: "contents m = A @ entry x # B" "contents (m\<lparr>buckets := (buckets m)[n := as @ [] @ cs]\<rparr>) = A @ map entry [] @ B" by metis
  have e: "Map_remove k m = m\<lparr>buckets := (buckets m)[n := as @ [] @ cs], nodeCount := nodeCount m - 1\<rparr>"
    using r * by (simp add: Map_remove_def)
  have ok: "map_ok K (Map_remove k m)"
  proof (rule map_ok_replace [OF assms(2) *(1,2), where ys = "[]", OF _ _ _ e])
    show "nodeCount m - 1 = of_nat (length (contents m) - 1 + length [])"
      using assms(2) c by (simp add: map_ok_def)
  qed auto
  have "contents (Map_remove k m) = A @ B" using c(2) by (simp add: e contents_def)
  then show ?thesis
    using ok assms c(1) *(4) map_of_replace(2) [of A k "nvalue x" B]
    by (simp add: get_contents [OF assms(1)] map_ok_def [of K m] entry_def)
qed

lemma Map_set_existing:
  assumes "exact K" "map_ok K m" "Map_get_ref m k = Some (n, i)"
  shows "\<exists>m'. Map_set a b k v m = Some (Some k, m') \<and> map_ok K m' \<and> Map_get m' = (Map_get m)(k \<mapsto> v)"
proof -
  from get_ref_Some [OF assms] obtain as x cs where
    *: "n < length (buckets m)" "buckets m ! n = as @ x # cs" "i = length as" "nkey x = k" .
  let ?x = "x\<lparr>nvalue := v\<rparr>"
  let ?m = "m\<lparr>buckets := (buckets m)[n := as @ [?x] @ cs], nodeCount := nodeCount m\<rparr>"
  from contents_replace [OF *(1,2)] obtain A B where
    c: "contents m = A @ entry x # B" "contents (m\<lparr>buckets := (buckets m)[n := as @ [?x] @ cs]\<rparr>) = A @ map entry [?x] @ B" by metis
  have e: "Map_set a b k v m = Some (Some k, ?m)"
    using assms(3) * by (simp add: Map_set_def)
  have ok: "map_ok K ?m"
  proof (rule map_ok_replace [OF assms(2) *(1,2), where ys = "[?x]", OF _ _ _ refl])
    show "nodeCount m = of_nat (length (contents m) - 1 + length [?x])"
      using assms(2) c by (simp add: map_ok_def)
  qed auto
  have "contents ?m = A @ (k, v) # B" using c(2) *(4) by (simp add: contents_def entry_def)
  then have "Map_get ?m = map_of (A @ (k, v) # B)" using get_contents [OF assms(1) ok] by simp
  also have "\<dots> = (map_of (A @ (k, nvalue x) # B))(k \<mapsto> v)"
    using assms(2) c(1) *(4) by (intro map_of_replace(1)) (simp add: map_ok_def entry_def)
  also have "map_of (A @ (k, nvalue x) # B) = Map_get m"
    using get_contents [OF assms(1,2)] c(1) *(4) by (simp only: entry_def)
  finally have "Map_get ?m = (Map_get m)(k \<mapsto> v)" .
  with e ok show ?thesis by blast
qed

lemma add_new_ok:
  assumes "exact K" "map_ok K m" "k \<in> K" "k \<notin> fst ` set (contents m)" "placed m1" "bucketCount m1 > 0"
    "nodeCount m1 = nodeCount m" "mset (concat (buckets m1)) = mset (concat (buckets m))"
    and m': "m' = (Map_add_node (Map_new_node k v) m1)\<lparr>nodeCount := nodeCount m + 1\<rparr>"
  shows "map_ok K m' \<and> Map_get m' = (Map_get m)(k \<mapsto> v)"
proof -
  let ?x = "Map_new_node k v"
  have x: "entry ?x = (k, v)" "nhash ?x = Map_hash_string (nkey ?x)" by (simp_all add: Map_new_node_def entry_def)
  have b: "mset (concat (buckets m')) = add_mset ?x (mset (concat (buckets m)))"
    using add_node_placed(2) [OF assms(5,6), of ?x] assms(8) by (simp add: m')
  have c: "mset (contents m') = mset ((k, v) # contents m)"
    by (simp only: contents_def mset_map b) (simp add: x)
  have d: "distinct (map fst ((k, v) # contents m))" using assms(2,4) by (simp add: map_ok_def)
  have "placed m'" using add_node_placed(1) [OF assms(5,6), of ?x] by (simp add: m' placed_def Map_bucket_idx_def)
  moreover have "distinct (map fst (contents m'))"
    using d c by (metis mset_map mset_eq_imp_distinct_iff)
  moreover have "fst ` set (contents m') \<subseteq> K"
    using assms(2,3) mset_eq_setD [OF c] by (simp add: map_ok_def)
  moreover have "\<forall>y\<in>set (concat (buckets m')). nhash y = Map_hash_string (nkey y)"
  proof -
    have "set (concat (buckets m')) = insert ?x (set (concat (buckets m)))"
      by (metis b set_mset_mset set_mset_add_mset_insert)
    then show ?thesis using assms(2) x(2) unfolding map_ok_def by simp
  qed
  moreover have "nodeCount m' = of_nat (length (contents m'))"
    using assms(2) mset_eq_length [OF c] by (simp add: m' map_ok_def)
  ultimately have ok: "map_ok K m'" by (simp add: map_ok_def)
  have "map_of (contents m') = map_of ((k, v) # contents m)"
    using c d by (metis map_of_mset mset_map mset_eq_imp_distinct_iff)
  then show ?thesis using ok by (simp add: get_contents [OF assms(1)] assms(2))
qed

lemma Map_set_ok:
  assumes "exact K" "map_ok K m" "k \<in> K"
  shows "\<exists>m'. Map_set True True k v m = Some (Some k, m') \<and> map_ok K m' \<and> Map_get m' = (Map_get m)(k \<mapsto> v)"
proof (cases "Map_get_ref m k")
  case (Some r)
  then show ?thesis using Map_set_existing [OF assms(1,2)] by (cases r) simp
next
  case None
  note new = get_ref_None [OF assms(1,2) None]
  show ?thesis
  proof (cases "nodeCount m \<ge> bucketCount m")
    case False
    then have "bucketCount m > 0" by (metis not_le word_gt_0 word_zero_le)
    moreover have "placed m" using assms(2) by (simp add: map_ok_def)
    ultimately show ?thesis
      using None False add_new_ok [OF assms new, of m _ v] by (simp add: Map_set_def Let_def)
  next
    case True
    let ?n = "if bucketCount m < 32 then 32 else push_bit 1 (bucketCount m)"
    have "unat (bucketCount m) < 2 ^ 30"
      using True contents_bound [OF assms(1,2)] by (simp add: word_le_nat_alt)
    then have "unat (push_bit 1 (bucketCount m)) = 2 * unat (bucketCount m)"
      by (simp add: unat_word_ariths)
    then have n: "?n > 0" by (auto simp: word_less_nat_alt unat_gt_0)
    from resize_placed [OF n] obtain m1 where m1: "Map_resize True ?n m = Some (0, m1)" "placed m1" "bucketCount m1 = ?n"
      "nodeCount m1 = nodeCount m" "mset (concat (buckets m1)) = mset (concat (buckets m))" by metis
    have "bucketCount m1 > 0" using n m1(3) by simp
    from add_new_ok [OF assms new m1(2) this m1(4,5), of _ v] show ?thesis
      using None True m1(1,4) by (simp add: Map_set_def Let_def)
  qed
qed

text \<open>The map as a string map: every allocation succeeds.\<close>

definition Map_put :: "u8 list \<Rightarrow> 'v \<Rightarrow> 'v Map_Base \<Rightarrow> 'v Map_Base option" where
  "Map_put k v m = map_option snd (Map_set True True k v m)"

definition map_inv :: "u8 list set \<Rightarrow> 'v Map_Base \<Rightarrow> bool" where
  "map_inv K m \<longleftrightarrow> exact K \<and> map_ok K m"

interpretation keyed: string_map Map_get Map_put Map_remove map_inv Map_init0 exact
proof
  show "exact K \<Longrightarrow> map_inv K Map_init0" for K
    by (simp add: map_inv_def map_ok_def Map_init0_def placed_def contents_def)
  show "Map_get Map_init0 k = None" for k
    by (simp add: Map_get_def Map_get_ref_def Map_init0_def Let_def)
  show "\<exists>m'. Map_put k v m = Some m' \<and> map_inv K m' \<and> Map_get m' = (Map_get m)(k \<mapsto> v)"
    if "map_inv K m" "k \<in> K" for K m k v
    using that Map_set_ok [of K m k v] by (auto simp: map_inv_def Map_put_def)
  show "map_inv K (Map_remove k m) \<and> Map_get (Map_remove k m) = (Map_get m)(k := None)"
    if "map_inv K m" for K m k
    using that Map_remove_ok by (auto simp: map_inv_def)
qed

section \<open>Properties\<close>


text \<open>A finite check that a table of names is exact.\<close>

definition exact_list :: "u8 list list \<Rightarrow> bool" where
  "exact_list ks \<longleftrightarrow>
     list_all (\<lambda>s. list_all (\<lambda>n. Map_hash_string (take n s) \<noteq> Map_hash_string s) [0..<length s]) ks"

lemma exact_list_exact: "exact_list ks \<Longrightarrow> length ks < 2 ^ 30 \<Longrightarrow> exact (set ks)"
proof -
  assume a: "exact_list ks" and l: "length ks < 2 ^ 30"
  have "k = s" if "s \<in> set ks" "prefix k s" "Map_hash_string k = Map_hash_string s" for s k
  proof (rule ccontr)
    assume "k \<noteq> s"
    from that(2) obtain u where u: "s = k @ u" by (auto simp: prefix_def)
    with \<open>k \<noteq> s\<close> have "length k < length s" "k = take (length k) s" by auto
    moreover have "\<forall>n<length s. Map_hash_string (take n s) \<noteq> Map_hash_string s"
      using a that(1) by (simp add: exact_list_def list_all_iff)
    ultimately show False using that(3) by metis
  qed
  moreover have "card (set ks) < 2 ^ 30"
    using l card_length [of ks] by simp
  ultimately show "exact (set ks)" by (simp add: exact_def)
qed


text \<open>
  When the node of a new key, or the first bucket array, cannot be allocated,
  \<open>Map_set_\<close> returns null and leaves the map as it was.
\<close>

theorem Map_set_no_memory:
  assumes "Map_get_ref m k = None" and "\<not> okNode \<or> \<not> okBuckets \<and> m = Map_init0"
  shows "Map_set okNode okBuckets k v m = Some (None, m)"
  using assms by (auto simp: Map_set_def Map_resize_def Map_init0_def Let_def)

theorem Map_set_no_memory_witness:
  "Map_set True False [97] (7 :: nat) Map_init0 = Some (None, Map_init0)"
  by (rule Map_set_no_memory) (code_simp, simp)

text \<open>
  When a full map cannot get a larger bucket array, the new size is cleared in
  the old array: the write runs past its end.
\<close>

theorem Map_set_overruns:
  assumes "placed m" and "Map_get_ref m k = None" and "0 < bucketCount m" and "bucketCount m < 2 ^ 31"
    and "bucketCount m \<le> nodeCount m"
  shows "Map_set True False k v m = None"
proof -
  let ?n = "if bucketCount m < 32 then 32 else push_bit 1 (bucketCount m)"
  have l: "length (buckets m) = unat (bucketCount m)" "buckets m \<noteq> []"
    using assms(1,3) by (auto simp: placed_def word_less_nat_alt)
  have "unat (bucketCount m * 2) = 2 * unat (bucketCount m)"
    using assms(4) by (simp add: unat_word_ariths word_less_nat_alt)
  then have "\<not> unat ?n \<le> length (buckets m)"
    using l assms(3) by (auto simp: word_less_nat_alt)
  with l assms(2,5) show ?thesis
    by (simp add: Map_set_def Map_resize_def Let_def)
qed

text \<open>A map of one bucket that holds one node.\<close>

theorem Map_set_overruns_witness:
  "Map_set True False [98] (7 :: nat) \<lparr>buckets = [[Map_new_node [97] 1]], bucketCount = 1, nodeCount = 1\<rparr> = None"
proof (rule Map_set_overruns)
  show "Map_get_ref \<lparr>buckets = [[Map_new_node [97] (1 :: nat)]], bucketCount = 1, nodeCount = 1\<rparr> [98] = None"
    by code_simp
qed (simp_all add: placed_def Map_bucket_idx_def)

text \<open>
  The iteration starts by moving to the bucket after the first one: what is
  in bucket 0 is found by \<open>Map_get_\<close> and never visited.
\<close>

lemma next_bucket_later: "next_bucket m i = Some it \<Longrightarrow> i < bucketIndex it \<and>
  bucketIndex it < unat (bucketCount m) \<and> rest it = buckets m ! bucketIndex it \<and> rest it \<noteq> []"
proof (induction m i rule: next_bucket.induct)
  case (1 m i)
  show ?case
  proof (cases "Suc i \<ge> unat (bucketCount m)")
    case True
    then show ?thesis using "1.prems" by (simp add: next_bucket.simps [of m i])
  next
    case False
    then show ?thesis
    proof (cases "buckets m ! Suc i \<noteq> []")
      case True
      then show ?thesis using "1.prems" False by (auto simp: next_bucket.simps [of m i])
    next
      case e: False
      then have "next_bucket m (Suc i) = Some it"
        using "1.prems" False by (simp add: next_bucket.simps [of m i])
      from "1.IH" [OF False e this] show ?thesis by auto
    qed
  qed
qed

definition iter_ok :: "'v Map_Base \<Rightarrow> 'v Map_Iter \<Rightarrow> bool" where
  "iter_ok m it \<longleftrightarrow> 0 < bucketIndex it \<and> bucketIndex it < length (buckets m) \<and> rest it \<noteq> [] \<and>
     set (rest it) \<subseteq> set (buckets m ! bucketIndex it)"

lemma iter_next_ok:
  assumes "placed m" "Map_iter_next m it = Some it'" "iter_ok m it \<or> it = \<lparr>bucketIndex = 0, rest = []\<rparr>"
  shows "iter_ok m it'"
proof -
  have nb: "iter_ok m it'" if "next_bucket m (bucketIndex it) = Some it'"
    using next_bucket_later [OF that] assms(1) by (auto simp: iter_ok_def placed_def)
  show ?thesis
  proof (cases "rest it")
    case Nil
    with nb assms(2) show ?thesis by (simp add: Map_iter_next_def)
  next
    case (Cons x chain)
    with assms(2,3) nb show ?thesis
      by (cases "chain = []") (auto simp: Map_iter_next_def iter_ok_def)
  qed
qed

lemma foreach_later:
  assumes "placed m" "case it of None \<Rightarrow> True | Some i \<Rightarrow> iter_ok m i"
  shows "set (Map_foreach n m it) \<subseteq> entry ` set (concat (tl (buckets m)))"
  using assms(2)
proof (induction n arbitrary: it)
  case (Suc n)
  show ?case
  proof (cases it)
    case (Some i)
    then have i: "iter_ok m i" using Suc.prems by simp
    then obtain j where j: "bucketIndex i = Suc j" "Suc j < length (buckets m)" "rest i \<noteq> []" "set (rest i) \<subseteq> set (buckets m ! Suc j)"
      by (cases "bucketIndex i") (auto simp: iter_ok_def)
    then have "buckets m ! Suc j \<in> set (tl (buckets m))"
      by (metis Nitpick.size_list_simp(2) Suc_less_eq less_Suc_eq_0_disj nth_mem nth_tl length_tl diff_Suc_1 list.size(3) not_less_zero)
    then have "hd (rest i) \<in> set (concat (tl (buckets m)))"
      using j(3,4) hd_in_set by fastforce
    moreover have "case Map_iter_next m i of None \<Rightarrow> True | Some i \<Rightarrow> iter_ok m i"
      using iter_next_ok [OF assms(1) _ disjI1 [OF i]] by (cases "Map_iter_next m i") auto
    ultimately have "entry (hd (rest i)) \<in> entry ` set (concat (tl (buckets m)))"
      "set (Map_foreach n m (Map_iter_next m i)) \<subseteq> entry ` set (concat (tl (buckets m)))"
      using Suc.IH by blast+
    then show ?thesis using Some by (simp add: entry_def [symmetric])
  qed simp
qed simp

theorem Map_foreach_skips:
  assumes "placed m"
  shows "set (Map_foreach n m (Map_begin m)) \<subseteq> entry ` set (concat (tl (buckets m)))"
proof (rule foreach_later [OF assms])
  show "case Map_begin m of None \<Rightarrow> True | Some i \<Rightarrow> iter_ok m i"
    using iter_next_ok [OF assms, of "\<lparr>bucketIndex = 0, rest = []\<rparr>"]
    by (cases "Map_begin m") (auto simp: Map_begin_def split: if_splits)
qed

text \<open>The key ``e'' falls in bucket 0 of 32: it is found and not visited.\<close>

theorem Map_foreach_skips_witness:
  "\<exists>m. Map_put [101] (1 :: nat) Map_init0 = Some m \<and> Map_get m [101] = Some 1 \<and>
     set (Map_foreach 5 m (Map_begin m)) \<subseteq> entry ` set (concat (tl (buckets m))) \<and> Map_foreach 5 m (Map_begin m) = []"
proof -
  have "exact_list [[101]]" by code_simp
  then have "exact {[101]}" using exact_list_exact [of "[[101]]"] by simp
  then have i: "map_inv {[101]} Map_init0" by (rule keyed.empty_inv)
  from keyed.set_law [OF i, of "[101]" "1 :: nat"] obtain m where
    m: "Map_put [101] (1 :: nat) Map_init0 = Some m" "map_inv {[101]} m" "Map_get m [101] = Some 1" by auto
  then have p: "placed m" by (simp add: map_inv_def map_ok_def)
  have "map_option (\<lambda>m. Map_foreach 5 m (Map_begin m)) (Map_put [101] (1 :: nat) Map_init0) = Some []"
    by code_simp
  then have "Map_foreach 5 m (Map_begin m) = []" using m(1) by simp
  with m Map_foreach_skips [OF p] show ?thesis by blast
qed

end
