(* ===== verification/Cyn_Source.thy ===== *)
theory Cyn_Source
  imports Cyn_Prelude
begin

text \<open>
  Positions and ranges of source text (\<^verbatim>\<open>src/compiler/common/source.c\<close>). A source is known by an
  identity, the address of its record; a store maps it to its bytes. Offsets, lines and columns are
  natural numbers: the length of a source is a C \<open>int\<close>, so no sum of two of them reaches \<open>2 ^ 32\<close>. \<open>None\<close>
  is a failed assertion or a read outside the source.
\<close>

section \<open>Positions\<close>

record LineColumn =
  lc_line :: nat
  lc_column :: nat

record Position =
  p_idx :: nat
  p_coord :: LineColumn

type_synonym Sources = "nat \<Rightarrow> u8 list"

record Range =
  r_start :: nat
  r_end :: nat
  r_coord :: LineColumn
  r_source :: "nat option"

definition count_char :: "u8 \<Rightarrow> LineColumn \<Rightarrow> LineColumn" where
  "count_char c p =
     (if c = 10 then p\<lparr>lc_line := lc_line p + 1, lc_column := 0\<rparr> else p\<lparr>lc_column := lc_column p + 1\<rparr>)"

definition line_column :: "u8 list \<Rightarrow> LineColumn" where
  "line_column cs = fold count_char cs \<lparr>lc_line = 0, lc_column = 0\<rparr>"

lemma line_column_snoc [simp]: "line_column (cs @ [c]) = count_char c (line_column cs)"
  by (simp add: line_column_def)

section \<open>Ranges\<close>

definition Range_update :: "nat option \<Rightarrow> nat \<Rightarrow> nat \<Rightarrow> LineColumn \<Rightarrow> Range option" where
  "Range_update src start end pos =
     (if end \<ge> start then Some \<lparr>r_start = start, r_end = end, r_coord = pos, r_source = src\<rparr> else None)"

definition Range_size :: "Range \<Rightarrow> nat option" where
  "Range_size r = (if r_start r \<le> r_end r then Some (r_end r - r_start r) else None)"

definition Range_equals :: "Range \<Rightarrow> Range \<Rightarrow> bool" where
  "Range_equals rhs lhs \<longleftrightarrow>
     rhs = lhs \<or> r_source rhs = r_source lhs \<and> r_start rhs = r_start lhs \<and> r_end rhs = r_end lhs"

text \<open>The bytes of the view; \<open>Vector_at\<close> is null at and after the end.\<close>

definition Range_view :: "Sources \<Rightarrow> Range \<Rightarrow> u8 list option" where
  "Range_view srcs S =
     Option.bind (r_source S) (\<lambda>p.
       if r_start S < length (srcs p) \<and> r_start S \<le> r_end S \<and> r_end S \<le> length (srcs p)
       then Some (take (r_end S - r_start S) (drop (r_start S) (srcs p))) else None)"

text \<open>
  The loops of \<open>Range_enclosingLine\<close>. The start is computed in 32 bits before it is widened: from
  offset 0 it is \<open>2 ^ 32 - 1\<close>, behind the end of every source.
\<close>

function line_start :: "u8 list \<Rightarrow> int \<Rightarrow> int option" where
  "line_start src s =
     (if s < 0 then Some s
      else if s \<ge> int (length src) then None
      else if src ! nat s \<noteq> 10 then line_start src (s - 1) else Some s)"
  by auto
termination by (relation "measure (\<lambda>(src, s). nat (s + 1))") auto

declare line_start.simps [simp del]

function line_end :: "u8 list \<Rightarrow> nat \<Rightarrow> nat" where
  "line_end src e = (if e < length src \<and> src ! e \<noteq> 10 then line_end src (Suc e) else e)"
  by auto
termination by (relation "measure (\<lambda>(src, e). length src - e)") auto

declare line_end.simps [simp del]

definition Range_enclosingLine :: "Sources \<Rightarrow> Range \<Rightarrow> Range option" where
  "Range_enclosingLine srcs S =
     Option.bind (r_source S) (\<lambda>p.
       let src = srcs p; s = (int (r_start S) - 1) mod 2 ^ 32 in
       Option.bind (line_start src s) (\<lambda>s.
         Range_update (Some p) (nat (s + 1)) (line_end src (r_end S)) (r_coord S)))"

definition Range_atEnd :: "Range \<Rightarrow> Range option" where
  "Range_atEnd S =
     (if r_source S \<noteq> None then Range_update (r_source S) (r_end S) (r_end S) (r_coord S) else None)"

definition Range_merge :: "Range \<Rightarrow> Range \<Rightarrow> Range option" where
  "Range_merge S w =
     (if r_source S \<noteq> None \<and> r_source S = r_source w then
        let s = min (r_start S) (r_start w); e = max (r_end S) (r_end w) in
        Range_update (r_source S) s e (if s = r_start S then r_coord S else r_coord w)
      else None)"

definition Range_extend :: "Range \<Rightarrow> Range \<Rightarrow> Range option" where
  "Range_extend S w =
     (if r_source S = r_source w \<and> r_start S \<le> r_start w \<and> r_end S \<le> r_end w then
        Range_update (r_source S) (r_start S) (r_end w) (r_coord S)
      else None)"

definition Range_mergeWith :: "Range \<Rightarrow> Range \<Rightarrow> Range option" where
  "Range_mergeWith S w =
     (if r_source S = r_source w then
        let S = (if r_start w < r_start S then S\<lparr>r_coord := r_coord w\<rparr> else S) in
        Some (S\<lparr>r_start := min (r_start S) (r_start w), r_end := max (r_end S) (r_end w)\<rparr>)
      else None)"

definition Range_extendWith :: "Range \<Rightarrow> Range \<Rightarrow> Range option" where
  "Range_extendWith S w =
     (if r_source S = r_source w \<and> r_start S \<le> r_start w \<and> r_end S \<le> r_end w then Some (S\<lparr>r_end := r_end w\<rparr>)
      else None)"

text \<open>The loop of \<open>Range_sub\<close> counts lines and columns from the start of the source.\<close>

function count_to :: "u8 list \<Rightarrow> nat \<Rightarrow> nat \<Rightarrow> LineColumn \<Rightarrow> LineColumn option" where
  "count_to src x i coord =
     (if x < i then if x < length src then count_to src (Suc x) i (count_char (src ! x) coord) else None
      else Some coord)"
  by auto
termination by (relation "measure (\<lambda>(src, x, i, coord). i - x)") auto

declare count_to.simps [simp del]

definition Range_sub :: "Sources \<Rightarrow> Range \<Rightarrow> nat \<Rightarrow> nat \<Rightarrow> Range option" where
  "Range_sub srcs S s len =
     Option.bind (r_source S) (\<lambda>p.
       let i = r_start S + s in
       if i \<le> r_end S then
         let e = if len = 0 then r_end S else i + len in
         if e \<le> r_end S then
           Option.bind (count_to (srcs p) 0 i \<lparr>lc_line = 0, lc_column = 0\<rparr>) (\<lambda>coord.
             Range_update (Some p) i e coord)
         else None
       else None)"

section \<open>Well-formed ranges\<close>

text \<open>A range inside its source whose coordinates are those of its start.\<close>

definition range_ok :: "Sources \<Rightarrow> Range \<Rightarrow> bool" where
  "range_ok srcs r \<longleftrightarrow>
     (case r_source r of
        None \<Rightarrow> False
      | Some p \<Rightarrow> r_start r \<le> r_end r \<and> r_end r \<le> length (srcs p) \<and>
                  r_coord r = line_column (take (r_start r) (srcs p)))"

lemma count_to_line_column:
  "x \<le> i \<Longrightarrow> i \<le> length src \<Longrightarrow> count_to src x i (line_column (take x src)) = Some (line_column (take i src))"
proof (induction src x i "line_column (take x src)" rule: count_to.induct)
  case (1 src x i)
  show ?case
  proof (cases "x < i")
    case True
    then have x: "x < length src" using "1.prems" by simp
    then have "count_char (src ! x) (line_column (take x src)) = line_column (take (Suc x) src)"
      by (simp add: take_Suc_conv_app_nth)
    with 1 True x show ?thesis by (simp add: count_to.simps [of src x i])
  next
    case False
    with "1.prems" show ?thesis by (simp add: count_to.simps)
  qed
qed

lemma Range_sub_ok:
  assumes "range_ok srcs r" "s + len \<le> r_end r - r_start r" "s \<le> r_end r - r_start r"
  shows "\<exists>q. Range_sub srcs r s len = Some q \<and> range_ok srcs q \<and> r_start q = r_start r + s \<and>
    r_end q = (if len = 0 then r_end r else r_start r + s + len)"
proof -
  from assms(1) obtain p where p: "r_source r = Some p" "r_start r \<le> r_end r" "r_end r \<le> length (srcs p)"
    by (auto simp: range_ok_def split: option.splits)
  then have "r_start r + s \<le> length (srcs p)" using assms(3) by simp
  from count_to_line_column [OF _ this, of 0] p assms(2,3) show ?thesis
    by (simp add: Range_sub_def Let_def Range_update_def range_ok_def line_column_def) arith
qed

lemma Range_merge_ok:
  assumes "range_ok srcs a" "range_ok srcs b" "r_source a = r_source b"
  shows "\<exists>q. Range_merge a b = Some q \<and> Range_mergeWith a b = Some q \<and> range_ok srcs q \<and>
    r_start q = min (r_start a) (r_start b) \<and> r_end q = max (r_end a) (r_end b)"
proof -
  from assms(1) obtain p where "r_source a = Some p" by (auto simp: range_ok_def split: option.splits)
  then have "r_source a = Some p" "r_source b = Some p" using assms(3) by simp_all
  with assms(1,2) show ?thesis
    by (auto simp: range_ok_def Range_merge_def Range_mergeWith_def Range_update_def Let_def min_def max_def)
qed

lemma line_start_at:
  "s < int (length src) \<Longrightarrow> - 1 \<le> s \<Longrightarrow> \<exists>q. line_start src s = Some q \<and> - 1 \<le> q \<and> q \<le> s \<and> (0 \<le> q \<longrightarrow> src ! nat q = 10) \<and>
    (\<forall>i. q < i \<and> i \<le> s \<longrightarrow> src ! nat i \<noteq> 10)"
proof (induction src s rule: line_start.induct)
  case (1 src s)
  show ?case
  proof (cases "s < 0 \<or> src ! nat s = 10")
    case True
    then show ?thesis using "1.prems" by (auto simp: line_start.simps [of src s])
  next
    case False
    with 1 obtain q where q: "line_start src (s - 1) = Some q" "- 1 \<le> q" "q \<le> s - 1" "0 \<le> q \<longrightarrow> src ! nat q = 10"
      "\<forall>i. q < i \<and> i \<le> s - 1 \<longrightarrow> src ! nat i \<noteq> 10" by auto
    moreover have "src ! nat i \<noteq> 10" if "q < i" "i \<le> s" for i
      using q(5) that False by (cases "i = s") auto
    ultimately show ?thesis using False "1.prems" by (auto simp: line_start.simps [of src s])
  qed
qed

lemma line_end_at:
  "e \<le> length src \<Longrightarrow> e \<le> line_end src e \<and> line_end src e \<le> length src \<and>
    (line_end src e < length src \<longrightarrow> src ! line_end src e = 10) \<and> (\<forall>i. e \<le> i \<and> i < line_end src e \<longrightarrow> src ! i \<noteq> 10)"
proof (induction src e rule: line_end.induct)
  case (1 src e)
  show ?case
  proof (cases "e < length src \<and> src ! e \<noteq> 10")
    case True
    with 1 have "line_end src e = line_end src (Suc e)" by (simp add: line_end.simps [of src e])
    moreover have "src ! i \<noteq> 10" if "e \<le> i" "i < line_end src (Suc e)" for i
      using 1 True that by (cases "i = e") auto
    ultimately show ?thesis using 1 True by auto
  next
    case False
    then have "line_end src e = e" by (subst line_end.simps) auto
    with False "1.prems" show ?thesis by auto
  qed
qed

text \<open>
  The line around a range starts behind the last newline before it and
  ends at the next newline or at the end of the source; it contains no newline outside the range.
  For a range at offset 0 the search starts outside the source.
\<close>

theorem Range_enclosingLine_lines:
  assumes "range_ok srcs r" "r_source r = Some p" "length (srcs p) < 2 ^ 31"
  shows "if r_start r = 0 then Range_enclosingLine srcs r = None
    else \<exists>q. Range_enclosingLine srcs r = Some q \<and> r_start q \<le> r_start r \<and> r_end r \<le> r_end q \<and> r_end q \<le> length (srcs p) \<and>
      (r_start q = 0 \<or> srcs p ! (r_start q - 1) = 10) \<and> (r_end q = length (srcs p) \<or> srcs p ! r_end q = 10) \<and>
      (\<forall>i. r_start q \<le> i \<and> i < r_start r \<or> r_end r \<le> i \<and> i < r_end q \<longrightarrow> srcs p ! i \<noteq> 10)"
proof (cases "r_start r = 0")
  case True
  with assms show ?thesis by (simp add: Range_enclosingLine_def line_start.simps)
next
  case False
  have r: "r_start r \<le> r_end r" "r_end r \<le> length (srcs p)"
    using assms(1,2) by (auto simp: range_ok_def)
  have m: "(int (r_start r) - 1) mod 2 ^ 32 = int (r_start r) - 1"
    using False r assms(3) by simp
  obtain s where s: "line_start (srcs p) (int (r_start r) - 1) = Some s" "- 1 \<le> s" "s \<le> int (r_start r) - 1"
    "0 \<le> s \<longrightarrow> srcs p ! nat s = 10" "\<forall>i. s < i \<and> i \<le> int (r_start r) - 1 \<longrightarrow> srcs p ! nat i \<noteq> 10"
    using line_start_at [of "int (r_start r) - 1" "srcs p"] False r by auto
  note e = line_end_at [OF r(2)]
  have le: "nat (s + 1) \<le> line_end (srcs p) (r_end r)" using s(2,3) e r by linarith
  have q: "Range_enclosingLine srcs r =
      Some \<lparr>r_start = nat (s + 1), r_end = line_end (srcs p) (r_end r), r_coord = r_coord r, r_source = Some p\<rparr>"
    unfolding Range_enclosingLine_def Let_def assms(2) bind.bind_lunit m s(1) Range_update_def if_P [OF le] ..
  have before: "srcs p ! i \<noteq> 10" if "nat (s + 1) \<le> i" "i < r_start r" for i
    using s(5)[rule_format, of "int i"] that by simp
  have first: "nat (s + 1) = 0 \<or> srcs p ! (nat (s + 1) - 1) = 10"
    using s(2,4) by (cases "0 \<le> s") (auto simp: nat_add_distrib)
  have start: "nat (s + 1) \<le> r_start r" using s(2,3) by linarith
  have "\<exists>q. Range_enclosingLine srcs r = Some q \<and> r_start q \<le> r_start r \<and> r_end r \<le> r_end q \<and> r_end q \<le> length (srcs p) \<and>
      (r_start q = 0 \<or> srcs p ! (r_start q - 1) = 10) \<and> (r_end q = length (srcs p) \<or> srcs p ! r_end q = 10) \<and>
      (\<forall>i. r_start q \<le> i \<and> i < r_start r \<or> r_end r \<le> i \<and> i < r_end q \<longrightarrow> srcs p ! i \<noteq> 10)"
    unfolding q
  proof (intro exI conjI allI impI)
    show "srcs p ! i \<noteq> 10"
      if "r_start \<lparr>r_start = nat (s + 1), r_end = line_end (srcs p) (r_end r), r_coord = r_coord r, r_source = Some p\<rparr> \<le> i \<and> i < r_start r \<or>
        r_end r \<le> i \<and> i < r_end \<lparr>r_start = nat (s + 1), r_end = line_end (srcs p) (r_end r), r_coord = r_coord r, r_source = Some p\<rparr>" for i
      using that before [of i] e by auto
  qed (use first start e in auto)
  then show ?thesis using False by simp
qed

text \<open>The line around the second word of two lines, and the first word.\<close>

theorem Range_enclosingLine_lines_witness:
  "\<exists>q. Range_enclosingLine (\<lambda>_. [97, 10, 98, 99]) \<lparr>r_start = 3, r_end = 4, r_coord = \<lparr>lc_line = 1, lc_column = 1\<rparr>, r_source = Some 0\<rparr> = Some q \<and>
     r_start q \<le> 3"
proof -
  let ?r = "\<lparr>r_start = 3, r_end = 4, r_coord = \<lparr>lc_line = 1, lc_column = 1\<rparr>, r_source = Some 0\<rparr>"
  have "range_ok (\<lambda>_. [97, 10, 98, 99]) ?r" by (simp add: range_ok_def line_column_def count_char_def)
  from Range_enclosingLine_lines [OF this, of 0] show ?thesis by auto
qed

end
