(* ===== verification/Cyn_Token.thy ===== *)
theory Cyn_Token
  imports Cyn_Text Cyn_Map Cyn_Source
begin

text \<open>
  The tokens of the compiler (\<^verbatim>\<open>include/compiler/common/token.h\<close>,
  \<^verbatim>\<open>src/compiler/common/token.c\<close>): kinds in the order of their list, names, values, the groups of
  operators, and the table of keywords with the map that is filled from it.
\<close>

section \<open>Kinds\<close>

text \<open>
  The enumeration is grouped in three types: operators and separators, words, and the others. In C
  all enumerators are constants of one type.
\<close>

datatype Operator =
    tokAssign | tokBitAnd | tokBitAndAssign | tokBitOr | tokBitOrAssign | tokBitXor | tokBitXorAssign
  | tokColon | tokDColon | tokComma | tokComplement | tokCompAssign | tokDiv | tokDot | tokDotDot
  | tokElipsis | tokDivAssign | tokEqual | tokGt | tokGte | tokLt | tokLte | tokLBrace | tokRBrace
  | tokLBracket | tokRBracket | tokLParen | tokRParen | tokLAnd | tokLOr | tokMinus | tokMinusMinus
  | tokMinisAssign | tokMult | tokExponent | tokMultAssign | tokNot | tokNeq | tokPlus | tokPlusPlus
  | tokPlusAssign | tokMod | tokModAssign | tokQuestion | tokSemicolon | tokSal | tokSalAssign
  | tokSar | tokSarAssign | tokLArrow | tokRArrow | tokAt | tokHash | tokBackquote | tokDollar
  | tokBackSlash

datatype KeywordKind =
    tokAlingof | tokAs | tokAuto | tokBreak | tokCase | tokContinue | tokConst | tokElse | tokEnum
  | tokExtern | tokFalse | tokFor | tokFunc | tokIf | tokImm | tokIn | tokInline | tokImport
  | tokMacro | tokMove | tokMut | tokNew | tokNull | tokReturn | tokSizeof | tokStatic | tokStruct
  | tokSwitch | tokThis | tokTrait | tokTrue | tokUnsafe | tokUnion | tokUsing | tokWhile | tokVoid
  | tokline | tokColumn | tokFileExpr | tokArgExpr | tokOpaque | tokAnd | tokOr

datatype TokenKind =
    tokEoF | tokNl | tokChar | tokString | tokInteger | tokFloat | tokIdentifier | tokComment
  | Op Operator | Kw KeywordKind | tokLStrExpr | tokRStrExpr | tokCOUNT

text \<open>
  The entries of the list are plain kinds (\<open>XX\<close>), keywords (\<open>YY\<close>), builtins (\<open>BB\<close>) and keywords that
  stand for another kind (\<open>ZZ\<close>).
\<close>

datatype token_class = Plain | Keyword | Builtin | Alias TokenKind

abbreviation quoted :: "string \<Rightarrow> string" where
  "quoted s \<equiv> CHR 0x27 # s @ [CHR 0x27]"

definition TOKEN_LIST :: "(TokenKind \<times> token_class \<times> string) list" where
  "TOKEN_LIST =
    [(tokEoF, Plain, ''<eof>''), (tokNl, Plain, ''<nl>''), (tokChar, Plain, ''<char>''),
     (tokString, Plain, ''<string>''), (tokInteger, Plain, ''<integer>''), (tokFloat, Plain, ''<float>''),
     (tokIdentifier, Plain, ''<identifier>''), (tokComment, Plain, ''<comment>''),
     (Op tokAssign, Plain, quoted ''=''), (Op tokBitAnd, Plain, quoted ''&''),
     (Op tokBitAndAssign, Plain, quoted ''&=''), (Op tokBitOr, Plain, quoted ''|''),
     (Op tokBitOrAssign, Plain, quoted ''|=''), (Op tokBitXor, Plain, quoted ''^''),
     (Op tokBitXorAssign, Plain, quoted ''^=''), (Op tokColon, Plain, quoted '':''),
     (Op tokDColon, Plain, quoted ''::''), (Op tokComma, Plain, quoted '',''),
     (Op tokComplement, Plain, quoted ''~''), (Op tokCompAssign, Plain, quoted ''~=''),
     (Op tokDiv, Plain, quoted ''/''), (Op tokDot, Plain, quoted ''.''), (Op tokDotDot, Plain, quoted ''..''),
     (Op tokElipsis, Plain, CHR 0x27 # ''...''), (Op tokDivAssign, Plain, quoted ''/=''),
     (Op tokEqual, Plain, quoted ''==''), (Op tokGt, Plain, quoted ''>''), (Op tokGte, Plain, quoted ''>=''),
     (Op tokLt, Plain, quoted ''<''), (Op tokLte, Plain, quoted ''<=''), (Op tokLBrace, Plain, quoted ''{''),
     (Op tokRBrace, Plain, quoted ''}''), (Op tokLBracket, Plain, quoted ''[''),
     (Op tokRBracket, Plain, quoted '']''), (Op tokLParen, Plain, quoted ''(''), (Op tokRParen, Plain, quoted '')''),
     (Op tokLAnd, Plain, quoted ''&&''), (Op tokLOr, Plain, quoted ''||''), (Op tokMinus, Plain, quoted ''-''),
     (Op tokMinusMinus, Plain, quoted ''--''), (Op tokMinisAssign, Plain, quoted ''-=''),
     (Op tokMult, Plain, quoted ''*''), (Op tokExponent, Plain, quoted ''**''),
     (Op tokMultAssign, Plain, quoted ''*=''), (Op tokNot, Plain, quoted ''!''),
     (Op tokNeq, Plain, quoted ''!='' @ '')''), (Op tokPlus, Plain, quoted ''+''),
     (Op tokPlusPlus, Plain, quoted ''++''), (Op tokPlusAssign, Plain, quoted ''+=''),
     (Op tokMod, Plain, quoted ''%''), (Op tokModAssign, Plain, quoted ''%=''),
     (Op tokQuestion, Plain, quoted ''?''), (Op tokSemicolon, Plain, quoted '';''),
     (Op tokSal, Plain, quoted ''<<''), (Op tokSalAssign, Plain, quoted ''=<<''), (Op tokSar, Plain, quoted ''>>''),
     (Op tokSarAssign, Plain, quoted ''>>=''), (Op tokLArrow, Plain, quoted ''<-''),
     (Op tokRArrow, Plain, quoted ''->''), (Op tokAt, Plain, quoted ''@''), (Op tokHash, Plain, quoted ''#''),
     (Op tokBackquote, Plain, [CHR 0x27, CHR 0x60]), (Op tokDollar, Plain, quoted ''$''),
     (Op tokBackSlash, Plain, quoted ''''), (Kw tokAlingof, Keyword, ''alignof''), (Kw tokAs, Keyword, ''as''),
     (Kw tokAuto, Keyword, ''auto''), (Kw tokBreak, Keyword, ''break''), (Kw tokCase, Keyword, ''case''),
     (Kw tokContinue, Keyword, ''continue''), (Kw tokConst, Keyword, ''const''), (Kw tokElse, Keyword, ''else''),
     (Kw tokEnum, Keyword, ''enum''), (Kw tokExtern, Keyword, ''extern''), (Kw tokFalse, Keyword, ''false''),
     (Kw tokFor, Keyword, ''for''), (Kw tokFunc, Keyword, ''func''), (Kw tokIf, Keyword, ''if''),
     (Kw tokImm, Keyword, ''iu''), (Kw tokIn, Keyword, ''in''), (Kw tokInline, Keyword, ''inline''),
     (Kw tokImport, Keyword, ''import''), (Kw tokMacro, Keyword, ''macro''), (Kw tokMove, Keyword, ''move''),
     (Kw tokMut, Keyword, ''mut''), (Kw tokNew, Keyword, ''new''), (Kw tokNull, Keyword, ''null''),
     (Kw tokReturn, Keyword, ''return''), (Kw tokSizeof, Keyword, ''sizeof''), (Kw tokStatic, Keyword, ''static''),
     (Kw tokStruct, Keyword, ''struct''), (Kw tokSwitch, Keyword, ''switch''), (Kw tokThis, Keyword, ''this''),
     (Kw tokTrait, Keyword, ''trait''), (Kw tokTrue, Keyword, ''true''), (Kw tokUnsafe, Keyword, ''unsafe''),
     (Kw tokUnion, Keyword, ''union''), (Kw tokUsing, Keyword, ''using''), (Kw tokWhile, Keyword, ''while''),
     (Kw tokVoid, Keyword, ''void''), (Kw tokline, Builtin, ''line''), (Kw tokColumn, Builtin, ''column''),
     (Kw tokFileExpr, Builtin, ''file''), (Kw tokArgExpr, Builtin, ''arg''), (Kw tokOpaque, Builtin, ''opaque''),
     (Kw tokAnd, Alias (Op tokLAnd), ''and''), (Kw tokOr, Alias (Op tokLOr), ''or''),
     (tokLStrExpr, Plain, quoted ''>strexpr''), (tokRStrExpr, Plain, quoted ''<strexpr'')]"

text \<open>The kinds in the order of the enumeration, and the order as an instance of the library's class.\<close>

definition TokenKinds :: "TokenKind list" where
  "TokenKinds = map fst TOKEN_LIST @ [tokCOUNT]"

definition TokenKind_index :: "TokenKind \<Rightarrow> nat" where
  "TokenKind_index k = length (takeWhile (\<lambda>x. x \<noteq> k) TokenKinds)"

lemma TokenKinds_complete: "k \<in> set TokenKinds"
proof (cases k)
  case (Op x)
  then show ?thesis by (cases x) (simp_all add: TokenKinds_def TOKEN_LIST_def)
next
  case (Kw x)
  then show ?thesis by (cases x) (simp_all add: TokenKinds_def TOKEN_LIST_def)
qed (simp_all add: TokenKinds_def TOKEN_LIST_def)

lemma TokenKind_index_less: "TokenKind_index k < length TokenKinds"
proof -
  have "takeWhile (\<lambda>x. x \<noteq> k) TokenKinds \<noteq> TokenKinds"
    using TokenKinds_complete [of k] by (simp add: takeWhile_eq_all_conv)
  then show ?thesis
    unfolding TokenKind_index_def
    by (metis length_takeWhile_le le_neq_implies_less takeWhile_eq_take take_all order_refl)
qed

lemma TokenKind_index_nth: "TokenKinds ! TokenKind_index k = k"
  using nth_length_takeWhile [of "\<lambda>x. x \<noteq> k" TokenKinds] TokenKind_index_less [of k]
  by (simp add: TokenKind_index_def)

lemma TokenKind_index_inj: "TokenKind_index k = TokenKind_index k' \<longleftrightarrow> k = k'"
  using TokenKind_index_nth by metis

instantiation TokenKind :: linorder
begin

definition less_eq_TokenKind :: "TokenKind \<Rightarrow> TokenKind \<Rightarrow> bool" where
  "less_eq_TokenKind a b \<longleftrightarrow> TokenKind_index a \<le> TokenKind_index b"

definition less_TokenKind :: "TokenKind \<Rightarrow> TokenKind \<Rightarrow> bool" where
  "less_TokenKind a b \<longleftrightarrow> TokenKind_index a < TokenKind_index b"

instance
  by standard (auto simp: less_eq_TokenKind_def less_TokenKind_def TokenKind_index_inj)

end

definition TokenKind_isKeyword :: "TokenKind \<Rightarrow> bool" where
  "TokenKind_isKeyword kind \<longleftrightarrow> kind \<ge> Kw tokAlingof \<and> kind \<le> Kw tokVoid"

definition TokenKind_toString :: "TokenKind \<Rightarrow> string" where
  "TokenKind_toString kind =
     (case map_of TOKEN_LIST kind of
        Some (Builtin, s) \<Rightarrow> CHR ''@'' # s
      | Some (_, s) \<Rightarrow> s
      | None \<Rightarrow> ''<unknown>'')"

section \<open>Groups of kinds\<close>

definition STMT_MARK_TOKENS :: "TokenKind list" where
  "STMT_MARK_TOKENS =
     [Kw tokBreak, Kw tokCase, Kw tokContinue, Kw tokElse, Kw tokEnum, Kw tokExtern, Kw tokFor, Kw
      tokFunc, Kw tokIf, Kw tokImm, Kw tokInline, Kw tokImport, Kw tokMacro, Kw tokReturn, Kw
      tokStatic, Kw tokStruct, Kw tokSwitch, Kw tokTrait, Kw tokUnion, Kw tokUsing, Kw tokWhile]"

definition Token_isBinaryOp :: "TokenKind \<Rightarrow> bool" where
  "Token_isBinaryOp kind \<longleftrightarrow> kind \<in> set
     [Op tokPlus, Op tokMinus, Op tokMult, Op tokDiv, Op tokMod, Op tokEqual, Op tokNeq, Op tokLt, Op
      tokGt, Op tokLte, Op tokGte, Op tokLAnd, Op tokLOr, Op tokBitAnd, Op tokBitOr, Op tokBitXor, Op
      tokSal, Op tokSar, Op tokAssign, Op tokPlusAssign, Op tokMinisAssign, Op tokMultAssign, Op
      tokDivAssign, Op tokModAssign, Op tokBitAndAssign, Op tokBitOrAssign, Op tokBitXorAssign, Op
      tokSalAssign, Op tokSarAssign]"

definition Token_isAssignOp :: "TokenKind \<Rightarrow> bool" where
  "Token_isAssignOp kind \<longleftrightarrow> kind \<in> set
     [Op tokPlusAssign, Op tokMinisAssign, Op tokMultAssign, Op tokDivAssign, Op tokModAssign, Op
      tokBitAndAssign, Op tokBitOrAssign, Op tokBitXorAssign, Op tokSalAssign, Op tokSarAssign]"

definition Token_isUnaryOp :: "TokenKind \<Rightarrow> bool" where
  "Token_isUnaryOp kind \<longleftrightarrow> kind \<in> set
     [Op tokPlus, Op tokMinus, Op tokNot, Op tokComplement, Op tokMinusMinus, Op tokPlusPlus]"

definition Token_isTernaryOp :: "TokenKind \<Rightarrow> bool" where
  "Token_isTernaryOp kind \<longleftrightarrow> kind = Op tokQuestion"

definition Token_isStmtBoundary :: "TokenKind \<Rightarrow> bool" where
  "Token_isStmtBoundary kind \<longleftrightarrow> kind \<in> set STMT_MARK_TOKENS"

definition Token_isLogicalOp :: "TokenKind \<Rightarrow> bool" where
  "Token_isLogicalOp kind \<longleftrightarrow> kind \<in> set
     [Op tokEqual, Op tokNeq, Op tokGt, Op tokGte, Op tokLt, Op tokLte, Op tokLAnd, Op tokLOr]"

section \<open>Values\<close>

text \<open>
  The value is a kind and a union. A double is its 64 bits. The accessors assert the kind: \<open>None\<close>
  is a failed assertion. The integer accessor reads the bits of a double that is stored.
\<close>

datatype ValueKind = vkdNone | vkdBool | vkdChar | vkdInt | vkdFloat | vkdString

datatype TokenUnion = UNone | UBool bool | UChar u32 | UInt u64 | UFloat u64 | UString "u8 list"

record TokenValue =
  v_kind :: ValueKind
  v_union :: TokenUnion

record Token =
  tk_kind :: TokenKind
  tk_value :: TokenValue
  tk_range :: Range

definition Token_setBool :: "bool \<Rightarrow> Token \<Rightarrow> Token" where
  "Token_setBool b token = token\<lparr>tk_value := \<lparr>v_kind = vkdBool, v_union = UBool b\<rparr>\<rparr>"

definition Token_setChar :: "u32 \<Rightarrow> Token \<Rightarrow> Token" where
  "Token_setChar chr token = token\<lparr>tk_value := \<lparr>v_kind = vkdChar, v_union = UChar chr\<rparr>\<rparr>"

definition Token_setInt :: "u64 \<Rightarrow> Token \<Rightarrow> Token" where
  "Token_setInt num token = token\<lparr>tk_value := \<lparr>v_kind = vkdInt, v_union = UInt num\<rparr>\<rparr>"

text \<open>As in the source, a float is stored with the kind of an integer.\<close>

definition Token_setFloat :: "u64 \<Rightarrow> Token \<Rightarrow> Token" where
  "Token_setFloat flt token = token\<lparr>tk_value := \<lparr>v_kind = vkdInt, v_union = UFloat flt\<rparr>\<rparr>"

definition Token_setString :: "u8 list \<Rightarrow> Token \<Rightarrow> Token" where
  "Token_setString s token = token\<lparr>tk_value := \<lparr>v_kind = vkdString, v_union = UString s\<rparr>\<rparr>"

definition Token_getInt :: "Token \<Rightarrow> u64 option" where
  "Token_getInt token =
     (if v_kind (tk_value token) = vkdInt then
        case v_union (tk_value token) of UInt i \<Rightarrow> Some i | UFloat f \<Rightarrow> Some f | _ \<Rightarrow> None
      else None)"

definition Token_getChar :: "Token \<Rightarrow> u32 option" where
  "Token_getChar token =
     (if v_kind (tk_value token) = vkdChar then
        case v_union (tk_value token) of UChar c \<Rightarrow> Some c | _ \<Rightarrow> None
      else None)"

definition Token_getBool :: "Token \<Rightarrow> bool option" where
  "Token_getBool token =
     (if v_kind (tk_value token) = vkdBool then
        case v_union (tk_value token) of UBool b \<Rightarrow> Some b | _ \<Rightarrow> None
      else None)"

definition Token_getFloat :: "Token \<Rightarrow> u64 option" where
  "Token_getFloat token =
     (if v_kind (tk_value token) = vkdFloat then
        case v_union (tk_value token) of UFloat f \<Rightarrow> Some f | _ \<Rightarrow> None
      else None)"

definition Token_getString :: "Token \<Rightarrow> u8 list option" where
  "Token_getString token =
     (if v_kind (tk_value token) = vkdString then
        case v_union (tk_value token) of UString s \<Rightarrow> Some s | _ \<Rightarrow> None
      else None)"

definition bytes_of :: "string \<Rightarrow> u8 list" where
  "bytes_of s = map of_char s"

text \<open>
  Printing a token to a buffer; \<open>%g\<close> of the C library is the parameter \<open>fmt_g\<close>. The value of an integer
  token is read as an integer whatever was stored.
\<close>

definition Token_toString0 :: "(u64 \<Rightarrow> u8 list) \<Rightarrow> Sources \<Rightarrow> Token \<Rightarrow> u8 list \<Rightarrow> u8 list option" where
  "Token_toString0 fmt_g srcs tok os =
     (case tk_kind tok of
        tokInteger \<Rightarrow>
          (case v_union (tk_value tok) of
             UInt i \<Rightarrow> Some (os @ bytes_of ''<integet: '' @ dec_nat (unat i) @ bytes_of ''>'')
           | _ \<Rightarrow> None)
      | tokFloat \<Rightarrow>
          (case v_union (tk_value tok) of
             UFloat f \<Rightarrow> Some (os @ bytes_of ''<float: '' @ fmt_g f @ bytes_of ''>'')
           | _ \<Rightarrow> None)
      | tokChar \<Rightarrow>
          (case v_union (tk_value tok) of
             UChar c \<Rightarrow> map_option (\<lambda>os. os @ bytes_of ''>'') (Stream_putUtf8 (os @ bytes_of ''<char: '') c)
           | _ \<Rightarrow> None)
      | tokString \<Rightarrow>
          (case v_union (tk_value tok) of
             UString s \<Rightarrow> Some (os @ bytes_of ''<string: '' @ takeWhile (\<lambda>c. c \<noteq> 0) s @ bytes_of ''>'')
           | _ \<Rightarrow> None)
      | tokIdentifier \<Rightarrow>
          map_option (\<lambda>sv. os @ bytes_of ''<ident: '' @ sv @ bytes_of ''>'') (Range_view srcs (tk_range tok))
      | kind \<Rightarrow> Some (os @ bytes_of (TokenKind_toString kind)))"

section \<open>Keywords\<close>

text \<open>What \<open>Lexer_initKeywordsMap\<close> sets, in the order of the list.\<close>

definition keyword_table :: "(u8 list \<times> TokenKind) list" where
  "keyword_table = List.map_filter
     (\<lambda>(kind, cls, name). case cls of
        Plain \<Rightarrow> None
      | Keyword \<Rightarrow> Some (bytes_of name, kind)
      | Builtin \<Rightarrow> Some (bytes_of name, kind)
      | Alias k \<Rightarrow> Some (bytes_of name, k)) TOKEN_LIST"

primrec Map_set_all :: "(u8 list \<times> 'v) list \<Rightarrow> 'v Map_Base \<Rightarrow> 'v Map_Base option" where
  "Map_set_all [] m = Some m"
| "Map_set_all (p # ps) m = Option.bind (Map_put (fst p) (snd p) m) (Map_set_all ps)"

definition Lexer_initKeywordsMap :: "TokenKind Map_Base option" where
  "Lexer_initKeywordsMap = Map_set_all keyword_table Map_init0"

lemma Map_set_all_fill: "Map_set_all ps m = keyed.fill ps m"
  by (induction ps arbitrary: m) (simp_all cong: Option.bind_cong)

text \<open>The hash tells the keywords apart from all their prefixes.\<close>

lemma keywords_exact: "exact (set (map fst keyword_table))"
proof (rule exact_list_exact)
  show "exact_list (map fst keyword_table)" by code_simp
  show "length (map fst keyword_table) < 2 ^ 30"
    by (simp add: keyword_table_def TOKEN_LIST_def map_filter_simps)
qed

text \<open>
  The map of keywords finds for every text exactly the kind that the list of tokens
  gives it: \<open>and\<close> and \<open>or\<close> stand for their operators, the names of the builtins are words without their
  sign, and a text that is not in the list, such as a prefix of a keyword or a longer word, is none.
\<close>

theorem keywords_found:
  "\<exists>m. Lexer_initKeywordsMap = Some m \<and>
     (\<forall>s kind. Map_get m s = Some kind \<longleftrightarrow>
        (\<exists>(entry, cls, name) \<in> set TOKEN_LIST. s = bytes_of name \<and>
           (kind = entry \<and> (cls = Keyword \<or> cls = Builtin) \<or> cls = Alias kind)))"
proof -
  have "distinct (map fst (rev keyword_table))" by code_simp
  have *: "(s, kind) \<in> set keyword_table \<longleftrightarrow>
        (\<exists>(entry, cls, name) \<in> set TOKEN_LIST. s = bytes_of name \<and>
           (kind = entry \<and> (cls = Keyword \<or> cls = Builtin) \<or> cls = Alias kind))" for s kind
    by (force simp: keyword_table_def List.map_filter_def split: token_class.splits)
  from keyed.fill_empty [OF keywords_exact, of keyword_table] obtain m where
    m: "Lexer_initKeywordsMap = Some m" "Map_get m = map_of (rev keyword_table)"
    by (auto simp: Lexer_initKeywordsMap_def Map_set_all_fill)
  then have "Map_get m s = Some kind \<longleftrightarrow> (s, kind) \<in> set keyword_table" for s kind
    using \<open>distinct _\<close> by (simp add: map_of_eq_Some_iff)
  with m(1) * show ?thesis by blast
qed

end
