(* ===== verification/Cyn_Names.thy ===== *)
theory Cyn_Names
  imports Cyn_TreeUse Cyn_Fetch Cyn_Token
begin

text \<open>
  The names that programs in assembly are written with: register names and mnemonics
  (\<^verbatim>\<open>src/vm/utils.c\<close>), looked up and printed, the disassembler of \<^verbatim>\<open>src/vm/code.c\<close>, and the cache that
  keeps one copy of every identifier (\<^verbatim>\<open>src/compiler/common/ident.c\<close>).
\<close>

section \<open>Registers and modes\<close>

definition vmRegisterNameTbl :: "u8 list list" where
  "vmRegisterNameTbl = map bytes_of [''r0'', ''r1'', ''r2'', ''r3'', ''r4'', ''r5'', ''sp'', ''ip'', ''bp'', ''flg'']"

definition vmModeNamesTbl :: "Mode \<Rightarrow> u8 list" where
  "vmModeNamesTbl m = bytes_of (case m of szByte \<Rightarrow> ''.b'' | szShort \<Rightarrow> ''.s'' | szWord \<Rightarrow> ''.w'' | szQuad \<Rightarrow> ''.q'')"

text \<open>\<open>None\<close> is \<open>regCOUNT\<close>. The bytes are those at the pointer, the length is that of the name.\<close>

definition Vm_get_register_from_str :: "u8 list \<Rightarrow> u32 \<Rightarrow> Register option" where
  "Vm_get_register_from_str str len =
     (if len < 2 \<or> len > 3 then None
      else
        let c = str ! 0; c1 = str ! 1 in
        if c = of_char CHR ''b'' then if c1 = of_char CHR ''p'' \<and> len = 2 then Some bp else None
        else if c = of_char CHR ''i'' then if c1 = of_char CHR ''p'' \<and> len = 2 then Some ip else None
        else if c = of_char CHR ''s'' then if c1 = of_char CHR ''p'' \<and> len = 2 then Some sp else None
        else if c = of_char CHR ''f'' then
          if c1 = of_char CHR ''l'' \<and> len = 3 \<and> str ! 2 = of_char CHR ''g'' then Some flg else None
        else if c = of_char CHR ''r'' then
          if c1 < of_char CHR ''0'' \<or> c1 > of_char CHR ''5'' \<or> len \<noteq> 2 then None
          else Register_of (ucast (c1 - of_char CHR ''0''))
        else None)"

section \<open>Mnemonics\<close>

text \<open>\<open>strcasecmp\<close> of the library, in the C locale, compares lower-case letters as unsigned bytes.\<close>

definition tolower :: "u8 \<Rightarrow> u8" where
  "tolower c = (if 0x41 \<le> c \<and> c \<le> 0x5A then c + 0x20 else c)"

definition strcasecmp :: "u8 list \<Rightarrow> u8 list \<Rightarrow> int" where
  "strcasecmp s1 s2 = strcmp (map tolower s1) (map tolower s2)"

definition RbTree_case_cmp_string :: "u8 list \<Rightarrow> u32 \<Rightarrow> u8 list \<Rightarrow> int" where
  "RbTree_case_cmp_string s1 len s2 = (if len = 0 then strcasecmp s1 s2 else RbTree_strncasecmp s1 len s2)"

text \<open>An entry of the tree: the name, and the op code with its number of arguments.\<close>

type_synonym OpCodeInfo = "OpCode \<times> nat"
type_synonym VmOpCodeNamePair = "u8 list \<times> OpCodeInfo"

definition VmOpCodeNamePairList_cmp :: "VmOpCodeNamePair \<Rightarrow> u32 \<Rightarrow> VmOpCodeNamePair \<Rightarrow> int" where
  "VmOpCodeNamePairList_cmp aa len bb = RbTree_case_cmp_string (fst aa) len (fst bb)"

text \<open>The nodes get the addresses 0, 1, 2 and so on.\<close>

definition VM_initCodeNamePairs :: "VmOpCodeNamePair RbTreeBase option" where
  "VM_initCodeNamePairs =
     fst (fold (\<lambda>(opc, name, sz) (t, node).
         (Option.bind t (RbTree_add (\<lambda>a b. VmOpCodeNamePairList_cmp a 0 b) (bytes_of name, opc, sz) node), Suc node))
       vmOpCodes
       (Some \<lparr>rb_root = None, rb_node = (\<lambda>_. \<lparr>rb_left = None, rb_right = None, rb_parent = None, rb_color = rbtRed,
          rb_data = ([], opHalt, 0)\<rparr>)\<rparr>, 0))"

text \<open>The inner \<open>None\<close> is the answer \<open>opcCOUNT\<close>.\<close>

definition VM_get_opcode_for_instr :: "u8 list \<Rightarrow> u32 \<Rightarrow> OpCodeInfo option option" where
  "VM_get_opcode_for_instr instr len =
     Option.bind VM_initCodeNamePairs (\<lambda>t.
     Option.bind (RbTree_find (\<lambda>a b. VmOpCodeNamePairList_cmp a len b) (instr, opHalt, 0) t) (\<lambda>it.
       Some (map_option (\<lambda>a. snd (rb_data (rb_node t a))) it)))"

section \<open>Printing\<close>

definition vmInstructionNamesTbl :: "6 word \<Rightarrow> u8 list" where
  "vmInstructionNamesTbl n = bytes_of (fst (snd (vmOpCodes ! unat n)))"

text \<open>A register field above 9 indexes past the end of the table of names.\<close>

definition register_name :: "4 word \<Rightarrow> u8 list option" where
  "register_name n = (if unat n < length vmRegisterNameTbl then Some (vmRegisterNameTbl ! unat n) else None)"

definition bracketed :: "bool \<Rightarrow> u8 list \<Rightarrow> u8 list" where
  "bracketed mem s = (if mem then bytes_of ''['' @ s @ bytes_of '']'' else s)"

definition VM_code_print_instruction :: "Instruction \<Rightarrow> u8 list option" where
  "VM_code_print_instruction instr =
     (if osz instr = 0 then Some (bytes_of ''...null...'' @ [0x0A])
      else if unat (opc instr) \<ge> opcCOUNT then
        Some (bytes_of ''not-sup.'' @ dec_nat (unat (opc instr)) @ [0x0A])
      else
        let name = vmInstructionNamesTbl (opc instr) @ vmModeNamesTbl (imd instr) in
        if osz instr = 1 then Some name
        else if osz instr = 2 then
          if rmd instr = amReg then
            map_option (\<lambda>r. name @ bytes_of '' '' @ bracketed (iam instr) r) (register_name (ra instr))
          else Some (name @ bytes_of '' '' @ bracketed (iam instr) (dec_int (sint (iu instr))))
        else
          Option.bind (register_name (ra instr)) (\<lambda>a.
            let left = name @ bytes_of '' '' @ bracketed (iam instr) a @ bytes_of '' '' in
            if rmd instr = amReg then
              Option.bind (register_name (rb instr)) (\<lambda>b. Some (left @ bracketed (ibm instr)
                (b @ (if iea instr then bytes_of '', '' @ dec_int (sint (iu instr)) else []))))
            else Some (left @ bracketed (ibm instr) (dec_int (sint (iu instr))))))"

text \<open>
  The loop of \<open>VM_code_disassemble_\<close>, with fuel; the offset, when it is shown, is printed as a signed number
  of eight digits.
\<close>

definition pad8 :: "int \<Rightarrow> u8 list" where
  "pad8 k =
     (let s = dec_nat (nat \<bar>k\<bar>) in
      if k < 0 then of_char CHR ''-'' # replicate (7 - length s) (of_char CHR ''0'') @ s
      else replicate (8 - length s) (of_char CHR ''0'') @ s)"

fun disassemble_loop :: "nat \<Rightarrow> Code \<Rightarrow> bool \<Rightarrow> u32 \<Rightarrow> u8 list \<Rightarrow> u8 list option" where
  "disassemble_loop 0 code showAddr pos fp = None"
| "disassemble_loop (Suc n) code showAddr pos fp =
     (if unat pos < length code then
        let fp = (if showAddr then fp @ pad8 (sint pos) @ bytes_of '': '' else fp) in
        Option.bind (VM_code_instruction_at code instr0 pos) (\<lambda>(instr, size).
        Option.bind (VM_code_print_instruction instr) (\<lambda>line.
          disassemble_loop n code showAddr (if size = 0 then pos + size + 1 else pos + size) (fp @ line @ [0x0A])))
      else Some fp)"

definition VM_code_disassemble :: "nat \<Rightarrow> Code \<Rightarrow> bool \<Rightarrow> u8 list option" where
  "VM_code_disassemble n code showAddr =
     (case header_db code of Inl _ \<Rightarrow> None | Inr db \<Rightarrow> disassemble_loop n code showAddr db [])"

section \<open>Identifiers\<close>

text \<open>
  A cached identifier is the node that holds its copy; the pointer \<open>name\<close> of an \<open>Ident\<close> is what the
  node stores. \<open>Ident_foa\<close> returns the node and its text; \<open>node\<close> is where a new one is created.
\<close>

definition IdentCache_init :: "u8 list RbTreeBase \<Rightarrow> u8 list RbTreeBase option" where
  "IdentCache_init junk =
     (let add = \<lambda>s node. RbTree_add (\<lambda>s1 s2. RbTree_cmp_string s1 0 s2) (bytes_of s) node in
      Option.bind (add ''i'' 0 (junk\<lparr>rb_root := None\<rparr>)) (\<lambda>t. Option.bind (add ''j'' 1 t) (add ''k'' 2)))"

definition Ident_foa :: "u8 list \<Rightarrow> u32 \<Rightarrow> nat \<Rightarrow> u8 list RbTreeBase \<Rightarrow> (nat \<times> u8 list \<times> u8 list RbTreeBase) option" where
  "Ident_foa str len node cache =
     Option.bind (RbTree_find_or_add_ref (\<lambda>s1 s2. RbTree_cmp_string s1 len s2) str (Some node) cache) (\<lambda>(f, p, cache).
       let cache = (if f then upd_node p (\<lambda>n. n\<lparr>rb_data := take (unat len) str\<rparr>) cache else cache)
       in Some (p, rb_data (rb_node cache p), cache))"

text \<open>A generated name: a prefix with the value of a counter that is then increased.\<close>

definition Ident_genVariable ::
  "u8 list \<Rightarrow> u32 \<Rightarrow> nat \<Rightarrow> u8 list RbTreeBase \<Rightarrow> (u32 \<times> nat \<times> u8 list \<times> u8 list RbTreeBase) option" where
  "Ident_genVariable pre counts node cache =
     (let str = pre @ dec_nat (unat counts) in
      map_option (\<lambda>r. (counts + 1, r)) (Ident_foa str (of_nat (length str)) node cache))"


section \<open>Lookups\<close>

lemma list2: "2 \<le> length s \<Longrightarrow> \<exists>a b r. s = a # b # r"
  by (metis Suc_le_length_iff numeral_2_eq_2)

lemma list3: "3 \<le> length s \<Longrightarrow> \<exists>a b c r. s = a # b # c # r"
  by (metis Suc_le_length_iff numeral_3_eq_3)

text \<open>What follows the name does not matter.\<close>

lemma of_nat_Suc_neq:
  assumes "Suc n < 2 ^ 32"
  shows "(of_nat (Suc n) :: u32) \<noteq> 0"
proof -
  have "unat (of_nat (Suc n) :: u32) = Suc n" by (rule of_nat_inverse [OF refl]) (use assms in simp)
  then show ?thesis by (metis unat_0 nat.distinct(1))
qed

lemma strncmp_take: "length s < 2 ^ 32 \<Longrightarrow>
    RbTree_strncmp (s @ r) (of_nat (length s)) u = RbTree_strncmp s (of_nat (length s)) u"
proof (induction s arbitrary: u)
  case Nil
  then show ?case by (cases u; cases r) simp_all
next
  case (Cons c s)
  then show ?case using of_nat_Suc_neq [of "length s"] by (cases u) (simp_all del: of_nat_Suc, simp)
qed

lemma strncasecmp_Cons:
  assumes "Suc (length s) < 2 ^ 32"
  shows "RbTree_strncasecmp (c1 # s @ r) (of_nat (Suc (length s))) s2 =
    (case s2 of [] \<Rightarrow> 1
     | c2 # s2 \<Rightarrow> if Cyn_TreeOps.toupper c1 \<noteq> Cyn_TreeOps.toupper c2 then Cyn_TreeOps.toupper c1 - Cyn_TreeOps.toupper c2
         else RbTree_strncasecmp (s @ r) (of_nat (length s)) s2)"
  using of_nat_Suc_neq [OF assms] by (cases s2) (auto simp del: of_nat_Suc, simp_all)

lemma strncasecmp_0: "length s < 2 ^ 32 \<Longrightarrow>
    RbTree_strncasecmp (s @ r) (of_nat (length s)) u = 0 \<longleftrightarrow> map Cyn_TreeOps.toupper s = map Cyn_TreeOps.toupper u"
proof (induction s arbitrary: u)
  case Nil
  then show ?case by (cases u; cases r) simp_all
next
  case (Cons c s)
  have "Suc (length s) < 2 ^ 32" using Cons.prems by simp
  note strncasecmp_Cons [OF this]
  with Cons show ?case by (cases u) (simp_all del: of_nat_Suc RbTree_strncasecmp.simps)
qed

definition letter :: "u8 \<Rightarrow> bool" where
  "letter c \<longleftrightarrow> 0x41 \<le> c \<and> c \<le> 0x5A \<or> 0x61 \<le> c \<and> c \<le> 0x7A"

lemma toupper_letter: "letter c \<Longrightarrow> Cyn_TreeOps.toupper c + 32 = uint (tolower c)"
proof -
  have small: "uint (x - 0x20) = uint x - 32" "uint (x - 0x20) < 128" if "0x61 \<le> x" "x \<le> 0x7A" for x :: u8
    using that by (simp_all add: word_le_def uint_word_ariths)
  have big: "uint (x + 0x20) = uint x + 32" "uint x < 128" if "0x41 \<le> x" "x \<le> 0x5A" for x :: u8
    using that by (simp_all add: word_le_def uint_word_ariths)
  assume "letter c"
  then consider "0x41 \<le> c" "c \<le> 0x5A" | "0x61 \<le> c" "c \<le> 0x7A" by (auto simp: letter_def)
  then show ?thesis
  proof cases
    case 1
    then have "\<not> 0x61 \<le> c" "c < 0x80" by (simp_all add: word_le_def word_less_def)
    with 1 show ?thesis using big [OF 1] by (simp add: Cyn_TreeOps.toupper_def tolower_def sint_ascii)
  next
    case 2
    then have "\<not> c \<le> 0x5A" "c - 0x20 < 0x80" using small [OF 2] by (simp_all add: word_le_def word_less_def)
    with 2 show ?thesis using small [OF 2] by (simp add: Cyn_TreeOps.toupper_def tolower_def sint_ascii)
  qed
qed

lemma strncasecmp_sgn: "length s < 2 ^ 32 \<Longrightarrow> \<forall>c \<in> set s \<union> set u. letter c \<Longrightarrow>
    sgn (RbTree_strncasecmp (s @ r) (of_nat (length s)) u) = sgn (strcasecmp s u)"
proof (induction s arbitrary: u)
  case Nil
  then show ?case by (cases u; cases r) (simp_all add: strcasecmp_def)
next
  case (Cons c s)
  have "Suc (length s) < 2 ^ 32" using Cons.prems by simp
  note step = strncasecmp_Cons [OF this]
  show ?case
  proof (cases u)
    case Nil
    then show ?thesis using step by (simp add: strcasecmp_def del: of_nat_Suc RbTree_strncasecmp.simps)
  next
    case u: (Cons d u')
    have "Cyn_TreeOps.toupper c - Cyn_TreeOps.toupper d = uint (tolower c) - uint (tolower d)"
      using toupper_letter [of c] toupper_letter [of d] Cons.prems(2) u by simp
    moreover have "tolower c = tolower d \<longleftrightarrow> Cyn_TreeOps.toupper c = Cyn_TreeOps.toupper d"
      using calculation by (auto intro: word_uint_eqI)
    ultimately show ?thesis using Cons u
      by (auto simp: step strcasecmp_def simp del: of_nat_Suc RbTree_strncasecmp.simps)
  qed
qed


section \<open>The tree of mnemonics\<close>

lemma find_loop_hit:
  "Cyn_Tree.shape (rb_node t) par x p \<Longrightarrow>
    \<exists>r. find_loop cmp v t p = Some r \<and> (\<forall>a. r = Some a \<longrightarrow> a \<in> set (addrs x) \<and> cmp v (val t a) = 0)"
proof (induction x arbitrary: par p)
  case Lf
  then show ?case by (subst find_loop.simps) simp
next
  case (Nd l a c r)
  have p: "p = Some a" using Nd.prems by simp
  obtain r1 where r1: "find_loop cmp v t (left_of t a) = Some r1" "\<forall>b. r1 = Some b \<longrightarrow> b \<in> set (addrs l) \<and> cmp v (val t b) = 0"
    using Nd.IH(1) Nd.prems by fastforce
  obtain r2 where r2: "find_loop cmp v t (right_of t a) = Some r2" "\<forall>b. r2 = Some b \<longrightarrow> b \<in> set (addrs r) \<and> cmp v (val t b) = 0"
    using Nd.IH(2) Nd.prems by fastforce
  show ?case using p r1 r2 by (subst find_loop.simps) (auto simp: Let_def)
qed

text \<open>Filling a tree with values at consecutive addresses.\<close>

context comparator
begin

lemma adds_law:
  assumes "tree_nodes t as" "ordered cmp t as" "set as = {..<n}" "\<forall>i < n. val t i = vs ! i" "n \<le> length vs"
  shows "\<exists>t' bs. fold (\<lambda>v (t, node). (Option.bind t (RbTree_add cmp v node), Suc node)) (drop n vs) (Some t, n) =
      (Some t', length vs) \<and>
    tree_nodes t' bs \<and> ordered cmp t' bs \<and> set bs = {..<length vs} \<and> (\<forall>i < length vs. val t' i = vs ! i)"
  using assms
proof (induction "length vs - n" arbitrary: t as n)
  case 0
  then have "n = length vs" by simp
  with 0 show ?case by (intro exI [of _ t] exI [of _ as]) simp
next
  case (Suc k)
  have n: "n < length vs" using Suc.hyps(2) by simp
  then have d: "drop n vs = vs ! n # drop (Suc n) vs" by (simp add: Cons_nth_drop_Suc)
  have "n \<notin> set as" using Suc.prems(3) by (simp only: lessThan_iff less_irrefl not_False_eq_True)
  obtain t' xs ys where t': "RbTree_add cmp (vs ! n) n t = Some t'" "as = xs @ ys" "tree_nodes t' (xs @ n # ys)"
    "ordered cmp t' (xs @ n # ys)" "val t' n = vs ! n" "\<forall>b. b \<noteq> n \<longrightarrow> val t' b = val t b"
    using add_law [OF Suc.prems(1,2) \<open>n \<notin> set as\<close>, of "vs ! n"] by (elim exE conjE) (rule that)
  have "set (xs @ n # ys) = insert n (set as)" using t'(2) by (metis Un_insert_right list.simps(15) set_append)
  then have s: "set (xs @ n # ys) = {..<Suc n}" using Suc.prems(3) lessThan_Suc [of n] by metis
  have "\<forall>i < Suc n. val t' i = vs ! i"
  proof (intro allI impI)
    fix i assume "i < Suc n"
    then consider "i = n" | "i \<noteq> n" "i < n" by linarith
    then show "val t' i = vs ! i" using t'(5,6) Suc.prems(4) by cases metis+
  qed
  from Suc.hyps(1) [OF _ t'(3,4) s this] Suc.hyps(2) n
  have "\<exists>t'' bs. fold (\<lambda>v (t, node). (Option.bind t (RbTree_add cmp v node), Suc node)) (drop (Suc n) vs) (Some t', Suc n) =
      (Some t'', length vs) \<and>
    tree_nodes t'' bs \<and> ordered cmp t'' bs \<and> set bs = {..<length vs} \<and> (\<forall>i < length vs. val t'' i = vs ! i)" by simp
  then show ?case using d t'(1) by simp
qed

end

abbreviation code_order :: "VmOpCodeNamePair \<Rightarrow> VmOpCodeNamePair \<Rightarrow> int" where
  "code_order a b \<equiv> VmOpCodeNamePairList_cmp a 0 b"

lemma code_order_strcmp: "code_order a b = strcmp (map tolower (fst a)) (map tolower (fst b))"
  by (simp add: VmOpCodeNamePairList_cmp_def RbTree_case_cmp_string_def strcasecmp_def)

interpretation name_order: comparator code_order
  by unfold_locales
    (auto simp: code_order_strcmp strcmp_refl intro: strcmp_trans,
      (metis strcmp_swap neg_0_less_iff_less neg_less_0_iff_less)+)

definition op_pairs :: "VmOpCodeNamePair list" where
  "op_pairs = map (\<lambda>(opc, name, sz). (bytes_of name, opc, sz)) vmOpCodes"

lemma op_pairs_letters: "\<forall>(nm, x) \<in> set op_pairs. (\<forall>c \<in> set nm. letter c) \<and> map tolower nm = nm \<and> nm \<noteq> []"
  by code_simp

lemma op_pairs_distinct: "distinct (map fst op_pairs)"
  by code_simp

lemma init_pairs:
  "\<exists>t bs. VM_initCodeNamePairs = Some t \<and> tree_nodes t bs \<and> ordered code_order t bs \<and>
    set bs = {..<length op_pairs} \<and> (\<forall>i < length op_pairs. val t i = op_pairs ! i)"
proof -
  define e :: "VmOpCodeNamePair RbTreeBase" where
    "e = \<lparr>rb_root = None, rb_node = (\<lambda>_. \<lparr>rb_left = None, rb_right = None, rb_parent = None, rb_color = rbtRed,
          rb_data = ([], opHalt, 0)\<rparr>)\<rparr>"
  have "tree_nodes e []"
    unfolding tree_nodes_def represents_tree_def by (rule exI [of _ Lf]) (simp add: e_def)
  moreover have "ordered code_order e []" by (simp add: ordered_def)
  moreover have "fold (\<lambda>(opc, name, sz) (t, node). (Option.bind t (RbTree_add code_order (bytes_of name, opc, sz) node), Suc node))
      xs s = fold (\<lambda>v (t, node). (Option.bind t (RbTree_add code_order v node), Suc node))
      (map (\<lambda>(opc, name, sz). (bytes_of name, opc, sz)) xs) s" for xs s
    by (induction xs arbitrary: s) auto
  ultimately show ?thesis
    using name_order.adds_law [of e "[]" 0 op_pairs]
    by (auto simp: VM_initCodeNamePairs_def e_def op_pairs_def)
qed

lemma toupper_eq:
  assumes "letter d" "tolower d = d"
  shows "Cyn_TreeOps.toupper c = Cyn_TreeOps.toupper d \<longleftrightarrow> tolower c = d"
proof (cases "letter c")
  case True
  then show ?thesis using toupper_letter [OF True] toupper_letter [OF assms(1)] assms(2) by (auto intro: word_uint_eqI)
next
  case False
  have d: "0x61 \<le> d" "d \<le> 0x7A" using assms by (auto simp: letter_def tolower_def split: if_splits)
  have "letter (d - 0x20)" using d by (simp add: letter_def word_le_def uint_word_ariths)
  then have "c \<noteq> d - 0x20" using False by metis
  moreover have "\<not> (0x61 \<le> c \<and> c \<le> 0x7A)" "\<not> (0x41 \<le> c \<and> c \<le> 0x5A)" using False by (auto simp: letter_def)
  ultimately have "Cyn_TreeOps.toupper c = sint c" "sint c \<noteq> sint (d - 0x20)"
    using sint_neq [of c "d - 0x20"] unfolding Cyn_TreeOps.toupper_def by (auto intro: if_not_P)
  moreover have "Cyn_TreeOps.toupper d = sint (d - 0x20)" using d by (simp add: Cyn_TreeOps.toupper_def)
  ultimately have "Cyn_TreeOps.toupper c \<noteq> Cyn_TreeOps.toupper d" by simp
  moreover have "tolower c \<noteq> d" using False assms(1) \<open>\<not> (0x41 \<le> c \<and> c \<le> 0x5A)\<close> by (auto simp: tolower_def)
  ultimately show ?thesis by blast
qed

lemma toupper_map_eq:
  "\<forall>c \<in> set u. letter c \<Longrightarrow> map tolower u = u \<Longrightarrow>
    map Cyn_TreeOps.toupper s = map Cyn_TreeOps.toupper u \<longleftrightarrow> map tolower s = u"
proof (induction s arbitrary: u)
  case (Cons c s)
  then show ?case by (cases u) (auto simp: toupper_eq)
qed auto

lemma find_op_pairs:
  assumes "case it of None \<Rightarrow> \<forall>b \<in> set op_pairs. k \<noteq> fst b | Some b \<Rightarrow> b \<in> set op_pairs \<and> k = fst b"
  shows "map_option snd it =
    map_option (\<lambda>(opc, name, sz). (opc, sz)) (List.find (\<lambda>(opc, name, sz). bytes_of name = k) vmOpCodes)"
proof (cases "List.find (\<lambda>(opc, name, sz). bytes_of name = k) vmOpCodes")
  case None
  then have "\<forall>(opc, name, sz) \<in> set vmOpCodes. bytes_of name \<noteq> k" by (auto simp: find_None_iff)
  then have "\<forall>b \<in> set op_pairs. k \<noteq> fst b" by (auto simp: op_pairs_def)
  with assms None show ?thesis by (auto split: option.splits)
next
  case (Some y)
  obtain opc name sz where y: "y = (opc, name, sz)" by (cases y)
  have "y \<in> set vmOpCodes" "bytes_of name = k" using Some y by (auto simp: find_Some_iff dest: nth_mem)
  then have b: "(k, opc, sz) \<in> set op_pairs" using y by (force simp: op_pairs_def)
  with assms obtain b where "it = Some b" "b \<in> set op_pairs" "k = fst b" by (fastforce split: option.splits)
  with b op_pairs_distinct have "it = Some (k, opc, sz)" by (metis eq_key_imp_eq_value prod.collapse)
  with Some y show ?thesis by simp
qed

text \<open>
  C19. A mnemonic is found whatever the case of its letters and whatever follows it, with
  its op code and its number of arguments; every other name is answered with \<open>opcCOUNT\<close>.
\<close>

theorem mnemonics_found:
  assumes "s \<noteq> []" and "length s < 2 ^ 32"
  shows "VM_get_opcode_for_instr (s @ r) (of_nat (length s)) =
    Some (map_option (\<lambda>(opc, name, sz). (opc, sz)) (List.find (\<lambda>(opc, name, sz). bytes_of name = map tolower s) vmOpCodes))"
proof -
  let ?cmp = "\<lambda>a b. VmOpCodeNamePairList_cmp a (of_nat (length s)) b"
  let ?k = "(s @ r, opHalt, 0)"
  obtain t bs where t: "VM_initCodeNamePairs = Some t" "tree_nodes t bs" "ordered code_order t bs"
    "set bs = {..<length op_pairs}" "\<forall>i < length op_pairs. val t i = op_pairs ! i"
    using init_pairs by blast
  obtain x where x: "represents_tree t x" "addrs x = bs" using t(2) by (auto simp: tree_nodes_def)
  then have sh: "Cyn_Tree.shape (rb_node t) None x (rb_root t)" by (simp add: represents_tree_def)
  have vals: "val t a \<in> set op_pairs" if "a \<in> set bs" for a using that t(4,5) by auto
  have pos: "(of_nat (length s) :: u32) \<noteq> 0"
    using of_nat_Suc_neq [of "length s - 1"] assms by (cases s) simp_all
  have cmp: "?cmp ?k b = RbTree_strncasecmp (s @ r) (of_nat (length s)) (fst b)" for b
    using pos by (simp add: VmOpCodeNamePairList_cmp_def RbTree_case_cmp_string_def)
  have low: "\<forall>c \<in> set (fst b). letter c" "map tolower (fst b) = fst b" if "b \<in> set op_pairs" for b
    using op_pairs_letters that by (cases b; fastforce)+
  have hit: "?cmp ?k b = 0 \<longleftrightarrow> map tolower s = fst b" if "b \<in> set op_pairs" for b
    unfolding cmp strncasecmp_0 [OF assms(2)] by (rule toupper_map_eq [OF low [OF that]])
  have "\<exists>it. RbTree_find ?cmp ?k t = Some it \<and> (case it of
      None \<Rightarrow> \<forall>b \<in> set op_pairs. map tolower s \<noteq> fst b
    | Some a \<Rightarrow> val t a \<in> set op_pairs \<and> map tolower s = fst (val t a))"
  proof (cases "\<forall>c \<in> set s. letter c")
    case True
    have "sgn (?cmp ?k b) = sgn (code_order (s, opHalt, 0) b)" if "b \<in> set op_pairs" for b
      using strncasecmp_sgn [OF assms(2)] True low [OF that]
      by (simp add: cmp code_order_strcmp) (metis (no_types, lifting) UnE strcasecmp_def low(2) that)
    then have "RbTree_find ?cmp ?k t = RbTree_find code_order (s, opHalt, 0) t"
      unfolding RbTree_find_def using vals x(2) by (intro find_loop_sgn [OF sh]) auto
    with name_order.find_law [OF t(2,3), of "(s, opHalt, 0)"] obtain it where it: "RbTree_find ?cmp ?k t = Some it"
      "case it of None \<Rightarrow> \<forall>a \<in> set bs. code_order (s, opHalt, 0) (val t a) \<noteq> 0
       | Some a \<Rightarrow> a \<in> set bs \<and> code_order (s, opHalt, 0) (val t a) = 0" by auto
    have c: "case it of None \<Rightarrow> \<forall>a \<in> set bs. map tolower s \<noteq> map tolower (fst (val t a))
       | Some a \<Rightarrow> a \<in> set bs \<and> map tolower s = map tolower (fst (val t a))"
      using it(2) by (simp add: code_order_strcmp strcmp_eq_0 split: option.splits)
    have o: "\<exists>a \<in> set bs. val t a = b" if "b \<in> set op_pairs" for b
      using that t(4,5) by (metis in_set_conv_nth lessThan_iff)
    show ?thesis
    proof (cases it)
      case None
      have "map tolower s \<noteq> fst b" if "b \<in> set op_pairs" for b
        using o [OF that] c None low(2) [OF that] by auto
      with it(1) None show ?thesis by simp
    next
      case (Some a)
      with c it(1) vals [of a] low(2) [of "val t a"] show ?thesis by simp
    qed
  next
    case False
    have "map tolower s \<noteq> fst b" if "b \<in> set op_pairs" for b
    proof
      assume eq: "map tolower s = fst b"
      obtain c where c: "c \<in> set s" "\<not> letter c" using False by blast
      then have "tolower c = c" by (auto simp: letter_def tolower_def)
      then have "c \<in> set (fst b)" using c(1) eq by (metis image_eqI set_map)
      with low(1) [OF that] c(2) show False by blast
    qed
    moreover obtain it where "RbTree_find ?cmp ?k t = Some it" "\<forall>a. it = Some a \<longrightarrow> a \<in> set bs \<and> ?cmp ?k (val t a) = 0"
      using find_loop_hit [OF sh, of ?cmp ?k] x(2) by (auto simp: RbTree_find_def)
    ultimately show ?thesis
    proof (cases it)
      case (Some a)
      with vals [of a] hit [of "val t a"] \<open>\<forall>a. it = Some a \<longrightarrow> _ a\<close> \<open>RbTree_find ?cmp ?k t = Some it\<close>
      show ?thesis by simp
    qed simp
  qed
  then obtain it where it: "RbTree_find ?cmp ?k t = Some it" "case it of
      None \<Rightarrow> \<forall>b \<in> set op_pairs. map tolower s \<noteq> fst b
    | Some a \<Rightarrow> val t a \<in> set op_pairs \<and> map tolower s = fst (val t a)" by blast
  have "map_option snd (map_option (val t) it) =
      map_option (\<lambda>(opc, name, sz). (opc, sz)) (List.find (\<lambda>(opc, name, sz). bytes_of name = map tolower s) vmOpCodes)"
    by (rule find_op_pairs) (use it(2) in \<open>simp split: option.splits\<close>)
  then show ?thesis
    by (simp only: VM_get_opcode_for_instr_def t(1) it(1) Option.bind.simps option.map_comp comp_def)
qed

theorem mnemonics_found_witness: "VM_get_opcode_for_instr (bytes_of ''MoV r1 r2'') 3 = Some (Some (opMov, 2))"
proof -
  have "VM_get_opcode_for_instr (bytes_of ''MoV'' @ bytes_of '' r1 r2'') (of_nat (length (bytes_of ''MoV''))) =
      Some (map_option (\<lambda>(opc, name, sz). (opc, sz))
        (List.find (\<lambda>(opc, name, sz). bytes_of name = map tolower (bytes_of ''MoV'')) vmOpCodes))"
    by (rule mnemonics_found) (simp_all add: bytes_of_def)
  moreover have "List.find (\<lambda>(opc, name, sz). bytes_of name = map tolower (bytes_of ''MoV'')) vmOpCodes =
      Some (opMov, ''mov'', 2)" by code_simp
  moreover have "bytes_of ''MoV'' @ bytes_of '' r1 r2'' = bytes_of ''MoV r1 r2''" "length (bytes_of ''MoV'') = 3"
    by (simp_all add: bytes_of_def)
  ultimately show ?thesis by simp
qed

section \<open>Register names\<close>

lemma digit_0_5: "0x30 \<le> c \<Longrightarrow> c \<le> (0x35 :: u8) \<Longrightarrow> c \<in> {0x30, 0x31, 0x32, 0x33, 0x34, 0x35}"
proof -
  assume "0x30 \<le> c" "c \<le> (0x35 :: u8)"
  then have "unat c \<in> {48, 49, 50, 51, 52, 53}" by (simp add: word_le_nat_alt) arith
  moreover have "c = of_nat (unat c)" by simp
  ultimately show ?thesis by (elim insertE; simp)
qed

lemma unat_len: "n < 2 ^ 32 \<Longrightarrow> unat (of_nat n :: u32) = n"
  by (rule of_nat_inverse [OF refl]) simp

text \<open>A name of the table is a register; nothing else is.\<close>

lemma register_names:
  assumes "n \<le> length str" "n < 2 ^ 32"
  shows "Vm_get_register_from_str str (of_nat n) = Some r \<longleftrightarrow> take n str = vmRegisterNameTbl ! unat (reg_code r)"
proof -
  have u: "(of_nat n :: u32) < 2 \<longleftrightarrow> n < 2" "3 < (of_nat n :: u32) \<longleftrightarrow> 3 < n"
    "(of_nat n :: u32) = 2 \<longleftrightarrow> n = 2" "(of_nat n :: u32) = 3 \<longleftrightarrow> n = 3"
    using unat_len [OF assms(2)] by (simp_all add: word_less_nat_alt word_unat_eq_iff)
  consider "n < 2" | "n = 2" | "n = 3" | "3 < n" by linarith
  then show ?thesis
  proof cases
    case 2
    with assms(1) list2 [of str] obtain a b s where s: "str = a # b # s" by auto
    note d = Vm_get_register_from_str_def u vmRegisterNameTbl_def bytes_of_def Let_def 2 s
    consider "a = 0x72" "b \<in> {0x30, 0x31, 0x32, 0x33, 0x34, 0x35}" | "a = 0x72" "b < 0x30 \<or> 0x35 < b" | "a \<noteq> 0x72"
      using digit_0_5 [of b] by fastforce
    then show ?thesis
    proof cases
      case 1
      from 1(2) show ?thesis by (elim insertE emptyE; cases r; simp add: d 1(1) Register_of_def)
    next
      case 2
      then show ?thesis by (cases r; elim disjE; simp add: d) (auto simp: d)
    next
      case 3
      then show ?thesis by (cases r; simp add: d)
    qed
  next
    case 3
    with assms(1) list3 [of str] obtain a b c s where s: "str = a # b # c # s" by auto
    with 3 show ?thesis
      by (cases r) (auto simp: Vm_get_register_from_str_def u vmRegisterNameTbl_def bytes_of_def Let_def)
  qed (use assms in \<open>cases r; auto simp: Vm_get_register_from_str_def u vmRegisterNameTbl_def bytes_of_def dest!: arg_cong [of _ _ length]\<close>)+
qed

section \<open>The cache of identifiers\<close>

lemma find_or_add_scan_sgn:
  assumes "zipper t ks x par f" "\<forall>a \<in> set (addrs x). sgn (cmp v (val t a)) = sgn (cmp' v' (val t a))"
  shows "find_or_add_scan cmp v t par (link_of ks) = find_or_add_scan cmp' v' t par (link_of ks)"
  using assms
proof (induction x arbitrary: ks par f)
  case Lf
  with get_link_of [OF Lf(1)] zipper_Lf [OF Lf(1)] show ?case by (subst (1 2) find_or_add_scan.simps) simp
next
  case (Nd l a c r)
  note down = zipper_down [OF Nd.prems(1)]
  have g: "get_link t (link_of ks) = Some a" using get_link_of [OF Nd.prems(1)] down(1) by simp
  have IH: "find_or_add_scan cmp v t (Some a) (LeftOf a) = find_or_add_scan cmp' v' t (Some a) (LeftOf a)"
    "find_or_add_scan cmp v t (Some a) (RightOf a) = find_or_add_scan cmp' v' t (Some a) (RightOf a)"
    using Nd.IH(1) [OF down(2)] Nd.IH(2) [OF down(3)] Nd.prems(2) by auto
  have "sgn (cmp v (val t a)) = sgn (cmp' v' (val t a))" using Nd.prems(2) by simp
  then have "cmp v (val t a) < 0 \<longleftrightarrow> cmp' v' (val t a) < 0" "0 < cmp v (val t a) \<longleftrightarrow> 0 < cmp' v' (val t a)"
    by (auto simp: sgn_if split: if_splits)
  with g IH show ?case by (subst (1 2) find_or_add_scan.simps) (simp add: Let_def)
qed

abbreviation str_order :: "u8 list \<Rightarrow> u8 list \<Rightarrow> int" where
  "str_order s1 s2 \<equiv> RbTree_cmp_string s1 0 s2"

definition ascii :: "u8 list \<Rightarrow> bool" where
  "ascii s \<longleftrightarrow> (\<forall>c \<in> set s. c < 0x80)"

text \<open>Every name is stored once.\<close>

definition cache_ok :: "u8 list RbTreeBase \<Rightarrow> nat list \<Rightarrow> bool" where
  "cache_ok t as \<longleftrightarrow> tree_nodes t as \<and> ordered str_order t as \<and> (\<forall>a \<in> set as. ascii (val t a)) \<and> inj_on (val t) (set as)"

lemma Ident_foa_find_or_add:
  assumes "cache_ok t as" "s \<noteq> []" "ascii s" "length s < 2 ^ 32" "node \<notin> set as"
  shows "Ident_foa (s @ r) (of_nat (length s)) node t =
    Option.bind (RbTree_find_or_add str_order s node t) (\<lambda>(f, p, t). Some (p, val t p, t))"
proof -
  obtain x where x: "represents_tree t x" "addrs x = as" using assms(1) by (auto simp: tree_nodes_def cache_ok_def)
  have pos: "(of_nat (length s) :: u32) \<noteq> 0"
    using of_nat_Suc_neq [of "length s - 1"] assms(2,4) by (cases s) simp_all
  have "sgn (RbTree_cmp_string (s @ r) (of_nat (length s)) (val t a)) = sgn (str_order s (val t a))" if "a \<in> set as" for a
  proof -
    have "\<forall>c \<in> set s \<union> set (val t a). c < 0x80" using assms(1,3) that by (auto simp: cache_ok_def ascii_def)
    from strncmp_strcmp [OF assms(4) this] strncmp_take [OF assms(4)] pos show ?thesis by (simp add: RbTree_cmp_string_def)
  qed
  then have "find_or_add_scan (\<lambda>a b. RbTree_cmp_string a (of_nat (length s)) b) (s @ r) t None (link_of []) =
      find_or_add_scan str_order s t None (link_of [])"
    using x(2) by (intro find_or_add_scan_sgn [OF represents_zipper [OF x(1)]]) simp
  then have "RbTree_find_or_add_ref (\<lambda>a b. RbTree_cmp_string a (of_nat (length s)) b) (s @ r) (Some node) t =
      RbTree_find_or_add_ref str_order s (Some node) t"
    by (simp add: RbTree_find_or_add_ref_def)
  then show ?thesis
    by (auto simp: Ident_foa_def RbTree_find_or_add_def unat_len [OF assms(4)] split: option.splits prod.splits intro!: Option.bind_cong)
qed

text \<open>
  C40. The cache of identifiers holds every name once: asked for a name, whatever text
  follows it in the source, it answers with a node that has this name, which is an old node
  exactly if that has the same name. So two identifiers are the same pointer exactly if they are the
  same name, as \<open>Ident_equals\<close> assumes.
\<close>

theorem Ident_foa_interns:
  assumes "cache_ok t as" and "s \<noteq> []" and "ascii s" and "length s < 2 ^ 32" and "node \<notin> set as"
  shows "\<exists>p t' as'. Ident_foa (s @ r) (of_nat (length s)) node t = Some (p, s, t') \<and> cache_ok t' as' \<and>
    p \<in> set as' \<and> rb_data (rb_node t' p) = s \<and> (\<forall>a \<in> set as. p = a \<longleftrightarrow> rb_data (rb_node t a) = s) \<and>
    set as \<subseteq> set as' \<and> (\<forall>a \<in> set as. rb_data (rb_node t' a) = rb_data (rb_node t a))"
proof -
  have ok: "tree_nodes t as" "ordered str_order t as" "\<forall>a \<in> set as. ascii (val t a)" "inj_on (val t) (set as)"
    using assms(1) by (simp_all add: cache_ok_def)
  note foa = Ident_foa_find_or_add [OF assms]
  consider (old) p where "p \<in> set as" "RbTree_find_or_add str_order s node t = Some (False, p, t)" "val t p = s"
    | (new) t' xs ys where "RbTree_find_or_add str_order s node t = Some (True, node, t')" "as = xs @ ys"
      "tree_nodes t' (xs @ node # ys)" "ordered str_order t' (xs @ node # ys)" "val t' node = s"
      "\<forall>b. b \<noteq> node \<longrightarrow> val t' b = val t b" "\<forall>a \<in> set as. val t a \<noteq> s"
  proof -
    have eq: "str_order s u = 0 \<longleftrightarrow> u = s" for u by (auto simp: RbTree_cmp_string_def strcmp_eq_0)
    show ?thesis
      using string_order.find_or_add_law [OF ok(1,2) assms(5), of s] that unfolding eq by metis
  qed
  then show ?thesis
  proof cases
    case old
    then show ?thesis using foa assms(1) ok(4)
      by (intro exI [of _ p] exI [of _ t] exI [of _ as]) (auto simp: inj_on_def)
  next
    case new
    have vals: "\<forall>a \<in> set as. val t' a = val t a" using new(6) assms(5) by metis
    have "inj_on (val t') (set (xs @ node # ys))"
      using ok(4) new(2,5,7) vals assms(5) by (auto simp: inj_on_def)
    moreover have "\<forall>a \<in> set (xs @ node # ys). ascii (val t' a)" using ok(3) new(2,5) vals assms(3) by auto
    ultimately have "cache_ok t' (xs @ node # ys)" using new(3,4) by (simp add: cache_ok_def)
    then show ?thesis using foa new(1,2,5,7) vals assms(5)
      by (intro exI [of _ node] exI [of _ t'] exI [of _ "xs @ node # ys"]) auto
  qed
qed

lemma string_cache_ok: "cache_ok string_tree [0, 1]"
  using string_tree_nodes by (simp add: cache_ok_def ascii_def inj_on_def)

theorem Ident_foa_interns_witness:
  "\<exists>t'. Ident_foa (bytes_of ''ab: x'') 2 2 string_tree = Some (1, bytes_of ''ab'', t')"
proof -
  have b: "bytes_of ''ab'' @ bytes_of '': x'' = bytes_of ''ab: x''" "of_nat (length (bytes_of ''ab'')) = (2 :: u32)"
    "bytes_of ''ab'' = [0x61, 0x62]"
    by (simp_all add: bytes_of_def)
  have "\<exists>p t' as'. Ident_foa (bytes_of ''ab'' @ bytes_of '': x'') (of_nat (length (bytes_of ''ab''))) 2 string_tree =
      Some (p, bytes_of ''ab'', t') \<and> cache_ok t' as' \<and> p \<in> set as' \<and> rb_data (rb_node t' p) = bytes_of ''ab'' \<and>
      (\<forall>a \<in> set [0, 1]. p = a \<longleftrightarrow> rb_data (rb_node string_tree a) = bytes_of ''ab'') \<and>
      set [0, 1] \<subseteq> set as' \<and> (\<forall>a \<in> set [0, 1]. rb_data (rb_node t' a) = rb_data (rb_node string_tree a))"
    by (rule Ident_foa_interns [OF string_cache_ok]) (simp_all add: bytes_of_def ascii_def)
  then show ?thesis unfolding b(1,2) using string_tree_nodes(3,4) b(3) by auto
qed

end
