(* ===== verification/Cyn_Lexer.thy ===== *)
theory Cyn_Lexer
  imports Cyn_Token
begin

unbundle bit_operations_syntax

text \<open>
  The lexer of the compiler (\<^verbatim>\<open>src/compiler/common/lexer.c\<close>). The state is the record of
  \<^verbatim>\<open>include/compiler/common/lexer.h\<close> together with the map of keywords, the collected diagnostics and
  \<open>errno\<close>, which the number parsers test and never reset. Each function of the source is a function
  on this state. \<open>Inl\<close> is a stop: a fatal error, a failed assertion or a write behind the conversion
  buffer. \<open>None\<close> is a loop that does not end. Positions in the source are natural numbers, the
  length of a source being a C \<open>int\<close>.
\<close>

section \<open>Characters\<close>

text \<open>The classes of \<^verbatim>\<open>ctype.h\<close> in the C locale. \<open>EOF\<close> is -1 and as a \<open>char\<close> the byte \<open>0xFF\<close>.\<close>

definition EOF :: u8 where "EOF = 0xFF"

abbreviation ch :: "char \<Rightarrow> u8" where "ch c \<equiv> of_char c"

definition isspace :: "u8 \<Rightarrow> bool" where "isspace c \<longleftrightarrow> c = 0x20 \<or> 0x09 \<le> c \<and> c \<le> 0x0D"
definition isdigit :: "u8 \<Rightarrow> bool" where "isdigit c \<longleftrightarrow> 0x30 \<le> c \<and> c \<le> 0x39"
definition isupper :: "u8 \<Rightarrow> bool" where "isupper c \<longleftrightarrow> 0x41 \<le> c \<and> c \<le> 0x5A"
definition islower :: "u8 \<Rightarrow> bool" where "islower c \<longleftrightarrow> 0x61 \<le> c \<and> c \<le> 0x7A"
definition isalnum :: "u8 \<Rightarrow> bool" where "isalnum c \<longleftrightarrow> isdigit c \<or> isupper c \<or> islower c"
definition toupper :: "u8 \<Rightarrow> u8" where "toupper c = (if islower c then c - 0x20 else c)"
definition isoct :: "u8 \<Rightarrow> bool" where "isoct c \<longleftrightarrow> 0x30 \<le> c \<and> c \<le> 0x37"

text \<open>The value of a hexadecimal digit; \<open>isxdigit\<close> tells whether there is one.\<close>

definition hex_value :: "u8 \<Rightarrow> u32 option" where
  "hex_value c =
     (if isdigit c then Some (ucast (c - 0x30))
      else if 0x61 \<le> c \<and> c \<le> 0x66 then Some (ucast (c - 0x61 + 10))
      else if 0x41 \<le> c \<and> c \<le> 0x46 then Some (ucast (c - 0x41 + 10))
      else None)"

definition isxdigit :: "u8 \<Rightarrow> bool" where "isxdigit c \<longleftrightarrow> hex_value c \<noteq> None"

definition isucn :: "u32 \<Rightarrow> bool" where
  "isucn c =
     (if 0xD800 \<le> c \<and> c \<le> 0xDFFF then False
      else 0xA0 \<le> c \<or> c = ucast (ch CHR ''$'') \<or> c = ucast (ch CHR ''@'') \<or> c = ucast (ch CHR 0x60))"

text \<open>
  \<open>strtoull\<close> on a text of digits: the value, the unread rest, and whether the value is out of range.
\<close>

definition digit_value :: "u8 \<Rightarrow> nat" where
  "digit_value c =
     (if isdigit c then unat c - 0x30 else if islower c then unat c - 0x57
      else if isupper c then unat c - 0x37 else 36)"

definition strtoull :: "nat \<Rightarrow> u8 list \<Rightarrow> u64 \<times> u8 list \<times> bool" where
  "strtoull base s =
     (let ds = takeWhile (\<lambda>c. digit_value c < base) s;
          v = foldl (\<lambda>n c. base * n + digit_value c) 0 ds
      in (if v < 2 ^ 64 then of_nat v else - 1, dropWhile (\<lambda>c. digit_value c < base) s, v \<ge> 2 ^ 64))"

section \<open>State\<close>

datatype LogKind = logError | logWarning

text \<open>A diagnostic keeps the format of its message, without the arguments.\<close>

record Diagnostic =
  d_kind :: LogKind
  d_range :: Range
  d_message :: string

datatype lex_stop = LexAbort | LexAssert | LexOverflow

record Lexer =
  lx_source :: nat
  lx_text :: "u8 list"
  lx_next :: Token
  lx_idx :: nat
  lx_pos :: LineColumn
  lx_in_str :: bool
  lx_keywords :: "TokenKind Map_Base"
  lx_log :: "Diagnostic list"
  lx_erange :: bool

text \<open>
  What the lexer takes from outside: \<open>strtod\<close> of the C library (bits of the double, unread rest, range
  error) and the value that \<open>Stream_putUtf8\<close>, which has no return statement, seems to return.
\<close>

record LexEnv =
  env_strtod :: "u8 list \<Rightarrow> u64 \<times> u8 list \<times> bool"
  env_putUtf8_result :: "u32 \<Rightarrow> bool"

type_synonym lexed = "lex_stop + (TokenKind \<times> Token \<times> Lexer)"

definition no_range :: Range where
  "no_range = \<lparr>r_start = 0, r_end = 0, r_coord = \<lparr>lc_line = 0, lc_column = 0\<rparr>, r_source = None\<rparr>"

definition Token_zero :: Token where
  "Token_zero = \<lparr>tk_kind = tokEoF, tk_value = \<lparr>v_kind = vkdNone, v_union = UNone\<rparr>, tk_range = no_range\<rparr>"

definition Lexer_mark :: "Lexer \<Rightarrow> Position" where
  "Lexer_mark lX = \<lparr>p_idx = lx_idx lX, p_coord = lx_pos lX\<rparr>"

definition Lexer_updatePos :: "u8 \<Rightarrow> Lexer \<Rightarrow> Lexer" where
  "Lexer_updatePos c lX =
     (if c = ch CHR 0x0A then
        lX\<lparr>lx_pos := (lx_pos lX)\<lparr>lc_line := lc_line (lx_pos lX) + 1, lc_column := 0\<rparr>\<rparr>
      else lX\<lparr>lx_pos := (lx_pos lX)\<lparr>lc_column := lc_column (lx_pos lX) + 1\<rparr>\<rparr>)"

function Lexer_eatWhile :: "(u8 \<Rightarrow> bool) \<Rightarrow> Lexer \<Rightarrow> Lexer" where
  "Lexer_eatWhile func lX =
     (if lx_idx lX < length (lx_text lX) \<and> func (lx_text lX ! lx_idx lX) then
        let lX = Lexer_updatePos (lx_text lX ! lx_idx lX) lX
        in Lexer_eatWhile func (lX\<lparr>lx_idx := lx_idx lX + 1\<rparr>)
      else lX)"
  by auto
termination
  by (relation "measure (\<lambda>(func, lX). length (lx_text lX) - lx_idx lX)") (auto simp: Lexer_updatePos_def)

declare Lexer_eatWhile.simps [simp del]

definition Lexer_eatUntilAnyOf :: "u8 list \<Rightarrow> Lexer \<Rightarrow> Lexer" where
  "Lexer_eatUntilAnyOf chrs lX = Lexer_eatWhile (\<lambda>c. c \<notin> set chrs) lX"

definition Lexer_peek :: "nat \<Rightarrow> Lexer \<Rightarrow> u8" where
  "Lexer_peek n lX = (let n = n + lx_idx lX in if n < length (lx_text lX) then lx_text lX ! n else EOF)"

text \<open>\<open>Lexer_advance\<close> returns the old index.\<close>

definition Lexer_advance :: "nat \<Rightarrow> Lexer \<Rightarrow> nat \<times> Lexer" where
  "Lexer_advance n lX =
     (let ret = lx_idx lX; lX = lX\<lparr>lx_idx := min (length (lx_text lX)) (ret + n)\<rparr>
      in (ret, fold (\<lambda>i lX. Lexer_updatePos (lx_text lX ! i) lX) [ret..<lx_idx lX] lX))"

abbreviation advance :: "nat \<Rightarrow> Lexer \<Rightarrow> Lexer" where
  "advance n lX \<equiv> snd (Lexer_advance n lX)"

definition Lexer_updateToken :: "Lexer \<Rightarrow> Token \<Rightarrow> TokenKind \<Rightarrow> nat \<Rightarrow> nat \<Rightarrow> LineColumn \<Rightarrow> lex_stop + Token" where
  "Lexer_updateToken lX tok kind start end pos =
     (case Range_update (Some (lx_source lX)) start end pos of
        None \<Rightarrow> Inl LexAssert
      | Some r \<Rightarrow> Inr (tok\<lparr>tk_range := r, tk_kind := kind\<rparr>))"

text \<open>\<open>return Lexer_updateToken(lX, tok, kind, start, end, pos)\<close>.\<close>

definition token_end :: "TokenKind \<Rightarrow> nat \<Rightarrow> nat \<Rightarrow> LineColumn \<Rightarrow> Token \<Rightarrow> Lexer \<Rightarrow> lexed" where
  "token_end kind start end pos tok lX =
     bnd (Lexer_updateToken lX tok kind start end pos) (\<lambda>tok. Inr (kind, tok, lX))"

definition Lexer_resetNext :: "Lexer \<Rightarrow> TokenKind \<times> Token \<times> Lexer" where
  "Lexer_resetNext lX =
     (let kind = tk_kind (lx_next lX); into = lx_next lX
      in (kind, into, lX\<lparr>lx_next := (lx_next lX)\<lparr>tk_kind := tokCOUNT\<rparr>\<rparr>))"

definition Log_append :: "LogKind \<Rightarrow> Range \<Rightarrow> string \<Rightarrow> Diagnostic list \<Rightarrow> Diagnostic list" where
  "Log_append kind r message log = log @ [\<lparr>d_kind = kind, d_range = r, d_message = message\<rparr>]"

definition mkRange :: "nat \<Rightarrow> nat \<Rightarrow> LineColumn \<Rightarrow> Lexer \<Rightarrow> Range" where
  "mkRange s e c lX = \<lparr>r_start = s, r_end = e, r_coord = c, r_source = Some (lx_source lX)\<rparr>"

definition Log_error :: "nat \<Rightarrow> nat \<Rightarrow> LineColumn \<Rightarrow> string \<Rightarrow> Lexer \<Rightarrow> Lexer" where
  "Log_error s e c fmt lX = lX\<lparr>lx_log := Log_append logError (mkRange s e c lX) fmt (lx_log lX)\<rparr>"

definition Log_warn :: "nat \<Rightarrow> nat \<Rightarrow> LineColumn \<Rightarrow> string \<Rightarrow> Lexer \<Rightarrow> Lexer" where
  "Log_warn s e c fmt lX = lX\<lparr>lx_log := Log_append logWarning (mkRange s e c lX) fmt (lx_log lX)\<rparr>"

definition Lexer_reset :: "nat \<Rightarrow> u8 list \<Rightarrow> Lexer \<Rightarrow> Lexer" where
  "Lexer_reset source text lX =
     lX\<lparr>lx_next := (lx_next lX)\<lparr>tk_kind := tokCOUNT\<rparr>, lx_idx := 0, lx_source := source, lx_text := text,
        lx_in_str := False, lx_pos := \<lparr>lc_line = 0, lc_column = 0\<rparr>\<rparr>"

definition Lexer_init :: "Diagnostic list \<Rightarrow> bool \<Rightarrow> nat \<Rightarrow> u8 list \<Rightarrow> Lexer option" where
  "Lexer_init log erange source text =
     map_option (\<lambda>kw. Lexer_reset source text
       \<lparr>lx_source = 0, lx_text = [], lx_next = Token_zero, lx_idx = 0, lx_pos = \<lparr>lc_line = 0, lc_column = 0\<rparr>,
        lx_in_str = False, lx_keywords = kw, lx_log = log, lx_erange = erange\<rparr>) Lexer_initKeywordsMap"

section \<open>Moving through the text\<close>

text \<open>The position belongs to the index; a state is ahead of another in the same text.\<close>

definition pos_ok :: "Lexer \<Rightarrow> bool" where
  "pos_ok lX \<longleftrightarrow> lx_pos lX = line_column (take (lx_idx lX) (lx_text lX))"

definition ahead :: "Lexer \<Rightarrow> Lexer \<Rightarrow> bool" where
  "ahead a b \<longleftrightarrow> lx_text b = lx_text a \<and> lx_source b = lx_source a \<and> lx_keywords b = lx_keywords a \<and>
     lx_next b = lx_next a \<and>
     (lx_idx a \<le> length (lx_text a) \<longrightarrow>
      lx_idx a \<le> lx_idx b \<and> lx_idx b \<le> length (lx_text a) \<and> (pos_ok a \<longrightarrow> pos_ok b))"

lemma ahead_refl [simp, intro]: "ahead lX lX"
  by (simp add: ahead_def)

lemma ahead_trans [trans]: "ahead a b \<Longrightarrow> ahead b c \<Longrightarrow> ahead a c"
  unfolding ahead_def by auto

lemma ahead_idx: "ahead a b \<Longrightarrow> lx_idx a \<le> length (lx_text a) \<Longrightarrow> lx_idx a \<le> lx_idx b \<and> lx_idx b \<le> length (lx_text a)"
  by (simp add: ahead_def)

lemma ahead_text: "ahead a b \<Longrightarrow> lx_text b = lx_text a \<and> lx_source b = lx_source a \<and> lx_keywords b = lx_keywords a \<and> lx_next b = lx_next a"
  by (simp add: ahead_def)

lemma ahead_upd [simp]:
  "ahead a (b\<lparr>lx_log := l\<rparr>) \<longleftrightarrow> ahead a b" "ahead a (b\<lparr>lx_in_str := s\<rparr>) \<longleftrightarrow> ahead a b"
  "ahead a (b\<lparr>lx_erange := e\<rparr>) \<longleftrightarrow> ahead a b"
  "ahead (b\<lparr>lx_log := l\<rparr>) a \<longleftrightarrow> ahead b a" "ahead (b\<lparr>lx_in_str := s\<rparr>) a \<longleftrightarrow> ahead b a"
  "ahead (b\<lparr>lx_erange := e\<rparr>) a \<longleftrightarrow> ahead b a"
  by (simp_all add: ahead_def pos_ok_def)

lemma ahead_log [simp]: "ahead a (Log_error s e c f b) \<longleftrightarrow> ahead a b" "ahead a (Log_warn s e c f b) \<longleftrightarrow> ahead a b"
  by (simp_all add: Log_error_def Log_warn_def)

lemma log_fields [simp]:
  "lx_text (Log_error s e c f a) = lx_text a" "lx_idx (Log_error s e c f a) = lx_idx a"
  "lx_next (Log_error s e c f a) = lx_next a" "lx_text (Log_warn s e c f a) = lx_text a"
  "lx_idx (Log_warn s e c f a) = lx_idx a" "lx_next (Log_warn s e c f a) = lx_next a"
  by (simp_all add: Log_error_def Log_warn_def)

lemma updatePos_eq: "Lexer_updatePos c lX = lX\<lparr>lx_pos := count_char c (lx_pos lX)\<rparr>"
  by (simp add: Lexer_updatePos_def count_char_def)

lemma fold_updatePos:
  "j \<le> length (lx_text lX) \<Longrightarrow> i \<le> j \<Longrightarrow>
   fold (\<lambda>i lX. Lexer_updatePos (lx_text lX ! i) lX) [i..<j] lX =
     lX\<lparr>lx_pos := fold count_char (take (j - i) (drop i (lx_text lX))) (lx_pos lX)\<rparr>"
proof (induction "j - i" arbitrary: i lX)
  case (Suc n)
  then have "i < j" "take (j - i) (drop i (lx_text lX)) = lx_text lX ! i # take (j - Suc i) (drop (Suc i) (lx_text lX))"
    by (simp_all add: take_Cons' Cons_nth_drop_Suc [symmetric])
  with Suc show ?case by (simp add: upt_conv_Cons updatePos_eq)
qed simp

lemma advance_eq:
  assumes "lx_idx lX \<le> length (lx_text lX)"
  shows "advance n lX = lX\<lparr>lx_idx := min (length (lx_text lX)) (lx_idx lX + n),
     lx_pos := fold count_char (take n (drop (lx_idx lX) (lx_text lX))) (lx_pos lX)\<rparr>"
proof -
  have "take (min (length (lx_text lX)) (lx_idx lX + n) - lx_idx lX) (drop (lx_idx lX) (lx_text lX)) =
    take n (drop (lx_idx lX) (lx_text lX))"
    using assms by (simp add: min_def)
  with assms show ?thesis by (simp add: Lexer_advance_def Let_def fold_updatePos)
qed

lemma fst_advance [simp]: "fst (Lexer_advance n lX) = lx_idx lX"
  by (simp add: Lexer_advance_def Let_def)

lemma advance_past:
  "length (lx_text lX) < lx_idx lX \<Longrightarrow> advance n lX = lX\<lparr>lx_idx := length (lx_text lX)\<rparr>"
  by (simp add: Lexer_advance_def Let_def)

lemma advance_fields [simp]:
  "lx_text (advance n lX) = lx_text lX" "lx_source (advance n lX) = lx_source lX" "lx_keywords (advance n lX) = lx_keywords lX"
  "lx_idx (advance n lX) = min (length (lx_text lX)) (lx_idx lX + n)" "lx_log (advance n lX) = lx_log lX"
  "lx_in_str (advance n lX) = lx_in_str lX" "lx_erange (advance n lX) = lx_erange lX" "lx_next (advance n lX) = lx_next lX"
  by (cases "lx_idx lX \<le> length (lx_text lX)"; simp add: advance_eq advance_past)+

lemma ahead_advance [simp]: "ahead lX (advance n lX)"
proof (cases "lx_idx lX \<le> length (lx_text lX)")
  case True
  have "take (min (length (lx_text lX)) (lx_idx lX + n)) (lx_text lX) =
      take (lx_idx lX) (lx_text lX) @ take n (drop (lx_idx lX) (lx_text lX))"
    by (simp add: take_add min_def)
  with True show ?thesis by (auto simp: ahead_def pos_ok_def advance_eq line_column_def)
qed (simp add: ahead_def)

lemma ahead_advance' [intro]: "ahead a b \<Longrightarrow> ahead a (advance n b)"
  by (rule ahead_trans [OF _ ahead_advance])

lemma peek_EOF: "Lexer_peek n lX \<noteq> EOF \<Longrightarrow> lx_idx lX + n < length (lx_text lX)"
  by (auto simp: Lexer_peek_def Let_def split: if_splits)

lemma ahead_eatWhile: "ahead lX (Lexer_eatWhile func lX)"
proof (induction func lX rule: Lexer_eatWhile.induct)
  case (1 func lX)
  show ?case
  proof (cases "lx_idx lX < length (lx_text lX) \<and> func (lx_text lX ! lx_idx lX)")
    case True
    let ?l = "Lexer_updatePos (lx_text lX ! lx_idx lX) lX"
    have "Lexer_eatWhile func lX = Lexer_eatWhile func (?l\<lparr>lx_idx := lx_idx ?l + 1\<rparr>)"
      using True by (simp add: Lexer_eatWhile.simps [of func lX] Let_def)
    moreover have "ahead lX (?l\<lparr>lx_idx := lx_idx ?l + 1\<rparr>)"
      using True by (auto simp: ahead_def pos_ok_def updatePos_eq take_Suc_conv_app_nth)
    ultimately show ?thesis using 1 [OF True refl] by (metis ahead_trans)
  next
    case False
    then show ?thesis by (subst Lexer_eatWhile.simps) auto
  qed
qed

text \<open>\<open>for (; func(c); c = Lexer_peek(lX, 0)) Lexer_advance(lX, 1)\<close>, where \<open>func\<close> fails on \<open>EOF\<close>.\<close>

function advance_while :: "(u8 \<Rightarrow> bool) \<Rightarrow> Lexer \<Rightarrow> Lexer" where
  "advance_while func lX =
     (if lx_idx lX < length (lx_text lX) \<and> func (Lexer_peek 0 lX) then advance_while func (advance 1 lX) else lX)"
  by auto
termination
  by (relation "measure (\<lambda>(func, lX). length (lx_text lX) - lx_idx lX)") auto

declare advance_while.simps [simp del]

lemma ahead_while: "ahead lX (advance_while func lX)"
proof (induction func lX rule: advance_while.induct)
  case (1 func lX)
  then show ?case
    by (cases "lx_idx lX < length (lx_text lX) \<and> func (Lexer_peek 0 lX)")
      (auto simp: advance_while.simps [of func lX] intro: ahead_trans [OF ahead_advance])
qed

end
