(* ===== verification/Cyn_LexToken.thy ===== *)
theory Cyn_LexToken
  imports Cyn_Lexer
begin

unbundle bit_operations_syntax

text \<open>
  The token functions of \<^verbatim>\<open>src/compiler/common/lexer.c\<close>: escapes, characters, strings, numbers,
  words, comments, the switch over the first characters and \<open>Lexer_next\<close>. Each function is shown to
  move forward in the same text.
\<close>

section \<open>Escapes\<close>

text \<open>The digits are read one character too far: \<open>Lexer_peek(lX, 1)\<close> skips the first one.\<close>

fun universal_loop :: "nat \<Rightarrow> u32 \<Rightarrow> Lexer \<Rightarrow> lex_stop + (u32 \<times> Lexer)" where
  "universal_loop 0 r lX = Inr (r, lX)"
| "universal_loop (Suc n) r lX =
     (case hex_value (Lexer_peek 1 lX) of
        None \<Rightarrow> Inl LexAbort
      | Some d \<Rightarrow> universal_loop n (push_bit 4 r OR d) (advance 1 lX))"

definition Lexer_tokUniversalChar :: "nat \<Rightarrow> Lexer \<Rightarrow> lex_stop + (u32 \<times> Lexer)" where
  "Lexer_tokUniversalChar len lX =
     bnd (universal_loop len 0 lX) (\<lambda>(r, lX). if \<not> isucn r then Inl LexAbort else Inr (r, lX))"

definition Lexer_tokOctalChar :: "u8 \<Rightarrow> Lexer \<Rightarrow> u32 \<times> Lexer" where
  "Lexer_tokOctalChar c lX =
     (let r = ucast (c - 0x30); c = Lexer_peek 0 lX in
      if \<not> isoct c then (r, lX)
      else let lX = advance 1 lX; r = push_bit 3 r OR ucast (c - 0x30); c = Lexer_peek 0 lX in
        if \<not> isoct c then (r, lX) else (push_bit 3 r OR ucast (c - 0x30), advance 1 lX))"

function hex_loop :: "u32 \<Rightarrow> Lexer \<Rightarrow> u32 \<times> Lexer" where
  "hex_loop r lX =
     (let c = Lexer_peek 0 lX in
      if c = EOF then (r, lX)
      else case hex_value c of
        Some d \<Rightarrow> hex_loop (push_bit 4 r OR d) (advance 1 lX)
      | None \<Rightarrow> (r, lX))"
  by auto
termination
  by (relation "measure (\<lambda>(r, lX). length (lx_text lX) - lx_idx lX)") (auto dest: peek_EOF)

declare hex_loop.simps [simp del]

definition Lexer_tokHexChar :: "Lexer \<Rightarrow> lex_stop + (u32 \<times> Lexer)" where
  "Lexer_tokHexChar lX = (if \<not> isxdigit (Lexer_peek 0 lX) then Inl LexAbort else Inr (hex_loop 0 lX))"

text \<open>A character behind a backslash; other characters are extended by their sign.\<close>

definition Lexer_tokEscapedChar :: "bool \<Rightarrow> Lexer \<Rightarrow> lex_stop + (u32 \<times> Lexer)" where
  "Lexer_tokEscapedChar inStr lX =
     (let pos = Lexer_mark lX; c = Lexer_peek 0 lX; lX = advance 1 lX in
      if c = ch CHR 0x0A \<and> inStr then Inr (0x0A, lX)
      else if c \<in> {ch CHR 0x27, ch CHR 0x22, ch CHR ''?'', ch CHR 0x5C, ch CHR ''$''} then Inr (scast c, lX)
      else if c = ch CHR ''n'' then Inr (0x0A, lX)
      else if c = ch CHR ''a'' then Inr (0x07, lX)
      else if c = ch CHR ''b'' then Inr (0x08, lX)
      else if c = ch CHR ''f'' then Inr (0x0C, lX)
      else if c = ch CHR ''r'' then Inr (0x0D, lX)
      else if c = ch CHR ''t'' then Inr (0x09, lX)
      else if c = ch CHR ''v'' then Inr (0x0B, lX)
      else if c = ch CHR ''e'' then Inr (0x1B, lX)
      else if c = ch CHR ''x'' then Lexer_tokHexChar lX
      else if c = ch CHR ''u'' then Lexer_tokUniversalChar 4 lX
      else if c = ch CHR ''U'' then Lexer_tokUniversalChar 8 lX
      else if isoct c then Inr (Lexer_tokOctalChar c lX)
      else Inr (scast c, Log_warn (p_idx pos) (p_idx pos) (p_coord pos) (''unknown escape character: '' @ CHR 0x5C # ''%c'') lX))"

lemma ahead_universal: "universal_loop n r lX = Inr (q, b) \<Longrightarrow> ahead lX b"
  by (induction n r lX rule: universal_loop.induct)
    (auto split: option.splits intro: ahead_trans [OF ahead_advance])

lemma ahead_hex: "ahead lX (snd (hex_loop r lX))"
proof (induction r lX rule: hex_loop.induct)
  case (1 r lX)
  show ?case
  proof (cases "Lexer_peek 0 lX = EOF \<or> hex_value (Lexer_peek 0 lX) = None")
    case True
    then show ?thesis by (subst hex_loop.simps) (auto simp: Let_def)
  next
    case False
    then obtain d where d: "hex_value (Lexer_peek 0 lX) = Some d" by auto
    from 1 [OF refl _ d] False have "ahead (advance 1 lX) (snd (hex_loop (push_bit 4 r OR d) (advance 1 lX)))" by simp
    then show ?thesis
      using False d ahead_trans [OF ahead_advance] by (subst hex_loop.simps) (simp add: Let_def)
  qed
qed

lemma ahead_octal: "ahead lX (snd (Lexer_tokOctalChar c lX))"
  by (auto simp: Lexer_tokOctalChar_def Let_def)

lemma ahead_escaped: "Lexer_tokEscapedChar s lX = Inr (q, b) \<Longrightarrow> ahead (advance 1 lX) b"
  using ahead_octal [of "advance 1 lX" "Lexer_peek 0 lX"] ahead_hex [of "advance 1 lX" 0]
  by (auto simp: Lexer_tokEscapedChar_def Let_def Lexer_tokHexChar_def Lexer_tokUniversalChar_def
      simp del: advance_fields split: if_splits dest: ahead_universal)

section \<open>Characters\<close>

text \<open>The loop to the closing quote does not look at the end of the source.\<close>

partial_function (option) skip_to_quote :: "u8 \<Rightarrow> Lexer \<Rightarrow> Lexer option" where
  "skip_to_quote c lX =
     (if c \<noteq> ch CHR 0x27 then let lX = advance 1 lX in skip_to_quote (Lexer_peek 0 lX) lX else Some lX)"

declare skip_to_quote.simps [code]

definition slice :: "nat \<Rightarrow> nat \<Rightarrow> Lexer \<Rightarrow> u8 list" where
  "slice s e lX = take (e - s) (drop s (lx_text lX))"

text \<open>
  The rune of a view that is too short is read up to the quote behind it, which is no continuation:
  it stops like the other errors of \<open>Lexer_readRune\<close>.
\<close>

definition Lexer_tokChar :: "Token \<Rightarrow> Lexer \<Rightarrow> lexed option" where
  "Lexer_tokChar tok lX =
     (let pos = Lexer_mark lX; c = Lexer_peek 1 lX; chr = ucast c :: u32; lX = advance 2 lX in
      case (if c = ch CHR 0x5C then Lexer_tokEscapedChar False lX else Inr (chr, lX)) of
        Inl e \<Rightarrow> Some (Inl e)
      | Inr (chr, lX) \<Rightarrow>
          Option.bind
            (if chr \<ge> 0x80 then
               Option.bind (skip_to_quote c lX) (\<lambda>lX.
                 Some (case Lexer_readRune (slice (p_idx pos + 1) (lx_idx lX) lX) of
                         Inl _ \<Rightarrow> Inl LexAbort
                       | Inr (_, chr) \<Rightarrow> Inr (chr, lX)))
             else Some (Inr (chr, lX))) (\<lambda>r. Some (bnd r (\<lambda>(chr, lX).
            if Lexer_peek 0 lX \<noteq> ch CHR 0x27 then
              let lX = Lexer_eatUntilAnyOf [ch CHR 0x0A, ch CHR 0x27] lX in
              if Lexer_peek 0 lX = ch CHR 0x27 then
                let lX = advance 1 lX in
                Inr (tokCOUNT, tok, Log_error (p_idx pos) (lx_idx lX) (p_coord pos)
                       ''character literal has more than 1 character'' lX)
              else
                Inr (tokCOUNT, tok, Log_error (p_idx pos) (lx_idx lX) (p_coord pos)
                       ''unterminated character sequence'' lX)
            else
              token_end tokChar (p_idx pos) (lx_idx lX) (p_coord pos) (Token_setChar chr tok) (advance 1 lX)))))"

section \<open>Strings\<close>

lemma escaped_shorter:
  assumes "Lexer_tokEscapedChar s (advance (Suc 0) lX) = Inr (chr, b)" "Lexer_peek 0 lX = 0x5C"
  shows "length (lx_text b) - lx_idx b < length (lx_text lX) - lx_idx lX"
  using peek_EOF [of 0 lX] ahead_escaped [OF assms(1)] assms(2) by (auto simp: ahead_def EOF_def)

text \<open>The loop returns the character it stopped at, the buffer and the state.\<close>

function string_loop :: "LexEnv \<Rightarrow> u8 list \<Rightarrow> Lexer \<Rightarrow> lex_stop + (u8 \<times> u8 list \<times> Lexer)" where
  "string_loop E os lX =
     (let c = Lexer_peek 0 lX in
      if c = EOF then Inr (c, os, lX)
      else if c = ch CHR 0x22 then Inr (c, os, lX\<lparr>lx_in_str := False\<rparr>)
      else if c = ch CHR 0x0A then Inr (c, os, lX)
      else
        let lX = advance 1 lX; cc = Lexer_peek 0 lX in
        if lx_in_str lX \<and> c = ch CHR ''$'' \<and> cc = ch CHR ''{'' then Inr (c, os, lX)
        else if c \<noteq> ch CHR 0x5C then string_loop E (os @ [c]) lX
        else
          let ucn = cc = ch CHR ''u'' \<or> cc = ch CHR ''U''; es = lx_idx lX in
          bnd (Lexer_tokEscapedChar True lX) (\<lambda>(chr, lX).
            if ucn then
              case Stream_putUtf8 os chr of
                None \<Rightarrow> Inl LexAssert
              | Some os \<Rightarrow>
                  string_loop E os
                    (if \<not> env_putUtf8_result E chr then
                       Log_error es (lx_idx lX) (lx_pos lX) (''invalid UCS character: '' @ CHR 0x5C # ''U%x'') lX
                     else lX)
            else string_loop E (os @ [ucast chr]) lX))"
  by auto
termination
  by (relation "measure (\<lambda>(E, os, lX). length (lx_text lX) - lx_idx lX)")
    (auto dest: peek_EOF escaped_shorter)

declare string_loop.simps [simp del]

definition Lexer_tokString :: "LexEnv \<Rightarrow> Position \<Rightarrow> Token \<Rightarrow> Lexer \<Rightarrow> lexed" where
  "Lexer_tokString E pos tok lX =
     (let inStrExpr = lx_in_str lX in
      bnd (string_loop E [] lX) (\<lambda>(c, os, lX).
        if \<not> lx_in_str lX \<and> c \<noteq> ch CHR 0x22 then
          let lX = Lexer_eatUntilAnyOf [ch CHR 0x22, ch CHR 0x0A] lX;
              lX = Log_error (p_idx pos) (lx_idx lX) (p_coord pos) ''unterminated string literal'' lX;
              lX = (if Lexer_peek 0 lX = ch CHR 0x22 then advance 1 lX else lX)
          in Inr (tokCOUNT, tok, lX)
        else
          let lX = advance 1 lX in
          bnd (if \<not> inStrExpr \<or> lx_idx lX - p_idx pos > 1 then
                 token_end tokString (p_idx pos) (lx_idx lX) (p_coord pos) (Token_setString os tok) lX
               else Inr (tokCOUNT, tok, lX)) (\<lambda>(kind, tok, lX).
            if inStrExpr \<and> c = ch CHR 0x22 then
              if kind = tokCOUNT then token_end tokRStrExpr (p_idx pos) (lx_idx lX) (p_coord pos) tok lX
              else
                bnd (Lexer_updateToken lX (lx_next lX) tokRStrExpr (p_idx pos) (lx_idx lX) (p_coord pos)) (\<lambda>n.
                  Inr (kind, tok, lX\<lparr>lx_next := n\<rparr>))
            else Inr (kind, tok, lX))))"

section \<open>Numbers\<close>

definition MAX_DIGITS_IN_INTEGER :: nat where "MAX_DIGITS_IN_INTEGER = 39"
definition CONVERSION_BUFFER_SIZE :: nat where "CONVERSION_BUFFER_SIZE = 1084"

definition Lexer_parseInteger :: "Position \<Rightarrow> nat \<Rightarrow> Token \<Rightarrow> Lexer \<Rightarrow> lexed" where
  "Lexer_parseInteger start base tok lX =
     (let idx = (if base = 16 \<or> base = 2 then p_idx start + 2 else p_idx start); len = lx_idx lX - idx in
      if \<not> len \<le> MAX_DIGITS_IN_INTEGER then Inl LexAssert
      else
        let (v, rest, range) = strtoull base (slice idx (lx_idx lX) lX);
            lX = lX\<lparr>lx_erange := lx_erange lX \<or> range\<rparr> in
        if lx_erange lX \<or> rest \<noteq> [] then
          Inr (tokCOUNT, tok, Log_error (p_idx start) (lx_idx lX) (p_coord start) ''parsing integer failed: %s'' lX)
        else token_end tokInteger (p_idx start) (lx_idx lX) (p_coord start) (Token_setInt v tok) lX)"

definition float_end :: "LexEnv \<Rightarrow> Position \<Rightarrow> Token \<Rightarrow> Lexer \<Rightarrow> lexed" where
  "float_end E start tok lX =
     (let lX = Lexer_eatWhile isdigit lX; len = lx_idx lX - p_idx start in
      if len \<ge> CONVERSION_BUFFER_SIZE then Inl LexOverflow
      else
        let (v, rest, range) = env_strtod E (slice (p_idx start) (lx_idx lX) lX);
            lX = lX\<lparr>lx_erange := lx_erange lX \<or> range\<rparr> in
        if lx_erange lX \<or> rest \<noteq> [] then
          Inr (tokCOUNT, tok, Log_error (p_idx start) (lx_idx lX) (p_coord start) ''parsing floating number failed: %s'' lX)
        else token_end tokFloat (p_idx start) (lx_idx lX) (p_coord start) (Token_setFloat v tok) lX)"

definition Lexer_tokFloatingPoint :: "LexEnv \<Rightarrow> Position \<Rightarrow> Token \<Rightarrow> Lexer \<Rightarrow> lexed" where
  "Lexer_tokFloatingPoint E start tok lX =
     (let c = toupper (Lexer_peek 0 lX) in
      if c \<notin> {ch CHR ''.'', ch CHR ''E'', ch CHR ''P''} then Inl LexAssert
      else
        let lX = advance 1 lX in
        if c = ch CHR ''E'' \<or> c = ch CHR ''P'' then
          let c = Lexer_peek 0 lX;
              lX = (if c = ch CHR ''-'' \<or> c = ch CHR ''+'' then advance 1 lX else lX) in
          if \<not> isdigit (Lexer_peek 0 lX) then
            Inr (tokCOUNT, tok, Log_error (p_idx start) (lx_idx lX) (p_coord start) ''exponent has no digits'' lX)
          else float_end E start tok lX
        else float_end E start tok lX)"

definition Lexer_tokBinaryNumber :: "Token \<Rightarrow> Lexer \<Rightarrow> lexed" where
  "Lexer_tokBinaryNumber tok lX =
     (let pos = Lexer_mark lX; lX = advance 2 lX;
          lX = advance_while (\<lambda>c. c = ch CHR ''0'' \<or> c = ch CHR ''1'') lX; c = Lexer_peek 0 lX in
      if isdigit c then
        let p = Lexer_mark lX; lX = Lexer_eatWhile isdigit lX in
        Inr (tokCOUNT, tok, Log_error (p_idx p) (lx_idx lX) (p_coord p) ''invalid digit in a binary number'' lX)
      else Lexer_parseInteger pos 2 tok lX)"

definition Lexer_tokHexNumber :: "LexEnv \<Rightarrow> Token \<Rightarrow> Lexer \<Rightarrow> lexed" where
  "Lexer_tokHexNumber E tok lX =
     (let pos = Lexer_mark lX; lX = advance 2 lX; lX = advance_while isxdigit lX; c = Lexer_peek 0 lX in
      if toupper c = ch CHR ''P'' then Lexer_tokFloatingPoint E pos tok lX
      else Lexer_parseInteger pos 16 tok lX)"

definition Lexer_tokOctalNumber :: "LexEnv \<Rightarrow> Token \<Rightarrow> Lexer \<Rightarrow> lexed" where
  "Lexer_tokOctalNumber E tok lX =
     (let pos = Lexer_mark lX; lX = advance_while isoct lX; x = Lexer_peek 0 lX in
      if isdigit x then
        let lX = advance_while isdigit lX; c = Lexer_peek 0 lX in
        if c = ch CHR ''.'' \<or> c = ch CHR ''e'' \<or> c = ch CHR ''E'' then Lexer_tokFloatingPoint E pos tok lX
        else Inr (tokCOUNT, tok, Log_error (p_idx pos) (lx_idx lX) (p_coord pos) ''not a valid octal digit'' lX)
      else Lexer_parseInteger pos 8 tok lX)"

definition Lexer_tokDecimalNumber :: "LexEnv \<Rightarrow> Token \<Rightarrow> Lexer \<Rightarrow> lexed" where
  "Lexer_tokDecimalNumber E tok lX =
     (let pos = Lexer_mark lX; lX = advance_while isdigit lX; c = Lexer_peek 0 lX in
      if toupper c = ch CHR ''E'' \<or> c = ch CHR ''.'' then Lexer_tokFloatingPoint E pos tok lX
      else Lexer_parseInteger pos 10 tok lX)"

definition Lexer_tokNumber :: "LexEnv \<Rightarrow> Token \<Rightarrow> Lexer \<Rightarrow> lexed" where
  "Lexer_tokNumber E tok lX =
     (let c = Lexer_peek 0 lX; cc = toupper (Lexer_peek 1 lX); ccc = Lexer_peek 2 lX in
      if c = ch CHR ''0'' then
        if cc = ch CHR ''X'' \<and> isxdigit ccc then Lexer_tokHexNumber E tok lX
        else if cc = ch CHR ''B'' \<and> (ccc = ch CHR ''0'' \<or> ccc = ch CHR ''1'') then Lexer_tokBinaryNumber tok lX
        else if cc = ch CHR ''.'' \<or> cc = ch CHR ''E'' then
          let pos = Lexer_mark lX; lX = advance 1 lX in Lexer_tokFloatingPoint E pos tok lX
        else Lexer_tokOctalNumber E tok lX
      else Lexer_tokDecimalNumber E tok lX)"

section \<open>Words and comments\<close>

definition isident :: "u8 \<Rightarrow> bool" where
  "isident c \<longleftrightarrow> c = ch CHR ''_'' \<or> c = ch CHR ''$'' \<or> isdigit c \<or> isalnum c"

definition Lexer_tokIdent :: "Token \<Rightarrow> Lexer \<Rightarrow> lexed" where
  "Lexer_tokIdent tok lX =
     (let pos = Lexer_mark lX; lX = advance_while isident lX; sv = slice (p_idx pos) (lx_idx lX) lX in
      case Map_get (lx_keywords lX) sv of
        Some kw \<Rightarrow>
          token_end kw (p_idx pos) (lx_idx lX) (p_coord pos)
            (if kw = Kw tokTrue \<or> kw = Kw tokFalse then Token_setBool (kw = Kw tokTrue) tok else tok) lX
      | None \<Rightarrow>
          token_end tokIdentifier (p_idx pos) (lx_idx lX) (p_coord pos)
            (tok\<lparr>tk_value := (tk_value tok)\<lparr>v_union := UBool False\<rparr>\<rparr>) lX)"

function comment_loop :: "bool \<Rightarrow> int \<Rightarrow> Lexer \<Rightarrow> int \<times> Lexer" where
  "comment_loop isMultiLine level lX =
     (let c = Lexer_peek 0 lX; lX = advance 1 lX in
      if c = ch CHR 0x0A \<and> \<not> isMultiLine then (level, lX)
      else
        let cc = Lexer_peek 0 lX;
            close = c = ch CHR ''*'' \<and> cc = ch CHR ''/'';
            lX = (if close then advance 1 lX else lX);
            level = (if close then level - 1 else level) in
        if close \<and> level = 0 then (level, lX)
        else
          let level = (if c = ch CHR ''/'' \<and> cc = ch CHR ''*'' then level + 1 else level) in
          if c \<noteq> EOF then comment_loop isMultiLine level lX else (level, lX))"
  by auto
termination
  by (relation "measure (\<lambda>(isMultiLine, level, lX). length (lx_text lX) - lx_idx lX)") (auto dest: peek_EOF)

declare comment_loop.simps [simp del]

definition Lexer_tokComment :: "Token \<Rightarrow> Lexer \<Rightarrow> lexed" where
  "Lexer_tokComment tok lX =
     (let pos = Lexer_mark lX; lX = advance 1 lX; c = Lexer_peek 0 lX; isMultiLine = c = ch CHR ''*'';
          lX = advance 1 lX;
          (level, lX) = (if c \<noteq> EOF then comment_loop isMultiLine 1 lX else (1, lX)) in
      if isMultiLine \<and> level \<noteq> 0 then
        Inr (tokCOUNT, tok, Log_error (p_idx pos) (lx_idx lX) (p_coord pos) ''unterminated multiline comment'' lX)
      else token_end tokComment (p_idx pos) (lx_idx lX) (p_coord pos) tok lX)"

section \<open>The tokenizer\<close>

text \<open>
  The macros of \<open>Lexer_tokenize\<close>: an operator, the characters that are skipped first, and those that
  are skipped while its range is written, whose end is therefore the index before them.
\<close>

type_synonym op_step = "Operator \<times> nat \<times> nat"

definition ADD :: "Operator \<Rightarrow> op_step option" where
  "ADD t = Some (t, 0, 1)"

definition IF_ELSE :: "u8 \<Rightarrow> char \<Rightarrow> Operator \<Rightarrow> Operator \<Rightarrow> op_step option" where
  "IF_ELSE cc c t e = (if cc = ch c then Some (t, 0, 2) else Some (e, 0, 1))"

definition IF_ELSE2 :: "u8 \<Rightarrow> u8 \<Rightarrow> char \<Rightarrow> char \<Rightarrow> Operator \<Rightarrow> Operator \<Rightarrow> Operator \<Rightarrow> op_step option" where
  "IF_ELSE2 cc ccc c1 c2 t e ee =
     (if cc = ch c1 then if ccc = ch c2 then Some (t, 3, 1) else Some (e, 0, 2) else Some (ee, 0, 1))"

definition Lexer_operator :: "u8 \<Rightarrow> u8 \<Rightarrow> u8 \<Rightarrow> op_step option" where
  "Lexer_operator c cc ccc =
     (if c = ch CHR ''%'' then IF_ELSE cc CHR ''='' tokModAssign tokMod
      else if c = ch CHR ''/'' then
        if cc = ch CHR ''='' then Some (tokDivAssign, 0, 2)
        else if cc = ch CHR ''*'' \<or> cc = ch CHR ''/'' then None
        else ADD tokDiv
      else if c = ch CHR ''*'' then
        if cc = ch CHR ''*'' then Some (tokExponent, 0, 2) else IF_ELSE cc CHR ''='' tokMultAssign tokMult
      else if c = ch CHR ''+'' then
        if cc = ch CHR ''+'' then Some (tokPlusPlus, 0, 2) else IF_ELSE cc CHR ''='' tokPlusAssign tokPlus
      else if c = ch CHR ''-'' then
        if cc = ch CHR ''-'' then Some (tokMinusMinus, 0, 2)
        else if cc = ch CHR ''>'' then Some (tokLArrow, 0, 2)
        else IF_ELSE cc CHR ''='' tokMinisAssign tokMinus
      else if c = ch CHR ''|'' then
        if cc = ch CHR ''|'' then Some (tokLOr, 0, 2) else IF_ELSE cc CHR ''='' tokBitOrAssign tokBitOr
      else if c = ch CHR ''&'' then
        if cc = ch CHR ''&'' then Some (tokLAnd, 0, 2) else IF_ELSE cc CHR ''='' tokBitAndAssign tokBitAnd
      else if c = ch CHR ''^'' then IF_ELSE cc CHR ''='' tokBitXorAssign tokBitOr
      else if c = ch CHR ''~'' then IF_ELSE cc CHR ''='' tokCompAssign tokComplement
      else if c = ch CHR ''>'' then IF_ELSE2 cc ccc CHR ''>'' CHR ''='' tokSarAssign tokSar tokGt
      else if c = ch CHR ''<'' then
        if cc = ch CHR ''-'' then Some (tokLArrow, 0, 2)
        else IF_ELSE2 cc ccc CHR ''<'' CHR ''='' tokSalAssign tokSal tokLt
      else if c = ch CHR ''='' then IF_ELSE cc CHR ''='' tokEqual tokAssign
      else if c = ch CHR ''.'' then
        if isdigit cc then None else IF_ELSE2 cc ccc CHR ''.'' CHR ''.'' tokElipsis tokDotDot tokDot
      else if c = ch CHR '':'' then IF_ELSE cc CHR '':'' tokDColon tokColon
      else if c = ch CHR ''!'' then ADD tokNot
      else if c = ch CHR ''{'' then ADD tokLBrace
      else if c = ch CHR ''['' then ADD tokLBracket
      else if c = ch CHR '']'' then ADD tokRBracket
      else if c = ch CHR ''('' then ADD tokLParen
      else if c = ch CHR '')'' then ADD tokRParen
      else if c = ch CHR ''@'' then ADD tokAt
      else if c = ch CHR ''#'' then ADD tokHash
      else if c = ch CHR ''?'' then ADD tokQuestion
      else if c = ch CHR 0x60 then ADD tokBackquote
      else if c = ch CHR '';'' then ADD tokSemicolon
      else if c = ch CHR '','' then ADD tokComma
      else if c = ch CHR ''$'' then ADD tokDollar
      else if c = ch CHR 0x5C then ADD tokBackSlash
      else None)"

definition Lexer_tokenize :: "LexEnv \<Rightarrow> Token \<Rightarrow> Lexer \<Rightarrow> lexed option" where
  "Lexer_tokenize E out lX =
     (let c = Lexer_peek 0 lX; cc = Lexer_peek 1 lX; ccc = Lexer_peek 2 lX; pos = Lexer_mark lX in
      case Lexer_operator c cc ccc of
        Some (t, pre, n) \<Rightarrow>
          let lX = advance pre lX
          in Some (token_end (Op t) (p_idx pos) (lx_idx lX) (p_coord pos) out (advance n lX))
      | None \<Rightarrow>
          if c = ch CHR ''/'' then Some (Lexer_tokComment out lX)
          else if c = ch CHR ''.'' then Some (Lexer_tokNumber E out lX)
          else if c = ch CHR ''}'' then
            if lx_in_str lX then Some (Lexer_tokString E pos out (advance 1 lX))
            else Some (token_end (Op tokRBrace) (p_idx pos) (lx_idx lX) (p_coord pos) out (advance 1 lX))
          else if c = ch CHR 0x27 then Lexer_tokChar out lX
          else if c = ch CHR 0x22 then Some (Lexer_tokString E pos out (advance 1 lX))
          else if c = ch CHR ''f'' then
            if cc = ch CHR 0x22 then
              let lX = lX\<lparr>lx_in_str := True\<rparr>
              in Some (token_end tokLStrExpr (p_idx pos) (lx_idx lX) (p_coord pos) out (advance 1 lX))
            else Some (Lexer_tokIdent out lX)
          else if isdigit c then Some (Lexer_tokNumber E out lX)
          else if c = ch CHR ''_'' \<or> islower c \<or> isupper c then Some (Lexer_tokIdent out lX)
          else if c = EOF then Some (Inr (tokEoF, out, lX))
          else Some (Inr (tokCOUNT, out,
                 Log_error (p_idx pos) (lx_idx lX) (p_coord pos) ''unexpected character in source'' (advance 1 lX))))"

text \<open>Skipping blanks, with the token of the first newline.\<close>

function skip_space :: "Token \<Rightarrow> Lexer \<Rightarrow> lex_stop + (Token \<times> Lexer)" where
  "skip_space out lX =
     (if lx_idx lX < length (lx_text lX) \<and> isspace (lx_text lX ! lx_idx lX) then
        let c = lx_text lX ! lx_idx lX; lX = Lexer_updatePos c lX in
        bnd (if tk_kind out = tokCOUNT \<and> c = ch CHR 0x0A
             then Lexer_updateToken lX out tokNl (lx_idx lX) (lx_idx lX) (lx_pos lX) else Inr out) (\<lambda>out.
          skip_space out (lX\<lparr>lx_idx := lx_idx lX + 1\<rparr>))
      else Inr (out, lX))"
  by auto
termination
  by (relation "measure (\<lambda>(out, lX). length (lx_text lX) - lx_idx lX)") (auto simp: updatePos_eq)

declare skip_space.simps [simp del]

partial_function (option) Lexer_next :: "LexEnv \<Rightarrow> Lexer \<Rightarrow> lexed option" where
  "Lexer_next E lX =
     (case Lexer_updateToken lX Token_zero tokCOUNT (lx_idx lX) (lx_idx lX) (lx_pos lX) of
        Inl e \<Rightarrow> Some (Inl e)
      | Inr out \<Rightarrow>
          if tk_kind (lx_next lX) \<noteq> tokCOUNT then Some (Inr (Lexer_resetNext lX))
          else
            case skip_space out lX of
              Inl e \<Rightarrow> Some (Inl e)
            | Inr (out, lX) \<Rightarrow>
                if tk_kind out \<noteq> tokCOUNT then Some (Inr (tk_kind out, out, lX))
                else
                  Option.bind (Lexer_tokenize E out lX) (\<lambda>r.
                    case r of
                      Inl e \<Rightarrow> Some (Inl e)
                    | Inr (kind, out, lX) \<Rightarrow>
                        if kind = tokCOUNT then Lexer_next E lX else Some (Inr (kind, out, lX))))"

declare Lexer_next.simps [code]

end
