(* ===== verification/Cyn_LexUse.thy ===== *)
theory Cyn_LexUse
  imports Cyn_LexToken
begin

unbundle bit_operations_syntax

text \<open>
  What the lexer promises: it moves forward, its position belongs to its index, the tokens have
  ranges in the source and values of their kind, and the sequence of tokens ends unless a character
  literal is not closed.
\<close>

section \<open>Results of the token functions\<close>

text \<open>The value that belongs to a kind. A float has the value kind of an integer.\<close>

definition value_ok :: "TokenKind \<Rightarrow> TokenValue \<Rightarrow> bool" where
  "value_ok k v \<longleftrightarrow>
     (case k of
        tokChar \<Rightarrow> \<exists>c. v = \<lparr>v_kind = vkdChar, v_union = UChar c\<rparr>
      | tokString \<Rightarrow> \<exists>s. v = \<lparr>v_kind = vkdString, v_union = UString s\<rparr>
      | tokInteger \<Rightarrow> \<exists>n. v = \<lparr>v_kind = vkdInt, v_union = UInt n\<rparr>
      | tokFloat \<Rightarrow> \<exists>d. v = \<lparr>v_kind = vkdInt, v_union = UFloat d\<rparr>
      | Kw w \<Rightarrow> (w = tokTrue \<longrightarrow> v = \<lparr>v_kind = vkdBool, v_union = UBool True\<rparr>) \<and>
          (w = tokFalse \<longrightarrow> v = \<lparr>v_kind = vkdBool, v_union = UBool False\<rparr>)
      | _ \<Rightarrow> True)"

text \<open>The coordinates of a newline token are those behind it.\<close>

definition tok_ok :: "TokenKind \<Rightarrow> Token \<Rightarrow> Lexer \<Rightarrow> bool" where
  "tok_ok k t lX \<longleftrightarrow> (k \<noteq> tokEoF \<longrightarrow> tk_kind t = k) \<and> value_ok k (tk_value t) \<and>
     r_source (tk_range t) = Some (lx_source lX) \<and> r_start (tk_range t) \<le> r_end (tk_range t) \<and>
     r_end (tk_range t) \<le> lx_idx lX \<and>
     (k \<noteq> tokNl \<longrightarrow> r_coord (tk_range t) = line_column (take (r_start (tk_range t)) (lx_text lX)))"

definition next_ok :: "Lexer \<Rightarrow> bool" where
  "next_ok lX \<longleftrightarrow> tk_kind (lx_next lX) = tokCOUNT \<or>
     tk_kind (lx_next lX) = tokRStrExpr \<and> tok_ok tokRStrExpr (lx_next lX) lX"

definition good :: "Lexer \<Rightarrow> bool" where
  "good lX \<longleftrightarrow> lx_idx lX \<le> length (lx_text lX) \<and> pos_ok lX"

definition lexer_ok :: "Lexer \<Rightarrow> bool" where
  "lexer_ok lX \<longleftrightarrow> good lX \<and> next_ok lX"

definition same_source :: "Lexer \<Rightarrow> Lexer \<Rightarrow> bool" where
  "same_source a b \<longleftrightarrow> lx_text b = lx_text a \<and> lx_source b = lx_source a \<and> lx_keywords b = lx_keywords a"

definition lexed_ok :: "Lexer \<Rightarrow> lexed \<Rightarrow> bool" where
  "lexed_ok a r \<longleftrightarrow> (case r of Inl _ \<Rightarrow> True | Inr (k, t, b) \<Rightarrow> same_source a b \<and> lexer_ok b \<and>
     (if k = tokEoF then lx_idx a \<le> lx_idx b else lx_idx a < lx_idx b) \<and> (k \<noteq> tokCOUNT \<longrightarrow> tok_ok k t b))"

lemma lexed_Inl [simp, intro]: "lexed_ok a (Inl e)"
  by (simp add: lexed_ok_def)

lemma good_ahead: "good a \<Longrightarrow> ahead a b \<Longrightarrow> good b \<and> lx_idx a \<le> lx_idx b"
  unfolding good_def ahead_def by auto

lemma lexed_count:
  assumes "good a" "tk_kind (lx_next a) = tokCOUNT" "ahead a b" "lx_idx a < lx_idx b"
  shows "lexed_ok a (Inr (tokCOUNT, t, b))"
  using assms good_ahead [OF assms(1,3)] ahead_text [OF assms(3)]
  by (auto simp: lexed_ok_def lexer_ok_def next_ok_def same_source_def)

lemma lexed_end:
  assumes "good a" "tk_kind (lx_next a) = tokCOUNT" "ahead a b" "lx_idx a < lx_idx b"
    "e \<le> lx_idx b" "value_ok k (tk_value t)" "k \<noteq> tokEoF"
  shows "lexed_ok a (token_end k (lx_idx a) e (lx_pos a) t b)"
  using assms good_ahead [OF assms(1,3)] ahead_text [OF assms(3)]
  by (auto simp: lexed_ok_def lexer_ok_def next_ok_def same_source_def token_end_def Lexer_updateToken_def
      Range_update_def tok_ok_def good_def pos_ok_def)

lemma value_ok_simps [simp]:
  "value_ok (Op x) v" "value_ok tokIdentifier v" "value_ok tokComment v" "value_ok tokLStrExpr v" "value_ok tokRStrExpr v"
  "value_ok tokNl v" "value_ok tokEoF v"
  "value_ok tokChar (tk_value (Token_setChar c t))" "value_ok tokString (tk_value (Token_setString s t))"
  "value_ok tokInteger (tk_value (Token_setInt n t))" "value_ok tokFloat (tk_value (Token_setFloat d t))"
  by (simp_all add: value_ok_def Token_setChar_def Token_setString_def Token_setInt_def Token_setFloat_def)

section \<open>Progress\<close>

lemma while_progress:
  assumes "lx_idx lX < length (lx_text lX)" "func (Lexer_peek 0 lX)"
  shows "lx_idx lX < lx_idx (advance_while func lX)"
proof -
  have "advance_while func lX = advance_while func (advance 1 lX)"
    using assms by (simp add: advance_while.simps [of func lX])
  moreover have "lx_idx (advance 1 lX) \<le> lx_idx (advance_while func (advance 1 lX))"
    using ahead_idx [OF ahead_while, of "advance 1 lX" func] assms(1) by simp
  ultimately show ?thesis using assms(1) by simp
qed

lemma parse_ok:
  assumes "good a" "tk_kind (lx_next a) = tokCOUNT" "ahead a b" "lx_idx a < lx_idx b"
  shows "lexed_ok a (Lexer_parseInteger (Lexer_mark a) base t b)"
  using assms by (auto simp: Lexer_parseInteger_def Lexer_mark_def Let_def split: prod.split
      intro!: lexed_count lexed_end)

lemma float_end_ok:
  assumes "good a" "tk_kind (lx_next a) = tokCOUNT" "ahead a b" "lx_idx a < lx_idx b"
  shows "lexed_ok a (float_end E (Lexer_mark a) t b)"
proof -
  have b: "ahead a (Lexer_eatWhile isdigit b)" using assms(3) ahead_eatWhile ahead_trans by blast
  have "good b" using assms good_ahead by blast
  with assms(4) have "lx_idx a < lx_idx (Lexer_eatWhile isdigit b)"
    using ahead_idx [OF ahead_eatWhile [of b isdigit]] by (simp add: good_def)
  with b assms(1,2) show ?thesis
    by (auto simp: float_end_def Lexer_mark_def Let_def split: prod.split intro!: lexed_count lexed_end)
qed

lemma upper_not_EOF: "toupper c = x \<Longrightarrow> x \<noteq> EOF \<Longrightarrow> c \<noteq> EOF"
  by (auto simp: toupper_def islower_def EOF_def)

lemma float_ok:
  assumes "good a" "tk_kind (lx_next a) = tokCOUNT" "ahead a b"
  shows "lexed_ok a (Lexer_tokFloatingPoint E (Lexer_mark a) t b)"
proof (cases "toupper (Lexer_peek 0 b) \<in> {ch CHR ''.'', ch CHR ''E'', ch CHR ''P''}")
  case True
  then have "Lexer_peek 0 b \<noteq> EOF"
    by (auto dest: upper_not_EOF simp: EOF_def)
  then have l: "lx_idx b < length (lx_text b)" using peek_EOF [of 0 b] by simp
  then have p: "lx_idx a < lx_idx (advance n b)" if "n > 0" for n
    using good_ahead [OF assms(1,3)] that by simp
  have p2: "lx_idx a < lx_idx (advance m (advance n b))" if "n > 0" for m n
    using p [OF that] l by (simp add: min_def split: if_splits)
  have "ahead a (advance 1 b)" "ahead a (advance 1 (advance 1 b))" using assms(3) by blast+
  with True show ?thesis
    unfolding Lexer_tokFloatingPoint_def Let_def
    using p [of 1] p2 [of 1 1] assms(1,2)
    by (auto simp del: advance_fields(4) simp: Lexer_mark_def intro!: lexed_count float_end_ok [unfolded Lexer_mark_def])
qed (simp add: Lexer_tokFloatingPoint_def Let_def)

lemma while_ok:
  assumes "good a" "ahead a b" "lx_idx b < length (lx_text b)" "func (Lexer_peek 0 b)"
  shows "ahead a (advance_while func b)" "lx_idx a < lx_idx (advance_while func b)"
  using assms while_progress [of b func] good_ahead [OF assms(1,2)] ahead_trans [OF assms(2) ahead_while] by auto

lemma while_later:
  assumes "good a" "ahead a b" "lx_idx a < lx_idx b"
  shows "ahead a (advance_while func b)" "lx_idx a < lx_idx (advance_while func b)"
  using assms(3) good_ahead [OF assms(1,2)] good_ahead [OF _ ahead_while [of b func]] ahead_trans [OF assms(2) ahead_while]
  by auto

lemma eat_later:
  assumes "good a" "ahead a b" "lx_idx a < lx_idx b"
  shows "ahead a (Lexer_eatWhile func b)" "lx_idx a < lx_idx (Lexer_eatWhile func b)"
  using assms(3) good_ahead [OF assms(1,2)] good_ahead [OF _ ahead_eatWhile [of b func]] ahead_trans [OF assms(2) ahead_eatWhile]
  by auto

lemma advance_later:
  assumes "good a" "ahead a b" "lx_idx a < lx_idx b"
  shows "ahead a (advance n b)" "lx_idx a < lx_idx (advance n b)"
  using assms(3) good_ahead [OF assms(1,2)] good_ahead [OF _ ahead_advance [of b n]] ahead_trans [OF assms(2) ahead_advance]
  by auto

lemma advance_first:
  assumes "lx_idx a < length (lx_text a)" "0 < n"
  shows "lx_idx a < lx_idx (advance n a)"
  using assms by simp

lemma pos2: "0 < (2 :: nat)"
  by simp

lemma number_ok:
  assumes "good a" "tk_kind (lx_next a) = tokCOUNT" "lx_idx a < length (lx_text a)"
  shows "lexed_ok a (Lexer_tokHexNumber E t a)" "lexed_ok a (Lexer_tokBinaryNumber t a)"
    "isoct (Lexer_peek 0 a) \<Longrightarrow> lexed_ok a (Lexer_tokOctalNumber E t a)"
    "isdigit (Lexer_peek 0 a) \<or> Lexer_peek 0 a = ch CHR ''.'' \<Longrightarrow> lexed_ok a (Lexer_tokDecimalNumber E t a)"
proof -
  note adv = ahead_advance [of a 2] advance_first [OF assms(3) pos2]
  note wh = while_later [OF assms(1) adv]
  show "lexed_ok a (Lexer_tokHexNumber E t a)"
    unfolding Lexer_tokHexNumber_def Let_def using float_ok [OF assms(1,2) wh(1)] parse_ok [OF assms(1,2) wh] by simp
  show "lexed_ok a (Lexer_tokBinaryNumber t a)"
    unfolding Lexer_tokBinaryNumber_def Let_def
    using parse_ok [OF assms(1,2) wh] lexed_count [OF assms(1,2)] eat_later [OF assms(1) wh] by simp
  show "lexed_ok a (Lexer_tokOctalNumber E t a)" if o: "isoct (Lexer_peek 0 a)"
  proof -
    note w1 = while_ok [OF assms(1) ahead_refl assms(3), of isoct, OF o]
    note w2 = while_later [OF assms(1) w1, of isdigit]
    show ?thesis
      unfolding Lexer_tokOctalNumber_def Let_def
      using parse_ok [OF assms(1,2) w1] float_ok [OF assms(1,2) w2(1)] lexed_count [OF assms(1,2)] w2 by simp
  qed
  show "lexed_ok a (Lexer_tokDecimalNumber E t a)" if d: "isdigit (Lexer_peek 0 a) \<or> Lexer_peek 0 a = ch CHR ''.''"
  proof (cases "isdigit (Lexer_peek 0 a)")
    case True
    note w1 = while_ok [OF assms(1) ahead_refl assms(3), of isdigit, OF True]
    show ?thesis
      unfolding Lexer_tokDecimalNumber_def Let_def
      using parse_ok [OF assms(1,2) w1] float_ok [OF assms(1,2) w1(1)] by simp
  next
    case False
    then have "advance_while isdigit a = a" "Lexer_peek 0 a = ch CHR ''.''"
      using d by (simp_all add: advance_while.simps [of isdigit a])
    then show ?thesis
      unfolding Lexer_tokDecimalNumber_def Let_def
      using float_ok [OF assms(1,2) ahead_refl] by simp
  qed
qed

lemma tokNumber_ok:
  assumes "good a" "tk_kind (lx_next a) = tokCOUNT" "lx_idx a < length (lx_text a)"
    "isdigit (Lexer_peek 0 a) \<or> Lexer_peek 0 a = ch CHR ''.''"
  shows "lexed_ok a (Lexer_tokNumber E t a)"
  using number_ok [OF assms(1-3)] assms(4) float_ok [OF assms(1,2) ahead_advance, of E t 1]
  by (auto simp: Lexer_tokNumber_def Let_def isoct_def)

lemma ident_ok:
  assumes "good a" "tk_kind (lx_next a) = tokCOUNT" "lx_idx a < length (lx_text a)" "isident (Lexer_peek 0 a)"
    and kw: "\<And>s k. Map_get (lx_keywords a) s = Some k \<Longrightarrow> (\<exists>w. k = Kw w) \<or> (\<exists>w. k = Op w)"
  shows "lexed_ok a (Lexer_tokIdent t a)"
proof -
  note w = while_ok [OF assms(1) ahead_refl assms(3), of isident, OF assms(4)]
  have k: "lx_keywords (advance_while isident a) = lx_keywords a" using ahead_text [OF w(1)] by simp
  show ?thesis
  proof (cases "Map_get (lx_keywords a) (slice (lx_idx a) (lx_idx (advance_while isident a)) (advance_while isident a))")
    case None
    with w assms(1,2) k show ?thesis
      by (auto simp: Lexer_tokIdent_def Let_def Lexer_mark_def intro!: lexed_end)
  next
    case (Some q)
    from kw [OF this] have "q \<noteq> tokEoF" by auto
    moreover have "value_ok q (tk_value (if q = Kw tokTrue \<or> q = Kw tokFalse then Token_setBool (q = Kw tokTrue) t else t))"
      using kw [OF Some] by (auto simp: value_ok_def Token_setBool_def)
    ultimately show ?thesis
      using Some w assms(1,2) k by (auto simp: Lexer_tokIdent_def Let_def Lexer_mark_def intro!: lexed_end)
  qed
qed

lemma ahead_comment: "ahead lX (snd (comment_loop m l lX))"
proof (induction "length (lx_text lX) - lx_idx lX" arbitrary: l lX rule: less_induct)
  case less
  have "ahead lX (snd (comment_loop m l' (advance 1 lX)))" "ahead lX (snd (comment_loop m l' (advance 1 (advance 1 lX))))"
    if "Lexer_peek 0 lX \<noteq> EOF" for l'
  proof -
    have "ahead (advance 1 lX) (snd (comment_loop m l' (advance 1 lX)))"
      "ahead (advance 1 (advance 1 lX)) (snd (comment_loop m l' (advance 1 (advance 1 lX))))"
      by (rule less; use peek_EOF [OF that] in simp)+
    then show "ahead lX (snd (comment_loop m l' (advance 1 lX)))" "ahead lX (snd (comment_loop m l' (advance 1 (advance 1 lX))))"
      using ahead_trans [OF ahead_advance] ahead_trans [OF ahead_advance [of lX 1] ahead_advance] by blast+
  qed
  then show ?case
    by (subst comment_loop.simps) (auto simp: Let_def intro: ahead_advance')
qed

lemma comment_ok:
  assumes "good a" "tk_kind (lx_next a) = tokCOUNT" "lx_idx a < length (lx_text a)"
  shows "lexed_ok a (Lexer_tokComment t a)"
proof -
  have 1: "ahead a (advance 1 a)" "lx_idx a < lx_idx (advance 1 a)" using assms(3) by simp_all
  note 2 = advance_later [OF assms(1) 1, of 1]
  define r where "r = (if Lexer_peek 0 (advance 1 a) \<noteq> EOF
    then comment_loop (Lexer_peek 0 (advance 1 a) = ch CHR ''*'') 1 (advance 1 (advance 1 a)) else (1, advance 1 (advance 1 a)))"
  have r: "ahead (advance 1 (advance 1 a)) (snd r)" using ahead_comment by (simp add: r_def del: advance_fields)
  then have 3: "ahead a (snd r)" "lx_idx a < lx_idx (snd r)"
    using 2 good_ahead [OF _ r] good_ahead [OF assms(1) 2(1)] ahead_trans [OF 2(1) r] by auto
  then show ?thesis
    unfolding Lexer_tokComment_def Let_def r_def [symmetric]
    using assms(1,2) by (auto simp: Lexer_mark_def split: prod.split intro!: lexed_count lexed_end)
qed

section \<open>Strings and characters\<close>

lemma ahead_log_left [simp]: "ahead (Log_error s e c f a) b \<longleftrightarrow> ahead a b"
  by (simp add: Log_error_def)

lemma ahead_string: "string_loop E os lX = Inr (c, os', b) \<Longrightarrow> ahead lX b"
proof (induction "length (lx_text lX) - lx_idx lX" arbitrary: os lX rule: less_induct)
  case less
  note IH = less(1) and prem = less(2)
  let ?c = "Lexer_peek 0 lX" and ?l = "advance 1 lX"
  consider "?c = EOF \<or> ?c = ch CHR 0x0A" | "?c = ch CHR 0x22"
    | "?c \<noteq> EOF" "?c \<noteq> ch CHR 0x22" "?c \<noteq> ch CHR 0x0A" "lx_in_str ?l \<and> ?c = ch CHR ''$'' \<and> Lexer_peek 0 ?l = ch CHR ''{''"
    | "?c \<noteq> EOF" "?c \<noteq> ch CHR 0x22" "?c \<noteq> ch CHR 0x0A" "\<not> (lx_in_str ?l \<and> ?c = ch CHR ''$'' \<and> Lexer_peek 0 ?l = ch CHR ''{'')" "?c \<noteq> ch CHR 0x5C"
    | "?c \<noteq> EOF" "?c \<noteq> ch CHR 0x22" "?c \<noteq> ch CHR 0x0A" "\<not> (lx_in_str ?l \<and> ?c = ch CHR ''$'' \<and> Lexer_peek 0 ?l = ch CHR ''{'')" "?c = ch CHR 0x5C"
    by blast
  then show ?case
  proof cases
    case 4
    then have "string_loop E (os @ [?c]) ?l = Inr (c, os', b)"
      using prem by (subst (asm) string_loop.simps) (auto simp: Let_def split: if_splits)
    with IH [of ?l] peek_EOF [OF 4(1)] have "ahead ?l b" by simp
    then show ?thesis by (rule ahead_trans [OF ahead_advance])
  next
    case 5
    then obtain q l2 where q: "Lexer_tokEscapedChar True ?l = Inr (q, l2)"
      using prem by (subst (asm) string_loop.simps) (auto simp: Let_def simp del: advance_fields)
    have s: "length (lx_text l2) - lx_idx l2 < length (lx_text lX) - lx_idx lX"
      using escaped_shorter [of True lX q l2] q 5(5) by simp
    let ?w = "\<lambda>os l. string_loop E os l = Inr (c, os', b)"
    from prem [unfolded string_loop.simps [of E os lX]] 5 q
    have "(\<exists>os2. ?w os2 l2) \<or> (\<exists>os2 s e p f. ?w os2 (Log_error s e p f l2))"
      by (auto simp: Let_def simp del: advance_fields split: if_splits option.splits; blast)
    then obtain os2 l3 where "?w os2 l3" and l3: "lx_text l3 = lx_text l2" "lx_idx l3 = lx_idx l2" "ahead l3 b \<longleftrightarrow> ahead l2 b"
      by (metis log_fields(1,2) ahead_log_left)
    with IH [of l3 os2] s have "ahead l2 b" by simp
    moreover have "ahead lX l2" using ahead_escaped [OF q] ahead_trans [OF ahead_advance ahead_advance] ahead_trans by blast
    ultimately show ?thesis by (rule ahead_trans [rotated])
  qed (use prem in \<open>auto simp: string_loop.simps [of E os lX] Let_def EOF_def\<close>)
qed

lemma string_ok:
  assumes "good a" "tk_kind (lx_next a) = tokCOUNT" "ahead a b" "lx_idx a < lx_idx b"
  shows "lexed_ok a (Lexer_tokString E (Lexer_mark a) t b)"
proof (cases "string_loop E [] b")
  case (Inr r)
  then obtain c os l where r: "string_loop E [] b = Inr (c, os, l)" by (cases r) auto
  have l: "ahead a l" "lx_idx a < lx_idx l"
    using ahead_string [OF r] assms(3,4) good_ahead [OF assms(1,3)] good_ahead [OF _ ahead_string [OF r]] ahead_trans [OF assms(3)]
    by fastforce+
  let ?e = "Lexer_eatUntilAnyOf [ch CHR 0x22, ch CHR 0x0A] l"
  have e: "ahead a ?e" "lx_idx a < lx_idx ?e" unfolding Lexer_eatUntilAnyOf_def by (rule eat_later [OF assms(1) l])+
  note adv = advance_later [OF assms(1) l, of 1]
  have n: "lx_next (advance 1 l) = lx_next a" using ahead_text [OF adv(1)] by simp
  have eadv: "ahead a (advance 1 (Log_error s x p f ?e))" "lx_idx a < lx_idx (advance 1 (Log_error s x p f ?e))" for s x p f
    by (rule advance_later [OF assms(1)]; use e in simp)+
  show ?thesis
  proof (cases "\<not> lx_in_str l \<and> c \<noteq> ch CHR 0x22")
    case True
    then have "\<exists>b'. Lexer_tokString E (Lexer_mark a) t b = Inr (tokCOUNT, t, b') \<and> ahead a b' \<and> lx_idx a < lx_idx b'"
      using r e eadv by (auto simp: Lexer_tokString_def Let_def simp del: advance_fields)
    with lexed_count [OF assms(1,2)] show ?thesis by auto
  next
    case False
    let ?b = "advance 1 l"
    let ?str = "token_end tokString (lx_idx a) (lx_idx ?b) (lx_pos a) (Token_setString os t) ?b"
    have str: "lexed_ok a ?str" using lexed_end [OF assms(1,2) adv order_refl] by simp
    have rstr: "lexed_ok a (token_end tokRStrExpr (lx_idx a) (lx_idx ?b) (lx_pos a) t ?b)" for t
      using lexed_end [OF assms(1,2) adv order_refl] by simp
    have cnt: "lexed_ok a (Inr (tokCOUNT, t, ?b))" using lexed_count [OF assms(1,2) adv] by simp
    have le: "lx_idx a \<le> lx_idx ?b" using adv(2) by simp
    obtain n1 where n1: "Lexer_updateToken ?b (lx_next ?b) tokRStrExpr (lx_idx a) (lx_idx ?b) (lx_pos a) = Inr n1"
      "tk_kind n1 = tokRStrExpr" "tok_ok tokRStrExpr n1 ?b"
      using rstr [of "lx_next ?b"] le by (auto simp: token_end_def lexed_ok_def Lexer_updateToken_def Range_update_def)
    have 2: "lexed_ok a (Inr (tokString, t2, ?b\<lparr>lx_next := n1\<rparr>))" if "?str = Inr (tokString, t2, ?b)" for t2
      using str that n1(2,3) by (auto simp: lexed_ok_def lexer_ok_def next_ok_def tok_ok_def good_def pos_ok_def same_source_def)
    obtain t2 where t2: "?str = Inr (tokString, t2, ?b)"
      using le by (auto simp: token_end_def Lexer_updateToken_def Range_update_def)
    from False show ?thesis
      unfolding Lexer_tokString_def Let_def r
      using cnt rstr n1(1) 2 [OF t2] str t2
      by (simp add: Lexer_mark_def del: advance_fields) (use False in auto)
  qed
qed (simp add: Lexer_tokString_def)

lemma ahead_quote:
  "skip_to_quote c lX = Some b \<Longrightarrow> ahead lX b"
  by (erule skip_to_quote.raw_induct [where P = "\<lambda>c lX b. ahead lX b", rotated])
    (auto simp: Let_def split: if_splits intro: ahead_trans [OF ahead_advance])

lemma char_ok:
  assumes "good a" "tk_kind (lx_next a) = tokCOUNT" "lx_idx a < length (lx_text a)" "Lexer_tokChar t a = Some r"
  shows "lexed_ok a r"
proof -
  have 1: "ahead a (advance 2 a)" "lx_idx a < lx_idx (advance 2 a)" using assms(3) by simp_all
  define x where "x = (if Lexer_peek 1 a = ch CHR 0x5C then Lexer_tokEscapedChar False (advance 2 a)
    else Inr (ucast (Lexer_peek 1 a) :: u32, advance 2 a))"
  note A = assms(4) [unfolded Lexer_tokChar_def Let_def, folded x_def]
  show ?thesis
  proof (cases x)
    case (Inl e)
    then show ?thesis using A by auto
  next
    case (Inr p)
    obtain q b where p: "x = Inr (q, b)" using Inr by (cases p) auto
    have s: "ahead (advance 2 a) b"
    proof (cases "Lexer_peek 1 a = ch CHR 0x5C")
      case True
      with p have "Lexer_tokEscapedChar False (advance 2 a) = Inr (q, b)" by (simp add: x_def)
      from ahead_trans [OF ahead_advance ahead_escaped [OF this]] show ?thesis .
    next
      case False
      with p show ?thesis by (simp add: x_def)
    qed
    from good_ahead [OF _ s] good_ahead [OF assms(1) 1(1)] 1(2) have "lx_idx a < lx_idx b" by linarith
    with ahead_trans [OF 1(1) s] have b: "ahead a b" "lx_idx a < lx_idx b" by blast+
    have fin: "lexed_ok a (if Lexer_peek 0 l \<noteq> ch CHR 0x27 then
              let lX = Lexer_eatUntilAnyOf [ch CHR 0x0A, ch CHR 0x27] l in
              if Lexer_peek 0 lX = ch CHR 0x27 then
                let lX = advance 1 lX in
                Inr (tokCOUNT, t, Log_error (lx_idx a) (lx_idx lX) (lx_pos a)
                       ''character literal has more than 1 character'' lX)
              else
                Inr (tokCOUNT, t, Log_error (lx_idx a) (lx_idx lX) (lx_pos a)
                       ''unterminated character sequence'' lX)
            else
              token_end tokChar (lx_idx a) (lx_idx l) (lx_pos a) (Token_setChar chr t) (advance 1 l))"
      if l: "ahead a l" "lx_idx a < lx_idx l" for l chr
    proof -
      let ?e = "Lexer_eatUntilAnyOf [ch CHR 0x0A, ch CHR 0x27] l"
      have e: "ahead a ?e" "lx_idx a < lx_idx ?e" unfolding Lexer_eatUntilAnyOf_def by (rule eat_later [OF assms(1) l])+
      note e2 = advance_later [OF assms(1) e, of 1] and l2 = advance_later [OF assms(1) l, of 1]
      have "lx_idx l \<le> lx_idx (advance 1 l)"
        using good_ahead [OF conjunct1 [OF good_ahead [OF assms(1) l(1)]] ahead_advance] by simp
      then show ?thesis
        using lexed_count [OF assms(1,2)] lexed_end [OF assms(1,2) l2] e e2 by (auto simp: Let_def simp del: advance_fields)
    qed
    show ?thesis
    proof (cases "q \<ge> 0x80")
      case True
      with A p obtain l where l: "skip_to_quote (Lexer_peek 1 a) b = Some l"
        by (auto split: bind_splits)
      from good_ahead [OF _ ahead_quote [OF l]] good_ahead [OF assms(1) b(1)] b(2) have "lx_idx a < lx_idx l" by linarith
      with ahead_trans [OF b(1) ahead_quote [OF l]] have al: "ahead a l" "lx_idx a < lx_idx l" by blast+
      from A p True l fin [OF al, unfolded Let_def] show ?thesis
        by (cases "Lexer_readRune (slice (lx_idx a + 1) (lx_idx l) l)") (auto simp: Lexer_mark_def simp del: advance_fields)
    next
      case False
      with A p fin [OF b, unfolded Let_def] show ?thesis
        by (auto simp: Lexer_mark_def simp del: advance_fields)
    qed
  qed
qed

section \<open>The tokenizer\<close>

text \<open>The keywords of the state are those of the table.\<close>

definition words_ok :: "Lexer \<Rightarrow> bool" where
  "words_ok lX \<longleftrightarrow> (\<forall>s k. Map_get (lx_keywords lX) s = Some k \<longrightarrow> (\<exists>w. k = Kw w) \<or> (\<exists>w. k = Op w))"

lemma operator_steps: "Lexer_operator c cc ccc = Some (t, pre, n) \<Longrightarrow> 0 < n"
  by (auto simp: Lexer_operator_def ADD_def IF_ELSE_def IF_ELSE2_def split: if_splits)

lemma operator_EOF: "Lexer_operator EOF cc ccc = None"
  by (simp add: Lexer_operator_def EOF_def)

lemma tokenize_ok:
  assumes "good a" "tk_kind (lx_next a) = tokCOUNT" "words_ok a" "Lexer_tokenize E t a = Some r"
    and t: "r_source (tk_range t) = Some (lx_source a)" "r_start (tk_range t) = r_end (tk_range t)"
      "r_end (tk_range t) \<le> lx_idx a" "r_coord (tk_range t) = line_column (take (r_start (tk_range t)) (lx_text a))"
  shows "lexed_ok a r"
proof (cases "Lexer_peek 0 a = EOF")
  case True
  then have "r = Inr (tokEoF, t, a)"
    using assms(4) operator_EOF by (auto simp: Lexer_tokenize_def Let_def EOF_def isdigit_def islower_def isupper_def)
  then show ?thesis
    using assms(1,2) t by (simp add: lexed_ok_def same_source_def lexer_ok_def next_ok_def tok_ok_def)
next
  case False
  then have l: "lx_idx a < length (lx_text a)" using peek_EOF [of 0 a] by simp
  have adv: "ahead a (advance n a)" "0 < n \<Longrightarrow> lx_idx a < lx_idx (advance n a)" for n using l by simp_all
  show ?thesis
  proof (cases "Lexer_operator (Lexer_peek 0 a) (Lexer_peek 1 a) (Lexer_peek 2 a)")
    case (Some op)
    then obtain x pre n where op: "Lexer_operator (Lexer_peek 0 a) (Lexer_peek 1 a) (Lexer_peek 2 a) = Some (x, pre, n)"
      by (cases op) auto
    note n = operator_steps [OF op]
    have b: "ahead a (advance n (advance pre a))" "lx_idx a < lx_idx (advance n (advance pre a))"
      "lx_idx (advance pre a) \<le> lx_idx (advance n (advance pre a))"
      using n l ahead_trans [OF ahead_advance ahead_advance] by (auto simp: min_def)
    from op assms(4) lexed_end [OF assms(1,2) b] show ?thesis
      by (auto simp: Lexer_tokenize_def Let_def Lexer_mark_def simp del: advance_fields)
  next
    case None
    note st = string_ok [OF assms(1,2) adv(1) adv(2), of 1 E t]
    have rb: "lexed_ok a (token_end (Op x) (lx_idx a) (lx_idx a) (lx_pos a) t (advance 1 a))" for x
      using l by (intro lexed_end [OF assms(1,2)]) auto
    have str: "lexed_ok a (token_end tokLStrExpr (lx_idx a) (lx_idx a) (lx_pos a) t (advance 1 (a\<lparr>lx_in_str := True\<rparr>)))"
      using ahead_advance [of "a\<lparr>lx_in_str := True\<rparr>" 1] l
      by (intro lexed_end [OF assms(1,2)]) auto
    note num = tokNumber_ok [OF assms(1,2) l, of E t] and com = comment_ok [OF assms(1,2) l, of t]
    have idt: "lexed_ok a (Lexer_tokIdent t a)" if "isident (Lexer_peek 0 a)"
      using assms(3) that by (intro ident_ok [OF assms(1,2) l]) (auto simp: words_ok_def)
    have cnt: "lexed_ok a (Inr (tokCOUNT, t, Log_error s e p f (advance 1 a)))" for s e p f
      using lexed_count [OF assms(1,2), of "Log_error s e p f (advance 1 a)"] l by simp
    have f: "islower 0x66" by (simp add: islower_def)
    show ?thesis
      using f assms(4) None False st rb str num com idt cnt char_ok [OF assms(1,2) l, of t]
      by (auto simp: Lexer_tokenize_def Let_def Lexer_mark_def isident_def isalnum_def simp del: advance_fields split: if_splits)
  qed
qed

section \<open>The next token\<close>

lemma skip_space_ok:
  "\<exists>out' b. skip_space out a = Inr (out', b) \<and> ahead a b \<and>
     (out' = out \<or> tk_kind out = tokCOUNT \<and> tk_kind out' = tokNl \<and> r_source (tk_range out') = Some (lx_source a) \<and>
        r_start (tk_range out') = r_end (tk_range out') \<and> r_end (tk_range out') < lx_idx b \<and> lx_idx a < lx_idx b)"
proof (induction "length (lx_text a) - lx_idx a" arbitrary: out a rule: less_induct)
  case less
  show ?case
  proof (cases "lx_idx a < length (lx_text a) \<and> isspace (lx_text a ! lx_idx a)")
    case True
    let ?c = "lx_text a ! lx_idx a"
    let ?b = "(Lexer_updatePos ?c a)\<lparr>lx_idx := lx_idx a + 1\<rparr>"
    let ?r = "\<lparr>r_start = lx_idx a, r_end = lx_idx a, r_coord = lx_pos (Lexer_updatePos ?c a), r_source = Some (lx_source a)\<rparr>"
    let ?o = "if tk_kind out = tokCOUNT \<and> ?c = ch CHR 0x0A then out\<lparr>tk_range := ?r, tk_kind := tokNl\<rparr> else out"
    have s: "skip_space out a = skip_space ?o ?b"
      using True by (subst skip_space.simps)
        (auto simp: Let_def updatePos_eq Lexer_updateToken_def Range_update_def)
    have ab: "ahead a ?b" using True by (auto simp: ahead_def pos_ok_def updatePos_eq take_Suc_conv_app_nth)
    have "length (lx_text ?b) - lx_idx ?b < length (lx_text a) - lx_idx a" using True by (simp add: updatePos_eq diff_less_mono2)
    from less [OF this, of ?o] obtain o2 b2 where 2: "skip_space ?o ?b = Inr (o2, b2)" "ahead ?b b2"
      "o2 = ?o \<or> tk_kind ?o = tokCOUNT \<and> tk_kind o2 = tokNl \<and> r_source (tk_range o2) = Some (lx_source ?b) \<and>
        r_start (tk_range o2) = r_end (tk_range o2) \<and> r_end (tk_range o2) < lx_idx b2 \<and> lx_idx ?b < lx_idx b2"
      by blast
    have le: "lx_idx a < lx_idx b2" using ahead_idx [OF 2(2)] True by (simp add: updatePos_eq)
    have "o2 = out \<or> tk_kind out = tokCOUNT \<and> tk_kind o2 = tokNl \<and> r_source (tk_range o2) = Some (lx_source a) \<and>
        r_start (tk_range o2) = r_end (tk_range o2) \<and> r_end (tk_range o2) < lx_idx b2 \<and> lx_idx a < lx_idx b2"
      using 2(3) le by (auto simp: updatePos_eq split: if_splits)
    with s 2(1) ahead_trans [OF ab 2(2)] show ?thesis by metis
  next
    case False
    then have "skip_space out a = Inr (out, a)" by (subst skip_space.simps) auto
    then show ?thesis by simp
  qed
qed

definition pending :: "Lexer \<Rightarrow> nat" where
  "pending lX = (if tk_kind (lx_next lX) = tokCOUNT then 0 else 1)"

definition left_over :: "Lexer \<Rightarrow> nat" where
  "left_over lX = 2 * (length (lx_text lX) - lx_idx lX) + pending lX"

text \<open>The result of \<open>Lexer_next\<close>: a proper token, with less left over unless it is the last one.\<close>

definition next_result :: "Lexer \<Rightarrow> lexed \<Rightarrow> bool" where
  "next_result a r \<longleftrightarrow> (case r of Inl _ \<Rightarrow> True | Inr (k, t, b) \<Rightarrow>
     same_source a b \<and> lexer_ok b \<and> k \<noteq> tokCOUNT \<and> tok_ok k t b \<and> (k = tokEoF \<or> left_over b < left_over a))"

lemma same_source_trans: "same_source a b \<Longrightarrow> same_source b c \<Longrightarrow> same_source a c"
  by (simp add: same_source_def)

lemma words_same: "same_source a b \<Longrightarrow> words_ok a \<Longrightarrow> words_ok b"
  by (simp add: same_source_def words_ok_def)

lemma tokenize_None:
  assumes "Lexer_tokenize E t a = None"
  shows "Lexer_peek 0 a = ch CHR 0x27 \<and> lx_idx a < length (lx_text a)"
proof -
  have "Lexer_peek 0 a = ch CHR 0x27"
    using assms by (auto simp: Lexer_tokenize_def Let_def split: option.splits if_splits)
  then show ?thesis using peek_EOF [of 0 a] by (simp add: EOF_def)
qed

lemma next_unfold:
  assumes "lexer_ok a" "words_ok a"
  obtains (pending) "tk_kind (lx_next a) = tokRStrExpr" "Lexer_next E a = Some (Inr (Lexer_resetNext a))"
  | (newline) t b where "tk_kind (lx_next a) = tokCOUNT" "Lexer_next E a = Some (Inr (tokNl, t, b))" "ahead a b"
      "tok_ok tokNl t b" "lx_idx a < lx_idx b"
  | (token) t b where "tk_kind (lx_next a) = tokCOUNT" "ahead a b" "good b" "words_ok b" "tk_kind (lx_next b) = tokCOUNT"
      "Lexer_next E a = Option.bind (Lexer_tokenize E t b) (\<lambda>r. case r of Inl e \<Rightarrow> Some (Inl e)
         | Inr (kind, out, lX) \<Rightarrow> if kind = tokCOUNT then Lexer_next E lX else Some (Inr (kind, out, lX)))"
      "\<forall>r. Lexer_tokenize E t b = Some r \<longrightarrow> lexed_ok b r"
proof (cases "tk_kind (lx_next a) = tokCOUNT")
  case False
  with assms(1) have "tk_kind (lx_next a) = tokRStrExpr" by (auto simp: lexer_ok_def next_ok_def)
  moreover have "Lexer_next E a = Some (Inr (Lexer_resetNext a))"
    using False by (subst Lexer_next.simps) (simp add: Lexer_updateToken_def Range_update_def)
  ultimately show ?thesis by (rule pending)
next
  case True
  let ?t = "Token_zero\<lparr>tk_range := \<lparr>r_start = lx_idx a, r_end = lx_idx a, r_coord = lx_pos a, r_source = Some (lx_source a)\<rparr>,
    tk_kind := tokCOUNT\<rparr>"
  obtain t b where s: "skip_space ?t a = Inr (t, b)" "ahead a b"
    "t = ?t \<or> tk_kind t = tokNl \<and> r_source (tk_range t) = Some (lx_source a) \<and>
        r_start (tk_range t) = r_end (tk_range t) \<and> r_end (tk_range t) < lx_idx b \<and> lx_idx a < lx_idx b"
    using skip_space_ok [of ?t a] by auto
  have g: "good a" using assms(1) by (simp add: lexer_ok_def)
  note gb = good_ahead [OF g s(2)]
  note tx = ahead_text [OF s(2)]
  have n: "Lexer_next E a = (if tk_kind t \<noteq> tokCOUNT then Some (Inr (tk_kind t, t, b)) else
      Option.bind (Lexer_tokenize E t b) (\<lambda>r. case r of Inl e \<Rightarrow> Some (Inl e)
         | Inr (kind, out, lX) \<Rightarrow> if kind = tokCOUNT then Lexer_next E lX else Some (Inr (kind, out, lX))))"
    using True s(1) by (subst Lexer_next.simps) (simp add: Lexer_updateToken_def Range_update_def)
  show ?thesis
  proof (cases "t = ?t")
    case False
    then have t: "tk_kind t = tokNl" using s(3) by blast
    moreover have "tok_ok tokNl t b" using False s(3) t tx by (auto simp: tok_ok_def)
    ultimately show ?thesis using newline True n s(2,3) False by simp
  next
    case eq: True
    have w: "words_ok b" using assms(2) tx by (simp add: words_ok_def)
    have nb: "tk_kind (lx_next b) = tokCOUNT" using True tx by simp
    have "\<forall>r. Lexer_tokenize E t b = Some r \<longrightarrow> lexed_ok b r"
    proof (intro allI impI)
      fix r assume "Lexer_tokenize E t b = Some r"
      from tokenize_ok [OF conjunct1 [OF gb] nb w this] show "lexed_ok b r"
        using gb tx g by (auto simp: eq good_def pos_ok_def)
    qed
    with token [OF True s(2) conjunct1 [OF gb] w nb] n show ?thesis by (simp add: eq)
  qed
qed

lemma next_ok_total:
  assumes "lexer_ok a" "words_ok a"
  shows "(\<forall>r. Lexer_next E a = Some r \<longrightarrow> next_result a r) \<and>
    (ch CHR 0x27 \<notin> set (drop (lx_idx a) (lx_text a)) \<longrightarrow> Lexer_next E a \<noteq> None)"
  using assms
proof (induction "length (lx_text a) - lx_idx a" arbitrary: a rule: less_induct)
  case less
  from less.prems show ?case
  proof (cases rule: next_unfold [where E = E])
    case pending
    let ?b = "a\<lparr>lx_next := (lx_next a)\<lparr>tk_kind := tokCOUNT\<rparr>\<rparr>"
    have "tok_ok tokRStrExpr (lx_next a) a" using less.prems(1) pending(1) by (auto simp: lexer_ok_def next_ok_def)
    then have "next_result a (Inr (Lexer_resetNext a))"
      using less.prems(1) pending(1)
      by (auto simp: next_result_def Lexer_resetNext_def Let_def same_source_def lexer_ok_def next_ok_def good_def pos_ok_def
          tok_ok_def left_over_def pending_def)
    with pending show ?thesis by simp
  next
    case (newline t b)
    have "lexer_ok b" "same_source a b" "left_over b < left_over a"
      using newline good_ahead [OF _ newline(3)] less.prems(1) ahead_text [OF newline(3)]
      by (auto simp: lexer_ok_def next_ok_def same_source_def left_over_def pending_def good_def)
    with newline show ?thesis by (simp add: next_result_def)
  next
    case (token t b)
    have ab: "same_source a b" "lx_idx a \<le> lx_idx b" "lx_idx b \<le> length (lx_text a)"
      using ahead_text [OF token(2)] good_ahead [OF _ token(2)] less.prems(1) token(3)
      by (auto simp: same_source_def lexer_ok_def good_def)
    have lb: "left_over b \<le> left_over a" using ab token(1,5) by (simp add: left_over_def pending_def same_source_def)
    show ?thesis
    proof (cases "Lexer_tokenize E t b")
      case None
      from tokenize_None [OF this] have "lx_idx b < length (lx_text a)" "lx_text a ! lx_idx b = ch CHR 0x27"
        using ab(1) by (auto simp: same_source_def Lexer_peek_def)
      then have "ch CHR 0x27 \<in> set (drop (lx_idx b) (lx_text a))"
        by (metis Cons_nth_drop_Suc list.set_intros(1))
      then have "ch CHR 0x27 \<in> set (drop (lx_idx a) (lx_text a))"
        using set_drop_subset_set_drop [OF ab(2), of "lx_text a"] by blast
      with token(6) None show ?thesis by simp
    next
      case (Some r)
      show ?thesis
      proof (cases r)
        case (Inl e)
        then show ?thesis using token(6) Some by (simp add: next_result_def)
      next
        case (Inr x)
        obtain k q c where r: "r = Inr (k, q, c)" using Inr by (cases x) auto
        have c: "same_source b c" "lexer_ok c" "if k = tokEoF then lx_idx b \<le> lx_idx c else lx_idx b < lx_idx c"
          "k \<noteq> tokCOUNT \<longrightarrow> tok_ok k q c"
          using token(7) Some r by (auto simp: lexed_ok_def)
        have ac: "same_source a c" using same_source_trans [OF ab(1) c(1)] .
        show ?thesis
        proof (cases "k = tokCOUNT")
          case True
          have "length (lx_text c) - lx_idx c < length (lx_text a) - lx_idx a"
            using c True ab ac by (auto simp: same_source_def lexer_ok_def good_def)
          from less.hyps [OF this c(2) words_same [OF ac less.prems(2)]]
          have IH: "\<forall>r. Lexer_next E c = Some r \<longrightarrow> next_result c r"
            "ch CHR 0x27 \<notin> set (drop (lx_idx c) (lx_text c)) \<longrightarrow> Lexer_next E c \<noteq> None" by blast+
          have n: "Lexer_next E a = Lexer_next E c" using token(6) Some r True by simp
          have "left_over c < left_over a"
            using c True ab ac lb by (auto simp: left_over_def pending_def same_source_def lexer_ok_def good_def split: if_splits)
          then have "next_result a r" if "next_result c r" for r
            using that same_source_trans [OF ac] by (auto simp: next_result_def split: sum.splits)
          moreover have "set (drop (lx_idx c) (lx_text c)) \<subseteq> set (drop (lx_idx a) (lx_text a))"
            using ac ab c(3) True set_drop_subset_set_drop [of "lx_idx a" "lx_idx c" "lx_text a"] by (simp add: same_source_def)
          ultimately show ?thesis using IH n by auto
        next
          case False
          have "k = tokEoF \<or> left_over c < left_over b"
            using c(1-3) by (auto simp: left_over_def pending_def same_source_def lexer_ok_def good_def split: if_splits)
          with lb have "k = tokEoF \<or> left_over c < left_over a" by linarith
          with False token(6) Some r c(1,2,4) ac show ?thesis by (auto simp: next_result_def)
        qed
      qed
    qed
  qed
qed

lemma keywords_words: "Lexer_initKeywordsMap = Some m \<Longrightarrow> Map_get m s = Some k \<Longrightarrow> (\<exists>w. k = Kw w) \<or> (\<exists>w. k = Op w)"
proof -
  assume m: "Lexer_initKeywordsMap = Some m" and s: "Map_get m s = Some k"
  from keyed.fill_empty [OF keywords_exact, of keyword_table] m have "Map_get m = map_of (rev keyword_table)"
    by (auto simp: Lexer_initKeywordsMap_def Map_set_all_fill)
  with s have "k \<in> snd ` set keyword_table"
    by (metis imageI map_of_SomeD set_rev snd_conv)
  moreover have "list_all (\<lambda>k. case k of Kw _ \<Rightarrow> True | Op _ \<Rightarrow> True | _ \<Rightarrow> False) (map snd keyword_table)"
    by (simp add: keyword_table_def TOKEN_LIST_def map_filter_simps)
  ultimately have "case k of Kw _ \<Rightarrow> True | Op _ \<Rightarrow> True | _ \<Rightarrow> False"
    by (auto simp: list_all_iff)
  then show ?thesis by (cases k) auto
qed

lemma init_ok:
  assumes "Lexer_init log erange source text = Some lX"
  shows "lexer_ok lX \<and> words_ok lX \<and> lx_text lX = text \<and> lx_idx lX = 0 \<and> lx_source lX = source \<and>
    lx_erange lX = erange \<and> tk_kind (lx_next lX) = tokCOUNT \<and> \<not> lx_in_str lX"
proof -
  obtain kw where kw: "Lexer_initKeywordsMap = Some kw" "lX = Lexer_reset source text
       \<lparr>lx_source = 0, lx_text = [], lx_next = Token_zero, lx_idx = 0, lx_pos = \<lparr>lc_line = 0, lc_column = 0\<rparr>,
        lx_in_str = False, lx_keywords = kw, lx_log = log, lx_erange = erange\<rparr>"
    using assms by (auto simp: Lexer_init_def)
  have "words_ok lX"
    unfolding words_ok_def kw(2) using keywords_words [OF kw(1)] by (simp add: Lexer_reset_def)
  then show ?thesis
    by (simp add: kw(2) Lexer_reset_def lexer_ok_def good_def next_ok_def pos_ok_def line_column_def)
qed

lemma init_total: "\<exists>lX. Lexer_init log erange source text = Some lX"
  using keyed.fill_empty [OF keywords_exact, of keyword_table]
  by (auto simp: Lexer_init_def Lexer_initKeywordsMap_def Map_set_all_fill)

section \<open>Properties\<close>

text \<open>All tokens up to the end of the source or a stop, with a bound on their number.\<close>

fun Lexer_all :: "nat \<Rightarrow> LexEnv \<Rightarrow> Lexer \<Rightarrow> ((TokenKind \<times> Token) list \<times> lex_stop option) option" where
  "Lexer_all 0 E lX = None"
| "Lexer_all (Suc n) E lX =
     (case Lexer_next E lX of
        None \<Rightarrow> None
      | Some (Inl e) \<Rightarrow> Some ([], Some e)
      | Some (Inr (k, t, lX)) \<Rightarrow>
          if k = tokEoF then Some ([(k, t)], None)
          else map_option (\<lambda>(ts, e). ((k, t) # ts, e)) (Lexer_all n E lX))"

lemma Lexer_all_ends:
  assumes "lexer_ok a" "words_ok a" "ch CHR 0x27 \<notin> set (lx_text a)" "left_over a < n"
  shows "\<exists>ts e. Lexer_all n E a = Some (ts, e) \<and> (e = None \<longrightarrow> ts \<noteq> [] \<and> fst (last ts) = tokEoF) \<and>
    length ts \<le> left_over a + 1 \<and> (\<forall>(k, t) \<in> set ts. k \<noteq> tokCOUNT \<and> (\<exists>b. same_source a b \<and> lexer_ok b \<and> tok_ok k t b))"
  using assms
proof (induction n arbitrary: a)
  case (Suc n)
  have "ch CHR 0x27 \<notin> set (drop (lx_idx a) (lx_text a))"
    using Suc.prems(3) set_drop_subset [of "lx_idx a" "lx_text a"] by blast
  with next_ok_total [OF Suc.prems(1,2), of E] obtain r where r: "Lexer_next E a = Some r" "next_result a r" by auto
  show ?case
  proof (cases r)
    case (Inl e)
    then show ?thesis using r(1) by simp
  next
    case (Inr x)
    obtain k t b where x: "r = Inr (k, t, b)" using Inr by (cases x) auto
    then have b: "same_source a b" "lexer_ok b" "k \<noteq> tokCOUNT" "tok_ok k t b" "k = tokEoF \<or> left_over b < left_over a"
      using r(2) by (auto simp: next_result_def)
    show ?thesis
    proof (cases "k = tokEoF")
      case True
      then show ?thesis using r(1) x b by auto
    next
      case False
      have "ch CHR 0x27 \<notin> set (lx_text b)" "left_over b < n"
        using Suc.prems(3,4) b(1,5) False by (simp_all add: same_source_def)
      from Suc.IH [OF b(2) words_same [OF b(1) Suc.prems(2)] this] obtain ts e where
        ts: "Lexer_all n E b = Some (ts, e)" "e = None \<longrightarrow> ts \<noteq> [] \<and> fst (last ts) = tokEoF" "length ts \<le> left_over b + 1"
          "\<forall>(k, t) \<in> set ts. k \<noteq> tokCOUNT \<and> (\<exists>c. same_source b c \<and> lexer_ok c \<and> tok_ok k t c)" by blast
      have "Lexer_all (Suc n) E a = Some ((k, t) # ts, e)" using False r(1) x ts(1) by simp
      moreover have "\<forall>(k, t) \<in> set ((k, t) # ts). k \<noteq> tokCOUNT \<and> (\<exists>b. same_source a b \<and> lexer_ok b \<and> tok_ok k t b)"
        using b(1-4) ts(4) same_source_trans [OF b(1)] by (fastforce simp: case_prod_beta)
      ultimately show ?thesis using ts(2,3) b(5) False by auto
    qed
  qed
qed simp

text \<open>
  C29. Every call of \<open>Lexer_next\<close> on a state of the lexer that returns a token returns one
  whose kind is not the internal one, whose value has the type that belongs to its kind (a float has
  the value kind of an integer), whose range lies in the source before the index, with the line and
  column of its start (nothing is said of those of a newline), and leaves a state of the lexer whose position is the
  line and column of its index.
\<close>

theorem Lexer_next_typed:
  assumes "lexer_ok lX" and "words_ok lX" and "Lexer_next E lX = Some (Inr (kind, tok, lX'))"
  shows "kind \<noteq> tokCOUNT \<and> tok_ok kind tok lX' \<and> lexer_ok lX' \<and> words_ok lX' \<and> lx_text lX' = lx_text lX \<and>
    (kind = tokEoF \<or> left_over lX' < left_over lX)"
  using next_ok_total [OF assms(1,2), of E] assms(3) words_same [OF _ assms(2)]
  by (auto simp: next_result_def same_source_def)

text \<open>
  C30. The tokens of a source without single quotes come to an end: after at most twice
  its length and two tokens the lexer has either delivered the end of file or stopped with an error,
  and all tokens delivered are well formed.
\<close>

theorem Lexer_all_tokens:
  assumes "ch CHR 0x27 \<notin> set text" and "2 * length text + 1 < n"
  shows "\<exists>lX ts e. Lexer_init log erange source text = Some lX \<and> Lexer_all n E lX = Some (ts, e) \<and>
    (e = None \<longrightarrow> ts \<noteq> [] \<and> fst (last ts) = tokEoF) \<and> length ts \<le> 2 * length text + 1 \<and>
    (\<forall>(k, t) \<in> set ts. k \<noteq> tokCOUNT \<and> (\<exists>b. same_source lX b \<and> lexer_ok b \<and> tok_ok k t b))"
proof -
  obtain lX where i: "Lexer_init log erange source text = Some lX" using init_total by blast
  note o = init_ok [OF i]
  then have "left_over lX = 2 * length text" by (simp add: left_over_def pending_def)
  with i o Lexer_all_ends [of lX n E] assms show ?thesis by auto
qed

lemma quote_hangs:
  assumes "c \<noteq> ch CHR 0x27" "ch CHR 0x27 \<notin> set (drop (Suc (lx_idx lX)) (lx_text lX))" "lx_idx lX \<le> length (lx_text lX)"
  shows "skip_to_quote c lX = None"
proof -
  have "\<not> (c \<noteq> ch CHR 0x27 \<and> ch CHR 0x27 \<notin> set (drop (Suc (lx_idx lX)) (lx_text lX)) \<and> lx_idx lX \<le> length (lx_text lX))"
    if "skip_to_quote c lX = Some b" for b
    using that
  proof (rule skip_to_quote.raw_induct [where P = "\<lambda>c lX b. \<not> (c \<noteq> ch CHR 0x27 \<and>
      ch CHR 0x27 \<notin> set (drop (Suc (lx_idx lX)) (lx_text lX)) \<and> lx_idx lX \<le> length (lx_text lX))", rotated])
    fix f :: "u8 \<Rightarrow> Lexer \<Rightarrow> Lexer option" and c lX b
    assume IH: "\<And>c lX b. f c lX = Some b \<Longrightarrow> \<not> (c \<noteq> ch CHR 0x27 \<and>
      ch CHR 0x27 \<notin> set (drop (Suc (lx_idx lX)) (lx_text lX)) \<and> lx_idx lX \<le> length (lx_text lX))"
    assume step: "(if c \<noteq> ch CHR 0x27 then let lX = advance 1 lX in f (Lexer_peek 0 lX) lX else Some lX) = Some b"
    show "\<not> (c \<noteq> ch CHR 0x27 \<and> ch CHR 0x27 \<notin> set (drop (Suc (lx_idx lX)) (lx_text lX)) \<and> lx_idx lX \<le> length (lx_text lX))"
    proof (intro notI, elim conjE)
      assume c: "c \<noteq> ch CHR 0x27" and q: "ch CHR 0x27 \<notin> set (drop (Suc (lx_idx lX)) (lx_text lX))" and l: "lx_idx lX \<le> length (lx_text lX)"
      let ?l = "advance 1 lX"
      have "Lexer_peek 0 ?l \<noteq> ch CHR 0x27"
      proof (cases "Suc (lx_idx lX) < length (lx_text lX)")
        case True
        then have "lx_text lX ! Suc (lx_idx lX) \<in> set (drop (Suc (lx_idx lX)) (lx_text lX))"
          by (metis Cons_nth_drop_Suc list.set_intros(1))
        with q True show ?thesis by (auto simp: Lexer_peek_def Let_def)
      qed (simp add: Lexer_peek_def EOF_def)
      moreover have "ch CHR 0x27 \<notin> set (drop (Suc (lx_idx ?l)) (lx_text ?l))"
      proof (cases "Suc (lx_idx lX) \<le> length (lx_text lX)")
        case True
        then show ?thesis using q set_drop_subset_set_drop [of "Suc (lx_idx lX)" "Suc (Suc (lx_idx lX))" "lx_text lX"] by auto
      qed simp
      ultimately show False using IH [of "Lexer_peek 0 ?l" ?l b] step c by (simp add: Let_def)
    qed
  qed
  then show ?thesis using assms by (cases "skip_to_quote c lX") auto
qed

text \<open>
  C33. A single quote that is the last character of the source, or is followed by a byte
  above 0x7F and no other quote, sends the lexer into a loop that does not end.
\<close>

theorem Lexer_char_hangs:
  assumes "lexer_ok lX" and "words_ok lX" and "tk_kind (lx_next lX) = tokCOUNT" and "Lexer_peek 0 lX = ch CHR 0x27"
    and "Lexer_peek 1 lX \<ge> 0x80" and "ch CHR 0x27 \<notin> set (drop (lx_idx lX + 1) (lx_text lX))"
  shows "Lexer_next E lX = None"
proof -
  have l: "lx_idx lX < length (lx_text lX)" using peek_EOF [of 0 lX] assms(4) by (simp add: EOF_def)
  have c: "lx_text lX ! lx_idx lX = ch CHR 0x27" using l assms(4) by (simp add: Lexer_peek_def)
  have q: "Lexer_peek 1 lX \<noteq> ch CHR 0x27" "Lexer_peek 1 lX \<noteq> ch CHR 0x5C" using assms(5) by (auto simp: word_le_nat_alt)
  have u: "(ucast (Lexer_peek 1 lX) :: u32) \<ge> 0x80"
  proof -
    have "unat (Lexer_peek 1 lX) < 2 ^ 8" using unsigned_less [of "Lexer_peek 1 lX"] by simp
    then show ?thesis using assms(5) by (simp add: word_le_nat_alt unsigned_ucast_eq take_bit_nat_eq_self)
  qed
  have s: "skip_to_quote (Lexer_peek 1 lX) (advance 2 lX) = None"
  proof (rule quote_hangs [OF q(1)])
    show "ch CHR 0x27 \<notin> set (drop (Suc (lx_idx (advance 2 lX))) (lx_text (advance 2 lX)))"
      using assms(6) set_drop_subset_set_drop [of "lx_idx lX + 1" "Suc (lx_idx (advance 2 lX))" "lx_text lX"] l by auto
  qed simp
  have "Lexer_tokChar t lX = None" for t
    using s q u by (simp add: Lexer_tokChar_def Let_def del: advance_fields)
  then have "Lexer_tokenize E t lX = None" for t
    using assms(4) by (simp add: Lexer_tokenize_def Lexer_operator_def isdigit_def Let_def)
  moreover have "skip_space t lX = Inr (t, lX)" for t
    using c by (subst skip_space.simps) (simp add: isspace_def)
  ultimately show ?thesis
    using assms(3) by (subst Lexer_next.simps) (simp add: Lexer_updateToken_def Range_update_def)
qed

section \<open>Integers\<close>

text \<open>A token that starts at the index.\<close>

definition start_token :: "Lexer \<Rightarrow> Token" where
  "start_token lX = Token_zero\<lparr>tk_range := \<lparr>r_start = lx_idx lX, r_end = lx_idx lX, r_coord = lx_pos lX,
     r_source = Some (lx_source lX)\<rparr>, tk_kind := tokCOUNT\<rparr>"

lemma next_direct:
  assumes "tk_kind (lx_next lX) = tokCOUNT" "lx_idx lX < length (lx_text lX)" "\<not> isspace (lx_text lX ! lx_idx lX)"
    "Lexer_tokenize E (start_token lX) lX = Some (Inr (k, tok, b))" "k \<noteq> tokCOUNT"
  shows "Lexer_next E lX = Some (Inr (k, tok, b))"
proof -
  have "skip_space t lX = Inr (t, lX)" for t
    using assms(2,3) by (subst skip_space.simps) simp
  then show ?thesis
    using assms(1,4,5) by (subst Lexer_next.simps) (simp add: Lexer_updateToken_def Range_update_def start_token_def)
qed

lemma drop_first:
  assumes "drop (lx_idx lX) (lx_text lX) = c # cs"
  shows "lx_idx lX < length (lx_text lX)" "lx_text lX ! lx_idx lX = c" "Lexer_peek 0 lX = c"
proof -
  show l: "lx_idx lX < length (lx_text lX)" using assms by (cases "lx_idx lX < length (lx_text lX)") auto
  then show "lx_text lX ! lx_idx lX = c" using hd_drop_conv_nth [OF l] assms by simp
  with l show "Lexer_peek 0 lX = c" by (simp add: Lexer_peek_def)
qed

lemma digit_cases: "isdigit c \<Longrightarrow> c \<in> {48, 49, 50, 51, 52, 53, 54, 55, 56, 57}"
  by (simp add: isdigit_def word_le_nat_alt word_unat_eq_iff) presburger

lemma operator_digit: "isdigit c \<Longrightarrow> Lexer_operator c x y = None"
  by (drule digit_cases) (elim insertE emptyE; simp add: Lexer_operator_def)

lemma dec_nat_digits: "\<forall>c \<in> set (dec_nat n). isdigit c \<and> digit_value c < 10"
proof (induction n rule: dec_nat.induct)
  case (1 n)
  have d: "isdigit (48 + of_nat k :: u8) \<and> digit_value (48 + of_nat k) < 10" if "k < 10" for k :: nat
    using that unat_digit [OF that] by (simp add: isdigit_def digit_value_def word_le_nat_alt)
  show ?case
    by (cases "n < 10") (use 1 d [of n] d [of "n mod 10"] in \<open>auto simp: dec_nat.simps [of n]\<close>)
qed

lemma dec_nat_first: "n > 0 \<Longrightarrow> \<exists>c cs. dec_nat n = c # cs \<and> c \<noteq> ch CHR ''0''"
proof (induction n rule: dec_nat.induct)
  case (1 n)
  show ?case
  proof (cases "n < 10")
    case True
    then have "unat (48 + of_nat n :: u8) \<noteq> 48" using 1 unat_digit [OF True] by simp
    then have "(48 + of_nat n :: u8) \<noteq> 48" by auto
    then show ?thesis using True by (simp add: dec_nat.simps [of n])
  next
    case False
    then have "0 < n div 10" by simp
    with 1(1) [OF False] obtain c cs where "dec_nat (n div 10) = c # cs" "c \<noteq> ch CHR ''0''" by blast
    then show ?thesis using False by (simp add: dec_nat.simps [of n])
  qed
qed

lemma dec_nat_length: "n < 10 ^ k \<Longrightarrow> 0 < k \<Longrightarrow> length (dec_nat n) \<le> k"
proof (induction k arbitrary: n)
  case (Suc k)
  show ?case
  proof (cases "n < 10")
    case False
    then have "n div 10 < 10 ^ k" "0 < k"
      using Suc.prems(1) by (auto simp: less_mult_imp_div_less intro!: gr0I)
    with Suc.IH [of "n div 10"] False show ?thesis by (simp add: dec_nat.simps [of n])
  qed (simp add: dec_nat.simps [of n])
qed simp

lemma strtoull_dec:
  assumes "n < 2 ^ 64"
  shows "strtoull 10 (dec_nat n) = (of_nat n, [], False)"
proof -
  have d: "\<forall>c \<in> set (dec_nat n). digit_value c < 10" and i: "\<forall>c \<in> set (dec_nat n). isdigit c"
    using dec_nat_digits by blast+
  have "foldl (\<lambda>n c. 10 * n + digit_value c) a (dec_nat n) = foldl (\<lambda>n c. 10 * n + (unat c - 48)) a (dec_nat n)" for a
    using i by (intro foldl_cong) (auto simp: digit_value_def)
  then have "foldl (\<lambda>n c. 10 * n + digit_value c) 0 (dec_nat n) = n"
    using dec_value_dec_nat [of n] by (simp add: dec_value_def)
  then show ?thesis
    using d assms by (simp add: strtoull_def takeWhile_eq_all_conv [THEN iffD2] dropWhile_eq_Nil_conv [THEN iffD2])
qed

lemma advance_while_run:
  assumes "lx_idx lX \<le> length (lx_text lX)" "drop (lx_idx lX) (lx_text lX) = ds @ cs" "\<forall>c \<in> set ds. func c" "cs = [] \<or> \<not> func (hd cs)"
  shows "\<exists>b. advance_while func lX = b \<and> ahead lX b \<and> lx_idx b = lx_idx lX + length ds \<and>
    lx_erange b = lx_erange lX \<and> lx_in_str b = lx_in_str lX \<and> lx_log b = lx_log lX"
  using assms
proof (induction ds arbitrary: lX)
  case Nil
  have "\<not> (lx_idx lX < length (lx_text lX) \<and> func (Lexer_peek 0 lX))"
    using Nil.prems by (auto simp: Lexer_peek_def hd_drop_conv_nth)
  then have "advance_while func lX = lX" by (subst advance_while.simps) auto
  then show ?case by simp
next
  case (Cons d ds)
  have l: "lx_idx lX < length (lx_text lX)" using Cons.prems(2) by (cases "lx_idx lX < length (lx_text lX)") auto
  have p: "Lexer_peek 0 lX = d" using hd_drop_conv_nth [OF l] Cons.prems(2) l by (simp add: Lexer_peek_def)
  have "drop (Suc (lx_idx lX)) (lx_text lX) = ds @ cs"
    using Cons.prems(2) l by (metis Cons_nth_drop_Suc append_Cons list.inject)
  moreover have "lx_idx (advance 1 lX) = Suc (lx_idx lX)" using l by simp
  ultimately have "drop (lx_idx (advance 1 lX)) (lx_text (advance 1 lX)) = ds @ cs" by simp
  from Cons.IH [OF _ this] Cons.prems(3,4) l obtain b where
    b: "advance_while func (advance 1 lX) = b" "ahead (advance 1 lX) b" "lx_idx b = lx_idx lX + 1 + length ds"
      "lx_erange b = lx_erange lX" "lx_in_str b = lx_in_str lX" "lx_log b = lx_log lX" by auto
  have "advance_while func lX = advance_while func (advance 1 lX)"
    using l p Cons.prems(3) by (subst advance_while.simps) simp
  with b ahead_trans [OF ahead_advance b(2)] show ?case by simp
qed

text \<open>
  C31. The decimal digits of a positive number below 2^64, followed by something
  that does not continue a number, are read as one integer token with this value and the range of
  the digits, provided that no earlier number was out of range: the lexer tests \<open>errno\<close> but never resets it, so
  after such a number every other is an error.
\<close>

theorem Lexer_integer_round_trip:
  assumes "lexer_ok lX" and "tk_kind (lx_next lX) = tokCOUNT" and "\<not> lx_erange lX" and "0 < n" and "n < 2 ^ 64"
    and "drop (lx_idx lX) (lx_text lX) = dec_nat n @ cs"
    and "cs = [] \<or> \<not> isdigit (hd cs) \<and> hd cs \<notin> {ch CHR ''.'', ch CHR ''e'', ch CHR ''E''}"
  shows "\<exists>tok lX'. Lexer_next E lX = Some (Inr (tokInteger, tok, lX')) \<and> Token_getInt tok = Some (of_nat n) \<and>
    r_start (tk_range tok) = lx_idx lX \<and> r_end (tk_range tok) = lx_idx lX' \<and>
    drop (lx_idx lX') (lx_text lX') = cs \<and> lx_log lX' = lx_log lX"
proof -
  obtain c ds where c: "dec_nat n = c # ds" "c \<noteq> ch CHR ''0''" using dec_nat_first [OF assms(4)] by blast
  have dig: "isdigit c" using dec_nat_digits [of n] c by simp
  have dr: "drop (lx_idx lX) (lx_text lX) = c # ds @ cs" using assms(6) c(1) by simp
  note l = drop_first(1) [OF dr] and p = drop_first(3) [OF dr]
  have "length (dec_nat n) \<le> 20" using dec_nat_length [of n 20] assms(5) by simp
  obtain b where b: "advance_while isdigit lX = b" "ahead lX b" "lx_idx b = lx_idx lX + length (dec_nat n)"
      "lx_erange b = lx_erange lX" "lx_log b = lx_log lX"
    using advance_while_run [of lX "dec_nat n" cs isdigit] l assms(6,7) dec_nat_digits [of n] by auto
  note tx = ahead_text [OF b(2)]
  have rest: "drop (lx_idx b) (lx_text lX) = cs" using assms(6) b(3) by (metis append_eq_conv_conj drop_drop add.commute)
  have "Lexer_peek 0 b \<notin> {ch CHR ''.'', ch CHR ''e'', ch CHR ''E''}"
  proof (cases "lx_idx b < length (lx_text lX)")
    case True
    then show ?thesis using assms(7) rest tx by (auto simp: Lexer_peek_def hd_drop_conv_nth)
  qed (simp add: Lexer_peek_def tx EOF_def)
  then have np: "toupper (Lexer_peek 0 b) \<noteq> ch CHR ''E''" "Lexer_peek 0 b \<noteq> ch CHR ''.''"
    by (auto simp: toupper_def split: if_splits)
  have sl: "slice (lx_idx lX) (lx_idx b) b = dec_nat n"
    using assms(6) b(3) tx by (simp add: slice_def)
  let ?tok = "\<lambda>t. (Token_setInt (of_nat n) t)\<lparr>tk_range := \<lparr>r_start = lx_idx lX, r_end = lx_idx b, r_coord = lx_pos lX,
    r_source = Some (lx_source lX)\<rparr>, tk_kind := tokInteger\<rparr>"
  have num: "Lexer_tokNumber E t lX = Inr (tokInteger, ?tok t, b\<lparr>lx_erange := False\<rparr>)" for t
    using p c(2) b np sl strtoull_dec [OF assms(5)] assms(3) tx \<open>length _ \<le> 20\<close>
    by (simp add: Lexer_tokNumber_def Lexer_tokDecimalNumber_def Lexer_parseInteger_def Lexer_mark_def Let_def
        MAX_DIGITS_IN_INTEGER_def token_end_def Lexer_updateToken_def Range_update_def)
  have "Lexer_tokenize E t lX = Some (Inr (tokInteger, ?tok t, b\<lparr>lx_erange := False\<rparr>))" for t
    using digit_cases [OF dig] p dig num [of t] operator_digit [OF dig]
    by (elim insertE emptyE; simp add: Lexer_tokenize_def Let_def)
  moreover have "\<not> isspace c" using digit_cases [OF dig] by (auto simp: isspace_def)
  ultimately have "Lexer_next E lX = Some (Inr (tokInteger, ?tok (start_token lX), b\<lparr>lx_erange := False\<rparr>))"
    using drop_first(2) [OF dr] by (intro next_direct [OF assms(2) l]) simp_all
  then show ?thesis
    using rest tx b(5) by (auto simp: Token_getInt_def Token_setInt_def)
qed

section \<open>Examples\<close>

text \<open>An environment and a lexer on a text, for the witnesses.\<close>

definition demo_env :: LexEnv where
  "demo_env = \<lparr>env_strtod = (\<lambda>s. (0, [], False)), env_putUtf8_result = (\<lambda>_. True)\<rparr>"

definition demo_lexer :: "u8 list \<Rightarrow> Lexer" where
  "demo_lexer text = the (Lexer_init [] False 0 text)"

lemma demo_lexer_ok:
  "lexer_ok (demo_lexer text)" "words_ok (demo_lexer text)" "lx_text (demo_lexer text) = text" "lx_idx (demo_lexer text) = 0"
  "\<not> lx_erange (demo_lexer text)" "tk_kind (lx_next (demo_lexer text)) = tokCOUNT"
proof -
  obtain lX where i: "Lexer_init [] False 0 text = Some lX" using init_total by blast
  then have "demo_lexer text = lX" by (simp add: demo_lexer_def)
  with init_ok [OF i] show "lexer_ok (demo_lexer text)" "words_ok (demo_lexer text)" "lx_text (demo_lexer text) = text"
    "lx_idx (demo_lexer text) = 0" "\<not> lx_erange (demo_lexer text)" "tk_kind (lx_next (demo_lexer text)) = tokCOUNT"
    by simp_all
qed

text \<open>The first token of \<open>42;\<close>, the tokens of \<open>1 + x\<close>, and a text that ends in a quote.\<close>

theorem Lexer_integer_round_trip_witness:
  "\<exists>tok lX'. Lexer_next demo_env (demo_lexer (dec_nat 42 @ [0x3B])) = Some (Inr (tokInteger, tok, lX')) \<and> Token_getInt tok = Some 42"
proof -
  have "\<exists>tok lX'. Lexer_next demo_env (demo_lexer (dec_nat 42 @ [0x3B])) = Some (Inr (tokInteger, tok, lX')) \<and> Token_getInt tok = Some (of_nat 42) \<and>
    r_start (tk_range tok) = lx_idx (demo_lexer (dec_nat 42 @ [0x3B])) \<and> r_end (tk_range tok) = lx_idx lX' \<and>
    drop (lx_idx lX') (lx_text lX') = [0x3B] \<and> lx_log lX' = lx_log (demo_lexer (dec_nat 42 @ [0x3B]))"
    by (rule Lexer_integer_round_trip) (simp_all add: demo_lexer_ok isdigit_def)
  then show ?thesis by auto
qed

theorem Lexer_next_typed_witness:
  "\<exists>kind tok lX'. Lexer_next demo_env (demo_lexer [0x3B]) = Some (Inr (kind, tok, lX')) \<and> tok_ok kind tok lX'"
proof -
  have s: "skip_space t (demo_lexer [0x3B]) = Inr (t, demo_lexer [0x3B])" for t
    by (subst skip_space.simps) (simp add: demo_lexer_ok isspace_def)
  have "\<exists>kind tok lX'. Lexer_next demo_env (demo_lexer [0x3B]) = Some (Inr (kind, tok, lX'))"
    by (subst Lexer_next.simps)
      (simp add: s demo_lexer_ok Lexer_updateToken_def Range_update_def Lexer_tokenize_def Lexer_peek_def Lexer_operator_def
        ADD_def Let_def token_end_def Lexer_mark_def)
  then obtain kind tok lX' where n: "Lexer_next demo_env (demo_lexer [0x3B]) = Some (Inr (kind, tok, lX'))" by blast
  with Lexer_next_typed [OF demo_lexer_ok(1,2) n] show ?thesis by blast
qed

theorem Lexer_all_tokens_witness:
  "\<exists>lX ts e. Lexer_init [] False 0 [0x31, 0x2B, 0x78] = Some lX \<and> Lexer_all 8 demo_env lX = Some (ts, e) \<and> length ts \<le> 7"
  using Lexer_all_tokens [of "[0x31, 0x2B, 0x78]" 8 "[]" False 0 demo_env] by auto

theorem Lexer_char_hangs_witness: "Lexer_next demo_env (demo_lexer [0x27]) = None"
  by (rule Lexer_char_hangs [OF demo_lexer_ok(1,2,6)]) (simp_all add: Lexer_peek_def demo_lexer_ok EOF_def)

section \<open>Words\<close>

text \<open>
  C32. A word of letters, digits, underscores and dollars that does not start an f-string is
  one token: the kind that the table of keywords gives it, with the truth value for \<open>true\<close> and \<open>false\<close>,
  or an identifier, whose range is the word.
\<close>

lemma ident_start: "c = ch CHR ''_'' \<or> islower c \<or> isupper c \<Longrightarrow> Lexer_operator c x y = None \<and> \<not> isdigit c \<and> \<not> isspace c \<and> isident c \<and>
    c \<noteq> 0x2F \<and> c \<noteq> 0x2E \<and> c \<noteq> 0x7D \<and> c \<noteq> 0x27 \<and> c \<noteq> 0x22"
proof -
  assume c: "c = ch CHR ''_'' \<or> islower c \<or> isupper c"
  then have u: "unat c = 95 \<or> 97 \<le> unat c \<and> unat c \<le> 122 \<or> 65 \<le> unat c \<and> unat c \<le> 90"
    by (auto simp: islower_def isupper_def word_le_nat_alt)
  have ne: "c \<noteq> w" if "\<not> (unat w = 95 \<or> 97 \<le> unat w \<and> unat w \<le> 122 \<or> 65 \<le> unat w \<and> unat w \<le> 90)" for w
    using u that by auto
  show ?thesis
    using c u by (simp add: Lexer_operator_def ne isdigit_def isspace_def isident_def isalnum_def word_le_nat_alt) auto
qed

theorem Lexer_word:
  assumes "lexer_ok lX" and "tk_kind (lx_next lX) = tokCOUNT" and "lx_keywords lX = kw" and "Lexer_initKeywordsMap = Some kw"
    and "drop (lx_idx lX) (lx_text lX) = (c # s) @ cs" and "c = ch CHR ''_'' \<or> islower c \<or> isupper c"
    and "\<forall>x \<in> set s. isident x" and "cs = [] \<or> \<not> isident (hd cs) \<and> (c # s = [ch CHR ''f''] \<longrightarrow> hd cs \<noteq> ch CHR 0x22)"
  shows "\<exists>tok lX'. Lexer_next E lX = Some (Inr (tk_kind tok, tok, lX')) \<and>
    tk_kind tok = (case map_of (rev keyword_table) (c # s) of Some k \<Rightarrow> k | None \<Rightarrow> tokIdentifier) \<and>
    (tk_kind tok = Kw tokTrue \<longrightarrow> Token_getBool tok = Some True) \<and> (tk_kind tok = Kw tokFalse \<longrightarrow> Token_getBool tok = Some False) \<and>
    r_start (tk_range tok) = lx_idx lX \<and> r_end (tk_range tok) = lx_idx lX' \<and> drop (lx_idx lX') (lx_text lX') = cs \<and> lx_log lX' = lx_log lX"
proof -
  have dr: "drop (lx_idx lX) (lx_text lX) = c # s @ cs" using assms(5) by simp
  note l = drop_first(1) [OF dr] and p = drop_first(3) [OF dr] and st = ident_start [OF assms(6)]
  have run: "drop (lx_idx lX) (lx_text lX) = (c # s) @ cs" "\<forall>x \<in> set (c # s). isident x" "cs = [] \<or> \<not> isident (hd cs)"
    using assms(5,7,8) st by auto
  obtain b where b: "advance_while isident lX = b" "ahead lX b" "lx_idx b = lx_idx lX + length (c # s)" "lx_log b = lx_log lX"
    using advance_while_run [OF less_imp_le [OF l] run] by auto
  note tx = ahead_text [OF b(2)]
  have sl: "slice (lx_idx lX) (lx_idx b) b = c # s"
    using assms(5) b(3) tx by (simp add: slice_def)
  have rest: "drop (lx_idx b) (lx_text lX) = cs" using assms(5) b(3) by (metis append_eq_conv_conj drop_drop add.commute)
  have kw: "Map_get (lx_keywords lX) w = map_of (rev keyword_table) w" for w
    using keyed.fill_empty [OF keywords_exact, of keyword_table] assms(3,4)
    by (auto simp: Lexer_initKeywordsMap_def Map_set_all_fill)
  let ?k = "case map_of (rev keyword_table) (c # s) of Some k \<Rightarrow> k | None \<Rightarrow> tokIdentifier"
  have nc: "?k \<noteq> tokCOUNT"
    using keywords_words [OF assms(4), of "c # s"] kw assms(3) by (auto split: option.splits)
  define t where "t = start_token lX"
  have "\<exists>tok. Lexer_tokIdent t lX = Inr (?k, tok, b) \<and> tk_kind tok = ?k \<and>
      (?k = Kw tokTrue \<longrightarrow> Token_getBool tok = Some True) \<and> (?k = Kw tokFalse \<longrightarrow> Token_getBool tok = Some False) \<and>
      r_start (tk_range tok) = lx_idx lX \<and> r_end (tk_range tok) = lx_idx b"
    using b sl tx kw [of "c # s"]
    by (auto simp: Lexer_tokIdent_def Lexer_mark_def Let_def token_end_def Lexer_updateToken_def Range_update_def
        Token_getBool_def Token_setBool_def split: option.splits)
  then obtain tok where tok: "Lexer_tokIdent t lX = Inr (?k, tok, b)" "tk_kind tok = ?k"
      "?k = Kw tokTrue \<longrightarrow> Token_getBool tok = Some True" "?k = Kw tokFalse \<longrightarrow> Token_getBool tok = Some False"
      "r_start (tk_range tok) = lx_idx lX" "r_end (tk_range tok) = lx_idx b" by blast
  have "Lexer_peek 1 lX \<noteq> ch CHR 0x22" if "c = ch CHR ''f''"
  proof (cases "s @ cs")
    case Nil
    then have "length (lx_text lX) = Suc (lx_idx lX)" using dr l by (metis Cons_nth_drop_Suc drop_eq_Nil2 le_antisym list.inject Suc_leI)
    then show ?thesis by (simp add: Lexer_peek_def EOF_def)
  next
    case (Cons x xs)
    have "drop (Suc (lx_idx lX)) (lx_text lX) = x # xs" using dr l Cons by (metis Cons_nth_drop_Suc list.inject)
    then have "Lexer_peek 1 lX = x"
      using drop_first(1,3) [of "lX\<lparr>lx_idx := Suc (lx_idx lX)\<rparr>" x xs] by (simp add: Lexer_peek_def)
    moreover have "x \<noteq> 0x22"
    proof (cases s)
      case Nil
      then show ?thesis using Cons assms(8) that by auto
    next
      case (Cons y ys)
      then have "isident x" using \<open>s @ cs = x # xs\<close> assms(7) by simp
      then show ?thesis by (auto simp: isident_def isalnum_def isdigit_def islower_def isupper_def)
    qed
    ultimately show ?thesis by simp
  qed
  then have "Lexer_tokenize E t lX = Some (Inr (?k, tok, b))"
    using p st assms(6) tok(1) by (auto simp: Lexer_tokenize_def Let_def simp del: not_None_eq)
  then have "Lexer_next E lX = Some (Inr (?k, tok, b))"
    using st drop_first(2) [OF dr] nc by (intro next_direct [OF assms(2) l]) (simp_all add: t_def)
  then show ?thesis using tok(2-6) rest tx b(4) by auto
qed

text \<open>The word \<open>true\<close>.\<close>

theorem Lexer_word_witness:
  "\<exists>tok lX'. Lexer_next demo_env (demo_lexer (bytes_of ''true;'')) = Some (Inr (Kw tokTrue, tok, lX')) \<and> Token_getBool tok = Some True"
proof -
  let ?s = "bytes_of ''rue''"
  have t: "bytes_of ''true;'' = (0x74 # ?s) @ [0x3B]" by (simp add: bytes_of_def)
  obtain kw where kw1: "Lexer_initKeywordsMap = Some kw"
    using init_total [of "[]" False 0 "bytes_of ''true;''"] by (auto simp: Lexer_init_def)
  have kw: "Lexer_initKeywordsMap = Some kw" "lx_keywords (demo_lexer (bytes_of ''true;'')) = kw"
    by (simp_all add: kw1 demo_lexer_def Lexer_init_def Lexer_reset_def)
  have m: "map_of (rev keyword_table) (0x74 # ?s) = Some (Kw tokTrue)" by code_simp
  from Lexer_word [OF demo_lexer_ok(1,6) kw(2,1), of "0x74" ?s "[0x3B]" demo_env] m show ?thesis
    by (auto simp: demo_lexer_ok t bytes_of_def islower_def isident_def isalnum_def isdigit_def isupper_def)
qed

section \<open>Operators\<close>

text \<open>The operator that the lexer reads for a spelling with a blank behind it, and the characters it takes.\<close>

definition spelled :: "string \<Rightarrow> (Operator \<times> nat) option" where
  "spelled s = (let cs = bytes_of s @ [0x20, 0x20, 0x20] in
     map_option (\<lambda>(t, pre, n). (t, pre + n)) (Lexer_operator (cs ! 0) (cs ! 1) (cs ! 2)))"

definition unquote :: "string \<Rightarrow> string" where
  "unquote s = takeWhile (\<lambda>c. c \<noteq> CHR 0x27) (tl s)"

definition misread :: "(Operator \<times> (Operator \<times> nat) option) list" where
  "misread = List.map_filter (\<lambda>(kind, cls, name). case kind of
     Op t \<Rightarrow> (let s = unquote name in if spelled s = Some (t, length s) then None else Some (t, spelled s))
   | _ \<Rightarrow> None) TOKEN_LIST"

text \<open>
  All operators of the list of tokens are read as they are spelled, except these:
  \<open>^\<close> is read as \<open>|\<close>, \<open>->\<close> as \<open><-\<close>, \<open>>=\<close>, \<open><=\<close>, \<open>!=\<close> and \<open>=<<\<close> as their first character, \<open>...\<close> and \<open>>>=\<close> take
  one character more than they have, and the closing brace and the backslash, the first treated elsewhere,
  the second spelled otherwise in the list.
\<close>

theorem operators_misread:
  "misread =
    [(tokBitXor, Some (tokBitOr, 1)), (tokElipsis, Some (tokElipsis, 4)), (tokGte, Some (tokGt, 1)),
     (tokLte, Some (tokLt, 1)), (tokRBrace, None), (tokNeq, Some (tokNot, 1)), (tokSalAssign, Some (tokAssign, 1)),
     (tokSarAssign, Some (tokSarAssign, 4)), (tokRArrow, Some (tokLArrow, 2)), (tokBackSlash, None)]"
  by code_simp

end
