(* ===== verification/Cyn_Asm.thy ===== *)
theory Cyn_Asm
  imports Cyn_Names Cyn_LexUse
begin

unbundle bit_operations_syntax

text \<open>
  The parser of the assembler (\<^verbatim>\<open>src/compiler/asm/asm.c\<close>) and the token parser it is built on
  (\<^verbatim>\<open>src/compiler/common/itp.c\<close>). The state is \<open>AssemblerCtx\<close>: the two tokens of look-ahead, the
  lexer, which carries the log, the collected constants and instructions and the trees of symbols,
  patches and references. A parse function is a function on this state that returns a value or stops;
  \<open>ITPException\<close> is the exception that \<open>Assembler_assemble\<close> catches, \<open>BadPointer\<close> an access through a pointer to nothing. \<open>None\<close> is a loop that does not
  end.

  An identifier is the text that \<open>Ident_foa\<close> interns: \<open>Ident_foa_interns\<close> shows that two of them are the same
  pointer exactly if they are the same text. New tree nodes take their addresses from a counter.
\<close>

section \<open>State\<close>

datatype SymbolTag = sytLabel | sytVar | sytDefine

type_synonym Ident = "u8 list"

record Symbol =
  sy_id :: u64
  sy_size :: u32
  sy_tag :: SymbolTag
  sy_name :: Ident
  sy_range :: Range

text \<open>A patch is the index of an instruction with the range of the symbol it names.\<close>

type_synonym Patch = "u32 \<times> Range"
type_synonym SymbolRefers = "u32 \<times> u32 RbTreeBase"
type_synonym RefList = "u32 \<times> u32 list"

text \<open>\<open>as_junk\<close> are the bytes that fresh memory of the constants and of the code holds.\<close>

record AssemblerCtx =
  as_lexer :: Lexer
  as_curr :: Token
  as_peek :: Token
  as_prev :: Token
  as_main :: u32
  as_constants :: "u8 list"
  as_instructions :: "Instruction list"
  as_symbols :: "Symbol RbTreeBase"
  as_patchWork :: "Patch RbTreeBase"
  as_references :: "SymbolRefers RbTreeBase"
  as_node :: nat
  as_junk :: "nat \<Rightarrow> u8"

datatype asm_stop = ITPException | Fatal lex_stop | BadPointer

type_synonym 'a asm = "AssemblerCtx \<Rightarrow> ((asm_stop + 'a) \<times> AssemblerCtx) option"

definition ret :: "'a \<Rightarrow> 'a asm" where
  "ret x as = Some (Inr x, as)"

definition stop :: "asm_stop \<Rightarrow> 'a asm" where
  "stop e as = Some (Inl e, as)"

definition abind :: "'a asm \<Rightarrow> ('a \<Rightarrow> 'b asm) \<Rightarrow> 'b asm" where
  "abind m f as =
     (case m as of
        None \<Rightarrow> None
      | Some (Inl e, as) \<Rightarrow> Some (Inl e, as)
      | Some (Inr x, as) \<Rightarrow> f x as)"

definition reads :: "(AssemblerCtx \<Rightarrow> 'a) \<Rightarrow> 'a asm" where
  "reads f as = Some (Inr (f as), as)"

definition modify :: "(AssemblerCtx \<Rightarrow> AssemblerCtx) \<Rightarrow> unit asm" where
  "modify f as = Some (Inr (), f as)"

text \<open>An assertion or a bad pointer: \<open>None\<close> of a definition of another component.\<close>

definition need :: "asm_stop \<Rightarrow> 'a option \<Rightarrow> 'a asm" where
  "need e x = (case x of None \<Rightarrow> stop e | Some y \<Rightarrow> ret y)"

section \<open>The token parser\<close>

definition ITP_eof :: "AssemblerCtx \<Rightarrow> bool" where
  "ITP_eof as \<longleftrightarrow> tk_kind (as_curr as) = tokEoF \<or> tk_kind (as_curr as) = tokCOUNT"

definition next_token :: "LexEnv \<Rightarrow> Token asm" where
  "next_token E as =
     (case Lexer_next E (as_lexer as) of
        None \<Rightarrow> None
      | Some (Inl e) \<Rightarrow> Some (Inl (Fatal e), as)
      | Some (Inr (kind, tok, lX)) \<Rightarrow> Some (Inr tok, as\<lparr>as_lexer := lX\<rparr>))"

definition ITP_check :: "TokenKind list \<Rightarrow> AssemblerCtx \<Rightarrow> bool" where
  "ITP_check kinds as \<longleftrightarrow> \<not> ITP_eof as \<and> tk_kind (as_curr as) \<in> set kinds"

definition clear_peek :: "AssemblerCtx \<Rightarrow> AssemblerCtx" where
  "clear_peek as = as\<lparr>as_peek := (as_peek as)\<lparr>tk_kind := tokCOUNT\<rparr>\<rparr>"

definition ITP_advance :: "LexEnv \<Rightarrow> Token asm" where
  "ITP_advance E as =
     (if tk_kind (as_curr as) = tokEoF then Some (Inr (as_curr as), as)
      else
        let as = as\<lparr>as_prev := as_curr as\<rparr> in
        if tk_kind (as_peek as) \<noteq> tokCOUNT then
          Some (Inr (as_prev as), clear_peek (as\<lparr>as_curr := as_peek as\<rparr>))
        else abind (next_token E) (\<lambda>tok. abind (modify (as_curr_update (\<lambda>_. tok))) (\<lambda>_. reads as_prev)) as)"

definition ITP_peek :: "LexEnv \<Rightarrow> Token asm" where
  "ITP_peek E as =
     (if tk_kind (as_curr as) = tokEoF then Some (Inr (as_curr as), as)
      else if tk_kind (as_peek as) = tokCOUNT then
        abind (next_token E) (\<lambda>tok. abind (modify (as_peek_update (\<lambda>_. tok))) (\<lambda>_. reads as_peek)) as
      else Some (Inr (as_peek as), as))"

definition ITP_match :: "LexEnv \<Rightarrow> TokenKind list \<Rightarrow> bool asm" where
  "ITP_match E kinds as =
     (if ITP_check kinds as then abind (ITP_advance E) (\<lambda>_. ret True) as else Some (Inr False, as))"

definition ITP_init :: "LexEnv \<Rightarrow> unit asm" where
  "ITP_init E = abind (modify clear_peek) (\<lambda>_. abind (next_token E) (\<lambda>tok. modify (as_curr_update (\<lambda>_. tok))))"

text \<open>Errors go to the log that the lexer writes to. Messages are kept without their arguments.\<close>

definition ITP_error0 :: "Range \<Rightarrow> string \<Rightarrow> unit asm" where
  "ITP_error0 r message = modify (\<lambda>as. as\<lparr>as_lexer := (as_lexer as)\<lparr>lx_log := Log_append logError r message (lx_log (as_lexer as))\<rparr>\<rparr>)"

definition ITP_error :: "string \<Rightarrow> unit asm" where
  "ITP_error message as = ITP_error0 (tk_range (as_curr as)) message as"

definition ITP_fail0 :: "Range \<Rightarrow> string \<Rightarrow> 'a asm" where
  "ITP_fail0 r message = abind (ITP_error0 r message) (\<lambda>_. stop ITPException)"

definition ITP_fail :: "string \<Rightarrow> 'a asm" where
  "ITP_fail message = abind (ITP_error message) (\<lambda>_. stop ITPException)"

definition ITP_consume :: "LexEnv \<Rightarrow> TokenKind \<Rightarrow> string \<Rightarrow> Token asm" where
  "ITP_consume E kind message as = (if ITP_check [kind] as then ITP_advance E as else ITP_fail message as)"

definition log_errors :: "AssemblerCtx \<Rightarrow> bool" where
  "log_errors as \<longleftrightarrow> (\<exists>d \<in> set (lx_log (as_lexer as)). d_kind d = logError)"

text \<open>\<open>Range_view\<close> on the source of the lexer.\<close>

definition token_view :: "Range \<Rightarrow> (u8 list) asm" where
  "token_view r as = need (Fatal LexAssert) (Range_view (\<lambda>_. lx_text (as_lexer as)) r) as"

section \<open>Symbols\<close>

definition Ident_equals :: "Ident \<Rightarrow> Ident \<Rightarrow> bool" where
  "Ident_equals lhs rhs \<longleftrightarrow> lhs = rhs"

definition Assembler_symbol_cmp :: "Symbol \<Rightarrow> u32 \<Rightarrow> Symbol \<Rightarrow> int" where
  "Assembler_symbol_cmp aa len bb =
     (if Ident_equals (sy_name aa) (sy_name bb) then 0 else RbTree_cmp_string (sy_name aa) len (sy_name bb))"

definition Assembler_symbol_ref_cmp :: "SymbolRefers \<Rightarrow> SymbolRefers \<Rightarrow> int" where
  "Assembler_symbol_ref_cmp aa bb = RbTree_cmp_u32 (fst aa) (fst bb)"

definition Assembler_ref_list_cmp :: "RefList \<Rightarrow> RefList \<Rightarrow> int" where
  "Assembler_ref_list_cmp aa bb = RbTree_cmp_u32 (fst aa) (fst bb)"

definition Assembler_patch_cmp :: "Patch \<Rightarrow> Patch \<Rightarrow> int" where
  "Assembler_patch_cmp aa bb = RbTree_cmp_u32 (fst aa) (fst bb)"

definition symbol_query :: "Ident \<Rightarrow> Symbol" where
  "symbol_query name = \<lparr>sy_id = 0, sy_size = 0, sy_tag = sytLabel, sy_name = name, sy_range = no_range\<rparr>"

definition find_symbol :: "Ident \<Rightarrow> (nat option) asm" where
  "find_symbol name as =
     (case RbTree_find (\<lambda>a b. Assembler_symbol_cmp a 0 b) (symbol_query name) (as_symbols as) of
        None \<Rightarrow> None
      | Some it \<Rightarrow> Some (Inr it, as))"

definition symbol_at :: "AssemblerCtx \<Rightarrow> nat \<Rightarrow> Symbol" where
  "symbol_at as p = rb_data (rb_node (as_symbols as) p)"

text \<open>\<open>RbTree_find_or_add_\<close> on the symbols; a node that it makes is filled by the caller.\<close>

definition find_or_add_symbol :: "Ident \<Rightarrow> (bool \<times> nat) asm" where
  "find_or_add_symbol name as =
     (case RbTree_find_or_add_ref (\<lambda>a b. Assembler_symbol_cmp a 0 b) (symbol_query name) (Some (as_node as)) (as_symbols as) of
        None \<Rightarrow> None
      | Some (f, p, t) \<Rightarrow> Some (Inr (f, p), as\<lparr>as_symbols := t, as_node := Suc (as_node as)\<rparr>))"

definition store_symbol :: "nat \<Rightarrow> (Symbol \<Rightarrow> Symbol) \<Rightarrow> unit asm" where
  "store_symbol p f = modify (\<lambda>as. as\<lparr>as_symbols := upd_node p (\<lambda>n. n\<lparr>rb_data := f (rb_data n)\<rparr>) (as_symbols as)\<rparr>)"

text \<open>A tree without nodes; \<open>v\<close> is what unused memory holds.\<close>

definition RbTree_initWith :: "'v \<Rightarrow> 'v RbTreeBase" where
  "RbTree_initWith v = \<lparr>rb_root = None,
     rb_node = (\<lambda>_. \<lparr>rb_left = None, rb_right = None, rb_parent = None, rb_color = rbtRed, rb_data = v\<rparr>)\<rparr>"

definition Assembler_symbol_ref_init :: "u32 \<Rightarrow> unit asm" where
  "Assembler_symbol_ref_init i as =
     (case RbTree_find_or_add_ref Assembler_symbol_ref_cmp (i, RbTree_initWith 0) (Some (as_node as)) (as_references as) of
        None \<Rightarrow> None
      | Some (f, p, t) \<Rightarrow>
          Some (Inr (), as\<lparr>as_node := Suc (as_node as),
            as_references := (if f then upd_node p (\<lambda>n. n\<lparr>rb_data := (i, RbTree_initWith 0)\<rparr>) t else t)\<rparr>))"

definition Assembler_add_symbol :: "u32 \<Rightarrow> SymbolTag \<Rightarrow> Range \<Rightarrow> nat asm" where
  "Assembler_add_symbol pos tag r =
     abind (token_view r) (\<lambda>sv.
     abind (find_or_add_symbol sv) (\<lambda>(f, p).
     if \<not> f then ITP_fail0 r ''symbol with name '%s' already defined''
     else
       abind (store_symbol p (\<lambda>_. \<lparr>sy_id = ucast pos, sy_size = 0, sy_tag = tag, sy_name = sv, sy_range = r\<rparr>)) (\<lambda>_.
       ret p)))"

text \<open>\<open>RbTree_add\<close> on the patches.\<close>

definition add_patch :: "Patch \<Rightarrow> unit asm" where
  "add_patch p as =
     (case RbTree_add Assembler_patch_cmp p (as_node as) (as_patchWork as) of
        None \<Rightarrow> None
      | Some t \<Rightarrow> Some (Inr (), as\<lparr>as_patchWork := t, as_node := Suc (as_node as)\<rparr>))"

text \<open>The result of type \<open>u32\<close> cuts off the upper half of the value of a symbol.\<close>

definition Assembler_add_symbol_reference :: "u32 \<Rightarrow> Range \<Rightarrow> bool \<Rightarrow> u32 asm" where
  "Assembler_add_symbol_reference pos r addToPatchWork =
     abind (token_view r) (\<lambda>name.
     abind (find_symbol name) (\<lambda>it.
     abind (reads (\<lambda>as. map_option (symbol_at as) it)) (\<lambda>sym.
     if sym = None \<or> sy_tag (the sym) = sytLabel then
       if addToPatchWork then abind (add_patch (pos, r)) (\<lambda>_. ret 0)
       else ITP_fail ''referenced symbol '%.*s' must be defined before use''
     else ret (ucast (sy_id (the sym))))))"

text \<open>A second definition of a built-in name ends the program.\<close>

definition Assembler_define :: "u8 list \<Rightarrow> u64 \<Rightarrow> unit asm" where
  "Assembler_define name value =
     abind (find_or_add_symbol name) (\<lambda>(f, p).
     if \<not> f then stop (Fatal LexAbort)
     else store_symbol p (\<lambda>_. \<lparr>sy_id = value, sy_size = 0, sy_tag = sytDefine, sy_name = name, sy_range = no_range\<rparr>))"

definition Assembler_get_variable_size :: "Range \<Rightarrow> u32 asm" where
  "Assembler_get_variable_size r =
     abind (token_view r) (\<lambda>name.
     abind (find_symbol name) (\<lambda>it.
     abind (reads (\<lambda>as. map_option (symbol_at as) it)) (\<lambda>sym.
     case sym of
       None \<Rightarrow> ITP_fail0 r (''reference to undefined variable '%.*s'' @ [CHR 0x27])
     | Some s \<Rightarrow>
         if sy_tag s \<noteq> sytVar then ITP_fail0 r (''cannot not read size of non variable symbol '%.*s'' @ [CHR 0x27])
         else ret (sy_size s))))"

section \<open>Constants\<close>

definition push_constants :: "u8 list \<Rightarrow> unit asm" where
  "push_constants bs = modify (\<lambda>as. as\<lparr>as_constants := as_constants as @ bs\<rparr>)"

definition expand_constants :: "nat \<Rightarrow> unit asm" where
  "expand_constants n as =
     push_constants (map (as_junk as) [length (as_constants as)..<length (as_constants as) + n]) as"

definition Assembler_append_integral_data :: "i64 \<Rightarrow> Mode \<Rightarrow> u32 asm" where
  "Assembler_append_integral_data value mode =
     abind (push_constants (VM_write value mode)) (\<lambda>_. ret (of_nat (vmSizeTbl mode)))"

section \<open>Instructions\<close>

definition Assembler_find_mode :: "Mode list \<Rightarrow> Mode \<Rightarrow> bool" where
  "Assembler_find_mode modes mode = (mode \<in> set modes)"

definition mode_suffix :: "u8 list \<Rightarrow> Mode option" where
  "mode_suffix ext =
     (if ext = bytes_of ''b'' then Some szByte
      else if ext = bytes_of ''s'' then Some szShort
      else if ext = bytes_of ''w'' then Some szWord
      else if ext = bytes_of ''q'' then Some szQuad
      else None)"

text \<open>A mode that is in the list of the modes to choose from is rejected.\<close>

definition Assembler_parse_modes :: "LexEnv \<Rightarrow> Mode list \<Rightarrow> Mode asm" where
  "Assembler_parse_modes E modes =
     abind (ITP_consume E tokIdentifier (''expecting either a 'b'/'s'/'w'/'q'' @ [CHR 0x27])) (\<lambda>tok.
     abind (token_view (tk_range tok)) (\<lambda>ext.
     case mode_suffix ext of
       None \<Rightarrow> ITP_fail0 (tk_range tok) ''unsupported instruction '%.*s', use b/s/w/q''
     | Some mode \<Rightarrow>
         if length modes > 0 \<and> Assembler_find_mode modes mode then
           ITP_fail ''mode '%s' not supported in current context, use %s''
         else ret mode))"

text \<open>\<open>strncmp("main", sv.data, sv.count) == 0\<close>: true for every beginning of \<open>main\<close>.\<close>

definition starts_main :: "u8 list \<Rightarrow> bool" where
  "starts_main sv \<longleftrightarrow> take (length sv) (bytes_of ''main'') = sv"

definition code_position :: "AssemblerCtx \<Rightarrow> u32" where
  "code_position as = of_nat (length (as_instructions as))"

definition Assembler_parse_label :: "LexEnv \<Rightarrow> unit asm" where
  "Assembler_parse_label E =
     abind (ITP_consume E tokIdentifier ''expecting a label name'') (\<lambda>tok.
     abind (ITP_consume E (Op tokColon) ''expecting a colon ':' to terminate a label'') (\<lambda>_.
     abind (token_view (tk_range tok)) (\<lambda>sv.
     abind (find_symbol sv) (\<lambda>it.
     if it \<noteq> None then ITP_fail0 (tk_range tok) ''label '%.*s' already defined''
     else
       abind (reads code_position) (\<lambda>i.
       abind (Assembler_add_symbol i sytLabel (tk_range tok)) (\<lambda>_.
       abind (Assembler_symbol_ref_init i) (\<lambda>_.
       if starts_main sv then modify (as_main_update (\<lambda>_. i)) else ret ())))))))"

definition match_sign :: "LexEnv \<Rightarrow> bool asm" where
  "match_sign E =
     abind (ITP_match E [Op tokMinus]) (\<lambda>isNeg.
     if isNeg then ret True else abind (ITP_match E [Op tokPlus]) (\<lambda>_. ret False))"

definition is_sign :: "TokenKind \<Rightarrow> bool" where
  "is_sign k \<longleftrightarrow> k = Op tokPlus \<or> k = Op tokMinus"

definition signed :: "bool \<Rightarrow> u64 \<Rightarrow> u64" where
  "signed isNeg v = (if isNeg then - v else v)"

text \<open>
  A symbol as an argument, with the offset behind it. After a sign that is not a minus the source tries
  to match a minus again, so a plus is never skipped.
\<close>

definition symbol_arg :: "LexEnv \<Rightarrow> bool \<Rightarrow> u32 \<Rightarrow> Token \<Rightarrow> Instruction \<Rightarrow> Instruction asm" where
  "symbol_arg E isSizeOp pos tok instr =
     abind (if isSizeOp then Assembler_get_variable_size (tk_range tok)
            else Assembler_add_symbol_reference pos (tk_range tok) True) (\<lambda>v.
     let v = ucast v :: u64;
         instr = instr\<lparr>rmd := amImm, iu := v, ims := (if v = 0 then szWord else VM_integer_size v)\<rparr> in
     abind (reads (ITP_check [Op tokPlus, Op tokMinus])) (\<lambda>more.
     if v > 0 \<and> more then
       abind (ITP_match E [Op tokMinus]) (\<lambda>isNeg.
       abind (if isNeg then ret False else ITP_match E [Op tokMinus]) (\<lambda>_.
       abind (ITP_consume E tokInteger ''expecting an integer literal to add to a variable'') (\<lambda>tokP.
       abind (need (Fatal LexAssert) (Token_getInt tokP)) (\<lambda>imm.
       ret (instr\<lparr>ims := VM_integer_size imm, iu := v + signed isNeg imm\<rparr>)))))
     else ret instr))"

text \<open>
  The offset in brackets behind a register or a symbol. The case of \<open>#\<close> goes on with the range of the
  \<open>#\<close> itself. An unexpected token is an error but does not stop the function.
\<close>

definition offset_symbol :: "bool \<Rightarrow> TokenKind \<Rightarrow> u32 \<Rightarrow> Token \<Rightarrow> Token \<Rightarrow> Instruction \<Rightarrow> Instruction asm" where
  "offset_symbol isSizeOp sign pos tok tokP instr =
     (if is_sign sign then ITP_fail0 (tk_range tok) ''+/- not allowed on variables''
      else
        abind (if isSizeOp then Assembler_get_variable_size (tk_range tokP)
               else Assembler_add_symbol_reference pos (tk_range tokP) False) (\<lambda>v.
        ret (instr\<lparr>ims := szQuad, iu := iu instr + ucast v\<rparr>)))"

definition offset_arg :: "LexEnv \<Rightarrow> bool \<Rightarrow> u32 \<Rightarrow> Token \<Rightarrow> Instruction \<Rightarrow> Instruction asm" where
  "offset_arg E isSizeOp pos tok instr =
     abind (reads (\<lambda>as. tk_kind (as_curr as))) (\<lambda>sign.
     abind (match_sign E) (\<lambda>isNeg.
     abind (ITP_advance E) (\<lambda>tokP.
     abind
       (if tk_kind tokP = tokInteger then
          abind (need (Fatal LexAssert) (Token_getInt tokP)) (\<lambda>imm.
          ret (instr\<lparr>ims := VM_integer_size imm, iu := iu instr + signed isNeg imm\<rparr>))
        else if tk_kind tokP = Op tokHash then
          abind (reads (ITP_check [tokIdentifier])) (\<lambda>ident.
          if \<not> ident then ITP_fail (CHR 0x27 # ''#' operator must be followed by an identifier'')
          else offset_symbol True sign pos tok tokP instr)
        else if tk_kind tokP = tokIdentifier then offset_symbol isSizeOp sign pos tok tokP instr
        else
          abind (ITP_error0 (tk_range tok) ''unexpected effective address, only integers, variables and '#' operations allowed'')
            (\<lambda>_. ret instr)) (\<lambda>instr.
     ret (instr\<lparr>iea := True\<rparr>)))))"

text \<open>A literal. A float is read as an integer as well, there being no \<open>break\<close>.\<close>

definition integer_literal :: "bool \<Rightarrow> Token \<Rightarrow> Instruction \<Rightarrow> Instruction asm" where
  "integer_literal isNeg tok instr =
     abind (need (Fatal LexAssert) (Token_getInt tok)) (\<lambda>imm.
     ret (instr\<lparr>ims := VM_integer_size imm, iu := signed isNeg imm\<rparr>))"

definition literal_arg :: "bool \<Rightarrow> Token \<Rightarrow> Instruction \<Rightarrow> Instruction asm" where
  "literal_arg isNeg tok instr =
     (let instr = instr\<lparr>rmd := amImm\<rparr> in
      if tk_kind tok = tokChar then
        abind (need (Fatal LexAssert) (Token_getChar tok)) (\<lambda>c. ret (instr\<lparr>iu := ucast c, ims := szWord\<rparr>))
      else if tk_kind tok = tokFloat then
        abind (need (Fatal LexAssert) (Token_getFloat tok)) (\<lambda>d.
        integer_literal isNeg tok (instr\<lparr>iu := d, ims := szQuad\<rparr>))
      else if tk_kind tok = tokInteger then integer_literal isNeg tok instr
      else stop (Fatal LexAbort))"

text \<open>A name as an argument: a register, or a symbol, for which the register stays \<open>r0\<close>.\<close>

definition name_arg :: "LexEnv \<Rightarrow> bool \<Rightarrow> u32 \<Rightarrow> Token \<Rightarrow> Instruction \<Rightarrow> (Register \<times> Instruction) asm" where
  "name_arg E isSizeOp pos tok instr =
     abind (token_view (tk_range tok)) (\<lambda>sv.
     case Vm_get_register_from_str sv (of_nat (length sv)) of
       None \<Rightarrow> abind (symbol_arg E isSizeOp pos tok instr) (\<lambda>instr. ret (r0, instr))
     | Some rX \<Rightarrow>
         if isSizeOp then
           abind (reads (\<lambda>as. tk_range (as_curr as))) (\<lambda>e.
           abind (need (Fatal LexAssert) (Range_extend (tk_range tok) e)) (\<lambda>ext.
           ITP_fail0 ext (CHR 0x27 # ''#' operator cannot be applied to register arguments'')))
         else ret (rX, instr\<lparr>rmd := amReg\<rparr>))"

definition Assembler_parse_instruction_arg :: "LexEnv \<Rightarrow> bool \<Rightarrow> Instruction \<Rightarrow> (bool \<times> Register \<times> Instruction) asm" where
  "Assembler_parse_instruction_arg E isRb instr =
     abind (ITP_match E [Op tokLBracket]) (\<lambda>isMem.
     abind (reads (\<lambda>as. tk_kind (as_curr as))) (\<lambda>sign.
     abind (match_sign E) (\<lambda>isNeg.
     abind (reads (ITP_check [tokInteger, tokChar, tokFloat, tokIdentifier, Op tokHash])) (\<lambda>start.
     if \<not> start then
       ITP_fail ''expecting either a number, char literal, register, variable or label as instruction argument''
     else
       abind (ITP_match E [Op tokHash]) (\<lambda>isSizeOp.
       abind (reads code_position) (\<lambda>pos.
       abind (ITP_advance E) (\<lambda>tok.
       abind
         (if tk_kind tok = tokIdentifier then
            if is_sign sign then ITP_fail0 (tk_range tok) ''+/- not allowed on variables/labels''
            else
              abind (name_arg E isSizeOp pos tok instr) (\<lambda>(reg, instr).
              abind (if isMem \<and> isRb then ITP_match E [Op tokComma] else ret False) (\<lambda>comma.
              if comma then abind (offset_arg E isSizeOp pos tok instr) (\<lambda>instr. ret (reg, instr))
              else ret (reg, instr)))
          else abind (literal_arg isNeg tok instr) (\<lambda>instr. ret (r0, instr))) (\<lambda>(reg, instr).
       if isMem then
         abind (ITP_consume E (Op tokRBracket) ''expecting a closing ']' to end a memory instruction argument'') (\<lambda>_.
         ret (True, reg, instr))
       else ret (False, reg, instr)))))))))"

definition opcode_number :: "OpCode \<Rightarrow> 6 word" where
  "opcode_number opr = of_nat (length (takeWhile (\<lambda>e. fst e \<noteq> opr) vmOpCodes))"

definition get_opcode :: "u8 list \<Rightarrow> (OpCodeInfo option) asm" where
  "get_opcode name as = map_option (\<lambda>r. (Inr r, as)) (VM_get_opcode_for_instr name (of_nat (length name)))"

text \<open>The arguments of an instruction. An immediate first argument leaves its mode in the field \<open>ra\<close>.\<close>

definition parse_first_arg :: "LexEnv \<Rightarrow> nat \<Rightarrow> Instruction \<Rightarrow> Instruction asm" where
  "parse_first_arg E n instr =
     (if n \<ge> 1 then
        abind (Assembler_parse_instruction_arg E False instr) (\<lambda>(isMem, reg, instr).
        ret (instr\<lparr>iam := isMem, ra := (if rmd instr = amImm then ucast (mode_code (ims instr)) else reg_code reg)\<rparr>))
      else ret instr)"

definition parse_second_arg :: "LexEnv \<Rightarrow> nat \<Rightarrow> Instruction \<Rightarrow> Instruction asm" where
  "parse_second_arg E n instr =
     (if n = 2 then
        abind (Assembler_parse_instruction_arg E True instr) (\<lambda>(isMem, reg, instr).
        ret (instr\<lparr>ibm := isMem, rb := reg_code reg\<rparr>))
      else ret instr)"

definition Assembler_parse_instruction :: "LexEnv \<Rightarrow> unit asm" where
  "Assembler_parse_instruction E =
     abind (reads as_curr) (\<lambda>tok.
     abind (token_view (tk_range tok)) (\<lambda>name.
     abind (get_opcode name) (\<lambda>opr.
     case opr of
       None \<Rightarrow> ITP_fail (''unsupported instruction '%.*s'' @ [CHR 0x27])
     | Some (opr, n) \<Rightarrow>
         abind (ITP_advance E) (\<lambda>_.
         abind (ITP_match E [Op tokDot]) (\<lambda>dot.
         abind (if dot then Assembler_parse_modes E [] else ret szQuad) (\<lambda>mode.
         abind (parse_first_arg E n (instr0\<lparr>osz := of_nat (n + 1), opc := opcode_number opr, imd := mode\<rparr>)) (\<lambda>instr.
         abind (parse_second_arg E n instr) (\<lambda>instr.
         modify (\<lambda>as. as\<lparr>as_instructions := as_instructions as @ [instr]\<rparr>)))))))))"

section \<open>Variables\<close>

text \<open>
  One byte of a list, and whether a comma follows. Numbers are cut to 32 bits before they are compared
  with 0xFF, and a byte that is too large is an error but is stored.
\<close>

definition byte_item :: "LexEnv \<Rightarrow> bool asm" where
  "byte_item E =
     abind (reads as_curr) (\<lambda>tokp.
     abind
       (if tk_kind tokp = tokChar then need (Fatal LexAssert) (Token_getChar tokp)
        else if tk_kind tokp = tokInteger then need (Fatal LexAssert) (map_option ucast (Token_getInt tokp))
        else ITP_fail ''unexpected token in byte array initializer, expecting digits or a character'') (\<lambda>val :: u32.
     abind (if val > 0xFF then ITP_error ''assembler byte array supports ascii characters or bytes in range 0x00 - 0xFF''
            else ret ()) (\<lambda>_.
     abind (ITP_advance E) (\<lambda>_.
     abind (push_constants [ucast val]) (\<lambda>_.
     ITP_match E [Op tokComma])))))"

partial_function (option) byte_list :: "LexEnv \<Rightarrow> u32 \<Rightarrow> AssemblerCtx \<Rightarrow> ((asm_stop + u32) \<times> AssemblerCtx) option" where
  "byte_list E n as =
     Option.bind (byte_item E as) (\<lambda>(r, as).
       case r of
         Inl e \<Rightarrow> Some (Inl e, as)
       | Inr comma \<Rightarrow> if comma then byte_list E (n + 1) as else Some (Inr (n + 1), as))"

declare byte_list.simps [code]

definition mode_or :: "LexEnv \<Rightarrow> Mode list \<Rightarrow> Mode \<Rightarrow> Mode asm" where
  "mode_or E modes mode =
     abind (ITP_match E [Op tokBackquote]) (\<lambda>q. if q then Assembler_parse_modes E modes else ret mode)"

text \<open>
  A number, a character, or the reservation of a block. The tests whether a sign was skipped compare
  a pointer with itself and are left out: they are never true. The bytes of a block are not set.
\<close>

definition number_initializer :: "LexEnv \<Rightarrow> u32 asm" where
  "number_initializer E =
     abind (match_sign E) (\<lambda>isNeg.
     abind (reads (\<lambda>as. tk_kind (as_curr as))) (\<lambda>kind.
     if kind = tokInteger then
       abind (ITP_advance E) (\<lambda>tokP.
       abind (need (Fatal LexAssert) (Token_getInt tokP)) (\<lambda>value.
       abind (mode_or E [] szQuad) (\<lambda>mode.
       Assembler_append_integral_data (signed isNeg value) mode)))
     else if kind = tokChar then
       abind (ITP_advance E) (\<lambda>tokP.
       abind (need (Fatal LexAssert) (Token_getChar tokP)) (\<lambda>c.
       Assembler_append_integral_data (ucast c) szByte))
     else if kind = tokFloat then
       abind (ITP_advance E) (\<lambda>tokP.
       abind (need (Fatal LexAssert) (Token_getFloat tokP)) (\<lambda>value.
       abind (mode_or E [szWord, szQuad] szQuad) (\<lambda>mode.
       Assembler_append_integral_data (if isNeg then value XOR push_bit 63 1 else value) mode)))
     else if kind = Op tokLBracket then
       abind (ITP_advance E) (\<lambda>_.
       abind (ITP_consume E tokInteger ''expecting an integer to indicate number of bytes'') (\<lambda>tok.
       abind (mode_or E [] szByte) (\<lambda>mode.
       abind (ITP_consume E (Op tokRBracket) ''expecting a closing ']' to end memory reservation block'') (\<lambda>_.
       abind (need (Fatal LexAssert) (Token_getInt tok)) (\<lambda>count.
       let n = of_nat (vmSizeTbl mode) * ucast count in
       abind (expand_constants (unat n)) (\<lambda>_. ret n))))))
     else ITP_fail ''unsupported data format for a variable initializer''))"

definition variable_initializer :: "LexEnv \<Rightarrow> u32 asm" where
  "variable_initializer E =
     abind (ITP_match E [Op tokLBrace]) (\<lambda>brace.
     abind (reads (ITP_check [tokString])) (\<lambda>str.
     if brace then
       abind (byte_list E 0) (\<lambda>n.
       abind (ITP_consume E (Op tokRBrace) ''expecting a closing brace to terminate byte sequence'') (\<lambda>_. ret n))
     else if str then
       abind (ITP_advance E) (\<lambda>tokP.
       abind (need (Fatal LexAssert) (Token_getString tokP)) (\<lambda>s.
       let s = takeWhile (\<lambda>c. c \<noteq> 0) s in
       abind (push_constants s) (\<lambda>_. ret (of_nat (length s)))))
     else number_initializer E))"

definition Assembler_parse_var_decl :: "LexEnv \<Rightarrow> unit asm" where
  "Assembler_parse_var_decl E =
     abind (ITP_advance E) (\<lambda>_.
     abind (ITP_consume E tokIdentifier ''expecting the name of a variable'') (\<lambda>tok.
     abind (ITP_consume E (Op tokAssign) (''expecting assignment operator '='' @ [CHR 0x27])) (\<lambda>_.
     abind (reads (\<lambda>as. of_nat (length (as_constants as)) + 16)) (\<lambda>pos.
     abind (Assembler_add_symbol pos sytVar (tk_range tok)) (\<lambda>sym.
     abind (variable_initializer E) (\<lambda>n.
     store_symbol sym (sy_size_update (\<lambda>_. n))))))))"

end
