(* ===== verification/Cyn_Link.thy ===== *)
theory Cyn_Link
  imports Cyn_Asm
begin

text \<open>
  The linker and the main loop of the assembler (\<^verbatim>\<open>src/compiler/asm/asm.c\<close>). The linker first
  collects, for every label, the instructions that refer to it; then it walks over the instructions
  with their offset in the code, subtracts the offset of each patched instruction from its
  immediate and adds the offset of each label to the immediates of the instructions that refer to
  it. The parts of the linker work on their inputs alone, because \<^verbatim>\<open>src/vm/builder.c\<close> has the same
  linker on another record.
\<close>

section \<open>The linker\<close>

definition symbol_order :: "Symbol \<Rightarrow> Symbol \<Rightarrow> int" where
  "symbol_order a b = Assembler_symbol_cmp a 0 b"

text \<open>One reference: the list of the label is made when it is the first.\<close>

definition add_reference :: "u32 \<Rightarrow> u32 \<Rightarrow> nat \<Rightarrow> RefList RbTreeBase \<Rightarrow> RefList RbTreeBase option" where
  "add_reference label pos node refs =
     Option.bind (RbTree_find_or_add_ref Assembler_ref_list_cmp (label, []) (Some node) refs) (\<lambda>(f, p, refs).
       let refs = (if f then upd_node p (\<lambda>n. n\<lparr>rb_data := (label, [])\<rparr>) refs else refs)
       in Some (upd_node p (\<lambda>n. n\<lparr>rb_data := (fst (rb_data n), snd (rb_data n) @ [pos])\<rparr>) refs))"

text \<open>The loop over the patches. The name of a patch is read from the source again.\<close>

fun link_collect ::
  "(Range \<Rightarrow> u8 list option) \<Rightarrow> Symbol RbTreeBase \<Rightarrow> Patch list \<Rightarrow> nat \<Rightarrow> RefList RbTreeBase \<Rightarrow> Diagnostic list \<Rightarrow>
    (asm_stop + (RefList RbTreeBase \<times> Diagnostic list)) option"
where
  "link_collect text_of syms [] node refs log = Some (Inr (refs, log))"
| "link_collect text_of syms (patch # ps) node refs log =
     (case text_of (snd patch) of
        None \<Rightarrow> Some (Inl (Fatal LexAssert))
      | Some name \<Rightarrow>
          Option.bind (RbTree_find symbol_order (symbol_query name) syms) (\<lambda>it.
          case it of
            None \<Rightarrow>
              link_collect text_of syms ps node refs
                (Log_append logError (snd patch) ''undefined symbol '%.*s' referenced'' log)
          | Some a \<Rightarrow>
              let sym = rb_data (rb_node syms a) in
              if sy_tag sym = sytLabel then
                Option.bind (add_reference (ucast (sy_id sym)) (fst patch) node refs) (\<lambda>refs.
                link_collect text_of syms ps (Suc node) refs log)
              else link_collect text_of syms ps node refs log))"

text \<open>Adding an offset to the immediates of the instructions of a list; \<open>Vector_at\<close> is null outside.\<close>

fun add_offsets :: "u32 list \<Rightarrow> u32 \<Rightarrow> Instruction list \<Rightarrow> Instruction list option" where
  "add_offsets [] off ins = Some ins"
| "add_offsets (j # js) off ins =
     (if unat j < length ins then add_offsets js off (ins[unat j := (ins ! unat j)\<lparr>iu := iu (ins ! unat j) + ucast off\<rparr>])
      else None)"

text \<open>The bytes that the linker reserves for an instruction.\<close>

definition link_size :: "Instruction \<Rightarrow> u32" where
  "link_size i = ucast (osz i) + (if rmd i = amImm \<or> iea i then of_nat (vmSizeTbl (ims i)) else 0)"

fun link_loop ::
  "Patch RbTreeBase \<Rightarrow> RefList RbTreeBase \<Rightarrow> nat \<Rightarrow> nat \<Rightarrow> u32 \<Rightarrow> Instruction list \<Rightarrow> (asm_stop + Instruction list) option"
where
  "link_loop patches refs 0 i off ins = Some (Inr ins)"
| "link_loop patches refs (Suc n) i off ins =
     Option.bind (RbTree_find Assembler_patch_cmp (of_nat i, no_range) patches) (\<lambda>it.
       let ins = (if it \<noteq> None then ins[i := (ins ! i)\<lparr>iu := iu (ins ! i) - ucast off\<rparr>] else ins) in
       Option.bind (RbTree_find Assembler_ref_list_cmp (of_nat i, []) refs) (\<lambda>it.
         let js = (case it of None \<Rightarrow> [] | Some a \<Rightarrow> snd (rb_data (rb_node refs a))) in
         case add_offsets js off ins of
           None \<Rightarrow> Some (Inl BadPointer)
         | Some ins \<Rightarrow> link_loop patches refs n (Suc i) (off + link_size (ins ! i)) ins))"

definition CodeHeader :: "u64 \<Rightarrow> u32 \<Rightarrow> u32 \<Rightarrow> u8 list" where
  "CodeHeader n db main = le_bytes 8 n @ le_bytes 4 (ucast db) @ le_bytes 4 (ucast main)"

text \<open>The part behind the test for errors. \<open>None\<close> of \<open>VM_code_append\<close> is a read outside \<open>vmSizeTbl\<close>.\<close>

definition link_code ::
  "(nat \<Rightarrow> u8) \<Rightarrow> u8 list \<Rightarrow> Instruction list \<Rightarrow> u32 \<Rightarrow> Patch RbTreeBase \<Rightarrow> RefList RbTreeBase \<Rightarrow> Code \<Rightarrow>
    (asm_stop + (Instruction list \<times> Code)) option"
where
  "link_code junk constants ins main patches refs code =
     (let code = code @ map junk [length code..<length code + 16];
          code = code @ constants;
          db = of_nat (length code) :: u32 in
      Option.bind (link_loop patches refs (length ins) 0 db ins) (\<lambda>r.
        Some (bnd r (\<lambda>ins.
          case VM_code_append code ins of
            None \<Rightarrow> Inl BadPointer
          | Some code \<Rightarrow>
              Inr (ins, CodeHeader (of_nat (length code)) db (db + main) @ drop 16 code)))))"

definition Assembler_link :: "Code \<Rightarrow> (u32 \<times> Code) asm" where
  "Assembler_link code as =
     Option.bind (RbTree_for_each (as_patchWork as)) (\<lambda>ps.
     Option.bind
       (link_collect (Range_view (\<lambda>_. lx_text (as_lexer as))) (as_symbols as)
          (map (\<lambda>a. rb_data (rb_node (as_patchWork as) a)) ps) (as_node as) (RbTree_initWith (0, []))
          (lx_log (as_lexer as))) (\<lambda>r.
     case r of
       Inl e \<Rightarrow> Some (Inl e, as)
     | Inr (refs, log) \<Rightarrow>
         let as = as\<lparr>as_lexer := (as_lexer as)\<lparr>lx_log := log\<rparr>\<rparr> in
         if log_errors as then Some (Inr (of_nat (length code), code), as)
         else
           Option.bind
             (link_code (as_junk as) (as_constants as) (as_instructions as) (as_main as) (as_patchWork as) refs code) (\<lambda>r.
           case r of
             Inl e \<Rightarrow> Some (Inl e, as)
           | Inr (ins, code) \<Rightarrow> Some (Inr (of_nat (length code), code), as\<lparr>as_instructions := ins\<rparr>))))"

section \<open>Set-up\<close>

definition builtin_symbols :: "(string \<times> u64) list" where
  "builtin_symbols =
     [(''argc'', 16), (''argv'', 24)] @
     map (\<lambda>(n, name, _). (''__'' @ name, of_nat n))
       (filter (\<lambda>(n, name, f). f \<noteq> Missing) (List.enumerate 0 vmNativeBuiltinCallTbl)) @
     [(''__stdin'', 0), (''__stdout'', 1), (''__stderr'', 2)]"

primrec define_all :: "(string \<times> u64) list \<Rightarrow> unit asm" where
  "define_all [] = ret ()"
| "define_all (d # ds) = abind (Assembler_define (bytes_of (fst d)) (snd d)) (\<lambda>_. define_all ds)"

definition AssemblerCtx_zero :: "Lexer \<Rightarrow> (nat \<Rightarrow> u8) \<Rightarrow> AssemblerCtx" where
  "AssemblerCtx_zero lX junk =
     \<lparr>as_lexer = lX, as_curr = Token_zero, as_peek = Token_zero, as_prev = Token_zero, as_main = 0,
      as_constants = [], as_instructions = [], as_symbols = RbTree_initWith (symbol_query []),
      as_patchWork = RbTree_initWith (0, no_range), as_references = RbTree_initWith (0, RbTree_initWith 0),
      as_node = 0, as_junk = junk\<rparr>"

definition Assembler_init :: "LexEnv \<Rightarrow> Lexer \<Rightarrow> (nat \<Rightarrow> u8) \<Rightarrow> ((asm_stop + unit) \<times> AssemblerCtx) option" where
  "Assembler_init E lX junk = abind (ITP_init E) (\<lambda>_. define_all builtin_symbols) (AssemblerCtx_zero lX junk)"

section \<open>The main loop\<close>

partial_function (option) Assembler_synchronize :: "LexEnv \<Rightarrow> AssemblerCtx \<Rightarrow> ((asm_stop + unit) \<times> AssemblerCtx) option" where
  "Assembler_synchronize E as =
     Option.bind (ITP_advance E as) (\<lambda>(r, as).
       case r of
         Inl e \<Rightarrow> Some (Inl e, as)
       | Inr _ \<Rightarrow>
           if tk_kind (as_prev as) = tokNl then Some (Inr (), as)
           else if \<not> ITP_eof as then Assembler_synchronize E as
           else Some (Inr (), as))"

definition assemble_item :: "LexEnv \<Rightarrow> unit asm" where
  "assemble_item E =
     abind (reads (\<lambda>as. tk_kind (as_curr as))) (\<lambda>kind.
     if kind = tokIdentifier then
       abind (ITP_peek E) (\<lambda>tok.
       if tk_kind tok = Op tokColon then Assembler_parse_label E else Assembler_parse_instruction E)
     else if kind = Op tokDollar then Assembler_parse_var_decl E
     else if kind = tokNl \<or> kind = tokComment then abind (ITP_advance E) (\<lambda>_. ret ())
     else ITP_fail ''unsupported token'')"

text \<open>The exception that is caught makes the loop go on behind the next newline.\<close>

partial_function (option) assemble_loop :: "LexEnv \<Rightarrow> AssemblerCtx \<Rightarrow> ((asm_stop + unit) \<times> AssemblerCtx) option" where
  "assemble_loop E as =
     (if ITP_eof as then Some (Inr (), as)
      else
        Option.bind (assemble_item E as) (\<lambda>(r, as).
          case r of
            Inr _ \<Rightarrow> assemble_loop E as
          | Inl e \<Rightarrow>
              if e = ITPException then
                Option.bind (Assembler_synchronize E as) (\<lambda>(r, as).
                  case r of Inl e \<Rightarrow> Some (Inl e, as) | Inr _ \<Rightarrow> assemble_loop E as)
              else Some (Inl e, as)))"

declare Assembler_synchronize.simps [code] assemble_loop.simps [code]

definition Assembler_assemble :: "LexEnv \<Rightarrow> Code \<Rightarrow> (u32 \<times> Code) asm" where
  "Assembler_assemble E code =
     abind (assemble_loop E) (\<lambda>_.
     abind (reads log_errors) (\<lambda>errors. if errors then ret (0, code) else Assembler_link code))"

end
