(* ===== verification/Cyn_LinkUse.thy ===== *)
theory Cyn_LinkUse
  imports Cyn_Link
begin

text \<open>
  What the linker computes. The references of the labels are a function from labels to lists of
  positions, and the linked immediates are given by a closed formula over the offsets of the
  instructions.
\<close>

section \<open>Trees with a number as key\<close>

context comparator
begin

lemma find_or_add_cases:
  assumes "tree_nodes t as" "ordered cmp t as" "node \<notin> set as"
  obtains (old) p where "p \<in> set as" "RbTree_find_or_add cmp v node t = Some (False, p, t)" "cmp v (val t p) = 0"
    | (new) u xs ys where "RbTree_find_or_add cmp v node t = Some (True, node, u)" "as = xs @ ys"
      "tree_nodes u (xs @ node # ys)" "ordered cmp u (xs @ node # ys)" "val u node = v"
      "\<forall>b. b \<noteq> node \<longrightarrow> val u b = val t b" "\<forall>a \<in> set as. cmp v (val t a) \<noteq> 0"
  using find_or_add_law [OF assms, of v]
proof
  assume "\<exists>p \<in> set as. RbTree_find_or_add cmp v node t = Some (False, p, t) \<and> cmp v (val t p) = 0"
  then show thesis using old by blast
next
  assume "\<exists>u xs ys. RbTree_find_or_add cmp v node t = Some (True, node, u) \<and> as = xs @ ys \<and>
      tree_nodes u (xs @ node # ys) \<and> ordered cmp u (xs @ node # ys) \<and>
      val u node = v \<and> (\<forall>b. b \<noteq> node \<longrightarrow> val u b = val t b) \<and> (\<forall>a \<in> set as. cmp v (val t a) \<noteq> 0)"
  then show thesis by (elim exE conjE) (rule new)
qed

end

lemma ordered_keys:
  fixes key :: "'v \<Rightarrow> u32"
  assumes "\<forall>a \<in> set as. key (val t' a) = key (val t a)"
  shows "ordered (\<lambda>x y. RbTree_cmp_u32 (key x) (key y)) t' as \<longleftrightarrow> ordered (\<lambda>x y. RbTree_cmp_u32 (key x) (key y)) t as"
  using assms by (induction as) (auto simp: ordered_def)

abbreviation key_order :: "u32 \<times> 'a \<Rightarrow> u32 \<times> 'a \<Rightarrow> int" where
  "key_order \<equiv> \<lambda>x y. RbTree_cmp_u32 (fst x) (fst y)"

lemma cmp_key_order:
  "Assembler_ref_list_cmp = key_order" "Assembler_patch_cmp = key_order" "Assembler_symbol_ref_cmp = key_order"
  by (intro ext; simp add: Assembler_ref_list_cmp_def Assembler_patch_cmp_def Assembler_symbol_ref_cmp_def)+

lemma tree_nodes_upd [simp]: "tree_nodes (upd_node p (\<lambda>n. n\<lparr>rb_data := g n\<rparr>) t) as = tree_nodes t as"
proof -
  have "upd_node p (\<lambda>n. n\<lparr>rb_data := g n\<rparr>) t = upd_node p (\<lambda>n. n\<lparr>rb_data := g (rb_node t p)\<rparr>) t"
    by (simp add: upd_node_def)
  then show ?thesis by (simp only: tree_nodes_data)
qed

section \<open>References\<close>

text \<open>The tree of references holds the function \<open>m\<close> from labels to positions.\<close>

definition refs_ok :: "nat \<Rightarrow> (u32 \<Rightarrow> u32 list) \<Rightarrow> RefList RbTreeBase \<Rightarrow> bool" where
  "refs_ok node m t \<longleftrightarrow> (\<exists>as. tree_nodes t as \<and> ordered key_order t as \<and> (\<forall>a \<in> set as. a < node) \<and>
     (\<forall>a \<in> set as. snd (val t a) = m (fst (val t a))) \<and> inj_on (\<lambda>a. fst (val t a)) (set as) \<and>
     (\<forall>l. l \<notin> (\<lambda>a. fst (val t a)) ` set as \<longrightarrow> m l = []))"

lemma refs_ok_empty: "refs_ok node (\<lambda>_. []) (RbTree_initWith (0, []))"
  unfolding refs_ok_def
  by (rule exI [of _ "[]"]) (auto simp: tree_nodes_def represents_tree_def RbTree_initWith_def ordered_def intro!: exI [of _ Lf])

lemma refs_find:
  assumes "refs_ok node m t"
  shows "\<exists>it. RbTree_find key_order (l, x) t = Some it \<and>
    (case it of None \<Rightarrow> [] | Some a \<Rightarrow> snd (val t a)) = m l"
proof -
  obtain as where t: "tree_nodes t as" "ordered key_order t as" "\<forall>a \<in> set as. snd (val t a) = m (fst (val t a))"
    "\<forall>l. l \<notin> (\<lambda>a. fst (val t a)) ` set as \<longrightarrow> m l = []"
    using assms by (auto simp: refs_ok_def)
  obtain it where it: "RbTree_find key_order (l, x) t = Some it"
    "case it of None \<Rightarrow> \<forall>a \<in> set as. key_order (l, x) (val t a) \<noteq> 0 | Some a \<Rightarrow> a \<in> set as \<and> key_order (l, x) (val t a) = 0"
    using u32_order.find_law [OF t(1,2), of "(l, x)"] by blast
  show ?thesis
  proof (cases it)
    case None
    then have "l \<notin> (\<lambda>a. fst (val t a)) ` set as" using it(2) by (auto simp: RbTree_cmp_u32_sign)
    with it(1) t(4) None show ?thesis by simp
  next
    case (Some a)
    with it t(3) show ?thesis by (simp add: RbTree_cmp_u32_sign)
  qed
qed

lemma add_reference_find_or_add:
  "add_reference label pos node t =
     Option.bind (RbTree_find_or_add key_order (label, []) node t) (\<lambda>(f, p, t).
       Some (upd_node p (\<lambda>n. n\<lparr>rb_data := (fst (rb_data n), snd (rb_data n) @ [pos])\<rparr>) t))"
  by (auto simp: add_reference_def RbTree_find_or_add_def cmp_key_order Let_def split: Option.bind_splits prod.splits)

lemma add_reference_ok:
  assumes "refs_ok node m t"
  shows "\<exists>t'. add_reference label pos node t = Some t' \<and> refs_ok (Suc node) (m(label := m label @ [pos])) t'"
proof -
  let ?push = "\<lambda>n. n\<lparr>rb_data := (fst (rb_data n), snd (rb_data n) @ [pos])\<rparr>"
  obtain as where t: "tree_nodes t as" "ordered key_order t as" "\<forall>a \<in> set as. a < node"
    "\<forall>a \<in> set as. snd (val t a) = m (fst (val t a))" "inj_on (\<lambda>a. fst (val t a)) (set as)"
    "\<forall>l. l \<notin> (\<lambda>a. fst (val t a)) ` set as \<longrightarrow> m l = []"
    using assms by (auto simp: refs_ok_def)
  have fresh: "node \<notin> set as" using t(3) by auto
  have eq: "key_order (label, []) w = 0 \<longleftrightarrow> fst w = label" for w :: RefList by (auto simp: RbTree_cmp_u32_sign)
  show ?thesis
  proof (rule u32_order.find_or_add_cases [OF t(1,2) fresh, of "(label, [])", unfolded eq])
    fix p assume old: "p \<in> set as" "RbTree_find_or_add key_order (label, []) node t = Some (False, p, t)" "fst (val t p) = label"
    let ?t = "upd_node p ?push t"
    have v: "val ?t a = (if a = p then (label, m label @ [pos]) else val t a)" for a
      using old t(4) by (auto simp: upd_node_def)
    have "tree_nodes ?t as" using t(1) by simp
    moreover have "ordered key_order ?t as" using t(2) ordered_keys [of as fst ?t t] by (simp add: upd_node_def)
    moreover have "inj_on (\<lambda>a. fst (val ?t a)) (set as)" using t(5) old(3) by (simp add: v inj_on_def)
    moreover have "\<forall>a \<in> set as. snd (val ?t a) = (m(label := m label @ [pos])) (fst (val ?t a))"
      using t(4,5) old by (auto simp: v inj_on_def)
    moreover have "\<forall>l. l \<notin> (\<lambda>a. fst (val ?t a)) ` set as \<longrightarrow> (m(label := m label @ [pos])) l = []"
      using t(6) old by (auto simp: v image_iff)
    ultimately have "refs_ok (Suc node) (m(label := m label @ [pos])) ?t"
      unfolding refs_ok_def using t(3) by (intro exI [of _ as]) auto
    then show ?thesis using old by (simp add: add_reference_find_or_add)
  next
    fix u xs ys
    assume new: "RbTree_find_or_add key_order (label, []) node t = Some (True, node, u)" "as = xs @ ys"
      "tree_nodes u (xs @ node # ys)" "ordered key_order u (xs @ node # ys)" "val u node = (label, [])"
      "\<forall>b. b \<noteq> node \<longrightarrow> val u b = val t b" "\<forall>a \<in> set as. fst (val t a) \<noteq> label"
    let ?bs = "xs @ node # ys"
    define w where "w = upd_node node ?push u"
    have ml: "m label = []" by (rule t(6) [rule_format]) (use new(7) in auto)
    have v: "val w a = (if a = node then (label, m label @ [pos]) else val t a)" for a
      using new(5,6) ml by (simp add: w_def upd_node_def)
    have bound: "\<forall>a \<in> set ?bs. a < Suc node" using t(3) new(2) by (auto simp: less_Suc_eq)
    have "tree_nodes w ?bs" using new(3) by (simp add: w_def)
    moreover have "ordered key_order w ?bs" using new(4) ordered_keys [of ?bs fst w u] by (simp add: w_def upd_node_def)
    moreover have "inj_on (\<lambda>a. fst (val w a)) (set ?bs)" using t(5) new(2,7) by (auto simp: v inj_on_def)
    moreover have "\<forall>a \<in> set ?bs. snd (val w a) = (m(label := m label @ [pos])) (fst (val w a))"
      using t(4) new(2,7) by (auto simp: v)
    moreover have "\<forall>l. l \<notin> (\<lambda>a. fst (val w a)) ` set ?bs \<longrightarrow> (m(label := m label @ [pos])) l = []"
    proof (intro allI impI)
      fix l assume l: "l \<notin> (\<lambda>a. fst (val w a)) ` set ?bs"
      then have "l \<noteq> label" by (auto simp: v)
      moreover have "l \<notin> (\<lambda>a. fst (val t a)) ` set as"
      proof
        assume "l \<in> (\<lambda>a. fst (val t a)) ` set as"
        then obtain a where "a \<in> set as" "l = fst (val t a)" by blast
        moreover from this have "a \<noteq> node" using fresh by blast
        ultimately have "fst (val w a) = l" "a \<in> set ?bs" using new(2) by (simp_all add: v)
        with l show False by blast
      qed
      ultimately show "(m(label := m label @ [pos])) l = []" using t(6) by simp
    qed
    ultimately have "refs_ok (Suc node) (m(label := m label @ [pos])) w"
      unfolding refs_ok_def using bound by (intro exI [of _ ?bs]) simp
    then show ?thesis using new(1) by (simp add: w_def add_reference_find_or_add)
  qed
qed

section \<open>Symbols\<close>

text \<open>The tree of symbols holds the function \<open>tab\<close> from names to symbols.\<close>

definition symbols_ok :: "nat \<Rightarrow> (Ident \<Rightarrow> Symbol option) \<Rightarrow> Symbol RbTreeBase \<Rightarrow> bool" where
  "symbols_ok node tab t \<longleftrightarrow> (\<exists>as. tree_nodes t as \<and> ordered symbol_order t as \<and> (\<forall>a \<in> set as. a < node) \<and>
     (\<forall>a \<in> set as. tab (sy_name (val t a)) = Some (val t a)) \<and> inj_on (\<lambda>a. sy_name (val t a)) (set as) \<and>
     (\<forall>x. tab x \<noteq> None \<longrightarrow> x \<in> (\<lambda>a. sy_name (val t a)) ` set as))"

lemma symbol_order_strcmp: "symbol_order a b = strcmp (sy_name a) (sy_name b)"
  by (simp add: symbol_order_def Assembler_symbol_cmp_def Ident_equals_def RbTree_cmp_string_def strcmp_refl)

interpretation symbol_names: comparator symbol_order
  by unfold_locales
    (auto simp: symbol_order_strcmp strcmp_refl intro: strcmp_trans,
      (metis strcmp_swap neg_0_less_iff_less neg_less_0_iff_less)+)

lemma symbol_query_name [simp]: "sy_name (symbol_query x) = x"
  by (simp add: symbol_query_def)

lemma symbols_find:
  assumes "symbols_ok node tab t"
  shows "\<exists>it. RbTree_find symbol_order (symbol_query x) t = Some it \<and> map_option (val t) it = tab x \<and> (\<forall>p. it = Some p \<longrightarrow> p < node)"
proof -
  obtain as where t: "tree_nodes t as" "ordered symbol_order t as" "\<forall>a \<in> set as. tab (sy_name (val t a)) = Some (val t a)"
    "\<forall>x. tab x \<noteq> None \<longrightarrow> x \<in> (\<lambda>a. sy_name (val t a)) ` set as" "\<forall>a \<in> set as. a < node"
    using assms by (auto simp: symbols_ok_def)
  obtain it where it: "RbTree_find symbol_order (symbol_query x) t = Some it"
    "case it of None \<Rightarrow> \<forall>a \<in> set as. symbol_order (symbol_query x) (val t a) \<noteq> 0
     | Some a \<Rightarrow> a \<in> set as \<and> symbol_order (symbol_query x) (val t a) = 0"
    using symbol_names.find_law [OF t(1,2), of "symbol_query x"] by blast
  show ?thesis
  proof (cases it)
    case None
    then have "\<forall>a \<in> set as. x \<noteq> sy_name (val t a)" using it(2) by (simp add: symbol_order_strcmp strcmp_eq_0)
    then have "tab x = None" using t(4) by blast
    with it(1) None show ?thesis by simp
  next
    case (Some a)
    then have "a \<in> set as" "x = sy_name (val t a)" using it(2) by (simp_all add: symbol_order_strcmp strcmp_eq_0)
    with it(1) t(3,5) Some show ?thesis by simp
  qed
qed

section \<open>Collecting the references\<close>

text \<open>The label that a patch refers to.\<close>

definition resolve :: "(Range \<Rightarrow> u8 list option) \<Rightarrow> (Ident \<Rightarrow> Symbol option) \<Rightarrow> Patch \<Rightarrow> u32 option" where
  "resolve text_of tab p =
     (case Option.bind (text_of (snd p)) tab of
        Some s \<Rightarrow> if sy_tag s = sytLabel then Some (ucast (sy_id s)) else None
      | None \<Rightarrow> None)"

definition undefined_errors :: "(Range \<Rightarrow> u8 list option) \<Rightarrow> (Ident \<Rightarrow> Symbol option) \<Rightarrow> Patch list \<Rightarrow> Diagnostic list" where
  "undefined_errors text_of tab ps =
     map (\<lambda>p. \<lparr>d_kind = logError, d_range = snd p, d_message = ''undefined symbol '%.*s' referenced''\<rparr>)
       (filter (\<lambda>p. Option.bind (text_of (snd p)) tab = None) ps)"

definition label_refs :: "(Patch \<Rightarrow> u32 option) \<Rightarrow> Patch list \<Rightarrow> u32 \<Rightarrow> u32 list" where
  "label_refs res ps l = map fst (filter (\<lambda>p. res p = Some l) ps)"

lemma undefined_errors_Cons:
  "undefined_errors text_of tab (p # ps) =
    (if Option.bind (text_of (snd p)) tab = None
     then Log_append logError (snd p) ''undefined symbol '%.*s' referenced'' [] else []) @ undefined_errors text_of tab ps"
  by (simp add: undefined_errors_def Log_append_def)

lemma label_refs_Cons: "label_refs res (p # ps) l = (if res p = Some l then [fst p] else []) @ label_refs res ps l"
  by (simp add: label_refs_def)

lemma link_collect_law:
  assumes "symbols_ok n0 tab syms" "refs_ok node m refs" "\<forall>p \<in> set ps. text_of (snd p) \<noteq> None"
  shows "\<exists>refs' node'. link_collect text_of syms ps node refs log = Some (Inr (refs', log @ undefined_errors text_of tab ps)) \<and>
    refs_ok node' (\<lambda>l. m l @ label_refs (resolve text_of tab) ps l) refs'"
  using assms(2,3)
proof (induction ps arbitrary: node m refs log)
  case Nil
  then show ?case by (auto simp: undefined_errors_def label_refs_def)
next
  case (Cons p ps)
  obtain x where x: "text_of (snd p) = Some x" using Cons.prems(2) by auto
  obtain it where it: "RbTree_find symbol_order (symbol_query x) syms = Some it" "map_option (val syms) it = tab x"
    using symbols_find [OF assms(1)] by blast
  have ps: "\<forall>p \<in> set ps. text_of (snd p) \<noteq> None" using Cons.prems(2) by simp
  show ?case
  proof (cases it)
    case None
    with it have "tab x = None" by simp
    then have res: "resolve text_of tab p = None" using x by (simp add: resolve_def)
    from Cons.IH [OF Cons.prems(1) ps, of "Log_append logError (snd p) ''undefined symbol '%.*s' referenced'' log"]
    show ?thesis
      using x it None \<open>tab x = None\<close> by (simp add: undefined_errors_Cons label_refs_Cons res Log_append_def)
  next
    case (Some a)
    with it have tab: "tab x = Some (val syms a)" by simp
    show ?thesis
    proof (cases "sy_tag (val syms a) = sytLabel")
      case True
      obtain refs1 where r: "add_reference (ucast (sy_id (val syms a))) (fst p) node refs = Some refs1"
        "refs_ok (Suc node) (m(ucast (sy_id (val syms a)) := m (ucast (sy_id (val syms a))) @ [fst p])) refs1"
        using add_reference_ok [OF Cons.prems(1)] by blast
      have res: "resolve text_of tab p = Some (ucast (sy_id (val syms a)))" using x tab True by (simp add: resolve_def)
      have "(m(ucast (sy_id (val syms a)) := m (ucast (sy_id (val syms a))) @ [fst p])) l @ label_refs (resolve text_of tab) ps l =
          m l @ label_refs (resolve text_of tab) (p # ps) l" for l
        using res by (simp add: label_refs_Cons)
      with Cons.IH [OF r(2) ps, of log] show ?thesis
        using x it Some True r(1) tab by (simp add: undefined_errors_Cons)
    next
      case False
      then have res: "resolve text_of tab p = None" using x tab by (simp add: resolve_def)
      from Cons.IH [OF Cons.prems(1) ps, of log] x it Some tab False show ?thesis
        by (simp add: undefined_errors_Cons label_refs_Cons res)
    qed
  qed
qed

section \<open>Adding the offsets\<close>

abbreviation bump :: "u64 \<Rightarrow> Instruction \<Rightarrow> Instruction" where
  "bump d i \<equiv> i\<lparr>iu := iu i + d\<rparr>"

lemma add_offsets_law:
  assumes "\<forall>j \<in> set js. unat j < length ins" "length ins < 2 ^ 32"
  shows "\<exists>ins'. add_offsets js off ins = Some ins' \<and> length ins' = length ins \<and>
    (\<forall>k < length ins. ins' ! k = bump (of_nat (count_list js (of_nat k)) * ucast off) (ins ! k))"
  using assms
proof (induction js arbitrary: ins)
  case Nil
  then show ?case by simp
next
  case (Cons j js)
  let ?ins = "ins[unat j := bump (ucast off) (ins ! unat j)]"
  obtain ins' where i: "add_offsets js off ?ins = Some ins'" "length ins' = length ins"
    "\<forall>k < length ins. ins' ! k = bump (of_nat (count_list js (of_nat k)) * ucast off) (?ins ! k)"
    using Cons.IH [of ?ins] Cons.prems by auto
  have "ins' ! k = bump (of_nat (count_list (j # js) (of_nat k)) * ucast off) (ins ! k)" if k: "k < length ins" for k
  proof -
    have "unat (of_nat k :: u32) = k" using unat_len [of k] k Cons.prems(2) by simp
    then have "j = of_nat k \<longleftrightarrow> unat j = k" by (metis word_unat_eq_iff)
    then show ?thesis using i(3) k by (auto simp: algebra_simps)
  qed
  with i Cons.prems(1) show ?case by simp
qed

section \<open>The linking loop\<close>

definition patches_ok :: "nat \<Rightarrow> Patch list \<Rightarrow> Patch RbTreeBase \<Rightarrow> bool" where
  "patches_ok node ps t \<longleftrightarrow> (\<exists>as. tree_nodes t as \<and> ordered key_order t as \<and> (\<forall>a \<in> set as. a < node) \<and> map (val t) as = ps)"

lemma patches_find:
  assumes "patches_ok node ps t"
  shows "\<exists>it. RbTree_find key_order (l, x) t = Some it \<and> (it \<noteq> None \<longleftrightarrow> l \<in> fst ` set ps)"
proof -
  obtain as where t: "tree_nodes t as" "ordered key_order t as" "ps = map (val t) as"
    using assms by (auto simp: patches_ok_def)
  obtain it where it: "RbTree_find key_order (l, x) t = Some it"
    "case it of None \<Rightarrow> \<forall>a \<in> set as. key_order (l, x) (val t a) \<noteq> 0 | Some a \<Rightarrow> a \<in> set as \<and> key_order (l, x) (val t a) = 0"
    using u32_order.find_law [OF t(1,2), of "(l, x)"] by blast
  then show ?thesis by (cases it) (auto simp: RbTree_cmp_u32_sign t(3))
qed

lemma patches_each:
  assumes "patches_ok node ps t"
  shows "\<exists>as. RbTree_for_each t = Some as \<and> map (\<lambda>a. val t a) as = ps"
proof -
  obtain as where t: "tree_nodes t as" "ps = map (val t) as" using assms by (auto simp: patches_ok_def)
  have "RbTree_for_each t = Some as"
    using first_nodes [OF t(1)] for_each_from_suffix [of t "[]" as] t(1) by (simp add: RbTree_for_each_def)
  with t(2) show ?thesis by auto
qed

text \<open>The offset of an instruction, for the walk from an instruction on.\<close>

definition offset_from :: "u32 list \<Rightarrow> nat \<Rightarrow> u32 \<Rightarrow> nat \<Rightarrow> u32" where
  "offset_from sizes i off l = off + sum_list (take (l - i) (drop i sizes))"

definition refs_total :: "(u32 \<Rightarrow> u32 list) \<Rightarrow> (nat \<Rightarrow> u32) \<Rightarrow> nat list \<Rightarrow> nat \<Rightarrow> u64" where
  "refs_total m off ls k = sum_list (map (\<lambda>l. of_nat (count_list (m (of_nat l)) (of_nat k)) * ucast (off l)) ls)"

lemma link_size_bump [simp]: "link_size (bump d i) = link_size i"
  by (simp add: link_size_def)

lemma offset_from_step:
  assumes "i < length sizes" "i < l"
  shows "offset_from sizes (Suc i) (off + sizes ! i) l = offset_from sizes i off l"
proof -
  have "l - i = Suc (l - Suc i)" using assms(2) by simp
  moreover have "drop i sizes = sizes ! i # drop (Suc i) sizes" using assms(1) by (simp add: Cons_nth_drop_Suc)
  ultimately show ?thesis by (simp add: offset_from_def add.assoc)
qed

lemma offset_from_0 [simp]: "offset_from sizes i off i = off"
  by (simp add: offset_from_def)

lemma refs_total_cong: "(\<And>l. l \<in> set ls \<Longrightarrow> f l = g l) \<Longrightarrow> refs_total m f ls k = refs_total m g ls k"
  unfolding refs_total_def by (rule arg_cong [of _ _ sum_list]) simp

lemma link_loop_law:
  assumes "patches_ok node ps patches" "refs_ok node' m refs" "\<forall>l. \<forall>j \<in> set (m l). unat j < length ins"
    "i + n = length ins" "length ins < 2 ^ 32"
  shows "\<exists>ins'. link_loop patches refs n i off ins = Some (Inr ins') \<and> length ins' = length ins \<and>
    (\<forall>k < length ins. ins' ! k =
      bump (refs_total m (offset_from (map link_size ins) i off) [i..<length ins] k -
            (if i \<le> k \<and> of_nat k \<in> fst ` set ps then ucast (offset_from (map link_size ins) i off k) else 0)) (ins ! k))"
  using assms(3-5)
proof (induction n arbitrary: i off ins)
  case 0
  then show ?case by (auto simp: refs_total_def)
next
  case (Suc n)
  have i: "i < length ins" using Suc.prems(2) by simp
  let ?patched = "\<lambda>k. (of_nat k :: u32) \<in> fst ` set ps"
  obtain it where it: "RbTree_find key_order (of_nat i, no_range) patches = Some it" "it \<noteq> None \<longleftrightarrow> ?patched i"
    using patches_find [OF assms(1)] by blast
  define ins1 where "ins1 = (if it \<noteq> None then ins[i := (ins ! i)\<lparr>iu := iu (ins ! i) - ucast off\<rparr>] else ins)"
  have ins1: "length ins1 = length ins" "ins1 ! k = bump (if k = i \<and> ?patched i then - ucast off else 0) (ins ! k)"
    if "k < length ins" for k
    using that i it(2) by (auto simp: ins1_def nth_list_update)
  have len1: "length ins1 = length ins" by (simp add: ins1_def)
  obtain jt where jt: "RbTree_find key_order (of_nat i, []) refs = Some jt"
    "(case jt of None \<Rightarrow> [] | Some a \<Rightarrow> snd (val refs a)) = m (of_nat i)"
    using refs_find [OF assms(2)] by blast
  obtain ins2 where ins2: "add_offsets (m (of_nat i)) off ins1 = Some ins2" "length ins2 = length ins"
    "\<forall>k < length ins. ins2 ! k = bump (of_nat (count_list (m (of_nat i)) (of_nat k)) * ucast off) (ins1 ! k)"
    using add_offsets_law [of "m (of_nat i)" ins1 off] Suc.prems(1,3) len1 by auto
  have two: "ins2 ! k = bump (of_nat (count_list (m (of_nat i)) (of_nat k)) * ucast off +
      (if k = i \<and> ?patched i then - ucast off else 0)) (ins ! k)" if "k < length ins" for k
    using ins2(3) ins1(2) [OF that] that by (simp add: algebra_simps)
  have sizes: "map link_size ins2 = map link_size ins"
    by (rule nth_equalityI) (simp_all add: ins2(2) two)
  let ?off = "off + link_size (ins2 ! i)" and ?sz = "map link_size ins"
  have step: "link_loop patches refs (Suc n) i off ins = link_loop patches refs n (Suc i) ?off ins2"
    using it(1) jt ins2(1) [unfolded ins1_def] by (auto simp: cmp_key_order Let_def)
  have off: "?off = off + ?sz ! i" using two [OF i] i by simp
  have later: "offset_from ?sz (Suc i) ?off l = offset_from ?sz i off l" if "i < l" for l
    using offset_from_step [of i ?sz l off] that i off by simp
  obtain ins' where ins': "link_loop patches refs n (Suc i) ?off ins2 = Some (Inr ins')" "length ins' = length ins"
    "\<forall>k < length ins. ins' ! k =
      bump (refs_total m (offset_from ?sz (Suc i) ?off) [Suc i..<length ins] k -
            (if Suc i \<le> k \<and> ?patched k then ucast (offset_from ?sz (Suc i) ?off k) else 0)) (ins2 ! k)"
    using Suc.IH [of ins2 "Suc i" ?off] Suc.prems ins2(2) sizes by auto
  have tot: "refs_total m (offset_from ?sz i off) [i..<length ins] k =
      of_nat (count_list (m (of_nat i)) (of_nat k)) * ucast off + refs_total m (offset_from ?sz i off) [Suc i..<length ins] k" for k
    using i by (simp add: refs_total_def upt_conv_Cons)
  have tail: "refs_total m (offset_from ?sz (Suc i) ?off) [Suc i..<length ins] k =
      refs_total m (offset_from ?sz i off) [Suc i..<length ins] k" for k
    by (rule refs_total_cong) (simp add: later)
  have "ins' ! k = bump (refs_total m (offset_from ?sz i off) [i..<length ins] k -
      (if i \<le> k \<and> ?patched k then ucast (offset_from ?sz i off k) else 0)) (ins ! k)" if k: "k < length ins" for k
  proof -
    have "ins' ! k = bump (refs_total m (offset_from ?sz i off) [Suc i..<length ins] k -
            (if Suc i \<le> k \<and> ?patched k then ucast (offset_from ?sz i off k) else 0)) (ins2 ! k)"
      using ins'(3) k later [of k] by (auto simp: tail)
    also have "\<dots> = bump (refs_total m (offset_from ?sz i off) [i..<length ins] k -
      (if i \<le> k \<and> ?patched k then ucast (offset_from ?sz i off k) else 0)) (ins ! k)"
      unfolding two [OF k] tot by (cases "k = i") (auto simp: algebra_simps)
    finally show ?thesis .
  qed
  with step ins'(1,2) show ?case by simp
qed

section \<open>Instructions as the parser makes them\<close>

text \<open>
  An instruction whose size the linker computes as the encoder does: the mode of a single immediate
  argument stands in both fields.
\<close>

definition assembled :: "Instruction \<Rightarrow> bool" where
  "assembled i \<longleftrightarrow> osz i \<noteq> 0 \<and> (osz i = 1 \<longrightarrow> rmd i = amReg \<and> \<not> iea i) \<and>
     (osz i = 2 \<longrightarrow> \<not> iea i \<and> (rmd i = amImm \<longrightarrow> ra i = ucast (mode_code (ims i))))"

lemma assembled_bump [simp]: "assembled (bump d i) = assembled i"
  by (simp add: assembled_def)

lemma mode_code_4: "(ucast (mode_code m) :: 4 word) < 4" "Mode_of (ucast (ucast (mode_code m) :: 4 word)) = m"
  by (cases m; simp add: Mode_of_def)+

lemma assembled_encodable: "assembled i \<Longrightarrow> encodable i"
  by (auto simp: assembled_def encodable_def mode_code_4)

lemma assembled_size:
  assumes "assembled i"
  shows "link_size i = of_nat (length (instr_bytes i))"
proof (rule osz_cases [of i])
  assume "osz i = 0"
  with assms show ?thesis by (simp add: assembled_def)
next
  assume "osz i = 1"
  with assms show ?thesis by (simp add: assembled_def link_size_def instr_bytes_def attr_bytes_def has_imm_def)
next
  assume "osz i = 2"
  with assms show ?thesis
    by (auto simp: assembled_def link_size_def instr_bytes_def attr_bytes_def has_imm_def imm_mode_def mode_code_4)
next
  assume "osz i = 3"
  with assms show ?thesis
    by (auto simp: assembled_def link_size_def instr_bytes_def attr_bytes_def has_imm_def imm_mode_def)
qed

lemma length_instr_bytes_bump [simp]: "length (instr_bytes (bump d i)) = length (instr_bytes i)"
  by (simp add: instr_bytes_def attr_bytes_def has_imm_def imm_mode_def)

section \<open>The linked program\<close>

text \<open>
  The address of the label that a patch refers to; a label behind the last instruction, and a
  variable, count as address 0.
\<close>

definition target :: "(Patch \<Rightarrow> u32 option) \<Rightarrow> nat \<Rightarrow> Instruction list \<Rightarrow> Patch \<Rightarrow> nat" where
  "target res base ins p =
     (case res p of
        Some l \<Rightarrow> if unat l < length ins then base + offset ins (unat l) else 0
      | None \<Rightarrow> 0)"

definition patches_of :: "Patch list \<Rightarrow> nat \<Rightarrow> Patch list" where
  "patches_of ps k = filter (\<lambda>p. fst p = of_nat k) ps"

definition displacement :: "(Patch \<Rightarrow> u32 option) \<Rightarrow> Patch list \<Rightarrow> nat \<Rightarrow> Instruction list \<Rightarrow> nat \<Rightarrow> u64" where
  "displacement res ps base ins k =
     sum_list (map (\<lambda>p. of_nat (target res base ins p)) (patches_of ps k)) -
     (if patches_of ps k \<noteq> [] then of_nat (base + offset ins k) else 0)"

definition linked :: "(Patch \<Rightarrow> u32 option) \<Rightarrow> Patch list \<Rightarrow> nat \<Rightarrow> Instruction list \<Rightarrow> Instruction list" where
  "linked res ps base ins = map (\<lambda>k. bump (displacement res ps base ins k) (ins ! k)) [0..<length ins]"

lemma length_linked [simp]: "length (linked res ps base ins) = length ins"
  by (simp add: linked_def)

lemma linked_nth: "k < length ins \<Longrightarrow> linked res ps base ins ! k = bump (displacement res ps base ins k) (ins ! k)"
  by (simp add: linked_def)

lemma offset_linked: "offset (linked res ps base ins) k = offset ins k"
proof -
  have "map (\<lambda>i. length (instr_bytes i)) (linked res ps base ins) = map (\<lambda>i. length (instr_bytes i)) ins"
    by (rule nth_equalityI) (simp_all add: linked_nth)
  then have "map (\<lambda>i. length (instr_bytes i)) (take k (linked res ps base ins)) = map (\<lambda>i. length (instr_bytes i)) (take k ins)"
    by (metis take_map)
  then show ?thesis by (simp add: offset_def length_concat comp_def)
qed

lemma offset_mono:
  assumes "a \<le> b"
  shows "offset ins a \<le> offset ins b"
proof -
  have "take b ins = take a ins @ take (b - a) (drop a ins)" using take_add [of a "b - a" ins] assms by simp
  then show ?thesis by (simp add: offset_def)
qed

lemma offset_sizes:
  assumes "\<forall>i \<in> set ins. assembled i"
  shows "offset_from (map link_size ins) 0 (of_nat base) k = of_nat (base + offset ins k)"
proof -
  have "sum_list (map link_size (take k ins)) = of_nat (offset ins k)"
    if "\<forall>i \<in> set (take k ins). assembled i" for k ins
    using that
  proof (induction "take k ins" arbitrary: k ins)
    case Nil
    then have "take k ins = []" by simp
    then show ?case unfolding offset_def by (simp only: list.map concat.simps list.size sum_list.Nil) simp
  next
    case (Cons i xs)
    then obtain k' ins' where "k = Suc k'" "ins = i # ins'" "xs = take k' ins'" by (cases k; cases ins) auto
    with Cons show ?case by (simp add: offset_def assembled_size)
  qed
  moreover have "\<forall>i \<in> set (take k ins). assembled i" using assms set_take_subset [of k ins] by blast
  ultimately show ?thesis by (simp add: offset_from_def take_map)
qed

lemma sum_list_at: "sum_list (map (\<lambda>l. if l = a then f l else 0) [0..<n]) = (if a < n then f a else (0 :: u64))"
  by (induction n) auto

lemma refs_total_patches:
  assumes "length ins < 2 ^ 32" "\<And>l. l < length ins \<Longrightarrow> ucast (off l) = (of_nat (base + offset ins l) :: u64)"
  shows "refs_total (label_refs res ps) off [0..<length ins] k =
    sum_list (map (\<lambda>p. of_nat (target res base ins p)) (patches_of ps k))"
proof (induction ps)
  case Nil
  then show ?case by (simp add: refs_total_def label_refs_def patches_of_def sum_list_triv)
next
  case (Cons p ps)
  let ?f = "\<lambda>l. if res p = Some (of_nat l) \<and> fst p = of_nat k then ucast (off l) else (0 :: u64)"
  let ?g = "\<lambda>l. of_nat (count_list (label_refs res ps (of_nat l)) (of_nat k)) * (ucast (off l) :: u64)"
  have "of_nat (count_list (label_refs res (p # ps) (of_nat l)) (of_nat k)) * ucast (off l) = ?f l + ?g l" for l
    by (auto simp: label_refs_Cons algebra_simps)
  then have "refs_total (label_refs res (p # ps)) off [0..<length ins] k = sum_list (map (\<lambda>l. ?f l + ?g l) [0..<length ins])"
    by (simp only: refs_total_def)
  then have "refs_total (label_refs res (p # ps)) off [0..<length ins] k =
      sum_list (map ?f [0..<length ins]) + refs_total (label_refs res ps) off [0..<length ins] k"
    by (simp only: refs_total_def sum_list_addf)
  moreover have "sum_list (map (\<lambda>l. if res p = Some (of_nat l) \<and> fst p = of_nat k then ucast (off l) else 0) [0..<length ins]) =
      (if fst p = of_nat k then of_nat (target res base ins p) else (0 :: u64))"
  proof (cases "res p")
    case None
    then show ?thesis by (simp add: target_def sum_list_triv)
  next
    case (Some l)
    have "res p = Some (of_nat j) \<longleftrightarrow> j = unat l" if "j \<in> set [0..<length ins]" for j
    proof -
      have "unat (of_nat j :: u32) = j" using that assms(1) by (intro unat_len) simp
      then show ?thesis using Some by (metis option.inject word_unat_eq_iff)
    qed
    then have "map ?f [0..<length ins] =
        map (\<lambda>j. if j = unat l then (if fst p = of_nat k then ucast (off j) else 0) else (0 :: u64)) [0..<length ins]"
      by (intro map_cong refl) auto
    then have eq: "sum_list (map ?f [0..<length ins]) =
        (if unat l < length ins then if fst p = of_nat k then ucast (off (unat l)) else 0 else (0 :: u64))"
      by (simp only: sum_list_at)
    show ?thesis unfolding eq using Some assms(2) [of "unat l"] by (simp add: target_def)
  qed
  ultimately show ?case by (simp add: Cons.IH patches_of_def)
qed

section \<open>The result of the linker\<close>

lemma ucast_of_nat_32: "n < 2 ^ 32 \<Longrightarrow> ucast (of_nat n :: u32) = (of_nat n :: u64)"
  by (rule word_unat_eq_iff [THEN iffD2]) (simp add: unsigned_ucast_eq take_bit_nat_eq_self unat_of_nat)

lemma length_program: "length ins \<le> length (concat (map instr_bytes ins))"
  by (induction ins) (simp_all add: instr_bytes_def attr_bytes_def)

text \<open>A state after parsing without errors, with its table of symbols and its patches.\<close>

definition ready :: "AssemblerCtx \<Rightarrow> (Ident \<Rightarrow> Symbol option) \<Rightarrow> Patch list \<Rightarrow> bool" where
  "ready as tab ps \<longleftrightarrow> \<not> log_errors as \<and> symbols_ok (as_node as) tab (as_symbols as) \<and>
     patches_ok (as_node as) ps (as_patchWork as) \<and>
     (\<forall>p \<in> set ps. Range_view (\<lambda>_. lx_text (as_lexer as)) (snd p) \<noteq> None \<and> unat (fst p) < length (as_instructions as)) \<and>
     (\<forall>i \<in> set (as_instructions as). assembled i)"

definition label_of :: "AssemblerCtx \<Rightarrow> (Ident \<Rightarrow> Symbol option) \<Rightarrow> Patch \<Rightarrow> u32 option" where
  "label_of as tab = resolve (Range_view (\<lambda>_. lx_text (as_lexer as))) tab"

definition data_end :: "AssemblerCtx \<Rightarrow> nat" where
  "data_end as = 16 + length (as_constants as)"

definition program_size :: "AssemblerCtx \<Rightarrow> nat" where
  "program_size as = data_end as + offset (as_instructions as) (length (as_instructions as))"

definition linked_code :: "AssemblerCtx \<Rightarrow> (Ident \<Rightarrow> Symbol option) \<Rightarrow> Patch list \<Rightarrow> Code" where
  "linked_code as tab ps =
     CodeHeader (of_nat (program_size as)) (of_nat (data_end as)) (of_nat (data_end as) + as_main as) @ as_constants as @
     concat (map instr_bytes (linked (label_of as tab) ps (data_end as) (as_instructions as)))"

lemma link_code_law:
  assumes "patches_ok node ps patches" "refs_ok node' (label_refs res ps) refs" "\<forall>p \<in> set ps. unat (fst p) < length ins"
    "\<forall>i \<in> set ins. assembled i" "base = 16 + length constants" "base + offset ins (length ins) < 2 ^ 31"
  shows "link_code junk constants ins main patches refs [] =
    Some (Inr (linked res ps base ins,
      CodeHeader (of_nat (base + offset ins (length ins))) (of_nat base) (of_nat base + main) @ constants @
      concat (map instr_bytes (linked res ps base ins))))"
proof -
  let ?sz = "map link_size ins" and ?ins = "linked res ps base ins"
  have small: "length ins \<le> offset ins (length ins)"
    by (simp add: offset_def length_program)
  have off: "offset_from ?sz 0 (of_nat base) k = of_nat (base + offset ins k)" for k using offset_sizes [OF assms(4)] .
  have off64: "ucast (offset_from ?sz 0 (of_nat base) k) = (of_nat (base + offset ins k) :: u64)" if "k \<le> length ins" for k
    using assms(6) offset_mono [OF that, of ins] by (simp only: off) (rule ucast_of_nat_32, simp)
  have "\<forall>l. \<forall>j \<in> set (label_refs res ps l). unat j < length ins" using assms(3) by (auto simp: label_refs_def)
  from link_loop_law [OF assms(1,2) this, of 0 "length ins" "of_nat base"] small assms(6) obtain ins' where
    ins': "link_loop patches refs (length ins) 0 (of_nat base) ins = Some (Inr ins')" "length ins' = length ins"
    "\<forall>k < length ins. ins' ! k =
      bump (refs_total (label_refs res ps) (offset_from ?sz 0 (of_nat base)) [0..<length ins] k -
            (if of_nat k \<in> fst ` set ps then ucast (offset_from ?sz 0 (of_nat base) k) else 0)) (ins ! k)" by auto
  have tot: "refs_total (label_refs res ps) (offset_from ?sz 0 (of_nat base)) [0..<length ins] k =
      sum_list (map (\<lambda>p. of_nat (target res base ins p)) (patches_of ps k))" for k
    using small assms(6) off64 by (intro refs_total_patches) simp_all
  have "of_nat k \<in> fst ` set ps \<longleftrightarrow> patches_of ps k \<noteq> []" for k
    by (force simp: patches_of_def filter_empty_conv)
  then have "ins' = ?ins"
    using ins'(2,3) off64 by (intro nth_equalityI) (auto simp: linked_nth displacement_def tot)
  moreover have enc: "\<forall>i \<in> set ?ins. encodable i"
    using assms(4) by (auto simp: linked_def intro!: assembled_encodable)
  moreover have "length (concat (map instr_bytes ?ins)) = offset ins (length ins)"
    using offset_linked [of res ps base ins "length ins"] by (simp add: offset_def)
  moreover have "length (map junk [0..<16] @ constants) = base" using assms(5) by simp
  ultimately show ?thesis
    using ins'(1) by (simp add: link_code_def Let_def VM_code_append_encodable assms(5) add.assoc)
qed

lemma undefined_none:
  "undefined_errors text_of tab ps = [] \<longleftrightarrow> (\<forall>p \<in> set ps. Option.bind (text_of (snd p)) tab \<noteq> None)"
  by (auto simp: undefined_errors_def filter_empty_conv)

lemma link_collected:
  assumes "ready as tab ps"
  shows "\<exists>refs node'. refs_ok node' (label_refs (label_of as tab) ps) refs \<and>
    Assembler_link code as =
      (let as = as\<lparr>as_lexer := (as_lexer as)\<lparr>lx_log := lx_log (as_lexer as) @
             undefined_errors (Range_view (\<lambda>_. lx_text (as_lexer as))) tab ps\<rparr>\<rparr> in
         if log_errors as then Some (Inr (of_nat (length code), code), as)
         else
           Option.bind
             (link_code (as_junk as) (as_constants as) (as_instructions as) (as_main as) (as_patchWork as) refs code) (\<lambda>r.
           case r of
             Inl e \<Rightarrow> Some (Inl e, as)
           | Inr (ins, code) \<Rightarrow> Some (Inr (of_nat (length code), code), as\<lparr>as_instructions := ins\<rparr>)))"
proof -
  have s: "symbols_ok (as_node as) tab (as_symbols as)" "patches_ok (as_node as) ps (as_patchWork as)"
    "\<forall>p \<in> set ps. Range_view (\<lambda>_. lx_text (as_lexer as)) (snd p) \<noteq> None"
    using assms by (auto simp: ready_def)
  obtain ns where ns: "RbTree_for_each (as_patchWork as) = Some ns" "map (\<lambda>a. val (as_patchWork as) a) ns = ps"
    using patches_each [OF s(2)] by blast
  from link_collect_law [OF s(1) refs_ok_empty s(3), of "as_node as" "lx_log (as_lexer as)"] obtain refs node' where
    "link_collect (Range_view (\<lambda>_. lx_text (as_lexer as))) (as_symbols as) ps (as_node as) (RbTree_initWith (0, []))
       (lx_log (as_lexer as)) =
     Some (Inr (refs, lx_log (as_lexer as) @ undefined_errors (Range_view (\<lambda>_. lx_text (as_lexer as))) tab ps))"
    "refs_ok node' (label_refs (label_of as tab) ps) refs"
    by (auto simp: label_of_def)
  then show ?thesis using ns by (auto simp: Assembler_link_def Let_def)
qed

lemma Assembler_link_law:
  assumes "ready as tab ps" and "\<forall>p \<in> set ps. Option.bind (Range_view (\<lambda>_. lx_text (as_lexer as)) (snd p)) tab \<noteq> None"
    and "program_size as < 2 ^ 31"
  shows "Assembler_link [] as =
    Some (Inr (of_nat (program_size as), linked_code as tab ps),
      as\<lparr>as_instructions := linked (label_of as tab) ps (data_end as) (as_instructions as)\<rparr>)"
proof -
  have r: "patches_ok (as_node as) ps (as_patchWork as)" "\<forall>p \<in> set ps. unat (fst p) < length (as_instructions as)"
    "\<forall>i \<in> set (as_instructions as). assembled i" "\<not> log_errors as"
    using assms(1) by (auto simp: ready_def)
  obtain refs node' where refs: "refs_ok node' (label_refs (label_of as tab) ps) refs"
    "Assembler_link [] as = (let as = as in
         if log_errors as then Some (Inr (of_nat (length []), []), as)
         else
           Option.bind
             (link_code (as_junk as) (as_constants as) (as_instructions as) (as_main as) (as_patchWork as) refs []) (\<lambda>r.
           case r of
             Inl e \<Rightarrow> Some (Inl e, as)
           | Inr (ins, code) \<Rightarrow> Some (Inr (of_nat (length code), code), as\<lparr>as_instructions := ins\<rparr>)))"
    using link_collected [OF assms(1), of "[]"] undefined_none [THEN iffD2, OF assms(2)] by auto
  have n: "length (linked_code as tab ps) = program_size as"
    using offset_linked [of "label_of as tab" ps "data_end as" "as_instructions as" "length (as_instructions as)"]
    by (simp add: linked_code_def CodeHeader_def program_size_def data_end_def offset_def)
  have "link_code (as_junk as) (as_constants as) (as_instructions as) (as_main as) (as_patchWork as) refs [] =
    Some (Inr (linked (label_of as tab) ps (data_end as) (as_instructions as), linked_code as tab ps))"
    using link_code_law [OF r(1) refs(1) r(2,3), of "data_end as" "as_constants as" "as_junk as" "as_main as"] assms(3)
    by (simp add: linked_code_def program_size_def data_end_def)
  then show ?thesis using refs(2) r(4) n by (simp add: Let_def)
qed


section \<open>An example\<close>

text \<open>\<open>jmp e\<close> with one instruction behind it and \<open>e\<close> the label of that instruction.\<close>

definition demo_jump :: Instruction where
  "demo_jump = instr0\<lparr>osz := 2, opc := 3, ra := 2, rmd := amImm, imd := szQuad, ims := szWord\<rparr>"

definition demo_halt :: Instruction where
  "demo_halt = instr0\<lparr>osz := 1, imd := szQuad\<rparr>"

definition demo_patch :: Patch where
  "demo_patch = (0, \<lparr>r_start = 4, r_end = 5, r_coord = \<lparr>lc_line = 0, lc_column = 4\<rparr>, r_source = Some 0\<rparr>)"

definition demo_label :: Symbol where
  "demo_label = \<lparr>sy_id = 1, sy_size = 0, sy_tag = sytLabel, sy_name = bytes_of ''e'', sy_range = no_range\<rparr>"

definition single :: "nat \<Rightarrow> 'v \<Rightarrow> 'v RbTreeBase" where
  "single a v = \<lparr>rb_root = Some a,
     rb_node = (\<lambda>_. \<lparr>rb_left = None, rb_right = None, rb_parent = None, rb_color = rbtBlack, rb_data = v\<rparr>)\<rparr>"

definition demo_linkable :: AssemblerCtx where
  "demo_linkable = (AssemblerCtx_zero (demo_lexer (bytes_of ''jmp e'')) (\<lambda>_. 0))\<lparr>as_instructions := [demo_jump, demo_halt],
     as_symbols := single 0 demo_label, as_patchWork := single 1 demo_patch, as_node := 2\<rparr>"

lemma single_nodes: "tree_nodes (single a v) [a]" "val (single a v) b = v"
  by (auto simp: tree_nodes_def represents_tree_def single_def intro!: exI [of _ "Nd Lf a rbtBlack Lf"])

lemma demo_log: "lx_log (demo_lexer text) = []"
proof -
  obtain lX where i: "Lexer_init [] False 0 text = Some lX" using init_total by blast
  then have "lx_log lX = []" by (auto simp: Lexer_init_def Lexer_reset_def)
  then show ?thesis by (simp add: demo_lexer_def i)
qed

lemma demo_ready: "ready demo_linkable [bytes_of ''e'' \<mapsto> demo_label] [demo_patch]"
proof -
  have "symbols_ok 2 [bytes_of ''e'' \<mapsto> demo_label] (single 0 demo_label)"
    unfolding symbols_ok_def by (rule exI [of _ "[0]"]) (auto simp: single_nodes ordered_def demo_label_def split: if_splits)
  moreover have "patches_ok 2 [demo_patch] (single 1 demo_patch)"
    unfolding patches_ok_def by (rule exI [of _ "[1]"]) (auto simp: single_nodes ordered_def)
  moreover have "Range_view (\<lambda>_. bytes_of ''jmp e'') (snd demo_patch) \<noteq> None"
    by (simp add: Range_view_def demo_patch_def bytes_of_def)
  ultimately show ?thesis
    by (simp add: ready_def demo_linkable_def AssemblerCtx_zero_def log_errors_def demo_log demo_lexer_ok demo_jump_def
        demo_halt_def assembled_def instr0_def demo_patch_def)
qed

lemma demo_fields: "as_instructions demo_linkable = [demo_jump, demo_halt]" "as_constants demo_linkable = []"
  "as_main demo_linkable = 0" "lx_text (as_lexer demo_linkable) = bytes_of ''jmp e''"
  by (simp_all add: demo_linkable_def AssemblerCtx_zero_def demo_lexer_ok)

lemma demo_lengths: "length (instr_bytes demo_jump) = 6" "length (instr_bytes demo_halt) = 1"
  by code_simp+

lemma demo_sizes: "data_end demo_linkable = 16" "program_size demo_linkable = 23" "offset [demo_jump, demo_halt] 0 = 0"
  "offset [demo_jump, demo_halt] (Suc 0) = 6"
  by (simp_all add: data_end_def program_size_def demo_fields offset_def demo_lengths)

lemma demo_target: "Range_view (\<lambda>_. bytes_of ''jmp e'') (snd demo_patch) = Some (bytes_of ''e'')"
  by (simp add: Range_view_def demo_patch_def bytes_of_def)


end
