(* ===== verification/Cyn_Program.thy ===== *)
theory Cyn_Program
  imports Cyn_LinkUse Cyn_Stack
begin

text \<open>
  The linker and the machine together: an instruction that the assembler linked is the one that the
  machine fetches at its offset, and a jump to a label goes to the instruction behind the label.
\<close>

section \<open>Displacements\<close>

lemma ucast_of_int_32: "ucast (word_of_int k :: u64) = (word_of_int k :: u32)"
  by (rule bit_word_eqI) (simp add: bit_simps)

lemma scast_of_int_32: "scast (word_of_int k :: u32) = (word_of_int (signed_take_bit 31 k) :: u64)"
  by (rule bit_word_eqI) (auto simp: bit_simps min_def)

lemma sext_word_small:
  assumes "a < 2 ^ 31" "b < 2 ^ 31"
  shows "sext szWord (of_nat a - of_nat b) = of_nat a - of_nat b"
proof -
  have d: "(of_nat a - of_nat b :: u64) = word_of_int (int a - int b)" by simp
  have "signed_take_bit 31 (int a - int b) = int a - int b"
    using assms by (intro signed_take_bit_int_eq_self) auto
  then show ?thesis unfolding d by (simp only: sext.simps ucast_of_int_32 scast_of_int_32)
qed

section \<open>The code in the machine\<close>

definition loaded :: "AssemblerCtx \<Rightarrow> (Ident \<Rightarrow> Symbol option) \<Rightarrow> Patch list \<Rightarrow> 'w VM \<Rightarrow> bool" where
  "loaded as tab ps vm \<longleftrightarrow> ready as tab ps \<and> program_size as < 2 ^ 31 \<and> vcode vm = linked_code as tab ps"

text \<open>The machine stands before the instruction \<open>k\<close>.\<close>

definition at_instruction :: "AssemblerCtx \<Rightarrow> nat \<Rightarrow> 'w VM \<Rightarrow> bool" where
  "at_instruction as k vm \<longleftrightarrow> REG vm ip = of_nat (data_end as + offset (as_instructions as) k)"

lemma length_linked_code: "length (linked_code as tab ps) = program_size as"
  using offset_linked [of "label_of as tab" ps "data_end as" "as_instructions as" "length (as_instructions as)"]
  by (simp add: linked_code_def CodeHeader_def program_size_def data_end_def offset_def)

lemma fetch_linked:
  assumes "loaded as tab ps vm" "at_instruction as k vm" "k < length (as_instructions as)"
  shows "VM_fetch vm =
    Inr (decoded (bump (displacement (label_of as tab) ps (data_end as) (as_instructions as) k) (as_instructions as ! k)),
      REG vm ip, set_reg ip (of_nat (data_end as + offset (as_instructions as) (Suc k))) vm)"
proof -
  let ?ins = "linked (label_of as tab) ps (data_end as) (as_instructions as)"
  let ?hdr = "CodeHeader (of_nat (program_size as)) (of_nat (data_end as)) (of_nat (data_end as) + as_main as) @ as_constants as"
  have hdr: "length ?hdr = data_end as" by (simp add: CodeHeader_def data_end_def)
  have "vcode vm = ?hdr @ concat (map instr_bytes ?ins) @ []"
    using assms(1) by (simp add: loaded_def linked_code_def)
  moreover have "\<forall>i \<in> set ?ins. encodable i"
    using assms(1) by (auto simp: loaded_def ready_def linked_def intro!: assembled_encodable)
  moreover have "length (vcode vm) < 2 ^ 31" using assms(1) by (simp add: loaded_def length_linked_code)
  moreover have "k < length ?ins" using assms(3) by simp
  moreover have "REG vm ip = of_nat (length ?hdr + offset ?ins k)"
    using assms(2) by (simp only: at_instruction_def hdr offset_linked)
  ultimately have "VM_fetch vm = Inr (decoded (?ins ! k), REG vm ip, set_reg ip (of_nat (length ?hdr + offset ?ins (Suc k))) vm)"
    by (rule VM_fetch_nth)
  then show ?thesis by (simp only: hdr offset_linked linked_nth [OF assms(3)])
qed

section \<open>Jumps to labels\<close>

text \<open>A jump instruction with a label as its argument, as the parser makes it.\<close>

definition label_jump :: "OpCode \<Rightarrow> Instruction \<Rightarrow> bool" where
  "label_jump opr i \<longleftrightarrow> opr \<in> {opJmp, opJmpz, opJmpnz, opJmpg, opJmps} \<and> OpCode_of (opc i) = Some opr \<and> osz i = 2 \<and>
     rmd i = amImm \<and> \<not> iam i \<and> ims i = szWord \<and> iu i = 0"

lemma execute_jump:
  assumes "label_jump opr i" "assembled i" "a < 2 ^ 31" "b < 2 ^ 31" "iip = of_nat b"
  shows "VM_execute sys (decoded (bump (of_nat a - of_nat b) i)) iip vm =
    Inr (if jump_taken opr vm then set_reg ip (of_nat a) vm else vm)"
proof -
  have m: "imm_mode (bump d i) = szWord" for d
    using assms(1,2) by (simp add: label_jump_def assembled_def imm_mode_def Mode_of_def)
  define j where "j = decoded (bump (of_nat a - of_nat b) i)"
  have j: "osz j = 2" "rmd j = amImm" "\<not> iam j" "ims j = szWord" "iu j = of_nat a - of_nat b" "OpCode_of (opc j) = Some opr"
    using assms(1) m sext_word_small [OF assms(3,4)]
    by (simp_all add: j_def decoded_def label_jump_def has_imm_def del: sext.simps)
  have r: "read_loc vm (LImm (of_nat a - of_nat b)) (TB j) = Inr (of_nat a - of_nat b)"
    using sext_word_small [OF assms(3,4)] by (simp add: TB_def reg_form_def j VM_read_reg del: sext.simps)
  have e: "exec_op sys opr j iip rA rB vm = exec_jump opr j iip rA vm" for rA rB
    using assms(1) by (auto simp: label_jump_def exec_op_def)
  show ?thesis
    unfolding j_def [symmetric] VM_execute_def operands_def imm_operand_def
    by (simp add: j e [unfolded assms(5)] exec_jump_def r assms(5) del: read_loc.simps)
qed

text \<open>
  C9. In a linked program a jump to a label goes to the instruction behind the label if its
  condition holds, and to the next instruction if not, whatever the sizes of the instructions between them.
\<close>

theorem label_jumps:
  assumes "loaded as tab ps vm" and "at_instruction as k vm" and "k < length (as_instructions as)"
    and "label_jump opr (as_instructions as ! k)" and "patches_of ps k = [p]"
    and "label_of as tab p = Some l" and "unat l < length (as_instructions as)"
  shows "\<exists>vm'. VM_step sys vm = Inr vm' \<and> at_instruction as (if jump_taken opr vm then unat l else Suc k) vm' \<and>
    vm' = set_reg ip (REG vm' ip) vm"
proof -
  let ?ins = "as_instructions as" and ?base = "data_end as"
  have ok: "assembled (?ins ! k)" "program_size as < 2 ^ 31"
    using assms(1,3) by (auto simp: loaded_def ready_def)
  have d: "displacement (label_of as tab) ps ?base ?ins k = of_nat (?base + offset ?ins (unat l)) - of_nat (?base + offset ?ins k)"
    using assms(5-7) by (simp add: displacement_def target_def)
  have small: "?base + offset ?ins j < 2 ^ 31" if "j < length ?ins" for j
    using ok(2) offset_mono [of j "length ?ins" ?ins] that by (simp add: program_size_def)
  have flag: "jump_taken opr (set_reg ip v vm) = jump_taken opr vm" for v
    by (simp add: jump_taken_def set_reg_def split: OpCode.split)
  show ?thesis
    using execute_jump [OF assms(4) ok(1) small [OF assms(7)] small [OF assms(3)], of "REG vm ip" sys] assms(2)
    by (auto simp: VM_step_def fetch_linked [OF assms(1-3)] d flag at_instruction_def simp del: of_nat_add)
qed

text \<open>The program \<open>jmp e\<close>, \<open>halt\<close> of \<open>demo_linkable\<close>: after the jump the machine stands before \<open>halt\<close>.\<close>

definition demo_machine :: "unit VM" where
  "demo_machine = set_reg ip 16 (idle_vm (linked_code demo_linkable [bytes_of ''e'' \<mapsto> demo_label] [demo_patch]))"

theorem label_jumps_witness:
  "\<exists>vm. VM_step (\<lambda>_ _ vm. (0, vm)) demo_machine = Inr vm \<and> REG vm ip = 22"
proof -
  have l: "label_of demo_linkable [bytes_of ''e'' \<mapsto> demo_label] demo_patch = Some 1"
    by (simp add: label_of_def resolve_def demo_fields demo_target) (simp add: demo_label_def)
  have p: "patches_of [demo_patch] 0 = [demo_patch]" by (simp add: patches_of_def demo_patch_def)
  have m: "loaded demo_linkable [bytes_of ''e'' \<mapsto> demo_label] [demo_patch] demo_machine" "at_instruction demo_linkable 0 demo_machine"
    by (simp_all add: loaded_def demo_ready demo_sizes demo_machine_def idle_vm_def at_instruction_def demo_fields)
  have j: "label_jump opJmp (as_instructions demo_linkable ! 0)"
    by (simp add: demo_fields label_jump_def demo_jump_def instr0_def OpCode_of_def opcCOUNT_def vmOpCodes_def)
  from label_jumps [OF m _ j p l, of "\<lambda>_ _ vm. (0, vm)"] show ?thesis
    by (auto simp: demo_fields jump_taken_def at_instruction_def demo_sizes)
qed

end
