(* ===== verification/Cyn_Macros.thy ===== *)
theory Cyn_Macros
  imports Cyn_Code
begin

text \<open>
  The instruction macros of \<^verbatim>\<open>include/vm/instr.h\<close>. A macro is a brace initializer with named fields: the
  fields that it does not name are zero, and of two initializers of a field the later one counts. So
  an argument is a function that sets fields of an instruction, and an instruction macro applies its
  arguments in their order to an instruction that has the operation code and the size. The optional
  arguments (\<open>__VA_ARGS__\<close>) are composed with the last argument.
\<close>

section \<open>Operation codes\<close>

definition op_code :: "OpCode \<Rightarrow> 6 word" where
  "op_code opr = of_nat (length (takeWhile (\<lambda>x. fst x \<noteq> opr) vmOpCodes))"

lemma OpCode_of_op_code [simp]: "OpCode_of (op_code opr) = Some opr"
  by (cases opr; simp add: OpCode_of_def op_code_def vmOpCodes_def opcCOUNT_def)

section \<open>Arguments\<close>

type_synonym field_init = "Instruction \<Rightarrow> Instruction"

definition B0 :: "OpCode \<Rightarrow> 2 word \<Rightarrow> Instruction" where
  "B0 opr sz = instr0\<lparr>osz := sz, opc := op_code opr\<rparr>"

definition BA :: "Register \<Rightarrow> bool \<Rightarrow> field_init" where
  "BA r m i = i\<lparr>ra := reg_code r, iam := m\<rparr>"

definition BB :: "Register \<Rightarrow> bool \<Rightarrow> field_init" where
  "BB r m i = i\<lparr>ibm := m, rb := reg_code r\<rparr>"

definition BX :: "ArgMode \<Rightarrow> field_init" where
  "BX m i = i\<lparr>rmd := m\<rparr>"

definition mRa :: "Register \<Rightarrow> field_init" where "mRa r = BA r True"
definition rRa :: "Register \<Rightarrow> field_init" where "rRa r = BA r False"
definition mRaX :: "Register \<Rightarrow> field_init" where "mRaX r i = BX amReg (BA r True i)"
definition rRaX :: "Register \<Rightarrow> field_init" where "rRaX r i = BX amReg (BA r False i)"
definition mRb :: "Register \<Rightarrow> field_init" where "mRb r i = BX amReg (BB r True i)"
definition rRb :: "Register \<Rightarrow> field_init" where "rRb r i = BX amReg (BB r False i)"

definition mIMa :: "Mode \<Rightarrow> u64 \<Rightarrow> field_init" where
  "mIMa m n i = i\<lparr>iam := True, rmd := amImm, ra := ucast (mode_code m), iu := n\<rparr>"

definition xIMa :: "Mode \<Rightarrow> u64 \<Rightarrow> field_init" where
  "xIMa m n i = i\<lparr>iam := False, rmd := amImm, ra := ucast (mode_code m), iu := n\<rparr>"

definition mIMb :: "Mode \<Rightarrow> u64 \<Rightarrow> field_init" where
  "mIMb m n i = i\<lparr>ibm := True, rmd := amImm, ims := m, iu := n\<rparr>"

definition rbEA :: "Register \<Rightarrow> Mode \<Rightarrow> u64 \<Rightarrow> field_init" where
  "rbEA r m n i = (mRb r i)\<lparr>ims := m, iea := True, iu := n\<rparr>"

definition xIMb :: "Mode \<Rightarrow> u64 \<Rightarrow> field_init" where
  "xIMb m n i = i\<lparr>ibm := False, rmd := amImm, ims := m, iu := n\<rparr>"

definition sIMb :: "Mode \<Rightarrow> u64 \<Rightarrow> field_init" where
  "sIMb m n i = i\<lparr>ibm := False, rmd := amImm, ims := m, iu := n\<rparr>"

definition dB :: field_init where "dB i = i\<lparr>imd := szByte\<rparr>"
definition dS :: field_init where "dS i = i\<lparr>imd := szShort\<rparr>"
definition dW :: field_init where "dW i = i\<lparr>imd := szWord\<rparr>"
definition dQ :: field_init where "dQ i = i\<lparr>imd := szQuad\<rparr>"

lemmas init_defs = B0_def BA_def BB_def BX_def mRa_def rRa_def mRaX_def rRaX_def mRb_def rRb_def mIMa_def xIMa_def
  mIMb_def rbEA_def xIMb_def sIMb_def dB_def dS_def dW_def dQ_def

section \<open>Instructions\<close>

definition cHALT :: Instruction where "cHALT = B0 opHalt 1"
definition cDBG :: Instruction where "cDBG = B0 opDbg 1"

definition cRET :: "field_init \<Rightarrow> Instruction" where "cRET A = A (B0 opRet 2)"
definition cJMP :: "field_init \<Rightarrow> Instruction" where "cJMP A = A (B0 opJmp 2)"
definition cJMPZ :: "field_init \<Rightarrow> Instruction" where "cJMPZ A = A (B0 opJmpz 2)"
definition cJMPNZ :: "field_init \<Rightarrow> Instruction" where "cJMPNZ A = A (B0 opJmpnz 2)"
definition cJMPG :: "field_init \<Rightarrow> Instruction" where "cJMPG A = A (B0 opJmpg 2)"
definition cJMPS :: "field_init \<Rightarrow> Instruction" where "cJMPS A = A (B0 opJmps 2)"
definition cNOT :: "field_init \<Rightarrow> Instruction" where "cNOT A = A (B0 opNot 2)"
definition cBNOT :: "field_init \<Rightarrow> Instruction" where "cBNOT A = A (B0 opBNot 2)"
definition cINC :: "field_init \<Rightarrow> Instruction" where "cINC A = A (B0 opInc 2)"
definition cDEC :: "field_init \<Rightarrow> Instruction" where "cDEC A = A (B0 opDec 2)"
definition cPUSH :: "field_init \<Rightarrow> Instruction" where "cPUSH A = A (B0 opPush 2)"
definition cPOP :: "field_init \<Rightarrow> Instruction" where "cPOP A = A (B0 opPop 2)"
definition cPOPN :: "field_init \<Rightarrow> Instruction" where "cPOPN A = A (B0 opPopn 2)"
definition cPUTI :: "field_init \<Rightarrow> Instruction" where "cPUTI A = A (B0 opPuti 2)"
definition cPUTS :: "field_init \<Rightarrow> Instruction" where "cPUTS A = A (B0 opPuts 2)"
definition cPUTC :: "field_init \<Rightarrow> Instruction" where "cPUTC A = A (B0 opPutc 2)"
definition cNCALL :: "field_init \<Rightarrow> Instruction" where "cNCALL A = A (B0 opNcall 2)"
definition cDLLOC :: "field_init \<Rightarrow> Instruction" where "cDLLOC A = A (B0 opDlloc 2)"

definition cALLOCA :: "field_init \<Rightarrow> field_init \<Rightarrow> Instruction" where "cALLOCA A B = B (A (B0 opAlloca 3))"
definition cRMEM :: "field_init \<Rightarrow> field_init \<Rightarrow> Instruction" where "cRMEM A B = B (A (B0 opRmem 3))"
definition cMOV :: "field_init \<Rightarrow> field_init \<Rightarrow> Instruction" where "cMOV A B = B (A (B0 opMov 3))"
definition cADD :: "field_init \<Rightarrow> field_init \<Rightarrow> Instruction" where "cADD A B = B (A (B0 opAdd 3))"
definition cSUB :: "field_init \<Rightarrow> field_init \<Rightarrow> Instruction" where "cSUB A B = B (A (B0 opSub 3))"
definition cAND :: "field_init \<Rightarrow> field_init \<Rightarrow> Instruction" where "cAND A B = B (A (B0 opAnd 3))"
definition cOR :: "field_init \<Rightarrow> field_init \<Rightarrow> Instruction" where "cOR A B = B (A (B0 opOr 3))"
definition cSAR :: "field_init \<Rightarrow> field_init \<Rightarrow> Instruction" where "cSAR A B = B (A (B0 opSar 3))"
definition cSAL :: "field_init \<Rightarrow> field_init \<Rightarrow> Instruction" where "cSAL A B = B (A (B0 opSal 3))"
definition cXOR :: "field_init \<Rightarrow> field_init \<Rightarrow> Instruction" where "cXOR A B = B (A (B0 opXor 3))"
definition cBOR :: "field_init \<Rightarrow> field_init \<Rightarrow> Instruction" where "cBOR A B = B (A (B0 opBor 3))"
definition cBAND :: "field_init \<Rightarrow> field_init \<Rightarrow> Instruction" where "cBAND A B = B (A (B0 opBand 3))"
definition cMUL :: "field_init \<Rightarrow> field_init \<Rightarrow> Instruction" where "cMUL A B = B (A (B0 opMul 3))"
definition cDIV :: "field_init \<Rightarrow> field_init \<Rightarrow> Instruction" where "cDIV A B = B (A (B0 opDiv 3))"
definition cMOD :: "field_init \<Rightarrow> field_init \<Rightarrow> Instruction" where "cMOD A B = B (A (B0 opMod 3))"
definition cCMP :: "field_init \<Rightarrow> field_init \<Rightarrow> Instruction" where "cCMP A B = B (A (B0 opCmp 3))"
definition cCALL :: "field_init \<Rightarrow> field_init \<Rightarrow> Instruction" where "cCALL A B = B (A (B0 opCall 3))"
definition cALLOC :: "field_init \<Rightarrow> field_init \<Rightarrow> Instruction" where "cALLOC A B = B (A (B0 opAlloc 3))"

lemmas instr_macros =
  cHALT_def cDBG_def cRET_def cJMP_def cJMPZ_def cJMPNZ_def cJMPG_def cJMPS_def cNOT_def cBNOT_def cINC_def cDEC_def cPUSH_def cPOP_def cPOPN_def cPUTI_def cPUTS_def cPUTC_def cNCALL_def cDLLOC_def
  cALLOCA_def cRMEM_def cMOV_def cADD_def cSUB_def cAND_def cOR_def cSAR_def cSAL_def cXOR_def cBOR_def cBAND_def cMUL_def cDIV_def cMOD_def cCMP_def cCALL_def cALLOC_def

section \<open>What can be encoded\<close>

text \<open>
  An instruction of one argument takes the register form or the immediate form of argument A, and one of two arguments a
  register form for A and any form for B. The machine reads back what such a macro has built: the mode of an immediate
  A moves to \<open>ims\<close> and an immediate is sign-extended from its mode.
\<close>

inductive_set arg_a :: "field_init set" where
  rA: "rRa r \<in> arg_a" | mA: "mRa r \<in> arg_a"

inductive_set arg_a_imm :: "field_init set" where
  xIa: "xIMa m n \<in> arg_a_imm" | mIa: "mIMa m n \<in> arg_a_imm"

inductive_set arg_b :: "field_init set" where
  rB: "rRb r \<in> arg_b" | mB: "mRb r \<in> arg_b" | eaB: "rbEA r m n \<in> arg_b" | xIb: "xIMb m n \<in> arg_b" | mIb: "mIMb m n \<in> arg_b"

lemma mode_code_less: "(ucast (mode_code m) :: 4 word) < 4"
  by (cases m) simp_all

lemma sext_zero [simp]: "sext m 0 = 0"
  by (cases m) simp_all

lemma reg_operand_encodable:
  assumes "A \<in> arg_a"
  shows "encodable (A (B0 opr 2)) \<and> decoded (A (B0 opr 2)) = A (B0 opr 2)"
  using assms by (cases rule: arg_a.cases) (auto simp: init_defs encodable_def decoded_def has_imm_def instr0_def)

lemma imm_operand_encodable:
  assumes "A \<in> arg_a_imm"
  shows "encodable (A (B0 opr 2)) \<and> decoded (A (B0 opr 2)) =
    (A (B0 opr 2))\<lparr>ra := 0, ims := imm_mode (A (B0 opr 2)), iu := sext (imm_mode (A (B0 opr 2))) (iu (A (B0 opr 2)))\<rparr>"
  using assms by (cases rule: arg_a_imm.cases)
    (auto simp: init_defs encodable_def decoded_def has_imm_def instr0_def mode_code_less simp del: sext.simps)

lemma two_operands_encodable:
  assumes "A \<in> arg_a" "B \<in> arg_b"
  shows "encodable (B (A (B0 opr 3))) \<and> decoded (B (A (B0 opr 3))) =
    (B (A (B0 opr 3)))\<lparr>iu := sext (imm_mode (B (A (B0 opr 3)))) (iu (B (A (B0 opr 3))))\<rparr>"
  using assms by (elim arg_a.cases arg_b.cases)
    (auto simp: init_defs encodable_def decoded_def has_imm_def imm_mode_def instr0_def simp del: sext.simps)

end
