(* ===== verification/Cyn_Builder.thy ===== *)
theory Cyn_Builder
  imports Cyn_Link Cyn_Macros
begin

text \<open>
  The code builder of the compiler (\<^verbatim>\<open>src/vm/builder.c\<close>, \<^verbatim>\<open>include/vm/builder.h\<close>): it collects constants,
  instructions, symbols and references, and links them with the same linker as the assembler. An
  operation is a function on the state that returns a value or stops, as those of the assembler;
  \<open>None\<close> is a loop that does not end.

  When a symbol is missing or defined twice the source calls \<open>ITP_fail\<close> on the builder, which is
  no token parser: the log is looked for behind a pointer that is made of other fields.
  This stops with \<open>BadPointer\<close>.
\<close>

section \<open>State\<close>

text \<open>
  \<open>bu_counts\<close> is the counter of generated names (\<open>sVariableCounts\<close> of \<^verbatim>\<open>src/compiler/common/ident.c\<close>),
  \<open>bu_node\<close> the address of the next tree node, \<open>bu_junk\<close> what fresh memory of the code holds.
\<close>

record Builder =
  bu_main :: u32
  bu_constants :: "u8 list"
  bu_instructions :: "Instruction list"
  bu_symbols :: "Symbol RbTreeBase"
  bu_patchWork :: "Patch RbTreeBase"
  bu_references :: "SymbolRefers RbTreeBase"
  bu_log :: "Diagnostic list"
  bu_node :: nat
  bu_counts :: u32
  bu_junk :: "nat \<Rightarrow> u8"

type_synonym 'a builder = "Builder \<Rightarrow> ((asm_stop + 'a) \<times> Builder) option"

definition bret :: "'a \<Rightarrow> 'a builder" where
  "bret x B = Some (Inr x, B)"

definition bstop :: "asm_stop \<Rightarrow> 'a builder" where
  "bstop e B = Some (Inl e, B)"

definition bbind :: "'a builder \<Rightarrow> ('a \<Rightarrow> 'b builder) \<Rightarrow> 'b builder" where
  "bbind m f B =
     (case m B of
        None \<Rightarrow> None
      | Some (Inl e, B) \<Rightarrow> Some (Inl e, B)
      | Some (Inr x, B) \<Rightarrow> f x B)"

definition bthen :: "unit builder \<Rightarrow> 'b builder \<Rightarrow> 'b builder" where
  "bthen m n = bbind m (\<lambda>_. n)"

section \<open>Symbols\<close>

definition Builder_symbol_cmp :: "Symbol \<Rightarrow> u32 \<Rightarrow> Symbol \<Rightarrow> int" where
  "Builder_symbol_cmp aa len bb =
     (if Ident_equals (sy_name aa) (sy_name bb) then 0 else RbTree_cmp_string (sy_name aa) len (sy_name bb))"

definition Builder_patch_cmp :: "Patch \<Rightarrow> Patch \<Rightarrow> int" where
  "Builder_patch_cmp aa bb = RbTree_cmp_u32 (fst aa) (fst bb)"

definition Builder_ref_list_cmp :: "RefList \<Rightarrow> RefList \<Rightarrow> int" where
  "Builder_ref_list_cmp aa bb = RbTree_cmp_u32 (fst aa) (fst bb)"

text \<open>The search passes the length of the name, so names count as equal up to it. What is returned is the
  address of the node, which the source casts to that of a symbol.\<close>

definition Builder_findSymbol :: "Ident \<Rightarrow> nat builder" where
  "Builder_findSymbol name B =
     (case RbTree_find (\<lambda>a b. Builder_symbol_cmp a (of_nat (length name)) b) (symbol_query name) (bu_symbols B) of
        None \<Rightarrow> None
      | Some None \<Rightarrow> Some (Inl BadPointer, B)
      | Some (Some p) \<Rightarrow> Some (Inr p, B))"

definition Builder_store :: "Ident \<Rightarrow> asm_stop \<Rightarrow> Symbol \<Rightarrow> nat builder" where
  "Builder_store name e s B =
     (case RbTree_find_or_add_ref (\<lambda>a b. Builder_symbol_cmp a 0 b) (symbol_query name) (Some (bu_node B)) (bu_symbols B) of
        None \<Rightarrow> None
      | Some (f, p, t) \<Rightarrow>
          let B = B\<lparr>bu_symbols := t, bu_node := Suc (bu_node B)\<rparr> in
          if \<not> f then Some (Inl e, B)
          else Some (Inr p, B\<lparr>bu_symbols := upd_node p (\<lambda>n. n\<lparr>rb_data := s\<rparr>) t\<rparr>))"

definition Builder_addSymbol :: "u32 \<Rightarrow> SymbolTag \<Rightarrow> Ident \<Rightarrow> Range \<Rightarrow> nat builder" where
  "Builder_addSymbol pos tag name r =
     Builder_store name BadPointer \<lparr>sy_id = ucast pos, sy_size = 0, sy_tag = tag, sy_name = name, sy_range = r\<rparr>"

definition Builder_addSymbolReference :: "u32 \<Rightarrow> Ident \<Rightarrow> Range \<Rightarrow> bool \<Rightarrow> u32 builder" where
  "Builder_addSymbolReference pos name r addToPatchWork B =
     (case RbTree_find (\<lambda>a b. Builder_symbol_cmp a 0 b) (symbol_query name) (bu_symbols B) of
        None \<Rightarrow> None
      | Some it \<Rightarrow>
          let s = map_option (\<lambda>p. rb_data (rb_node (bu_symbols B) p)) it in
          if s = None \<or> sy_tag (the s) = sytLabel then
            if addToPatchWork then
              case RbTree_add Builder_patch_cmp (pos, r) (bu_node B) (bu_patchWork B) of
                None \<Rightarrow> None
              | Some t \<Rightarrow> Some (Inr 0, B\<lparr>bu_patchWork := t, bu_node := Suc (bu_node B)\<rparr>)
            else Some (Inl BadPointer, B)
          else Some (Inr (ucast (sy_id (the s))), B))"

text \<open>A second definition of a built-in name ends the program.\<close>

definition Builder_define :: "Ident \<Rightarrow> u64 \<Rightarrow> nat builder" where
  "Builder_define name value =
     Builder_store name (Fatal LexAbort)
       \<lparr>sy_id = value, sy_size = 0, sy_tag = sytDefine, sy_name = name, sy_range = no_range\<rparr>"

section \<open>Instructions and data\<close>

definition Builder_appendInstruction :: "Instruction \<Rightarrow> unit builder" where
  "Builder_appendInstruction i B = Some (Inr (), B\<lparr>bu_instructions := bu_instructions B @ [i]\<rparr>)"

definition Builder_appendString :: "u8 list \<Rightarrow> u32 builder" where
  "Builder_appendString str B =
     (let pos = of_nat (length (bu_constants B)) + 16 in
      Some (Inr pos, B\<lparr>bu_constants := bu_constants B @ str\<rparr>))"

definition Builder_pos :: "u32 builder" where
  "Builder_pos B = Some (Inr (of_nat (length (bu_instructions B))), B)"

definition Builder_appendIntegralData :: "i64 \<Rightarrow> Mode \<Rightarrow> u32 builder" where
  "Builder_appendIntegralData value mode B =
     Some (Inr (of_nat (vmSizeTbl mode)), B\<lparr>bu_constants := bu_constants B @ VM_write value mode\<rparr>)"

section \<open>Linking\<close>

text \<open>The function is that of the assembler on another record: the loops are the ones of \<open>Assembler_link\<close>.\<close>

definition Builder_link :: "Sources \<Rightarrow> Code \<Rightarrow> (u32 \<times> Code) builder" where
  "Builder_link srcs code B =
     Option.bind (RbTree_for_each (bu_patchWork B)) (\<lambda>ps.
     Option.bind
       (link_collect (Range_view srcs) (bu_symbols B) (map (\<lambda>a. rb_data (rb_node (bu_patchWork B) a)) ps)
          (bu_node B) (RbTree_initWith (0, [])) (bu_log B)) (\<lambda>r.
     case r of
       Inl e \<Rightarrow> Some (Inl e, B)
     | Inr (refs, log) \<Rightarrow>
         let B = B\<lparr>bu_log := log\<rparr> in
         if \<exists>d \<in> set log. d_kind d = logError then Some (Inr (of_nat (length code), code), B)
         else
           Option.bind
             (link_code (bu_junk B) (bu_constants B) (bu_instructions B) (bu_main B) (bu_patchWork B) refs code) (\<lambda>r.
           case r of
             Inl e \<Rightarrow> Some (Inl e, B)
           | Inr (ins, code) \<Rightarrow> Some (Inr (of_nat (length code), code), B\<lparr>bu_instructions := ins\<rparr>))))"

section \<open>Set-up\<close>

primrec builder_defines :: "(string \<times> u64) list \<Rightarrow> unit builder" where
  "builder_defines [] = bret ()"
| "builder_defines (d # ds) = bbind (Builder_define (bytes_of (fst d)) (snd d)) (\<lambda>_. builder_defines ds)"

text \<open>\<open>main\<close> is what the allocator cleared; no operation of the builder sets it.\<close>

definition Builder_zero :: "Diagnostic list \<Rightarrow> nat \<Rightarrow> u32 \<Rightarrow> (nat \<Rightarrow> u8) \<Rightarrow> Builder" where
  "Builder_zero L node counts junk =
     \<lparr>bu_main = 0, bu_constants = [], bu_instructions = [], bu_symbols = RbTree_initWith (symbol_query []),
      bu_patchWork = RbTree_initWith (0, no_range), bu_references = RbTree_initWith (0, RbTree_initWith 0),
      bu_log = L, bu_node = node, bu_counts = counts, bu_junk = junk\<rparr>"

definition Builder_create :: "Diagnostic list \<Rightarrow> nat \<Rightarrow> u32 \<Rightarrow> (nat \<Rightarrow> u8) \<Rightarrow> ((asm_stop + unit) \<times> Builder) option" where
  "Builder_create L node counts junk = builder_defines builtin_symbols (Builder_zero L node counts junk)"

end
