(* ===== verification/Cyn_Type.thy ===== *)
theory Cyn_Type
  imports Cyn_Prelude
begin

text \<open>
  The types of the compiler (\<^verbatim>\<open>src/compiler/type.c\<close>, \<^verbatim>\<open>include/compiler/type.h\<close>). A type is an object in
  memory that begins with its kind, size and alignment; what follows depends on the constructor that made
  it, which is not always the kind that it says it is. Two types are first compared as pointers, so an
  object has its address. Pointers between types go to objects that existed before, so a type is a
  finite tree.
\<close>

section \<open>Types\<close>

datatype TypeId = tpVoid | tpBool | tpChar | tpInteger | tpFloat | tpString | tpPointer | tpArray | tpStruct | tpFunc

datatype Type = MkType (tp_at: nat) (tp_id: TypeId) (tp_size: u32) (tp_align: u32) (tp_body: TypeBody)
  and TypeBody = NoBody | isSigned bool | pointee Type | elem Type u32 | members "(u8 list \<times> Type) list" int | returns Type

text \<open>The static objects, at the first addresses.\<close>

definition voidType :: Type where "voidType = MkType 0 tpVoid 0 0 NoBody"
definition boolType :: Type where "boolType = MkType 1 tpBool 1 0 NoBody"
definition charType :: Type where "charType = MkType 2 tpChar 4 0 NoBody"
definition f32Type :: Type where "f32Type = MkType 3 tpFloat 4 0 NoBody"
definition f64Type :: Type where "f64Type = MkType 4 tpFloat 8 0 NoBody"
definition i8Type :: Type where "i8Type = MkType 5 tpInteger 1 0 (isSigned True)"
definition u8Type :: Type where "u8Type = MkType 6 tpInteger 1 0 (isSigned False)"
definition i16Type :: Type where "i16Type = MkType 7 tpInteger 2 0 (isSigned True)"
definition u16Type :: Type where "u16Type = MkType 8 tpInteger 2 0 (isSigned False)"
definition i32Type :: Type where "i32Type = MkType 9 tpInteger 4 0 (isSigned True)"
definition u32Type :: Type where "u32Type = MkType 10 tpInteger 4 0 (isSigned False)"
definition i64Type :: Type where "i64Type = MkType 11 tpInteger 8 0 (isSigned True)"
definition u64Type :: Type where "u64Type = MkType 12 tpInteger 8 0 (isSigned False)"

definition static_types :: "Type list" where
  "static_types = [voidType, boolType, charType, f32Type, f64Type, i8Type, u8Type, i16Type, u16Type, i32Type, u32Type,
     i64Type, u64Type]"

lemmas static_type_defs = voidType_def boolType_def charType_def f32Type_def f64Type_def i8Type_def u8Type_def
  i16Type_def u16Type_def i32Type_def u32Type_def i64Type_def u64Type_def

text \<open>The constructors of the header; \<open>at\<close> is the address of the new object.\<close>

definition Type_func :: "nat \<Rightarrow> Type \<Rightarrow> Type" where
  "Type_func at r = MkType at tpFloat 8 0 (returns r)"

definition Type_pointer :: "nat \<Rightarrow> Type \<Rightarrow> Type" where
  "Type_pointer at target = MkType at tpPointer 8 8 (pointee target)"

definition Type_array :: "nat \<Rightarrow> Type \<Rightarrow> u32 \<Rightarrow> Type" where
  "Type_array at e len = MkType at tpArray (tp_size e * len) (tp_align e) (elem e len)"

definition Type_string :: "nat \<Rightarrow> u32 \<Rightarrow> Type" where
  "Type_string at len = MkType at tpString len 8 NoBody"

text \<open>\<open>None\<close>: the fields of a pointer or an array are read from an object that has none.\<close>

fun Type_is_same :: "Type \<Rightarrow> Type \<Rightarrow> bool option" where
  "Type_is_same (MkType a i n l b) rhs =
     (if a = tp_at rhs then Some True
      else if i \<noteq> tp_id rhs then Some False
      else case i of
        tpPointer \<Rightarrow> (case (b, tp_body rhs) of (pointee p, pointee q) \<Rightarrow> Type_is_same p q | _ \<Rightarrow> None)
      | tpArray \<Rightarrow>
          (case (b, tp_body rhs) of
             (elem e len, elem e' len') \<Rightarrow> if len = len' then Type_is_same e e' else Some False
           | _ \<Rightarrow> None)
      | tpStruct \<Rightarrow> Some False
      | tpFunc \<Rightarrow> Some False
      | _ \<Rightarrow> Some True)"

section \<open>What the comparison sees\<close>

text \<open>The types that the constructors make.\<close>

inductive made :: "Type \<Rightarrow> bool" where
  static: "t \<in> set static_types \<Longrightarrow> made t"
| func: "made r \<Longrightarrow> made (Type_func at r)"
| pointer: "made t \<Longrightarrow> made (Type_pointer at t)"
| array: "made e \<Longrightarrow> made (Type_array at e len)"
| string: "made (Type_string at len)"

text \<open>The shape of a type is what is left without sizes, signs and the results of functions.\<close>

datatype type_shape = Flat TypeId | ToShape type_shape | ArrayOf type_shape u32

fun shape_of :: "Type \<Rightarrow> type_shape" where
  "shape_of (MkType a i n l b) =
     (case b of
        pointee t \<Rightarrow> ToShape (shape_of t)
      | elem e len \<Rightarrow> ArrayOf (shape_of e) len
      | _ \<Rightarrow> Flat i)"

text \<open>An address has one object.\<close>

definition one_memory :: "Type set \<Rightarrow> bool" where
  "one_memory T \<longleftrightarrow> (\<forall>s \<in> T. \<forall>t \<in> T. tp_at s = tp_at t \<longrightarrow> s = t)"

fun parts :: "Type \<Rightarrow> Type set" where
  "parts (MkType a i n l b) =
     insert (MkType a i n l b) (case b of pointee t \<Rightarrow> parts t | elem e len \<Rightarrow> parts e | _ \<Rightarrow> {})"

lemma parts_self [simp]: "t \<in> parts t"
  by (cases t) simp

lemma one_memoryD: "one_memory T \<Longrightarrow> s \<in> T \<Longrightarrow> t \<in> T \<Longrightarrow> tp_at s = tp_at t \<Longrightarrow> s = t"
  by (simp add: one_memory_def)

lemma one_memory_mono: "one_memory T \<Longrightarrow> S \<subseteq> T \<Longrightarrow> one_memory S"
  by (auto simp: one_memory_def)

lemma made_static: "made (MkType a i n l b) \<Longrightarrow> i \<noteq> tpPointer \<Longrightarrow> i \<noteq> tpArray \<Longrightarrow>
    i \<noteq> tpStruct \<and> i \<noteq> tpFunc \<and> (\<forall>t. b \<noteq> pointee t) \<and> (\<forall>e len. b \<noteq> elem e len)"
  by (erule made.cases) (auto simp: static_types_def static_type_defs Type_func_def Type_pointer_def Type_array_def Type_string_def)

lemma made_pointer: "made (MkType a tpPointer n l b) \<Longrightarrow> \<exists>t. b = pointee t \<and> made t"
  by (erule made.cases) (auto simp: static_types_def static_type_defs Type_func_def Type_pointer_def Type_array_def Type_string_def)

lemma made_array: "made (MkType a tpArray n l b) \<Longrightarrow> \<exists>e len. b = elem e len \<and> made e"
  by (erule made.cases) (auto simp: static_types_def static_type_defs Type_func_def Type_pointer_def Type_array_def Type_string_def)

lemma shape_of_flat: "made (MkType a i n l b) \<Longrightarrow> i \<noteq> tpPointer \<Longrightarrow> i \<noteq> tpArray \<Longrightarrow> shape_of (MkType a i n l b) = Flat i"
  using made_static [of a i n l b] by (cases b) auto

lemma is_same_shape:
  assumes "made s" "made t" "one_memory (parts s \<union> parts t)"
  shows "Type_is_same s t = Some (shape_of s = shape_of t)"
  using assms
proof (induction s t rule: Type_is_same.induct)
  case (1 a i n l b rhs)
  obtain a' i' n' l' b' where rhs: "rhs = MkType a' i' n' l' b'" by (cases rhs)
  show ?case
  proof (cases "a = a'")
    case True
    then have "MkType a i n l b = rhs"
      by (intro one_memoryD [OF "1.prems"(3)] UnI1 [OF parts_self] UnI2 [OF parts_self]) (simp add: rhs)
    then show ?thesis using True rhs by simp
  next
    case False
    consider (ptr) "i = tpPointer" | (arr) "i = tpArray" | (flat) "i \<noteq> tpPointer" "i \<noteq> tpArray" by blast
    then show ?thesis
    proof cases
      case ptr
      then obtain p where p: "b = pointee p" "made p" using made_pointer "1.prems"(1) by blast
      show ?thesis
      proof (cases "i' = tpPointer")
        case True
        then obtain q where q: "b' = pointee q" "made q" using made_pointer "1.prems"(2) rhs by blast
        have "one_memory (parts p \<union> parts q)" by (rule one_memory_mono [OF "1.prems"(3)]) (auto simp: rhs p q)
        with "1.IH"(1) [of _ _ p q] p q ptr True False rhs show ?thesis by simp
      next
        case oth: False
        then show ?thesis using ptr p False made_array [of a' n' l' b'] "1.prems"(2) shape_of_flat [of a' i' n' l' b'] rhs
          by (cases "i' = tpArray") auto
      qed
    next
      case arr
      then obtain p len where p: "b = elem p len" "made p" using made_array "1.prems"(1) by blast
      show ?thesis
      proof (cases "i' = tpArray")
        case True
        then obtain q len' where q: "b' = elem q len'" "made q" using made_array "1.prems"(2) rhs by blast
        have "one_memory (parts p \<union> parts q)" by (rule one_memory_mono [OF "1.prems"(3)]) (auto simp: rhs p q)
        with "1.IH"(2) [of _ _ p len q len'] p q arr True False rhs show ?thesis by simp
      next
        case oth: False
        then show ?thesis using arr p False made_pointer [of a' n' l' b'] "1.prems"(2) shape_of_flat [of a' i' n' l' b'] rhs
          by (cases "i' = tpPointer") auto
      qed
    next
      case flat
      have s: "shape_of (MkType a i n l b) = Flat i" using shape_of_flat flat "1.prems"(1) by blast
      have k: "i \<noteq> tpStruct" "i \<noteq> tpFunc" using made_static [OF "1.prems"(1) flat] by auto
      show ?thesis
      proof (cases "i = i'")
        case True
        then have "shape_of rhs = Flat i" using shape_of_flat flat "1.prems"(2) rhs by blast
        then show ?thesis using s True False flat k rhs by (cases i) auto
      next
        case oth: False
        have "shape_of rhs \<noteq> Flat i"
        proof (cases "i' = tpPointer \<or> i' = tpArray")
          case True
          then show ?thesis using made_pointer made_array "1.prems"(2) rhs by fastforce
        next
          case False
          then show ?thesis using shape_of_flat "1.prems"(2) rhs oth by auto
        qed
        then show ?thesis using s oth False rhs by auto
      qed
    qed
  qed
qed

text \<open>
  C39. On types that the constructors make, with one object at each address, the comparison returns
  and sees the shape only: it is an equivalence, pointers and arrays are compared by what they point to or
  hold, but all integers are the same whatever their size and sign, and so are floats and functions.
\<close>

theorem Type_is_same_shape:
  assumes "made s" and "made t" and "one_memory (parts s \<union> parts t)"
  shows "Type_is_same s t = Some (shape_of s = shape_of t) \<and>
    Type_is_same i8Type u64Type = Some True \<and> Type_is_same (Type_func 13 voidType) f32Type = Some True"
  using is_same_shape [OF assms] by (simp add: static_type_defs Type_func_def)

theorem Type_is_same_shape_witness:
  "Type_is_same (Type_pointer 13 i8Type) (Type_pointer 14 boolType) = Some False"
proof -
  have "made (Type_pointer 13 i8Type)" "made (Type_pointer 14 boolType)"
    by (auto intro!: made.intros simp: static_types_def)
  from Type_is_same_shape [OF this] show ?thesis
    by (simp add: Type_pointer_def static_type_defs one_memory_def)
qed

end
