(* ===== verification/Cyn_Codegen.thy ===== *)
theory Cyn_Codegen
  imports Cyn_Builder Cyn_Type Cyn_VM
begin

unbundle bit_operations_syntax

text \<open>
  The syntax trees of the compiler (\<^verbatim>\<open>include/compiler/ast.h\<close>) and its code generator
  (\<^verbatim>\<open>src/compiler/codegen.c\<close>). A node has its source range and type; optional parts are null pointers in
  the source. A float literal is kept as its bits; the conversion to the immediate, which C does by
  value, is a parameter. The code of an expression leaves its value in \<open>r5\<close>; that of a variable its address in \<open>r4\<close>.
\<close>

section \<open>Syntax trees\<close>

record AstNodeInf =
  an_range :: Range
  an_type :: "Type option"

datatype AstNode =
    astBoolLit AstNodeInf bool
  | astCharLit AstNodeInf u32
  | astIntegerLit AstNodeInf u64
  | astFloatLit AstNodeInf u64
  | astStringLit AstNodeInf "u8 list"
  | astStringExpr AstNodeInf "AstNode list"
  | astUnaryExpr AstNodeInf TokenKind AstNode
  | astPrefixExpr AstNodeInf TokenKind AstNode
  | astPostfixExpr AstNodeInf TokenKind AstNode
  | astBinaryExpr AstNodeInf TokenKind AstNode AstNode
  | astLogicExpr AstNodeInf TokenKind AstNode AstNode
  | astTernaryExpr AstNodeInf AstNode AstNode AstNode
  | astVarExpr AstNodeInf Ident u32
  | astAssignExpr AstNodeInf AstNode AstNode
  | astRefExpr AstNodeInf AstNode
  | astDerefExpr AstNodeInf AstNode
  | astMemberExpr AstNodeInf AstNode Ident
  | astFuncCallExpr AstNodeInf AstNode "AstNode list"
  | astStmtExpr AstNodeInf AstNode
  | astExprStmt AstNodeInf AstNode
  | astBlockStmt AstNodeInf "AstNode list"
  | astVarDeclStmt AstNodeInf Ident "AstNode option"
  | astIfStmt AstNodeInf AstNode AstNode "AstNode option"
  | astForStmt AstNodeInf "AstNode option" "AstNode option" "AstNode option" AstNode
  | astWhileStmt AstNodeInf AstNode AstNode
  | astDoWhileStmt AstNodeInf AstNode AstNode
  | astSwitchStmt AstNodeInf AstNode "AstNode list"
  | astCaseStmt AstNodeInf AstNode AstNode
  | astBreakStmt AstNodeInf
  | astContinueStmt AstNodeInf
  | astFuncDecl AstNodeInf Ident "AstNode list"
  | astStructDecl AstNodeInf Ident "AstNode list"

primrec node_inf :: "AstNode \<Rightarrow> AstNodeInf" where
  "node_inf (astBoolLit i _) = i" | "node_inf (astCharLit i _) = i" | "node_inf (astIntegerLit i _) = i"
| "node_inf (astFloatLit i _) = i" | "node_inf (astStringLit i _) = i" | "node_inf (astStringExpr i _) = i"
| "node_inf (astUnaryExpr i _ _) = i" | "node_inf (astPrefixExpr i _ _) = i" | "node_inf (astPostfixExpr i _ _) = i"
| "node_inf (astBinaryExpr i _ _ _) = i" | "node_inf (astLogicExpr i _ _ _) = i" | "node_inf (astTernaryExpr i _ _ _) = i"
| "node_inf (astVarExpr i _ _) = i" | "node_inf (astAssignExpr i _ _) = i" | "node_inf (astRefExpr i _) = i"
| "node_inf (astDerefExpr i _) = i" | "node_inf (astMemberExpr i _ _) = i" | "node_inf (astFuncCallExpr i _ _) = i"
| "node_inf (astStmtExpr i _) = i" | "node_inf (astExprStmt i _) = i" | "node_inf (astBlockStmt i _) = i"
| "node_inf (astVarDeclStmt i _ _) = i" | "node_inf (astIfStmt i _ _ _) = i" | "node_inf (astForStmt i _ _ _ _) = i"
| "node_inf (astWhileStmt i _ _) = i" | "node_inf (astDoWhileStmt i _ _) = i" | "node_inf (astSwitchStmt i _ _) = i"
| "node_inf (astCaseStmt i _ _) = i" | "node_inf (astBreakStmt i) = i" | "node_inf (astContinueStmt i) = i"
| "node_inf (astFuncDecl i _ _) = i" | "node_inf (astStructDecl i _ _) = i"

section \<open>The generator\<close>

definition emits :: "Instruction list \<Rightarrow> unit builder" where
  "emits is = foldr (\<lambda>i m. bthen (Builder_appendInstruction i) m) is (bret ())"

definition unreachable :: "'a builder" where
  "unreachable = bstop (Fatal LexAssert)"

text \<open>\<open>Ident_genLabel\<close>: a name from the counter, whose text stands for the identifier.\<close>

definition Ident_genLabel :: "Ident builder" where
  "Ident_genLabel B = Some (Inr (bytes_of ''L'' @ dec_nat (unat (bu_counts B))), B\<lparr>bu_counts := bu_counts B + 1\<rparr>)"

definition unary_code :: "TokenKind \<Rightarrow> unit builder" where
  "unary_code tok =
     (if tok = Op tokNot then emits [cNOT (rRa r5)]
      else if tok = Op tokComplement then emits [cBNOT (rRa r5)]
      else unreachable)"

definition increment_code :: "TokenKind \<Rightarrow> unit builder" where
  "increment_code tok =
     (if tok = Op tokPlusPlus then emits [cINC (mRa r4)]
      else if tok = Op tokMinusMinus then emits [cDEC (mRa r4)]
      else unreachable)"

definition compare_code :: "u64 \<Rightarrow> Instruction list" where
  "compare_code flags = [cCMP (rRa r5) (rRb r4), cBAND (rRa flg) (xIMb szQuad flags)]"

text \<open>The cases of \<open><\<close> and \<open><=\<close> have no \<open>break\<close> and run on into that of \<open>>\<close>.\<close>

definition binary_instrs :: "TokenKind \<Rightarrow> Instruction list option" where
  "binary_instrs tok =
     (case tok of
        Op tokPlus \<Rightarrow> Some [cADD (rRa r5) (rRb r4)]
      | Op tokMinus \<Rightarrow> Some [cSUB (rRa r5) (rRb r4)]
      | Op tokMult \<Rightarrow> Some [cMUL (rRa r5) (rRb r4)]
      | Op tokDiv \<Rightarrow> Some [cDIV (rRa r5) (rRb r4)]
      | Op tokMod \<Rightarrow> Some [cMOD (rRa r5) (rRb r4)]
      | Op tokBitAnd \<Rightarrow> Some [cBAND (rRa r5) (rRb r4)]
      | Op tokBitOr \<Rightarrow> Some [cBOR (rRa r5) (rRb r4)]
      | Op tokBitXor \<Rightarrow> Some [cXOR (rRa r5) (rRb r4)]
      | Op tokSal \<Rightarrow> Some [cSAL (rRa r5) (rRb r4)]
      | Op tokSar \<Rightarrow> Some [cSAR (rRa r5) (rRb r4)]
      | Op tokLt \<Rightarrow> Some (compare_code flgLess @ compare_code (flgLess OR flgZero) @ compare_code flgGreater)
      | Op tokLte \<Rightarrow> Some (compare_code (flgLess OR flgZero) @ compare_code flgGreater)
      | Op tokGt \<Rightarrow> Some (compare_code flgGreater)
      | Op tokGte \<Rightarrow> Some (compare_code (flgGreater OR flgZero))
      | _ \<Rightarrow> None)"

definition binary_code :: "TokenKind \<Rightarrow> unit builder" where
  "binary_code tok = (case binary_instrs tok of None \<Rightarrow> unreachable | Some is \<Rightarrow> emits is)"

text \<open>A jump to a generated label. The immediate is given as an argument B, which these instructions do not have.\<close>

definition logic_jump :: "((Instruction \<Rightarrow> Instruction) \<Rightarrow> Instruction) \<Rightarrow> Ident \<Rightarrow> Range \<Rightarrow> unit builder" where
  "logic_jump jump label r =
     bthen (emits [cCMP (rRa r5) (xIMb szByte 0)]) (
     bbind Builder_pos (\<lambda>pos.
     bbind (Builder_addSymbolReference pos label r True) (\<lambda>pos.
     emits [jump (xIMb szQuad (ucast pos))])))"

definition logic_code :: "TokenKind \<Rightarrow> Range \<Rightarrow> unit builder \<Rightarrow> unit builder" where
  "logic_code tok r lhs =
     bthen lhs (
     bbind Ident_genLabel (\<lambda>label.
     bthen
       (if tok = Kw tokOr then
          bthen (logic_jump cJMPNZ label r) (bthen (emits [cPUSH (rRa r5)]) (bthen lhs (
            emits [cPOP (rRa r4), cOR (rRa r5) (rRb r4)])))
        else if tok = Kw tokAnd then
          bthen (logic_jump cJMPZ label r) (bthen (emits [cPUSH (rRa r5)]) (bthen lhs (
            emits [cPOP (rRa r4), cAND (rRa r5) (rRb r4)])))
        else unreachable) (
     bbind Builder_pos (\<lambda>pos.
     bbind (Builder_addSymbol pos sytLabel label r) (\<lambda>_. bret ())))))"

text \<open>The parameters of a function: each reserves as many words as all up to it need.\<close>

primrec param_code :: "u32 \<Rightarrow> Type option list \<Rightarrow> unit builder" where
  "param_code space [] = bret ()"
| "param_code space (t # ts) =
     (case t of
        None \<Rightarrow> bstop BadPointer
      | Some t \<Rightarrow>
          let space = space + of_nat ((unat (tp_size t) + 7) div 8) in
          bthen (emits [cALLOCA (rRa r5) (xIMb szQuad (ucast space))]) (param_code space ts))"

fun Codegen_generateCyn :: "(u64 \<Rightarrow> u64) \<Rightarrow> AstNode \<Rightarrow> unit builder" where
  "Codegen_generateCyn f2i (astStringLit nf s) =
     bbind (Builder_appendString s) (\<lambda>pos. emits [cMOV (rRa r5) (xIMb szWord (ucast pos))])"
| "Codegen_generateCyn f2i (astBoolLit nf v) = emits [cMOV (rRa r5) (xIMb szByte (of_bool v))]"
| "Codegen_generateCyn f2i (astCharLit nf v) = emits [cMOV (rRa r5) (xIMb szWord (ucast v))]"
| "Codegen_generateCyn f2i (astIntegerLit nf v) = emits [cMOV (rRa r5) (xIMb szQuad v)]"
| "Codegen_generateCyn f2i (astFloatLit nf v) = emits [cMOV (rRa r5) (xIMb szQuad (f2i v))]"
| "Codegen_generateCyn f2i (astVarExpr nf name off) =
     emits [cMOV (rRa r4) (rbEA bp szByte (ucast off)), cMOV (rRa r5) (mRb r4)]"
| "Codegen_generateCyn f2i (astUnaryExpr nf tok e) = bthen (Codegen_generateCyn f2i e) (unary_code tok)"
| "Codegen_generateCyn f2i (astPrefixExpr nf tok e) =
     bthen (Codegen_generateCyn f2i e) (bthen (increment_code tok) (emits [cMOV (rRa r5) (mRb r4)]))"
| "Codegen_generateCyn f2i (astPostfixExpr nf tok e) = bthen (Codegen_generateCyn f2i e) (increment_code tok)"
| "Codegen_generateCyn f2i (astBinaryExpr nf tok lhs rhs) =
     bthen (Codegen_generateCyn f2i lhs) (
     bthen (emits [cPUSH (rRa r5)]) (
     bthen (Codegen_generateCyn f2i rhs) (
     bthen (emits [cPOP (rRa r4)]) (binary_code tok))))"
| "Codegen_generateCyn f2i (astLogicExpr nf tok lhs rhs) = logic_code tok (an_range nf) (Codegen_generateCyn f2i lhs)"
| "Codegen_generateCyn f2i (astFuncDecl nf name params) = param_code 0 (map (\<lambda>p. an_type (node_inf p)) params)"
| "Codegen_generateCyn f2i node = bret ()"

end
