(* ===== verification/Cyn_CompileExec.thy ===== *)
theory Cyn_CompileExec
  imports Cyn_Codegen Cyn_Stack
begin

unbundle bit_operations_syntax

text \<open>
  The instructions that the code generator emits, executed: all of them work on the low bytes of
  their registers, because the macros leave the mode of an instruction at \<open>szByte\<close>.
\<close>

section \<open>Low bytes\<close>

definition put_byte :: "u64 \<Rightarrow> u64 \<Rightarrow> u64" where
  "put_byte v w = le_word (VM_write v szByte @ drop 1 (le_bytes 8 w))"

lemma ucast_word_of_int_8: "ucast (word_of_int k :: u64) = (word_of_int k :: u8)"
  by (rule bit_word_eqI) (simp add: bit_simps)

lemma ucast_8_arith:
  fixes x y :: u64
  shows "ucast (x + y) = (ucast x + ucast y :: u8)" "ucast (x - y) = (ucast x - ucast y :: u8)"
    "ucast (x * y) = (ucast x * ucast y :: u8)"
proof -
  have "ucast (word_of_int (uint x) + word_of_int (uint y) :: u64) = (ucast (word_of_int (uint x) :: u64) + ucast (word_of_int (uint y) :: u64) :: u8)"
    by (simp only: ucast_word_of_int_8 flip: of_int_add)
  moreover have "ucast (word_of_int (uint x) - word_of_int (uint y) :: u64) = (ucast (word_of_int (uint x) :: u64) - ucast (word_of_int (uint y) :: u64) :: u8)"
    by (simp only: ucast_word_of_int_8 flip: of_int_diff)
  moreover have "ucast (word_of_int (uint x) * word_of_int (uint y) :: u64) = (ucast (word_of_int (uint x) :: u64) * ucast (word_of_int (uint y) :: u64) :: u8)"
    by (simp only: ucast_word_of_int_8 flip: of_int_mult)
  ultimately show "ucast (x + y) = (ucast x + ucast y :: u8)" "ucast (x - y) = (ucast x - ucast y :: u8)"
    "ucast (x * y) = (ucast x * ucast y :: u8)" by simp_all
qed

lemma ucast_8_bits:
  fixes x y :: u64
  shows "ucast (x AND y) = (ucast x AND ucast y :: u8)" "ucast (x OR y) = (ucast x OR ucast y :: u8)"
    "ucast (x XOR y) = (ucast x XOR ucast y :: u8)" "ucast (NOT x) = (NOT (ucast x) :: u8)"
  by (rule bit_word_eqI; simp add: bit_simps)+

lemma ucast_push_bit_8: "ucast (push_bit n (x :: u64)) = push_bit n (ucast x :: u8)"
  by (rule bit_word_eqI) (auto simp: bit_simps)

lemma ucast_signed_drop_8: "ucast (signed_drop_bit n (scast (x :: u8)) :: u64) = signed_drop_bit n x"
proof (rule bit_word_eqI)
  fix m :: nat assume m: "m < LENGTH(8)"
  have "n + m = 7" if "7 \<le> n + m" "\<not> 8 - n \<le> m" using that by simp
  then show "bit (ucast (signed_drop_bit n (scast x :: u64)) :: u8) m = bit (signed_drop_bit n x) m"
    using m by (auto simp: bit_simps min_def)
qed

lemma sint_scast_8: "sint (scast (x :: u8) :: u64) = sint x"
proof -
  have "signed_take_bit 63 (sint x) = sint x"
    using sint_ge [of x] sint_lt [of x] by (intro signed_take_bit_int_eq_self) simp_all
  then show ?thesis by (simp add: signed_scast_eq)
qed

lemma scast_8_inj: "(scast (x :: u8) :: u64) = scast y \<longleftrightarrow> x = y"
  by (metis ucast_scast_u8)

lemma scast_8_zero: "(scast (x :: u8) :: u64) = 0 \<longleftrightarrow> x = 0"
  using scast_8_inj [of x 0] by simp

lemma ucast_put_byte [simp]: "ucast (put_byte v w) = (ucast v :: u8)"
  by (rule bit_word_eqI) (auto simp: put_byte_def VM_write_def bit_simps)

text \<open>A comparison leaves one of three flags; what the mask that follows it leaves fits in the byte.\<close>

lemma put_byte_flags:
  assumes "c \<in> {flgZero, flgLess, flgGreater}" "n \<in> {flgGreater, flgGreater OR flgZero}"
  shows "put_byte (sext szByte c AND n) c = c AND n"
  using assms by (auto simp: flgZero_def flgLess_def flgGreater_def put_byte_def; code_simp)

section \<open>Executing one instruction\<close>

lemma reg_field_code [simp]: "reg_field (reg_code r) = Inr r"
  by (simp add: reg_field_def)

lemma write_byte_reg: "write_loc vm (LReg r) v szByte = Inr (set_reg r (put_byte v (REG vm r)) vm)"
  by (simp add: put_byte_def)

lemmas exec_defs = VM_execute_def operands_def reg_operand_def imm_operand_def decoded_def has_imm_def imm_mode_def
  reg_form_def TB_def init_defs instr_macros instr0_def exec_op_def

lemma execute_mov_imm:
  "VM_execute sys (decoded (cMOV (rRa r) (xIMb m v))) iip vm = Inr (set_reg r (put_byte (sext m (sext m v)) (REG vm r)) vm)"
  by (simp add: exec_defs exec_move_def VM_read_reg write_byte_reg del: sext.simps write_loc.simps)

lemma execute_binary:
  assumes "opr \<in> {opAdd, opSub, opSar, opSal, opXor, opBor, opBand, opMul, opDiv}"
  shows "VM_execute sys (decoded (rRb r (rRa q (B0 opr 3)))) iip vm =
    bnd (binary_op opr (sext szByte (REG vm q)) (sext szByte (REG vm r))) (\<lambda>v. Inr (set_reg q (put_byte v (REG vm q)) vm))"
  using assms by (auto simp: exec_defs exec_binary_def VM_read_reg write_byte_reg simp del: sext.simps write_loc.simps)

lemma execute_unary:
  "VM_execute sys (decoded (cNOT (rRa r))) iip vm =
    Inr (set_reg r (put_byte (truth (sext szByte (REG vm r) = 0)) (REG vm r)) vm)"
  "VM_execute sys (decoded (cBNOT (rRa r))) iip vm =
    Inr (set_reg r (put_byte (NOT (sext szByte (REG vm r))) (REG vm r)) vm)"
  by (simp_all add: exec_defs exec_unary_def VM_read_reg write_byte_reg del: sext.simps write_loc.simps)

lemma execute_cmp:
  "VM_execute sys (decoded (cCMP (rRa q) (rRb r))) iip vm =
    Inr (set_reg flg (if sext szByte (REG vm q) = sext szByte (REG vm r) then flgZero
      else if sint (sext szByte (REG vm q)) < sint (sext szByte (REG vm r)) then flgLess else flgGreater) vm)"
  by (simp add: exec_defs exec_cmp_def VM_read_reg del: sext.simps)

lemma execute_band_imm:
  "VM_execute sys (decoded (cBAND (rRa q) (xIMb szQuad n))) iip vm =
    Inr (set_reg q (put_byte (sext szByte (REG vm q) AND n) (REG vm q)) vm)"
  by (simp add: exec_defs exec_binary_def binary_op_def VM_read_reg write_byte_reg del: sext.simps(1-3) write_loc.simps)

lemma execute_mod:
  "VM_execute sys (decoded (cMOD (rRa q) (rRb r))) iip vm = Inl (Abort UnknownInstruction)"
  by (simp add: exec_defs)

lemma execute_push:
  assumes "r \<noteq> sp"
  shows "VM_execute sys (decoded (cPUSH (rRa r))) iip vm = VM_push vm (sext szByte (REG vm r))"
  using assms by (simp add: exec_defs exec_push_def VM_read_reg del: sext.simps)

lemma execute_pop:
  "VM_execute sys (decoded (cPOP (rRa r))) iip vm =
    bnd (VM_pop vm) (\<lambda>(v, vm). Inr (set_reg r (put_byte v (REG vm r)) vm))"
  by (simp add: exec_defs exec_pop_def write_byte_reg del: write_loc.simps)

end
