(* ===== verification/Cyn_Compile.thy ===== *)
theory Cyn_Compile
  imports Cyn_CompileExec
begin

unbundle bit_operations_syntax

text \<open>
  The code of expressions. For the expressions that need neither memory nor labels, the code generator
  appends a list of instructions that depends on the expression and on the number of constants
  before it; the machine, standing before that list, runs through it and has the value of
  the expression in the low byte of \<open>r5\<close>.
\<close>

section \<open>The code as a list\<close>

fun plain :: "AstNode \<Rightarrow> bool" where
  "plain (astStringLit nf s) = True"
| "plain (astBoolLit nf v) = True"
| "plain (astCharLit nf v) = True"
| "plain (astIntegerLit nf v) = True"
| "plain (astFloatLit nf v) = True"
| "plain (astUnaryExpr nf tok e) = (tok \<in> {Op tokNot, Op tokComplement} \<and> plain e)"
| "plain (astBinaryExpr nf tok lhs rhs) = (binary_instrs tok \<noteq> None \<and> plain lhs \<and> plain rhs)"
| "plain _ = False"

text \<open>The constants of an expression, and its instructions behind \<open>n\<close> constants.\<close>

fun strings :: "AstNode \<Rightarrow> u8 list" where
  "strings (astStringLit nf s) = s"
| "strings (astUnaryExpr nf tok e) = strings e"
| "strings (astBinaryExpr nf tok lhs rhs) = strings lhs @ strings rhs"
| "strings _ = []"

fun code_of :: "(u64 \<Rightarrow> u64) \<Rightarrow> nat \<Rightarrow> AstNode \<Rightarrow> Instruction list" where
  "code_of f2i n (astStringLit nf s) = [cMOV (rRa r5) (xIMb szWord (ucast (of_nat n + 16 :: u32)))]"
| "code_of f2i n (astBoolLit nf v) = [cMOV (rRa r5) (xIMb szByte (of_bool v))]"
| "code_of f2i n (astCharLit nf v) = [cMOV (rRa r5) (xIMb szWord (ucast v))]"
| "code_of f2i n (astIntegerLit nf v) = [cMOV (rRa r5) (xIMb szQuad v)]"
| "code_of f2i n (astFloatLit nf v) = [cMOV (rRa r5) (xIMb szQuad (f2i v))]"
| "code_of f2i n (astUnaryExpr nf tok e) =
     code_of f2i n e @ [if tok = Op tokNot then cNOT (rRa r5) else cBNOT (rRa r5)]"
| "code_of f2i n (astBinaryExpr nf tok lhs rhs) =
     code_of f2i n lhs @ cPUSH (rRa r5) # code_of f2i (n + length (strings lhs)) rhs @ cPOP (rRa r4) # the (binary_instrs tok)"
| "code_of f2i n _ = []"

lemma emits_eq: "emits is B = Some (Inr (), B\<lparr>bu_instructions := bu_instructions B @ is\<rparr>)"
  by (induction "is" arbitrary: B)
    (simp_all add: emits_def bthen_def bbind_def bret_def Builder_appendInstruction_def)

lemma generate_plain:
  assumes "plain e"
  shows "Codegen_generateCyn f2i e B =
    Some (Inr (), B\<lparr>bu_instructions := bu_instructions B @ code_of f2i (length (bu_constants B)) e,
      bu_constants := bu_constants B @ strings e\<rparr>)"
  using assms
proof (induction f2i e arbitrary: B rule: Codegen_generateCyn.induct)
  case (10 f2i nf tok lhs rhs)
  then obtain "is" where "binary_instrs tok = Some is" by auto
  with 10 show ?case by (simp add: bthen_def bbind_def emits_eq binary_code_def add.assoc)
qed (auto simp: bthen_def bbind_def bret_def emits_eq Builder_appendString_def unary_code_def)

section \<open>The value of an expression\<close>

text \<open>
  What the code computes, over signed bytes. The left operand is popped to \<open>r4\<close> and is the second operand of
  the instruction: the operators that are not commutative get their operands exchanged. A comparison
  leaves the right operand as its value and sets the flags; the shifts are undefined for negative
  counts and those of 64 or more.
\<close>

definition byte_op :: "Operator \<Rightarrow> u8 \<Rightarrow> u8 \<Rightarrow> fault + u8" where
  "byte_op oper x y =
     (case oper of
        tokPlus \<Rightarrow> Inr (y + x)
      | tokMinus \<Rightarrow> Inr (y - x)
      | tokMult \<Rightarrow> Inr (y * x)
      | tokDiv \<Rightarrow> if x = 0 then Inl DivTrap else Inr (word_of_int (sint y sdiv sint x))
      | tokMod \<Rightarrow> Inl (Abort UnknownInstruction)
      | tokBitAnd \<Rightarrow> Inr (y AND x)
      | tokBitOr \<Rightarrow> Inr (y OR x)
      | tokBitXor \<Rightarrow> Inr (y XOR x)
      | tokSal \<Rightarrow> if 0 \<le> sint x \<and> sint x < 64 then Inr (push_bit (nat (sint x)) y) else Inl Undefined
      | tokSar \<Rightarrow> if 0 \<le> sint x \<and> sint x < 64 then Inr (signed_drop_bit (nat (sint x)) y) else Inl Undefined
      | _ \<Rightarrow> Inr y)"

definition byte_flags :: "Operator \<Rightarrow> u8 \<Rightarrow> u8 \<Rightarrow> u64 \<Rightarrow> u64" where
  "byte_flags oper x y fl =
     (let c = (if y = x then flgZero else if sint y < sint x then flgLess else flgGreater) in
      if oper \<in> {tokLt, tokLte, tokGt} then c AND flgGreater
      else if oper = tokGte then c AND (flgGreater OR flgZero)
      else fl)"

fun byte_value :: "(u64 \<Rightarrow> u64) \<Rightarrow> nat \<Rightarrow> u64 \<Rightarrow> AstNode \<Rightarrow> fault + (u8 \<times> u64)" where
  "byte_value f2i n fl (astStringLit nf s) = Inr (of_nat n + 16, fl)"
| "byte_value f2i n fl (astBoolLit nf v) = Inr (of_bool v, fl)"
| "byte_value f2i n fl (astCharLit nf v) = Inr (ucast v, fl)"
| "byte_value f2i n fl (astIntegerLit nf v) = Inr (ucast v, fl)"
| "byte_value f2i n fl (astFloatLit nf v) = Inr (ucast (f2i v), fl)"
| "byte_value f2i n fl (astUnaryExpr nf tok e) =
     bnd (byte_value f2i n fl e) (\<lambda>(x, fl). Inr (if tok = Op tokNot then of_bool (x = 0) else NOT x, fl))"
| "byte_value f2i n fl (astBinaryExpr nf tok lhs rhs) =
     bnd (byte_value f2i n fl lhs) (\<lambda>(x, fl).
     bnd (byte_value f2i (n + length (strings lhs)) fl rhs) (\<lambda>(y, fl).
     case tok of
       Op oper \<Rightarrow> bnd (byte_op oper x y) (\<lambda>v. Inr (v, byte_flags oper x y fl))
     | _ \<Rightarrow> Inl Unreachable))"
| "byte_value f2i n fl _ = Inl Unreachable"

section \<open>The integer an expression denotes\<close>

text \<open>
  The value of an expression of integers as it is written: over the integers, with the operands in their order. What the code
  computes is the low byte of it where the order of the operands does not matter; for the others it is not.
\<close>

definition int_op :: "Operator \<Rightarrow> int \<Rightarrow> int \<Rightarrow> int option" where
  "int_op oper x y =
     (case oper of
        tokPlus \<Rightarrow> Some (x + y)
      | tokMinus \<Rightarrow> Some (x - y)
      | tokMult \<Rightarrow> Some (x * y)
      | tokDiv \<Rightarrow> if y = 0 then None else Some (x sdiv y)
      | tokBitAnd \<Rightarrow> Some (x AND y)
      | tokBitOr \<Rightarrow> Some (x OR y)
      | tokBitXor \<Rightarrow> Some (x XOR y)
      | _ \<Rightarrow> None)"

fun int_value :: "AstNode \<Rightarrow> int option" where
  "int_value (astBoolLit nf v) = Some (of_bool v)"
| "int_value (astCharLit nf v) = Some (uint v)"
| "int_value (astIntegerLit nf v) = Some (uint v)"
| "int_value (astUnaryExpr nf tok e) = (if tok = Op tokComplement then map_option NOT (int_value e) else None)"
| "int_value (astBinaryExpr nf tok lhs rhs) =
     Option.bind (int_value lhs) (\<lambda>x. Option.bind (int_value rhs) (\<lambda>y. case tok of Op oper \<Rightarrow> int_op oper x y | _ \<Rightarrow> None))"
| "int_value _ = None"

fun commutes :: "AstNode \<Rightarrow> bool" where
  "commutes (astBoolLit nf v) = True"
| "commutes (astCharLit nf v) = True"
| "commutes (astIntegerLit nf v) = True"
| "commutes (astUnaryExpr nf tok e) = (tok = Op tokComplement \<and> commutes e)"
| "commutes (astBinaryExpr nf tok lhs rhs) =
     (tok \<in> {Op tokPlus, Op tokMult, Op tokBitAnd, Op tokBitOr, Op tokBitXor} \<and> commutes lhs \<and> commutes rhs)"
| "commutes _ = False"

lemma word_of_int_bits:
  "(word_of_int (x AND y) :: u8) = word_of_int x AND word_of_int y" "(word_of_int (x OR y) :: u8) = word_of_int x OR word_of_int y"
  "(word_of_int (x XOR y) :: u8) = word_of_int x XOR word_of_int y" "(word_of_int (NOT x) :: u8) = NOT (word_of_int x)"
  by (rule bit_word_eqI; simp add: bit_simps)+

lemma commutes_value:
  assumes "commutes e"
  shows "\<exists>k. int_value e = Some k \<and> byte_value f2i n fl e = Inr (word_of_int k, fl)"
  using assms
proof (induction e arbitrary: n fl rule: commutes.induct)
  case (4 nf tok e)
  then obtain x where "int_value e = Some x" "byte_value f2i n fl e = Inr (word_of_int x, fl)" by fastforce
  with 4(2) show ?case by (simp add: word_of_int_bits)
next
  case (5 nf tok lhs rhs)
  then obtain x where x: "int_value lhs = Some x" "byte_value f2i n fl lhs = Inr (word_of_int x, fl)" by fastforce
  from 5 obtain y where y: "int_value rhs = Some y" "byte_value f2i (n + length (strings lhs)) fl rhs = Inr (word_of_int y, fl)" by fastforce
  from 5(3) x y show ?case
    by (auto simp: int_op_def byte_op_def byte_flags_def Let_def word_of_int_bits ac_simps)
qed simp_all

text \<open>The number of words on the stack.\<close>

fun depth :: "AstNode \<Rightarrow> nat" where
  "depth (astUnaryExpr nf tok e) = depth e"
| "depth (astBinaryExpr nf tok lhs rhs) = max (depth lhs) (Suc (depth rhs))"
| "depth _ = 0"

end
