(* ===== verification/Cyn_CompileRun.thy ===== *)
theory Cyn_CompileRun
  imports Cyn_Compile
begin

unbundle bit_operations_syntax

text \<open>
  The machine runs the code of an expression: by induction on the expression, from any position of a
  program at which its code stands.
\<close>

section \<open>Positions in a program\<close>

definition standing :: "Code \<Rightarrow> Instruction list \<Rightarrow> nat \<Rightarrow> 'w VM \<Rightarrow> bool" where
  "standing hdr prog k vm \<longleftrightarrow> vcode vm = hdr @ concat (map instr_bytes prog) \<and> length (vcode vm) < 2 ^ 31 \<and>
     (\<forall>i \<in> set prog. encodable i) \<and> REG vm ip = of_nat (length hdr + offset prog k) \<and> vflags vm AND eflHalt = 0"

definition code_end :: "Code \<Rightarrow> Instruction list \<Rightarrow> nat \<Rightarrow> u64" where
  "code_end hdr prog k = of_nat (length hdr + offset prog (Suc k))"

text \<open>What the main loop does in \<open>n\<close> rounds from the position \<open>k\<close>: it stops with a fault, or it comes to the
  position \<open>k + n\<close> in a new state.\<close>

definition does :: "'w syscalls \<Rightarrow> Code \<Rightarrow> Instruction list \<Rightarrow> nat \<Rightarrow> nat \<Rightarrow> 'w VM \<Rightarrow> fault + 'w VM \<Rightarrow> bool" where
  "does sys hdr prog k n vm res \<longleftrightarrow>
     (case res of
        Inl f \<Rightarrow> \<forall>fuel \<ge> n. VM_loop sys fuel vm = Some (Inl f)
      | Inr vm' \<Rightarrow> (\<forall>fuel. VM_loop sys (n + fuel) vm = VM_loop sys fuel vm') \<and> standing hdr prog (k + n) vm')"

lemma does_0: "standing hdr prog k vm \<Longrightarrow> does sys hdr prog k 0 vm (Inr vm)"
  by (simp add: does_def)

lemma does_trans:
  assumes "does sys hdr prog k n vm (Inr vm1)" "does sys hdr prog (k + n) m vm1 res"
  shows "does sys hdr prog k (n + m) vm res"
proof (cases res)
  case (Inl f)
  have "VM_loop sys fuel vm = Some (Inl f)" if "n + m \<le> fuel" for fuel
  proof -
    have "VM_loop sys (n + (fuel - n)) vm = VM_loop sys (fuel - n) vm1" using assms(1) by (simp only: does_def sum.case)
    moreover have "VM_loop sys (fuel - n) vm1 = Some (Inl f)" using assms(2) that by (simp add: does_def Inl)
    ultimately show ?thesis using that by simp
  qed
  then show ?thesis by (simp add: does_def Inl)
next
  case (Inr vm2)
  then show ?thesis using assms by (auto simp: does_def add.assoc)
qed

lemma does_fault: "does sys hdr prog k n vm (Inl f) \<Longrightarrow> n \<le> m \<Longrightarrow> does sys hdr prog k m vm (Inl f)"
  by (simp add: does_def)

lemma offset_le: "offset prog k \<le> length (concat (map instr_bytes prog))"
proof -
  have "concat (map instr_bytes prog) = concat (map instr_bytes (take k prog)) @ concat (map instr_bytes (drop k prog))"
    by (simp flip: concat_append map_append)
  then show ?thesis by (simp add: offset_def)
qed

lemma does_step:
  assumes "standing hdr prog k vm" "k < length prog"
    and "VM_execute sys (decoded (prog ! k)) (REG vm ip) (set_reg ip (code_end hdr prog k) vm) = res"
    and "\<forall>vm'. res = Inr vm' \<longrightarrow> vcode vm' = vcode vm \<and> vflags vm' = vflags vm \<and> REG vm' ip = code_end hdr prog k"
  shows "does sys hdr prog k 1 vm res"
proof -
  have s: "vcode vm = hdr @ concat (map instr_bytes prog) @ []" "\<forall>i \<in> set prog. encodable i" "length (vcode vm) < 2 ^ 31"
    "REG vm ip = of_nat (length hdr + offset prog k)" "vflags vm AND eflHalt = 0"
    using assms(1) by (auto simp: standing_def)
  have f: "VM_step sys vm = res"
    using VM_fetch_nth [OF s(1-3) assms(2) s(4)] assms(3) by (simp add: VM_step_def code_end_def)
  have e: "encodable (prog ! k)" using s(2) assms(2) by simp
  have "offset prog k < length (concat (map instr_bytes prog))"
    using offset_Suc [OF assms(2)] offset_le [of prog "Suc k"] by (simp add: instr_bytes_def attr_bytes_def)
  then have lt: "length hdr + offset prog k < length (vcode vm)" using s(1) by simp
  then have "REG vm ip < code_len vm"
    using s(3) by (simp add: s(4) code_len_def word_less_nat_alt unat_of_nat_u64 del: of_nat_add)
  then show ?thesis
  proof (cases res)
    case (Inl x)
    have "VM_loop sys fuel vm = Some (Inl x)" if "1 \<le> fuel" for fuel
      using that f Inl \<open>REG vm ip < code_len vm\<close> by (cases fuel) simp_all
    then show ?thesis by (simp add: does_def Inl)
  next
    case (Inr vm')
    then have v: "vcode vm' = vcode vm" "vflags vm' = vflags vm" "REG vm' ip = code_end hdr prog k" using assms(4) by auto
    have "length (vcode vm') < 2 ^ 31" using s(3) v(1) by simp
    then have "standing hdr prog (Suc k) vm'" using v s(1,2,5) by (simp add: standing_def code_end_def)
    then show ?thesis using f Inr v s(5) \<open>REG vm ip < code_len vm\<close> by (simp add: does_def)
  qed
qed

section \<open>What an expression leaves alone\<close>

definition same_memory :: "Memory \<Rightarrow> Memory \<Rightarrow> bool" where
  "same_memory m m' \<longleftrightarrow> mbase m' = mbase m \<and> msb m' = msb m \<and> mhb m' = mhb m \<and> mhlm m' = mhlm m \<and> msize m' = msize m"

text \<open>Only \<open>r4\<close>, \<open>r5\<close>, the flags and \<open>d\<close> words below the stack pointer may change.\<close>

definition spares :: "nat \<Rightarrow> 'w VM \<Rightarrow> 'w VM \<Rightarrow> bool" where
  "spares d vm vm' \<longleftrightarrow> (\<forall>r. r \<notin> {r4, r5, flg, ip} \<longrightarrow> REG vm' r = REG vm r) \<and> vcode vm' = vcode vm \<and>
     vflags vm' = vflags vm \<and> heap vm' = heap vm \<and> out vm' = out vm \<and> world vm' = world vm \<and>
     same_memory (ram vm) (ram vm') \<and>
     (\<forall>a. a < unat (REG vm sp) - 8 * d \<or> unat (REG vm sp) \<le> a \<longrightarrow> cells (ram vm') a = cells (ram vm) a)"

lemma spares_refl [simp]: "spares d vm vm"
  by (simp add: spares_def same_memory_def)

lemma spares_trans: "spares a vm vm1 \<Longrightarrow> spares b vm1 vm2 \<Longrightarrow> a \<le> d \<Longrightarrow> b \<le> d \<Longrightarrow> spares d vm vm2"
  by (force simp: spares_def same_memory_def)

lemma spares_set_reg: "r \<in> {r4, r5, flg, ip} \<Longrightarrow> spares d vm (set_reg r v vm)"
  by (auto simp: spares_def same_memory_def)

section \<open>The instructions in place\<close>

lemma does_simple:
  assumes "standing hdr prog k vm" "k < length prog"
    and "\<And>iip vm. VM_execute sys (decoded (prog ! k)) iip vm = (case g vm of Inl f \<Rightarrow> Inl f | Inr v \<Rightarrow> Inr (set_reg r v vm))"
    and "r \<noteq> ip" "r \<in> {r4, r5, flg}" "\<And>v. g (set_reg ip v vm) = g vm"
  shows "case g vm of Inl f \<Rightarrow> does sys hdr prog k 1 vm (Inl f)
    | Inr v \<Rightarrow> \<exists>vm'. does sys hdr prog k 1 vm (Inr vm') \<and> spares 0 vm vm' \<and> regs vm' = (regs vm)(ip := code_end hdr prog k, r := v)"
proof (cases "g vm")
  case (Inl f)
  then show ?thesis using does_step [OF assms(1,2), of sys "Inl f"] assms(3,6) by simp
next
  case (Inr v)
  let ?vm = "set_reg r v (set_reg ip (code_end hdr prog k) vm)"
  have "spares 0 vm ?vm" using assms(5) by (auto simp: spares_def same_memory_def)
  moreover have "does sys hdr prog k 1 vm (Inr ?vm)"
    using assms(4) by (intro does_step [OF assms(1,2)]) (simp_all add: assms(3,6) Inr)
  moreover have "regs ?vm = (regs vm)(ip := code_end hdr prog k, r := v)" by simp
  ultimately show ?thesis unfolding Inr sum.case by blast
qed

text \<open>Loading a constant.\<close>

lemma does_mov_imm:
  assumes "standing hdr prog k vm" "k < length prog" "prog ! k = cMOV (rRa r5) (xIMb m v)"
  shows "\<exists>vm'. does sys hdr prog k 1 vm (Inr vm') \<and> spares 0 vm vm' \<and> ucast (REG vm' r5) = (ucast (sext m (sext m v)) :: u8) \<and>
    REG vm' flg = REG vm flg"
  using does_simple [OF assms(1,2), where g = "\<lambda>vm. Inr (put_byte (sext m (sext m v)) (REG vm r5))" and r = r5 and sys = sys]
  by (auto simp: assms(3) execute_mov_imm)

lemma ucast_sext_8: "(ucast (sext m v) :: u8) = ucast v"
proof (cases m)
  case szByte
  then show ?thesis by (simp add: ucast_scast_u8)
qed (auto intro!: bit_word_eqI simp: bit_simps min_def)

lemma does_unary:
  assumes "standing hdr prog k vm" "k < length prog"
    "prog ! k = (if t then cNOT (rRa r5) else cBNOT (rRa r5))"
  shows "\<exists>vm'. does sys hdr prog k 1 vm (Inr vm') \<and> spares 0 vm vm' \<and> REG vm' flg = REG vm flg \<and>
    ucast (REG vm' r5) = (if t then of_bool (ucast (REG vm r5) = (0 :: u8)) else NOT (ucast (REG vm r5)) :: u8)"
proof -
  let ?v = "\<lambda>vm. if t then truth (sext szByte (REG vm r5) = 0) else NOT (sext szByte (REG vm r5))"
  have v: "(ucast (?v vm) :: u8) = (if t then of_bool (ucast (REG vm r5) = (0 :: u8)) else NOT (ucast (REG vm r5)))"
    by (simp add: truth_def scast_8_zero ucast_8_bits ucast_scast_u8)
  have "\<exists>vm'. does sys hdr prog k 1 vm (Inr vm') \<and> spares 0 vm vm' \<and>
      regs vm' = (regs vm)(ip := code_end hdr prog k, r5 := put_byte (?v vm) (REG vm r5))"
    using does_simple [OF assms(1,2), where g = "\<lambda>vm. Inr (put_byte (?v vm) (REG vm r5))" and r = r5 and sys = sys]
    by (simp add: assms(3) execute_unary del: sext.simps)
  then obtain vm' where vm': "does sys hdr prog k 1 vm (Inr vm')" "spares 0 vm vm'"
    "regs vm' = (regs vm)(ip := code_end hdr prog k, r5 := put_byte (?v vm) (REG vm r5))" by blast
  have "ucast (REG vm' r5) = (ucast (?v vm) :: u8)" unfolding vm'(3) fun_upd_same ucast_put_byte by (rule refl)
  moreover have "REG vm' flg = REG vm flg" unfolding vm'(3) by (simp only: fun_upd_apply Register.distinct if_False)
  ultimately show ?thesis by (intro exI [of _ vm'] conjI vm'(1,2)) (simp_all only: v)
qed

text \<open>The arithmetic instructions on \<open>r5\<close> and \<open>r4\<close>.\<close>

definition oper_op :: "Operator \<Rightarrow> OpCode option" where
  "oper_op oper =
     (case oper of
        tokPlus \<Rightarrow> Some opAdd | tokMinus \<Rightarrow> Some opSub | tokMult \<Rightarrow> Some opMul | tokDiv \<Rightarrow> Some opDiv
      | tokBitAnd \<Rightarrow> Some opBand | tokBitOr \<Rightarrow> Some opBor | tokBitXor \<Rightarrow> Some opXor
      | tokSal \<Rightarrow> Some opSal | tokSar \<Rightarrow> Some opSar | _ \<Rightarrow> None)"

lemma shift_count_8:
  "shift_count (scast (x :: u8)) = (if 0 \<le> sint x \<and> sint x < 64 then Inr (nat (sint x)) else Inl Undefined)"
proof -
  have b: "- 128 \<le> sint x" "sint x < 128" using sint_ge [of x] sint_lt [of x] by simp_all
  have u: "uint (scast x :: u64) = sint x mod 2 ^ 64" by (simp only: scast_eq uint_word_of_int) simp
  show ?thesis
  proof (cases "0 \<le> sint x")
    case True
    then have "uint (scast x :: u64) = sint x" using b u by simp
    then have "unat (scast x :: u64) = nat (sint x)" by (metis unat_eq_nat_uint)
    then show ?thesis using True b by (auto simp: shift_count_def)
  next
    case False
    then have "sint x mod 2 ^ 64 = (sint x + 2 ^ 64) mod 2 ^ 64" by simp
    also have "\<dots> = sint x + 2 ^ 64" using False b by (intro mod_pos_pos_trivial) simp_all
    finally have "uint (scast x :: u64) = sint x + 2 ^ 64" using u by simp
    then have "\<not> unat (scast x :: u64) < 64" using b by (simp add: unat_eq_nat_uint)
    then show ?thesis using False by (simp add: shift_count_def)
  qed
qed

lemma byte_op_binary:
  assumes "oper_op oper = Some opr"
  shows "map_sum (\<lambda>f. f) ucast (binary_op opr (sext szByte b) (sext szByte a)) = byte_op oper (ucast a) (ucast b)"
proof -
  have m1: "sint (scast (ucast a :: u8) :: u64) = sint (ucast a :: u8)" "(scast (ucast a :: u8) :: u64) = 0 \<longleftrightarrow> (ucast a :: u8) = 0"
    by (rule sint_scast_8, rule scast_8_zero)
  have "sint (scast (ucast b :: u8) :: u64) \<noteq> - (2 ^ 63)"
    using sint_ge [of "ucast b :: u8"] by (simp add: sint_scast_8)
  then show ?thesis
    using assms m1
    by (simp add: oper_op_def split: Operator.splits; simp add: binary_op_def byte_op_def ucast_8_arith ucast_8_bits
      ucast_scast_u8 shift_count_8 ucast_push_bit_8 ucast_signed_drop_8 sint_scast_8 ucast_word_of_int_8 flip: not_less)
qed

lemma does_arith:
  assumes "standing hdr prog k vm" "k < length prog" "prog ! k = rRb r4 (rRa r5 (B0 opr 3))" "oper_op oper = Some opr"
  shows "case byte_op oper (ucast (REG vm r4)) (ucast (REG vm r5)) of Inl f \<Rightarrow> does sys hdr prog k 1 vm (Inl f)
    | Inr v \<Rightarrow> \<exists>vm'. does sys hdr prog k 1 vm (Inr vm') \<and> spares 0 vm vm' \<and> ucast (REG vm' r5) = v \<and> REG vm' flg = REG vm flg"
proof -
  let ?g = "\<lambda>vm. bnd (binary_op opr (sext szByte (REG vm r5)) (sext szByte (REG vm r4))) (\<lambda>v. Inr (put_byte v (REG vm r5)))"
  have opr: "opr \<in> {opAdd, opSub, opSar, opSal, opXor, opBor, opBand, opMul, opDiv}"
    using assms(4) by (auto simp: oper_op_def split: Operator.splits)
  have r: "case ?g vm of Inl f \<Rightarrow> does sys hdr prog k 1 vm (Inl f)
    | Inr v \<Rightarrow> \<exists>vm'. does sys hdr prog k 1 vm (Inr vm') \<and> spares 0 vm vm' \<and>
        regs vm' = (regs vm)(ip := code_end hdr prog k, r5 := v)"
    by (rule does_simple [OF assms(1,2), where g = ?g and r = r5 and sys = sys])
      (simp_all add: assms(3) execute_binary [OF opr] bnd_def split: sum.splits del: sext.simps)
  note op = byte_op_binary [OF assms(4), of "REG vm r5" "REG vm r4", symmetric]
  show ?thesis
  proof (cases "binary_op opr (sext szByte (REG vm r5)) (sext szByte (REG vm r4))")
    case (Inl f)
    then show ?thesis using r by (simp add: op del: sext.simps)
  next
    case (Inr v)
    then obtain vm' where vm': "does sys hdr prog k 1 vm (Inr vm')" "spares 0 vm vm'"
      "regs vm' = (regs vm)(ip := code_end hdr prog k, r5 := put_byte v (REG vm r5))"
      using r by (auto simp del: sext.simps)
    have "ucast (REG vm' r5) = (ucast v :: u8)" unfolding vm'(3) fun_upd_same ucast_put_byte by (rule refl)
    moreover have "REG vm' flg = REG vm flg" unfolding vm'(3) by (simp only: fun_upd_apply Register.distinct if_False)
    ultimately show ?thesis
      using Inr vm'(1,2) by (auto simp: op simp del: sext.simps)
  qed
qed

text \<open>A comparison with its mask.\<close>

definition flag_of :: "u64 \<Rightarrow> u64 \<Rightarrow> u64" where
  "flag_of y x = (if (ucast y :: u8) = ucast x then flgZero
     else if sint (ucast y :: u8) < sint (ucast x :: u8) then flgLess else flgGreater)"

lemma does_compare:
  assumes "standing hdr prog k vm" "Suc k < length prog" "prog ! k = cCMP (rRa r5) (rRb r4)"
    "prog ! Suc k = cBAND (rRa flg) (xIMb szQuad n)"
  shows "\<exists>vm'. does sys hdr prog k 2 vm (Inr vm') \<and> spares 0 vm vm' \<and> REG vm' r5 = REG vm r5 \<and> REG vm' r4 = REG vm r4 \<and>
    REG vm' flg = put_byte (sext szByte (flag_of (REG vm r5) (REG vm r4)) AND n) (flag_of (REG vm r5) (REG vm r4))"
proof -
  let ?c = "\<lambda>vm. flag_of (REG vm r5) (REG vm r4)"
  have k: "k < length prog" using assms(2) by simp
  have "\<exists>vm'. does sys hdr prog k 1 vm (Inr vm') \<and> spares 0 vm vm' \<and> regs vm' = (regs vm)(ip := code_end hdr prog k, flg := ?c vm)"
    using does_simple [OF assms(1) k, where g = "\<lambda>vm. Inr (?c vm)" and r = flg and sys = sys]
    by (simp add: assms(3) execute_cmp flag_of_def scast_8_inj sint_scast_8)
  then obtain vm1 where vm1: "does sys hdr prog k 1 vm (Inr vm1)" "spares 0 vm vm1"
    "regs vm1 = (regs vm)(ip := code_end hdr prog k, flg := ?c vm)" by blast
  have s: "standing hdr prog (Suc k) vm1" using vm1(1) by (simp add: does_def)
  have "\<exists>vm'. does sys hdr prog (Suc k) 1 vm1 (Inr vm') \<and> spares 0 vm1 vm' \<and>
      regs vm' = (regs vm1)(ip := code_end hdr prog (Suc k), flg := put_byte (sext szByte (REG vm1 flg) AND n) (REG vm1 flg))"
    using does_simple [OF s assms(2), where g = "\<lambda>vm. Inr (put_byte (sext szByte (REG vm flg) AND n) (REG vm flg))" and r = flg and sys = sys]
    by (simp add: assms(4) execute_band_imm del: sext.simps)
  then obtain vm2 where vm2: "does sys hdr prog (Suc k) 1 vm1 (Inr vm2)" "spares 0 vm1 vm2"
    "regs vm2 = (regs vm1)(ip := code_end hdr prog (Suc k), flg := put_byte (sext szByte (REG vm1 flg) AND n) (REG vm1 flg))" by blast
  have "does sys hdr prog k 2 vm (Inr vm2)" using does_trans [OF vm1(1), of 1 "Inr vm2"] vm2(1) by (simp add: numeral_2_eq_2)
  moreover have "spares 0 vm vm2" using spares_trans [OF vm1(2) vm2(2)] by simp
  ultimately show ?thesis by (intro exI [of _ vm2] conjI) (simp_all add: vm1(3) vm2(3) del: sext.simps)
qed

end
