(* ===== verification/Cyn_CompileUse.thy ===== *)
theory Cyn_CompileUse
  imports Cyn_CompileRun
begin

unbundle bit_operations_syntax

text \<open>
  The code of an expression computes its value: the tails of the binary operators, pushing and popping,
  the induction, and the program that the builder links from the code.
\<close>

section \<open>Code at a position\<close>

definition located :: "Instruction list \<Rightarrow> nat \<Rightarrow> Instruction list \<Rightarrow> bool" where
  "located prog k is \<longleftrightarrow> k + length is \<le> length prog \<and> (\<forall>j < length is. prog ! (k + j) = is ! j)"

lemma located_Nil [simp]: "located prog k [] \<longleftrightarrow> k \<le> length prog"
  by (simp add: located_def)

lemma located_Cons: "located prog k (i # is) \<longleftrightarrow> k < length prog \<and> prog ! k = i \<and> located prog (Suc k) is"
  by (auto simp: located_def nth_Cons' less_Suc_eq_0_disj split: if_splits) 

lemma located_append: "located prog k (xs @ ys) \<longleftrightarrow> located prog k xs \<and> located prog (k + length xs) ys"
  by (induction xs arbitrary: k) (auto simp: located_Cons dest: located_def [THEN iffD1])

section \<open>The binary operators\<close>

lemma does_flag_end:
  assumes "standing hdr prog k vm" "located prog k (compare_code n)" "n \<in> {flgGreater, flgGreater OR flgZero}"
  shows "\<exists>vm'. does sys hdr prog k 2 vm (Inr vm') \<and> spares 0 vm vm' \<and> REG vm' r5 = REG vm r5 \<and> REG vm' r4 = REG vm r4 \<and>
    REG vm' flg = flag_of (REG vm r5) (REG vm r4) AND n"
proof -
  have l: "Suc k < length prog" "prog ! k = cCMP (rRa r5) (rRb r4)" "prog ! Suc k = cBAND (rRa flg) (xIMb szQuad n)"
    using assms(2) by (auto simp: compare_code_def located_Cons)
  have "flag_of (REG vm r5) (REG vm r4) \<in> {flgZero, flgLess, flgGreater}" by (simp add: flag_of_def)
  from put_byte_flags [OF this assms(3)] does_compare [OF assms(1) l, of sys] show ?thesis by simp
qed

lemma does_flag_then:
  assumes "standing hdr prog k vm" "located prog k (compare_code n @ is)"
    and "\<And>vm1. standing hdr prog (Suc (Suc k)) vm1 \<Longrightarrow> located prog (Suc (Suc k)) is \<Longrightarrow>
      \<exists>vm'. does sys hdr prog (Suc (Suc k)) m vm1 (Inr vm') \<and> spares 0 vm1 vm' \<and> REG vm' r5 = REG vm1 r5 \<and>
        REG vm' r4 = REG vm1 r4 \<and> REG vm' flg = flag_of (REG vm1 r5) (REG vm1 r4) AND flgGreater"
  shows "\<exists>vm'. does sys hdr prog k (Suc (Suc m)) vm (Inr vm') \<and> spares 0 vm vm' \<and> REG vm' r5 = REG vm r5 \<and>
    REG vm' r4 = REG vm r4 \<and> REG vm' flg = flag_of (REG vm r5) (REG vm r4) AND flgGreater"
proof -
  have l: "Suc k < length prog" "prog ! k = cCMP (rRa r5) (rRb r4)" "prog ! Suc k = cBAND (rRa flg) (xIMb szQuad n)"
    "located prog (Suc (Suc k)) is"
    using assms(2) by (auto simp: compare_code_def located_Cons)
  obtain vm1 where vm1: "does sys hdr prog k 2 vm (Inr vm1)" "spares 0 vm vm1" "REG vm1 r5 = REG vm r5" "REG vm1 r4 = REG vm r4"
    using does_compare [OF assms(1) l(1-3), of sys] by blast
  have "standing hdr prog (Suc (Suc k)) vm1" using vm1(1) by (simp add: does_def)
  from assms(3) [OF this l(4)] obtain vm2 where vm2: "does sys hdr prog (Suc (Suc k)) m vm1 (Inr vm2)" "spares 0 vm1 vm2"
    "REG vm2 r5 = REG vm1 r5" "REG vm2 r4 = REG vm1 r4" "REG vm2 flg = flag_of (REG vm1 r5) (REG vm1 r4) AND flgGreater" by blast
  have "does sys hdr prog k (Suc (Suc m)) vm (Inr vm2)" using does_trans [OF vm1(1), of m "Inr vm2"] vm2(1) by simp
  moreover have "spares 0 vm vm2" using spares_trans [OF vm1(2) vm2(2)] by simp
  ultimately show ?thesis using vm1 vm2 by (intro exI [of _ vm2]) simp
qed

lemma does_greater:
  assumes "standing hdr prog k vm" "located prog k (concat (map compare_code ns) @ compare_code flgGreater)"
  shows "\<exists>vm'. does sys hdr prog k (2 * length ns + 2) vm (Inr vm') \<and> spares 0 vm vm' \<and> REG vm' r5 = REG vm r5 \<and>
    REG vm' r4 = REG vm r4 \<and> REG vm' flg = flag_of (REG vm r5) (REG vm r4) AND flgGreater"
  using assms
proof (induction ns arbitrary: k vm)
  case Nil
  then show ?case using does_flag_end [of hdr prog k vm flgGreater sys] by (simp add: numeral_2_eq_2)
next
  case (Cons n ns)
  have "located prog k (compare_code n @ concat (map compare_code ns) @ compare_code flgGreater)" using Cons.prems(2) by simp
  from does_flag_then [OF Cons.prems(1) this Cons.IH] show ?case by simp
qed

lemma flag_of_byte_flags:
  "oper \<in> {tokLt, tokLte, tokGt} \<Longrightarrow> byte_flags oper (ucast x) (ucast y) fl = flag_of y x AND flgGreater"
  "byte_flags tokGte (ucast x) (ucast y) fl = flag_of y x AND (flgGreater OR flgZero)"
  by (auto simp: byte_flags_def flag_of_def)

text \<open>The instructions of an operator, on the right operand in \<open>r5\<close> and the left one in \<open>r4\<close>.\<close>

lemma does_binary:
  assumes "standing hdr prog k vm" "binary_instrs (Op oper) = Some is" "located prog k is"
  shows "case byte_op oper (ucast (REG vm r4)) (ucast (REG vm r5)) of Inl f \<Rightarrow> does sys hdr prog k (length is) vm (Inl f)
    | Inr v \<Rightarrow> \<exists>vm'. does sys hdr prog k (length is) vm (Inr vm') \<and> spares 0 vm vm' \<and> ucast (REG vm' r5) = v \<and>
        REG vm' flg = byte_flags oper (ucast (REG vm r4)) (ucast (REG vm r5)) (REG vm flg)"
proof -
  consider (arith) opr where "oper_op oper = Some opr" | (modulo) "oper = tokMod" | (greater) "oper \<in> {tokLt, tokLte, tokGt}" | (gte) "oper = tokGte"
    using assms(2) by (cases oper; simp add: binary_instrs_def oper_op_def)
  then show ?thesis
  proof cases
    case (arith opr)
    then have i: "is = [rRb r4 (rRa r5 (B0 opr 3))]" "\<And>x y fl. byte_flags oper x y fl = fl"
      using assms(2) by (cases oper; simp add: binary_instrs_def oper_op_def instr_macros byte_flags_def)+
    then have n: "length is = 1" by simp
    show ?thesis using does_arith [OF assms(1) _ _ arith, of sys] assms(3) unfolding n i(2) by (simp add: i(1) located_Cons)
  next
    case modulo
    then have "is = [cMOD (rRa r5) (rRb r4)]" using assms(2) by (simp add: binary_instrs_def)
    then have "does sys hdr prog k 1 vm (Inl (Abort UnknownInstruction))"
      using assms(1,3) by (intro does_step) (simp_all add: located_Cons execute_mod)
    then show ?thesis using \<open>is = _\<close> by (simp add: modulo byte_op_def)
  next
    case greater
    then obtain ns where ns: "is = concat (map compare_code ns) @ compare_code flgGreater" "length is = 2 * length ns + 2"
      using assms(2) that [of "[]"] that [of "[flgLess OR flgZero]"] that [of "[flgLess, flgLess OR flgZero]"]
      by (auto simp: binary_instrs_def compare_code_def)
    have "byte_op oper x y = Inr y" for x y using greater by (auto simp: byte_op_def)
    then show ?thesis
      using does_greater [OF assms(1), of ns sys] assms(3) ns flag_of_byte_flags(1) [OF greater]
      by (force simp: ns)
  next
    case gte
    then have i: "is = compare_code (flgGreater OR flgZero)" using assms(2) by (simp add: binary_instrs_def)
    then have n: "length is = 2" by (simp add: compare_code_def)
    obtain vm' where "does sys hdr prog k 2 vm (Inr vm')" "spares 0 vm vm'" "REG vm' r5 = REG vm r5"
      "REG vm' flg = flag_of (REG vm r5) (REG vm r4) AND (flgGreater OR flgZero)"
      using does_flag_end [OF assms(1), of "flgGreater OR flgZero" sys] assms(3) i by auto
    then show ?thesis unfolding n gte by (auto simp: byte_op_def flag_of_byte_flags)
  qed
qed

section \<open>Pushing and popping\<close>

lemma word_at_same: "(\<And>a. p \<le> a \<Longrightarrow> cells m' a = cells m a) \<Longrightarrow> word_at m' p = word_at m p"
  by (rule word_at_cong) simp

lemma unat_sp_minus: "8 \<le> unat (w :: u64) \<Longrightarrow> unat (w - 8) = unat w - 8"
  by (subst unat_minus) auto

lemma does_push:
  assumes "standing hdr prog k vm" "k < length prog" "prog ! k = cPUSH (rRa r5)"
    and "unat (REG vm sp) \<le> unat (msize (ram vm))" "unat (msb (ram vm)) + 8 < unat (REG vm sp)"
  shows "does sys hdr prog k 1 vm (Inr ((set_reg sp (REG vm sp - 8) (set_reg ip (code_end hdr prog k) vm))
    \<lparr>ram := put_word (ram vm) (unat (REG vm sp) - 8) (sext szByte (REG vm r5))\<rparr>))"
  using VM_push_eq [of "set_reg ip (code_end hdr prog k) vm" "sext szByte (REG vm r5)"] assms(4,5)
  by (intro does_step [OF assms(1,2)]) (simp_all add: assms(3) execute_push del: sext.simps)

lemma does_pop:
  assumes "standing hdr prog k vm" "k < length prog" "prog ! k = cPOP (rRa r4)"
    and "unat (REG vm sp) + 8 \<le> unat (msize (ram vm))"
  shows "does sys hdr prog k 1 vm (Inr (set_reg r4 (put_byte (word_at (ram vm) (unat (REG vm sp))) (REG vm r4))
    (set_reg sp (REG vm sp + 8) (set_reg ip (code_end hdr prog k) vm))))"
  using VM_pop_eq [of "set_reg ip (code_end hdr prog k) vm"] assms(4)
  by (intro does_step [OF assms(1,2)]) (simp_all add: assms(3) execute_pop)

section \<open>Expressions\<close>

definition computes :: "'w syscalls \<Rightarrow> Code \<Rightarrow> Instruction list \<Rightarrow> nat \<Rightarrow> nat \<Rightarrow> nat \<Rightarrow> 'w VM \<Rightarrow> fault + (u8 \<times> u64) \<Rightarrow> bool" where
  "computes sys hdr prog k n d vm vx \<longleftrightarrow>
     (case vx of
        Inl f \<Rightarrow> does sys hdr prog k n vm (Inl f)
      | Inr (v, fl) \<Rightarrow> \<exists>vm'. does sys hdr prog k n vm (Inr vm') \<and> spares d vm vm' \<and> ucast (REG vm' r5) = v \<and> REG vm' flg = fl)"

lemma computes_const:
  assumes "standing hdr prog k vm" "located prog k [cMOV (rRa r5) (xIMb m v)]"
  shows "computes sys hdr prog k 1 0 vm (Inr (ucast v, REG vm flg))"
proof -
  have l: "k < length prog" "prog ! k = cMOV (rRa r5) (xIMb m v)" using assms(2) by (auto simp: located_Cons)
  from does_mov_imm [OF assms(1) l, of sys] show ?thesis by (auto simp: computes_def ucast_sext_8)
qed

lemma ucast_8_of_32: "ucast (of_nat n + 16 :: u32) = (of_nat n + 16 :: u8)"
proof -
  have "ucast (of_nat m :: u32) = (of_nat m :: u8)" for m by (rule bit_word_eqI) (simp add: bit_simps)
  from this [of "n + 16"] show ?thesis by simp
qed

lemma ucast_8_64_32: "ucast (ucast (w :: u32) :: u64) = (ucast w :: u8)"
  by (rule bit_word_eqI) (simp add: bit_simps)

lemma ucast_8_of_bool: "ucast (of_bool b :: u64) = (of_bool b :: u8)"
  by simp

text \<open>A fault of a part is one of the whole; behind a part that returns, the rest goes on.\<close>

lemma computes_bind:
  assumes "computes sys hdr prog k n d vm vx" "n \<le> m" "d \<le> d'"
    and "\<And>v fl vm'. vx = Inr (v, fl) \<Longrightarrow> does sys hdr prog k n vm (Inr vm') \<Longrightarrow> standing hdr prog (k + n) vm' \<Longrightarrow>
      spares d vm vm' \<Longrightarrow> ucast (REG vm' r5) = v \<Longrightarrow> REG vm' flg = fl \<Longrightarrow> computes sys hdr prog k m d' vm (f (v, fl))"
  shows "computes sys hdr prog k m d' vm (bnd vx f)"
proof (cases vx)
  case (Inl e)
  then show ?thesis using assms(1,2) does_fault [of sys hdr prog k n vm e m] by (simp add: computes_def)
next
  case (Inr vf)
  then obtain v fl where vf: "vx = Inr (v, fl)" by (cases vf) simp
  then obtain vm' where "does sys hdr prog k n vm (Inr vm')" "spares d vm vm'" "ucast (REG vm' r5) = v" "REG vm' flg = fl"
    using assms(1) by (auto simp: computes_def)
  moreover from this have "standing hdr prog (k + n) vm'" by (simp add: does_def)
  ultimately show ?thesis using assms(4) [OF vf] vf by simp
qed

lemma computes_after:
  assumes "does sys hdr prog k n vm (Inr vm1)" "spares d vm vm1" "computes sys hdr prog (k + n) m d' vm1 vx" "d \<le> d''" "d' \<le> d''"
  shows "computes sys hdr prog k (n + m) d'' vm vx"
proof (cases vx)
  case (Inl e)
  then show ?thesis using assms(3) does_trans [OF assms(1), of m "Inl e"] by (simp add: computes_def)
next
  case (Inr vf)
  then obtain v fl where vf: "vx = Inr (v, fl)" by (cases vf) simp
  then obtain vm' where "does sys hdr prog (k + n) m vm1 (Inr vm')" "spares d' vm1 vm'" "ucast (REG vm' r5) = v" "REG vm' flg = fl"
    using assms(3) by (auto simp: computes_def)
  then show ?thesis using does_trans [OF assms(1)] spares_trans [OF assms(2) _ assms(4,5)] by (auto simp: computes_def vf)
qed

lemma computes_unary:
  assumes "standing hdr prog k vm" "k < length prog" "prog ! k = (if t then cNOT (rRa r5) else cBNOT (rRa r5))"
  shows "computes sys hdr prog k 1 0 vm (Inr (if t then of_bool (ucast (REG vm r5) = (0 :: u8)) else NOT (ucast (REG vm r5)), REG vm flg))"
  using does_unary [OF assms, of sys] by (auto simp: computes_def)

lemma computes_binary:
  assumes "standing hdr prog k vm" "binary_instrs (Op oper) = Some is" "located prog k is"
    and "ucast (REG vm r4) = x" "ucast (REG vm r5) = y"
  shows "computes sys hdr prog k (length is) 0 vm
    (bnd (byte_op oper x y) (\<lambda>v. Inr (v, byte_flags oper x y (REG vm flg))))"
  using does_binary [OF assms(1-3), of sys] assms(4,5) by (auto simp: computes_def bnd_def split: sum.splits)

text \<open>
  The right operand between push and pop: the words that it uses are below the pushed one, which
  is what the pop finds.
\<close>

lemma pushed_popped:
  assumes "standing hdr prog k vm" "located prog k (cPUSH (rRa r5) # cd @ [cPOP (rRa r4)])"
    and "unat (REG vm sp) \<le> unat (msize (ram vm))" "unat (msb (ram vm)) + 8 * Suc d < unat (REG vm sp)"
    and "\<And>vm1. standing hdr prog (Suc k) vm1 \<Longrightarrow> REG vm1 sp = REG vm sp - 8 \<Longrightarrow> same_memory (ram vm) (ram vm1) \<Longrightarrow>
      REG vm1 flg = REG vm flg \<Longrightarrow> computes sys hdr prog (Suc k) (length cd) d vm1 vx"
  shows "case vx of Inl f \<Rightarrow> does sys hdr prog k (length cd + 2) vm (Inl f)
    | Inr (v, fl) \<Rightarrow> \<exists>vm'. does sys hdr prog k (length cd + 2) vm (Inr vm') \<and> spares (Suc d) vm vm' \<and>
        ucast (REG vm' r5) = v \<and> REG vm' flg = fl \<and> ucast (REG vm' r4) = (ucast (REG vm r5) :: u8)"
proof -
  let ?s = "unat (REG vm sp)" and ?w = "sext szByte (REG vm r5)"
  define vm1 where "vm1 = (set_reg sp (REG vm sp - 8) (set_reg ip (code_end hdr prog k) vm))\<lparr>ram := put_word (ram vm) (?s - 8) ?w\<rparr>"
  have l: "k < length prog" "prog ! k = cPUSH (rRa r5)" "k + 1 + length cd < length prog" "prog ! (k + 1 + length cd) = cPOP (rRa r4)"
    using assms(2) by (auto simp: located_Cons located_append)
  have push: "does sys hdr prog k 1 vm (Inr vm1)"
    unfolding vm1_def using assms(3,4) by (intro does_push [OF assms(1) l(1,2)]) simp_all
  have s1: "unat (REG vm1 sp) = ?s - 8" using assms(4) by (simp add: vm1_def unat_sp_minus)
  have sm: "same_memory (ram vm) (ram vm1)" by (simp add: vm1_def same_memory_def)
  have "standing hdr prog (Suc k) vm1" using push by (simp add: does_def)
  then have c: "computes sys hdr prog (Suc k) (length cd) d vm1 vx"
    using sm by (intro assms(5)) (simp_all add: vm1_def)
  show ?thesis
  proof (cases vx)
    case (Inl f)
    then have "does sys hdr prog k (1 + length cd) vm (Inl f)" using does_trans [OF push, of "length cd" "Inl f"] c by (simp add: computes_def)
    from does_fault [OF this, of "length cd + 2"] show ?thesis by (simp add: Inl)
  next
    case (Inr vf)
    then obtain v fl where vf: "vx = Inr (v, fl)" by (cases vf) simp
    then obtain vm2 where vm2: "does sys hdr prog (Suc k) (length cd) vm1 (Inr vm2)" "spares d vm1 vm2" "ucast (REG vm2 r5) = v" "REG vm2 flg = fl"
      using c by (auto simp: computes_def)
    have d2: "does sys hdr prog k (1 + length cd) vm (Inr vm2)" using does_trans [OF push, of "length cd" "Inr vm2"] vm2(1) by simp
    then have st: "standing hdr prog (k + 1 + length cd) vm2" by (simp add: does_def)
    have k2: "REG vm2 sp = REG vm1 sp" "msize (ram vm2) = msize (ram vm)"
      "\<And>a. ?s - 8 \<le> a \<Longrightarrow> cells (ram vm2) a = cells (ram vm1) a"
      using vm2(2) sm by (auto simp: spares_def same_memory_def s1)
    define vm3 where "vm3 = set_reg r4 (put_byte (word_at (ram vm2) (unat (REG vm2 sp))) (REG vm2 r4))
      (set_reg sp (REG vm2 sp + 8) (set_reg ip (code_end hdr prog (k + 1 + length cd)) vm2))"
    have "does sys hdr prog (k + (1 + length cd)) 1 vm2 (Inr vm3)"
      unfolding vm3_def using does_pop [OF st l(3,4), of sys] assms(3,4) k2 s1 by (simp add: add.assoc)
    from does_trans [OF d2 this] have d3: "does sys hdr prog k (length cd + 2) vm (Inr vm3)" by (simp add: add.commute)
    have "word_at (ram vm2) (?s - 8) = word_at (ram vm1) (?s - 8)" using k2(3) by (rule word_at_same)
    then have w: "word_at (ram vm2) (unat (REG vm2 sp)) = ?w" by (simp only: k2(1) s1) (simp add: vm1_def del: sext.simps)
    have "ucast (REG vm3 r4) = (ucast (REG vm r5) :: u8)" unfolding vm3_def w by (simp add: ucast_scast_u8)
    moreover have "REG vm3 sp = REG vm sp" by (simp add: vm3_def k2(1)) (simp add: vm1_def)
    moreover have "spares (Suc d) vm vm3"
      using vm2(2) assms(4) s1 by (auto simp: spares_def same_memory_def vm3_def vm1_def put_word_def)
    moreover have "ucast (REG vm3 r5) = v" "REG vm3 flg = fl" using vm2(3,4) by (simp_all add: vm3_def)
    ultimately show ?thesis using d3 vf by auto
  qed
qed

lemma computes_operands:
  assumes "plain rhs" "standing hdr prog k vm" "located prog k (cPUSH (rRa r5) # cd @ cPOP (rRa r4) # is)"
    and "binary_instrs (Op oper) = Some is"
    and "unat (REG vm sp) \<le> unat (msize (ram vm))" "unat (msb (ram vm)) + 8 * Suc d < unat (REG vm sp)"
    and "\<And>vm1. standing hdr prog (Suc k) vm1 \<Longrightarrow> REG vm1 sp = REG vm sp - 8 \<Longrightarrow> same_memory (ram vm) (ram vm1) \<Longrightarrow>
      REG vm1 flg = REG vm flg \<Longrightarrow> computes sys hdr prog (Suc k) (length cd) d vm1 vx"
  shows "computes sys hdr prog k (length cd + 2 + length is) (Suc d) vm
    (bnd vx (\<lambda>(y, fl). bnd (byte_op oper (ucast (REG vm r5)) y) (\<lambda>v. Inr (v, byte_flags oper (ucast (REG vm r5)) y fl))))"
proof -
  have l: "located prog k (cPUSH (rRa r5) # cd @ [cPOP (rRa r4)])" "located prog (k + (length cd + 2)) is"
    using assms(3) by (auto simp: located_Cons located_append located_def [of _ _ "[]"])
  have r: "case vx of Inl f \<Rightarrow> does sys hdr prog k (length cd + 2) vm (Inl f)
    | Inr (v, fl) \<Rightarrow> \<exists>vm'. does sys hdr prog k (length cd + 2) vm (Inr vm') \<and> spares (Suc d) vm vm' \<and>
        ucast (REG vm' r5) = v \<and> REG vm' flg = fl \<and> ucast (REG vm' r4) = (ucast (REG vm r5) :: u8)"
    using assms(7) by (rule pushed_popped [OF assms(2) l(1) assms(5,6)])
  show ?thesis
  proof (cases vx)
    case (Inl f)
    then have "does sys hdr prog k (length cd + 2) vm (Inl f)" using r by simp
    from does_fault [OF this] show ?thesis by (simp add: computes_def Inl)
  next
    case (Inr vf)
    then obtain y fl where vf: "vx = Inr (y, fl)" by (cases vf) simp
    then obtain vm3 where vm3: "does sys hdr prog k (length cd + 2) vm (Inr vm3)" "spares (Suc d) vm vm3"
      "ucast (REG vm3 r5) = y" "REG vm3 flg = fl" "ucast (REG vm3 r4) = (ucast (REG vm r5) :: u8)"
      using r by auto
    have "standing hdr prog (k + (length cd + 2)) vm3" using vm3(1) by (simp add: does_def)
    from computes_binary [OF this assms(4) l(2) vm3(5,3), of sys]
    have "computes sys hdr prog (k + (length cd + 2)) (length is) 0 vm3
      (bnd (byte_op oper (ucast (REG vm r5)) y) (\<lambda>v. Inr (v, byte_flags oper (ucast (REG vm r5)) y fl)))" by (simp add: vm3(4))
    from computes_after [OF vm3(1,2) this] show ?thesis by (simp add: vf)
  qed
qed

text \<open>The code of an expression, from any position at which it stands, with room for its words on the stack.\<close>

lemma code_computes:
  fixes vm :: "'w VM"
  assumes "plain e" "standing hdr prog k vm" "located prog k (code_of f2i n e)"
    and "unat (REG vm sp) \<le> unat (msize (ram vm))" "unat (msb (ram vm)) + 8 * depth e < unat (REG vm sp)"
  shows "computes sys hdr prog k (length (code_of f2i n e)) (depth e) vm (byte_value f2i n (REG vm flg) e)"
  using assms
proof (induction e arbitrary: k n vm)
  case (astBoolLit nf v)
  then show ?case using computes_const [of hdr prog k vm szByte "of_bool v"] by (simp add: ucast_8_of_bool)
next
  case (astCharLit nf v)
  then show ?case using computes_const [of hdr prog k vm szWord "ucast v"] by (simp add: ucast_8_64_32)
next
  case (astIntegerLit nf v)
  then show ?case using computes_const [of hdr prog k vm szQuad v] by simp
next
  case (astFloatLit nf v)
  then show ?case using computes_const [of hdr prog k vm szQuad "f2i v"] by simp
next
  case (astStringLit nf s)
  then show ?case using computes_const [of hdr prog k vm szWord "ucast (of_nat n + 16 :: u32)"]
    by (simp add: ucast_8_64_32 ucast_8_of_32)
next
  case (astUnaryExpr nf tok e)
  let ?c = "code_of f2i n e" and ?t = "tok = Op tokNot"
  have l: "located prog k ?c" "k + length ?c < length prog" "prog ! (k + length ?c) = (if ?t then cNOT (rRa r5) else cBNOT (rRa r5))"
    using astUnaryExpr.prems(3) by (auto simp: located_append located_Cons)
  have "computes sys hdr prog k (length ?c) (depth e) vm (byte_value f2i n (REG vm flg) e)"
    using astUnaryExpr.prems l(1) by (intro astUnaryExpr.IH) simp_all
  then have "computes sys hdr prog k (length ?c + 1) (depth e) vm
    (bnd (byte_value f2i n (REG vm flg) e) (\<lambda>(x, fl). Inr (if ?t then of_bool (x = 0) else NOT x, fl)))"
  proof (rule computes_bind)
    fix v :: u8 and fl vm'
    assume r: "does sys hdr prog k (length ?c) vm (Inr vm')" "standing hdr prog (k + length ?c) vm'" "spares (depth e) vm vm'"
      "ucast (REG vm' r5) = v" "REG vm' flg = fl"
    from computes_after [OF r(1,3) computes_unary [OF r(2) l(2,3)]] r(4,5)
    show "computes sys hdr prog k (length ?c + 1) (depth e) vm (case (v, fl) of (x, fl) \<Rightarrow> Inr (if ?t then of_bool (x = 0) else NOT x, fl))"
      by auto
  qed simp_all
  then show ?case by simp
next
  case (astBinaryExpr nf tok lhs rhs)
  let ?a = "code_of f2i n lhs" and ?m = "n + length (strings lhs)"
  let ?b = "code_of f2i ?m rhs"
  obtain "is" where i: "binary_instrs tok = Some is" using astBinaryExpr.prems(1) by auto
  then obtain oper where o: "tok = Op oper" by (auto simp: binary_instrs_def split: TokenKind.splits)
  have l: "located prog k ?a" "located prog (k + length ?a) (cPUSH (rRa r5) # ?b @ cPOP (rRa r4) # is)"
    using astBinaryExpr.prems(3) by (auto simp: located_append i)
  have room: "unat (msb (ram vm)) + 8 * depth lhs < unat (REG vm sp)" "unat (msb (ram vm)) + 8 * Suc (depth rhs) < unat (REG vm sp)"
    using astBinaryExpr.prems(5) by (auto simp: max_def split: if_splits)
  have lb: "located prog (Suc (k + length ?a)) ?b" using l(2) by (simp add: located_Cons located_append)
  let ?f = "\<lambda>(x, fl). bnd (byte_value f2i ?m fl rhs) (\<lambda>(y, fl).
    bnd (byte_op oper x y) (\<lambda>v. Inr (v, byte_flags oper x y fl)))"
  have "computes sys hdr prog k (length ?a) (depth lhs) vm (byte_value f2i n (REG vm flg) lhs)"
    using astBinaryExpr.prems l(1) by (intro astBinaryExpr.IH(1)) (auto simp: room)
  then have "computes sys hdr prog k (length ?a + (length ?b + 2 + length is)) (max (depth lhs) (Suc (depth rhs))) vm
    (bnd (byte_value f2i n (REG vm flg) lhs) ?f)"
  proof (rule computes_bind)
    fix v :: u8 and fl vm'
    assume r: "does sys hdr prog k (length ?a) vm (Inr vm')" "standing hdr prog (k + length ?a) vm'" "spares (depth lhs) vm vm'"
      "ucast (REG vm' r5) = v" "REG vm' flg = fl"
    have m: "REG vm' sp = REG vm sp" "same_memory (ram vm) (ram vm')" using r(3) by (simp_all add: spares_def)
    have "computes sys hdr prog (k + length ?a) (length ?b + 2 + length is) (Suc (depth rhs)) vm'
      (bnd (byte_value f2i ?m fl rhs) (\<lambda>(y, fl). bnd (byte_op oper (ucast (REG vm' r5)) y)
        (\<lambda>v. Inr (v, byte_flags oper (ucast (REG vm' r5)) y fl))))"
    proof (rule computes_operands [OF _ r(2) l(2)])
      fix vm1 :: "'w VM" assume vm1: "standing hdr prog (Suc (k + length ?a)) vm1" "REG vm1 sp = REG vm' sp - 8" "same_memory (ram vm') (ram vm1)"
        "REG vm1 flg = REG vm' flg"
      have s: "unat (REG vm1 sp) = unat (REG vm sp) - 8"
        unfolding vm1(2) m(1) using astBinaryExpr.prems(5) by (intro unat_sp_minus) (auto simp: max_def split: if_splits)
      have "computes sys hdr prog (Suc (k + length ?a)) (length ?b) (depth rhs) vm1 (byte_value f2i ?m (REG vm1 flg) rhs)"
        using astBinaryExpr.prems(1,4) room(2) lb vm1(1,3) m(2) s
        by (intro astBinaryExpr.IH(2)) (auto simp: same_memory_def)
      then show "computes sys hdr prog (Suc (k + length ?a)) (length ?b) (depth rhs) vm1 (byte_value f2i ?m fl rhs)"
        using vm1(4) r(5) by simp
    qed (use astBinaryExpr.prems room i o m in \<open>auto simp: same_memory_def\<close>)
    from computes_after [OF r(1,3) this] r(4)
    show "computes sys hdr prog k (length ?a + (length ?b + 2 + length is)) (max (depth lhs) (Suc (depth rhs))) vm (?f (v, fl))"
      by simp
  qed simp_all
  then show ?case by (simp add: i [unfolded o] o)
qed simp_all

end
