(* ===== verification/Cyn_AsmLex.thy ===== *)
theory Cyn_AsmLex
  imports Cyn_LexUse
begin

unbundle bit_operations_syntax

text \<open>
  Two more promises of the lexer, for the parsers that use it: the log only grows, and the end of the
  source is answered with a token of the internal kind, without moving.
\<close>

section \<open>The log\<close>

definition logs :: "Lexer \<Rightarrow> Lexer \<Rightarrow> bool" where
  "logs a b \<longleftrightarrow> (\<exists>l. lx_log b = lx_log a @ l)"

lemma logs_refl [simp, intro]: "logs a a"
  by (simp add: logs_def)

lemma logs_trans [trans]: "logs a b \<Longrightarrow> logs b c \<Longrightarrow> logs a c"
  by (auto simp: logs_def)

lemma eatWhile_log [simp]: "lx_log (Lexer_eatWhile f a) = lx_log a"
proof (induction f a rule: Lexer_eatWhile.induct)
  case (1 f a)
  then show ?case by (subst Lexer_eatWhile.simps) (simp add: Let_def Lexer_updatePos_def)
qed

lemma eatUntil_log [simp]: "lx_log (Lexer_eatUntilAnyOf cs a) = lx_log a"
  by (simp add: Lexer_eatUntilAnyOf_def)

lemma advance_while_log [simp]: "lx_log (advance_while f a) = lx_log a"
proof (induction f a rule: advance_while.induct)
  case (1 f a)
  then show ?case by (subst advance_while.simps) simp
qed

lemma comment_log [simp]: "lx_log (snd (comment_loop m l a)) = lx_log a"
proof (induction "length (lx_text a) - lx_idx a" arbitrary: l a rule: less_induct)
  case less
  have "lx_log (snd (comment_loop m l' (advance 1 a))) = lx_log a"
    "lx_log (snd (comment_loop m l' (advance 1 (advance 1 a)))) = lx_log a" if "Lexer_peek 0 a \<noteq> EOF" for l'
    using less [of "advance 1 a" l'] less [of "advance 1 (advance 1 a)" l'] peek_EOF [OF that] by simp_all
  then show ?case by (subst comment_loop.simps) (simp add: Let_def)
qed

lemma skip_space_log: "skip_space t a = Inr (t', b) \<Longrightarrow> lx_log b = lx_log a"
proof (induction "length (lx_text a) - lx_idx a" arbitrary: t a rule: less_induct)
  case less
  show ?case
  proof (cases "lx_idx a < length (lx_text a) \<and> isspace (lx_text a ! lx_idx a)")
    case True
    let ?b = "(Lexer_updatePos (lx_text a ! lx_idx a) a)\<lparr>lx_idx := lx_idx a + 1\<rparr>"
    have "length (lx_text ?b) - lx_idx ?b < length (lx_text a) - lx_idx a"
      using True by (simp add: updatePos_eq diff_less_mono2)
    moreover obtain t1 where "skip_space t1 ?b = Inr (t', b)"
      using less.prems True by (subst (asm) skip_space.simps) (auto simp: Let_def updatePos_eq bnd_def split: sum.splits if_splits)
    ultimately have "lx_log b = lx_log ?b" by (rule less.hyps)
    then show ?thesis by (simp add: updatePos_eq)
  next
    case False
    then have "skip_space t a = Inr (t, a)" by (subst skip_space.simps) auto
    then show ?thesis using less.prems by simp
  qed
qed

lemma universal_log: "universal_loop n r a = Inr (q, b) \<Longrightarrow> lx_log b = lx_log a"
  by (induction n r a rule: universal_loop.induct) (auto split: option.splits)

lemma hex_log [simp]: "lx_log (snd (hex_loop r a)) = lx_log a"
proof (induction r a rule: hex_loop.induct)
  case (1 r a)
  then show ?case by (subst hex_loop.simps) (auto simp: Let_def split: option.splits)
qed

lemma logs_same [simp]: "logs a (b\<lparr>lx_erange := e\<rparr>) = logs a b" "logs a (b\<lparr>lx_in_str := s\<rparr>) = logs a b"
  "logs a (b\<lparr>lx_next := t\<rparr>) = logs a b"
  by (simp_all add: logs_def)

lemma logs_steps [intro!]:
  "logs a b \<Longrightarrow> logs a (advance n b)" "logs a b \<Longrightarrow> logs a (Lexer_eatWhile f b)" "logs a b \<Longrightarrow> logs a (Lexer_eatUntilAnyOf cs b)"
  "logs a b \<Longrightarrow> logs a (advance_while f b)" "logs a b \<Longrightarrow> logs a (Log_error s e c m b)" "logs a b \<Longrightarrow> logs a (Log_warn s e c m b)"
  "logs a b \<Longrightarrow> logs a (snd (comment_loop ml l b))" "logs a b \<Longrightarrow> logs a (snd (hex_loop r b))"
  by (auto simp: logs_def Log_error_def Log_warn_def Log_append_def)

lemma logs_advanced [simp]: "logs (advance n a) b \<longleftrightarrow> logs a b"
  by (simp add: logs_def)

lemma logs_octal: "logs a (snd (Lexer_tokOctalChar c a))"
  by (auto simp: Lexer_tokOctalChar_def Let_def simp del: advance_fields)

lemma logs_universal: "universal_loop n r a = Inr (q, b) \<Longrightarrow> logs a b"
  using universal_log by (auto simp: logs_def)

lemma escaped_log: "Lexer_tokEscapedChar s a = Inr (q, b) \<Longrightarrow> logs (advance 1 a) b"
  using logs_octal [of "advance 1 a" "Lexer_peek 0 a"] logs_steps(8) [of "advance 1 a" "advance 1 a" 0, OF logs_refl]
  by (auto simp: Lexer_tokEscapedChar_def Let_def Lexer_tokHexChar_def Lexer_tokUniversalChar_def
      simp del: advance_fields hex_log split: if_splits dest: logs_universal)

lemma quote_log: "skip_to_quote c a = Some b \<Longrightarrow> lx_log b = lx_log a"
  by (erule skip_to_quote.raw_induct [where P = "\<lambda>c a b. lx_log b = lx_log a", rotated])
    (auto simp: Let_def split: if_splits)

lemma string_log: "string_loop E os a = Inr (c, os', b) \<Longrightarrow> logs a b"
proof (induction "length (lx_text a) - lx_idx a" arbitrary: os a rule: less_induct)
  case less
  note IH = less(1) and prem = less(2)
  let ?c = "Lexer_peek 0 a" and ?l = "advance 1 a"
  consider "?c = EOF \<or> ?c = ch CHR 0x0A" | "?c = ch CHR 0x22"
    | "?c \<noteq> EOF" "?c \<noteq> ch CHR 0x22" "?c \<noteq> ch CHR 0x0A" "lx_in_str ?l \<and> ?c = ch CHR ''$'' \<and> Lexer_peek 0 ?l = ch CHR ''{''"
    | "?c \<noteq> EOF" "?c \<noteq> ch CHR 0x22" "?c \<noteq> ch CHR 0x0A" "\<not> (lx_in_str ?l \<and> ?c = ch CHR ''$'' \<and> Lexer_peek 0 ?l = ch CHR ''{'')" "?c \<noteq> ch CHR 0x5C"
    | "?c \<noteq> EOF" "?c \<noteq> ch CHR 0x22" "?c \<noteq> ch CHR 0x0A" "\<not> (lx_in_str ?l \<and> ?c = ch CHR ''$'' \<and> Lexer_peek 0 ?l = ch CHR ''{'')" "?c = ch CHR 0x5C"
    by blast
  then show ?case
  proof cases
    case 4
    then have "string_loop E (os @ [?c]) ?l = Inr (c, os', b)"
      using prem by (subst (asm) string_loop.simps) (auto simp: Let_def split: if_splits)
    with IH [of ?l] peek_EOF [OF 4(1)] have "logs ?l b" by simp
    then show ?thesis by (simp only: logs_advanced)
  next
    case 5
    then obtain q l2 where q: "Lexer_tokEscapedChar True ?l = Inr (q, l2)"
      using prem by (subst (asm) string_loop.simps) (auto simp: Let_def simp del: advance_fields)
    have s: "length (lx_text l2) - lx_idx l2 < length (lx_text a) - lx_idx a"
      using escaped_shorter [of True a q l2] q 5(5) by simp
    let ?w = "\<lambda>os l. string_loop E os l = Inr (c, os', b)"
    from prem [unfolded string_loop.simps [of E os a]] 5 q
    have "(\<exists>os2. ?w os2 l2) \<or> (\<exists>os2 s e p f. ?w os2 (Log_error s e p f l2))"
      by (auto simp: Let_def simp del: advance_fields split: if_splits option.splits; blast)
    then obtain os2 l3 where l3: "?w os2 l3" "lx_text l3 = lx_text l2" "lx_idx l3 = lx_idx l2" "logs l2 l3"
      by (metis log_fields(1,2) logs_refl logs_steps(5))
    then have "logs l3 b" using IH [of l3 os2] s by simp
    with l3(4) escaped_log [OF q] show ?thesis by (metis logs_advanced logs_trans)
  qed (use prem in \<open>auto simp: string_loop.simps [of E os a] Let_def EOF_def simp del: advance_fields\<close>)
qed

section \<open>The results of the token functions\<close>

text \<open>The log has grown and the kind is not the end of the source.\<close>

definition noted :: "Lexer \<Rightarrow> lexed \<Rightarrow> bool" where
  "noted a r \<longleftrightarrow> (case r of Inl _ \<Rightarrow> True | Inr (k, t, b) \<Rightarrow> logs a b \<and> k \<noteq> tokEoF)"

lemma noted_Inl [simp]: "noted a (Inl e)"
  by (simp add: noted_def)

lemma noted_Inr [simp]: "noted a (Inr (k, t, b)) \<longleftrightarrow> logs a b \<and> k \<noteq> tokEoF"
  by (simp add: noted_def)

lemma noted_end: "logs a b \<Longrightarrow> k \<noteq> tokEoF \<Longrightarrow> noted a (token_end k s e p t b)"
  by (auto simp: token_end_def Lexer_updateToken_def bnd_def split: option.splits)

lemma noted_integer: "logs a b \<Longrightarrow> noted a (Lexer_parseInteger m n t b)"
  by (auto simp: Lexer_parseInteger_def Let_def intro!: noted_end split: prod.splits)

lemma noted_float_end: "logs a b \<Longrightarrow> noted a (float_end E m t b)"
  by (auto simp: float_end_def Let_def intro!: noted_end split: prod.splits)

lemma noted_float: "logs a b \<Longrightarrow> noted a (Lexer_tokFloatingPoint E m t b)"
  by (auto simp: Lexer_tokFloatingPoint_def Let_def simp del: advance_fields intro!: noted_float_end)

lemma noted_number: "noted a (Lexer_tokNumber E t a)"
proof -
  have "noted a (Lexer_tokHexNumber E t a)" "noted a (Lexer_tokBinaryNumber t a)" "noted a (Lexer_tokOctalNumber E t a)"
    "noted a (Lexer_tokDecimalNumber E t a)"
    unfolding Lexer_tokHexNumber_def Lexer_tokBinaryNumber_def Lexer_tokOctalNumber_def Lexer_tokDecimalNumber_def Let_def
    by (auto simp del: advance_fields intro!: noted_float noted_integer)
  then show ?thesis
    by (auto simp: Lexer_tokNumber_def Let_def simp del: advance_fields intro!: noted_float)
qed

lemma noted_ident: "words_ok a \<Longrightarrow> noted a (Lexer_tokIdent t a)"
  using ahead_text [OF ahead_while [of a isident]]
  by (auto simp: Lexer_tokIdent_def Let_def words_ok_def intro!: noted_end split: option.splits)

lemma noted_comment: "noted a (Lexer_tokComment t a)"
proof -
  define r where "r = (if Lexer_peek 0 (advance 1 a) \<noteq> EOF
    then comment_loop (Lexer_peek 0 (advance 1 a) = ch CHR ''*'') 1 (advance 1 (advance 1 a)) else (1, advance 1 (advance 1 a)))"
  have "logs a (snd r)" by (auto simp: r_def simp del: advance_fields)
  then show ?thesis
    unfolding Lexer_tokComment_def Let_def r_def [symmetric] by (auto intro!: noted_end split: prod.split)
qed

lemma noted_string: "logs a b \<Longrightarrow> noted a (Lexer_tokString E m t b)"
proof (cases "string_loop E [] b")
  case (Inr r)
  assume ab: "logs a b"
  obtain c os l where r: "string_loop E [] b = Inr (c, os, l)" using Inr by (cases r) auto
  then have l: "logs a l" using string_log ab logs_trans by blast
  then have "logs a (advance 1 l)" by blast
  with r l show ?thesis
    unfolding Lexer_tokString_def Let_def
    by (auto simp: token_end_def Lexer_updateToken_def bnd_def simp del: advance_fields split: option.splits sum.splits)
qed (simp add: Lexer_tokString_def Let_def)

lemma noted_char:
  assumes "Lexer_tokChar t a = Some r"
  shows "noted a r"
proof -
  define x where "x = (if Lexer_peek 1 a = ch CHR 0x5C then Lexer_tokEscapedChar False (advance 2 a)
    else Inr (ucast (Lexer_peek 1 a) :: u32, advance 2 a))"
  note A = assms [unfolded Lexer_tokChar_def Let_def, folded x_def]
  have fin: "noted a (if Lexer_peek 0 l \<noteq> ch CHR 0x27 then
              let lX = Lexer_eatUntilAnyOf [ch CHR 0x0A, ch CHR 0x27] l in
              if Lexer_peek 0 lX = ch CHR 0x27 then
                let lX = advance 1 lX in
                Inr (tokCOUNT, t, Log_error (lx_idx a) (lx_idx lX) (lx_pos a)
                       ''character literal has more than 1 character'' lX)
              else
                Inr (tokCOUNT, t, Log_error (lx_idx a) (lx_idx lX) (lx_pos a)
                       ''unterminated character sequence'' lX)
            else
              token_end tokChar (lx_idx a) (lx_idx l) (lx_pos a) (Token_setChar chr t) (advance 1 l))"
    if "logs a l" for l chr
    using that by (auto simp: Let_def simp del: advance_fields intro!: noted_end)
  show ?thesis
  proof (cases x)
    case (Inl e)
    then show ?thesis using A by auto
  next
    case (Inr p)
    obtain q b where p: "x = Inr (q, b)" using Inr by (cases p) auto
    have b: "logs a b"
      using p escaped_log [of False "advance 2 a" q b] by (auto simp: x_def logs_advanced split: if_splits)
    show ?thesis
    proof (cases "q \<ge> 0x80")
      case True
      with A p obtain l where l: "skip_to_quote (Lexer_peek 1 a) b = Some l"
        by (auto split: bind_splits)
      then have al: "logs a l" using quote_log [OF l] b by (simp add: logs_def)
      from A p True l al fin [OF al, unfolded Let_def] show ?thesis
        by (cases "Lexer_readRune (slice (lx_idx a + 1) (lx_idx l) l)") (auto simp: Lexer_mark_def simp del: advance_fields)
    next
      case False
      with A p b fin [OF b, unfolded Let_def] show ?thesis
        by (auto simp: Lexer_mark_def simp del: advance_fields)
    qed
  qed
qed

lemma tokenize_noted:
  assumes "words_ok a" "Lexer_tokenize E t a = Some r"
  shows "noted a r \<or> r = Inr (tokEoF, t, a)"
proof -
  have fstr: "noted a (token_end tokLStrExpr s e p t (advance 1 (a\<lparr>lx_in_str := True\<rparr>)))" for s e p
    by (rule noted_end, rule logs_steps) simp_all
  show ?thesis
    using assms fstr noted_string [of a "advance 1 a" E "Lexer_mark a" t] noted_char [of t a r] noted_number [of a E t]
      noted_ident [OF assms(1), of t] noted_comment [of a t]
    by (auto simp: Lexer_tokenize_def Let_def simp del: advance_fields split: option.splits prod.splits if_splits
        intro!: noted_end)
qed

section \<open>The next token\<close>

text \<open>The end of the source is answered with a token of the internal kind.\<close>

lemma next_skip:
  assumes "tk_kind (lx_next a) = tokCOUNT"
  shows "\<exists>t b. ahead a b \<and> lx_log b = lx_log a \<and> (tk_kind t = tokCOUNT \<longrightarrow>
      tk_range t = \<lparr>r_start = lx_idx a, r_end = lx_idx a, r_coord = lx_pos a, r_source = Some (lx_source a)\<rparr>) \<and>
    Lexer_next E a = (if tk_kind t \<noteq> tokCOUNT then Some (Inr (tk_kind t, t, b)) else
      Option.bind (Lexer_tokenize E t b) (\<lambda>r. case r of Inl e \<Rightarrow> Some (Inl e)
         | Inr (kind, out, lX) \<Rightarrow> if kind = tokCOUNT then Lexer_next E lX else Some (Inr (kind, out, lX)))) \<and>
    (tk_kind t = tokNl \<or> tk_kind t = tokCOUNT)"
proof -
  let ?t = "Token_zero\<lparr>tk_range := \<lparr>r_start = lx_idx a, r_end = lx_idx a, r_coord = lx_pos a, r_source = Some (lx_source a)\<rparr>,
    tk_kind := tokCOUNT\<rparr>"
  obtain t b where s: "skip_space ?t a = Inr (t, b)" "ahead a b" "t = ?t \<or> tk_kind t = tokNl"
    using skip_space_ok [of ?t a] by auto
  have "Lexer_next E a = (if tk_kind t \<noteq> tokCOUNT then Some (Inr (tk_kind t, t, b)) else
      Option.bind (Lexer_tokenize E t b) (\<lambda>r. case r of Inl e \<Rightarrow> Some (Inl e)
         | Inr (kind, out, lX) \<Rightarrow> if kind = tokCOUNT then Lexer_next E lX else Some (Inr (kind, out, lX))))"
    using assms s(1) by (subst Lexer_next.simps) (simp add: Lexer_updateToken_def Range_update_def)
  with s skip_space_log [OF s(1)] show ?thesis by (intro exI [of _ t] exI [of _ b]) auto
qed

lemma next_answered:
  assumes "lexer_ok a" "words_ok a" "Lexer_next E a = Some (Inr (k, t, b))"
  shows "logs a b \<and> (k = tokEoF \<longrightarrow> tk_kind t = tokCOUNT \<and> left_over b \<le> left_over a)"
  using assms
proof (induction "length (lx_text a) - lx_idx a" arbitrary: a rule: less_induct)
  case less
  have g: "good a" using less.prems(1) by (simp add: lexer_ok_def)
  show ?case
  proof (cases "tk_kind (lx_next a) = tokCOUNT")
    case False
    then have "Lexer_next E a = Some (Inr (Lexer_resetNext a))"
      by (subst Lexer_next.simps) (simp add: Lexer_updateToken_def Range_update_def)
    then show ?thesis using less.prems False by (auto simp: Lexer_resetNext_def Let_def logs_def lexer_ok_def next_ok_def)
  next
    case True
    from next_skip [OF this] obtain u c where c: "ahead a c" "lx_log c = lx_log a"
      "tk_kind u = tokCOUNT \<longrightarrow>
        tk_range u = \<lparr>r_start = lx_idx a, r_end = lx_idx a, r_coord = lx_pos a, r_source = Some (lx_source a)\<rparr>"
      "Lexer_next E a = (if tk_kind u \<noteq> tokCOUNT then Some (Inr (tk_kind u, u, c)) else
      Option.bind (Lexer_tokenize E u c) (\<lambda>r. case r of Inl e \<Rightarrow> Some (Inl e)
         | Inr (kind, out, lX) \<Rightarrow> if kind = tokCOUNT then Lexer_next E lX else Some (Inr (kind, out, lX))))"
      "tk_kind u = tokNl \<or> tk_kind u = tokCOUNT" by blast
    note tx = ahead_text [OF c(1)] and gc = good_ahead [OF g c(1)]
    have ac: "logs a c" using c(2) by (simp add: logs_def)
    show ?thesis
    proof (cases "tk_kind u = tokCOUNT")
      case False
      then show ?thesis using c(4,5) ac less.prems(3) by simp
    next
      case u: True
      obtain r where r: "Lexer_tokenize E u c = Some r" using c(4) u less.prems(3) by (cases "Lexer_tokenize E u c") auto
      have w: "words_ok c" using less.prems(2) tx by (simp add: words_ok_def)
      have lr: "lexed_ok c r"
        using tokenize_ok [OF conjunct1 [OF gc] _ w r] True tx u c(3) gc g by (auto simp: good_def pos_ok_def)
      obtain q out d where q: "r = Inr (q, out, d)" using r c(4) u less.prems(3) by (cases r) auto
      have cd: "logs c d \<and> q \<noteq> tokEoF \<or> (q, out, d) = (tokEoF, u, c)"
        using tokenize_noted [OF w r] by (auto simp: q)
      show ?thesis
      proof (cases "q = tokCOUNT")
        case qc: True
        have d: "same_source c d" "lexer_ok d" "lx_idx c < lx_idx d" using lr by (auto simp: q qc lexed_ok_def)
        have i: "length (lx_text d) - lx_idx d < length (lx_text a) - lx_idx a"
          using d gc tx by (auto simp: same_source_def lexer_ok_def good_def)
        have "Lexer_next E d = Some (Inr (k, t, b))" using c(4) u r q qc less.prems(3) by simp
        from less.hyps [OF i d(2) words_same [OF d(1) w] this]
        have IH: "logs d b" "k = tokEoF \<longrightarrow> tk_kind t = tokCOUNT \<and> left_over b \<le> left_over d" by auto
        have "left_over d \<le> left_over a"
          using i by (simp add: left_over_def pending_def)
        moreover have "logs c d" using cd qc by auto
        ultimately show ?thesis using IH logs_trans [OF ac] logs_trans [of a d b] by auto
      next
        case qc: False
        have "(k, t, b) = (q, out, d)" using c(4) u r q qc less.prems(3) by simp
        moreover have "left_over c \<le> left_over a"
          using gc tx True by (auto simp: left_over_def pending_def intro!: diff_le_mono2)
        moreover have "logs a b" if "logs c b" using logs_trans [OF ac that] .
        ultimately show ?thesis using cd ac u by auto
      qed
    qed
  qed
qed

end
