(* ===== verification/Cyn_AsmUse.thy ===== *)
theory Cyn_AsmUse
  imports Cyn_LinkUse Cyn_AsmLex
begin

text \<open>
  What the parser of the assembler keeps: the invariant of its state, the input that is left, and rules
  by which every parse function, and at the end the main loop, is shown to return and to leave a
  state that the linker can work on.
\<close>

section \<open>The invariant\<close>

definition patches :: "AssemblerCtx \<Rightarrow> Patch list" where
  "patches as = map (val (as_patchWork as)) (the (RbTree_for_each (as_patchWork as)))"

lemma patches_eq: "patches_ok node ps (as_patchWork as) \<Longrightarrow> patches as = ps"
  using patches_each [of node ps "as_patchWork as"] by (auto simp: patches_def)

definition refers_ok :: "nat \<Rightarrow> SymbolRefers RbTreeBase \<Rightarrow> bool" where
  "refers_ok node t \<longleftrightarrow> (\<exists>ns. tree_nodes t ns \<and> ordered key_order t ns \<and> (\<forall>a \<in> set ns. a < node))"

definition asm_ok :: "AssemblerCtx \<Rightarrow> bool" where
  "asm_ok as \<longleftrightarrow> lexer_ok (as_lexer as) \<and> words_ok (as_lexer as) \<and> (\<exists>tab. symbols_ok (as_node as) tab (as_symbols as)) \<and>
     patches_ok (as_node as) (patches as) (as_patchWork as) \<and>
     (\<forall>p \<in> set (patches as). Range_view (\<lambda>_. lx_text (as_lexer as)) (snd p) \<noteq> None \<and> unat (fst p) \<le> length (as_instructions as)) \<and>
     refers_ok (as_node as) (as_references as) \<and> (\<forall>i \<in> set (as_instructions as). assembled i)"

text \<open>A state on a fixed source with a fixed number of instructions.\<close>

definition asm_at :: "u8 list \<Rightarrow> nat \<Rightarrow> AssemblerCtx \<Rightarrow> bool" where
  "asm_at T k as \<longleftrightarrow> asm_ok as \<and> lx_text (as_lexer as) = T \<and> length (as_instructions as) = k"

text \<open>The input that is left, with the tokens that are read but not consumed.\<close>

definition todo :: "AssemblerCtx \<Rightarrow> nat" where
  "todo as = (if ITP_eof as then 0 else 1) + (if tk_kind (as_peek as) = tokCOUNT then 0 else 1) + left_over (as_lexer as)"

text \<open>One state is reached from another; with \<open>b\<close>, without a new patch.\<close>

definition goes :: "bool \<Rightarrow> AssemblerCtx \<Rightarrow> AssemblerCtx \<Rightarrow> bool" where
  "goes b as as' \<longleftrightarrow> (log_errors as \<longrightarrow> log_errors as') \<and> todo as' \<le> todo as \<and>
     (todo as' = todo as \<and> \<not> ITP_eof as \<longrightarrow> \<not> ITP_eof as') \<and> (b \<longrightarrow> patches as' = patches as)"

lemma goes_refl [simp]: "goes b as as"
  by (simp add: goes_def)

lemma goes_trans: "goes b as as1 \<Longrightarrow> goes b as1 as2 \<Longrightarrow> goes b as as2"
  unfolding goes_def by (metis le_antisym le_trans)

section \<open>Rules\<close>

text \<open>
  A function that keeps the invariant, that ends unless there is a quote in the source, and that throws
  the exception of the parser only with an error in the log.
\<close>

definition safe :: "u8 list \<Rightarrow> nat \<Rightarrow> bool \<Rightarrow> 'a asm \<Rightarrow> bool" where
  "safe T k b m \<longleftrightarrow> (\<forall>as. asm_at T k as \<longrightarrow>
     (case m as of
        None \<Rightarrow> ch CHR 0x27 \<in> set T
      | Some (r, as') \<Rightarrow> asm_at T k as' \<and> goes b as as' \<and> (r = Inl ITPException \<longrightarrow> log_errors as')))"

lemma safeI:
  assumes "\<And>as. asm_at T k as \<Longrightarrow> (case m as of None \<Rightarrow> ch CHR 0x27 \<in> set T
     | Some (r, as') \<Rightarrow> asm_at T k as' \<and> goes b as as' \<and> (r = Inl ITPException \<longrightarrow> log_errors as'))"
  shows "safe T k b m"
  using assms by (simp add: safe_def)

lemma safeE:
  assumes "safe T k b m" "asm_at T k as"
  obtains "m as = None" "ch CHR 0x27 \<in> set T"
    | r as' where "m as = Some (r, as')" "asm_at T k as'" "goes b as as'" "r = Inl ITPException \<longrightarrow> log_errors as'"
proof (cases "m as")
  case None
  then show thesis using assms that(1) by (force simp: safe_def)
next
  case (Some p)
  moreover obtain r as' where "p = (r, as')" by (cases p)
  moreover have "case m as of None \<Rightarrow> ch CHR 0x27 \<in> set T
     | Some (r, as') \<Rightarrow> asm_at T k as' \<and> goes b as as' \<and> (r = Inl ITPException \<longrightarrow> log_errors as')"
    using assms unfolding safe_def by blast
  ultimately show thesis using that(2) [of r as'] by simp
qed

lemma safe_pointwise:
  assumes "\<And>as. safe T k b (n as)" "\<And>as. m as = n as as"
  shows "safe T k b m"
  using assms(1) by (simp add: safe_def assms(2))

named_theorems safe_rule "functions that keep the invariant of the assembler"

lemma safe_bind [safe_rule]:
  assumes "safe T k b m" "\<And>x. safe T k b (f x)"
  shows "safe T k b (abind m f)"
proof (rule safeI)
  fix as assume as: "asm_at T k as"
  show "case abind m f as of None \<Rightarrow> ch CHR 0x27 \<in> set T
     | Some (r, as') \<Rightarrow> asm_at T k as' \<and> goes b as as' \<and> (r = Inl ITPException \<longrightarrow> log_errors as')"
  proof (cases rule: safeE [OF assms(1) as])
    case (2 r as1)
    show ?thesis
    proof (cases r)
      case (Inl e)
      with 2 show ?thesis by (auto simp: abind_def)
    next
      case (Inr x)
      then have ab: "abind m f as = f x as1" using 2(1) by (simp add: abind_def)
      show ?thesis
        unfolding ab by (cases rule: safeE [OF assms(2) [of x] 2(2)]) (use goes_trans [OF 2(3)] in auto)
    qed
  qed (simp add: abind_def)
qed

lemma safe_ret [safe_rule]: "safe T k b (ret x)"
  by (simp add: safe_def ret_def)

lemma safe_stop [safe_rule]: "safe T k b (stop (Fatal e))" "safe T k b (stop BadPointer)"
  by (simp_all add: safe_def stop_def)

lemma safe_reads [safe_rule]: "safe T k b (reads f)"
  by (simp add: safe_def reads_def)

lemma safe_need [safe_rule]: "safe T k b (need (Fatal e) x)"
  by (cases x) (simp_all add: need_def safe_rule)

lemma safe_if [safe_rule]: "(c \<Longrightarrow> safe T k b m) \<Longrightarrow> (\<not> c \<Longrightarrow> safe T k b n) \<Longrightarrow> safe T k b (if c then m else n)"
  by simp

lemma safe_option [safe_rule]:
  "(x = None \<Longrightarrow> safe T k b m) \<Longrightarrow> (\<And>y. x = Some y \<Longrightarrow> safe T k b (f y)) \<Longrightarrow> safe T k b (case x of None \<Rightarrow> m | Some y \<Rightarrow> f y)"
  by (cases x) simp_all

lemma safe_prod [safe_rule]: "(\<And>x y. p = (x, y) \<Longrightarrow> safe T k b (f x y)) \<Longrightarrow> safe T k b (case p of (x, y) \<Rightarrow> f x y)"
  by (cases p) simp

text \<open>What a successful view and the position of the code tell the rest of a function.\<close>

lemma safe_view:
  assumes "\<And>s. Range_view (\<lambda>_. T) r = Some s \<Longrightarrow> safe T k b (f s)"
  shows "safe T k b (abind (token_view r) f)"
proof (rule safeI)
  fix as assume as: "asm_at T k as"
  then have t: "lx_text (as_lexer as) = T" by (simp add: asm_at_def)
  show "case abind (token_view r) f as of None \<Rightarrow> ch CHR 0x27 \<in> set T
     | Some (r, as') \<Rightarrow> asm_at T k as' \<and> goes b as as' \<and> (r = Inl ITPException \<longrightarrow> log_errors as')"
  proof (cases "Range_view (\<lambda>_. T) r")
    case None
    then show ?thesis using as by (simp add: abind_def token_view_def need_def stop_def t)
  next
    case (Some s)
    then have ab: "abind (token_view r) f as = f s as" by (simp add: abind_def token_view_def need_def ret_def t)
    show ?thesis unfolding ab using assms [OF Some] as by (auto simp: safe_def)
  qed
qed

lemma safe_token_view [safe_rule]: "safe T k b (token_view r)"
  using safe_view [of T r k b ret] by (simp add: abind_def token_view_def need_def stop_def ret_def safe_def split: option.splits)

lemma safe_position:
  assumes "safe T k b (f (of_nat k))"
  shows "safe T k b (abind (reads code_position) f)"
  using assms by (auto simp: safe_def abind_def reads_def code_position_def asm_at_def)

section \<open>The token parser\<close>

lemma patches_upd [simp]:
  "patches (as\<lparr>as_lexer := a\<rparr>) = patches as" "patches (as\<lparr>as_curr := t\<rparr>) = patches as" "patches (as\<lparr>as_peek := t\<rparr>) = patches as"
  "patches (as\<lparr>as_prev := t\<rparr>) = patches as" "patches (as\<lparr>as_main := m\<rparr>) = patches as" "patches (as\<lparr>as_constants := c\<rparr>) = patches as"
  "patches (as\<lparr>as_instructions := i\<rparr>) = patches as" "patches (as\<lparr>as_symbols := s\<rparr>) = patches as"
  "patches (as\<lparr>as_references := r\<rparr>) = patches as" "patches (as\<lparr>as_node := n\<rparr>) = patches as"
  by (simp_all add: patches_def)

lemma asm_at_upd [simp]:
  "asm_at T k (as\<lparr>as_curr := t\<rparr>) = asm_at T k as" "asm_at T k (as\<lparr>as_peek := t\<rparr>) = asm_at T k as"
  "asm_at T k (as\<lparr>as_prev := t\<rparr>) = asm_at T k as" "asm_at T k (as\<lparr>as_main := m\<rparr>) = asm_at T k as"
  "asm_at T k (as\<lparr>as_constants := c\<rparr>) = asm_at T k as"
  by (simp_all add: asm_at_def asm_ok_def)

lemma log_errors_upd [simp]:
  "log_errors (as\<lparr>as_curr := t\<rparr>) = log_errors as" "log_errors (as\<lparr>as_peek := t\<rparr>) = log_errors as"
  "log_errors (as\<lparr>as_prev := t\<rparr>) = log_errors as" "log_errors (as\<lparr>as_main := m\<rparr>) = log_errors as"
  "log_errors (as\<lparr>as_constants := c\<rparr>) = log_errors as" "log_errors (as\<lparr>as_symbols := s\<rparr>) = log_errors as"
  "log_errors (as\<lparr>as_references := r\<rparr>) = log_errors as" "log_errors (as\<lparr>as_node := n\<rparr>) = log_errors as"
  "log_errors (as\<lparr>as_patchWork := p\<rparr>) = log_errors as" "log_errors (as\<lparr>as_instructions := i\<rparr>) = log_errors as"
  by (simp_all add: log_errors_def)

lemma log_errors_logs: "logs (as_lexer as) lX \<Longrightarrow> log_errors as \<Longrightarrow> log_errors (as\<lparr>as_lexer := lX\<rparr>)"
  by (auto simp: log_errors_def logs_def)

definition token_read :: "AssemblerCtx \<Rightarrow> Token \<Rightarrow> Lexer \<Rightarrow> bool" where
  "token_read as t lX \<longleftrightarrow> (tk_kind t = tokCOUNT \<and> left_over lX \<le> left_over (as_lexer as) \<or>
     tk_kind t \<noteq> tokCOUNT \<and> tk_kind t \<noteq> tokEoF \<and> left_over lX < left_over (as_lexer as))"

lemma next_token_cases:
  assumes "asm_at T k as"
  obtains "next_token E as = None" "ch CHR 0x27 \<in> set T"
    | e where "next_token E as = Some (Inl (Fatal e), as)"
    | t lX where "next_token E as = Some (Inr t, as\<lparr>as_lexer := lX\<rparr>)" "asm_at T k (as\<lparr>as_lexer := lX\<rparr>)"
      "log_errors as \<longrightarrow> log_errors (as\<lparr>as_lexer := lX\<rparr>)" "token_read as t lX"
proof -
  have a: "lexer_ok (as_lexer as)" "words_ok (as_lexer as)" "lx_text (as_lexer as) = T"
    using assms by (auto simp: asm_at_def asm_ok_def)
  note tot = next_ok_total [OF a(1,2), of E]
  show thesis
  proof (cases "Lexer_next E (as_lexer as)")
    case None
    then have "ch CHR 0x27 \<in> set T" using tot a(3) by (auto dest: in_set_dropD)
    with None show thesis using that(1) by (simp add: next_token_def)
  next
    case (Some r)
    show thesis
    proof (cases r)
      case (Inl e)
      with Some show thesis using that(2) by (simp add: next_token_def)
    next
      case (Inr x)
      obtain kind t lX where x: "r = Inr (kind, t, lX)" using Inr by (cases x) auto
      then have ok: "same_source (as_lexer as) lX" "lexer_ok lX" "kind \<noteq> tokCOUNT" "tok_ok kind t lX"
        "kind = tokEoF \<or> left_over lX < left_over (as_lexer as)"
        using tot Some by (auto simp: next_result_def)
      have an: "logs (as_lexer as) lX" "kind = tokEoF \<longrightarrow> tk_kind t = tokCOUNT \<and> left_over lX \<le> left_over (as_lexer as)"
        using next_answered [OF a(1,2), of E kind t lX] Some x by auto
      have "asm_at T k (as\<lparr>as_lexer := lX\<rparr>)"
        using assms ok words_same [OF ok(1) a(2)] by (auto simp: asm_at_def asm_ok_def same_source_def)
      moreover have "token_read as t lX" using ok an(2) by (auto simp: token_read_def tok_ok_def)
      ultimately show thesis using that(3) Some x log_errors_logs [OF an(1)] by (simp add: next_token_def)
    qed
  qed
qed

lemma ITP_eof_upd [simp]: "ITP_eof (as\<lparr>as_lexer := a\<rparr>) = ITP_eof as" "ITP_eof (as\<lparr>as_peek := t\<rparr>) = ITP_eof as"
  "ITP_eof (as\<lparr>as_prev := t\<rparr>) = ITP_eof as" "ITP_eof (as\<lparr>as_main := m\<rparr>) = ITP_eof as" "ITP_eof (as\<lparr>as_constants := c\<rparr>) = ITP_eof as"
  "ITP_eof (as\<lparr>as_symbols := s\<rparr>) = ITP_eof as" "ITP_eof (as\<lparr>as_references := r\<rparr>) = ITP_eof as"
  "ITP_eof (as\<lparr>as_node := n\<rparr>) = ITP_eof as" "ITP_eof (as\<lparr>as_patchWork := p\<rparr>) = ITP_eof as"
  "ITP_eof (as\<lparr>as_instructions := i\<rparr>) = ITP_eof as"
  by (simp_all add: ITP_eof_def)

lemma advance_cases:
  assumes "asm_at T k as"
  obtains "ITP_advance E as = None" "ch CHR 0x27 \<in> set T"
    | e as' where "ITP_advance E as = Some (Inl (Fatal e), as')" "asm_at T k as'" "goes b as as'"
    | t as' where "ITP_advance E as = Some (Inr t, as')" "asm_at T k as'" "goes b as as'" "\<not> ITP_eof as \<longrightarrow> todo as' < todo as"
proof (cases "tk_kind (as_curr as) = tokEoF")
  case True
  then show thesis using that(3) assms by (simp add: ITP_advance_def ITP_eof_def)
next
  case False
  let ?as = "as\<lparr>as_prev := as_curr as\<rparr>"
  show thesis
  proof (cases "tk_kind (as_peek as) = tokCOUNT")
    case peek: True
    have "asm_at T k ?as" using assms by simp
    then show thesis
    proof (cases rule: next_token_cases [where E = E])
      case 1
      then show thesis using that(1) False peek by (simp add: ITP_advance_def abind_def)
    next
      case (2 e)
      have "goes b as ?as" by (simp add: goes_def todo_def)
      with 2 show thesis using that(2) False peek assms by (simp add: ITP_advance_def abind_def)
    next
      case (3 t lX)
      let ?as' = "?as\<lparr>as_lexer := lX, as_curr := t\<rparr>"
      have td: "\<not> ITP_eof as \<longrightarrow> todo ?as' < todo as" "todo ?as' \<le> todo as"
        using 3(4) peek by (auto simp: todo_def token_read_def ITP_eof_def)
      then have "goes b as ?as'" using 3(3) by (auto simp: goes_def log_errors_def)
      with 3 td show thesis using that(3) [of "as_curr as" ?as'] False peek by (simp add: ITP_advance_def abind_def modify_def reads_def)
    qed
  next
    case peek: False
    let ?as' = "clear_peek (?as\<lparr>as_curr := as_peek as\<rparr>)"
    have td: "\<not> ITP_eof as \<longrightarrow> todo ?as' < todo as" "todo ?as' \<le> todo as"
      using peek by (auto simp: todo_def clear_peek_def ITP_eof_def)
    then have "goes b as ?as'" by (auto simp: goes_def clear_peek_def)
    with td show thesis using that(3) [of "as_curr as" ?as'] False peek assms by (simp add: ITP_advance_def clear_peek_def)
  qed
qed

lemma safe_advance [safe_rule]: "safe T k b (ITP_advance E)"
  by (rule safeI, erule advance_cases [where E = E and b = b]) auto

lemma safe_peek [safe_rule]: "safe T k b (ITP_peek E)"
proof (rule safeI)
  fix as assume as: "asm_at T k as"
  show "case ITP_peek E as of None \<Rightarrow> ch CHR 0x27 \<in> set T
     | Some (r, as') \<Rightarrow> asm_at T k as' \<and> goes b as as' \<and> (r = Inl ITPException \<longrightarrow> log_errors as')"
  proof (cases "tk_kind (as_curr as) = tokEoF \<or> tk_kind (as_peek as) \<noteq> tokCOUNT")
    case True
    then show ?thesis using as by (auto simp: ITP_peek_def)
  next
    case False
    show ?thesis
    proof (cases rule: next_token_cases [OF as, where E = E])
      case (3 t lX)
      let ?as' = "as\<lparr>as_lexer := lX, as_peek := t\<rparr>"
      have "goes b as ?as'" using 3(3,4) False by (auto simp: goes_def todo_def token_read_def log_errors_def)
      with 3 False show ?thesis by (simp add: ITP_peek_def abind_def modify_def reads_def)
    qed (use False as in \<open>simp_all add: ITP_peek_def abind_def\<close>)
  qed
qed

lemma safe_match [safe_rule]: "safe T k b (ITP_match E kinds)"
  by (rule safe_pointwise [where n = "\<lambda>as. if ITP_check kinds as then abind (ITP_advance E) (\<lambda>_. ret True) else ret False"])
    (intro safe_rule, simp add: ITP_match_def ret_def)

lemma left_over_log [simp]: "left_over (lX\<lparr>lx_log := l\<rparr>) = left_over lX"
  by (simp add: left_over_def pending_def)

lemma log_ok [simp]: "lexer_ok (lX\<lparr>lx_log := l\<rparr>) = lexer_ok lX" "words_ok (lX\<lparr>lx_log := l\<rparr>) = words_ok lX"
  by (simp_all add: lexer_ok_def good_def pos_ok_def next_ok_def tok_ok_def words_ok_def)

lemma safe_error0 [safe_rule]: "safe T k b (ITP_error0 r m)"
proof (rule safeI)
  fix as assume "asm_at T k as"
  moreover from this have "asm_at T k (as\<lparr>as_lexer := (as_lexer as)\<lparr>lx_log := Log_append logError r m (lx_log (as_lexer as))\<rparr>\<rparr>)"
    by (auto simp: asm_at_def asm_ok_def)
  moreover have "goes b as (as\<lparr>as_lexer := (as_lexer as)\<lparr>lx_log := Log_append logError r m (lx_log (as_lexer as))\<rparr>\<rparr>)"
    by (auto simp: goes_def todo_def log_errors_def Log_append_def)
  ultimately show "case ITP_error0 r m as of None \<Rightarrow> ch CHR 0x27 \<in> set T
     | Some (r, as') \<Rightarrow> asm_at T k as' \<and> goes b as as' \<and> (r = Inl ITPException \<longrightarrow> log_errors as')"
    by (simp add: ITP_error0_def modify_def)
qed

lemma safe_error [safe_rule]: "safe T k b (ITP_error m)"
  by (rule safe_pointwise [OF safe_error0]) (rule ITP_error_def)

lemma fail_error: "ITP_fail0 r m as = map_option (\<lambda>(q, as). (Inl ITPException, as)) (ITP_error0 r m as)"
  "log_errors (snd (the (ITP_error0 r m as)))"
  by (auto simp: ITP_fail0_def ITP_error0_def modify_def abind_def stop_def log_errors_def Log_append_def)

lemma safe_fail0 [safe_rule]: "safe T k b (ITP_fail0 r m)"
proof (rule safeI)
  fix as assume as: "asm_at T k as"
  show "case ITP_fail0 r m as of None \<Rightarrow> ch CHR 0x27 \<in> set T
     | Some (r, as') \<Rightarrow> asm_at T k as' \<and> goes b as as' \<and> (r = Inl ITPException \<longrightarrow> log_errors as')"
    by (cases rule: safeE [OF safe_error0 [of T k b r m] as])
      (use fail_error(2) [of r m as] in \<open>auto simp: fail_error(1) ITP_error0_def modify_def\<close>)
qed

lemma fail_fail0: "ITP_fail m as = ITP_fail0 (tk_range (as_curr as)) m as"
  by (simp add: ITP_fail_def ITP_fail0_def ITP_error_def abind_def)

lemma safe_fail [safe_rule]: "safe T k b (ITP_fail m)"
  by (rule safe_pointwise [OF safe_fail0]) (rule fail_fail0)

lemma safe_consume [safe_rule]: "safe T k b (ITP_consume E kind m)"
  by (rule safe_pointwise [where n = "\<lambda>as. if ITP_check [kind] as then ITP_advance E else ITP_fail m"])
    (intro safe_rule, simp add: ITP_consume_def)

section \<open>Symbols\<close>

lemma symbol_order_fold: "(\<lambda>a b. Assembler_symbol_cmp a 0 b) = symbol_order"
  by (intro ext) (simp add: symbol_order_def)

lemma symbols_mono: "symbols_ok node tab t \<Longrightarrow> node \<le> node' \<Longrightarrow> symbols_ok node' tab t"
  unfolding symbols_ok_def by (elim ex_forward conjE, intro conjI; (assumption | meson less_le_trans))

lemma patches_mono: "patches_ok node ps t \<Longrightarrow> node \<le> node' \<Longrightarrow> patches_ok node' ps t"
  by (force simp: patches_ok_def)

lemma refers_mono: "refers_ok node t \<Longrightarrow> node \<le> node' \<Longrightarrow> refers_ok node' t"
  by (force simp: refers_ok_def)

lemma ordered_symbols:
  assumes "\<forall>a. sy_name (val t' a) = sy_name (val t a)"
  shows "ordered symbol_order t' as \<longleftrightarrow> ordered symbol_order t as"
  using assms by (simp add: ordered_def symbol_order_strcmp)

text \<open>Changing what a node holds, but not its name.\<close>

lemma symbols_store:
  assumes "symbols_ok node tab t" "sy_name (f (val t p)) = sy_name (val t p)"
  shows "\<exists>tab'. symbols_ok node tab' (upd_node p (\<lambda>n. n\<lparr>rb_data := f (rb_data n)\<rparr>) t)"
proof -
  obtain as where t: "tree_nodes t as" "ordered symbol_order t as" "\<forall>a \<in> set as. a < node"
    "\<forall>a \<in> set as. tab (sy_name (val t a)) = Some (val t a)" "inj_on (\<lambda>a. sy_name (val t a)) (set as)"
    "\<forall>x. tab x \<noteq> None \<longrightarrow> x \<in> (\<lambda>a. sy_name (val t a)) ` set as"
    using assms(1) by (auto simp: symbols_ok_def)
  define u where "u = upd_node p (\<lambda>n. n\<lparr>rb_data := f (rb_data n)\<rparr>) t"
  have v: "val u a = (if a = p then f (val t p) else val t a)" for a by (simp add: u_def upd_node_def)
  then have nm: "sy_name (val u a) = sy_name (val t a)" for a using assms(2) by simp
  define tab' where "tab' = (if p \<in> set as then tab(sy_name (val t p) \<mapsto> f (val t p)) else tab)"
  have "tree_nodes u as" using t(1) by (simp add: u_def)
  moreover have "ordered symbol_order u as" using t(2) ordered_symbols [of u t as] nm by simp
  moreover have "\<forall>a \<in> set as. tab' (sy_name (val u a)) = Some (val u a)"
    unfolding nm using t(4,5) by (auto simp: v tab'_def inj_on_def)
  moreover have "inj_on (\<lambda>a. sy_name (val u a)) (set as)" using t(5) by (simp add: nm)
  moreover have "\<forall>x. tab' x \<noteq> None \<longrightarrow> x \<in> (\<lambda>a. sy_name (val u a)) ` set as"
    using t(6) by (auto simp: nm tab'_def split: if_splits)
  ultimately have "symbols_ok node tab' u" unfolding symbols_ok_def using t(3) by (intro exI [of _ as]) auto
  then show ?thesis unfolding u_def by blast
qed

text \<open>Looking for a name, or adding a symbol with it.\<close>

lemma symbols_find_or_add:
  assumes "symbols_ok node tab t"
  shows "(\<exists>p. RbTree_find_or_add_ref symbol_order (symbol_query x) (Some node) t = Some (False, p, t) \<and> tab x \<noteq> None) \<or>
    (\<exists>u. RbTree_find_or_add_ref symbol_order (symbol_query x) (Some node) t = Some (True, node, u) \<and> tab x = None \<and>
      (\<forall>s. sy_name s = x \<longrightarrow> symbols_ok (Suc node) (tab(x \<mapsto> s)) (upd_node node (\<lambda>n. n\<lparr>rb_data := s\<rparr>) u)))"
proof -
  obtain as where t: "tree_nodes t as" "ordered symbol_order t as" "\<forall>a \<in> set as. a < node"
    "\<forall>a \<in> set as. tab (sy_name (val t a)) = Some (val t a)" "inj_on (\<lambda>a. sy_name (val t a)) (set as)"
    "\<forall>x. tab x \<noteq> None \<longrightarrow> x \<in> (\<lambda>a. sy_name (val t a)) ` set as"
    using assms by (auto simp: symbols_ok_def)
  have fresh: "node \<notin> set as" using t(3) by auto
  have eq: "symbol_order (symbol_query x) w = 0 \<longleftrightarrow> sy_name w = x" for w
    by (auto simp: symbol_order_strcmp strcmp_eq_0)
  show ?thesis
  proof (rule symbol_names.find_or_add_cases [OF t(1,2) fresh, of "symbol_query x", unfolded eq])
    fix p assume "p \<in> set as" "RbTree_find_or_add symbol_order (symbol_query x) node t = Some (False, p, t)" "sy_name (val t p) = x"
    moreover from this t(4) have "tab x \<noteq> None" by auto
    ultimately show ?thesis by (auto simp: RbTree_find_or_add_def split: bind_splits if_splits)
  next
    fix u xs ys
    assume new: "RbTree_find_or_add symbol_order (symbol_query x) node t = Some (True, node, u)" "as = xs @ ys"
      "tree_nodes u (xs @ node # ys)" "ordered symbol_order u (xs @ node # ys)" "val u node = symbol_query x"
      "\<forall>b. b \<noteq> node \<longrightarrow> val u b = val t b" "\<forall>a \<in> set as. sy_name (val t a) \<noteq> x"
    obtain w where w: "RbTree_find_or_add_ref symbol_order (symbol_query x) (Some node) t = Some (True, node, w)"
      "u = upd_node node (\<lambda>n. n\<lparr>rb_data := symbol_query x\<rparr>) w"
      using new(1) by (auto simp: RbTree_find_or_add_def split: bind_splits if_splits)
    let ?bs = "xs @ node # ys"
    have none: "tab x = None" using t(6) new(7) by (metis (no_types, lifting) image_iff)
    have "symbols_ok (Suc node) (tab(x \<mapsto> s)) (upd_node node (\<lambda>n. n\<lparr>rb_data := s\<rparr>) w)" if s: "sy_name s = x" for s
    proof -
      define z where "z = upd_node node (\<lambda>n. n\<lparr>rb_data := s\<rparr>) w"
      have v: "val z a = (if a = node then s else val t a)" for a
        using new(6) w(2) by (auto simp: z_def upd_node_def)
      have nm: "sy_name (val z a) = sy_name (val u a)" for a using s new(5,6) by (simp add: v)
      have "tree_nodes z ?bs" using new(3) w(2) by (simp add: z_def)
      moreover have "ordered symbol_order z ?bs" using new(4) ordered_symbols [of z u ?bs] nm by simp
      moreover have "\<forall>a \<in> set ?bs. a < Suc node" using t(3) new(2) by (auto simp: less_Suc_eq)
      moreover have "\<forall>a \<in> set ?bs. (tab(x \<mapsto> s)) (sy_name (val z a)) = Some (val z a)"
        using t(4) new(2,7) fresh s by (auto simp: v)
      moreover have "inj_on (\<lambda>a. sy_name (val z a)) (set ?bs)" using t(5) new(2,7) fresh s by (auto simp: v inj_on_def)
      moreover have "\<forall>y. (tab(x \<mapsto> s)) y \<noteq> None \<longrightarrow> y \<in> (\<lambda>a. sy_name (val z a)) ` set ?bs"
      proof (intro allI impI)
        fix y assume y: "(tab(x \<mapsto> s)) y \<noteq> None"
        show "y \<in> (\<lambda>a. sy_name (val z a)) ` set ?bs"
        proof (cases "y = x")
          case True
          then show ?thesis using s by (auto simp: v)
        next
          case False
          with y t(6) obtain a where "a \<in> set as" "y = sy_name (val t a)" by auto
          then show ?thesis using fresh new(2) by (intro image_eqI [of _ _ a]) (auto simp: v)
        qed
      qed
      ultimately show ?thesis unfolding symbols_ok_def z_def [symmetric] by (intro exI [of _ ?bs]) simp
    qed
    then show ?thesis using w(1) none by auto
  qed
qed

lemma safe_find_symbol [safe_rule]: "safe T k b (find_symbol name)"
proof (rule safeI)
  fix as assume as: "asm_at T k as"
  then obtain tab where "symbols_ok (as_node as) tab (as_symbols as)" by (auto simp: asm_at_def asm_ok_def)
  from symbols_find [OF this, of name] as show "case find_symbol name as of None \<Rightarrow> ch CHR 0x27 \<in> set T
     | Some (r, as') \<Rightarrow> asm_at T k as' \<and> goes b as as' \<and> (r = Inl ITPException \<longrightarrow> log_errors as')"
    by (auto simp: find_symbol_def symbol_order_fold)
qed

lemma safe_main [safe_rule]: "safe T k b (modify (as_main_update (\<lambda>_. i)))"
  by (simp add: safe_def modify_def goes_def todo_def)

lemma safe_push [safe_rule]: "safe T k b (push_constants bs)"
  by (simp add: safe_def push_constants_def modify_def goes_def todo_def)

lemma safe_expand [safe_rule]: "safe T k b (expand_constants n)"
  by (rule safe_pointwise [OF safe_push]) (simp add: expand_constants_def)

lemma safe_size [safe_rule]: "safe T k b (store_symbol p (sy_size_update f))"
proof (rule safeI)
  fix as assume as: "asm_at T k as"
  let ?as = "as\<lparr>as_symbols := upd_node p (\<lambda>n. n\<lparr>rb_data := sy_size_update f (rb_data n)\<rparr>) (as_symbols as)\<rparr>"
  from as obtain tab where "symbols_ok (as_node as) tab (as_symbols as)" by (auto simp: asm_at_def asm_ok_def)
  from symbols_store [OF this, of "sy_size_update f" p] as have "asm_at T k ?as" by (auto simp: asm_at_def asm_ok_def)
  moreover have "goes b as ?as" by (simp add: goes_def todo_def)
  ultimately show "case store_symbol p (sy_size_update f) as of None \<Rightarrow> ch CHR 0x27 \<in> set T
     | Some (r, as') \<Rightarrow> asm_at T k as' \<and> goes b as as' \<and> (r = Inl ITPException \<longrightarrow> log_errors as')"
    by (simp add: store_symbol_def modify_def)
qed

text \<open>A new symbol: its node is made and filled.\<close>

lemma asm_at_symbol:
  assumes "asm_at T k as" "symbols_ok (Suc (as_node as)) tab t"
  shows "asm_at T k (as\<lparr>as_symbols := t, as_node := Suc (as_node as)\<rparr>)"
  using assms patches_mono [of "as_node as" "patches as" "as_patchWork as" "Suc (as_node as)"]
    refers_mono [of "as_node as" "as_references as" "Suc (as_node as)"]
  by (auto simp: asm_at_def asm_ok_def)

lemma new_symbol_cases:
  assumes "asm_at T k as" "sy_name s = name"
  obtains (old) as' p where "find_or_add_symbol name as = Some (Inr (False, p), as')" "asm_at T k as'" "goes b as as'"
    | (new) as1 as' p where "find_or_add_symbol name as = Some (Inr (True, p), as1)"
        "store_symbol p (\<lambda>_. s) as1 = Some (Inr (), as')" "asm_at T k as'" "goes b as as'"
proof -
  obtain tab where tab: "symbols_ok (as_node as) tab (as_symbols as)" using assms(1) by (auto simp: asm_at_def asm_ok_def)
  have go: "goes b as (as\<lparr>as_symbols := t, as_node := n\<rparr>)" for t n by (simp add: goes_def todo_def)
  from symbols_find_or_add [OF tab, of name] consider
      p where "RbTree_find_or_add_ref symbol_order (symbol_query name) (Some (as_node as)) (as_symbols as) = Some (False, p, as_symbols as)"
    | u where "RbTree_find_or_add_ref symbol_order (symbol_query name) (Some (as_node as)) (as_symbols as) = Some (True, as_node as, u)"
        "symbols_ok (Suc (as_node as)) (tab(name \<mapsto> s)) (upd_node (as_node as) (\<lambda>n. n\<lparr>rb_data := s\<rparr>) u)"
    using assms(2) by blast
  then show thesis
  proof cases
    case (1 p)
    then have "find_or_add_symbol name as = Some (Inr (False, p), as\<lparr>as_symbols := as_symbols as, as_node := Suc (as_node as)\<rparr>)"
      by (simp add: find_or_add_symbol_def symbol_order_fold)
    moreover have "asm_at T k (as\<lparr>as_symbols := as_symbols as, as_node := Suc (as_node as)\<rparr>)"
      by (rule asm_at_symbol [OF assms(1) symbols_mono [OF tab]]) simp
    ultimately show thesis using old go by blast
  next
    case (2 u)
    let ?as1 = "as\<lparr>as_symbols := u, as_node := Suc (as_node as)\<rparr>"
    let ?as' = "as\<lparr>as_symbols := upd_node (as_node as) (\<lambda>n. n\<lparr>rb_data := s\<rparr>) u, as_node := Suc (as_node as)\<rparr>"
    have "find_or_add_symbol name as = Some (Inr (True, as_node as), ?as1)"
      using 2(1) by (simp add: find_or_add_symbol_def symbol_order_fold)
    moreover have "store_symbol (as_node as) (\<lambda>_. s) ?as1 = Some (Inr (), ?as')"
      by (simp add: store_symbol_def modify_def)
    moreover have "asm_at T k ?as'" by (rule asm_at_symbol [OF assms(1) 2(2)])
    ultimately show thesis using new go by blast
  qed
qed

lemma safe_new_symbol:
  assumes "sy_name s = name" "safe T k b m" "\<And>p. safe T k b (c p)"
  shows "safe T k b (abind (find_or_add_symbol name) (\<lambda>(f, p).
     if \<not> f then m else abind (store_symbol p (\<lambda>_. s)) (\<lambda>_. c p)))" (is "safe T k b ?m")
proof (rule safeI)
  fix as assume as: "asm_at T k as"
  show "case ?m as of None \<Rightarrow> ch CHR 0x27 \<in> set T
     | Some (r, as') \<Rightarrow> asm_at T k as' \<and> goes b as as' \<and> (r = Inl ITPException \<longrightarrow> log_errors as')"
  proof (cases rule: new_symbol_cases [OF as assms(1), where b = b])
    case (1 as' p)
    have m: "?m as = m as'" using 1(1) by (simp add: abind_def)
    show ?thesis
      unfolding m by (cases rule: safeE [OF assms(2) 1(2)]) (use goes_trans [OF 1(3)] in auto)
  next
    case (2 as1 as' p)
    have m: "?m as = c p as'" using 2(1,2) by (simp add: abind_def)
    show ?thesis
      unfolding m by (cases rule: safeE [OF assms(3) [of p] 2(3)]) (use goes_trans [OF 2(4)] in auto)
  qed
qed

lemma safe_add_symbol [safe_rule]: "safe T k b (Assembler_add_symbol pos tag r)"
  unfolding Assembler_add_symbol_def by (intro safe_rule safe_new_symbol) simp

lemma safe_define [safe_rule]: "safe T k b (Assembler_define name v)"
proof -
  have "safe T k b (abind (find_or_add_symbol name) (\<lambda>(f, p). if \<not> f then stop (Fatal LexAbort) else
     abind (store_symbol p (\<lambda>_. \<lparr>sy_id = v, sy_size = 0, sy_tag = sytDefine, sy_name = name, sy_range = no_range\<rparr>)) (\<lambda>_. ret ())))"
    by (intro safe_rule safe_new_symbol) simp
  moreover have r: "abind m (\<lambda>_. ret ()) = m" for m :: "unit asm"
    by (rule ext) (simp add: abind_def ret_def split: option.split sum.split prod.split)
  ultimately show ?thesis by (simp only: Assembler_define_def r)
qed

text \<open>The tree of the labels, whose lists are not read again.\<close>

lemma symbol_ref_init_eq:
  "Assembler_symbol_ref_init i as =
     (case RbTree_find_or_add key_order (i, RbTree_initWith 0) (as_node as) (as_references as) of
        None \<Rightarrow> None
      | Some (f, p, t) \<Rightarrow> Some (Inr (), as\<lparr>as_node := Suc (as_node as), as_references := t\<rparr>))"
  by (auto simp: Assembler_symbol_ref_init_def RbTree_find_or_add_def cmp_key_order split: option.split prod.split)

lemma safe_symbol_ref_init [safe_rule]: "safe T k b (Assembler_symbol_ref_init i)"
proof (rule safeI)
  fix as assume as: "asm_at T k as"
  then obtain ns where n: "tree_nodes (as_references as) ns" "ordered key_order (as_references as) ns" "\<forall>a \<in> set ns. a < as_node as"
    by (auto simp: asm_at_def asm_ok_def refers_ok_def)
  then have fresh: "as_node as \<notin> set ns" by auto
  have "\<exists>f p t. RbTree_find_or_add key_order (i, RbTree_initWith 0) (as_node as) (as_references as) = Some (f, p, t) \<and>
      refers_ok (Suc (as_node as)) t"
  proof (rule u32_order.find_or_add_cases [OF n(1,2) fresh, of "(i, RbTree_initWith 0)"])
    fix p
    assume "RbTree_find_or_add key_order (i, RbTree_initWith 0) (as_node as) (as_references as) = Some (False, p, as_references as)"
    moreover have "refers_ok (Suc (as_node as)) (as_references as)"
      using n by (auto simp: refers_ok_def less_Suc_eq)
    ultimately show ?thesis by blast
  next
    fix u xs ys
    assume new: "RbTree_find_or_add key_order (i, RbTree_initWith 0) (as_node as) (as_references as) = Some (True, as_node as, u)"
      "ns = xs @ ys" "tree_nodes u (xs @ as_node as # ys)" "ordered key_order u (xs @ as_node as # ys)"
    then have "refers_ok (Suc (as_node as)) u"
      unfolding refers_ok_def using n(3) by (intro exI [of _ "xs @ as_node as # ys"]) (auto simp: less_Suc_eq)
    with new(1) show ?thesis by blast
  qed
  then obtain f p t where t: "RbTree_find_or_add key_order (i, RbTree_initWith 0) (as_node as) (as_references as) = Some (f, p, t)"
    "refers_ok (Suc (as_node as)) t" by blast
  let ?as = "as\<lparr>as_node := Suc (as_node as), as_references := t\<rparr>"
  have "asm_at T k ?as"
    using as t(2) symbols_mono [of "as_node as" _ "as_symbols as" "Suc (as_node as)"]
      patches_mono [of "as_node as" "patches as" "as_patchWork as" "Suc (as_node as)"]
    by (auto simp: asm_at_def asm_ok_def)
  moreover have "goes b as ?as" by (simp add: goes_def todo_def)
  ultimately show "case Assembler_symbol_ref_init i as of None \<Rightarrow> ch CHR 0x27 \<in> set T
     | Some (r, as') \<Rightarrow> asm_at T k as' \<and> goes b as as' \<and> (r = Inl ITPException \<longrightarrow> log_errors as')"
    by (simp add: symbol_ref_init_eq t(1))
qed

section \<open>Patches\<close>

lemma safe_add_patch:
  assumes "Range_view (\<lambda>_. T) r \<noteq> None"
  shows "safe T k False (add_patch (of_nat k, r))"
proof (rule safeI)
  fix as assume as: "asm_at T k as"
  then have p: "patches_ok (as_node as) (patches as) (as_patchWork as)" by (simp add: asm_at_def asm_ok_def)
  then obtain ns where n: "tree_nodes (as_patchWork as) ns" "ordered key_order (as_patchWork as) ns" "\<forall>a \<in> set ns. a < as_node as"
    "map (val (as_patchWork as)) ns = patches as"
    by (auto simp: patches_ok_def)
  then have fresh: "as_node as \<notin> set ns" by auto
  obtain t xs ys where t: "RbTree_add key_order (of_nat k, r) (as_node as) (as_patchWork as) = Some t" "ns = xs @ ys"
    "tree_nodes t (xs @ as_node as # ys)" "ordered key_order t (xs @ as_node as # ys)" "val t (as_node as) = (of_nat k, r)"
    "\<forall>b. b \<noteq> as_node as \<longrightarrow> val t b = val (as_patchWork as) b"
    using u32_order.add_law [OF n(1,2) fresh, of "(of_nat k, r)"] by blast
  let ?as = "as\<lparr>as_patchWork := t, as_node := Suc (as_node as)\<rparr>"
  let ?ps = "map (val (as_patchWork as)) xs @ (of_nat k, r) # map (val (as_patchWork as)) ys"
  have same: "val t a = val (as_patchWork as) a" if "a \<in> set ns" for a using t(6) fresh that by metis
  have "map (val t) (xs @ as_node as # ys) = ?ps"
    using same t(2,5) by simp
  then have "patches_ok (Suc (as_node as)) ?ps t"
    unfolding patches_ok_def using t(2-4) n(3) by (intro exI [of _ "xs @ as_node as # ys"]) (auto simp: less_Suc_eq)
  moreover from this have ps: "patches ?as = ?ps" by (intro patches_eq) simp
  moreover have "set ?ps = insert (of_nat k, r) (set (patches as))"
    using n(4) t(2) by (simp add: n(4) [symmetric])
  moreover have "unat (of_nat k :: u32) \<le> k" by (simp add: unat_of_nat)
  ultimately have "asm_at T k ?as"
    using as assms symbols_mono [of "as_node as" _ "as_symbols as" "Suc (as_node as)"]
      refers_mono [of "as_node as" "as_references as" "Suc (as_node as)"]
    by (auto simp: asm_at_def asm_ok_def)
  moreover have "goes False as ?as" by (simp add: goes_def todo_def)
  ultimately show "case add_patch (of_nat k, r) as of None \<Rightarrow> ch CHR 0x27 \<in> set T
     | Some (q, as') \<Rightarrow> asm_at T k as' \<and> goes False as as' \<and> (q = Inl ITPException \<longrightarrow> log_errors as')"
    by (simp add: add_patch_def cmp_key_order t(1))
qed

lemma safe_reference:
  "safe T k False (Assembler_add_symbol_reference (of_nat k) r w)"
  unfolding Assembler_add_symbol_reference_def
  by (rule safe_view) (intro safe_rule safe_add_patch; simp)

lemma safe_variable_size [safe_rule]: "safe T k b (Assembler_get_variable_size r)"
  unfolding Assembler_get_variable_size_def by (intro safe_rule)

lemma safe_integral [safe_rule]: "safe T k b (Assembler_append_integral_data v m)"
  unfolding Assembler_append_integral_data_def by (intro safe_rule)

lemma safe_modes [safe_rule]: "safe T k b (Assembler_parse_modes E ms)"
  unfolding Assembler_parse_modes_def by (intro safe_rule)

lemma safe_label [safe_rule]: "safe T k b (Assembler_parse_label E)"
  unfolding Assembler_parse_label_def by (intro safe_rule)

section \<open>Arguments\<close>

lemma safe_sign [safe_rule]: "safe T k b (match_sign E)"
  unfolding match_sign_def by (intro safe_rule)

lemma safe_symbol_arg: "safe T k False (symbol_arg E z (of_nat k) tok i)"
  unfolding symbol_arg_def Let_def by (intro safe_rule safe_reference)

lemma safe_offset_symbol: "safe T k False (offset_symbol z sign (of_nat k) tok tokP i)"
  unfolding offset_symbol_def by (intro safe_rule safe_reference)

lemma safe_offset_arg: "safe T k False (offset_arg E z (of_nat k) tok i)"
  unfolding offset_arg_def by (intro safe_rule safe_offset_symbol)

lemma safe_literal [safe_rule]: "safe T k b (integer_literal n tok i)" "safe T k b (literal_arg n tok i)"
  unfolding literal_arg_def integer_literal_def Let_def by (intro safe_rule)+

lemma safe_name_arg: "safe T k False (name_arg E z (of_nat k) tok i)"
  unfolding name_arg_def by (intro safe_rule safe_symbol_arg)

lemma safe_arg: "safe T k False (Assembler_parse_instruction_arg E isRb i)"
  unfolding Assembler_parse_instruction_arg_def by (intro safe_rule safe_position safe_name_arg safe_offset_arg)

lemma safe_args: "safe T k False (parse_first_arg E n i)" "safe T k False (parse_second_arg E n i)"
  unfolding parse_first_arg_def parse_second_arg_def by (intro safe_rule safe_arg)+

section \<open>Progress\<close>

text \<open>Input is consumed, when the result has the property \<open>P\<close>; with \<open>c\<close>, if it was not at its end.\<close>

definition gains :: "bool \<Rightarrow> ('a \<Rightarrow> bool) \<Rightarrow> 'a asm \<Rightarrow> bool" where
  "gains c P m \<longleftrightarrow> (\<forall>T k as x as'. asm_at T k as \<longrightarrow> (c \<longrightarrow> \<not> ITP_eof as) \<longrightarrow> m as = Some (Inr x, as') \<longrightarrow> P x \<longrightarrow> todo as' < todo as)"

definition lasts :: "'a asm \<Rightarrow> bool" where
  "lasts m \<longleftrightarrow> (\<forall>T k as x as'. asm_at T k as \<longrightarrow> m as = Some (Inr x, as') \<longrightarrow> todo as' \<le> todo as)"

lemma safe_lasts: "(\<And>T k. safe T k b m) \<Longrightarrow> lasts m"
  unfolding lasts_def
proof (intro allI impI)
  fix T k as x as'
  assume "\<And>T k. safe T k b m" "asm_at T k as" and m: "m as = Some (Inr x, as')"
  then show "todo as' \<le> todo as" by (cases rule: safeE [of T k b m as]) (use m in \<open>auto simp: goes_def\<close>)
qed

lemma lasts_bind:
  assumes "\<And>T k. safe T k b m" "\<And>x. lasts (f x)"
  shows "lasts (abind m f)"
  unfolding lasts_def
proof (intro allI impI)
  fix T k as x as'
  assume as: "asm_at T k as" "abind m f as = Some (Inr x, as')"
  then obtain y as1 where m: "m as = Some (Inr y, as1)" "f y as1 = Some (Inr x, as')"
    by (auto simp: abind_def split: option.splits sum.splits prod.splits)
  have as1: "asm_at T k as1" "goes b as as1" by (cases rule: safeE [OF assms(1) as(1)]; use m in auto)+
  with assms(2) m(2) show "todo as' \<le> todo as" unfolding lasts_def goes_def by (meson le_trans)
qed

lemma gains_first:
  assumes "gains c (\<lambda>_. True) m" "\<And>T k. safe T k b m" "\<And>x. lasts (f x)"
  shows "gains c P (abind m f)"
  unfolding gains_def
proof (intro allI impI)
  fix T k as x as'
  assume as: "asm_at T k as" "c \<longrightarrow> \<not> ITP_eof as" "abind m f as = Some (Inr x, as')"
  then obtain y as1 where m: "m as = Some (Inr y, as1)" "f y as1 = Some (Inr x, as')"
    by (auto simp: abind_def split: option.splits sum.splits prod.splits)
  have "asm_at T k as1" by (cases rule: safeE [OF assms(2) as(1)]) (use m in auto)
  then have "todo as' \<le> todo as1" using assms(3) m(2) by (auto simp: lasts_def)
  moreover have "todo as1 < todo as" using assms(1) as(1,2) m(1) by (auto simp: gains_def)
  ultimately show "todo as' < todo as" by simp
qed

lemma gains_later:
  assumes "\<And>T k. safe T k b m" "\<And>x. gains c P (f x)" "\<And>x. lasts (f x)"
  shows "gains c P (abind m f)"
  unfolding gains_def
proof (intro allI impI)
  fix T k as x as'
  assume as: "asm_at T k as" "c \<longrightarrow> \<not> ITP_eof as" "abind m f as = Some (Inr x, as')" "P x"
  then obtain y as1 where m: "m as = Some (Inr y, as1)" "f y as1 = Some (Inr x, as')"
    by (auto simp: abind_def split: option.splits sum.splits prod.splits)
  have as1: "asm_at T k as1" "goes b as as1" by (cases rule: safeE [OF assms(1) as(1)]; use m in auto)+
  have l: "todo as' \<le> todo as1" using assms(3) as1(1) m(2) by (auto simp: lasts_def)
  show "todo as' < todo as"
  proof (cases "todo as1 = todo as")
    case True
    then have "c \<longrightarrow> \<not> ITP_eof as1" using as1(2) as(2) by (auto simp: goes_def)
    then have "todo as' < todo as1" using assms(2) [unfolded gains_def] as1(1) m(2) as(4) by blast
    with True show ?thesis by simp
  next
    case False
    with l as1(2) show ?thesis by (auto simp: goes_def)
  qed
qed

lemma gains_fail: "gains c P (ITP_fail m)" "gains c P (ITP_fail0 r m)"
  by (simp_all add: gains_def fail_fail0 fail_error(1))

lemma gains_False: "gains c (\<lambda>_. False) m"
  by (simp add: gains_def)

lemma gains_advance: "gains True P (ITP_advance E)"
  unfolding gains_def
proof (intro allI impI)
  fix T k as x as'
  assume "asm_at T k as" "True \<longrightarrow> \<not> ITP_eof as" and m: "ITP_advance E as = Some (Inr x, as')"
  then show "todo as' < todo as" by (cases rule: advance_cases [where E = E and b = True]) auto
qed

lemma gains_consume: "gains c P (ITP_consume E kind m)"
  using gains_advance [of P E] gains_fail(1) [of c P m]
  by (simp add: gains_def ITP_consume_def ITP_check_def)

lemma gains_match: "gains c (\<lambda>x. x) (ITP_match E kinds)"
proof -
  have "gains True (\<lambda>x. x) (abind (ITP_advance E) (\<lambda>_. ret True))"
    by (rule gains_first [OF gains_advance safe_advance [of _ _ True]]) (simp add: lasts_def ret_def)
  then show ?thesis by (simp add: gains_def ITP_match_def ITP_check_def)
qed

lemma gains_option:
  "(x = None \<Longrightarrow> gains c P m) \<Longrightarrow> (\<And>y. x = Some y \<Longrightarrow> gains c P (f y)) \<Longrightarrow> gains c P (case x of None \<Rightarrow> m | Some y \<Rightarrow> f y)"
  by (cases x) simp_all

section \<open>Variables\<close>

lemma safe_byte [safe_rule]: "safe T k b (byte_item E)"
  unfolding byte_item_def by (intro safe_rule)

lemma gains_byte: "gains False (\<lambda>comma. comma) (byte_item E)"
  unfolding byte_item_def
  by (intro gains_later [where b = True] gains_match safe_lasts [where b = True]; intro safe_rule)

lemma byte_list_at:
  assumes "asm_at T k as"
  shows "case byte_list E n as of None \<Rightarrow> ch CHR 0x27 \<in> set T
     | Some (r, as') \<Rightarrow> asm_at T k as' \<and> goes b as as' \<and> (r = Inl ITPException \<longrightarrow> log_errors as')"
  using assms
proof (induction "todo as" arbitrary: n as rule: less_induct)
  case less
  show ?case
  proof (cases rule: safeE [OF safe_byte [of T k b E] less.prems])
    case 1
    then show ?thesis by (subst byte_list.simps) simp
  next
    case (2 r as1)
    show ?thesis
    proof (cases "r = Inr True")
      case True
      then have "todo as1 < todo as" using gains_byte less.prems 2(1) by (auto simp: gains_def)
      from less.hyps [OF this 2(2), of "n + 1"] show ?thesis
        using True 2(1) goes_trans [OF 2(3)] by (subst byte_list.simps) (auto split: option.splits)
    next
      case False
      then show ?thesis
        using 2 by (subst byte_list.simps) (auto split: sum.splits)
    qed
  qed
qed

lemma safe_byte_list [safe_rule]: "safe T k b (byte_list E n)"
  by (rule safeI) (rule byte_list_at)

lemma safe_mode_or [safe_rule]: "safe T k b (mode_or E ms m)"
  unfolding mode_or_def by (intro safe_rule)

lemma safe_number [safe_rule]: "safe T k b (number_initializer E)"
  unfolding number_initializer_def Let_def by (intro safe_rule)

lemma safe_initializer [safe_rule]: "safe T k b (variable_initializer E)"
  unfolding variable_initializer_def Let_def by (intro safe_rule)

lemma safe_variable [safe_rule]: "safe T k b (Assembler_parse_var_decl E)"
  unfolding Assembler_parse_var_decl_def by (intro safe_rule)

section \<open>Instructions\<close>

text \<open>A property of every value that a function returns.\<close>

definition yields :: "('a \<Rightarrow> bool) \<Rightarrow> 'a asm \<Rightarrow> bool" where
  "yields Q m \<longleftrightarrow> (\<forall>as x as'. m as = Some (Inr x, as') \<longrightarrow> Q x)"

named_theorems yield_rule "what parse functions return"

lemma yields_bind:
  assumes "yields R m" "\<And>x. R x \<Longrightarrow> yields Q (f x)"
  shows "yields Q (abind m f)"
  unfolding yields_def
proof (intro allI impI)
  fix as x as' assume "abind m f as = Some (Inr x, as')"
  then obtain y as1 where "m as = Some (Inr y, as1)" "f y as1 = Some (Inr x, as')"
    by (auto simp: abind_def split: option.splits sum.splits prod.splits)
  with assms show "Q x" unfolding yields_def by blast
qed

lemma yields_skip [yield_rule]: "(\<And>x. yields Q (f x)) \<Longrightarrow> yields Q (abind m f)"
  by (rule yields_bind [where R = "\<lambda>_. True"]) (simp_all add: yields_def)

lemma yields_rules [yield_rule]:
  "Q x \<Longrightarrow> yields Q (ret x)" "yields Q (ITP_fail m)" "yields Q (ITP_fail0 r m)" "yields Q (stop e)"
  "(c \<Longrightarrow> yields Q m1) \<Longrightarrow> (\<not> c \<Longrightarrow> yields Q m2) \<Longrightarrow> yields Q (if c then m1 else m2)"
  "(o1 = None \<Longrightarrow> yields Q m1) \<Longrightarrow> (\<And>y. o1 = Some y \<Longrightarrow> yields Q (f y)) \<Longrightarrow> yields Q (case o1 of None \<Rightarrow> m1 | Some y \<Rightarrow> f y)"
  "(\<And>u v. p = (u, v) \<Longrightarrow> yields Q (g u v)) \<Longrightarrow> yields Q (case p of (u, v) \<Rightarrow> g u v)"
  by (auto simp: yields_def ret_def stop_def fail_fail0 fail_error(1) split: option.split prod.split)

text \<open>The fields of an instruction that an argument leaves alone.\<close>

definition same_form :: "bool \<Rightarrow> Instruction \<Rightarrow> Instruction \<Rightarrow> bool" where
  "same_form isRb i j \<longleftrightarrow> osz j = osz i \<and> ra j = ra i \<and> opc j = opc i \<and> (\<not> isRb \<longrightarrow> iea j = iea i)"

lemma yields_symbol_arg: "yields (same_form isRb i) (symbol_arg E z pos tok i)"
  unfolding symbol_arg_def Let_def by (intro yield_rule) (simp_all add: same_form_def)

lemma yields_name_arg: "yields (\<lambda>(q, j). same_form isRb i j) (name_arg E z pos tok i)"
  unfolding name_arg_def
  by (intro yield_rule yields_bind [OF yields_symbol_arg [of isRb]]) (simp_all add: same_form_def)

lemma yields_literal: "yields (same_form isRb i) (literal_arg n tok i)"
  unfolding literal_arg_def integer_literal_def Let_def by (intro yield_rule) (simp_all add: same_form_def)

lemma yields_offset_symbol: "yields (same_form True i) (offset_symbol z sign pos tok tokP i)"
  unfolding offset_symbol_def by (intro yield_rule) (simp_all add: same_form_def)

lemma yields_offset: "yields (same_form True i) (offset_arg E z pos tok i)"
  unfolding offset_arg_def
  by (intro yields_skip yields_bind [where R = "same_form True i"]; (intro yield_rule yields_offset_symbol)?)
    (simp_all add: same_form_def)

lemma same_form_trans: "same_form isRb i j \<Longrightarrow> same_form isRb j j' \<Longrightarrow> same_form isRb i j'"
  by (simp add: same_form_def)

lemma yields_comma:
  "yields (\<lambda>(q, j). same_form isRb i j)
    (abind (name_arg E z pos tok i) (\<lambda>(reg, instr).
     abind (if isMem \<and> isRb then ITP_match E [Op tokComma] else ret False) (\<lambda>comma.
     if comma then abind (offset_arg E z pos tok instr) (\<lambda>instr. ret (reg, instr)) else ret (reg, instr))))"
proof (rule yields_bind [OF yields_name_arg [of isRb i]])
  fix x :: "Register \<times> Instruction"
  assume x: "case x of (q, j) \<Rightarrow> same_form isRb i j"
  obtain q j where qj: "x = (q, j)" by (cases x)
  have c: "yields (\<lambda>c. c \<longrightarrow> isRb) (if isMem \<and> isRb then ITP_match E [Op tokComma] else ret False)"
    by (auto simp: yields_def ret_def)
  show "yields (\<lambda>(q, j). same_form isRb i j) (case x of (reg, instr) \<Rightarrow>
     abind (if isMem \<and> isRb then ITP_match E [Op tokComma] else ret False) (\<lambda>comma.
     if comma then abind (offset_arg E z pos tok instr) (\<lambda>instr. ret (reg, instr)) else ret (reg, instr)))"
    unfolding qj prod.case
    by (rule yields_bind [OF c], intro yields_rules(5) yields_bind [OF yields_offset] yields_rules(1))
      (use x qj in \<open>auto simp: same_form_def\<close>)
qed

lemma yields_arg: "yields (\<lambda>(q, r, j). same_form isRb i j) (Assembler_parse_instruction_arg E isRb i)"
proof -
  have lit: "yields (\<lambda>(q, j). same_form isRb i j) (abind (literal_arg n tok i) (\<lambda>instr. ret (r0, instr)))" for n tok
    by (rule yields_bind [OF yields_literal [of isRb i]]) (simp add: yields_rules)
  have arg: "yields (\<lambda>(q, j). same_form isRb i j)
         (if tk_kind tok = tokIdentifier then
            if is_sign sign then ITP_fail0 (tk_range tok) ''+/- not allowed on variables/labels''
            else
              abind (name_arg E z pos tok i) (\<lambda>(reg, instr).
              abind (if isMem \<and> isRb then ITP_match E [Op tokComma] else ret False) (\<lambda>comma.
              if comma then abind (offset_arg E z pos tok instr) (\<lambda>instr. ret (reg, instr))
              else ret (reg, instr)))
          else abind (literal_arg isNeg tok i) (\<lambda>instr. ret (r0, instr)))" for sign z pos tok isMem isNeg
    by (intro yields_rules(3,5) yields_comma lit)
  show ?thesis
    unfolding Assembler_parse_instruction_arg_def
    by (rule yields_skip, rule yields_skip, rule yields_skip, rule yields_skip, rule yields_rules(5), rule yields_rules(2),
        rule yields_skip, rule yields_skip, rule yields_skip, rule yields_bind [OF arg])
      (auto simp: split_beta intro!: yields_rules(1) yields_skip)
qed

lemma yields_first:
  assumes "n \<le> 2" "osz i = of_nat (n + 1)" "iea i = False" "rmd i = amReg"
  shows "yields (\<lambda>j. osz j = osz i \<and> \<not> iea j \<and> (n = 0 \<longrightarrow> rmd j = amReg) \<and>
    (rmd j = amImm \<longrightarrow> ra j = ucast (mode_code (ims j)))) (parse_first_arg E n i)"
  unfolding parse_first_arg_def
  by (intro yields_rules(5) yields_bind [OF yields_arg [of False i]])
    (use assms in \<open>auto simp: yields_def ret_def same_form_def split: prod.splits\<close>)

lemma yields_second:
  assumes "n \<le> 2" "osz i = of_nat (n + 1)" "\<not> iea i" "n = 0 \<longrightarrow> rmd i = amReg"
    "rmd i = amImm \<longrightarrow> ra i = ucast (mode_code (ims i))"
  shows "yields assembled (parse_second_arg E n i)"
proof -
  have "n = 0 \<or> n = 1 \<or> n = 2" using assms(1) by linarith
  then show ?thesis
    unfolding parse_second_arg_def
    by (intro yields_rules(5) yields_bind [OF yields_arg [of True i]])
      (use assms in \<open>auto simp: yields_def ret_def same_form_def assembled_def split: prod.splits\<close>)
qed

lemma op_pairs_args: "\<forall>q \<in> set op_pairs. snd (snd q) \<le> 2"
  by code_simp

lemma opcode_total:
  "\<exists>o1. VM_get_opcode_for_instr name len = Some o1 \<and> (\<forall>opr n. o1 = Some (opr, n) \<longrightarrow> n \<le> 2)"
proof -
  obtain t bs where t: "VM_initCodeNamePairs = Some t" "tree_nodes t bs" "set bs = {..<length op_pairs}"
    "\<forall>i < length op_pairs. val t i = op_pairs ! i"
    using init_pairs by blast
  obtain x where x: "represents_tree t x" "addrs x = bs" using t(2) unfolding tree_nodes_def by blast
  then have sh: "Cyn_Tree.shape (rb_node t) None x (rb_root t)" by (simp add: represents_tree_def)
  define cmp where "cmp = (\<lambda>a b. VmOpCodeNamePairList_cmp a len b)"
  obtain it where it: "find_loop cmp (name, opHalt, 0) t (rb_root t) = Some it" "\<forall>a. it = Some a \<longrightarrow> a \<in> set (addrs x)"
    using find_loop_hit [OF sh, of cmp "(name, opHalt, 0)"] by blast
  have n: "snd (snd (val t a)) \<le> 2" if "it = Some a" for a
  proof -
    have "a < length op_pairs" using it(2) x(2) t(3) that by auto
    then show ?thesis using t(4) op_pairs_args by simp
  qed
  have "VM_get_opcode_for_instr name len = Some (map_option (\<lambda>a. snd (val t a)) it)"
    by (simp only: VM_get_opcode_for_instr_def t(1) RbTree_find_def cmp_def [symmetric] it(1) Option.bind.simps)
  moreover have "\<forall>opr n2. map_option (\<lambda>a. snd (val t a)) it = Some (opr, n2) \<longrightarrow> n2 \<le> 2"
    using n by (cases it) force+
  ultimately show ?thesis by blast
qed

text \<open>A function that adds an instruction at its end.\<close>

definition settled :: "AssemblerCtx \<Rightarrow> bool" where
  "settled as \<longleftrightarrow> log_errors as \<or> (\<forall>p \<in> set (patches as). unat (fst p) < length (as_instructions as))"

definition same_text :: "AssemblerCtx \<Rightarrow> AssemblerCtx \<Rightarrow> bool" where
  "same_text as as' \<longleftrightarrow> lx_text (as_lexer as') = lx_text (as_lexer as)"

text \<open>At most one instruction is added, and none with an error.\<close>

definition added :: "asm_stop + 'a \<Rightarrow> AssemblerCtx \<Rightarrow> AssemblerCtx \<Rightarrow> bool" where
  "added r as as' \<longleftrightarrow> length (as_instructions as') \<le> length (as_instructions as) + (case r of Inl _ \<Rightarrow> 0 | Inr _ \<Rightarrow> 1)"

definition ends :: "'a asm \<Rightarrow> bool" where
  "ends m \<longleftrightarrow> (\<forall>as. asm_ok as \<longrightarrow>
     (case m as of
        None \<Rightarrow> ch CHR 0x27 \<in> set (lx_text (as_lexer as))
      | Some (r, as') \<Rightarrow> asm_ok as' \<and> same_text as as' \<and> goes False as as' \<and>
          (r = Inl ITPException \<longrightarrow> log_errors as') \<and> (\<forall>x. r = Inr x \<longrightarrow> settled as') \<and> added r as as'))"

lemma endsI:
  assumes "\<And>T k as. asm_at T k as \<Longrightarrow> (case m as of
        None \<Rightarrow> ch CHR 0x27 \<in> set T
      | Some (r, as') \<Rightarrow> asm_ok as' \<and> same_text as as' \<and> goes False as as' \<and>
          (r = Inl ITPException \<longrightarrow> log_errors as') \<and> (\<forall>x. r = Inr x \<longrightarrow> settled as') \<and> added r as as')"
  shows "ends m"
  using assms unfolding ends_def asm_at_def by blast

lemma endsE:
  assumes "ends m" "asm_at T k as"
  obtains "m as = None" "ch CHR 0x27 \<in> set T"
    | r as' where "m as = Some (r, as')" "asm_ok as'" "same_text as as'" "goes False as as'"
      "r = Inl ITPException \<longrightarrow> log_errors as'" "\<forall>x. r = Inr x \<longrightarrow> settled as'" "added r as as'"
proof (cases "m as")
  case None
  then show thesis using assms that(1) by (force simp: ends_def asm_at_def)
next
  case (Some p)
  moreover obtain r as' where "p = (r, as')" by (cases p)
  moreover have "case m as of
        None \<Rightarrow> ch CHR 0x27 \<in> set (lx_text (as_lexer as))
      | Some (r, as') \<Rightarrow> asm_ok as' \<and> same_text as as' \<and> goes False as as' \<and>
          (r = Inl ITPException \<longrightarrow> log_errors as') \<and> (\<forall>x. r = Inr x \<longrightarrow> settled as') \<and> added r as as'"
    using assms unfolding ends_def asm_at_def by blast
  ultimately show thesis using that(2) [of r as'] by simp
qed

lemma ends_bind:
  assumes "\<And>T k. safe T k False m" "yields R m" "\<And>x. R x \<Longrightarrow> ends (f x)"
  shows "ends (abind m f)"
proof (rule endsI)
  fix T k as assume as: "asm_at T k as"
  show "case abind m f as of None \<Rightarrow> ch CHR 0x27 \<in> set T
      | Some (r, as') \<Rightarrow> asm_ok as' \<and> same_text as as' \<and> goes False as as' \<and>
          (r = Inl ITPException \<longrightarrow> log_errors as') \<and> (\<forall>x. r = Inr x \<longrightarrow> settled as') \<and> added r as as'"
  proof (cases rule: safeE [OF assms(1) as])
    case (2 r as1)
    have t: "same_text as as1" "length (as_instructions as1) = length (as_instructions as)"
      using as 2(2) by (simp_all add: asm_at_def same_text_def)
    show ?thesis
    proof (cases r)
      case (Inl e)
      with 2 t show ?thesis by (auto simp: abind_def asm_at_def added_def)
    next
      case (Inr x)
      then have ab: "abind m f as = f x as1" using 2(1) by (simp add: abind_def)
      have "R x" using assms(2) 2(1) Inr by (auto simp: yields_def)
      show ?thesis
        unfolding ab by (cases rule: endsE [OF assms(3) [OF \<open>R x\<close>] 2(2)])
          (use goes_trans [OF 2(3)] t in \<open>auto simp: same_text_def added_def\<close>)
    qed
  qed (simp add: abind_def)
qed

lemma ends_skip: "(\<And>T k. safe T k False m) \<Longrightarrow> (\<And>x. ends (f x)) \<Longrightarrow> ends (abind m f)"
  by (rule ends_bind [where R = "\<lambda>_. True"]) (simp_all add: yields_def)

lemma ends_fail: "ends (ITP_fail m :: 'a asm)"
proof (rule endsI)
  fix T k as assume as: "asm_at T k as"
  have s: "safe T k False (ITP_fail m :: 'a asm)" by (rule safe_fail)
  show "case (ITP_fail m :: 'a asm) as of None \<Rightarrow> ch CHR 0x27 \<in> set T
      | Some (r, as') \<Rightarrow> asm_ok as' \<and> same_text as as' \<and> goes False as as' \<and>
          (r = Inl ITPException \<longrightarrow> log_errors as') \<and> (\<forall>x. r = Inr x \<longrightarrow> settled as') \<and> added r as as'"
  proof (cases rule: safeE [OF s as])
    case (2 r as')
    moreover have "\<forall>x. r \<noteq> Inr x" using 2(1) by (auto simp: fail_fail0 fail_error(1))
    ultimately show ?thesis using as by (auto simp: asm_at_def same_text_def added_def)
  qed simp
qed

lemma ends_push:
  assumes "assembled i"
  shows "ends (modify (\<lambda>as. as\<lparr>as_instructions := as_instructions as @ [i]\<rparr>))"
  unfolding ends_def
proof (intro allI impI)
  fix as assume as: "asm_ok as"
  let ?as = "as\<lparr>as_instructions := as_instructions as @ [i]\<rparr>"
  have "\<forall>p \<in> set (patches as). unat (fst p) \<le> length (as_instructions as)" using as by (simp add: asm_ok_def)
  then have "asm_ok ?as" "settled ?as"
    using as assms by (auto simp: asm_ok_def settled_def)
  moreover have "goes False as ?as" "same_text as ?as" by (simp_all add: goes_def todo_def same_text_def)
  ultimately show "case modify (\<lambda>as. as\<lparr>as_instructions := as_instructions as @ [i]\<rparr>) as of
        None \<Rightarrow> ch CHR 0x27 \<in> set (lx_text (as_lexer as))
      | Some (r, as') \<Rightarrow> asm_ok as' \<and> same_text as as' \<and> goes False as as' \<and>
          (r = Inl ITPException \<longrightarrow> log_errors as') \<and> (\<forall>x. r = Inr x \<longrightarrow> settled as') \<and> added r as as'"
    by (simp add: modify_def added_def)
qed

lemma opcode_cases:
  obtains o1 where "\<And>as. get_opcode name as = Some (Inr o1, as)" "\<forall>opr n. o1 = Some (opr, n) \<longrightarrow> n \<le> 2"
  using opcode_total [of name "of_nat (length name)"] that by (auto simp: get_opcode_def)

lemma safe_opcode [safe_rule]: "safe T k b (get_opcode name)"
  by (rule opcode_cases [of name]) (simp add: safe_def)

lemma yields_opcode: "yields (\<lambda>o1. \<forall>opr n. o1 = Some (opr, n) \<longrightarrow> n \<le> 2) (get_opcode name)"
  by (rule opcode_cases [of name]) (simp add: yields_def)

lemma ends_instruction: "ends (Assembler_parse_instruction E)"
proof -
  have push: "ends (modify (\<lambda>as. as\<lparr>as_instructions := as_instructions as @ [i]\<rparr>))" if "assembled i" for i
    using ends_push [OF that] .
  have body: "ends (abind (parse_first_arg E n i) (\<lambda>i. abind (parse_second_arg E n i) (\<lambda>i.
      modify (\<lambda>as. as\<lparr>as_instructions := as_instructions as @ [i]\<rparr>))))"
    if "n \<le> 2" "i = instr0\<lparr>osz := of_nat (n + 1), opc := c, imd := mo\<rparr>" for n i c mo
  proof -
    have i: "osz i = of_nat (n + 1)" "iea i = False" "rmd i = amReg" by (simp_all add: that(2) instr0_def)
    show ?thesis
      by (rule ends_bind [OF safe_args(1) yields_first [OF that(1) i]], rule ends_bind [OF safe_args(2) yields_second push])
        (use that(1) i in simp_all)
  qed
  show ?thesis
    unfolding Assembler_parse_instruction_def
  proof (rule ends_skip [OF safe_reads], rule ends_skip [OF safe_token_view], rule ends_bind [OF safe_opcode yields_opcode])
    fix o1 :: "OpCodeInfo option"
    assume o1: "\<forall>opr n. o1 = Some (opr, n) \<longrightarrow> n \<le> 2"
    show "ends (case o1 of None \<Rightarrow> ITP_fail (''unsupported instruction '%.*s'' @ [CHR 0x27])
       | Some (opr, n) \<Rightarrow>
         abind (ITP_advance E) (\<lambda>_.
         abind (ITP_match E [Op tokDot]) (\<lambda>dot.
         abind (if dot then Assembler_parse_modes E [] else ret szQuad) (\<lambda>mode.
         abind (parse_first_arg E n (instr0\<lparr>osz := of_nat (n + 1), opc := opcode_number opr, imd := mode\<rparr>)) (\<lambda>instr.
         abind (parse_second_arg E n instr) (\<lambda>instr.
         modify (\<lambda>as. as\<lparr>as_instructions := as_instructions as @ [instr]\<rparr>)))))))"
    proof (cases o1)
      case None
      then show ?thesis using ends_fail by simp
    next
      case (Some q)
      obtain opr n where q: "q = (opr, n)" by (cases q)
      have n: "n \<le> 2" using o1 Some q by simp
      show ?thesis
        unfolding Some q option.case prod.case
        by (intro ends_skip safe_advance safe_match safe_if safe_modes safe_ret body [OF n refl])
    qed
  qed
qed

lemma lasts_push: "lasts (modify (\<lambda>as. as\<lparr>as_instructions := as_instructions as @ [i]\<rparr>))"
  by (auto simp: lasts_def modify_def todo_def)

lemma lasts_fail: "lasts (ITP_fail m)"
  by (simp add: lasts_def fail_fail0 fail_error(1))

lemma gains_instruction: "gains True P (Assembler_parse_instruction E)"
proof -
  have rest: "lasts (abind (ITP_match E [Op tokDot]) (\<lambda>dot.
         abind (if dot then Assembler_parse_modes E [] else ret szQuad) (\<lambda>mode.
         abind (parse_first_arg E n (i mode)) (\<lambda>instr.
         abind (parse_second_arg E n instr) (\<lambda>instr.
         modify (\<lambda>as. as\<lparr>as_instructions := as_instructions as @ [instr]\<rparr>))))))" for n i
    by (intro lasts_bind [where b = False] safe_match safe_if safe_modes safe_ret safe_args lasts_push)
  have case_lasts: "lasts (case o1 of None \<Rightarrow> ITP_fail m | Some (opr, n) \<Rightarrow> abind (ITP_advance E) (\<lambda>_.
       abind (ITP_match E [Op tokDot]) (\<lambda>dot.
         abind (if dot then Assembler_parse_modes E [] else ret szQuad) (\<lambda>mode.
         abind (parse_first_arg E n (i opr n mode)) (\<lambda>instr.
         abind (parse_second_arg E n instr) (\<lambda>instr.
         modify (\<lambda>as. as\<lparr>as_instructions := as_instructions as @ [instr]\<rparr>)))))))" for o1 :: "OpCodeInfo option" and m i
    by (auto intro!: lasts_fail lasts_bind [OF safe_advance [where b = False]] rest split: option.split)
  have case_gains: "gains True P (case o1 of None \<Rightarrow> ITP_fail m | Some (opr, n) \<Rightarrow> abind (ITP_advance E) (\<lambda>_.
       abind (ITP_match E [Op tokDot]) (\<lambda>dot.
         abind (if dot then Assembler_parse_modes E [] else ret szQuad) (\<lambda>mode.
         abind (parse_first_arg E n (i opr n mode)) (\<lambda>instr.
         abind (parse_second_arg E n instr) (\<lambda>instr.
         modify (\<lambda>as. as\<lparr>as_instructions := as_instructions as @ [instr]\<rparr>)))))))" for o1 :: "OpCodeInfo option" and m i
    by (auto intro!: gains_fail gains_first [OF gains_advance safe_advance [where b = False]] rest split: option.split)
  show ?thesis
    unfolding Assembler_parse_instruction_def
    by (intro gains_later [where b = False] safe_reads safe_token_view safe_opcode case_gains case_lasts lasts_bind [where b = False])
qed

section \<open>The main loop\<close>

text \<open>One round of the loop, from a state between two instructions.\<close>

definition rounds :: "'a asm \<Rightarrow> bool" where
  "rounds m \<longleftrightarrow> (\<forall>as. asm_ok as \<longrightarrow> settled as \<longrightarrow>
     (case m as of
        None \<Rightarrow> ch CHR 0x27 \<in> set (lx_text (as_lexer as))
      | Some (r, as') \<Rightarrow> asm_ok as' \<and> same_text as as' \<and> goes False as as' \<and>
          (r = Inl ITPException \<longrightarrow> log_errors as') \<and> (\<forall>x. r = Inr x \<longrightarrow> settled as') \<and> added r as as'))"

lemma ends_rounds: "ends m \<Longrightarrow> rounds m"
  by (simp add: ends_def rounds_def)

lemma goes_True: "goes True as as' \<Longrightarrow> goes False as as'"
  by (simp add: goes_def)

lemma settled_goes:
  assumes "goes True as as'" "length (as_instructions as') = length (as_instructions as)" "settled as"
  shows "settled as'"
proof -
  have "log_errors as \<longrightarrow> log_errors as'" "patches as' = patches as" using assms(1) by (auto simp: goes_def)
  with assms(2,3) show ?thesis by (simp only: settled_def) blast
qed

lemma safe_round:
  assumes "safe (lx_text (as_lexer as)) (length (as_instructions as)) True m" "asm_ok as" "settled as" "m as = Some (r, as')"
  shows "asm_ok as' \<and> same_text as as' \<and> goes False as as' \<and> (r = Inl ITPException \<longrightarrow> log_errors as') \<and> settled as' \<and>
    length (as_instructions as') = length (as_instructions as)"
proof -
  have "asm_at (lx_text (as_lexer as)) (length (as_instructions as)) as" using assms(2) by (simp add: asm_at_def)
  then have "asm_at (lx_text (as_lexer as)) (length (as_instructions as)) as' \<and> goes True as as' \<and> (r = Inl ITPException \<longrightarrow> log_errors as')"
    by (cases rule: safeE [OF assms(1)]) (use assms(4) in auto)
  with settled_goes [of as as'] assms(3) goes_True [of as as'] show ?thesis by (simp add: asm_at_def same_text_def)
qed

lemma safe_None:
  assumes "safe (lx_text (as_lexer as)) (length (as_instructions as)) b m" "asm_ok as" "m as = None"
  shows "ch CHR 0x27 \<in> set (lx_text (as_lexer as))"
proof -
  have "asm_at (lx_text (as_lexer as)) (length (as_instructions as)) as" using assms(2) by (simp add: asm_at_def)
  then show ?thesis by (cases rule: safeE [OF assms(1)]) (use assms(3) in auto)
qed

lemma rounds_safe:
  assumes "\<And>T k. safe T k True m"
  shows "rounds m"
  unfolding rounds_def
proof (intro allI impI)
  fix as assume as: "asm_ok as" "settled as"
  show "case m as of
        None \<Rightarrow> ch CHR 0x27 \<in> set (lx_text (as_lexer as))
      | Some (r, as') \<Rightarrow> asm_ok as' \<and> same_text as as' \<and> goes False as as' \<and>
          (r = Inl ITPException \<longrightarrow> log_errors as') \<and> (\<forall>x. r = Inr x \<longrightarrow> settled as') \<and> added r as as'"
    using safe_round [OF assms as] safe_None [OF assms as(1)] by (auto simp: added_def split: option.split)
qed

lemma rounds_bind:
  assumes "\<And>T k. safe T k True m" "\<And>x. rounds (f x)"
  shows "rounds (abind m f)"
  unfolding rounds_def
proof (intro allI impI)
  fix as assume as: "asm_ok as" "settled as"
  show "case abind m f as of
        None \<Rightarrow> ch CHR 0x27 \<in> set (lx_text (as_lexer as))
      | Some (r, as') \<Rightarrow> asm_ok as' \<and> same_text as as' \<and> goes False as as' \<and>
          (r = Inl ITPException \<longrightarrow> log_errors as') \<and> (\<forall>x. r = Inr x \<longrightarrow> settled as') \<and> added r as as'"
  proof (cases "m as")
    case None
    then show ?thesis using safe_None [OF assms(1) as(1)] by (simp add: abind_def)
  next
    case (Some q)
    obtain r as1 where q: "m as = Some (r, as1)" using Some by (cases q) simp
    note s = safe_round [OF assms(1) as q]
    show ?thesis
    proof (cases r)
      case (Inl e)
      then show ?thesis using s q by (simp add: abind_def added_def)
    next
      case (Inr x)
      then have ab: "abind m f as = f x as1" using q by (simp add: abind_def)
      have "case f x as1 of
        None \<Rightarrow> ch CHR 0x27 \<in> set (lx_text (as_lexer as1))
      | Some (r, as') \<Rightarrow> asm_ok as' \<and> same_text as1 as' \<and> goes False as1 as' \<and>
          (r = Inl ITPException \<longrightarrow> log_errors as') \<and> (\<forall>x. r = Inr x \<longrightarrow> settled as') \<and> added r as1 as'"
        using assms(2) s unfolding rounds_def by blast
      then show ?thesis
        unfolding ab using s goes_trans [of False as as1] by (auto simp: same_text_def added_def split: option.splits)
    qed
  qed
qed

lemma rounds_if: "rounds m \<Longrightarrow> rounds n \<Longrightarrow> rounds (if c then m else n)"
  by simp

lemma rounds_item: "rounds (assemble_item E)"
  unfolding assemble_item_def
  by (rule rounds_bind [OF safe_reads], intro rounds_if rounds_bind [OF safe_peek] ends_rounds [OF ends_instruction]
      rounds_safe [OF safe_label] rounds_safe [OF safe_variable] rounds_safe [OF safe_fail]
      rounds_safe [OF safe_bind [OF safe_advance safe_ret]])

lemma gains_if: "gains c P m \<Longrightarrow> gains c P n \<Longrightarrow> gains c P (if b then m else n)"
  by simp

lemma gains_label: "gains c P (Assembler_parse_label E)"
  unfolding Assembler_parse_label_def
  by (rule gains_first [OF gains_consume safe_consume [where b = True]], rule safe_lasts [where b = True]) (intro safe_rule)

lemma gains_variable: "gains True P (Assembler_parse_var_decl E)"
  unfolding Assembler_parse_var_decl_def
  by (rule gains_first [OF gains_advance safe_advance [where b = True]], rule safe_lasts [where b = True]) (intro safe_rule)

lemma lasts_instruction: "lasts (Assembler_parse_instruction E)"
  unfolding lasts_def
proof (intro allI impI)
  fix T k as x as' assume as: "asm_at T k as" and m: "Assembler_parse_instruction E as = Some (Inr x, as')"
  show "todo as' \<le> todo as"
    by (cases rule: endsE [OF ends_instruction [of E] as]) (use m in \<open>auto simp: goes_def\<close>)
qed

lemma gains_item: "gains True P (assemble_item E)"
proof -
  have l: "lasts (if t then Assembler_parse_label E else Assembler_parse_instruction E)" for t
    using safe_lasts [OF safe_label [where b = True]] lasts_instruction by simp
  have adv: "gains True P (abind (ITP_advance E) (\<lambda>_. ret ()))"
    by (rule gains_first [OF gains_advance safe_advance [where b = True]], rule safe_lasts [where b = True]) (rule safe_ret)
  have "lasts (abind (ITP_peek E) (\<lambda>tok. if tk_kind tok = Op tokColon then Assembler_parse_label E else Assembler_parse_instruction E))"
    by (rule lasts_bind [OF safe_peek [where b = True]]) (rule l)
  moreover have "lasts (abind (ITP_advance E) (\<lambda>_. ret ()))" "lasts (ITP_fail m :: unit asm)" "lasts (Assembler_parse_var_decl E)" for m
    by (rule safe_lasts [where b = True], intro safe_rule)+
  ultimately have "lasts (if kind = tokIdentifier then
       abind (ITP_peek E) (\<lambda>tok. if tk_kind tok = Op tokColon then Assembler_parse_label E else Assembler_parse_instruction E)
     else if kind = Op tokDollar then Assembler_parse_var_decl E
     else if kind = tokNl \<or> kind = tokComment then abind (ITP_advance E) (\<lambda>_. ret ())
     else ITP_fail ''unsupported token'')" for kind by simp
  then show ?thesis
    unfolding assemble_item_def
    by (intro gains_later [OF safe_reads [where b = True]] gains_if gains_later [OF safe_peek [where b = True] _ l] gains_label
        gains_instruction gains_variable adv gains_fail)
qed

text \<open>The input that is left, and whether it is known to be at its end.\<close>

lemma synchronize_at:
  assumes "asm_at T k as"
  shows "case Assembler_synchronize E as of None \<Rightarrow> ch CHR 0x27 \<in> set T
     | Some (r, as') \<Rightarrow> asm_at T k as' \<and> goes True as as' \<and> r \<noteq> Inl ITPException \<and> (r = Inr () \<and> \<not> ITP_eof as \<longrightarrow> todo as' < todo as)"
  using assms
proof (induction "2 * todo as + (if ITP_eof as then 1 else 0)" arbitrary: as rule: less_induct)
  case less
  show ?case
  proof (cases rule: advance_cases [OF less.prems, where E = E and b = True])
    case 1
    then show ?thesis by (subst Assembler_synchronize.simps) simp
  next
    case (2 e as')
    then show ?thesis by (subst Assembler_synchronize.simps) simp
  next
    case (3 t as1)
    show ?thesis
    proof (cases "tk_kind (as_prev as1) = tokNl \<or> ITP_eof as1")
      case True
      with 3 show ?thesis by (subst Assembler_synchronize.simps) auto
    next
      case False
      have s: "Assembler_synchronize E as = Assembler_synchronize E as1"
        using 3(1) False by (subst Assembler_synchronize.simps) simp
      have le: "todo as1 \<le> todo as" using 3(3) by (simp add: goes_def)
      have "2 * todo as1 + (if ITP_eof as1 then 1 else 0) < 2 * todo as + (if ITP_eof as then 1 else 0)"
        using 3(4) False le by auto
      from less.hyps [OF this 3(2)] show ?thesis
        unfolding s using goes_trans [OF 3(3)] False 3(4) le by (auto split: option.splits)
    qed
  qed
qed

lemma loop_at:
  assumes "asm_ok as" "settled as"
  shows "case assemble_loop E as of None \<Rightarrow> ch CHR 0x27 \<in> set (lx_text (as_lexer as))
     | Some (r, as') \<Rightarrow> asm_ok as' \<and> same_text as as' \<and> (log_errors as \<longrightarrow> log_errors as') \<and> r \<noteq> Inl ITPException \<and>
         (r = Inr () \<longrightarrow> settled as') \<and> length (as_instructions as') + todo as' \<le> length (as_instructions as) + todo as"
  using assms
proof (induction "todo as" arbitrary: as rule: less_induct)
  case less
  show ?case
  proof (cases "ITP_eof as")
    case True
    then show ?thesis using less.prems by (subst assemble_loop.simps) (simp add: same_text_def)
  next
    case False
    have at: "asm_at (lx_text (as_lexer as)) (length (as_instructions as)) as" using less.prems(1) by (simp add: asm_at_def)
    have it: "case assemble_item E as of
        None \<Rightarrow> ch CHR 0x27 \<in> set (lx_text (as_lexer as))
      | Some (r, as') \<Rightarrow> asm_ok as' \<and> same_text as as' \<and> goes False as as' \<and>
          (r = Inl ITPException \<longrightarrow> log_errors as') \<and> (\<forall>x. r = Inr x \<longrightarrow> settled as') \<and> added r as as'"
      using rounds_item less.prems unfolding rounds_def by blast
    show ?thesis
    proof (cases "assemble_item E as")
      case None
      with it show ?thesis using False by (subst assemble_loop.simps) simp
    next
      case (Some q)
      obtain r as1 where q: "assemble_item E as = Some (r, as1)" using Some by (cases q) simp
      have as1: "asm_ok as1" "same_text as as1" "goes False as as1" "r = Inl ITPException \<longrightarrow> log_errors as1"
        "\<forall>x. r = Inr x \<longrightarrow> settled as1" "added r as as1"
        using it q by auto
      show ?thesis
      proof (cases r)
        case (Inr x)
        have lt: "todo as1 < todo as"
          using gains_item [of "\<lambda>_. True" E, unfolded gains_def, rule_format, OF at _ q [unfolded Inr]] False by blast
        have s: "assemble_loop E as = assemble_loop E as1"
          using False q Inr by (subst assemble_loop.simps) simp
        have "length (as_instructions as1) + todo as1 \<le> length (as_instructions as) + todo as"
          using as1(6) lt Inr by (simp add: added_def)
        moreover have "settled as1" using as1(5) Inr by blast
        ultimately show ?thesis
          unfolding s using less.hyps [OF lt as1(1)] as1(2,3) by (auto simp: same_text_def goes_def split: option.splits)
      next
        case (Inl e)
        show ?thesis
        proof (cases "e = ITPException")
          case False2: False
          then show ?thesis
            using False q Inl as1 by (subst assemble_loop.simps) (auto simp: goes_def added_def)
        next
          case True
          have err: "log_errors as1" using as1(4) Inl True by simp
          have at1: "asm_at (lx_text (as_lexer as)) (length (as_instructions as1)) as1"
            using as1(1,2) by (simp add: asm_at_def same_text_def)
          have len: "length (as_instructions as1) \<le> length (as_instructions as)" using as1(6) Inl by (simp add: added_def)
          note sy = synchronize_at [OF at1, of E]
          show ?thesis
          proof (cases "Assembler_synchronize E as1")
            case None
            with sy show ?thesis using False q Inl True by (subst assemble_loop.simps) simp
          next
            case (Some u)
            obtain r2 as2 where u: "Assembler_synchronize E as1 = Some (r2, as2)" using Some by (cases u) simp
            have as2: "asm_at (lx_text (as_lexer as)) (length (as_instructions as1)) as2" "goes True as1 as2"
              "r2 \<noteq> Inl ITPException" "r2 = Inr () \<and> \<not> ITP_eof as1 \<longrightarrow> todo as2 < todo as1"
              using sy u by auto
            have ok2: "asm_ok as2" "same_text as as2" "log_errors as2" "length (as_instructions as2) = length (as_instructions as1)"
              using as2(1,2) err by (auto simp: asm_at_def same_text_def goes_def)
            have le: "todo as2 \<le> todo as1" "todo as1 \<le> todo as" "todo as1 = todo as \<longrightarrow> \<not> ITP_eof as1"
              using as2(2) as1(3) False by (auto simp: goes_def)
            show ?thesis
            proof (cases r2)
              case (Inl e2)
              then show ?thesis
                using False q \<open>r = Inl e\<close> True u as2(3) ok2 le len by (subst assemble_loop.simps) simp
            next
              case (Inr y)
              have lt: "todo as2 < todo as" using le as2(4) Inr by force
              have s: "assemble_loop E as = assemble_loop E as2"
                using False q \<open>r = Inl e\<close> True u Inr by (subst assemble_loop.simps) simp
              have "settled as2" using ok2(3) by (simp add: settled_def)
              from less.hyps [OF lt ok2(1) this] show ?thesis
                unfolding s using ok2(2-4) le len by (auto simp: same_text_def split: option.splits)
            qed
          qed
        qed
      qed
    qed
  qed
qed

end
