(* ===== verification/Cyn_Assemble.thy ===== *)
theory Cyn_Assemble
  imports Cyn_AsmUse
begin

text \<open>
  The assembler as a whole: on a source without single quotes it returns, and the code it returns is
  that of a program whose symbols are all defined.
\<close>

section \<open>Set-up\<close>

lemma empty_tree: "tree_nodes (RbTree_initWith v) []" "RbTree_for_each (RbTree_initWith v) = Some []"
proof -
  show t: "tree_nodes (RbTree_initWith v) []"
    by (auto simp: tree_nodes_def represents_tree_def RbTree_initWith_def intro!: exI [of _ Lf])
  show "RbTree_for_each (RbTree_initWith v) = Some []"
    using first_nodes [OF t] for_each_from_suffix [of "RbTree_initWith v" "[]" "[]"] t by (simp add: RbTree_for_each_def)
qed

lemma zero_symbols: "symbols_ok 0 (\<lambda>_. None) (RbTree_initWith v)"
  unfolding symbols_ok_def by (rule exI [of _ "[]"]) (simp add: empty_tree ordered_def)

lemma zero_ok:
  assumes "lexer_ok lX" "words_ok lX"
  shows "asm_at (lx_text lX) 0 (AssemblerCtx_zero lX junk)" "patches (AssemblerCtx_zero lX junk) = []"
proof -
  have "patches_ok 0 [] (RbTree_initWith v)" for v
    unfolding patches_ok_def by (rule exI [of _ "[]"]) (simp add: empty_tree ordered_def)
  moreover have "refers_ok 0 (RbTree_initWith v)" for v
    unfolding refers_ok_def by (rule exI [of _ "[]"]) (simp add: empty_tree ordered_def)
  moreover show p: "patches (AssemblerCtx_zero lX junk) = []"
    by (simp add: patches_def AssemblerCtx_zero_def empty_tree)
  ultimately show "asm_at (lx_text lX) 0 (AssemblerCtx_zero lX junk)"
    using assms zero_symbols [of "symbol_query []"] unfolding asm_at_def asm_ok_def p by (auto simp: AssemblerCtx_zero_def)
qed

lemma init_at:
  assumes "lexer_ok lX" "words_ok lX"
  shows "case ITP_init E (AssemblerCtx_zero lX junk) of None \<Rightarrow> ch CHR 0x27 \<in> set (lx_text lX)
    | Some (r, as) \<Rightarrow> asm_at (lx_text lX) 0 as \<and> patches as = [] \<and> r \<noteq> Inl ITPException \<and> (\<forall>x. r = Inr x \<longrightarrow> todo as \<le> 1 + left_over lX \<and> symbols_ok (as_node as) (\<lambda>_. None) (as_symbols as))"
proof -
  let ?as = "clear_peek (AssemblerCtx_zero lX junk)"
  have as: "asm_at (lx_text lX) 0 ?as" "patches ?as = []" "as_lexer ?as = lX" "tk_kind (as_peek ?as) = tokCOUNT"
    using zero_ok [OF assms, of junk] by (simp_all add: clear_peek_def) (simp add: AssemblerCtx_zero_def)
  have i: "ITP_init E (AssemblerCtx_zero lX junk) = abind (next_token E) (\<lambda>tok. modify (as_curr_update (\<lambda>_. tok))) ?as"
    by (simp add: ITP_init_def abind_def modify_def)
  show ?thesis
  proof (cases rule: next_token_cases [OF as(1), where E = E])
    case 1
    then show ?thesis by (simp add: i abind_def)
  next
    case (2 e)
    then show ?thesis using as by (simp add: i abind_def)
  next
    case (3 t l)
    have "todo (?as\<lparr>as_lexer := l, as_curr := t\<rparr>) \<le> 1 + left_over lX"
      using 3(4) as(3,4) by (auto simp: todo_def token_read_def)
    moreover have "symbols_ok (as_node ?as) (\<lambda>_. None) (as_symbols ?as)"
      using zero_symbols by (simp add: clear_peek_def AssemblerCtx_zero_def)
    ultimately show ?thesis using 3 as by (simp add: i abind_def modify_def)
  qed
qed

lemma safe_define_all: "safe T k b (define_all ds)"
  by (induction ds) (auto intro: safe_rule)

text \<open>The built-in names are all different, so that none of them ends the program.\<close>

lemma builtin_names: "distinct (map (bytes_of \<circ> fst) builtin_symbols)"
  by code_simp

lemma define_all_law:
  assumes "symbols_ok (as_node as) tab (as_symbols as)" "distinct (map (bytes_of \<circ> fst) ds)" "\<forall>d \<in> set ds. tab (bytes_of (fst d)) = None"
  shows "\<exists>as'. define_all ds as = Some (Inr (), as')"
  using assms
proof (induction ds arbitrary: as tab)
  case Nil
  then show ?case by (simp add: ret_def)
next
  case (Cons d ds)
  let ?x = "bytes_of (fst d)"
  let ?s = "\<lparr>sy_id = snd d, sy_size = 0, sy_tag = sytDefine, sy_name = ?x, sy_range = no_range\<rparr>"
  obtain u where u: "RbTree_find_or_add_ref symbol_order (symbol_query ?x) (Some (as_node as)) (as_symbols as) = Some (True, as_node as, u)"
    "symbols_ok (Suc (as_node as)) (tab(?x \<mapsto> ?s)) (upd_node (as_node as) (\<lambda>n. n\<lparr>rb_data := ?s\<rparr>) u)"
    using symbols_find_or_add [OF Cons.prems(1), of ?x] Cons.prems(3) by auto
  let ?as = "as\<lparr>as_symbols := upd_node (as_node as) (\<lambda>n. n\<lparr>rb_data := ?s\<rparr>) u, as_node := Suc (as_node as)\<rparr>"
  have d: "Assembler_define ?x (snd d) as = Some (Inr (), ?as)"
    using u(1) by (simp add: Assembler_define_def abind_def find_or_add_symbol_def symbol_order_fold store_symbol_def modify_def)
  have "\<forall>e \<in> set ds. (tab(?x \<mapsto> ?s)) (bytes_of (fst e)) = None"
    using Cons.prems(2,3) by (auto simp: image_iff)
  moreover have "distinct (map (bytes_of \<circ> fst) ds)" using Cons.prems(2) by (simp add: comp_def)
  moreover have "symbols_ok (as_node ?as) (tab(?x \<mapsto> ?s)) (as_symbols ?as)" using u(2) by simp
  ultimately have "\<exists>as'. define_all ds ?as = Some (Inr (), as')" by (intro Cons.IH)
  with d show ?case by (simp add: abind_def)
qed

lemma Assembler_init_at:
  assumes "lexer_ok lX" "words_ok lX"
  shows "case Assembler_init E lX junk of None \<Rightarrow> ch CHR 0x27 \<in> set (lx_text lX)
    | Some (r, as) \<Rightarrow> asm_at (lx_text lX) 0 as \<and> r \<noteq> Inl ITPException \<and> (\<forall>x. r = Inr x \<longrightarrow> settled as \<and> todo as \<le> 1 + left_over lX)"
proof (cases "ITP_init E (AssemblerCtx_zero lX junk)")
  case None
  then show ?thesis using init_at [OF assms, of E junk] by (simp add: Assembler_init_def abind_def)
next
  case (Some q)
  obtain r as where q: "ITP_init E (AssemblerCtx_zero lX junk) = Some (r, as)" using Some by (cases q) simp
  have as: "asm_at (lx_text lX) 0 as" "patches as = []" "r \<noteq> Inl ITPException" "\<forall>x. r = Inr x \<longrightarrow> todo as \<le> 1 + left_over lX"
    "\<forall>x. r = Inr x \<longrightarrow> symbols_ok (as_node as) (\<lambda>_. None) (as_symbols as)"
    using init_at [OF assms, of E junk] q by auto
  show ?thesis
  proof (cases r)
    case (Inl e)
    with as q show ?thesis by (simp add: Assembler_init_def abind_def)
  next
    case (Inr x)
    have i: "Assembler_init E lX junk = define_all builtin_symbols as" using q Inr by (simp add: Assembler_init_def abind_def)
    have "symbols_ok (as_node as) (\<lambda>_. None) (as_symbols as)" using as(5) Inr by blast
    from define_all_law [OF this builtin_names] obtain as' where d: "define_all builtin_symbols as = Some (Inr (), as')" by auto
    have "asm_at (lx_text lX) 0 as' \<and> goes True as as'"
      by (cases rule: safeE [OF safe_define_all [where ds = builtin_symbols and b = True] as(1)]) (use d in auto)
    then show ?thesis using i d as(2,4) Inr by (auto simp: goes_def settled_def)
  qed
qed

section \<open>From source to code\<close>

lemma settled_ready:
  assumes "asm_ok as" "settled as" "\<not> log_errors as"
  shows "\<exists>tab. ready as tab (patches as)"
proof -
  obtain tab where "symbols_ok (as_node as) tab (as_symbols as)" using assms(1) by (auto simp: asm_ok_def)
  then have "ready as tab (patches as)"
    using assms by (auto simp: ready_def asm_ok_def settled_def)
  then show ?thesis by blast
qed

text \<open>The linker always returns when there are fewer than \<open>2 ^ 32\<close> instructions.\<close>

lemma link_code_total:
  assumes "patches_ok node ps pt" "refs_ok node' (label_refs res ps) refs" "\<forall>p \<in> set ps. unat (fst p) < length ins"
    "\<forall>i \<in> set ins. assembled i" "length ins < 2 ^ 32"
  shows "\<exists>r. link_code junk constants ins main pt refs code = Some (Inr r)"
proof -
  have "\<forall>l. \<forall>j \<in> set (label_refs res ps l). unat j < length ins" using assms(3) by (auto simp: label_refs_def)
  from link_loop_law [OF assms(1,2) this, of 0 "length ins" "of_nat (length code + 16 + length constants)"] assms(5)
  obtain ins' where ins': "link_loop pt refs (length ins) 0 (of_nat (length code + 16 + length constants)) ins = Some (Inr ins')"
    "length ins' = length ins" "\<forall>k < length ins. \<exists>d. ins' ! k = bump d (ins ! k)"
    by auto
  have "\<forall>i \<in> set ins'. encodable i"
  proof
    fix i assume "i \<in> set ins'"
    then obtain k where "k < length ins'" "i = ins' ! k" by (auto simp: in_set_conv_nth)
    then obtain d where "i = bump d (ins ! k)" "ins ! k \<in> set ins" using ins'(2,3) by auto
    then show "encodable i" using assms(4) by (simp add: assembled_encodable)
  qed
  then show ?thesis
    using ins'(1) by (simp add: link_code_def Let_def VM_code_append_encodable add.assoc)
qed

lemma link_returns:
  assumes "ready as tab ps" "length (as_instructions as) < 2 ^ 32"
  shows "\<exists>n code' as'. Assembler_link code as = Some (Inr (n, code'), as') \<and>
    ((\<exists>p \<in> set ps. Option.bind (Range_view (\<lambda>_. lx_text (as_lexer as)) (snd p)) tab = None) \<longrightarrow> code' = code \<and> log_errors as')"
proof -
  let ?un = "undefined_errors (Range_view (\<lambda>_. lx_text (as_lexer as))) tab ps"
  let ?as = "as\<lparr>as_lexer := (as_lexer as)\<lparr>lx_log := lx_log (as_lexer as) @ ?un\<rparr>\<rparr>"
  obtain refs node' where refs: "refs_ok node' (label_refs (label_of as tab) ps) refs"
    "Assembler_link code as = (let as = ?as in
         if log_errors as then Some (Inr (of_nat (length code), code), as)
         else
           Option.bind
             (link_code (as_junk as) (as_constants as) (as_instructions as) (as_main as) (as_patchWork as) refs code) (\<lambda>r.
           case r of
             Inl e \<Rightarrow> Some (Inl e, as)
           | Inr (ins, code) \<Rightarrow> Some (Inr (of_nat (length code), code), as\<lparr>as_instructions := ins\<rparr>)))"
    using link_collected [OF assms(1), of code] by blast
  show ?thesis
  proof (cases "log_errors ?as")
    case True
    then show ?thesis using refs(2) by (simp add: Let_def)
  next
    case False
    have "?un = []"
    proof (rule ccontr)
      assume "?un \<noteq> []"
      then obtain d where "d \<in> set ?un" by (cases ?un) auto
      moreover from this have "d_kind d = logError" by (auto simp: undefined_errors_def)
      ultimately show False using False by (auto simp: log_errors_def)
    qed
    moreover obtain ins code' where "link_code (as_junk as) (as_constants as) (as_instructions as) (as_main as) (as_patchWork as) refs code = Some (Inr (ins, code'))"
      using link_code_total [of "as_node as" ps "as_patchWork as" node' "label_of as tab" refs "as_instructions as"
          "as_junk as" "as_constants as" "as_main as" code] assms refs(1)
      by (auto simp: ready_def)
    ultimately show ?thesis using refs(2) False undefined_none by (auto simp: Let_def simp del: not_None_eq)
  qed
qed

text \<open>The assembler on a source.\<close>

definition Assembler_run :: "LexEnv \<Rightarrow> (nat \<Rightarrow> u8) \<Rightarrow> Lexer \<Rightarrow> ((asm_stop + (u32 \<times> Code)) \<times> AssemblerCtx) option" where
  "Assembler_run E junk lX =
     Option.bind (Assembler_init E lX junk) (\<lambda>(r, as).
       case r of
         Inl e \<Rightarrow> Some (Inl e, as)
       | Inr _ \<Rightarrow> Assembler_assemble E [] as)"

text \<open>The outcome: a stop, no code and an error in the log, or the code of a program.\<close>

definition assembled_program ::
  "LexEnv \<Rightarrow> (nat \<Rightarrow> u8) \<Rightarrow> Lexer \<Rightarrow> asm_stop + (u32 \<times> Code) \<Rightarrow> AssemblerCtx \<Rightarrow> bool"
where
  "assembled_program E junk lX r as' \<longleftrightarrow>
     (case r of
        Inl e \<Rightarrow> e \<noteq> ITPException
      | Inr (n, code) \<Rightarrow> code = [] \<and> log_errors as' \<or>
          (\<exists>as0 as tab. Assembler_init E lX junk = Some (Inr (), as0) \<and> assemble_loop E as0 = Some (Inr (), as) \<and>
             ready as tab (patches as) \<and>
             (\<forall>p \<in> set (patches as). Option.bind (Range_view (\<lambda>_. lx_text lX) (snd p)) tab \<noteq> None) \<and>
             (program_size as < 2 ^ 31 \<longrightarrow> n = of_nat (program_size as) \<and> code = linked_code as tab (patches as))))"

lemma run_outcome:
  assumes "lexer_ok lX" "words_ok lX" "length (lx_text lX) < 2 ^ 30"
  shows "case Assembler_run E junk lX of None \<Rightarrow> ch CHR 0x27 \<in> set (lx_text lX)
    | Some (r, as') \<Rightarrow> assembled_program E junk lX r as'"
proof (cases "Assembler_init E lX junk")
  case None
  then show ?thesis using Assembler_init_at [OF assms(1,2), of E junk] by (simp add: Assembler_run_def)
next
  case (Some q)
  obtain r as where q: "Assembler_init E lX junk = Some (r, as)" using Some by (cases q) simp
  have as: "asm_at (lx_text lX) 0 as" "r \<noteq> Inl ITPException" "\<forall>x. r = Inr x \<longrightarrow> settled as \<and> todo as \<le> 1 + left_over lX"
    using Assembler_init_at [OF assms(1,2), of E junk] q by auto
  show ?thesis
  proof (cases r)
    case (Inl e)
    with q as(2) show ?thesis by (simp add: Assembler_run_def assembled_program_def)
  next
    case (Inr x)
    have run: "Assembler_run E junk lX = Assembler_assemble E [] as" using q Inr by (simp add: Assembler_run_def)
    have st: "asm_ok as" "settled as" "lx_text (as_lexer as) = lx_text lX" "as_instructions as = []"
      "todo as \<le> 1 + left_over lX"
      using as Inr by (auto simp: asm_at_def)
    note lp = loop_at [OF st(1,2), of E]
    show ?thesis
    proof (cases "assemble_loop E as")
      case None
      then show ?thesis using lp st(3) by (simp add: run Assembler_assemble_def abind_def)
    next
      case (Some u)
      obtain r1 as1 where u: "assemble_loop E as = Some (r1, as1)" using Some by (cases u) simp
      have as1: "asm_ok as1" "lx_text (as_lexer as1) = lx_text lX" "r1 \<noteq> Inl ITPException" "r1 = Inr () \<longrightarrow> settled as1"
        "length (as_instructions as1) + todo as1 \<le> todo as"
        using lp u st(3,4) by (auto simp: same_text_def)
      show ?thesis
      proof (cases r1)
        case (Inl e)
        then show ?thesis using u as1(3) by (simp add: run Assembler_assemble_def abind_def assembled_program_def)
      next
        case (Inr y)
        show ?thesis
        proof (cases "log_errors as1")
          case True
          then show ?thesis using u Inr by (simp add: run Assembler_assemble_def abind_def reads_def ret_def assembled_program_def)
        next
          case False
          have asm: "Assembler_assemble E [] as = Assembler_link [] as1"
            using u Inr False by (simp add: Assembler_assemble_def abind_def reads_def)
          obtain tab where rd: "ready as1 tab (patches as1)" using settled_ready [OF as1(1) _ False] as1(4) Inr by auto
          have "left_over lX \<le> 2 * length (lx_text lX) + 1" by (auto simp: left_over_def pending_def)
          then have "length (as_instructions as1) < 2 ^ 32" using as1(5) st(5) assms(3) by simp
          from link_returns [OF rd this, of "[]"] obtain n code as2 where l: "Assembler_link [] as1 = Some (Inr (n, code), as2)"
            "(\<exists>p \<in> set (patches as1). Option.bind (Range_view (\<lambda>_. lx_text (as_lexer as1)) (snd p)) tab = None) \<longrightarrow> code = [] \<and> log_errors as2"
            by blast
          have "code = [] \<and> log_errors as2 \<or>
            (\<forall>p \<in> set (patches as1). Option.bind (Range_view (\<lambda>_. lx_text lX) (snd p)) tab \<noteq> None) \<and>
             (program_size as1 < 2 ^ 31 \<longrightarrow> n = of_nat (program_size as1) \<and> code = linked_code as1 tab (patches as1))"
          proof (cases "\<forall>p \<in> set (patches as1). Option.bind (Range_view (\<lambda>_. lx_text lX) (snd p)) tab \<noteq> None")
            case True
            then show ?thesis using Assembler_link_law [OF rd, unfolded as1(2)] l(1) by simp
          next
            case False
            then have "\<exists>p \<in> set (patches as1). Option.bind (Range_view (\<lambda>_. lx_text (as_lexer as1)) (snd p)) tab = None"
              unfolding as1(2) by (simp only: ball_simps not_not)
            with l(2) show ?thesis by (simp only: simp_thms)
          qed
          then show ?thesis unfolding run asm l(1) using rd q u Inr \<open>r = Inr x\<close> by (auto simp: assembled_program_def)
        qed
      qed
    qed
  qed
qed



end
