(* ===== verification/Cyn_BuilderUse.thy ===== *)
theory Cyn_BuilderUse
  imports Cyn_Builder Cyn_Assemble
begin

text \<open>
  The builder against its contract: a builder represents an abstract program of constants, instructions,
  a map of symbols and a collection of patches; every request acts on the abstract program, and the
  linker writes the code that the abstract program determines.
\<close>

section \<open>The abstract program\<close>

record program =
  pg_constants :: "u8 list"
  pg_instructions :: "Instruction list"
  pg_symbols :: "Ident \<Rightarrow> Symbol option"
  pg_patches :: "Patch list"

datatype request =
    AddSymbol u32 SymbolTag Ident Range
  | AddReference u32 Ident Range
  | Define Ident u64
  | AppendInstruction Instruction
  | AppendString "u8 list"
  | AppendData i64 Mode

text \<open>What a request asks for, with the value that it returns; \<open>None\<close> for a name that is taken.\<close>

definition request_effect :: "request \<Rightarrow> program \<Rightarrow> (u32 \<times> program) option" where
  "request_effect q P =
     (case q of
        AddSymbol pos tag name r \<Rightarrow>
          if pg_symbols P name \<noteq> None then None
          else Some (0, P\<lparr>pg_symbols := (pg_symbols P)(name \<mapsto>
            \<lparr>sy_id = ucast pos, sy_size = 0, sy_tag = tag, sy_name = name, sy_range = r\<rparr>)\<rparr>)
      | AddReference pos name r \<Rightarrow>
          (case pg_symbols P name of
             None \<Rightarrow> Some (0, P\<lparr>pg_patches := (pos, r) # pg_patches P\<rparr>)
           | Some s \<Rightarrow>
               if sy_tag s = sytLabel then Some (0, P\<lparr>pg_patches := (pos, r) # pg_patches P\<rparr>)
               else Some (ucast (sy_id s), P))
      | Define name v \<Rightarrow>
          if pg_symbols P name \<noteq> None then None
          else Some (0, P\<lparr>pg_symbols := (pg_symbols P)(name \<mapsto>
            \<lparr>sy_id = v, sy_size = 0, sy_tag = sytDefine, sy_name = name, sy_range = no_range\<rparr>)\<rparr>)
      | AppendInstruction i \<Rightarrow> Some (0, P\<lparr>pg_instructions := pg_instructions P @ [i]\<rparr>)
      | AppendString s \<Rightarrow> Some (of_nat (length (pg_constants P)) + 16, P\<lparr>pg_constants := pg_constants P @ s\<rparr>)
      | AppendData v m \<Rightarrow> Some (of_nat (vmSizeTbl m), P\<lparr>pg_constants := pg_constants P @ VM_write v m\<rparr>))"

definition serve :: "request \<Rightarrow> u32 builder" where
  "serve q =
     (case q of
        AddSymbol pos tag name r \<Rightarrow> bbind (Builder_addSymbol pos tag name r) (\<lambda>_. bret 0)
      | AddReference pos name r \<Rightarrow> Builder_addSymbolReference pos name r True
      | Define name v \<Rightarrow> bbind (Builder_define name v) (\<lambda>_. bret 0)
      | AppendInstruction i \<Rightarrow> bbind (Builder_appendInstruction i) (\<lambda>_. bret 0)
      | AppendString s \<Rightarrow> Builder_appendString s
      | AppendData v m \<Rightarrow> Builder_appendIntegralData v m)"

definition builds :: "Builder \<Rightarrow> program \<Rightarrow> bool" where
  "builds B P \<longleftrightarrow> symbols_ok (bu_node B) (pg_symbols P) (bu_symbols B) \<and>
     (\<exists>ps. patches_ok (bu_node B) ps (bu_patchWork B) \<and> mset ps = mset (pg_patches P)) \<and>
     bu_constants B = pg_constants P \<and> bu_instructions B = pg_instructions P \<and> bu_main B = 0"

section \<open>Requests\<close>

lemma builder_cmp: "(\<lambda>a b. Builder_symbol_cmp a 0 b) = symbol_order" "Builder_patch_cmp = key_order"
  by (intro ext; simp add: Builder_symbol_cmp_def symbol_order_def Assembler_symbol_cmp_def Builder_patch_cmp_def)+

lemma store_law:
  assumes "builds B P" "sy_name s = name"
  shows "if pg_symbols P name \<noteq> None then \<exists>B'. Builder_store name e s B = Some (Inl e, B')
    else \<exists>p B'. Builder_store name e s B = Some (Inr p, B') \<and> builds B' (P\<lparr>pg_symbols := (pg_symbols P)(name \<mapsto> s)\<rparr>) \<and>
      bu_log B' = bu_log B \<and> bu_junk B' = bu_junk B"
proof -
  have s: "symbols_ok (bu_node B) (pg_symbols P) (bu_symbols B)" using assms(1) by (simp add: builds_def)
  from symbols_find_or_add [OF s, of name] show ?thesis
  proof (elim disjE exE conjE)
    fix p assume "RbTree_find_or_add_ref symbol_order (symbol_query name) (Some (bu_node B)) (bu_symbols B) = Some (False, p, bu_symbols B)"
      "pg_symbols P name \<noteq> None"
    then show ?thesis by (simp add: Builder_store_def builder_cmp)
  next
    fix u assume u: "RbTree_find_or_add_ref symbol_order (symbol_query name) (Some (bu_node B)) (bu_symbols B) = Some (True, bu_node B, u)"
      "pg_symbols P name = None"
      "\<forall>s. sy_name s = name \<longrightarrow> symbols_ok (Suc (bu_node B)) ((pg_symbols P)(name \<mapsto> s)) (upd_node (bu_node B) (\<lambda>n. n\<lparr>rb_data := s\<rparr>) u)"
    then have "symbols_ok (Suc (bu_node B)) ((pg_symbols P)(name \<mapsto> s)) (upd_node (bu_node B) (\<lambda>n. n\<lparr>rb_data := s\<rparr>) u)"
      using assms(2) by blast
    then show ?thesis using u(1,2) assms(1) patches_mono [of "bu_node B" _ "bu_patchWork B" "Suc (bu_node B)"]
      by (auto simp: Builder_store_def builder_cmp builds_def)
  qed
qed

lemma patches_add:
  assumes "patches_ok node ps t"
  shows "\<exists>t' ps'. RbTree_add key_order (pos, r) node t = Some t' \<and> patches_ok (Suc node) ps' t' \<and> mset ps' = mset ((pos, r) # ps)"
proof -
  obtain ns where n: "tree_nodes t ns" "ordered key_order t ns" "\<forall>a \<in> set ns. a < node" "map (val t) ns = ps"
    using assms by (auto simp: patches_ok_def)
  then have fresh: "node \<notin> set ns" by auto
  obtain t' xs ys where t: "RbTree_add key_order (pos, r) node t = Some t'" "ns = xs @ ys"
    "tree_nodes t' (xs @ node # ys)" "ordered key_order t' (xs @ node # ys)" "val t' node = (pos, r)"
    "\<forall>b. b \<noteq> node \<longrightarrow> val t' b = val t b"
    using u32_order.add_law [OF n(1,2) fresh, of "(pos, r)"] by blast
  let ?ps = "map (val t) xs @ (pos, r) # map (val t) ys"
  have "val t' a = val t a" if "a \<in> set ns" for a using t(6) fresh that by metis
  then have "map (val t') (xs @ node # ys) = ?ps" using t(2,5) by simp
  then have "patches_ok (Suc node) ?ps t'"
    unfolding patches_ok_def using t(2-4) n(3) by (intro exI [of _ "xs @ node # ys"]) (auto simp: less_Suc_eq)
  moreover have "mset ?ps = mset ((pos, r) # ps)" using n(4) t(2) by auto
  ultimately show ?thesis using t(1) by blast
qed

lemma reference_law:
  assumes "builds B P"
  shows "\<exists>v P' B'. request_effect (AddReference pos name r) P = Some (v, P') \<and>
    Builder_addSymbolReference pos name r True B = Some (Inr v, B') \<and> builds B' P' \<and> bu_log B' = bu_log B \<and> bu_junk B' = bu_junk B"
proof -
  have s: "symbols_ok (bu_node B) (pg_symbols P) (bu_symbols B)" using assms by (simp add: builds_def)
  obtain ps where ps: "patches_ok (bu_node B) ps (bu_patchWork B)" "mset ps = mset (pg_patches P)"
    using assms by (auto simp: builds_def)
  obtain it where it: "RbTree_find symbol_order (symbol_query name) (bu_symbols B) = Some it" "map_option (val (bu_symbols B)) it = pg_symbols P name"
    using symbols_find [OF s, of name] by blast
  obtain t' ps' where t: "RbTree_add key_order (pos, r) (bu_node B) (bu_patchWork B) = Some t'" "patches_ok (Suc (bu_node B)) ps' t'"
    "mset ps' = mset ((pos, r) # ps)" using patches_add [OF ps(1)] by blast
  let ?B = "B\<lparr>bu_patchWork := t', bu_node := Suc (bu_node B)\<rparr>"
  have b: "builds ?B (P\<lparr>pg_patches := (pos, r) # pg_patches P\<rparr>)"
    using assms t(2,3) ps(2) symbols_mono [OF s, of "Suc (bu_node B)"] by (auto simp: builds_def)
  show ?thesis
  proof (cases "pg_symbols P name")
    case None
    then show ?thesis using it t(1) b by (auto simp: Builder_addSymbolReference_def builder_cmp request_effect_def)
  next
    case (Some s)
    then show ?thesis using it t(1) b assms
      by (cases "sy_tag s = sytLabel") (auto simp: Builder_addSymbolReference_def builder_cmp request_effect_def)
  qed
qed

lemma serve_law:
  assumes "builds B P"
  shows "case request_effect q P of
      None \<Rightarrow> \<exists>e B'. serve q B = Some (Inl e, B')
    | Some (v, P') \<Rightarrow> \<exists>B'. serve q B = Some (Inr v, B') \<and> builds B' P' \<and> bu_log B' = bu_log B \<and> bu_junk B' = bu_junk B"
proof (cases q)
  case (AddSymbol pos tag name r)
  then show ?thesis
    using store_law [OF assms, of "\<lparr>sy_id = ucast pos, sy_size = 0, sy_tag = tag, sy_name = name, sy_range = r\<rparr>" name BadPointer]
    by (auto simp: request_effect_def serve_def Builder_addSymbol_def bbind_def bret_def split: if_splits)
next
  case (AddReference pos name r)
  then show ?thesis using reference_law [OF assms, of pos name r] by (auto simp: serve_def)
next
  case (Define name v)
  then show ?thesis
    using store_law [OF assms, of "\<lparr>sy_id = v, sy_size = 0, sy_tag = sytDefine, sy_name = name, sy_range = no_range\<rparr>" name "Fatal LexAbort"]
    by (auto simp: request_effect_def serve_def Builder_define_def bbind_def bret_def split: if_splits)
qed (use assms in \<open>auto simp: request_effect_def serve_def bbind_def bret_def builds_def Builder_appendInstruction_def
  Builder_appendString_def Builder_appendIntegralData_def\<close>)

section \<open>Sequences of requests\<close>

primrec serve_all :: "request list \<Rightarrow> (u32 list) builder" where
  "serve_all [] = bret []"
| "serve_all (q # qs) = bbind (serve q) (\<lambda>v. bbind (serve_all qs) (\<lambda>vs. bret (v # vs)))"

primrec effects :: "request list \<Rightarrow> program \<Rightarrow> (u32 list \<times> program) option" where
  "effects [] P = Some ([], P)"
| "effects (q # qs) P =
     Option.bind (request_effect q P) (\<lambda>(v, P). map_option (\<lambda>(vs, P). (v # vs, P)) (effects qs P))"

lemma serve_all_law:
  assumes "builds B P"
  shows "case effects qs P of
      None \<Rightarrow> \<exists>e B'. serve_all qs B = Some (Inl e, B')
    | Some (vs, P') \<Rightarrow> \<exists>B'. serve_all qs B = Some (Inr vs, B') \<and> builds B' P' \<and> bu_log B' = bu_log B \<and> bu_junk B' = bu_junk B"
  using assms
proof (induction qs arbitrary: B P)
  case Nil
  then show ?case by (simp add: bret_def)
next
  case (Cons q qs)
  show ?case
  proof (cases "request_effect q P")
    case None
    then show ?thesis using serve_law [OF Cons.prems, of q] by (auto simp: bbind_def)
  next
    case (Some vP)
    then obtain v P1 where q: "request_effect q P = Some (v, P1)" by (cases vP) simp
    obtain B1 where B1: "serve q B = Some (Inr v, B1)" "builds B1 P1" "bu_log B1 = bu_log B" "bu_junk B1 = bu_junk B"
      using serve_law [OF Cons.prems, of q] q by auto
    show ?thesis using Cons.IH [OF B1(2)] B1 q by (cases "effects qs P1") (auto simp: bbind_def bret_def)
  qed
qed

text \<open>The program of a new builder has the built-in names.\<close>

definition builtin_program :: program where
  "builtin_program = \<lparr>pg_constants = [], pg_instructions = [],
     pg_symbols = foldl (\<lambda>m d. m(bytes_of (fst d) \<mapsto>
       \<lparr>sy_id = snd d, sy_size = 0, sy_tag = sytDefine, sy_name = bytes_of (fst d), sy_range = no_range\<rparr>)) Map.empty builtin_symbols,
     pg_patches = []\<rparr>"

lemma builder_defines_law:
  assumes "builds B P" "distinct (map (bytes_of \<circ> fst) ds)" "\<forall>d \<in> set ds. pg_symbols P (bytes_of (fst d)) = None"
  shows "\<exists>B'. builder_defines ds B = Some (Inr (), B') \<and> bu_log B' = bu_log B \<and> bu_junk B' = bu_junk B \<and>
    builds B' (P\<lparr>pg_symbols := foldl (\<lambda>m d. m(bytes_of (fst d) \<mapsto>
       \<lparr>sy_id = snd d, sy_size = 0, sy_tag = sytDefine, sy_name = bytes_of (fst d), sy_range = no_range\<rparr>)) (pg_symbols P) ds\<rparr>)"
  using assms
proof (induction ds arbitrary: B P)
  case Nil
  then show ?case by (simp add: bret_def)
next
  case (Cons d ds)
  let ?x = "bytes_of (fst d)"
  let ?s = "\<lparr>sy_id = snd d, sy_size = 0, sy_tag = sytDefine, sy_name = ?x, sy_range = no_range\<rparr>"
  let ?P = "P\<lparr>pg_symbols := (pg_symbols P)(?x \<mapsto> ?s)\<rparr>"
  obtain p B1 where B1: "Builder_define ?x (snd d) B = Some (Inr p, B1)" "builds B1 ?P" "bu_log B1 = bu_log B" "bu_junk B1 = bu_junk B"
    using store_law [OF Cons.prems(1), of ?s ?x "Fatal LexAbort"] Cons.prems(3) by (auto simp: Builder_define_def)
  have "distinct (map (bytes_of \<circ> fst) ds)" "\<forall>e \<in> set ds. pg_symbols ?P (bytes_of (fst e)) = None"
    using Cons.prems(2,3) by (auto simp: image_iff comp_def)
  from Cons.IH [OF B1(2) this] B1 show ?case by (auto simp: bbind_def)
qed

lemma Builder_create_law:
  "\<exists>B. Builder_create L node counts junk = Some (Inr (), B) \<and> bu_log B = L \<and> bu_junk B = junk \<and> builds B builtin_program"
proof -
  let ?P = "\<lparr>pg_constants = [], pg_instructions = [], pg_symbols = Map.empty, pg_patches = []\<rparr>"
  have "patches_ok 0 [] (RbTree_initWith v)" for v
    unfolding patches_ok_def by (rule exI [of _ "[]"]) (simp add: empty_tree ordered_def)
  from patches_mono [OF this] symbols_mono [OF zero_symbols]
  have "builds (Builder_zero L node counts junk) ?P"
    by (auto simp: builds_def Builder_zero_def)
  from builder_defines_law [OF this builtin_names] show ?thesis
    by (auto simp: Builder_create_def builtin_program_def Builder_zero_def)
qed

section \<open>Linking\<close>

text \<open>The displacement of an instruction does not depend on the order of its patches.\<close>

lemma linked_mset:
  assumes "mset ps = mset ps'"
  shows "linked res ps base ins = linked res ps' base ins"
proof -
  have p: "mset (patches_of ps k) = mset (patches_of ps' k)" for k using assms by (simp add: patches_of_def)
  then have "mset (map (\<lambda>p. of_nat (target res base ins p) :: u64) (patches_of ps k)) =
      mset (map (\<lambda>p. of_nat (target res base ins p)) (patches_of ps' k))" for k by simp
  then have "sum_list (map (\<lambda>p. of_nat (target res base ins p) :: u64) (patches_of ps k)) =
      sum_list (map (\<lambda>p. of_nat (target res base ins p)) (patches_of ps' k))" for k by (metis sum_mset_sum_list)
  moreover have "patches_of ps k = [] \<longleftrightarrow> patches_of ps' k = []" for k using p [of k] by (metis mset_zero_iff)
  ultimately show ?thesis by (simp add: linked_def displacement_def)
qed

definition program_base :: "program \<Rightarrow> nat" where
  "program_base P = 16 + length (pg_constants P)"

definition program_length :: "program \<Rightarrow> nat" where
  "program_length P = program_base P + offset (pg_instructions P) (length (pg_instructions P))"

definition program_instructions :: "Sources \<Rightarrow> program \<Rightarrow> Instruction list" where
  "program_instructions srcs P =
     linked (resolve (Range_view srcs) (pg_symbols P)) (pg_patches P) (program_base P) (pg_instructions P)"

definition program_code :: "Sources \<Rightarrow> program \<Rightarrow> Code" where
  "program_code srcs P = CodeHeader (of_nat (program_length P)) (of_nat (program_base P)) (of_nat (program_base P)) @
     pg_constants P @ concat (map instr_bytes (program_instructions srcs P))"

lemma length_program_code: "length (program_code srcs P) = program_length P"
  using offset_linked [of "resolve (Range_view srcs) (pg_symbols P)" "pg_patches P" "program_base P" "pg_instructions P" "length (pg_instructions P)"]
  by (simp add: program_code_def program_instructions_def program_length_def program_base_def CodeHeader_def offset_def)

text \<open>
  What the linker can use: instructions whose size it counts as they are encoded, and patches of instructions
  with a readable name. The first is more than a formality: the jumps of logical operators are built with an immediate
  as if it were a second argument, and such an instruction has three bytes, while the linker counts ten.
\<close>

lemma logic_jump_size:
  "link_size (cJMPZ (xIMb szQuad 0)) = 10" "length (instr_bytes (cJMPZ (xIMb szQuad 0))) = 3"
  "link_size (cJMPNZ (xIMb szQuad 0)) = 10" "length (instr_bytes (cJMPNZ (xIMb szQuad 0))) = 3"
  by code_simp+

definition linkable :: "Sources \<Rightarrow> program \<Rightarrow> bool" where
  "linkable srcs P \<longleftrightarrow> (\<forall>i \<in> set (pg_instructions P). assembled i) \<and> program_length P < 2 ^ 31 \<and>
     (\<forall>p \<in> set (pg_patches P). Range_view srcs (snd p) \<noteq> None \<and> unat (fst p) < length (pg_instructions P))"

lemma Builder_link_law:
  assumes "builds B P" "linkable srcs P" "\<forall>d \<in> set (bu_log B). d_kind d \<noteq> logError"
  shows "\<exists>B'. Builder_link srcs [] B =
    (if \<forall>p \<in> set (pg_patches P). Option.bind (Range_view srcs (snd p)) (pg_symbols P) \<noteq> None
     then Some (Inr (of_nat (program_length P), program_code srcs P), B') else Some (Inr (0, []), B'))"
proof -
  have s: "symbols_ok (bu_node B) (pg_symbols P) (bu_symbols B)" "bu_constants B = pg_constants P"
    "bu_instructions B = pg_instructions P" "bu_main B = 0" using assms(1) by (auto simp: builds_def)
  obtain ps where ps: "patches_ok (bu_node B) ps (bu_patchWork B)" "mset ps = mset (pg_patches P)"
    using assms(1) by (auto simp: builds_def)
  have set: "set ps = set (pg_patches P)" using ps(2) by (metis set_mset_mset)
  have v: "\<forall>p \<in> set ps. Range_view srcs (snd p) \<noteq> None" "\<forall>p \<in> set ps. unat (fst p) < length (pg_instructions P)"
    "\<forall>i \<in> set (pg_instructions P). assembled i" "program_length P < 2 ^ 31"
    using assms(2) set by (auto simp: linkable_def)
  obtain ns where ns: "RbTree_for_each (bu_patchWork B) = Some ns" "map (\<lambda>a. val (bu_patchWork B) a) ns = ps"
    using patches_each [OF ps(1)] by blast
  let ?res = "resolve (Range_view srcs) (pg_symbols P)" and ?u = "undefined_errors (Range_view srcs) (pg_symbols P) ps"
  from link_collect_law [OF s(1) refs_ok_empty v(1), of "bu_node B" "bu_log B"] obtain refs node' where
    refs: "link_collect (Range_view srcs) (bu_symbols B) ps (bu_node B) (RbTree_initWith (0, [])) (bu_log B) =
      Some (Inr (refs, bu_log B @ ?u))" "refs_ok node' (label_refs ?res ps) refs" by auto
  have errs: "(\<exists>d \<in> set (bu_log B @ ?u). d_kind d = logError) \<longleftrightarrow>
      \<not> (\<forall>p \<in> set (pg_patches P). Option.bind (Range_view srcs (snd p)) (pg_symbols P) \<noteq> None)"
  proof -
    have k: "\<forall>d \<in> set ?u. d_kind d = logError" by (auto simp: undefined_errors_def)
    show ?thesis unfolding set [symmetric] undefined_none [symmetric] using k assms(3) by (cases ?u) auto
  qed
  let ?ins = "linked ?res ps (program_base P) (pg_instructions P)"
  have "link_code (bu_junk B) (pg_constants P) (pg_instructions P) 0 (bu_patchWork B) refs [] = Some (Inr (?ins, program_code srcs P))"
    using link_code_law [OF ps(1) refs(2) v(2,3), of "program_base P" "pg_constants P" "bu_junk B" 0] v(4) linked_mset [OF ps(2)]
    by (simp add: program_code_def program_instructions_def program_length_def program_base_def)
  then show ?thesis using ns refs(1) errs s(2-4)
    by (auto simp: Builder_link_def Let_def length_program_code)
qed


lemma linked_no_patches: "linked res [] base ins = ins"
proof -
  have "bump 0 i = i" for i by simp
  then show ?thesis by (intro nth_equalityI) (simp_all add: linked_nth displacement_def patches_of_def)
qed

lemma program_code_no_patches:
  "pg_patches P = [] \<Longrightarrow> program_code srcs P = CodeHeader (of_nat (program_length P)) (of_nat (program_base P)) (of_nat (program_base P)) @
     pg_constants P @ concat (map instr_bytes (pg_instructions P))"
  by (simp add: program_code_def program_instructions_def linked_no_patches)


end
