(* ===== verification/Cyn_CompileProgram.thy ===== *)
theory Cyn_CompileProgram
  imports Cyn_CompileUse Cyn_BuilderUse
begin

unbundle bit_operations_syntax

text \<open>
  From an expression to its value: a new builder, the code generator, the linker and the machine.
\<close>

lemma assembled_macros:
  "assembled (cMOV (rRa r) (xIMb m v))" "assembled (cNOT (rRa r))" "assembled (cBNOT (rRa r))" "assembled (cPUSH (rRa r))"
  "assembled (cPOP (rRa r))"
  by (simp_all add: assembled_def init_defs instr_macros instr0_def)

lemma assembled_binary: "binary_instrs tok = Some is \<Longrightarrow> i \<in> set is \<Longrightarrow> assembled i"
  by (auto simp: binary_instrs_def compare_code_def assembled_def init_defs instr_macros instr0_def
    split: TokenKind.splits Operator.splits)

lemma assembled_code: "plain e \<Longrightarrow> i \<in> set (code_of f2i n e) \<Longrightarrow> assembled i"
  by (induction e arbitrary: n) (auto simp: assembled_macros assembled_binary)

lemma code_of_nonempty: "plain e \<Longrightarrow> code_of f2i n e \<noteq> []"
  by (cases e) auto

text \<open>The size of the linked code of an expression.\<close>

definition code_size :: "(u64 \<Rightarrow> u64) \<Rightarrow> AstNode \<Rightarrow> nat" where
  "code_size f2i e = 16 + length (strings e) + length (concat (map instr_bytes (code_of f2i 0 e)))"

lemma compiled:
  assumes "Builder_create L node counts junk = Some (Inr (), B)" "\<forall>d \<in> set L. d_kind d \<noteq> logError" "plain e" "code_size f2i e < 2 ^ 31"
  shows "\<exists>B1 B2. Codegen_generateCyn f2i e B = Some (Inr (), B1) \<and>
    Builder_link srcs [] B1 = Some (Inr (of_nat (code_size f2i e),
      (CodeHeader (of_nat (code_size f2i e)) (of_nat (16 + length (strings e))) (of_nat (16 + length (strings e))) @ strings e) @
      concat (map instr_bytes (code_of f2i 0 e))), B2)"
proof -
  have B: "bu_log B = L" "builds B builtin_program"
    using Builder_create_law [of L node counts junk] assms(1) by auto
  let ?P = "builtin_program\<lparr>pg_constants := strings e, pg_instructions := code_of f2i 0 e\<rparr>"
  let ?B = "B\<lparr>bu_instructions := code_of f2i 0 e, bu_constants := strings e\<rparr>"
  have z: "pg_constants builtin_program = []" "pg_instructions builtin_program = []" "pg_patches builtin_program = []"
    by (simp_all add: builtin_program_def)
  then have "Codegen_generateCyn f2i e B = Some (Inr (), ?B)"
    using B(2) generate_plain [OF assms(3), of f2i B] by (simp add: builds_def)
  moreover have "builds ?B ?P" using B(2) by (auto simp: builds_def)
  moreover have s: "program_length ?P = code_size f2i e" "program_base ?P = 16 + length (strings e)"
    by (simp_all add: program_length_def program_base_def code_size_def offset_def)
  moreover have "linkable srcs ?P" using assms(3,4) s z(3) assembled_code by (auto simp: linkable_def)
  ultimately show ?thesis
    using Builder_link_law [of ?B ?P srcs] B(1) assms(2) z(3) program_code_no_patches [of ?P srcs] by auto
qed

lemma loop_end:
  assumes "standing hdr prog (length prog) vm" "0 < fuel"
  shows "VM_loop sys fuel vm = Some (Inr vm)"
proof -
  have "length hdr + offset prog (length prog) = length (vcode vm)" using assms(1) by (simp add: standing_def offset_def)
  then have "REG vm ip = of_nat (length (vcode vm))" using assms(1) by (simp only: standing_def)
  then have "\<not> REG vm ip < code_len vm" by (simp add: code_len_def)
  then show ?thesis using assms(2) by (cases fuel) simp_all
qed

text \<open>
  C3. What the code of an expression without variables and logical operators computes, as far as
  its size is below \<open>2 ^ 31\<close>: a new builder takes the generated code and links it without
  an error, and the machine, started at the first instruction with room for the words of
  the expression on the stack, comes to the end of the code with the value \<open>byte_value\<close> in the low byte of
  \<open>r5\<close> and the flags of the last comparison, or stops with the fault of the value. It
  changes nothing but \<open>r4\<close>, \<open>r5\<close>, the flags and those words. \<open>byte_value\<close> follows the code, where differences, quotients and
  shifts have their operands exchanged and a comparison leaves one of its operands. For an expression of integers, characters and truth values with \<open>+\<close>, \<open>*\<close>, \<open>&\<close>,
  \<open>|\<close>, \<open>^\<close> and \<open>~\<close> the low byte of \<open>r5\<close> is that of the integer which the expression denotes.
\<close>

theorem Codegen_runs:
  fixes vm :: "'w VM"
  assumes "Builder_create L node counts junk = Some (Inr (), B)" and "\<forall>d \<in> set L. d_kind d \<noteq> logError"
    and "plain e" and "code_size f2i e < 2 ^ 31"
    and "REG vm ip = of_nat (16 + length (strings e))" and "vflags vm AND eflHalt = 0"
    and "unat (REG vm sp) \<le> unat (msize (ram vm))" and "unat (msb (ram vm)) + 8 * depth e < unat (REG vm sp)"
  shows "\<exists>B1 B2 code. Codegen_generateCyn f2i e B = Some (Inr (), B1) \<and>
    Builder_link srcs [] B1 = Some (Inr (of_nat (length code), code), B2) \<and>
    (vcode vm = code \<longrightarrow>
      (case byte_value f2i 0 (REG vm flg) e of
         Inl f \<Rightarrow> \<forall>fuel > length (code_of f2i 0 e). VM_loop sys fuel vm = Some (Inl f)
       | Inr (v, fl) \<Rightarrow> \<exists>vm'. (\<forall>fuel > length (code_of f2i 0 e). VM_loop sys fuel vm = Some (Inr vm')) \<and>
           ucast (REG vm' r5) = v \<and> REG vm' flg = fl \<and> spares (depth e) vm vm') \<and>
      (commutes e \<longrightarrow> (\<exists>k vm'. int_value e = Some k \<and> (\<forall>fuel > length (code_of f2i 0 e). VM_loop sys fuel vm = Some (Inr vm')) \<and>
         ucast (REG vm' r5) = (word_of_int k :: u8))))"
proof -
  let ?hdr = "CodeHeader (of_nat (code_size f2i e)) (of_nat (16 + length (strings e))) (of_nat (16 + length (strings e))) @ strings e"
  let ?is = "code_of f2i 0 e"
  let ?code = "?hdr @ concat (map instr_bytes ?is)"
  obtain B1 B2 where B: "Codegen_generateCyn f2i e B = Some (Inr (), B1)"
    "Builder_link srcs [] B1 = Some (Inr (of_nat (code_size f2i e), ?code), B2)"
    using compiled [OF assms(1-4), of srcs] by blast
  have h: "length ?hdr = 16 + length (strings e)" by (simp add: CodeHeader_def)
  then have n: "length ?code = code_size f2i e" by (simp add: code_size_def)
  have run: "case byte_value f2i 0 (REG vm flg) e of
         Inl f \<Rightarrow> \<forall>fuel > length ?is. VM_loop sys fuel vm = Some (Inl f)
       | Inr (v, fl) \<Rightarrow> \<exists>vm'. (\<forall>fuel > length ?is. VM_loop sys fuel vm = Some (Inr vm')) \<and>
           ucast (REG vm' r5) = v \<and> REG vm' flg = fl \<and> spares (depth e) vm vm'" if c: "vcode vm = ?code"
  proof -
    have "standing ?hdr ?is 0 vm"
      unfolding standing_def c using n assms(4-6) h assembled_code [OF assms(3)]
      by (auto intro!: assembled_encodable)
    moreover have "located ?is 0 ?is" by (simp add: located_def)
    ultimately have cs: "computes sys ?hdr ?is 0 (length ?is) (depth e) vm (byte_value f2i 0 (REG vm flg) e)"
      using assms(3,7,8) by (intro code_computes)
    show ?thesis
    proof (cases "byte_value f2i 0 (REG vm flg) e")
      case (Inl f)
      then show ?thesis using cs by (simp add: computes_def does_def)
    next
      case (Inr r)
      then obtain v fl where r: "byte_value f2i 0 (REG vm flg) e = Inr (v, fl)" by (cases r) simp
      then obtain vm' where vm': "does sys ?hdr ?is 0 (length ?is) vm (Inr vm')" "spares (depth e) vm vm'"
        "ucast (REG vm' r5) = v" "REG vm' flg = fl" using cs by (auto simp: computes_def)
      have st: "standing ?hdr ?is (length ?is) vm'" using vm'(1) by (simp only: does_def sum.case add_0)
      have "VM_loop sys fuel vm = Some (Inr vm')" if "length ?is < fuel" for fuel
      proof -
        have "VM_loop sys (length ?is + (fuel - length ?is)) vm = VM_loop sys (fuel - length ?is) vm'"
          using vm'(1) by (simp only: does_def sum.case)
        also have "\<dots> = Some (Inr vm')"
          by (rule loop_end [OF st]) (use that in simp)
        finally show ?thesis using that by simp
      qed
      then show ?thesis using r vm'(2-4) by auto
    qed
  qed
  have int: "\<exists>k vm'. int_value e = Some k \<and> (\<forall>fuel > length ?is. VM_loop sys fuel vm = Some (Inr vm')) \<and> ucast (REG vm' r5) = (word_of_int k :: u8)"
    if c: "vcode vm = ?code" "commutes e"
  proof -
    obtain k where k: "int_value e = Some k" "byte_value f2i 0 (REG vm flg) e = Inr (word_of_int k, REG vm flg)"
      using commutes_value [OF c(2)] by blast
    show ?thesis using run [OF c(1), unfolded k(2) sum.case prod.case] k(1) by blast
  qed
  have "Builder_link srcs [] B1 = Some (Inr (of_nat (length ?code), ?code), B2)" unfolding n by (rule B(2))
  then show ?thesis using B(1) run int by (intro exI [of _ B1] exI [of _ B2] exI [of _ ?code] conjI impI)
qed

text \<open>The code of \<open>7 - 2\<close> gives \<open>-5\<close>.\<close>

definition demo_nf :: AstNodeInf where
  "demo_nf = \<lparr>an_range = no_range, an_type = None\<rparr>"

definition demo_sub :: AstNode where
  "demo_sub = astBinaryExpr demo_nf (Op tokMinus) (astIntegerLit demo_nf 7) (astIntegerLit demo_nf 2)"

theorem Codegen_runs_witness:
  "\<exists>B B1 B2 code vm'. Builder_create [] 0 0 (\<lambda>_. 0) = Some (Inr (), B) \<and> Codegen_generateCyn (\<lambda>v. v) demo_sub B = Some (Inr (), B1) \<and>
    Builder_link (\<lambda>_. []) [] B1 = Some (Inr (of_nat (length code), code), B2) \<and>
    VM_loop (\<lambda>_ _ vm. (0, vm)) 6 (set_reg ip 16 (stack_vm\<lparr>vcode := code\<rparr>)) = Some (Inr vm') \<and> ucast (REG vm' r5) = (-5 :: u8)"
proof -
  obtain B where B: "Builder_create [] 0 0 (\<lambda>_. 0) = Some (Inr (), B)" using Builder_create_law by blast
  let ?vm = "\<lambda>code. set_reg ip 16 (stack_vm\<lparr>vcode := code\<rparr>)"
  have e: "plain demo_sub" "strings demo_sub = []" "depth demo_sub = 1" "length (code_of (\<lambda>v. v) 0 demo_sub) = 5"
    by (simp_all add: demo_sub_def binary_instrs_def)
  have v: "byte_value (\<lambda>v. v) 0 fl demo_sub = Inr (-5, fl)" for fl
    by (simp add: demo_sub_def byte_op_def byte_flags_def)
  have s: "code_size (\<lambda>v. v) demo_sub < 2 ^ 31"
    by (simp add: code_size_def demo_sub_def binary_instrs_def instr_bytes_def attr_bytes_def has_imm_def imm_mode_def
        init_defs instr_macros instr0_def)
  have m: "REG (?vm code) ip = of_nat (16 + length (strings demo_sub))" "vflags (?vm code) AND eflHalt = 0"
    "unat (REG (?vm code) sp) \<le> unat (msize (ram (?vm code)))"
    "unat (msb (ram (?vm code))) + 8 * depth demo_sub < unat (REG (?vm code) sp)" for code
    by (simp_all add: e stack_vm_def idle_vm_def)
  note run = Codegen_runs [OF B _ e(1) s m, of "\<lambda>_. []" _ "\<lambda>_ _ vm. (0, vm)", unfolded v sum.case prod.case]
  obtain B1 B2 code where c: "Codegen_generateCyn (\<lambda>v. v) demo_sub B = Some (Inr (), B1)"
    "Builder_link (\<lambda>_. []) [] B1 = Some (Inr (of_nat (length code), code), B2)"
    using run [of "[]"] by auto
  obtain vm' where "\<forall>fuel > 5. VM_loop (\<lambda>_ _ vm. (0, vm)) fuel (?vm code) = Some (Inr vm')" "ucast (REG vm' r5) = (-5 :: u8)"
    using run [of code] c e(4) by auto
  then have "VM_loop (\<lambda>_ _ vm. (0, vm)) 6 (?vm code) = Some (Inr vm')" by simp
  then show ?thesis using B c \<open>ucast (REG vm' r5) = (-5 :: u8)\<close> by blast
qed

end
