(* ===== verification/Cyn_Host.thy ===== *)
theory Cyn_Host
  imports Cyn_Prelude
begin

unbundle bit_operations_syntax

text \<open>
  The allocators of \<^verbatim>\<open>src/allocator.c\<close> over the memory of the host. That memory is a collection of objects
  with a size and cells; an address is an object and an offset in it. A cell holds a byte or one of the
  eight bytes of a pointer to an allocator, the only pointers that the code keeps in allocated memory. Whether
  a request to the host succeeds is a parameter (\<open>has_room\<close>), and a fresh object holds anything. An access
  outside a live object is a fault.
\<close>

section \<open>The memory of the host\<close>

datatype AllocatorRef = DefaultAllocator | ArenaAllocator | PoolAllocator

datatype Cell = Raw u8 | RefPart AllocatorRef nat

datatype heap_stop = HeapAssert | HeapFault

type_synonym addr = "nat option \<times> int"

definition Null :: addr where "Null = (None, 0)"

definition shift :: "int \<Rightarrow> addr \<Rightarrow> addr" where "shift i p = (fst p, snd p + i)"

record Host =
  next_obj :: nat
  obj_size :: "nat \<Rightarrow> nat option"
  cell_at :: "nat \<Rightarrow> int \<Rightarrow> Cell"
  has_room :: "nat \<Rightarrow> nat \<Rightarrow> bool"
  nAllocs :: u32
  nDeallocs :: u32
  inflight :: u32
  sAllocId :: u8
  magic_of :: "AllocatorRef \<Rightarrow> u32"

text \<open>A range of bytes of a live object.\<close>

definition in_object :: "addr \<Rightarrow> nat \<Rightarrow> 'a Host_scheme \<Rightarrow> bool" where
  "in_object p n h \<longleftrightarrow>
     (case fst p of None \<Rightarrow> False
      | Some b \<Rightarrow> (case obj_size h b of None \<Rightarrow> False | Some s \<Rightarrow> 0 \<le> snd p \<and> snd p + int n \<le> int s))"

definition cells :: "addr \<Rightarrow> nat \<Rightarrow> 'a Host_scheme \<Rightarrow> Cell list" where
  "cells p n h = (case fst p of None \<Rightarrow> [] | Some b \<Rightarrow> map (\<lambda>i. cell_at h b (snd p + int i)) [0..<n])"

definition set_cells :: "addr \<Rightarrow> Cell list \<Rightarrow> 'a Host_scheme \<Rightarrow> 'a Host_scheme" where
  "set_cells p cs h =
     (case fst p of None \<Rightarrow> h
      | Some b \<Rightarrow> h\<lparr>cell_at := (cell_at h)(b :=
          (\<lambda>i. if snd p \<le> i \<and> i < snd p + int (length cs) then cs ! nat (i - snd p) else cell_at h b i))\<rparr>)"

definition read_cells :: "addr \<Rightarrow> nat \<Rightarrow> 'a Host_scheme \<Rightarrow> heap_stop + Cell list" where
  "read_cells p n h = (if n = 0 then Inr [] else if in_object p n h then Inr (cells p n h) else Inl HeapFault)"

definition write_cells :: "addr \<Rightarrow> Cell list \<Rightarrow> 'a Host_scheme \<Rightarrow> heap_stop + 'a Host_scheme" where
  "write_cells p cs h =
     (if cs = [] then Inr h else if in_object p (length cs) h then Inr (set_cells p cs h) else Inl HeapFault)"

text \<open>\<open>memmove\<close> and \<open>bzero\<close>.\<close>

definition move_cells :: "addr \<Rightarrow> addr \<Rightarrow> nat \<Rightarrow> 'a Host_scheme \<Rightarrow> heap_stop + 'a Host_scheme" where
  "move_cells d s n h = bnd (read_cells s n h) (\<lambda>cs. write_cells d cs h)"

definition clear_cells :: "addr \<Rightarrow> nat \<Rightarrow> 'a Host_scheme \<Rightarrow> heap_stop + 'a Host_scheme" where
  "clear_cells p n = write_cells p (replicate n (Raw 0))"

text \<open>\<open>malloc\<close>, \<open>calloc\<close>, \<open>realloc\<close> and \<open>free\<close> of the C library. Their sizes have 64 bits.\<close>

definition host_malloc :: "nat \<Rightarrow> 'a Host_scheme \<Rightarrow> addr \<times> 'a Host_scheme" where
  "host_malloc n h =
     (let b = next_obj h; h' = h\<lparr>next_obj := Suc b\<rparr> in
      if has_room h b n then ((Some b, 0), h'\<lparr>obj_size := (obj_size h)(b \<mapsto> n)\<rparr>) else (Null, h'))"

definition host_calloc :: "nat \<Rightarrow> nat \<Rightarrow> 'a Host_scheme \<Rightarrow> addr \<times> 'a Host_scheme" where
  "host_calloc cnt n h =
     (case host_malloc (cnt * n) h of (p, h') \<Rightarrow> (p, set_cells p (replicate (cnt * n) (Raw 0)) h'))"

definition host_object :: "addr \<Rightarrow> 'a Host_scheme \<Rightarrow> (nat \<times> nat) option" where
  "host_object p h =
     (case fst p of None \<Rightarrow> None
      | Some b \<Rightarrow> (case obj_size h b of None \<Rightarrow> None | Some s \<Rightarrow> if snd p = 0 then Some (b, s) else None))"

definition host_free :: "addr \<Rightarrow> 'a Host_scheme \<Rightarrow> heap_stop + 'a Host_scheme" where
  "host_free p h =
     (if p = Null then Inr h
      else case host_object p h of None \<Rightarrow> Inl HeapFault
      | Some (b, s) \<Rightarrow> Inr (h\<lparr>obj_size := (obj_size h)(b := None)\<rparr>))"

definition host_realloc :: "addr \<Rightarrow> nat \<Rightarrow> 'a Host_scheme \<Rightarrow> heap_stop + (addr \<times> 'a Host_scheme)" where
  "host_realloc p n h =
     (if p = Null then Inr (host_malloc n h)
      else case host_object p h of None \<Rightarrow> Inl HeapFault
      | Some (b, s) \<Rightarrow>
          (case host_malloc n h of (q, h') \<Rightarrow>
             if q = Null then Inr (Null, h')
             else bnd (host_free p (set_cells q (cells p (min s n) h) h')) (\<lambda>h'. Inr (q, h'))))"

section \<open>Allocators\<close>

text \<open>
  The structure has pointers to its operations; \<open>a_self\<close> is its own address. Its magic number is in the
  state because \<open>Allocator_init\<close> sets it.
\<close>

record 's Allocator =
  a_alloc :: "u32 \<Rightarrow> 's \<Rightarrow> heap_stop + (addr \<times> 's)"
  a_cAlloc :: "u32 \<Rightarrow> u32 \<Rightarrow> 's \<Rightarrow> heap_stop + (addr \<times> 's)"
  a_reAlloc :: "addr \<Rightarrow> u32 \<Rightarrow> u32 \<Rightarrow> 's \<Rightarrow> heap_stop + (addr \<times> 's)"
  a_dealloc :: "addr \<Rightarrow> u32 \<Rightarrow> 's \<Rightarrow> heap_stop + 's"
  a_self :: AllocatorRef

definition CYN_ALLOCATOR_MAGIC0 :: u32 where "CYN_ALLOCATOR_MAGIC0 = 0x43796e"

definition CynAllocMagic :: "u32 \<Rightarrow> u32" where
  "CynAllocMagic x = push_bit 8 CYN_ALLOCATOR_MAGIC0 OR x"

definition CynAllocMagicHeader :: "u32 \<Rightarrow> u32" where
  "CynAllocMagicHeader x = drop_bit 8 x"

definition Allocator_init :: "AllocatorRef \<Rightarrow> 'a Host_scheme \<Rightarrow> 'a Host_scheme" where
  "Allocator_init A h =
     h\<lparr>magic_of := (magic_of h)(A := CynAllocMagic (ucast (sAllocId h))), sAllocId := sAllocId h + 1\<rparr>"

subsection \<open>The default allocator\<close>

definition defaultAlloc :: "u32 \<Rightarrow> 'a Host_scheme \<Rightarrow> heap_stop + (addr \<times> 'a Host_scheme)" where
  "defaultAlloc n h =
     (case host_malloc (unat n) h of (mem, h) \<Rightarrow>
        Inr (mem, if mem \<noteq> Null then h\<lparr>inflight := inflight h + n, nAllocs := nAllocs h + 1\<rparr> else h))"

definition defaultCAlloc :: "u32 \<Rightarrow> u32 \<Rightarrow> 'a Host_scheme \<Rightarrow> heap_stop + (addr \<times> 'a Host_scheme)" where
  "defaultCAlloc cnt n h =
     (case host_calloc (unat cnt) (unat n) h of (mem, h) \<Rightarrow>
        Inr (mem, if mem \<noteq> Null then h\<lparr>inflight := inflight h + n, nAllocs := nAllocs h + 1\<rparr> else h))"

definition defaultReAlloc :: "addr \<Rightarrow> u32 \<Rightarrow> u32 \<Rightarrow> 'a Host_scheme \<Rightarrow> heap_stop + (addr \<times> 'a Host_scheme)" where
  "defaultReAlloc mem orig n h =
     bnd (host_realloc mem (unat n) h) (\<lambda>(mem, h).
     Inr (mem, if mem \<noteq> Null then h\<lparr>inflight := inflight h + n - orig, nAllocs := nAllocs h + 1,
       nDeallocs := nDeallocs h + 1\<rparr> else h))"

definition defaultDealloc :: "addr \<Rightarrow> u32 \<Rightarrow> 'a Host_scheme \<Rightarrow> heap_stop + 'a Host_scheme" where
  "defaultDealloc mem n h =
     (if mem \<noteq> Null then host_free mem (h\<lparr>inflight := inflight h - n, nDeallocs := nDeallocs h + 1\<rparr>) else Inr h)"

definition sDefaultAllocator :: "'a Host_scheme Allocator" where
  "sDefaultAllocator = \<lparr>a_alloc = defaultAlloc, a_cAlloc = defaultCAlloc, a_reAlloc = defaultReAlloc,
     a_dealloc = defaultDealloc, a_self = DefaultAllocator\<rparr>"

subsection \<open>The data in front of a block\<close>

text \<open>\<open>AllocatorMetadata\<close>: a pointer to the allocator, the size and the magic number, packed in 16 bytes.\<close>

definition sizeof_meta :: u32 where "sizeof_meta = 16"

definition ref_cells :: "AllocatorRef \<Rightarrow> Cell list" where "ref_cells A = map (RefPart A) [0..<8]"

definition u32_cells :: "u32 \<Rightarrow> Cell list" where "u32_cells v = map Raw (le_bytes 4 (ucast v))"

definition AllocatorMetadata :: "AllocatorRef \<Rightarrow> u32 \<Rightarrow> u32 \<Rightarrow> Cell list" where
  "AllocatorMetadata A n m = ref_cells A @ u32_cells n @ u32_cells m"

fun raw_bytes :: "Cell list \<Rightarrow> u8 list option" where
  "raw_bytes [] = Some []"
| "raw_bytes (Raw b # cs) = map_option ((#) b) (raw_bytes cs)"
| "raw_bytes (RefPart A i # cs) = None"

definition read_u32 :: "addr \<Rightarrow> 'a Host_scheme \<Rightarrow> heap_stop + u32" where
  "read_u32 p h =
     bnd (read_cells p 4 h) (\<lambda>cs. case raw_bytes cs of None \<Rightarrow> Inl HeapFault | Some bs \<Rightarrow> Inr (ucast (le_word bs)))"

text \<open>A pointer to an allocator, or the null pointer; other cells are no pointer that can be followed.\<close>

definition read_ref :: "addr \<Rightarrow> 'a Host_scheme \<Rightarrow> heap_stop + AllocatorRef option" where
  "read_ref p h =
     bnd (read_cells p 8 h) (\<lambda>cs.
       if cs = replicate 8 (Raw 0) then Inr None
       else case find (\<lambda>A. cs = ref_cells A) [DefaultAllocator, ArenaAllocator, PoolAllocator] of
         None \<Rightarrow> Inl HeapFault
       | Some A \<Rightarrow> Inr (Some A))"

definition meta_of :: "addr \<Rightarrow> addr" where "meta_of = shift (- 16)"
definition mem_of :: "addr \<Rightarrow> addr" where "mem_of = shift 16"
definition meta_A :: "addr \<Rightarrow> 'a Host_scheme \<Rightarrow> heap_stop + AllocatorRef option" where "meta_A = read_ref"
definition meta_size :: "addr \<Rightarrow> 'a Host_scheme \<Rightarrow> heap_stop + u32" where "meta_size p = read_u32 (shift 8 p)"
definition meta_magic :: "addr \<Rightarrow> 'a Host_scheme \<Rightarrow> heap_stop + u32" where "meta_magic p = read_u32 (shift 12 p)"

subsection \<open>The operations that clients call\<close>

definition or_default :: "'a Host_scheme Allocator option \<Rightarrow> 'a Host_scheme Allocator" where
  "or_default A = (case A of None \<Rightarrow> sDefaultAllocator | Some A \<Rightarrow> A)"

definition Allocator_alloc :: "'a Host_scheme Allocator option \<Rightarrow> u32 \<Rightarrow> 'a Host_scheme \<Rightarrow> heap_stop + (addr \<times> 'a Host_scheme)" where
  "Allocator_alloc A n h =
     (if n = 0 then Inr (Null, h)
      else let A = or_default A in
        bnd (a_alloc A (n + sizeof_meta) h) (\<lambda>(meta, h).
        if meta = Null then Inr (Null, h)
        else bnd (write_cells meta (AllocatorMetadata (a_self A) n (magic_of h (a_self A))) h) (\<lambda>h.
          Inr (mem_of meta, h))))"

text \<open>The recorded size leaves out the number of elements.\<close>

definition Allocator_cAlloc ::
  "'a Host_scheme Allocator option \<Rightarrow> u32 \<Rightarrow> u32 \<Rightarrow> 'a Host_scheme \<Rightarrow> heap_stop + (addr \<times> 'a Host_scheme)" where
  "Allocator_cAlloc A n num h =
     (if n = 0 \<or> num = 0 then Inr (Null, h)
      else let A = or_default A in
        bnd (a_cAlloc A 1 (n * num + sizeof_meta) h) (\<lambda>(meta, h).
        if meta = Null then Inr (Null, h)
        else bnd (write_cells meta (AllocatorMetadata (a_self A) n (magic_of h (a_self A))) h) (\<lambda>h.
          Inr (mem_of meta, h))))"

definition Allocator_reAlloc ::
  "'a Host_scheme Allocator option \<Rightarrow> addr \<Rightarrow> u32 \<Rightarrow> 'a Host_scheme \<Rightarrow> heap_stop + (addr \<times> 'a Host_scheme)" where
  "Allocator_reAlloc A mem newSize h =
     (if mem = Null then Allocator_alloc A newSize h
      else if newSize = 0 then Inl HeapAssert
      else let meta = meta_of mem in
        bnd (meta_A meta h) (\<lambda>mA.
        if mA \<noteq> map_option a_self A then Inl HeapAssert
        else case A of None \<Rightarrow> Inl HeapFault
        | Some A \<Rightarrow>
            bnd (meta_magic meta h) (\<lambda>m.
            if m \<noteq> magic_of h (a_self A) then Inl HeapAssert
            else bnd (meta_size meta h) (\<lambda>s.
            bnd (a_reAlloc A meta (s + sizeof_meta) (newSize + sizeof_meta) h) (\<lambda>(meta, h).
            if meta = Null then Inr (Null, h)
            else bnd (write_cells (shift 8 meta) (u32_cells newSize) h) (\<lambda>h. Inr (mem_of meta, h)))))))"

text \<open>The allocator of a block, found through its metadata; \<open>deref\<close> follows the pointer.\<close>

definition owner_of :: "(AllocatorRef \<Rightarrow> 'a Host_scheme Allocator) \<Rightarrow> addr \<Rightarrow> 'a Host_scheme \<Rightarrow> heap_stop + 'a Host_scheme Allocator" where
  "owner_of deref meta h =
     bnd (meta_A meta h) (\<lambda>A. bnd (meta_magic meta h) (\<lambda>m.
     case A of None \<Rightarrow> Inl HeapAssert
     | Some A \<Rightarrow>
         if CynAllocMagicHeader m = CYN_ALLOCATOR_MAGIC0 \<and> magic_of h A = m then Inr (deref A) else Inl HeapAssert))"

definition Allocator_dealloc :: "(AllocatorRef \<Rightarrow> 'a Host_scheme Allocator) \<Rightarrow> addr \<Rightarrow> 'a Host_scheme \<Rightarrow> heap_stop + 'a Host_scheme" where
  "Allocator_dealloc deref mem h =
     (if mem = Null then Inr h
      else let meta = meta_of mem in
        bnd (owner_of deref meta h) (\<lambda>A.
        bnd (meta_size meta h) (\<lambda>s. a_dealloc A meta (s + sizeof_meta) h)))"

definition Allocator_relocate ::
  "(AllocatorRef \<Rightarrow> 'a Host_scheme Allocator) \<Rightarrow> addr \<Rightarrow> 'a Host_scheme Allocator option \<Rightarrow> u32 \<Rightarrow> 'a Host_scheme \<Rightarrow>
     heap_stop + (addr \<times> 'a Host_scheme)" where
  "Allocator_relocate deref mem target n h =
     (if mem = Null then Inr (mem, h)
      else let meta = meta_of mem in
        bnd (meta_A meta h) (\<lambda>A.
        if A = map_option a_self target then Inr (mem, h)
        else bnd (owner_of deref meta h) (\<lambda>A.
        bnd (meta_size meta h) (\<lambda>s.
        bnd (Allocator_alloc target (min s n) h) (\<lambda>(ret, h).
        if ret = Null then Inr (Null, h)
        else bnd (move_cells ret mem (unat (min s n)) h) (\<lambda>h.
          bnd (Allocator_dealloc deref mem h) (\<lambda>h. Inr (ret, h))))))))"

text \<open>\<open>strncpy\<close> copies the text up to its terminator and fills up with zeros.\<close>

definition strncpy :: "u8 list \<Rightarrow> nat \<Rightarrow> u8 list" where
  "strncpy str n = (let s = take n (takeWhile (\<lambda>c. c \<noteq> 0) str) in s @ replicate (n - length s) 0)"

definition Allocator_strndup ::
  "'a Host_scheme Allocator option \<Rightarrow> u8 list \<Rightarrow> u32 \<Rightarrow> 'a Host_scheme \<Rightarrow> heap_stop + (addr \<times> 'a Host_scheme)" where
  "Allocator_strndup A str len h =
     bnd (Allocator_alloc A (len + 1) h) (\<lambda>(dst, h).
     if dst = Null then Inr (dst, h)
     else bnd (write_cells dst (map Raw (strncpy str (unat len)) @ [Raw 0]) h) (\<lambda>h. Inr (dst, h)))"

end
