(* ===== verification/Cyn_Vector.thy ===== *)
theory Cyn_Vector
  imports Cyn_Prelude
begin

unbundle bit_operations_syntax

text \<open>
  The growing arrays of \<^verbatim>\<open>include/vector.h\<close> and \<^verbatim>\<open>src/vector.c\<close>, with their capacity and the memory
  that the allocator has given them, and what each operation means for the list of elements. The
  fields \<open>len\<close> and \<open>capacity\<close> are C \<open>int\<close>s; an operation whose arithmetic would overflow, or that
  accesses memory outside the allocated block, is \<open>None\<close>. The allocator is assumed to find memory;
  what a grown block holds beyond its old contents is a parameter \<open>junk\<close>.
\<close>

section \<open>Vectors\<close>

text \<open>\<open>vdata\<close> is the whole allocated block.\<close>

record 'a Vector =
  vdata :: "'a list"
  vlen :: int
  vcap :: int

definition INT_MAX :: int where "INT_MAX = 2 ^ 31 - 1"

definition Vector_init :: "'a Vector" where
  "Vector_init = \<lparr>vdata = [], vlen = 0, vcap = 0\<rparr>"

definition reAlloc :: "(nat \<Rightarrow> 'a) \<Rightarrow> int \<Rightarrow> 'a list \<Rightarrow> 'a list" where
  "reAlloc junk n d = map (\<lambda>i. if i < length d then d ! i else junk i) [0..<nat n]"

text \<open>Writing the element at an index, inside the block.\<close>

definition store_at :: "int \<Rightarrow> 'a \<Rightarrow> 'a Vector \<Rightarrow> 'a Vector option" where
  "store_at i x v = (if 0 \<le> i \<and> i < int (length (vdata v)) then Some (v\<lparr>vdata := (vdata v)[nat i := x]\<rparr>) else None)"

text \<open>Copying \<open>n\<close> entries from index \<open>s\<close> to index \<open>d\<close> inside the block, which may overlap.\<close>

definition memmove :: "int \<Rightarrow> int \<Rightarrow> int \<Rightarrow> 'a list \<Rightarrow> 'a list option" where
  "memmove d s n xs =
     (if 0 \<le> n \<and> 0 \<le> d \<and> 0 \<le> s \<and> d + n \<le> int (length xs) \<and> s + n \<le> int (length xs)
      then Some (take (nat d) xs @ take (nat n) (drop (nat s) xs) @ drop (nat d + nat n) xs)
      else None)"

subsection \<open>Growing\<close>

text \<open>The argument is a C \<open>int\<close>; the shifts are arithmetic.\<close>

definition round2pow2 :: "32 word \<Rightarrow> 32 word" where
  "round2pow2 v =
     (let v = v - 1;
          v = v OR signed_drop_bit 1 v;
          v = v OR signed_drop_bit 2 v;
          v = v OR signed_drop_bit 4 v;
          v = v OR signed_drop_bit 8 v;
          v = v OR signed_drop_bit 16 v
      in v + 1)"

definition Vector_grow :: "(nat \<Rightarrow> 'a) \<Rightarrow> 'a Vector \<Rightarrow> 'a Vector option" where
  "Vector_grow junk v =
     (if vlen v + 1 > vcap v then
        let n = (if vcap v < 8 then 8 else vcap v * 2) in
        if n > INT_MAX then None
        else Some (v\<lparr>vdata := reAlloc junk n (vdata v), vcap := n\<rparr>)
      else Some v)"

definition Vector_reserve :: "(nat \<Rightarrow> 'a) \<Rightarrow> int \<Rightarrow> 'a Vector \<Rightarrow> 'a Vector option" where
  "Vector_reserve junk n v =
     (let needed = n - (vcap v - vlen v) in
      if needed > 0 then
        if vcap v + needed > INT_MAX then None
        else Some (v\<lparr>vdata := reAlloc junk (vcap v + needed) (vdata v), vcap := n\<rparr>)
      else Some v)"

definition Vector_reserve_po2 :: "(nat \<Rightarrow> 'a) \<Rightarrow> int \<Rightarrow> 'a Vector \<Rightarrow> 'a Vector option" where
  "Vector_reserve_po2 junk n v = Vector_reserve junk (sint (round2pow2 (word_of_int n))) v"

text \<open>
  An empty vector gives its block to \<open>free\<close>, but the block belongs to the allocator, whose data lie in
  front of it: only for the null pointer is that defined.
\<close>

definition Vector_compact :: "(nat \<Rightarrow> 'a) \<Rightarrow> 'a Vector \<Rightarrow> 'a Vector option" where
  "Vector_compact junk v =
     (if vlen v = 0 then if vdata v = [] then Some (v\<lparr>vcap := 0\<rparr>) else None
      else Some (v\<lparr>vdata := reAlloc junk (vlen v) (vdata v), vcap := vlen v\<rparr>))"

subsection \<open>Elements\<close>

definition Vector_push :: "(nat \<Rightarrow> 'a) \<Rightarrow> 'a \<Rightarrow> 'a Vector \<Rightarrow> 'a Vector option" where
  "Vector_push junk x v =
     Option.bind (Vector_grow junk v) (\<lambda>v.
     Option.bind (store_at (vlen v) x v) (\<lambda>v. Some (v\<lparr>vlen := vlen v + 1\<rparr>)))"

primrec push_each :: "'a list \<Rightarrow> 'a Vector \<Rightarrow> 'a Vector option" where
  "push_each [] v = Some v"
| "push_each (x # xs) v =
     Option.bind (store_at (vlen v) x v) (\<lambda>v. push_each xs (v\<lparr>vlen := vlen v + 1\<rparr>))"

definition Vector_pushArr :: "(nat \<Rightarrow> 'a) \<Rightarrow> 'a list \<Rightarrow> 'a Vector \<Rightarrow> 'a Vector option" where
  "Vector_pushArr junk xs v =
     Option.bind (Vector_reserve_po2 junk (vlen v + int (length xs)) v) (push_each xs)"

text \<open>Room for \<open>n\<close> more entries, which the caller fills.\<close>

definition Vector_expand :: "(nat \<Rightarrow> 'a) \<Rightarrow> int \<Rightarrow> 'a Vector \<Rightarrow> 'a Vector option" where
  "Vector_expand junk n v =
     Option.bind (Vector_reserve junk (vlen v + n) v) (\<lambda>v. Some (v\<lparr>vlen := vlen v + n\<rparr>))"

definition Vector_pop :: "'a Vector \<Rightarrow> ('a \<times> 'a Vector) option" where
  "Vector_pop v =
     (let v = v\<lparr>vlen := vlen v - 1\<rparr> in
      if 0 \<le> vlen v \<and> vlen v < int (length (vdata v)) then Some (vdata v ! nat (vlen v), v) else None)"

definition Vector_insert :: "(nat \<Rightarrow> 'a) \<Rightarrow> int \<Rightarrow> 'a \<Rightarrow> 'a Vector \<Rightarrow> 'a Vector option" where
  "Vector_insert junk i x v =
     Option.bind (Vector_grow junk v) (\<lambda>v.
     Option.bind (memmove (i + 1) i (vlen v - i) (vdata v)) (\<lambda>d.
     Option.bind (store_at i x (v\<lparr>vdata := d\<rparr>)) (\<lambda>v. Some (v\<lparr>vlen := vlen v + 1\<rparr>))))"

definition Vector_splice :: "int \<Rightarrow> int \<Rightarrow> 'a Vector \<Rightarrow> 'a Vector option" where
  "Vector_splice start cnt v =
     Option.bind (memmove start (start + cnt) (vlen v - start - cnt) (vdata v)) (\<lambda>d.
     Some (v\<lparr>vdata := d, vlen := vlen v - cnt\<rparr>))"

definition Vector_swapSplice :: "int \<Rightarrow> int \<Rightarrow> 'a Vector \<Rightarrow> 'a Vector option" where
  "Vector_swapSplice start cnt v =
     Option.bind (memmove start (vlen v - cnt) cnt (vdata v)) (\<lambda>d.
     Some (v\<lparr>vdata := d, vlen := vlen v - cnt\<rparr>))"

definition Vector_swap :: "int \<Rightarrow> int \<Rightarrow> 'a Vector \<Rightarrow> 'a Vector option" where
  "Vector_swap i j v =
     (if i = j then Some v
      else if 0 \<le> i \<and> 0 \<le> j \<and> i < int (length (vdata v)) \<and> j < int (length (vdata v)) then
        Some (v\<lparr>vdata := (vdata v)[nat i := vdata v ! nat j, nat j := vdata v ! nat i]\<rparr>)
      else None)"

text \<open>The macro \<open>Vector_reverse\<close>: \<open>i\<close> counts down.\<close>

primrec reverse_loop :: "nat \<Rightarrow> 'a Vector \<Rightarrow> 'a Vector option" where
  "reverse_loop 0 v = Some v"
| "reverse_loop (Suc i) v =
     Option.bind (Vector_swap (int i) (vlen v - (int i + 1)) v) (reverse_loop i)"

definition Vector_reverse :: "'a Vector \<Rightarrow> 'a Vector option" where
  "Vector_reverse v = reverse_loop (nat (vlen v div 2)) v"

section \<open>The list a vector stands for\<close>

definition vec_ok :: "'a Vector \<Rightarrow> bool" where
  "vec_ok v \<longleftrightarrow> 0 \<le> vlen v \<and> vlen v \<le> vcap v \<and> vcap v \<le> int (length (vdata v)) \<and> vcap v \<le> INT_MAX"

definition elems :: "'a Vector \<Rightarrow> 'a list" where
  "elems v = take (nat (vlen v)) (vdata v)"

lemma length_reAlloc [simp]: "length (reAlloc junk n d) = nat n"
  by (simp add: reAlloc_def)

lemma take_reAlloc: "m \<le> nat n \<Longrightarrow> m \<le> length d \<Longrightarrow> take m (reAlloc junk n d) = take m d"
  by (rule nth_equalityI) (auto simp: reAlloc_def)

lemma grow_ok:
  assumes "vec_ok v" "vlen v < 2 ^ 30"
  shows "\<exists>v'. Vector_grow junk v = Some v' \<and> vec_ok v' \<and> elems v' = elems v \<and> vlen v' = vlen v \<and> vlen v' < vcap v'"
proof (cases "vlen v + 1 > vcap v")
  case True
  then have "vcap v = vlen v" using assms(1) by (simp add: vec_ok_def)
  with assms True show ?thesis
    by (auto simp: Vector_grow_def vec_ok_def elems_def INT_MAX_def take_reAlloc Let_def)
next
  case False
  with assms show ?thesis by (auto simp: Vector_grow_def vec_ok_def)
qed

lemma reserve_ok:
  assumes "vec_ok v" "vlen v \<le> n" "vlen v + n \<le> INT_MAX"
  shows "\<exists>v'. Vector_reserve junk n v = Some v' \<and> vec_ok v' \<and> elems v' = elems v \<and> vlen v' = vlen v \<and> n \<le> vcap v'"
  using assms by (auto simp: Vector_reserve_def vec_ok_def elems_def Let_def take_reAlloc)

text \<open>Writing behind the last element of a vector that has room.\<close>

lemma store_end:
  assumes "vec_ok v" "vlen v < vcap v"
  shows "\<exists>v'. store_at (vlen v) x v = Some v' \<and> vec_ok (v'\<lparr>vlen := vlen v' + 1\<rparr>) \<and>
    elems (v'\<lparr>vlen := vlen v' + 1\<rparr>) = elems v @ [x] \<and> vlen v' = vlen v \<and> vcap v' = vcap v"
proof -
  have n: "nat (vlen v) < length (vdata v)" "nat (vlen v + 1) = Suc (nat (vlen v))"
    using assms by (auto simp: vec_ok_def)
  then have "take (Suc (nat (vlen v))) ((vdata v)[nat (vlen v) := x]) = take (nat (vlen v)) (vdata v) @ [x]"
    by (simp add: take_Suc_conv_app_nth)
  with n assms show ?thesis by (auto simp: store_at_def elems_def vec_ok_def)
qed

lemma push_ok:
  assumes "vec_ok v" "vlen v < 2 ^ 30"
  shows "\<exists>v'. Vector_push junk x v = Some v' \<and> vec_ok v' \<and> elems v' = elems v @ [x]"
proof -
  obtain w where w: "Vector_grow junk v = Some w" "vec_ok w" "elems w = elems v" "vlen w < vcap w"
    using grow_ok [OF assms] by blast
  from store_end [OF w(2,4), of x] w show ?thesis by (auto simp: Vector_push_def)
qed

lemma push_each_ok:
  assumes "vec_ok v" "vlen v + int (length xs) \<le> vcap v"
  shows "\<exists>v'. push_each xs v = Some v' \<and> vec_ok v' \<and> elems v' = elems v @ xs"
  using assms
proof (induction xs arbitrary: v)
  case (Cons x xs)
  obtain w where w: "store_at (vlen v) x v = Some w" "vec_ok (w\<lparr>vlen := vlen w + 1\<rparr>)"
    "elems (w\<lparr>vlen := vlen w + 1\<rparr>) = elems v @ [x]" "vlen w = vlen v" "vcap w = vcap v"
    using store_end [OF Cons.prems(1), of x] Cons.prems(2) by force
  from Cons.IH [OF w(2)] w Cons.prems(2) show ?case by auto
qed simp

lemma length_elems: "vec_ok v \<Longrightarrow> int (length (elems v)) = vlen v"
  by (auto simp: vec_ok_def elems_def min_def)

lemma reserve_short:
  assumes "vec_ok v" "vlen v \<le> 2 ^ 29" "vcap v - vlen v < n" "n < vlen v"
  shows "\<exists>v'. Vector_reserve junk n v = Some v' \<and> elems v' = elems v \<and> vcap v' < vlen v' \<and> \<not> vec_ok v'"
  using assms by (auto simp: Vector_reserve_def vec_ok_def elems_def Let_def take_reAlloc INT_MAX_def)

lemma expand_ok:
  assumes "vec_ok v" "0 \<le> n" "2 * vlen v + n \<le> INT_MAX"
  shows "\<exists>v'. Vector_expand junk n v = Some v' \<and> vec_ok v' \<and> vlen v' = vlen v + n \<and>
    take (length (elems v)) (elems v') = elems v"
proof -
  obtain w where w: "Vector_reserve junk (vlen v + n) v = Some w" "vec_ok w" "elems w = elems v" "vlen w = vlen v" "vlen v + n \<le> vcap w"
    using reserve_ok [OF assms(1), of "vlen v + n" junk] assms(2,3) by auto
  then have "vec_ok (w\<lparr>vlen := vlen v + n\<rparr>)" using assms(2) by (auto simp: vec_ok_def)
  moreover have "take (length (elems v)) (elems (w\<lparr>vlen := vlen v + n\<rparr>)) = elems v"
  proof -
    have "length (elems v) = nat (vlen v)" "nat (vlen v) \<le> nat (vlen v + n)" using length_elems [OF assms(1)] assms(2) by simp_all
    then have "take (length (elems v)) (elems (w\<lparr>vlen := vlen v + n\<rparr>)) = elems w" using w(4) by (simp add: elems_def min_def)
    then show ?thesis using w(3) by simp
  qed
  ultimately show ?thesis by (simp add: Vector_expand_def w(1,4))
qed

lemma compact_ok:
  assumes "vec_ok v" "elems v \<noteq> []"
  shows "\<exists>v'. Vector_compact junk v = Some v' \<and> vec_ok v' \<and> elems v' = elems v"
  using assms by (auto simp: Vector_compact_def vec_ok_def elems_def take_reAlloc simp del: take_all take_all_iff)

lemma pop_ok:
  assumes "vec_ok v" "elems v \<noteq> []"
  shows "\<exists>v'. Vector_pop v = Some (last (elems v), v') \<and> vec_ok v' \<and> elems v' = butlast (elems v)"
proof -
  have n: "0 < vlen v" "nat (vlen v - 1) < length (vdata v)" "nat (vlen v) = Suc (nat (vlen v - 1))"
    using assms by (auto simp: vec_ok_def elems_def)
  have "last (take (nat (vlen v)) (vdata v)) = vdata v ! nat (vlen v - 1)"
    using n by (simp add: take_Suc_conv_app_nth)
  moreover have "butlast (take (nat (vlen v)) (vdata v)) = take (nat (vlen v - 1)) (vdata v)"
    using n by (simp add: take_Suc_conv_app_nth)
  ultimately show ?thesis
    using n assms(1) by (auto simp: Vector_pop_def elems_def vec_ok_def)
qed

lemma memmove_ok:
  "d + n \<le> length xs \<Longrightarrow> s + n \<le> length xs \<Longrightarrow>
   memmove (int d) (int s) (int n) xs = Some (take d xs @ take n (drop s xs) @ drop (d + n) xs)"
  by (simp add: memmove_def)


lemma smear_step:
  assumes "0 \<le> sint v" "sint v < 2 ^ 30"
  shows "sint v \<le> sint (v OR signed_drop_bit k (v :: 32 word))" "sint (v OR signed_drop_bit k v) < 2 ^ 30"
proof -
  have e: "sint (v OR signed_drop_bit k v) = sint v OR drop_bit k (sint v)"
    by (simp add: signed_or_eq sint_signed_drop_bit_eq)
  have d: "0 \<le> drop_bit k (sint v)" "drop_bit k (sint v) \<le> sint v"
    using assms(1) zdiv_mono2 [of "sint v" 1 "2 ^ k"] by (simp, simp add: drop_bit_eq_div)
  show "sint v \<le> sint (v OR signed_drop_bit k v)" unfolding e using or_greater_eq [OF d(1)] .
  show "sint (v OR signed_drop_bit k v) < 2 ^ 30" unfolding e using OR_upper [OF assms] d(2) assms(2) by simp
qed

lemma sint_of_small: "- (2 ^ 31) \<le> n \<Longrightarrow> n < 2 ^ 31 \<Longrightarrow> sint (word_of_int n :: 32 word) = n"
  by (simp add: signed_of_int signed_take_bit_int_eq_self)

lemma round2pow2_bounds:
  assumes "1 \<le> n" "n \<le> 2 ^ 30"
  shows "n \<le> sint (round2pow2 (word_of_int n))" "sint (round2pow2 (word_of_int n)) \<le> 2 ^ 30"
proof -
  define v0 :: "32 word" where "v0 = word_of_int (n - 1)"
  define v1 where "v1 = v0 OR signed_drop_bit 1 v0"
  define v2 where "v2 = v1 OR signed_drop_bit 2 v1"
  define v3 where "v3 = v2 OR signed_drop_bit 4 v2"
  define v4 where "v4 = v3 OR signed_drop_bit 8 v3"
  define v5 where "v5 = v4 OR signed_drop_bit 16 v4"
  have s0: "sint v0 = n - 1" unfolding v0_def by (rule sint_of_small) (use assms in simp_all)
  have s1: "n - 1 \<le> sint v1" "sint v1 < 2 ^ 30"
    using smear_step [of v0 1] s0 assms unfolding v1_def by auto
  have s2: "n - 1 \<le> sint v2" "sint v2 < 2 ^ 30"
    using smear_step [of v1 2] s1 assms unfolding v2_def by auto
  have s3: "n - 1 \<le> sint v3" "sint v3 < 2 ^ 30"
    using smear_step [of v2 4] s2 assms unfolding v3_def by auto
  have s4: "n - 1 \<le> sint v4" "sint v4 < 2 ^ 30"
    using smear_step [of v3 8] s3 assms unfolding v4_def by auto
  have s5: "n - 1 \<le> sint v5" "sint v5 < 2 ^ 30"
    using smear_step [of v4 16] s4 assms unfolding v5_def by auto
  have "sint (v5 + 1) = sint (word_of_int (sint v5 + 1) :: 32 word)" by simp
  also have "\<dots> = sint v5 + 1" by (rule sint_of_small) (use s5 assms in simp_all)
  finally have "sint (round2pow2 (word_of_int n)) = sint v5 + 1"
    by (simp add: round2pow2_def Let_def v0_def v1_def v2_def v3_def v4_def v5_def)
  then show "n \<le> sint (round2pow2 (word_of_int n))" "sint (round2pow2 (word_of_int n)) \<le> 2 ^ 30"
    using s5 by simp_all
qed

lemma pushArr_ok:
  assumes "vec_ok v" "vlen v + int (length xs) \<le> 2 ^ 29"
  shows "\<exists>v'. Vector_pushArr junk xs v = Some v' \<and> vec_ok v' \<and> elems v' = elems v @ xs"
proof -
  let ?n = "vlen v + int (length xs)" and ?m = "sint (round2pow2 (word_of_int (vlen v + int (length xs))))"
  have v: "0 \<le> vlen v" "vlen v \<le> vcap v" using assms(1) by (auto simp: vec_ok_def)
  have m: "?n \<le> ?m \<and> ?m \<le> 2 ^ 30"
  proof (cases "?n = 0")
    case True
    then show ?thesis by (simp add: round2pow2_def Let_def)
  next
    case False
    then show ?thesis using round2pow2_bounds [of ?n] v assms(2) by auto
  qed
  obtain w where w: "Vector_reserve junk ?m v = Some w" "vec_ok w" "elems w = elems v" "vlen w = vlen v" "?m \<le> vcap w"
    using reserve_ok [OF assms(1), of ?m] m v assms(2) by (auto simp: INT_MAX_def)
  from push_each_ok [OF w(2), of xs] w m show ?thesis
    by (auto simp: Vector_pushArr_def Vector_reserve_po2_def)
qed

lemma insert_ok:
  assumes "vec_ok v" "vlen v < 2 ^ 30" "i \<le> length (elems v)"
  shows "\<exists>v'. Vector_insert junk (int i) x v = Some v' \<and> vec_ok v' \<and>
    elems v' = take i (elems v) @ x # drop i (elems v)"
proof -
  obtain w where w: "Vector_grow junk v = Some w" "vec_ok w" "elems w = elems v" "vlen w = vlen v" "vlen w < vcap w"
    using grow_ok [OF assms(1,2)] by blast
  define n where "n = length (elems v)"
  have n: "vlen w = int n" using length_elems [OF assms(1)] w(4) by (simp add: n_def)
  have l: "n < length (vdata w)" "i \<le> n" using w(2,5) n assms(3) by (auto simp: vec_ok_def n_def)
  let ?d = "take (i + 1) (vdata w) @ take (n - i) (drop i (vdata w)) @ drop (i + 1 + (n - i)) (vdata w)"
  have mm: "memmove (int i + 1) (int i) (vlen w - int i) (vdata w) = Some ?d"
    using memmove_ok [of "i + 1" "n - i" "vdata w" i] l n by (simp add: of_nat_diff add.commute)
  have len: "length ?d = length (vdata w)" using l by simp
  have d: "?d[i := x] = take i (vdata w) @ x # take (n - i) (drop i (vdata w)) @ drop (Suc n) (vdata w)"
    using l by (simp add: take_Suc_conv_app_nth list_update_append)
  have "take (Suc n) (?d[i := x]) = take i (take n (vdata w)) @ x # drop i (take n (vdata w))"
    unfolding d using l by (simp add: take_Cons' drop_take min_def) arith
  moreover have "elems v = take n (vdata w)" using w(3) n by (simp add: elems_def)
  ultimately have e: "take (Suc n) (?d[i := x]) = take i (elems v) @ x # drop i (elems v)" by (simp only:)
  have "Vector_insert junk (int i) x v = Some (w\<lparr>vdata := ?d[i := x], vlen := int n + 1\<rparr>)"
    using w(1) mm len l n by (simp add: Vector_insert_def store_at_def)
  moreover have "vec_ok (w\<lparr>vdata := ?d[i := x], vlen := int n + 1\<rparr>)"
    using w(2,5) len n by (simp add: vec_ok_def)
  moreover have "elems (w\<lparr>vdata := ?d[i := x], vlen := int n + 1\<rparr>) = take i (elems v) @ x # drop i (elems v)"
    using e by (simp add: elems_def nat_add_distrib)
  ultimately show ?thesis by blast
qed


lemma splice_ok:
  assumes "vec_ok v" "s + c \<le> length (elems v)"
  shows "\<exists>v'. Vector_splice (int s) (int c) v = Some v' \<and> vec_ok v' \<and>
    elems v' = take s (elems v) @ drop (s + c) (elems v)"
proof -
  define n where "n = length (elems v)"
  have n: "vlen v = int n" using length_elems [OF assms(1)] by (simp add: n_def)
  have l: "n \<le> length (vdata v)" "s + c \<le> n" using assms n by (auto simp: vec_ok_def n_def)
  let ?d = "take s (vdata v) @ take (n - s - c) (drop (s + c) (vdata v)) @ drop (n - c) (vdata v)"
  have "vlen v - int s - int c = int (n - s - c)" using l n by simp
  moreover have "memmove (int s) (int (s + c)) (int (n - s - c)) (vdata v) = Some ?d"
  proof -
    have "s + (n - s - c) \<le> length (vdata v)" "s + c + (n - s - c) \<le> length (vdata v)" "s + (n - s - c) = n - c"
      using l by simp_all
    with memmove_ok [of s "n - s - c" "vdata v" "s + c"] show ?thesis by metis
  qed
  ultimately have "memmove (int s) (int s + int c) (vlen v - int s - int c) (vdata v) = Some ?d"
    by (simp only: of_nat_add)
  moreover have "take (n - c) ?d = take s (take n (vdata v)) @ drop (s + c) (take n (vdata v))"
    using l by (simp add: drop_take min_def diff_diff_left add.commute) (metis add.commute add_le_imp_le_diff le_antisym)
  moreover have "length ?d = length (vdata v)" using l by simp
  ultimately show ?thesis
    using n l assms(1) by (auto simp: Vector_splice_def vec_ok_def elems_def of_nat_diff simp flip: of_nat_diff)
qed

lemma swap_ok:
  assumes "vec_ok v" "i < length (elems v)" "j < length (elems v)"
  shows "\<exists>v'. Vector_swap (int i) (int j) v = Some v' \<and> vec_ok v' \<and> vlen v' = vlen v \<and>
    elems v' = (elems v)[i := elems v ! j, j := elems v ! i]"
  using assms
  by (auto simp: Vector_swap_def vec_ok_def elems_def take_update_swap list_update_id min_def split: if_splits)


lemma reverse_loop_ok:
  assumes "vec_ok v" "2 * i \<le> length (elems v)"
  shows "\<exists>v'. reverse_loop i v = Some v' \<and> vec_ok v' \<and> length (elems v') = length (elems v) \<and>
    (\<forall>k < length (elems v). elems v' ! k =
      (if k < i \<or> length (elems v) - i \<le> k then elems v ! (length (elems v) - 1 - k) else elems v ! k))"
  using assms
proof (induction i arbitrary: v)
  case (Suc i)
  define n where "n = length (elems v)"
  have n: "Suc i \<le> n - Suc i" "n - Suc i < n" using Suc.prems(2) by (auto simp: n_def)
  have "vlen v - (int i + 1) = int (n - Suc i)"
    using length_elems [OF Suc.prems(1)] n by (simp add: n_def)
  moreover obtain w where w: "Vector_swap (int i) (int (n - Suc i)) v = Some w" "vec_ok w" "vlen w = vlen v"
    "elems w = (elems v)[i := elems v ! (n - Suc i), n - Suc i := elems v ! i]"
    using swap_ok [OF Suc.prems(1), of i "n - Suc i"] n by (auto simp: n_def)
  moreover have lw: "length (elems w) = n" "2 * i \<le> length (elems w)" using w(4) Suc.prems(2) by (simp_all add: n_def)
  from Suc.IH [OF w(2) lw(2), unfolded lw(1)] obtain v' where v': "reverse_loop i w = Some v'" "vec_ok v'"
    "length (elems v') = n" "\<forall>k < n. elems v' ! k =
      (if k < i \<or> n - i \<le> k then elems w ! (n - 1 - k) else elems w ! k)"
    by (auto simp: n_def)
  moreover have "elems v' ! k = (if k < Suc i \<or> n - Suc i \<le> k then elems v ! (n - 1 - k) else elems v ! k)" if "k < n" for k
    using v'(4) that n w(4) by (auto simp: nth_list_update n_def [symmetric])
  ultimately show ?case by (auto simp: n_def)
qed auto

lemma reverse_ok:
  assumes "vec_ok v"
  shows "\<exists>v'. Vector_reverse v = Some v' \<and> vec_ok v' \<and> elems v' = rev (elems v)"
proof -
  define n where "n = length (elems v)"
  have i: "nat (vlen v div 2) = n div 2"
    using length_elems [OF assms] by (auto simp: n_def nat_div_distrib simp flip: length_elems)
  obtain v' where v': "reverse_loop (n div 2) v = Some v'" "vec_ok v'" "length (elems v') = n"
    "\<forall>k < n. elems v' ! k = (if k < n div 2 \<or> n - n div 2 \<le> k then elems v ! (n - 1 - k) else elems v ! k)"
    using reverse_loop_ok [OF assms, of "n div 2"] by (auto simp: n_def)
  have "elems v' = rev (elems v)"
  proof (rule nth_equalityI)
    fix k assume "k < length (elems v')"
    then have k: "k < n" using v'(3) by simp
    have "n - 1 - k = k" if "\<not> (k < n div 2 \<or> n - n div 2 \<le> k)" using that k by linarith
    then show "elems v' ! k = rev (elems v) ! k"
      using v'(4) k by (auto simp: rev_nth n_def)
  qed (simp add: v'(3) n_def)
  with v' i show ?thesis by (auto simp: Vector_reverse_def)
qed

section \<open>Properties\<close>

definition demo_vector :: "nat Vector" where
  "demo_vector = \<lparr>vdata = [1, 2, 3, 0, 0, 0, 0, 0], vlen = 3, vcap = 8\<rparr>"

lemma demo_vector_ok: "vec_ok demo_vector" "elems demo_vector = [1, 2, 3]" "vlen demo_vector = 3"
  by (simp_all add: demo_vector_def vec_ok_def elems_def INT_MAX_def)



text \<open>
  \<open>Vector_reserve_\<close> mixes up a total and an additional number of entries:
  it computes the need as additional and then stores its argument as the capacity. Reserving one
  entry in a full vector of ten sets the capacity to 1, and the next push shrinks the block to
  eight entries and writes behind it.
\<close>

theorem Vector_reserve_shrinks:
  "Option.bind (Vector_reserve (\<lambda>_. 0) 1 \<lparr>vdata = replicate 10 (5 :: nat), vlen = 10, vcap = 10\<rparr>)
     (\<lambda>v. Some (vlen v, vcap v, length (vdata v))) = Some (10, 1, 11) \<and>
   Option.bind (Vector_reserve (\<lambda>_. 0) 1 \<lparr>vdata = replicate 10 (5 :: nat), vlen = 10, vcap = 10\<rparr>)
     (Vector_push (\<lambda>_. 0) 5) = None"
  by (rule conjI; code_simp)

text \<open>
  The rounding used by \<open>Vector_pushArr\<close> never rounds down: for sizes from 1 to
  \<open>2 ^ 30\<close> the result is at least the size and at most \<open>2 ^ 30\<close>.
\<close>

theorem round2pow2_covers:
  assumes "1 \<le> n" and "n \<le> 2 ^ 30"
  shows "n \<le> sint (round2pow2 (word_of_int n)) \<and> sint (round2pow2 (word_of_int n)) \<le> 2 ^ 30"
  using round2pow2_bounds [OF assms] by blast

theorem round2pow2_covers_witness: "5 \<le> sint (round2pow2 (word_of_int 5))"
  using round2pow2_covers [of 5] by simp

end
