(* ===== verification/Cyn_Pool.thy ===== *)
theory Cyn_Pool
  imports Cyn_Host Cyn_Vector
begin

unbundle bit_operations_syntax

text \<open>
  The two allocators of the compiler, \<^verbatim>\<open>src/compiler/common/heap.c\<close>: an arena, which is a list of regions
  that are filled from their start, and pools of segments of one size each, whose free segments are in
  a vector. The memory of both comes from the default allocator, that of the vectors is the one
  of \<open>Vector\<close>. The static objects of the file are fields of the state.
\<close>

section \<open>State\<close>

text \<open>The list of regions begins with the static \<open>sArena\<close>; the order is that of the links.\<close>

record ArenaAllocatorRegion =
  rg_data :: addr
  rg_size :: u32
  rg_allocs :: u32
  rg_current :: u32

record PoolAllocatorBlock =
  pb_size :: u32
  pb_segments :: u32
  pb_allocs :: u32
  pb_deallocs :: u32
  pb_free :: "addr Vector"
  pb_data :: addr

definition NUMBER_OF_POOLS :: nat where "NUMBER_OF_POOLS = 8"
definition POOL_BLOCK_SIZE :: nat where "POOL_BLOCK_SIZE = 32768"

record CompilerHeap = Host +
  arena_set :: bool
  sArena :: "ArenaAllocatorRegion list"
  arena_regions :: u32
  arena_size :: u64
  arena_used :: u64
  pool_set :: bool
  sPoolAllocatorBlocks :: "PoolAllocatorBlock list"

definition zero_region :: ArenaAllocatorRegion where
  "zero_region = \<lparr>rg_data = Null, rg_size = 0, rg_allocs = 0, rg_current = 0\<rparr>"

definition zero_block :: PoolAllocatorBlock where
  "zero_block = \<lparr>pb_size = 0, pb_segments = 0, pb_allocs = 0, pb_deallocs = 0, pb_free = Vector_init, pb_data = Null\<rparr>"

section \<open>Powers of two\<close>

definition np2 :: "u32 \<Rightarrow> u32" where
  "np2 v =
     (let v = v - 1;
          v = v OR drop_bit 1 v;
          v = v OR drop_bit 2 v;
          v = v OR drop_bit 4 v;
          v = v OR drop_bit 8 v;
          v = v OR drop_bit 16 v
      in v + 1)"

text \<open>The number of zeros in front of the first bit that is set, which the compiler has as a builtin.\<close>

definition builtin_clz :: "u32 \<Rightarrow> nat" where
  "builtin_clz v = length (takeWhile (\<lambda>i. \<not> bit v (31 - i)) [0..<32])"

definition n21 :: "u32 \<Rightarrow> u32" where
  "n21 v = (if v = 0 then 0 else 31 - of_nat (builtin_clz v))"

section \<open>The arena\<close>

definition ArenaRegion_Init ::
  "ArenaAllocatorRegion \<Rightarrow> u32 \<Rightarrow> CompilerHeap \<Rightarrow> heap_stop + (ArenaAllocatorRegion \<times> CompilerHeap)" where
  "ArenaRegion_Init arena n h =
     bnd (Allocator_alloc (Some sDefaultAllocator) n h) (\<lambda>(data, h).
     Inr (arena\<lparr>rg_size := n, rg_current := 0, rg_data := data\<rparr>,
       h\<lparr>arena_regions := arena_regions h + 1, arena_size := arena_size h + ucast n\<rparr>))"

definition ArenaAllocator_Init :: "u32 \<Rightarrow> CompilerHeap \<Rightarrow> heap_stop + CompilerHeap" where
  "ArenaAllocator_Init n h =
     (if arena_set h then Inl HeapAssert
      else bnd (ArenaRegion_Init (hd (sArena h)) n (Allocator_init ArenaAllocator (h\<lparr>arena_set := True\<rparr>)))
        (\<lambda>(arena, h). Inr (h\<lparr>sArena := (sArena h)[0 := arena]\<rparr>)))"

text \<open>The first region with more room than is asked for.\<close>

primrec arena_scan :: "u32 \<Rightarrow> ArenaAllocatorRegion list \<Rightarrow> (addr \<times> ArenaAllocatorRegion list) option" where
  "arena_scan n [] = None"
| "arena_scan n (r # rs) =
     (if rg_size r - rg_current r > n then
        Some (shift (uint (rg_current r)) (rg_data r), r\<lparr>rg_current := rg_current r + n, rg_allocs := rg_allocs r + 1\<rparr> # rs)
      else map_option (apsnd ((#) r)) (arena_scan n rs))"

definition ArenaAllocator_alloc :: "u32 \<Rightarrow> CompilerHeap \<Rightarrow> heap_stop + (addr \<times> CompilerHeap)" where
  "ArenaAllocator_alloc n h =
     (let n = CynAlign n 8 in
      case arena_scan n (sArena h) of
        Some (p, rs) \<Rightarrow> Inr (p, h\<lparr>sArena := rs, arena_used := arena_used h + ucast n\<rparr>)
      | None \<Rightarrow>
          bnd (Allocator_cAlloc (Some sDefaultAllocator) 1 32 h) (\<lambda>(node, h).
          if node = Null then Inl HeapFault
          else bnd (ArenaRegion_Init zero_region (max (rg_size (hd (sArena h))) n) h) (\<lambda>(r, h).
            Inr (rg_data r, h\<lparr>sArena := sArena h @ [r\<lparr>rg_current := rg_current r + n, rg_allocs := rg_allocs r + 1\<rparr>],
              arena_used := arena_used h + ucast n\<rparr>))))"

definition ArenaAllocator_cAlloc :: "u32 \<Rightarrow> u32 \<Rightarrow> CompilerHeap \<Rightarrow> heap_stop + (addr \<times> CompilerHeap)" where
  "ArenaAllocator_cAlloc num n h =
     bnd (ArenaAllocator_alloc (num * n) h) (\<lambda>(mem, h).
     if mem \<noteq> Null then bnd (clear_cells mem (unat (num * n)) h) (\<lambda>h. Inr (mem, h)) else Inr (mem, h))"

definition ArenaAllocator_reAlloc :: "addr \<Rightarrow> u32 \<Rightarrow> u32 \<Rightarrow> CompilerHeap \<Rightarrow> heap_stop + (addr \<times> CompilerHeap)" where
  "ArenaAllocator_reAlloc mem orig n h =
     (if n = 0 then Inr (Null, h)
      else bnd (ArenaAllocator_alloc n h) (\<lambda>(ret, h).
        if ret = Null then Inr (Null, h)
        else bnd (move_cells ret mem (unat (min orig n)) h) (\<lambda>h. Inr (ret, h))))"

definition ArenaAllocator_dealloc :: "addr \<Rightarrow> u32 \<Rightarrow> CompilerHeap \<Rightarrow> heap_stop + CompilerHeap" where
  "ArenaAllocator_dealloc mem n h = Inr h"

definition sArenaAllocator :: "CompilerHeap Allocator" where
  "sArenaAllocator = \<lparr>a_alloc = ArenaAllocator_alloc, a_cAlloc = ArenaAllocator_cAlloc, a_reAlloc = ArenaAllocator_reAlloc,
     a_dealloc = ArenaAllocator_dealloc, a_self = ArenaAllocator\<rparr>"

section \<open>The pools\<close>

text \<open>Vectors whose arithmetic or accesses go wrong are \<open>None\<close>.\<close>

definition of_vec :: "'v option \<Rightarrow> heap_stop + 'v" where
  "of_vec v = (case v of None \<Rightarrow> Inl HeapFault | Some v \<Rightarrow> Inr v)"

definition no_cell :: "nat \<Rightarrow> addr" where "no_cell i = Null"

text \<open>The loop puts a segment at every multiple of the step below the size of the block; \<open>buf\<close> is behind the pointer
  \<open>next\<close>.\<close>

function fill_segments :: "nat \<Rightarrow> nat \<Rightarrow> PoolAllocatorBlock \<Rightarrow> heap_stop + PoolAllocatorBlock" where
  "fill_segments n i block =
     (if i < POOL_BLOCK_SIZE then
        bnd (of_vec (Vector_push no_cell (shift (8 + int i) (pb_data block)) (pb_free block))) (\<lambda>v.
        fill_segments n (i + (n + 16)) (block\<lparr>pb_segments := pb_segments block + 1, pb_free := v\<rparr>))
      else Inr block)"
  by pat_completeness auto
termination by (relation "measure (\<lambda>(n, i, block). POOL_BLOCK_SIZE - i)") auto

declare fill_segments.simps [simp del]

definition PoolAllocatorBlock_Init :: "PoolAllocatorBlock \<Rightarrow> nat \<Rightarrow> CompilerHeap \<Rightarrow> heap_stop + (PoolAllocatorBlock \<times> CompilerHeap)" where
  "PoolAllocatorBlock_Init block n h =
     bnd (of_vec (Vector_reserve no_cell (int (POOL_BLOCK_SIZE div (n + 16)) + 1) Vector_init)) (\<lambda>v.
     bnd (Allocator_alloc (Some sDefaultAllocator) (of_nat POOL_BLOCK_SIZE - sizeof_meta) h) (\<lambda>(data, h).
     if data = Null then Inl HeapAssert
     else bnd (fill_segments n 0 (block\<lparr>pb_free := v, pb_size := of_nat (n + 16), pb_data := data\<rparr>)) (\<lambda>block.
       Inr (block, h))))"

primrec init_blocks :: "nat \<Rightarrow> PoolAllocatorBlock list \<Rightarrow> CompilerHeap \<Rightarrow> heap_stop + (PoolAllocatorBlock list \<times> CompilerHeap)" where
  "init_blocks i [] h = Inr ([], h)"
| "init_blocks i (block # blocks) h =
     bnd (PoolAllocatorBlock_Init block (2 ^ (i + 4)) h) (\<lambda>(block, h).
     bnd (init_blocks (Suc i) blocks h) (\<lambda>(blocks, h). Inr (block # blocks, h)))"

definition PoolAllocator_Init :: "CompilerHeap \<Rightarrow> heap_stop + CompilerHeap" where
  "PoolAllocator_Init h =
     (if pool_set h then Inl HeapAssert
      else let h = Allocator_init PoolAllocator (h\<lparr>pool_set := True\<rparr>) in
        bnd (init_blocks 0 (sPoolAllocatorBlocks h) h) (\<lambda>(blocks, h). Inr (h\<lparr>sPoolAllocatorBlocks := blocks\<rparr>)))"

text \<open>The pool of a size. An index that the array does not have is a fault.\<close>

definition pool_index :: "u32 \<Rightarrow> u32" where
  "pool_index n = n21 (np2 (max 16 n)) - 4"

definition pool_block :: "u32 \<Rightarrow> CompilerHeap \<Rightarrow> heap_stop + (nat \<times> PoolAllocatorBlock)" where
  "pool_block n h =
     (let i = unat (pool_index n) in
      if i < length (sPoolAllocatorBlocks h) then Inr (i, sPoolAllocatorBlocks h ! i) else Inl HeapFault)"

definition PoolAllocator_alloc :: "u32 \<Rightarrow> CompilerHeap \<Rightarrow> heap_stop + (addr \<times> CompilerHeap)" where
  "PoolAllocator_alloc n h =
     (if n = 0 then Inr (Null, h)
      else if n \<ge> 4096 then Inr (Null, h)
      else bnd (pool_block n h) (\<lambda>(i, block).
        if vlen (pb_free block) = 0 then Inr (Null, h)
        else bnd (of_vec (Vector_pop (pb_free block))) (\<lambda>(p, v).
          Inr (p, h\<lparr>sPoolAllocatorBlocks := (sPoolAllocatorBlocks h)[i :=
            block\<lparr>pb_allocs := pb_allocs block + 1, pb_free := v\<rparr>]\<rparr>))))"

definition PoolAllocator_cAlloc :: "u32 \<Rightarrow> u32 \<Rightarrow> CompilerHeap \<Rightarrow> heap_stop + (addr \<times> CompilerHeap)" where
  "PoolAllocator_cAlloc num n h =
     bnd (PoolAllocator_alloc (num * n) h) (\<lambda>(mem, h).
     if mem = Null then Inr (Null, h) else bnd (clear_cells mem (unat (num * n)) h) (\<lambda>h. Inr (mem, h)))"

definition PoolAllocator_dealloc :: "addr \<Rightarrow> u32 \<Rightarrow> CompilerHeap \<Rightarrow> heap_stop + CompilerHeap" where
  "PoolAllocator_dealloc mem n h =
     bnd (pool_block n h) (\<lambda>(i, block).
     bnd (of_vec (Vector_push no_cell mem (pb_free block))) (\<lambda>v.
     Inr (h\<lparr>sPoolAllocatorBlocks := (sPoolAllocatorBlocks h)[i :=
       block\<lparr>pb_deallocs := pb_deallocs block + 1, pb_free := v\<rparr>]\<rparr>)))"

definition PoolAllocator_reAlloc :: "addr \<Rightarrow> u32 \<Rightarrow> u32 \<Rightarrow> CompilerHeap \<Rightarrow> heap_stop + (addr \<times> CompilerHeap)" where
  "PoolAllocator_reAlloc mem orig n h =
     (if np2 (max 16 n) = np2 (max 16 orig) then Inr (mem, h)
      else bnd (PoolAllocator_alloc n h) (\<lambda>(ret, h).
        if ret = Null then Inr (Null, h)
        else bnd (move_cells ret mem (unat (min n orig)) h) (\<lambda>h.
          bnd (PoolAllocator_dealloc mem orig h) (\<lambda>h. Inr (ret, h)))))"

definition sPoolAllocator :: "CompilerHeap Allocator" where
  "sPoolAllocator = \<lparr>a_alloc = PoolAllocator_alloc, a_cAlloc = PoolAllocator_cAlloc, a_reAlloc = PoolAllocator_reAlloc,
     a_dealloc = PoolAllocator_dealloc, a_self = PoolAllocator\<rparr>"

text \<open>The object that a pointer to an allocator points to.\<close>

definition the_allocator :: "AllocatorRef \<Rightarrow> CompilerHeap Allocator" where
  "the_allocator A = (case A of DefaultAllocator \<Rightarrow> sDefaultAllocator | ArenaAllocator \<Rightarrow> sArenaAllocator | PoolAllocator \<Rightarrow> sPoolAllocator)"

end
