(* ===== verification/Cyn_BlockStore.thy ===== *)
theory Cyn_BlockStore
  imports Cyn_Pool
begin

text \<open>
  The contract of the allocators of the compiler. A state has a set of live blocks, an address with a size.
  A \<open>block_store\<close> gives new blocks that overlap no live one, takes live ones back, and leaves the contents of
  live blocks alone. In a \<open>store_allocator\<close> the blocks are moreover in memory; then the operations of
  \<^verbatim>\<open>src/allocator.c\<close>, which put their data in front of each block, are a \<open>block_store\<close> again.
\<close>

section \<open>Blocks in memory\<close>

type_synonym live = "(addr \<times> u32) set"

definition block_bytes :: "addr \<times> u32 \<Rightarrow> (nat option \<times> int) set" where
  "block_bytes b = {q. fst q = fst (fst b) \<and> snd (fst b) \<le> snd q \<and> snd q < snd (fst b) + uint (snd b)}"

definition untouched :: "live \<Rightarrow> CompilerHeap \<Rightarrow> CompilerHeap \<Rightarrow> bool" where
  "untouched L s s' \<longleftrightarrow> magic_of s' = magic_of s \<and> (\<forall>(p, n) \<in> L. cells p (unat n) s' = cells p (unat n) s)"

lemma untouched_refl [simp]: "untouched L s s"
  by (simp add: untouched_def)

lemma untouchedI:
  "magic_of s' = magic_of s \<Longrightarrow> (\<And>p n. (p, n) \<in> L \<Longrightarrow> cells p (unat n) s' = cells p (unat n) s) \<Longrightarrow> untouched L s s'"
  by (auto simp: untouched_def)

lemma untouched_trans: "untouched L s s1 \<Longrightarrow> untouched L s1 s2 \<Longrightarrow> untouched L s s2"
  by (auto simp: untouched_def split_beta)

lemma untouched_mono: "untouched L s s' \<Longrightarrow> K \<subseteq> L \<Longrightarrow> untouched K s s'"
  by (auto simp: untouched_def)

lemma cells_cong: "cell_at s' = cell_at s \<Longrightarrow> cells p n s' = cells p n s"
  by (simp add: cells_def split: option.split)

lemma in_object_cong: "obj_size s' = obj_size s \<Longrightarrow> in_object p n s' = in_object p n s"
  by (simp add: in_object_def split: option.split)

lemma length_cells: "in_object p n s \<Longrightarrow> length (cells p n s) = n"
  by (auto simp: cells_def in_object_def split: option.splits)

lemma set_cells_fields [simp]:
  "obj_size (set_cells p cs s) = obj_size s" "magic_of (set_cells p cs s) = magic_of s"
  "next_obj (set_cells p cs s) = next_obj s" "has_room (set_cells p cs s) = has_room s"
  "in_object q n (set_cells p cs s) = in_object q n s"
  by (simp_all add: set_cells_def in_object_def split: option.split)

lemma set_cells_update: "\<exists>c. set_cells p cs s = s\<lparr>cell_at := c\<rparr>"
proof (cases "fst p")
  case None
  then show ?thesis by (intro exI [of _ "cell_at s"]) (simp add: set_cells_def)
qed (auto simp: set_cells_def)

lemma cells_set_same: "in_object p n s \<Longrightarrow> length cs = n \<Longrightarrow> cells p n (set_cells p cs s) = cs"
  by (auto simp: cells_def set_cells_def in_object_def intro!: nth_equalityI split: option.splits)

lemma cells_set_other:
  assumes "\<And>i. i < n \<Longrightarrow> \<not> (fst q = fst p \<and> snd p \<le> snd q + int i \<and> snd q + int i < snd p + int (length cs))"
  shows "cells q n (set_cells p cs s) = cells q n s"
  using assms by (auto simp: cells_def set_cells_def split: option.splits)

lemma cells_append: "cells p (n + m) s = cells p n s @ cells (shift (int n) p) m s"
proof (cases "fst p")
  case (Some b)
  have "[0..<n + m] = [0..<n] @ map (\<lambda>i. i + n) [0..<m]"
    unfolding map_add_upt using upt_add_eq_append [of 0 n m] by (simp add: add.commute)
  then show ?thesis by (simp add: cells_def shift_def Some comp_def algebra_simps)
qed (simp add: cells_def shift_def)

lemma shift_shift [simp]: "shift i (shift j p) = shift (i + j) p" "shift 0 p = p"
  by (simp_all add: shift_def)

lemma in_object_part: "in_object p n s \<Longrightarrow> 0 \<le> i \<Longrightarrow> i + int m \<le> int n \<Longrightarrow> in_object (shift i p) m s"
  by (auto simp: in_object_def shift_def split: option.splits)

lemma in_object_not_null: "in_object p n s \<Longrightarrow> p \<noteq> Null"
  by (auto simp: in_object_def Null_def)

lemma write_cells_ok: "in_object p (length cs) s \<Longrightarrow> cs \<noteq> [] \<Longrightarrow> write_cells p cs s = Inr (set_cells p cs s)"
  by (simp add: write_cells_def)

lemma read_cells_ok: "in_object p n s \<Longrightarrow> read_cells p n s = Inr (cells p n s)"
  by (auto simp: read_cells_def cells_def split: option.split)

section \<open>Metadata\<close>

lemma raw_bytes_Raw: "raw_bytes (map Raw bs) = Some bs"
  by (induction bs) simp_all

lemma length_metadata [simp]: "length (AllocatorMetadata A n m) = 16" "length (u32_cells v) = 4" "length (ref_cells A) = 8"
  by (simp_all add: AllocatorMetadata_def ref_cells_def u32_cells_def)

lemma ref_cells_inj: "ref_cells A = ref_cells B \<longleftrightarrow> A = B"
  by (auto simp: ref_cells_def upt_rec)

lemma ref_cells_no_null: "ref_cells A \<noteq> replicate 8 (Raw 0)"
  by (simp add: ref_cells_def upt_rec numeral_eq_Suc)

lemma find_ref: "find (\<lambda>B. ref_cells A = ref_cells B) [DefaultAllocator, ArenaAllocator, PoolAllocator] = Some A"
  by (cases A) (simp_all add: ref_cells_inj)

lemma u32_cells_read: "raw_bytes (u32_cells v) = Some (le_bytes 4 (ucast v))" "ucast (le_word (le_bytes 4 (ucast v))) = v"
proof -
  show "raw_bytes (u32_cells v) = Some (le_bytes 4 (ucast v))" by (simp add: u32_cells_def raw_bytes_Raw)
  have "ucast (take_bit 32 (ucast v :: u64)) = v" by (rule bit_word_eqI) (auto simp: bit_simps)
  then show "ucast (le_word (le_bytes 4 (ucast v))) = v" by (simp add: le_word_le_bytes)
qed

text \<open>What is read from a block of which the metadata is in memory.\<close>

lemma metadata_parts:
  assumes "in_object p 16 s" and "cells p 16 s = AllocatorMetadata A n m"
  shows "meta_A p s = Inr (Some A)" and "meta_size p s = Inr n" and "meta_magic p s = Inr m"
proof -
  have i: "in_object p 8 s" "in_object (shift 8 p) 4 s" "in_object (shift 12 p) 4 s"
    using in_object_part [OF assms(1), of 0 8] in_object_part [OF assms(1), of 8 4] in_object_part [OF assms(1), of 12 4]
    by simp_all
  have "cells p (8 + (4 + 4)) s = cells p 8 s @ cells (shift 8 p) 4 s @ cells (shift 12 p) 4 s"
    by (simp only: cells_append) simp
  then have e: "cells p 8 s @ cells (shift 8 p) 4 s @ cells (shift 12 p) 4 s = ref_cells A @ u32_cells n @ u32_cells m"
    using assms(2) by (simp add: AllocatorMetadata_def)
  then have c: "cells p 8 s = ref_cells A" "cells (shift 8 p) 4 s = u32_cells n" "cells (shift 12 p) 4 s = u32_cells m"
    using i by (auto simp: append_eq_append_conv length_cells)
  show "meta_A p s = Inr (Some A)"
    by (simp add: meta_A_def read_ref_def read_cells_ok [OF i(1)] c ref_cells_no_null find_ref del: find.simps)
  show "meta_size p s = Inr n" "meta_magic p s = Inr m"
    by (simp_all add: meta_size_def meta_magic_def read_u32_def read_cells_ok [OF i(2)] read_cells_ok [OF i(3)] c u32_cells_read)
qed


section \<open>The contract\<close>

text \<open>A client asks for blocks and gives back the \<open>k\<close>-th of those it holds.\<close>

datatype block_request = Get u32 | Put nat

primrec serve_blocks ::
  "(u32 \<Rightarrow> CompilerHeap \<Rightarrow> heap_stop + (addr \<times> CompilerHeap)) \<Rightarrow> (addr \<Rightarrow> u32 \<Rightarrow> CompilerHeap \<Rightarrow> heap_stop + CompilerHeap) \<Rightarrow>
     block_request list \<Rightarrow> CompilerHeap \<Rightarrow> (addr \<times> u32) list \<Rightarrow> heap_stop + (CompilerHeap \<times> (addr \<times> u32) list)" where
  "serve_blocks alloc dealloc [] s bs = Inr (s, bs)"
| "serve_blocks alloc dealloc (r # rs) s bs =
     (case r of
        Get n \<Rightarrow> bnd (alloc n s) (\<lambda>(p, s). serve_blocks alloc dealloc rs s (if p = Null then bs else bs @ [(p, n)]))
      | Put k \<Rightarrow>
          if k < length bs then
            bnd (dealloc (fst (bs ! k)) (snd (bs ! k)) s) (\<lambda>s. serve_blocks alloc dealloc rs s (take k bs @ drop (Suc k) bs))
          else serve_blocks alloc dealloc rs s bs)"

definition separate :: "(addr \<times> u32) list \<Rightarrow> bool" where
  "separate bs \<longleftrightarrow> distinct bs \<and> (\<forall>b \<in> set bs. \<forall>c \<in> set bs. b \<noteq> c \<longrightarrow> block_bytes b \<inter> block_bytes c = {})"

text \<open>
  Where a block that is the \<open>k\<close>-th of those a client holds is after some requests, unless it was given back; and that
  all blocks that were not given back are still there with their contents.
\<close>

primrec place :: "block_request list \<Rightarrow> nat \<Rightarrow> nat option" where
  "place [] k = Some k"
| "place (r # rs) k = (case r of Get n \<Rightarrow> place rs k | Put j \<Rightarrow> if j = k then None else place rs (if j < k then k - 1 else k))"

definition kept :: "block_request list \<Rightarrow> CompilerHeap \<Rightarrow> (addr \<times> u32) list \<Rightarrow> CompilerHeap \<Rightarrow> (addr \<times> u32) list \<Rightarrow> bool" where
  "kept rs s bs s' bs' \<longleftrightarrow> (\<forall>k < length bs. \<forall>j. place rs k = Some j \<longrightarrow> j < length bs' \<and> bs' ! j = bs ! k \<and>
     cells (fst (bs ! k)) (unat (snd (bs ! k))) s' = cells (fst (bs ! k)) (unat (snd (bs ! k))) s)"

lemma kept_Nil: "kept [] s bs s bs"
  by (simp add: kept_def)

lemma untouched_nth: "untouched L s s' \<Longrightarrow> b \<in> L \<Longrightarrow> cells (fst b) (unat (snd b)) s' = cells (fst b) (unat (snd b)) s"
  by (cases b) (auto simp: untouched_def)

lemma kept_Get:
  assumes "untouched (set bs) s s1" "kept rs s1 (bs @ cs) s' bs'"
  shows "kept (Get n # rs) s bs s' bs'"
  unfolding kept_def
proof (intro allI impI)
  fix k j
  assume k: "k < length bs" "place (Get n # rs) k = Some j"
  then have "k < length (bs @ cs)" "place rs k = Some j" by simp_all
  then have "j < length bs' \<and> bs' ! j = bs ! k \<and> cells (fst (bs ! k)) (unat (snd (bs ! k))) s' = cells (fst (bs ! k)) (unat (snd (bs ! k))) s1"
    using assms(2) k(1) unfolding kept_def by (metis nth_append)
  then show "j < length bs' \<and> bs' ! j = bs ! k \<and> cells (fst (bs ! k)) (unat (snd (bs ! k))) s' = cells (fst (bs ! k)) (unat (snd (bs ! k))) s"
    using untouched_nth [OF assms(1), of "bs ! k"] k(1) by simp
qed

lemma kept_Put:
  assumes "untouched (set bs - {bs ! i}) s s1" "kept rs s1 (take i bs @ drop (Suc i) bs) s' bs'" "i < length bs" "distinct bs"
  shows "kept (Put i # rs) s bs s' bs'"
  unfolding kept_def
proof (intro allI impI)
  fix k j
  let ?k = "if i < k then k - 1 else k" and ?bs = "take i bs @ drop (Suc i) bs"
  assume k: "k < length bs" "place (Put i # rs) k = Some j"
  then have p: "i \<noteq> k" "place rs ?k = Some j" by (simp_all split: if_splits)
  have n: "?k < length ?bs" "?bs ! ?k = bs ! k" using k(1) assms(3) p(1) by (auto simp: nth_append)
  have "j < length bs' \<and> bs' ! j = bs ! k \<and> cells (fst (bs ! k)) (unat (snd (bs ! k))) s' = cells (fst (bs ! k)) (unat (snd (bs ! k))) s1"
    using assms(2) n p(2) unfolding kept_def by metis
  moreover have "bs ! k \<in> set bs - {bs ! i}" using k(1) assms(3,4) p(1) by (simp add: nth_eq_iff_index_eq)
  ultimately show "j < length bs' \<and> bs' ! j = bs ! k \<and> cells (fst (bs ! k)) (unat (snd (bs ! k))) s' = cells (fst (bs ! k)) (unat (snd (bs ! k))) s"
    using untouched_nth [OF assms(1)] by metis
qed

lemma kept_Put_none:
  assumes "kept rs s bs s' bs'" "length bs \<le> i"
  shows "kept (Put i # rs) s bs s' bs'"
  using assms by (auto simp: kept_def)

locale block_store =
  fixes valid :: "CompilerHeap \<Rightarrow> live \<Rightarrow> bool"
    and good :: "u32 \<Rightarrow> bool"
    and alloc :: "u32 \<Rightarrow> CompilerHeap \<Rightarrow> heap_stop + (addr \<times> CompilerHeap)"
    and dealloc :: "addr \<Rightarrow> u32 \<Rightarrow> CompilerHeap \<Rightarrow> heap_stop + CompilerHeap"
  assumes alloc_law: "valid s L \<Longrightarrow> good n \<Longrightarrow> \<exists>p s'. alloc n s = Inr (p, s') \<and> untouched L s s' \<and>
      (p = Null \<and> valid s' L \<or> p \<noteq> Null \<and> (p, n) \<notin> L \<and> valid s' (insert (p, n) L))"
    and dealloc_law: "valid s L \<Longrightarrow> (p, n) \<in> L \<Longrightarrow> \<exists>s'. dealloc p n s = Inr s' \<and> untouched (L - {(p, n)}) s s' \<and>
      valid s' (L - {(p, n)})"
    and apart_law: "valid s L \<Longrightarrow> b \<in> L \<Longrightarrow> c \<in> L \<Longrightarrow> b \<noteq> c \<Longrightarrow> block_bytes b \<inter> block_bytes c = {}"
begin

lemma get_block:
  assumes "valid s (set bs)" "distinct bs" "good n"
  obtains p s' where "alloc n s = Inr (p, s')" "valid s' (set (if p = Null then bs else bs @ [(p, n)]))"
    "distinct (if p = Null then bs else bs @ [(p, n)])" "untouched (set bs) s s'"
  using alloc_law [OF assms(1,3)] assms(2) that by fastforce

lemma put_block:
  assumes "valid s (set bs)" "distinct bs" "k < length bs"
  obtains s' where "dealloc (fst (bs ! k)) (snd (bs ! k)) s = Inr s'" "valid s' (set (take k bs @ drop (Suc k) bs))"
    "distinct (take k bs @ drop (Suc k) bs)" "untouched (set bs - {bs ! k}) s s'"
proof -
  define b where "b = bs ! k"
  have e: "bs = take k bs @ b # drop (Suc k) bs" unfolding b_def using assms(3) by (rule id_take_nth_drop)
  have d: "distinct (take k bs @ b # drop (Suc k) bs)" using assms(2) e by metis
  have r: "set (xs @ b # ys) - {b} = set (xs @ ys) \<and> distinct (xs @ ys)" if "distinct (xs @ b # ys)" for xs ys
    using that by auto
  have s: "set bs - {bs ! k} = set (take k bs @ drop (Suc k) bs)" "distinct (take k bs @ drop (Suc k) bs)"
    using r [OF d] arg_cong [OF e, of set] unfolding b_def by simp_all
  obtain s' where "dealloc (fst (bs ! k)) (snd (bs ! k)) s = Inr s'" "valid s' (set bs - {bs ! k})" "untouched (set bs - {bs ! k}) s s'"
    using dealloc_law [OF assms(1), of "fst (bs ! k)" "snd (bs ! k)"] assms(3) by auto
  from this(1) this(2) [unfolded s(1)] s(2) this(3) show thesis by (rule that)
qed

lemma serves:
  assumes "valid s (set bs)" "distinct bs" "\<forall>n. Get n \<in> set rs \<longrightarrow> good n"
  shows "\<exists>s' bs'. serve_blocks alloc dealloc rs s bs = Inr (s', bs') \<and> valid s' (set bs') \<and> separate bs' \<and> kept rs s bs s' bs'"
  using assms
proof (induction rs arbitrary: s bs)
  case Nil
  then show ?case using apart_law kept_Nil by (auto simp: separate_def)
next
  case (Cons r rs)
  have g: "\<forall>n. Get n \<in> set rs \<longrightarrow> good n" using Cons.prems(3) by simp
  show ?case
  proof (cases r)
    case (Get n)
    then have "good n" using Cons.prems(3) by simp
    from get_block [OF Cons.prems(1,2) this] obtain p s1 where s1: "alloc n s = Inr (p, s1)" "valid s1 (set (if p = Null then bs else bs @ [(p, n)]))"
      "distinct (if p = Null then bs else bs @ [(p, n)])" "untouched (set bs) s s1"
      .
    from Cons.IH [OF s1(2,3) g] obtain s' bs' where s':
      "serve_blocks alloc dealloc rs s1 (if p = Null then bs else bs @ [(p, n)]) = Inr (s', bs')" "valid s' (set bs')" "separate bs'"
      "kept rs s1 (if p = Null then bs else bs @ [(p, n)]) s' bs'"
      by blast
    have "kept rs s1 (bs @ (if p = Null then [] else [(p, n)])) s' bs'" using s'(4) by (simp split: if_splits)
    from kept_Get [OF s1(4) this] show ?thesis using s1(1) s'(1-3) by (auto simp: Get)
  next
    case (Put k)
    show ?thesis
    proof (cases "k < length bs")
      case True
      from put_block [OF Cons.prems(1,2) True] obtain s1 where s1: "dealloc (fst (bs ! k)) (snd (bs ! k)) s = Inr s1"
        "valid s1 (set (take k bs @ drop (Suc k) bs))" "distinct (take k bs @ drop (Suc k) bs)" "untouched (set bs - {bs ! k}) s s1" .
      show ?thesis using Cons.IH [OF s1(2,3) g] s1(1) kept_Put [OF s1(4) _ True Cons.prems(2)] True by (auto simp: Put)
    next
      case False
      then show ?thesis using Cons.IH [OF Cons.prems(1,2) g] kept_Put_none by (fastforce simp: Put)
    qed
  qed
qed

end

section \<open>Allocators over blocks in memory\<close>

locale store_allocator = block_store valid good "a_alloc A" "a_dealloc A"
  for valid :: "CompilerHeap \<Rightarrow> live \<Rightarrow> bool" and good :: "u32 \<Rightarrow> bool" and A :: "CompilerHeap Allocator" +
  assumes room_law: "valid s L \<Longrightarrow> (p, n) \<in> L \<Longrightarrow> in_object p (unat n) s"
    and cells_law: "valid s L \<Longrightarrow> valid (s\<lparr>cell_at := c\<rparr>) L"
    and self_law: "the_allocator (a_self A) = A"
begin

lemma set_cells_law: "valid s L \<Longrightarrow> valid (set_cells p cs s) L"
  using set_cells_update [of p cs s] cells_law by metis

end

text \<open>A block of a client with the metadata in front of it, and a state in which all of them are intact.\<close>

definition whole_block :: "addr \<times> u32 \<Rightarrow> addr \<times> u32" where
  "whole_block b = (meta_of (fst b), snd b + 16)"

definition framed :: "(CompilerHeap \<Rightarrow> live \<Rightarrow> bool) \<Rightarrow> AllocatorRef \<Rightarrow> CompilerHeap \<Rightarrow> live \<Rightarrow> bool" where
  "framed valid A s L \<longleftrightarrow>
     valid s (whole_block ` L) \<and> CynAllocMagicHeader (magic_of s A) = CYN_ALLOCATOR_MAGIC0 \<and>
     (\<forall>(p, n) \<in> L. 0 < n \<and> unat n + 16 < 2 ^ 32 \<and> cells (meta_of p) 16 s = AllocatorMetadata A n (magic_of s A))"

definition good_front :: "(u32 \<Rightarrow> bool) \<Rightarrow> u32 \<Rightarrow> bool" where
  "good_front good n \<longleftrightarrow> 0 < n \<and> unat n + 16 < 2 ^ 32 \<and> good (n + 16)"

lemma unat_plus_16: "unat n + 16 < 2 ^ 32 \<Longrightarrow> unat (n + 16 :: u32) = 16 + unat n"
  by (simp add: unat_word_ariths)

lemma uint_plus_16: "unat n + 16 < 2 ^ 32 \<Longrightarrow> uint (n + 16 :: u32) = 16 + uint n"
  using unat_plus_16 [of n] by (metis of_nat_add of_nat_numeral uint_nat)

lemma meta_mem [simp]: "meta_of (mem_of p) = p" "mem_of (meta_of p) = p" "fst (meta_of p) = fst p" "fst (mem_of p) = fst p"
  by (simp_all add: meta_of_def mem_of_def) (simp_all add: shift_def)

lemma whole_block_inj: "whole_block b = whole_block c \<longleftrightarrow> b = c"
proof
  assume "whole_block b = whole_block c"
  then have "meta_of (fst b) = meta_of (fst c)" "snd b = snd c" by (simp_all add: whole_block_def)
  then show "b = c" by (metis meta_mem(2) prod.expand)
qed simp

lemma whole_block_image: "whole_block ` (L - {b}) = whole_block ` L - {whole_block b}"
  by (auto simp: whole_block_inj)

lemma cells_framed:
  assumes "cells (meta_of p) (16 + m) s' = cells (meta_of p) (16 + m) s"
  shows "cells (meta_of p) 16 s' = cells (meta_of p) 16 s" "cells p m s' = cells p m s"
proof -
  have e: "cells (meta_of p) (16 + m) s = cells (meta_of p) 16 s @ cells p m s" for s
    unfolding cells_append by (simp add: meta_of_def)
  have "length (cells (meta_of p) 16 s') = length (cells (meta_of p) 16 s)" by (simp add: cells_def split: option.split)
  then show "cells (meta_of p) 16 s' = cells (meta_of p) 16 s" "cells p m s' = cells p m s" using assms unfolding e by simp_all
qed

lemma block_bytes_whole: "unat (snd b) + 16 < 2 ^ 32 \<Longrightarrow> block_bytes b \<subseteq> block_bytes (whole_block b)"
  using uint_plus_16 [of "snd b"] by (auto simp: block_bytes_def whole_block_def meta_of_def shift_def)


lemma framedD: "framed valid A s L \<Longrightarrow> valid s (whole_block ` L)"
  by (simp add: framed_def)

lemma framed_bound: "framed valid A s L \<Longrightarrow> (p, n) \<in> L \<Longrightarrow> 0 < n \<and> unat n + 16 < 2 ^ 32 \<and>
    cells (meta_of p) 16 s = AllocatorMetadata A n (magic_of s A)"
  by (auto simp: framed_def)

lemma untouched_whole:
  assumes "framed valid A s K" "untouched (whole_block ` L) s s'" "L \<subseteq> K"
  shows "untouched L s s'" "\<And>p n. (p, n) \<in> L \<Longrightarrow> cells (meta_of p) 16 s' = cells (meta_of p) 16 s"
proof -
  have c: "cells (meta_of p) (16 + unat n) s' = cells (meta_of p) (16 + unat n) s" if "(p, n) \<in> L" for p n
  proof -
    have "(meta_of p, n + 16) \<in> whole_block ` L" using that by (force simp: whole_block_def)
    then have "cells (meta_of p) (unat (n + 16)) s' = cells (meta_of p) (unat (n + 16)) s"
      using assms(2) unfolding untouched_def by blast
    then show ?thesis using unat_plus_16 [of n] framed_bound [OF assms(1), of p n] that assms(3) by auto
  qed
  then show "\<And>p n. (p, n) \<in> L \<Longrightarrow> cells (meta_of p) 16 s' = cells (meta_of p) 16 s" by (rule cells_framed)
  show "untouched L s s'" using cells_framed(2) [OF c] assms(2) by (auto simp: untouched_def)
qed

lemma framed_later:
  assumes "framed valid A s K" "untouched (whole_block ` L) s s'" "L \<subseteq> K" "valid s' (whole_block ` L)"
  shows "framed valid A s' L"
  unfolding framed_def
proof (intro conjI ballI)
  have m: "magic_of s' = magic_of s" using assms(2) by (simp add: untouched_def)
  show "valid s' (whole_block ` L)" by (rule assms(4))
  show "CynAllocMagicHeader (magic_of s' A) = CYN_ALLOCATOR_MAGIC0" using assms(1) m by (simp add: framed_def)
  fix b
  assume b: "b \<in> L"
  obtain p n where p: "b = (p, n)" by (cases b)
  then show "case b of (p, n) \<Rightarrow> 0 < n \<and> unat n + 16 < 2 ^ 32 \<and> cells (meta_of p) 16 s' = AllocatorMetadata A n (magic_of s' A)"
    using framed_bound [OF assms(1), of p n] untouched_whole(2) [OF assms(1-3), of p n] b assms(3) m by auto
qed

text \<open>Writing in one block leaves the others alone.\<close>

lemma cells_set_apart:
  assumes "block_bytes (p, n) \<inter> block_bytes (q, k) = {}" "length cs \<le> unat n" "m \<le> unat k"
  shows "cells q m (set_cells p cs s) = cells q m s"
proof (rule cells_set_other)
  have le: "int (length cs) \<le> uint n" "int m \<le> uint k"
    using of_nat_mono [OF assms(2), where 'a = int] of_nat_mono [OF assms(3), where 'a = int] by simp_all
  fix i
  assume i: "i < m"
  show "\<not> (fst q = fst p \<and> snd p \<le> snd q + int i \<and> snd q + int i < snd p + int (length cs))"
  proof
    assume a: "fst q = fst p \<and> snd p \<le> snd q + int i \<and> snd q + int i < snd p + int (length cs)"
    have "(fst q, snd q + int i) \<in> block_bytes (p, n) \<inter> block_bytes (q, k)"
      using a i le by (auto simp: block_bytes_def)
    then show False using assms(1) by blast
  qed
qed

context store_allocator
begin

lemma front_alloc:
  assumes "framed valid (a_self A) s L" and "good_front good n"
  shows "\<exists>p s'. Allocator_alloc (Some A) n s = Inr (p, s') \<and> untouched L s s' \<and>
    (p = Null \<and> framed valid (a_self A) s' L \<or> p \<noteq> Null \<and> (p, n) \<notin> L \<and> framed valid (a_self A) s' (insert (p, n) L))"
proof -
  let ?W = "whole_block ` L"
  have g: "0 < n" "unat n + 16 < 2 ^ 32" "good (n + 16)" using assms(2) by (auto simp: good_front_def)
  have v: "valid s ?W" using assms(1) by (simp add: framed_def)
  obtain p s1 where s1: "a_alloc A (n + 16) s = Inr (p, s1)" "untouched ?W s s1"
    "p = Null \<and> valid s1 ?W \<or> p \<noteq> Null \<and> (p, n + 16) \<notin> ?W \<and> valid s1 (insert (p, n + 16) ?W)"
    using alloc_law [OF v g(3)] by blast
  have n0: "n \<noteq> 0" using g(1) by auto
  show ?thesis
  proof (cases "p = Null")
    case True
    then have "framed valid (a_self A) s1 L" using framed_later [OF assms(1) s1(2)] s1(3) by simp
    then show ?thesis using untouched_whole(1) [OF assms(1) s1(2)] s1(1) True n0
      by (auto simp: Allocator_alloc_def or_default_def sizeof_meta_def)
  next
    case False
    then have new: "(p, n + 16) \<notin> ?W" "valid s1 (insert (p, n + 16) ?W)" using s1(3) by auto
    have u: "unat (n + 16) = 16 + unat n" by (rule unat_plus_16 [OF g(2)])
    have room: "in_object p (16 + unat n) s1" using room_law [OF new(2), of p "n + 16"] u by simp
    then have r16: "in_object p 16 s1" using in_object_part [of p "16 + unat n" s1 0 16] by simp
    let ?m = "AllocatorMetadata (a_self A) n (magic_of s1 (a_self A))"
    let ?s = "set_cells p ?m s1"
    have ne: "?m \<noteq> []" by (metis length_metadata(1) list.size(3) zero_neq_numeral)
    have w: "write_cells p ?m s1 = Inr ?s" using write_cells_ok [OF _ ne, of p s1] r16 by simp
    have v1: "valid ?s (insert (p, n + 16) ?W)" by (rule set_cells_law [OF new(2)])
    have apart: "cells q (unat k) ?s = cells q (unat k) s1" if "(q, k) \<in> ?W" for q k
    proof (rule cells_set_apart)
      have "(p, n + 16) \<noteq> (q, k)" using that new(1) by blast
      then show "block_bytes (p, n + 16) \<inter> block_bytes (q, k) = {}" using that by (intro apart_law [OF new(2)]) auto
    qed (simp_all add: u)
    have t: "untouched ?W s ?s" by (rule untouched_trans [OF s1(2) untouchedI]) (simp_all add: apart)
    have m: "magic_of ?s = magic_of s" using t by (simp add: untouched_def)
    have old: "cells (meta_of q) 16 ?s = AllocatorMetadata (a_self A) k (magic_of s (a_self A))" if "(q, k) \<in> L" for q k
      using untouched_whole(2) [OF assms(1) t subset_refl that] framed_bound [OF assms(1) that] by simp
    have e: "whole_block (mem_of p, n) = (p, n + 16)" by (simp add: whole_block_def)
    have "framed valid (a_self A) ?s (insert (mem_of p, n) L)"
      unfolding framed_def image_insert e
      using v1 assms(1) m g old cells_set_same [OF r16, of ?m] framed_bound [OF assms(1)]
      by (auto simp: framed_def)
    moreover have "(mem_of p, n) \<notin> L" using new(1) e by force
    moreover have "mem_of p \<noteq> Null" using in_object_not_null [OF in_object_part [OF room, of 16 "unat n"]] by (simp add: mem_of_def)
    moreover have "Allocator_alloc (Some A) n s = Inr (mem_of p, ?s)"
      using s1(1) w False n0 by (simp add: Allocator_alloc_def or_default_def sizeof_meta_def)
    ultimately show ?thesis using untouched_whole(1) [OF assms(1) t] by blast
  qed
qed

lemma front_dealloc:
  assumes "framed valid (a_self A) s L" and "(p, n) \<in> L"
  shows "\<exists>s'. Allocator_dealloc the_allocator p s = Inr s' \<and> untouched (L - {(p, n)}) s s' \<and>
    framed valid (a_self A) s' (L - {(p, n)})"
proof -
  have v: "valid s (whole_block ` L)" and h: "CynAllocMagicHeader (magic_of s (a_self A)) = CYN_ALLOCATOR_MAGIC0"
    using assms(1) by (auto simp: framed_def)
  have b: "unat n + 16 < 2 ^ 32" "cells (meta_of p) 16 s = AllocatorMetadata (a_self A) n (magic_of s (a_self A))"
    using framed_bound [OF assms] by auto
  have w: "(meta_of p, n + 16) \<in> whole_block ` L" using assms(2) by (force simp: whole_block_def)
  have r: "in_object (meta_of p) (16 + unat n) s" using room_law [OF v w] unat_plus_16 [OF b(1)] by simp
  then have "in_object (meta_of p) 16 s" using in_object_part [of "meta_of p" "16 + unat n" s 0 16] by simp
  note meta = metadata_parts [OF this b(2)]
  obtain s' where s': "a_dealloc A (meta_of p) (n + 16) s = Inr s'" "untouched (whole_block ` (L - {(p, n)})) s s'"
    "valid s' (whole_block ` (L - {(p, n)}))"
    using dealloc_law [OF v w] unfolding whole_block_image by (auto simp: whole_block_def)
  have "p \<noteq> Null" using r by (auto simp: in_object_def Null_def split: option.splits)
  then have "Allocator_dealloc the_allocator p s = Inr s'"
    using meta h s'(1) by (simp add: Allocator_dealloc_def owner_of_def self_law sizeof_meta_def Let_def)
  then show ?thesis
    using untouched_whole(1) [OF assms(1) s'(2)] framed_later [OF assms(1) s'(2) _ s'(3)] by (intro exI [of _ s']) simp
qed

end

sublocale store_allocator \<subseteq> front: block_store "framed valid (a_self A)" "good_front good" "Allocator_alloc (Some A)"
    "\<lambda>p n. Allocator_dealloc the_allocator p"
proof
  show "\<exists>p s'. Allocator_alloc (Some A) n s = Inr (p, s') \<and> untouched L s s' \<and>
      (p = Null \<and> framed valid (a_self A) s' L \<or> p \<noteq> Null \<and> (p, n) \<notin> L \<and> framed valid (a_self A) s' (insert (p, n) L))"
    if "framed valid (a_self A) s L" "good_front good n" for s L n
    using that by (rule front_alloc)
  show "\<exists>s'. Allocator_dealloc the_allocator p s = Inr s' \<and> untouched (L - {(p, n)}) s s' \<and>
      framed valid (a_self A) s' (L - {(p, n)})"
    if "framed valid (a_self A) s L" "(p, n) \<in> L" for s L p n
    using that by (rule front_dealloc)
  fix s :: CompilerHeap and L :: live and b c :: "addr \<times> u32"
  assume f: "framed valid (a_self A) s L" "b \<in> L" "c \<in> L" "b \<noteq> c"
  have "block_bytes (whole_block b) \<inter> block_bytes (whole_block c) = {}"
    using f by (intro apart_law [of s "whole_block ` L"]) (auto simp: framed_def whole_block_inj)
  moreover have "unat (snd b) + 16 < 2 ^ 32" "unat (snd c) + 16 < 2 ^ 32"
    using framed_bound [OF f(1), of "fst b" "snd b"] framed_bound [OF f(1), of "fst c" "snd c"] f(2,3) by auto
  ultimately show "block_bytes b \<inter> block_bytes c = {}" using block_bytes_whole [of b] block_bytes_whole [of c] by blast
qed


context store_allocator
begin

lemma front_room:
  assumes "framed valid (a_self A) s L" "(p, n) \<in> L"
  shows "in_object p (unat n) s"
proof -
  have "(meta_of p, n + 16) \<in> whole_block ` L" using assms(2) by (force simp: whole_block_def)
  then have "in_object (meta_of p) (unat (n + 16)) s" by (rule room_law [OF framedD [OF assms(1)]])
  then show ?thesis
    using framed_bound [OF assms] unat_plus_16 [of n] in_object_part [of "meta_of p" "16 + unat n" s 16 "unat n"]
    by (simp add: meta_of_def)
qed

lemma front_serves:
  assumes "framed valid (a_self A) s {}" "\<forall>n. Get n \<in> set rs \<longrightarrow> good_front good n"
  shows "\<exists>s' bs. serve_blocks (Allocator_alloc (Some A)) (\<lambda>p n. Allocator_dealloc the_allocator p) rs s [] = Inr (s', bs) \<and>
    separate bs \<and> framed valid (a_self A) s' (set bs) \<and> (\<forall>(p, n) \<in> set bs. in_object p (unat n) s') \<and>
    (\<forall>rs'. (\<forall>n. Get n \<in> set rs' \<longrightarrow> good_front good n) \<longrightarrow>
       (\<exists>s'' bs'. serve_blocks (Allocator_alloc (Some A)) (\<lambda>p n. Allocator_dealloc the_allocator p) rs' s' bs = Inr (s'', bs') \<and>
          separate bs' \<and> kept rs' s' bs s'' bs'))"
proof -
  have "framed valid (a_self A) s (set [])" using assms(1) by simp
  from front.serves [OF this distinct.simps(1) [THEN iffD2, OF TrueI] assms(2)] obtain s' bs where s':
    "serve_blocks (Allocator_alloc (Some A)) (\<lambda>p n. Allocator_dealloc the_allocator p) rs s [] = Inr (s', bs)"
    "framed valid (a_self A) s' (set bs)" "separate bs" by blast
  have "\<exists>s'' bs'. serve_blocks (Allocator_alloc (Some A)) (\<lambda>p n. Allocator_dealloc the_allocator p) rs' s' bs = Inr (s'', bs') \<and>
      separate bs' \<and> kept rs' s' bs s'' bs'"
    if r: "\<forall>n. Get n \<in> set rs' \<longrightarrow> good_front good n" for rs'
    using front.serves [OF s'(2) _ r] s'(3) by (auto simp: separate_def)
  moreover have "\<forall>(p, n) \<in> set bs. in_object p (unat n) s'" using front_room [OF s'(2)] by blast
  ultimately show ?thesis using s' by blast
qed

end

lemma magic_header: "CynAllocMagicHeader (CynAllocMagic (ucast (v :: u8))) = CYN_ALLOCATOR_MAGIC0"
proof -
  have "CYN_ALLOCATOR_MAGIC0 = take_bit 24 CYN_ALLOCATOR_MAGIC0" by (simp add: CYN_ALLOCATOR_MAGIC0_def take_bit_eq_mod)
  then have t: "bit CYN_ALLOCATOR_MAGIC0 i \<Longrightarrow> i < 24" for i by (metis bit_take_bit_iff)
  have u: "\<not> bit (ucast v :: u32) (8 + i)" for i using bit_u8_less [of v "8 + i"] by (auto simp: bit_simps)
  show ?thesis
    by (rule bit_word_eqI) (use t u in \<open>auto simp: CynAllocMagicHeader_def CynAllocMagic_def bit_simps\<close>)
qed

end
