(* ===== verification/Cyn_ArenaUse.thy ===== *)
theory Cyn_ArenaUse
  imports Cyn_BlockStore
begin

text \<open>
  The default allocator and the arena are allocators over blocks in memory, so the operations of
  \<^verbatim>\<open>src/allocator.c\<close> on them give disjoint blocks in memory that keep their contents.
\<close>

section \<open>The default allocator\<close>

definition fresh_above :: "'a Host_scheme \<Rightarrow> bool" where
  "fresh_above s \<longleftrightarrow> (\<forall>b \<ge> next_obj s. obj_size s b = None)"

definition default_valid :: "CompilerHeap \<Rightarrow> live \<Rightarrow> bool" where
  "default_valid s L \<longleftrightarrow> fresh_above s \<and> (\<forall>(p, n) \<in> L. \<exists>b. p = (Some b, 0) \<and> obj_size s b = Some (unat n))"

lemma default_validD: "default_valid s L \<Longrightarrow> (p, n) \<in> L \<Longrightarrow> \<exists>b. p = (Some b, 0) \<and> obj_size s b = Some (unat n)"
  by (auto simp: default_valid_def)

lemma default_validI:
  "fresh_above s \<Longrightarrow> (\<And>p n. (p, n) \<in> L \<Longrightarrow> \<exists>b. p = (Some b, 0) \<and> obj_size s b = Some (unat n)) \<Longrightarrow> default_valid s L"
  unfolding default_valid_def by (intro conjI ballI) (simp, simp add: split_beta)

lemma default_alloc_law:
  assumes "default_valid s L"
  shows "\<exists>p s'. defaultAlloc n s = Inr (p, s') \<and> untouched L s s' \<and>
    (p = Null \<and> default_valid s' L \<or> p \<noteq> Null \<and> (p, n) \<notin> L \<and> default_valid s' (insert (p, n) L))"
proof -
  let ?b = "next_obj s"
  have f: "obj_size s ?b = None" using assms by (simp add: default_valid_def fresh_above_def)
  have old: "\<exists>b. q = (Some b, 0) \<and> obj_size s b = Some (unat k) \<and> b \<noteq> ?b" if "(q, k) \<in> L" for q k
    using default_validD [OF assms that] f by (metis option.distinct(1))
  show ?thesis
  proof (cases "has_room s ?b (unat n)")
    case True
    let ?s = "s\<lparr>next_obj := Suc ?b, obj_size := (obj_size s)(?b \<mapsto> unat n), inflight := inflight s + n, nAllocs := nAllocs s + 1\<rparr>"
    have e: "defaultAlloc n s = Inr ((Some ?b, 0), ?s)" using True by (simp add: defaultAlloc_def host_malloc_def Null_def Let_def)
    have "((Some ?b, 0), n) \<notin> L" using old by fastforce
    moreover have "default_valid ?s (insert ((Some ?b, 0), n) L)"
    proof (rule default_validI)
      show "fresh_above ?s" using assms by (simp add: default_valid_def fresh_above_def)
      fix q k
      assume "(q, k) \<in> insert ((Some ?b, 0), n) L"
      then consider "q = (Some ?b, 0)" "k = n" | "(q, k) \<in> L" by blast
      then show "\<exists>b. q = (Some b, 0) \<and> obj_size ?s b = Some (unat k)"
      proof cases
        case 2
        then obtain b where "q = (Some b, 0)" "obj_size s b = Some (unat k)" "b \<noteq> ?b" using old by blast
        then show ?thesis by (intro exI [of _ b]) simp
      qed simp
    qed
    moreover have "untouched L s ?s" by (rule untouchedI, simp, rule cells_cong, simp)
    moreover have "(Some ?b, 0) \<noteq> Null" by (simp add: Null_def)
    ultimately show ?thesis unfolding e by blast
  next
    case False
    then have "defaultAlloc n s = Inr (Null, s\<lparr>next_obj := Suc ?b\<rparr>)" by (simp add: defaultAlloc_def host_malloc_def Let_def)
    moreover have "default_valid (s\<lparr>next_obj := Suc ?b\<rparr>) L" using assms by (auto simp: default_valid_def fresh_above_def)
    ultimately show ?thesis by (auto intro!: untouchedI intro: cells_cong)
  qed
qed

lemma default_dealloc_law:
  assumes "default_valid s L" "(p, n) \<in> L"
  shows "\<exists>s'. defaultDealloc p n s = Inr s' \<and> untouched (L - {(p, n)}) s s' \<and> default_valid s' (L - {(p, n)})"
proof -
  obtain b where b: "p = (Some b, 0)" "obj_size s b = Some (unat n)" using default_validD [OF assms] by blast
  let ?s = "s\<lparr>inflight := inflight s - n, nDeallocs := nDeallocs s + 1, obj_size := (obj_size s)(b := None)\<rparr>"
  have e: "defaultDealloc p n s = Inr ?s" using b by (simp add: defaultDealloc_def host_free_def host_object_def Null_def)
  have old: "\<exists>c. q = (Some c, 0) \<and> obj_size s c = Some (unat k) \<and> c \<noteq> b" if "(q, k) \<in> L - {(p, n)}" for q k
  proof -
    have q: "(q, k) \<in> L" "(q, k) \<noteq> (p, n)" using that by blast+
    obtain c where c: "q = (Some c, 0)" "obj_size s c = Some (unat k)" using default_validD [OF assms(1) q(1)] by blast
    have "c \<noteq> b"
    proof
      assume "c = b"
      then have "unat k = unat n" using b(2) c(2) by simp
      then have "k = n" by (simp only: word_unat_eq_iff)
      then show False using q(2) \<open>c = b\<close> b(1) c(1) by simp
    qed
    then show ?thesis using c by blast
  qed
  have "default_valid ?s (L - {(p, n)})"
  proof (rule default_validI)
    show "fresh_above ?s" using assms(1) by (simp add: default_valid_def fresh_above_def)
    fix q k
    assume "(q, k) \<in> L - {(p, n)}"
    then obtain c where "q = (Some c, 0)" "obj_size s c = Some (unat k)" "c \<noteq> b" using old by blast
    then show "\<exists>b. q = (Some b, 0) \<and> obj_size ?s b = Some (unat k)" by (intro exI [of _ c]) simp
  qed
  moreover have "untouched (L - {(p, n)}) s ?s" by (rule untouchedI, simp, rule cells_cong, simp)
  ultimately show ?thesis unfolding e by blast
qed

interpretation default_store: store_allocator default_valid "\<lambda>_. True" sDefaultAllocator
proof
  show "\<exists>p s'. a_alloc sDefaultAllocator n s = Inr (p, s') \<and> untouched L s s' \<and>
      (p = Null \<and> default_valid s' L \<or> p \<noteq> Null \<and> (p, n) \<notin> L \<and> default_valid s' (insert (p, n) L))"
    if "default_valid s L" for s L n
    using default_alloc_law [OF that] by (simp add: sDefaultAllocator_def)
  show "\<exists>s'. a_dealloc sDefaultAllocator p n s = Inr s' \<and> untouched (L - {(p, n)}) s s' \<and> default_valid s' (L - {(p, n)})"
    if "default_valid s L" "(p, n) \<in> L" for s L p n
    using default_dealloc_law [OF that] by (simp add: sDefaultAllocator_def)
  show "block_bytes b \<inter> block_bytes c = {}" if "default_valid s L" "b \<in> L" "c \<in> L" "b \<noteq> c" for s L and b c :: "addr \<times> u32"
  proof -
    note d = default_validD [OF that(1)]
    have bc: "(fst b, snd b) \<in> L" "(fst c, snd c) \<in> L" using that(2,3) by simp_all
    obtain i j where "fst b = (Some i, 0)" "obj_size s i = Some (unat (snd b))" "fst c = (Some j, 0)" "obj_size s j = Some (unat (snd c))"
      using d [OF bc(1)] d [OF bc(2)] by blast
    moreover from this have "i \<noteq> j" using that(4) by (metis option.inject prod.expand word_unat_eq_iff)
    ultimately show ?thesis by (auto simp: block_bytes_def)
  qed
  show "in_object p (unat n) s" if "default_valid s L" "(p, n) \<in> L" for s L p n
    using default_validD [OF that] by (auto simp: in_object_def)
  show "default_valid (s\<lparr>cell_at := c\<rparr>) L" if "default_valid s L" for s L c
    using that by (simp add: default_valid_def fresh_above_def)
  show "the_allocator (a_self sDefaultAllocator) = sDefaultAllocator" by (simp add: the_allocator_def sDefaultAllocator_def)
qed


section \<open>The arena\<close>

text \<open>A state with more objects.\<close>

definition grows :: "CompilerHeap \<Rightarrow> CompilerHeap \<Rightarrow> bool" where
  "grows s s' \<longleftrightarrow> next_obj s \<le> next_obj s' \<and> fresh_above s' \<and> has_room s' = has_room s \<and> magic_of s' = magic_of s \<and>
     sArena s' = sArena s \<and> sPoolAllocatorBlocks s' = sPoolAllocatorBlocks s \<and>
     (\<forall>b < next_obj s. obj_size s' b = obj_size s b \<and> cell_at s' b = cell_at s b)"

lemma grows_trans: "grows s s1 \<Longrightarrow> grows s1 s2 \<Longrightarrow> grows s s2"
  by (auto simp: grows_def)

lemma default_alloc_grows:
  assumes "fresh_above s" "\<And>b n. has_room s b n" "0 < n" "unat n + 16 < 2 ^ 32"
  shows "\<exists>s'. Allocator_alloc (Some sDefaultAllocator) n s = Inr ((Some (next_obj s), 16), s') \<and> grows s s' \<and>
    obj_size s' (next_obj s) = Some (16 + unat n) \<and> next_obj s' = Suc (next_obj s)"
proof -
  let ?b = "next_obj s"
  let ?s = "s\<lparr>next_obj := Suc ?b, obj_size := (obj_size s)(?b \<mapsto> 16 + unat n), inflight := inflight s + (n + 16), nAllocs := nAllocs s + 1\<rparr>"
  let ?m = "AllocatorMetadata DefaultAllocator n (magic_of s DefaultAllocator)"
  have a: "defaultAlloc (n + 16) s = Inr ((Some ?b, 0), ?s)"
    using assms(2) unat_plus_16 [OF assms(4)] by (simp add: defaultAlloc_def host_malloc_def Null_def Let_def)
  have i: "in_object (Some ?b, 0) 16 ?s" by (simp add: in_object_def)
  have ne: "?m \<noteq> []" by (metis length_metadata(1) list.size(3) zero_neq_numeral)
  have w: "write_cells (Some ?b, 0) ?m ?s = Inr (set_cells (Some ?b, 0) ?m ?s)"
    using write_cells_ok [OF _ ne] i by simp
  have n0: "n \<noteq> 0" using assms(3) by auto
  have e: "Allocator_alloc (Some sDefaultAllocator) n s = Inr ((Some ?b, 16), set_cells (Some ?b, 0) ?m ?s)"
    using a w n0 by (simp add: Allocator_alloc_def or_default_def sDefaultAllocator_def sizeof_meta_def Null_def mem_of_def shift_def)
  moreover have "grows s (set_cells (Some ?b, 0) ?m ?s)"
    using assms(1) by (simp add: grows_def fresh_above_def) (simp add: set_cells_def)
  ultimately show ?thesis by simp
qed

lemma default_cAlloc_grows:
  assumes "fresh_above s" "\<And>b n. has_room s b n"
  shows "\<exists>s'. Allocator_cAlloc (Some sDefaultAllocator) 1 32 s = Inr ((Some (next_obj s), 16), s') \<and> grows s s'"
proof -
  let ?b = "next_obj s" and ?c = "replicate 48 (Raw 0)"
  let ?s1 = "s\<lparr>next_obj := Suc ?b, obj_size := (obj_size s)(?b \<mapsto> 48)\<rparr>"
  let ?s = "(set_cells (Some ?b, 0) ?c ?s1)\<lparr>inflight := inflight s + 48, nAllocs := nAllocs s + 1\<rparr>"
  let ?m = "AllocatorMetadata DefaultAllocator 1 (magic_of s DefaultAllocator)"
  have f: "inflight (set_cells p cs s') = inflight s'" "nAllocs (set_cells p cs s') = nAllocs s'" for p cs and s' :: CompilerHeap
    by (simp_all add: set_cells_def split: option.split)
  have a: "defaultCAlloc 1 48 s = Inr ((Some ?b, 0), ?s)"
    using assms(2) by (simp add: defaultCAlloc_def host_calloc_def host_malloc_def Null_def Let_def f)
  have i: "in_object (Some ?b, 0) 16 ?s" by (simp add: in_object_def)
  have ne: "?m \<noteq> []" by (metis length_metadata(1) list.size(3) zero_neq_numeral)
  have w: "write_cells (Some ?b, 0) ?m ?s = Inr (set_cells (Some ?b, 0) ?m ?s)"
    using write_cells_ok [OF _ ne] i by simp
  have "Allocator_cAlloc (Some sDefaultAllocator) 1 32 s = Inr ((Some ?b, 16), set_cells (Some ?b, 0) ?m ?s)"
    using a w by (simp add: Allocator_cAlloc_def or_default_def sDefaultAllocator_def sizeof_meta_def Null_def mem_of_def shift_def)
  moreover have "grows s (set_cells (Some ?b, 0) ?m ?s)"
    using assms(1) by (simp add: grows_def fresh_above_def) (simp add: set_cells_def)
  ultimately show ?thesis by blast
qed

definition region_ok :: "CompilerHeap \<Rightarrow> ArenaAllocatorRegion \<Rightarrow> bool" where
  "region_ok s r \<longleftrightarrow> (\<exists>b. rg_data r = (Some b, 16) \<and> obj_size s b = Some (16 + unat (rg_size r))) \<and>
     rg_current r \<le> rg_size r \<and> unat (rg_size r) + 16 < 2 ^ 32 \<and> 8 dvd uint (rg_current r)"

text \<open>A block in the used part of a region.\<close>

definition piece :: "ArenaAllocatorRegion \<Rightarrow> addr \<times> u32 \<Rightarrow> bool" where
  "piece r b \<longleftrightarrow> fst (fst b) = fst (rg_data r) \<and> 16 \<le> snd (fst b) \<and> 8 dvd snd (fst b) \<and>
     snd (fst b) + uint (snd b) \<le> 16 + uint (rg_current r)"

definition arena_valid :: "CompilerHeap \<Rightarrow> live \<Rightarrow> bool" where
  "arena_valid s L \<longleftrightarrow>
     fresh_above s \<and> (\<forall>b n. has_room s b n) \<and> sArena s \<noteq> [] \<and> (\<forall>r \<in> set (sArena s). region_ok s r) \<and>
     distinct (map (\<lambda>r. fst (rg_data r)) (sArena s)) \<and>
     (\<forall>b \<in> L. 0 < snd b \<and> (\<exists>r \<in> set (sArena s). piece r b)) \<and>
     (\<forall>b \<in> L. \<forall>c \<in> L. b \<noteq> c \<longrightarrow> block_bytes b \<inter> block_bytes c = {})"

definition arena_good :: "u32 \<Rightarrow> bool" where
  "arena_good n \<longleftrightarrow> 0 < n \<and> unat n + 32 < 2 ^ 32"

lemma arena_scan_Some:
  "arena_scan n rs = Some (p, rs') \<Longrightarrow> \<exists>xs r ys. rs = xs @ r # ys \<and> n < rg_size r - rg_current r \<and>
     p = shift (uint (rg_current r)) (rg_data r) \<and>
     rs' = xs @ r\<lparr>rg_current := rg_current r + n, rg_allocs := rg_allocs r + 1\<rparr> # ys"
proof (induction rs arbitrary: rs')
  case (Cons r rs)
  show ?case
  proof (cases "rg_size r - rg_current r > n")
    case True
    then show ?thesis using Cons.prems by (intro exI [of _ "[]"]) auto
  next
    case False
    then obtain rs1 where "arena_scan n rs = Some (p, rs1)" "rs' = r # rs1" using Cons.prems by auto
    then show ?thesis using Cons.IH by (metis append_Cons)
  qed
qed simp

lemma align_law:
  assumes "arena_good n"
  shows "n \<le> CynAlign n 8" "8 dvd uint (CynAlign n 8)" "unat (CynAlign n 8) + 16 < 2 ^ 32" "0 < CynAlign n 8"
proof -
  have u: "unat (CynAlign n 8) = (unat n + 7) div 8 * 8" using assms by (intro unat_CynAlign_8) (simp add: arena_good_def)
  show l: "n \<le> CynAlign n 8" unfolding word_le_nat_alt u by presburger
  have "8 dvd unat (CynAlign n 8)" unfolding u by simp
  then have "int 8 dvd int (unat (CynAlign n 8))" by (simp only: int_dvd_int_iff)
  then show "8 dvd uint (CynAlign n 8)" by simp
  show "unat (CynAlign n 8) + 16 < 2 ^ 32"
    using assms div_times_less_eq_dividend [of "unat n + 7" 8] unfolding arena_good_def u by linarith
  show "0 < CynAlign n 8" using l assms unfolding arena_good_def by auto
qed

lemma region_bound: "fresh_above s \<Longrightarrow> region_ok s r \<Longrightarrow> \<exists>b < next_obj s. fst (rg_data r) = Some b"
  by (metis fresh_above_def fst_conv linorder_not_less option.distinct(1) region_ok_def)


lemma arena_validD:
  assumes "arena_valid s L"
  shows "fresh_above s" "has_room s b n" "sArena s \<noteq> []" "r \<in> set (sArena s) \<Longrightarrow> region_ok s r"
    "distinct (map (\<lambda>r. fst (rg_data r)) (sArena s))" "b' \<in> L \<Longrightarrow> 0 < snd b'" "b' \<in> L \<Longrightarrow> \<exists>r \<in> set (sArena s). piece r b'"
    "b' \<in> L \<Longrightarrow> c \<in> L \<Longrightarrow> b' \<noteq> c \<Longrightarrow> block_bytes b' \<inter> block_bytes c = {}"
  using assms unfolding arena_valid_def by blast+

text \<open>Taking the free part of a region from its start.\<close>

lemma arena_take:
  assumes "arena_valid s L" "sArena s = xs @ r # ys" "m \<le> rg_size r - rg_current r" "8 dvd uint m" "n \<le> m" "0 < n"
  defines "p \<equiv> shift (uint (rg_current r)) (rg_data r)"
  shows "p \<noteq> Null" "(p, n) \<notin> L"
    "arena_valid (s\<lparr>sArena := xs @ r\<lparr>rg_current := rg_current r + m, rg_allocs := a\<rparr> # ys, arena_used := w\<rparr>) (insert (p, n) L)"
proof -
  note d = arena_validD [OF assms(1)]
  have r: "r \<in> set (sArena s)" using assms(2) by simp
  from d(4) [OF r] obtain b where b: "rg_data r = (Some b, 16)" "obj_size s b = Some (16 + unat (rg_size r))"
    and c: "rg_current r \<le> rg_size r" "unat (rg_size r) + 16 < 2 ^ 32" "8 dvd uint (rg_current r)"
    by (auto simp: region_ok_def)
  have "uint (rg_size r - rg_current r) = uint (rg_size r) - uint (rg_current r)" 
    using c(1) by (simp add: word_le_def uint_sub_lem)
  then have m: "uint m \<le> uint (rg_size r) - uint (rg_current r)" using assms(3) by (simp add: word_le_def)
  have um: "uint (rg_current r + m) = uint (rg_current r) + uint m"
    using m uint_lt2p [of "rg_size r"] by (simp add: uint_word_ariths)
  have un: "0 < uint n" "uint n \<le> uint m" using assms(5,6) by (simp_all add: word_less_def word_le_def)
  have p: "p = (Some b, 16 + uint (rg_current r))" using b by (simp add: p_def shift_def add.commute)
  then show nn: "p \<noteq> Null" by (simp add: Null_def)
  let ?r = "r\<lparr>rg_current := rg_current r + m, rg_allocs := a\<rparr>"
  let ?s = "s\<lparr>sArena := xs @ ?r # ys, arena_used := w\<rparr>"
  have rd: "distinct (map (\<lambda>r. fst (rg_data r)) (xs @ r # ys))" using d(5) unfolding assms(2) .
  have same: "r' = r" if "r' \<in> set (sArena s)" "fst (rg_data r') = fst (rg_data r)" for r'
    using rd that unfolding assms(2) by (auto simp: image_iff)
  have apart: "block_bytes (p, n) \<inter> block_bytes q = {}" if "q \<in> L" for q
  proof -
    obtain r' where r': "r' \<in> set (sArena s)" "piece r' q" using d(7) [OF \<open>q \<in> L\<close>] by blast
    show ?thesis
    proof (cases "r' = r")
      case True
      then show ?thesis using r'(2) by (auto simp: block_bytes_def piece_def p)
    next
      case False
      then have "fst (rg_data r') \<noteq> Some b" using same [OF r'(1)] b(1) by auto
      then show ?thesis using r'(2) by (auto simp: block_bytes_def piece_def p)
    qed
  qed
  show new: "(p, n) \<notin> L"
  proof
    assume "(p, n) \<in> L"
    then have "block_bytes (p, n) = {}" using apart by blast
    moreover have "p \<in> block_bytes (p, n)" using un by (simp add: block_bytes_def)
    ultimately show False by blast
  qed
  show "arena_valid ?s (insert (p, n) L)"
    unfolding arena_valid_def
  proof (intro conjI)
    show "fresh_above ?s" using d(1) by (simp add: fresh_above_def)
    show "\<forall>b n. has_room ?s b n" using d(2) by simp
    show "sArena ?s \<noteq> []" by simp
    have "region_ok ?s ?r" using b c m um assms(4) by (auto simp: region_ok_def word_le_def)
    moreover have "region_ok ?s r'" if "r' \<in> set (sArena s)" for r' using d(4) [OF that] by (simp add: region_ok_def)
    ultimately show "\<forall>r \<in> set (sArena ?s). region_ok ?s r" using assms(2) by auto
    show "distinct (map (\<lambda>r. fst (rg_data r)) (sArena ?s))" using rd by simp
    have "piece ?r (p, n)" using b c um un by (simp add: piece_def p)
    moreover have "\<exists>r' \<in> set (sArena ?s). piece r' q" if "q \<in> L" for q
    proof -
      obtain r' where r': "r' \<in> set (sArena s)" "piece r' q" using d(7) [OF \<open>q \<in> L\<close>] by blast
      show ?thesis
      proof (cases "r' = r")
        case True
        then have "piece ?r q" using r'(2) um un by (simp add: piece_def)
        then show ?thesis by simp
      next
        case False
        then show ?thesis using r' assms(2) by auto
      qed
    qed
    ultimately show "\<forall>b \<in> insert (p, n) L. 0 < snd b \<and> (\<exists>r \<in> set (sArena ?s). piece r b)" using d(6) assms(6) by simp
    show "\<forall>b \<in> insert (p, n) L. \<forall>c \<in> insert (p, n) L. b \<noteq> c \<longrightarrow> block_bytes b \<inter> block_bytes c = {}"
      using apart d(8) by (metis Int_commute insert_iff)
  qed
qed

text \<open>A new region.\<close>

lemma arena_region:
  assumes "arena_valid s L" "grows s s'" "region_ok s' r" "next_obj s \<le> b" "fst (rg_data r) = Some b" 
  shows "arena_valid (s'\<lparr>sArena := sArena s @ [r], arena_regions := x, arena_size := y\<rparr>) L"
    (is "arena_valid ?s L")
  unfolding arena_valid_def
proof (intro conjI)
  note d = arena_validD [OF assms(1)]
  show "fresh_above ?s" using assms(2) by (simp add: fresh_above_def grows_def)
  show "\<forall>b n. has_room ?s b n" using assms(2) d(2) by (simp add: grows_def)
  show "sArena ?s \<noteq> []" by simp
  have "region_ok ?s q" if "q \<in> set (sArena s)" for q
    using d(4) [OF that] region_bound [OF d(1) d(4) [OF that]] assms(2) by (auto simp: region_ok_def grows_def)
  then show "\<forall>r \<in> set (sArena ?s). region_ok ?s r" using assms(3) by (simp add: region_ok_def)
  have "fst (rg_data q) \<noteq> Some b" if "q \<in> set (sArena s)" for q
    using region_bound [OF d(1) d(4) [OF that]] assms(4) by auto
  then have "Some b \<notin> (\<lambda>r. fst (rg_data r)) ` set (sArena s)" by (metis (mono_tags) imageE)
  then show "distinct (map (\<lambda>r. fst (rg_data r)) (sArena ?s))" using d(5) assms(5) by simp
  show "\<forall>b \<in> L. 0 < snd b \<and> (\<exists>r \<in> set (sArena ?s). piece r b)" using d(6,7) by fastforce
  show "\<forall>b \<in> L. \<forall>c \<in> L. b \<noteq> c \<longrightarrow> block_bytes b \<inter> block_bytes c = {}" using d(8) by blast
qed

lemma grows_untouched:
  assumes "arena_valid s L" "grows s s'"
  shows "untouched L s s'"
proof (rule untouchedI)
  note d = arena_validD [OF assms(1)]
  show "magic_of s' = magic_of s" using assms(2) by (simp add: grows_def)
  fix p n
  assume l: "(p, n) \<in> L"
  obtain r where r: "r \<in> set (sArena s)" "piece r (p, n)" using d(7) [OF l] by blast
  obtain b where "b < next_obj s" "fst p = Some b" using region_bound [OF d(1) d(4) [OF r(1)]] r(2) by (auto simp: piece_def)
  then show "cells p (unat n) s' = cells p (unat n) s" using assms(2) by (simp add: cells_def grows_def)
qed

lemma arena_alloc_law:
  assumes "arena_valid s L" "arena_good n"
  shows "\<exists>p s'. ArenaAllocator_alloc n s = Inr (p, s') \<and> untouched L s s' \<and> p \<noteq> Null \<and> (p, n) \<notin> L \<and> arena_valid s' (insert (p, n) L)"
proof -
  let ?m = "CynAlign n 8"
  note d = arena_validD [OF assms(1)]
  note a = align_law [OF assms(2)]
  have n: "0 < n" using assms(2) by (simp add: arena_good_def)
  show ?thesis
  proof (cases "arena_scan ?m (sArena s)")
    case (Some res)
    obtain p rs where res: "res = (p, rs)" by (cases res)
    obtain xs r ys where r: "sArena s = xs @ r # ys" "?m < rg_size r - rg_current r" "p = shift (uint (rg_current r)) (rg_data r)"
      "rs = xs @ r\<lparr>rg_current := rg_current r + ?m, rg_allocs := rg_allocs r + 1\<rparr> # ys"
      using arena_scan_Some [OF Some [unfolded res]] by blast
    let ?s = "s\<lparr>sArena := rs, arena_used := arena_used s + ucast ?m\<rparr>"
    have "ArenaAllocator_alloc n s = Inr (p, ?s)" by (simp add: ArenaAllocator_alloc_def Some res Let_def)
    moreover have "untouched L s ?s" by (rule untouchedI, simp, rule cells_cong, simp)
    ultimately show ?thesis
      using arena_take [OF assms(1) r(1) less_imp_le [OF r(2)] a(2,1) n] unfolding r(3,4) by blast
  next
    case None
    obtain s1 where s1: "Allocator_cAlloc (Some sDefaultAllocator) 1 32 s = Inr ((Some (next_obj s), 16), s1)" "grows s s1"
      using default_cAlloc_grows [OF d(1,2)] by blast
    let ?k = "max (rg_size (hd (sArena s))) ?m"
    have g1: "fresh_above s1" "\<And>b n. has_room s1 b n" "sArena s1 = sArena s" using s1(2) d(2) by (simp_all add: grows_def)
    have "unat (rg_size (hd (sArena s))) + 16 < 2 ^ 32" using d(4) [of "hd (sArena s)"] d(3) by (simp add: region_ok_def)
    then have k: "0 < ?k" "unat ?k + 16 < 2 ^ 32" using a(3,4) by (auto simp: max_def)
    obtain s2 where s2: "Allocator_alloc (Some sDefaultAllocator) ?k s1 = Inr ((Some (next_obj s1), 16), s2)" "grows s1 s2"
      "obj_size s2 (next_obj s1) = Some (16 + unat ?k)"
      using default_alloc_grows [OF g1(1,2) k] by blast
    let ?r = "zero_region\<lparr>rg_size := ?k, rg_current := 0, rg_data := (Some (next_obj s1), 16)\<rparr>"
    let ?s2 = "s2\<lparr>sArena := sArena s @ [?r], arena_regions := arena_regions s2 + 1, arena_size := arena_size s2 + ucast ?k\<rparr>"
    have g: "grows s s2" by (rule grows_trans [OF s1(2) s2(2)])
    have ok: "region_ok s2 ?r" using s2(3) k by (simp add: region_ok_def)
    have v: "arena_valid ?s2 L"
      using s1(2) by (intro arena_region [OF assms(1) g ok, of "next_obj s1"]) (simp_all add: grows_def)
    have l: "?m \<le> rg_size ?r - rg_current ?r" by simp
    let ?p = "(Some (next_obj s1), 16) :: addr"
    let ?s = "?s2\<lparr>sArena := sArena s @ ?r\<lparr>rg_current := rg_current ?r + ?m, rg_allocs := rg_allocs ?r + 1\<rparr> # [],
      arena_used := arena_used s2 + ucast ?m\<rparr>"
    have take: "?p \<noteq> Null" "(?p, n) \<notin> L" "arena_valid ?s (insert (?p, n) L)"
      using arena_take [OF v _ l a(2,1) n, where xs = "sArena s" and ys = "[]"] by (simp_all add: shift_def)
    have "untouched L s s2" by (rule grows_untouched [OF assms(1) g])
    moreover have "untouched L s2 ?s" by (rule untouchedI, simp, rule cells_cong, simp)
    moreover have "ArenaAllocator_alloc n s = Inr (?p, ?s)"
      using None s1(1) s2(1) s2(2) g1(3) by (simp add: ArenaAllocator_alloc_def ArenaRegion_Init_def Null_def grows_def Let_def)
    ultimately show ?thesis using take untouched_trans by blast
  qed
qed


interpretation arena_store: store_allocator arena_valid arena_good sArenaAllocator
proof
  show "\<exists>p s'. a_alloc sArenaAllocator n s = Inr (p, s') \<and> untouched L s s' \<and>
      (p = Null \<and> arena_valid s' L \<or> p \<noteq> Null \<and> (p, n) \<notin> L \<and> arena_valid s' (insert (p, n) L))"
    if "arena_valid s L" "arena_good n" for s L n
    using arena_alloc_law [OF that] by (auto simp: sArenaAllocator_def)
  show "\<exists>s'. a_dealloc sArenaAllocator p n s = Inr s' \<and> untouched (L - {(p, n)}) s s' \<and> arena_valid s' (L - {(p, n)})"
    if "arena_valid s L" "(p, n) \<in> L" for s L p n
    using that by (auto simp: sArenaAllocator_def ArenaAllocator_dealloc_def arena_valid_def)
  show "block_bytes b \<inter> block_bytes c = {}" if "arena_valid s L" "b \<in> L" "c \<in> L" "b \<noteq> c" for s L b c
    using arena_validD(8) [OF that] .
  show "in_object p (unat n) s" if "arena_valid s L" "(p, n) \<in> L" for s L p n
  proof -
    note v = that
    obtain r where r: "r \<in> set (sArena s)" "piece r (p, n)" using arena_validD(7) [OF v] by blast
    have "uint (rg_current r) \<le> uint (rg_size r)" using arena_validD(4) [OF that(1) r(1)] by (simp add: region_ok_def word_le_def)
    then show ?thesis using arena_validD(4) [OF that(1) r(1)] r(2) by (auto simp: region_ok_def in_object_def piece_def)
  qed
  show "arena_valid (s\<lparr>cell_at := c\<rparr>) L" if "arena_valid s L" for s L c
    using that by (simp add: arena_valid_def fresh_above_def region_ok_def)
  show "the_allocator (a_self sArenaAllocator) = sArenaAllocator" by (simp add: the_allocator_def sArenaAllocator_def)
qed

definition no_arena :: "CompilerHeap \<Rightarrow> bool" where
  "no_arena s \<longleftrightarrow> fresh_above s \<and> (\<forall>b n. has_room s b n) \<and> \<not> arena_set s \<and> sArena s = [zero_region]"

lemma ArenaAllocator_Init_law:
  assumes "no_arena s" "0 < n" "unat n + 16 < 2 ^ 32"
  shows "\<exists>s'. ArenaAllocator_Init n s = Inr s' \<and> framed arena_valid ArenaAllocator s' {}"
proof -
  let ?s = "Allocator_init ArenaAllocator (s\<lparr>arena_set := True\<rparr>)"
  have g: "fresh_above ?s" "\<And>b n. has_room ?s b n" "sArena ?s = [zero_region]"
    using assms(1) by (auto simp: no_arena_def Allocator_init_def fresh_above_def)
  obtain s1 where s1: "Allocator_alloc (Some sDefaultAllocator) n ?s = Inr ((Some (next_obj ?s), 16), s1)" "grows ?s s1"
    "obj_size s1 (next_obj ?s) = Some (16 + unat n)"
    using default_alloc_grows [OF g(1,2) assms(2,3)] by blast
  let ?r = "zero_region\<lparr>rg_size := n, rg_current := 0, rg_data := (Some (next_obj ?s), 16)\<rparr>"
  let ?s1 = "s1\<lparr>arena_regions := arena_regions s1 + 1, arena_size := arena_size s1 + ucast n, sArena := [?r]\<rparr>"
  have "ArenaAllocator_Init n s = Inr ?s1"
    using assms(1) s1(1,2) g(3) by (simp add: ArenaAllocator_Init_def ArenaRegion_Init_def no_arena_def grows_def)
  moreover have "arena_valid ?s1 {}"
    using s1(2,3) g(2) assms(3) by (simp add: arena_valid_def region_ok_def grows_def fresh_above_def)
  moreover have "magic_of s1 ArenaAllocator = CynAllocMagic (ucast (sAllocId s))"
    using s1(2) by (simp add: grows_def Allocator_init_def)
  ultimately show ?thesis by (simp add: framed_def magic_header)
qed

text \<open>
  C23. Allocation and release through the default allocator, for sizes that are not zero and leave room for the metadata: every sequence of requests is
  served to the end, whether or not the host has memory. The blocks that a client holds do not overlap and lie in memory,
  and after any further sequence of allocations and releases a block that was not given back is still held, with the same contents.
\<close>

theorem Allocator_default_serves:
  assumes "fresh_above (s :: CompilerHeap)" and "magic_of s DefaultAllocator = CynAllocMagic 0"
    and "\<forall>n. Get n \<in> set rs \<longrightarrow> 0 < n \<and> unat n + 16 < 2 ^ 32"
  shows "\<exists>s' bs. serve_blocks (Allocator_alloc (Some sDefaultAllocator)) (\<lambda>p n. Allocator_dealloc the_allocator p) rs s [] = Inr (s', bs) \<and>
    separate bs \<and> (\<forall>(p, n) \<in> set bs. in_object p (unat n) s') \<and>
    (\<forall>rs'. (\<forall>n. Get n \<in> set rs' \<longrightarrow> 0 < n \<and> unat n + 16 < 2 ^ 32) \<longrightarrow>
       (\<exists>s'' bs'. serve_blocks (Allocator_alloc (Some sDefaultAllocator)) (\<lambda>p n. Allocator_dealloc the_allocator p) rs' s' bs = Inr (s'', bs') \<and>
          separate bs' \<and> kept rs' s' bs s'' bs'))"
proof -
  have g: "good_front (\<lambda>_. True) = (\<lambda>n. 0 < n \<and> unat n + 16 < 2 ^ 32)" by (rule ext) (simp add: good_front_def)
  have "framed default_valid (a_self sDefaultAllocator) s {}"
    using assms(1,2) magic_header [of 0] by (simp add: framed_def default_valid_def sDefaultAllocator_def)
  from default_store.front_serves [OF this, unfolded g, OF assms(3)] show ?thesis by blast
qed

text \<open>
  C22. The same through the arena, after its initialisation and on a host that has memory; the blocks
  are moreover aligned to eight bytes. Without memory the arena would follow a null pointer.
\<close>

theorem Allocator_arena_serves:
  assumes "no_arena s" and "0 < k" and "unat k + 16 < 2 ^ 32" and "\<forall>n. Get n \<in> set rs \<longrightarrow> 0 < n \<and> unat n + 48 < 2 ^ 32"
  shows "\<exists>s1 s' bs. ArenaAllocator_Init k s = Inr s1 \<and>
    serve_blocks (Allocator_alloc (Some sArenaAllocator)) (\<lambda>p n. Allocator_dealloc the_allocator p) rs s1 [] = Inr (s', bs) \<and>
    separate bs \<and> (\<forall>(p, n) \<in> set bs. in_object p (unat n) s' \<and> 8 dvd snd p) \<and>
    (\<forall>rs'. (\<forall>n. Get n \<in> set rs' \<longrightarrow> 0 < n \<and> unat n + 48 < 2 ^ 32) \<longrightarrow>
       (\<exists>s'' bs'. serve_blocks (Allocator_alloc (Some sArenaAllocator)) (\<lambda>p n. Allocator_dealloc the_allocator p) rs' s' bs = Inr (s'', bs') \<and>
          separate bs' \<and> kept rs' s' bs s'' bs'))"
proof -
  have g: "good_front arena_good = (\<lambda>n. 0 < n \<and> unat n + 48 < 2 ^ 32)"
  proof
    fix n :: u32
    have "0 < n + 16 \<and> unat (n + 16) + 32 < 2 ^ 32 \<longleftrightarrow> unat n + 48 < 2 ^ 32" if "unat n + 16 < 2 ^ 32"
      using unat_plus_16 [OF that] by (auto simp: word_less_nat_alt)
    then show "good_front arena_good n = (0 < n \<and> unat n + 48 < 2 ^ 32)" by (auto simp: good_front_def arena_good_def)
  qed
  obtain s1 where s1: "ArenaAllocator_Init k s = Inr s1" "framed arena_valid (a_self sArenaAllocator) s1 {}"
    using ArenaAllocator_Init_law [OF assms(1-3)] by (auto simp: sArenaAllocator_def)
  have al: "8 dvd snd p" if "framed arena_valid (a_self sArenaAllocator) s' (set bs)" "(p, n) \<in> set bs" for s' bs p n
  proof -
    have "whole_block (p, n) \<in> whole_block ` set bs" using that(2) by blast
    from arena_validD(7) [OF framedD [OF that(1)] this] obtain r where "piece r (whole_block (p, n))" by blast
    then have "8 dvd snd p - 16 + 16" unfolding piece_def by (intro dvd_add) (simp_all add: whole_block_def meta_of_def shift_def)
    then show ?thesis by simp
  qed
  from arena_store.front_serves [OF s1(2), unfolded g, OF assms(4)] show ?thesis using s1(1) al by blast
qed


text \<open>An example.\<close>

definition new_heap :: CompilerHeap where
  "new_heap = \<lparr>next_obj = 0, obj_size = (\<lambda>_. None), cell_at = (\<lambda>_ _. Raw 0), has_room = (\<lambda>_ _. True), nAllocs = 0, nDeallocs = 0,
     inflight = 0, sAllocId = 1, magic_of = (\<lambda>_. 0)(DefaultAllocator := CynAllocMagic 0), arena_set = False, sArena = [zero_region],
     arena_regions = 0, arena_size = 0, arena_used = 0, pool_set = False, sPoolAllocatorBlocks = replicate NUMBER_OF_POOLS zero_block\<rparr>"

theorem Allocator_default_serves_witness:
  "\<exists>s' bs. serve_blocks (Allocator_alloc (Some sDefaultAllocator)) (\<lambda>p n. Allocator_dealloc the_allocator p)
     [Get 24, Get 8, Put 0, Get 1] new_heap [] = Inr (s', bs) \<and> separate bs"
  using Allocator_default_serves [of new_heap "[Get 24, Get 8, Put 0, Get 1]"] by (auto simp: fresh_above_def new_heap_def)

theorem Allocator_arena_serves_witness:
  "\<exists>s1 s' bs. ArenaAllocator_Init 64 new_heap = Inr s1 \<and>
     serve_blocks (Allocator_alloc (Some sArenaAllocator)) (\<lambda>p n. Allocator_dealloc the_allocator p)
       [Get 24, Get 100, Put 0] s1 [] = Inr (s', bs) \<and> separate bs"
  using Allocator_arena_serves [of new_heap 64 "[Get 24, Get 100, Put 0]"] by (auto simp: no_arena_def fresh_above_def new_heap_def)

end
