(* ===== verification/Cyn_PoolUse.thy ===== *)
theory Cyn_PoolUse
  imports Cyn_ArenaUse
begin

unbundle bit_operations_syntax

text \<open>
  The pools of \<^verbatim>\<open>src/compiler/common/heap.c\<close>: rounding to powers of two, the pool of a size, and the contract
  \<open>block_store\<close>. The last segment of every pool reaches out of its memory, and it is the first that is given
  to a client, so the pools are no \<open>store_allocator\<close>.
\<close>

section \<open>Powers of two and pools\<close>

lemma bit_smear_step:
  fixes v w :: u32
  assumes "\<And>j. bit w j \<longleftrightarrow> (\<exists>d<m. bit v (j + d))"
  shows "bit (w OR drop_bit m w) j \<longleftrightarrow> (\<exists>d<2 * m. bit v (j + d))"
proof -
  have "bit (w OR drop_bit m w) j \<longleftrightarrow> (\<exists>d<m. bit v (j + d)) \<or> (\<exists>d<m. bit v (j + (m + d)))"
    by (simp add: bit_simps assms ac_simps)
  also have "\<dots> \<longleftrightarrow> (\<exists>d<2 * m. bit v (j + d))"
  proof
    assume "\<exists>d<2 * m. bit v (j + d)"
    then obtain d where d: "d < 2 * m" "bit v (j + d)" by blast
    show "(\<exists>d<m. bit v (j + d)) \<or> (\<exists>d<m. bit v (j + (m + d)))"
    proof (cases "d < m")
      case False
      then show ?thesis using d by (intro disjI2 exI [of _ "d - m"]) auto
    qed (use d in blast)
  next
    assume "(\<exists>d<m. bit v (j + d)) \<or> (\<exists>d<m. bit v (j + (m + d)))"
    then consider d where "d < m" "bit v (j + d)" | d where "d < m" "bit v (j + (m + d))" by blast
    then show "\<exists>d<2 * m. bit v (j + d)"
    proof cases
      case 1
      then show ?thesis by (intro exI [of _ d]) simp
    next
      case 2
      then show ?thesis by (intro exI [of _ "m + d"]) simp
    qed
  qed
  finally show ?thesis .
qed

lemma np2_smear:
  fixes v :: u32
  assumes "unat v < 2 ^ k" "v \<noteq> 0 \<Longrightarrow> 2 ^ (k - 1) \<le> unat v" "v = 0 \<Longrightarrow> k = 0"
  shows "np2 (v + 1) = mask k + 1"
proof -
  define v1 where "v1 = v OR drop_bit 1 v"
  define v2 where "v2 = v1 OR drop_bit 2 v1"
  define v3 where "v3 = v2 OR drop_bit 4 v2"
  define v4 where "v4 = v3 OR drop_bit 8 v3"
  define v5 where "v5 = v4 OR drop_bit 16 v4"
  have b1: "bit v1 j \<longleftrightarrow> (\<exists>d<2. bit v (j + d))" for j
    using bit_smear_step [of v 1 v j] by (simp add: v1_def)
  have b2: "bit v2 j \<longleftrightarrow> (\<exists>d<4. bit v (j + d))" for j
    using bit_smear_step [of v1 2 v j] b1 by (simp add: v2_def)
  have b3: "bit v3 j \<longleftrightarrow> (\<exists>d<8. bit v (j + d))" for j
    using bit_smear_step [of v2 4 v j] b2 by (simp add: v3_def)
  have b4: "bit v4 j \<longleftrightarrow> (\<exists>d<16. bit v (j + d))" for j
    using bit_smear_step [of v3 8 v j] b3 by (simp add: v4_def)
  have b5: "bit v5 j \<longleftrightarrow> (\<exists>d<32. bit v (j + d))" for j
    using bit_smear_step [of v4 16 v j] b4 by (simp add: v5_def)
  have no: "\<not> bit v i" if "k \<le> i" for i
  proof -
    have "unat v < 2 ^ i" using assms(1) that by (meson less_le_trans one_le_numeral power_increasing)
    then have "\<not> bit (unat v) i" by (simp add: bit_iff_odd)
    then show ?thesis by (simp add: bit_simps)
  qed
  have "v5 = mask k"
  proof (rule bit_word_eqI)
    fix j
    assume j: "j < LENGTH(32)"
    show "bit v5 j \<longleftrightarrow> bit (mask k :: u32) j"
    proof (cases "j < k")
      case True
      then have "v \<noteq> 0" using assms(3) by auto
      then have "unat v div 2 ^ (k - 1) = 1"
        using assms(1,2) True by (cases k) (auto intro: div_nat_eqI)
      then have "bit (unat v) (k - 1)" by (simp add: bit_iff_odd)
      then have "bit v (j + (k - 1 - j))" using True by (simp add: bit_simps)
      moreover have "k - 1 - j < 32" using calculation bit_imp_le_length [of v "k - 1"] True by simp
      ultimately show ?thesis using b5 j True by (auto simp: bit_mask_iff)
    next
      case False
      then show ?thesis using b5 no by (auto simp: bit_mask_iff)
    qed
  qed
  then show ?thesis by (simp add: np2_def Let_def v1_def v2_def v3_def v4_def v5_def)
qed

lemma np2_power:
  fixes v :: u32
  assumes "1 \<le> unat v" "unat v \<le> 2 ^ 31"
  shows "\<exists>k \<le> 31. np2 v = 2 ^ k \<and> unat v \<le> 2 ^ k \<and> (0 < k \<longrightarrow> 2 ^ (k - 1) < unat v)"
proof -
  let ?v = "v - 1"
  have u: "unat ?v = unat v - 1" using assms(1) by (metis One_nat_def Suc_leD unat_1 unat_minus_one unat_eq_zero not_one_le_zero)
  show ?thesis
  proof (cases "?v = 0")
    case True
    then have "v = 1" by simp
    moreover have "np2 (0 + 1) = mask 0 + 1" by (rule np2_smear) auto
    ultimately show ?thesis by (intro exI [of _ 0]) simp
  next
    case False
    then have "1 \<le> unat ?v" by (metis One_nat_def Suc_leI neq0_conv unat_eq_zero)
    then obtain i where i: "2 ^ i \<le> unat ?v" "unat ?v < 2 ^ (i + 1)" using ex_power_ivl1 [of 2 "unat ?v"] by auto
    have lt: "(2 :: nat) ^ i < 2 ^ 31" using i(1) u assms by linarith
    have "i < 31" using lt by (rule power_less_imp_less_exp [rotated]) simp
    moreover have "np2 (?v + 1) = mask (i + 1) + 1" using i False by (intro np2_smear) auto
    then have "np2 v = 2 ^ (i + 1)" by (simp add: mask_eq_exp_minus_1)
    moreover have "unat v \<le> 2 ^ (i + 1)" "2 ^ i < unat v" using i u assms(1) by linarith+
    ultimately show ?thesis by (intro exI [of _ "i + 1"]) simp
  qed
qed

lemma n21_power: "k < 32 \<Longrightarrow> n21 (2 ^ k) = of_nat k"
proof -
  have "\<forall>k \<in> set [0..<32]. n21 (2 ^ k) = of_nat k" by code_simp
  then show "k < 32 \<Longrightarrow> n21 (2 ^ k) = of_nat k" by simp
qed

lemma pool_index_law:
  assumes "1 \<le> unat n" "unat n < 4096"
  defines "i \<equiv> unat (pool_index n)"
  shows "i \<le> 8" "np2 (max 16 n) = 2 ^ (i + 4)" "unat n \<le> 2 ^ (i + 4)" "16 < unat n \<Longrightarrow> 2 ^ (i + 3) < unat n"
    "i < 8 \<longleftrightarrow> unat n \<le> 2048"
proof -
  let ?v = "max 16 n"
  have v: "unat ?v = max 16 (unat n)" by (simp add: max_def word_le_nat_alt)
  have r: "1 \<le> unat ?v" "unat ?v \<le> 2 ^ 31" using v assms(2) by simp_all
  obtain k where k: "k \<le> 31" "np2 ?v = 2 ^ k" "unat ?v \<le> 2 ^ k" "0 < k \<longrightarrow> 2 ^ (k - 1) < unat ?v"
    using np2_power [OF r] by blast
  have "(2 :: nat) ^ 4 \<le> 2 ^ k" using k(3) v by auto
  then have k4: "4 \<le> k" using power_increasing_iff [of "2 :: nat" 4 k] by simp
  have "(2 :: nat) ^ (k - 1) < 2 ^ 12" using k(4) k4 v assms(2) by auto
  then have k12: "k \<le> 12" using power_strict_increasing_iff [of "2 :: nat" "k - 1" 12] by simp
  have "pool_index n = of_nat k - 4" using n21_power [of k] k by (simp add: pool_index_def)
  then have "pool_index n = of_nat (k - 4)" using k4 by simp
  then have i: "i = k - 4" using k12 unfolding i_def by (simp add: unsigned_of_nat take_bit_nat_eq_self)
  then have ki: "k = i + 4" using k4 by simp
  show "i \<le> 8" using i k12 by simp
  show "np2 ?v = 2 ^ (i + 4)" using k(2) ki by simp
  show "unat n \<le> 2 ^ (i + 4)" using k(3) ki v by simp
  show h: "2 ^ (i + 3) < unat n" if "16 < unat n" using k(4) ki v that by (simp add: add.commute)
  show "i < 8 \<longleftrightarrow> unat n \<le> 2048"
  proof
    assume "i < 8"
    then have "(2 :: nat) ^ (i + 4) \<le> 2 ^ 11" by (intro power_increasing) auto
    then show "unat n \<le> 2048" using k(3) ki v by simp
  next
    assume l: "unat n \<le> 2048"
    show "i < 8"
    proof (rule ccontr)
      assume "\<not> i < 8"
      then have "(2 :: nat) ^ 11 \<le> 2 ^ (i + 3)" by (intro power_increasing) auto
      moreover have "2 ^ (i + 3) < max 16 (unat n)" using k(4) ki v by (simp add: add.commute)
      ultimately show False using l by simp
    qed
  qed
qed


section \<open>Segments\<close>

definition pool_step :: "nat \<Rightarrow> nat" where "pool_step i = 2 ^ (i + 4) + 16"

definition pool_count :: "nat \<Rightarrow> nat" where
  "pool_count i = (POOL_BLOCK_SIZE + (pool_step i - 1)) div pool_step i"

definition segment :: "nat \<Rightarrow> addr \<Rightarrow> nat \<Rightarrow> addr" where
  "segment i d j = shift (8 + int (j * pool_step i)) d"

lemma less_8_cases: "i < 8 \<longleftrightarrow> i = 0 \<or> i = 1 \<or> i = 2 \<or> i = 3 \<or> i = 4 \<or> i = 5 \<or> i = 6 \<or> i = (7 :: nat)"
  by auto

lemma pool_counts:
  assumes "i < 8"
  shows "0 < pool_count i" "pool_count i \<le> 1024" "(pool_count i - 1) * pool_step i \<le> 32736"
    "32768 < 24 + (pool_count i - 1) * pool_step i + 2 ^ (i + 4)"
  using assms unfolding less_8_cases by (auto simp: pool_count_def pool_step_def POOL_BLOCK_SIZE_def)

lemma pool_step_pos: "0 < pool_step i"
  by (simp add: pool_step_def)

lemma below_count: "j * pool_step i < POOL_BLOCK_SIZE \<longleftrightarrow> j < pool_count i"
proof -
  have "j < pool_count i \<longleftrightarrow> Suc j * pool_step i \<le> POOL_BLOCK_SIZE + (pool_step i - 1)"
    unfolding pool_count_def Suc_le_eq [symmetric] using pool_step_pos by (simp add: less_eq_div_iff_mult_less_eq)
  also have "\<dots> \<longleftrightarrow> j * pool_step i < POOL_BLOCK_SIZE" using pool_step_pos [of i] by simp linarith
  finally show ?thesis by simp
qed

lemma segment_inj: "segment i d j = segment i d k \<longleftrightarrow> j = k"
  using pool_step_pos [of i] by (auto simp: segment_def shift_def)

lemma fst_segment [simp]: "fst (segment i d j) = fst d"
  by (simp add: segment_def shift_def)

lemma fill_segments_law:
  assumes "vec_ok (pb_free block)" "elems (pb_free block) = map (segment i (pb_data block)) [0..<j]" "j \<le> pool_count i" "i < 8"
  shows "\<exists>v n. fill_segments (2 ^ (i + 4)) (j * pool_step i) block = Inr (block\<lparr>pb_free := v, pb_segments := n\<rparr>) \<and> vec_ok v \<and>
    elems v = map (segment i (pb_data block)) [0..<pool_count i]"
  using assms
proof (induction "pool_count i - j" arbitrary: j block)
  case 0
  then have "j = pool_count i" by simp
  then show ?case using 0 below_count [of j i] by (intro exI [of _ "pb_free block"] exI [of _ "pb_segments block"])
      (simp add: fill_segments.simps [of _ "_ * _"])
next
  case (Suc m)
  then have j: "j < pool_count i" by simp
  have "vlen (pb_free block) = int j" using length_elems [OF Suc.prems(1)] Suc.prems(2) by simp
  then have "vlen (pb_free block) < 2 ^ 30" using j pool_counts(2) [OF Suc.prems(4)] by simp
  then obtain v where v: "Vector_push no_cell (segment i (pb_data block) j) (pb_free block) = Some v" "vec_ok v"
    "elems v = elems (pb_free block) @ [segment i (pb_data block) j]"
    using push_ok [OF Suc.prems(1)] by blast
  let ?b = "block\<lparr>pb_segments := pb_segments block + 1, pb_free := v\<rparr>"
  have "elems v = map (segment i (pb_data ?b)) [0..<Suc j]" using v(3) Suc.prems(2) by simp
  moreover have "m = pool_count i - Suc j" using Suc.hyps(2) by simp
  ultimately have "\<exists>w n. fill_segments (2 ^ (i + 4)) (Suc j * pool_step i) ?b = Inr (?b\<lparr>pb_free := w, pb_segments := n\<rparr>) \<and> vec_ok w \<and>
      elems w = map (segment i (pb_data ?b)) [0..<pool_count i]"
    using v(2) j Suc.prems(4) by (intro Suc.hyps(1)) simp_all
  then obtain w n where w: "fill_segments (2 ^ (i + 4)) (Suc j * pool_step i) ?b = Inr (?b\<lparr>pb_free := w, pb_segments := n\<rparr>)"
    "vec_ok w" "elems w = map (segment i (pb_data block)) [0..<pool_count i]" by auto
  have "fill_segments (2 ^ (i + 4)) (j * pool_step i) block = fill_segments (2 ^ (i + 4)) (Suc j * pool_step i) ?b"
    using v(1) j below_count [of j i]
    by (subst fill_segments.simps) (simp add: of_vec_def segment_def pool_step_def add.commute add.left_commute)
  then show ?case using w by (intro exI [of _ w] exI [of _ n]) simp
qed

definition block_new :: "CompilerHeap \<Rightarrow> nat \<Rightarrow> PoolAllocatorBlock \<Rightarrow> bool" where
  "block_new s i block \<longleftrightarrow> (\<exists>b. pb_data block = (Some b, 16) \<and> obj_size s b = Some 32768) \<and> vec_ok (pb_free block) \<and>
     elems (pb_free block) = map (segment i (pb_data block)) [0..<pool_count i]"

lemma block_init_law:
  assumes "fresh_above s" "\<And>b n. has_room s b n" "i < 8"
  shows "\<exists>block' s'. PoolAllocatorBlock_Init block (2 ^ (i + 4)) s = Inr (block', s') \<and> grows s s' \<and> block_new s' i block' \<and>
    fst (pb_data block') = Some (next_obj s) \<and> next_obj s' = Suc (next_obj s)"
proof -
  let ?n = "int (POOL_BLOCK_SIZE div (2 ^ (i + 4) + 16)) + 1"
  have n: "?n \<le> 32769" by (simp add: POOL_BLOCK_SIZE_def div_le_dividend)
  have e: "vec_ok Vector_init" "elems Vector_init = []" by (simp_all add: vec_ok_def Vector_init_def INT_MAX_def elems_def)
  have b: "vlen Vector_init \<le> ?n" "vlen Vector_init + ?n \<le> INT_MAX" using n by (simp_all add: Vector_init_def INT_MAX_def)
  obtain v where v: "Vector_reserve no_cell ?n Vector_init = Some v" "vec_ok v" "elems v = []"
    using reserve_ok [OF e(1) b, of no_cell] unfolding e(2) by blast
  obtain s' where s': "Allocator_alloc (Some sDefaultAllocator) 32752 s = Inr ((Some (next_obj s), 16), s')" "grows s s'"
    "obj_size s' (next_obj s) = Some 32768" "next_obj s' = Suc (next_obj s)"
    using default_alloc_grows [of s 32752] assms(1,2) by auto
  let ?b = "block\<lparr>pb_free := v, pb_size := of_nat (2 ^ (i + 4) + 16), pb_data := (Some (next_obj s), 16)\<rparr>"
  obtain w k where w: "fill_segments (2 ^ (i + 4)) 0 ?b = Inr (?b\<lparr>pb_free := w, pb_segments := k\<rparr>)" "vec_ok w"
    "elems w = map (segment i (Some (next_obj s), 16)) [0..<pool_count i]"
    using fill_segments_law [of ?b i 0] v assms(3) by auto
  have sz: "of_nat POOL_BLOCK_SIZE - sizeof_meta = 32752" by (simp add: POOL_BLOCK_SIZE_def sizeof_meta_def)
  have "PoolAllocatorBlock_Init block (2 ^ (i + 4)) s = Inr (?b\<lparr>pb_free := w, pb_segments := k\<rparr>, s')"
    unfolding PoolAllocatorBlock_Init_def sz v(1) using s'(1) w(1) by (simp add: of_vec_def Null_def)
  then show ?thesis using s'(2-4) w(2,3) by (simp add: block_new_def)
qed


lemma block_new_grows:
  assumes "fresh_above s" "block_new s i block" "grows s s'"
  shows "block_new s' i block"
proof -
  obtain b where b: "pb_data block = (Some b, 16)" "obj_size s b = Some 32768" using assms(2) by (auto simp: block_new_def)
  then have "b < next_obj s" using assms(1) by (cases "b < next_obj s") (auto simp: fresh_above_def)
  then have "obj_size s' b = Some 32768" using assms(3) b(2) by (simp add: grows_def)
  then show ?thesis using assms(2) b(1) by (simp add: block_new_def)
qed

lemma init_blocks_law:
  assumes "fresh_above s" "\<And>b n. has_room s b n" "i + length blocks \<le> 8"
  shows "\<exists>blocks' s'. init_blocks i blocks s = Inr (blocks', s') \<and> grows s s' \<and> length blocks' = length blocks \<and>
    (\<forall>k < length blocks. block_new s' (i + k) (blocks' ! k) \<and> (\<exists>b \<ge> next_obj s. fst (pb_data (blocks' ! k)) = Some b)) \<and>
    distinct (map (\<lambda>b. fst (pb_data b)) blocks')"
  using assms
proof (induction blocks arbitrary: i s)
  case Nil
  then show ?case by (simp add: grows_def)
next
  case (Cons block blocks)
  have i: "i < 8" using Cons.prems(3) by simp
  obtain b1 s1 where s1: "PoolAllocatorBlock_Init block (2 ^ (i + 4)) s = Inr (b1, s1)" "grows s s1" "block_new s1 i b1"
    "fst (pb_data b1) = Some (next_obj s)" "next_obj s1 = Suc (next_obj s)"
    using block_init_law [OF Cons.prems(1,2) i] by blast
  have f: "fresh_above s1" "\<And>b n. has_room s1 b n" using s1(2) Cons.prems(2) by (simp_all add: grows_def)
  have l: "Suc i + length blocks \<le> 8" using Cons.prems(3) by simp
  obtain bs s2 where s2: "init_blocks (Suc i) blocks s1 = Inr (bs, s2)" "grows s1 s2" "length bs = length blocks"
    "\<forall>k < length blocks. block_new s2 (Suc i + k) (bs ! k) \<and> (\<exists>b \<ge> next_obj s1. fst (pb_data (bs ! k)) = Some b)"
    "distinct (map (\<lambda>b. fst (pb_data b)) bs)"
    using Cons.IH [OF f l] by blast
  have "block_new s2 (i + k) ((b1 # bs) ! k) \<and> (\<exists>b \<ge> next_obj s. fst (pb_data ((b1 # bs) ! k)) = Some b)"
    if "k < length (block # blocks)" for k
  proof (cases k)
    case 0
    then show ?thesis using block_new_grows [OF f(1) s1(3) s2(2)] s1(4) by simp
  next
    case (Suc m)
    then have "m < length blocks" using \<open>k < length (block # blocks)\<close> by simp
    then obtain b where "block_new s2 (Suc i + m) (bs ! m)" "next_obj s1 \<le> b" "fst (pb_data (bs ! m)) = Some b"
      using s2(4) by blast
    then show ?thesis using s1(5) Suc by (intro conjI exI [of _ b]) simp_all
  qed
  moreover have "fst (pb_data b1) \<notin> (\<lambda>b. fst (pb_data b)) ` set bs"
  proof
    assume "fst (pb_data b1) \<in> (\<lambda>b. fst (pb_data b)) ` set bs"
    then obtain k where "k < length bs" "fst (pb_data b1) = fst (pb_data (bs ! k))" by (auto simp: in_set_conv_nth)
    then obtain b where "next_obj s1 \<le> b" "fst (pb_data b1) = Some b" using s2(3,4) by metis
    then show False using s1(4,5) by simp
  qed
  moreover have "init_blocks i (block # blocks) s = Inr (b1 # bs, s2)" using s1(1) s2(1) by simp
  ultimately show ?case using s2(3,5) grows_trans [OF s1(2) s2(2)]
    by (intro exI [of _ "b1 # bs"] exI [of _ s2] conjI) simp_all
qed

section \<open>The pools as a store of blocks\<close>

definition pool_good :: "u32 \<Rightarrow> bool" where
  "pool_good n \<longleftrightarrow> 0 < n \<and> n \<le> 2048"

definition pool_of :: "u32 \<Rightarrow> nat" where "pool_of n = unat (pool_index n)"

definition segments_of :: "CompilerHeap \<Rightarrow> nat \<Rightarrow> addr set" where
  "segments_of s i = segment i (pb_data (sPoolAllocatorBlocks s ! i)) ` {..<pool_count i}"

definition free_of :: "CompilerHeap \<Rightarrow> nat \<Rightarrow> addr list" where
  "free_of s i = elems (pb_free (sPoolAllocatorBlocks s ! i))"

definition pool_valid :: "CompilerHeap \<Rightarrow> live \<Rightarrow> bool" where
  "pool_valid s L \<longleftrightarrow>
     length (sPoolAllocatorBlocks s) = NUMBER_OF_POOLS \<and>
     (\<forall>i < NUMBER_OF_POOLS. \<exists>b. pb_data (sPoolAllocatorBlocks s ! i) = (Some b, 16) \<and> obj_size s b = Some 32768) \<and>
     distinct (map (\<lambda>b. fst (pb_data b)) (sPoolAllocatorBlocks s)) \<and>
     (\<forall>i < NUMBER_OF_POOLS. vec_ok (pb_free (sPoolAllocatorBlocks s ! i)) \<and> distinct (free_of s i) \<and>
        set (free_of s i) \<subseteq> segments_of s i) \<and>
     (\<forall>b \<in> L. pool_good (snd b) \<and> fst b \<in> segments_of s (pool_of (snd b)) - set (free_of s (pool_of (snd b)))) \<and>
     inj_on fst L"

lemma pool_of_law:
  assumes "pool_good n"
  shows "pool_of n < 8" "uint n \<le> 2 ^ (pool_of n + 4)" "np2 (max 16 n) = 2 ^ (pool_of n + 4)"
proof -
  have n: "1 \<le> unat n" "unat n < 4096" "unat n \<le> 2048"
    using assms by (auto simp: pool_good_def word_le_nat_alt word_less_nat_alt)
  note l = pool_index_law [OF n(1,2)]
  show "pool_of n < 8" "np2 (max 16 n) = 2 ^ (pool_of n + 4)" using l(2,5) n(3) by (simp_all add: pool_of_def)
  have "int (unat n) \<le> int (2 ^ (pool_of n + 4))" using l(3) unfolding pool_of_def by (simp only: of_nat_le_iff)
  then show "uint n \<le> 2 ^ (pool_of n + 4)" by simp
qed

lemma pool_validD:
  assumes "pool_valid s L"
  shows "length (sPoolAllocatorBlocks s) = 8"
    "i < 8 \<Longrightarrow> \<exists>b. pb_data (sPoolAllocatorBlocks s ! i) = (Some b, 16) \<and> obj_size s b = Some 32768"
    "distinct (map (\<lambda>b. fst (pb_data b)) (sPoolAllocatorBlocks s))"
    "i < 8 \<Longrightarrow> vec_ok (pb_free (sPoolAllocatorBlocks s ! i))" "i < 8 \<Longrightarrow> distinct (free_of s i)"
    "i < 8 \<Longrightarrow> set (free_of s i) \<subseteq> segments_of s i"
    "(p, n) \<in> L \<Longrightarrow> pool_good n" "(p, n) \<in> L \<Longrightarrow> p \<in> segments_of s (pool_of n)" "(p, n) \<in> L \<Longrightarrow> p \<notin> set (free_of s (pool_of n))"
    "inj_on fst L"
  using assms unfolding pool_valid_def NUMBER_OF_POOLS_def by (blast | force)+

lemma segments_apart:
  assumes "pool_valid s L" "p \<in> segments_of s i" "p \<in> segments_of s j" "i < 8" "j < 8"
  shows "i = j"
proof -
  note d = pool_validD [OF assms(1)]
  have e: "fst p = map (\<lambda>b. fst (pb_data b)) (sPoolAllocatorBlocks s) ! k" if "p \<in> segments_of s k" "k < 8" for k
    using that d(1) by (auto simp: segments_of_def)
  show ?thesis using e [OF assms(2,4)] e [OF assms(3,5)] d(1,3) assms(4,5) by (simp add: distinct_conv_nth) metis
qed

text \<open>Replacing the free list of one pool.\<close>

lemma pool_valid_upd:
  assumes "pool_valid s L" "i < 8" "vec_ok v" "distinct (elems v)" "set (elems v) \<subseteq> segments_of s i" "inj_on fst K"
    and "\<And>p n. (p, n) \<in> K \<Longrightarrow> pool_good n \<and> p \<in> segments_of s (pool_of n) \<and>
      p \<notin> (if pool_of n = i then set (elems v) else set (free_of s (pool_of n)))"
  shows "pool_valid (s\<lparr>sPoolAllocatorBlocks := (sPoolAllocatorBlocks s)[i := (sPoolAllocatorBlocks s ! i)\<lparr>pb_allocs := a, pb_deallocs := e, pb_free := v\<rparr>]\<rparr>) K"
    (is "pool_valid ?s K")
proof -
  note d = pool_validD [OF assms(1)]
  let ?B = "sPoolAllocatorBlocks s" and ?C = "sPoolAllocatorBlocks ?s"
  have data: "pb_data (?C ! k) = pb_data (?B ! k)" for k
    using assms(2) d(1) by (simp add: nth_list_update) 
  have free: "pb_free (?C ! k) = (if k = i then v else pb_free (?B ! k))" if "k < 8" for k
    using assms(2) d(1) that by (simp add: nth_list_update)
  have segs: "segments_of ?s k = segments_of s k" for k by (simp only: segments_of_def data)
  have fr: "free_of ?s k = (if k = i then elems v else free_of s k)" if "k < 8" for k
    unfolding free_of_def free [OF that] by simp
  have m: "map (\<lambda>b. fst (pb_data b)) ?C = map (\<lambda>b. fst (pb_data b)) ?B"
    using data by (intro nth_equalityI) (simp_all add: map_equality_iff)
  have k: "pool_good n \<and> p \<in> segments_of ?s (pool_of n) - set (free_of ?s (pool_of n))" if "(p, n) \<in> K" for p n
    using assms(7) [OF that] fr [of "pool_of n"] pool_of_law(1) [of n] segs by (auto split: if_splits)
  show ?thesis
    unfolding pool_valid_def NUMBER_OF_POOLS_def
  proof (intro conjI allI impI ballI)
    show "length ?C = 8" using d(1) by simp
    show "\<exists>b. pb_data (?C ! k) = (Some b, 16) \<and> obj_size ?s b = Some 32768" if "k < 8" for k
      using d(2) [OF that] data [of k] by simp
    show "distinct (map (\<lambda>b. fst (pb_data b)) ?C)" unfolding m by (rule d(3))
    fix k :: nat
    assume k8: "k < 8"
    show "vec_ok (pb_free (?C ! k))" using free [OF k8] assms(3) d(4) [OF k8] by simp
    show "distinct (free_of ?s k)" using fr [OF k8] assms(4) d(5) [OF k8] by simp
    show "set (free_of ?s k) \<subseteq> segments_of ?s k" using fr [OF k8] assms(5) d(6) [OF k8] segs by simp
  next
    fix b
    assume "b \<in> K"
    then show "pool_good (snd b)" "fst b \<in> segments_of ?s (pool_of (snd b)) - set (free_of ?s (pool_of (snd b)))"
      using k [of "fst b" "snd b"] by simp_all
  qed (rule assms(6))
qed


lemma pool_block_law: "pool_valid s L \<Longrightarrow> pool_good n \<Longrightarrow> pool_block n s = Inr (pool_of n, sPoolAllocatorBlocks s ! pool_of n)"
  using pool_validD(1) pool_of_law(1) [of n] by (simp add: pool_block_def pool_of_def Let_def)

lemma segment_not_null: "pool_valid s L \<Longrightarrow> p \<in> segments_of s i \<Longrightarrow> i < 8 \<Longrightarrow> p \<noteq> Null"
  using pool_validD(2) [of s L i] by (auto simp: segments_of_def segment_def shift_def Null_def)

lemma length_free:
  assumes "pool_valid s L" "i < 8"
  shows "vlen (pb_free (sPoolAllocatorBlocks s ! i)) = int (length (free_of s i))" "length (free_of s i) \<le> 1024"
proof -
  note d = pool_validD [OF assms(1)]
  show "vlen (pb_free (sPoolAllocatorBlocks s ! i)) = int (length (free_of s i))"
    using length_elems [OF d(4) [OF assms(2)]] by (simp add: free_of_def)
  have "card (set (free_of s i)) \<le> card (segments_of s i)" using d(6) [OF assms(2)] by (intro card_mono) (simp_all add: segments_of_def)
  also have "\<dots> \<le> pool_count i" using card_image_le [of "{..<pool_count i}"] by (simp add: segments_of_def)
  finally show "length (free_of s i) \<le> 1024" using distinct_card [OF d(5) [OF assms(2)]] pool_counts(2) [OF assms(2)] by simp
qed

text \<open>The segment at the end of the list of free ones is taken.\<close>

lemma pool_alloc_law:
  assumes "pool_valid s L" "pool_good n"
  shows "if free_of s (pool_of n) = [] then PoolAllocator_alloc n s = Inr (Null, s)
    else \<exists>s'. PoolAllocator_alloc n s = Inr (last (free_of s (pool_of n)), s') \<and> untouched L s s' \<and>
      obj_size s' = obj_size s \<and> (last (free_of s (pool_of n)), n) \<notin> L \<and> last (free_of s (pool_of n)) \<noteq> Null \<and>
      pool_valid s' (insert (last (free_of s (pool_of n)), n) L)"
proof -
  let ?i = "pool_of n" and ?F = "free_of s (pool_of n)"
  let ?b = "sPoolAllocatorBlocks s ! ?i"
  note d = pool_validD [OF assms(1)]
  have i: "?i < 8" by (rule pool_of_law(1) [OF assms(2)])
  have n: "n \<noteq> 0" "\<not> 4096 \<le> n" using assms(2) by (auto simp: pool_good_def word_le_nat_alt)
  have len: "vlen (pb_free ?b) = int (length ?F)" by (rule length_free(1) [OF assms(1) i])
  show ?thesis
  proof (cases "?F = []")
    case True
    then show ?thesis using n len by (simp add: PoolAllocator_alloc_def pool_block_law [OF assms])
  next
    case False
    let ?p = "last ?F"
    obtain v where v: "Vector_pop (pb_free ?b) = Some (?p, v)" "vec_ok v" "elems v = butlast ?F"
      using pop_ok [OF d(4) [OF i]] False unfolding free_of_def by blast
    let ?s = "s\<lparr>sPoolAllocatorBlocks := (sPoolAllocatorBlocks s)[?i := ?b\<lparr>pb_allocs := pb_allocs ?b + 1, pb_free := v\<rparr>]\<rparr>"
    have F: "?F = butlast ?F @ [?p]" using False by simp
    have dF: "distinct (butlast ?F @ [?p])" using d(5) [OF i] F by simp
    then have dist: "distinct (butlast ?F)" "?p \<notin> set (butlast ?F)" by simp_all
    have "set ?F = insert ?p (set (butlast ?F))" using arg_cong [OF F, of set] by simp
    then have sub: "set (butlast ?F) \<subseteq> set ?F" "?p \<in> set ?F" by auto
    have seg: "?p \<in> segments_of s ?i" "set (elems v) \<subseteq> segments_of s ?i" using sub d(6) [OF i] v(3) by auto
    have other: "q \<noteq> ?p" if "(q, k) \<in> L" for q k
    proof
      assume q: "q = ?p"
      then have "?p \<in> segments_of s (pool_of k)" using d(8) [OF that] by simp
      then have "pool_of k = ?i" using segments_apart [OF assms(1) _ seg(1) _ i] pool_of_law(1) [OF d(7) [OF that]] by blast
      then show False using d(9) [OF that] sub(2) q by simp
    qed
    have new: "(?p, n) \<notin> L" using other by blast
    have "?p \<notin> fst ` L"
    proof
      assume "?p \<in> fst ` L"
      then obtain k where "(?p, k) \<in> L" by (metis imageE prod.collapse)
      then show False using other by blast
    qed
    then have inj: "inj_on fst (insert (?p, n) L)" using d(10) new by (simp add: inj_on_insert)
    have "pool_valid (s\<lparr>sPoolAllocatorBlocks := (sPoolAllocatorBlocks s)[?i := ?b\<lparr>pb_allocs := pb_allocs ?b + 1,
        pb_deallocs := pb_deallocs ?b, pb_free := v\<rparr>]\<rparr>) (insert (?p, n) L)"
    proof (rule pool_valid_upd [OF assms(1) i v(2) _ seg(2) inj])
      show "distinct (elems v)" using dist v(3) by simp
      fix q k
      assume "(q, k) \<in> insert (?p, n) L"
      then consider "q = ?p" "k = n" | "(q, k) \<in> L" by blast
      then show "pool_good k \<and> q \<in> segments_of s (pool_of k) \<and>
          q \<notin> (if pool_of k = ?i then set (elems v) else set (free_of s (pool_of k)))"
      proof cases
        case 1
        then show ?thesis using assms(2) seg dist v(3) by simp
      next
        case 2
        then show ?thesis using d(7,8,9) [OF 2] sub(1) v(3) by auto
      qed
    qed
    then have "pool_valid ?s (insert (?p, n) L)" by simp
    moreover have "PoolAllocator_alloc n s = Inr (?p, ?s)"
      using n len False v(1) by (simp add: PoolAllocator_alloc_def pool_block_law [OF assms] of_vec_def)
    moreover have "untouched L s ?s" by (rule untouchedI, simp, rule cells_cong, simp)
    ultimately show ?thesis using False new segment_not_null [OF assms(1) seg(1) i] by auto
  qed
qed

lemma pool_dealloc_law:
  assumes "pool_valid s L" "(p, n) \<in> L"
  shows "\<exists>s'. PoolAllocator_dealloc p n s = Inr s' \<and> untouched (L - {(p, n)}) s s' \<and> pool_valid s' (L - {(p, n)})"
proof -
  let ?i = "pool_of n" and ?F = "free_of s (pool_of n)"
  let ?b = "sPoolAllocatorBlocks s ! ?i"
  note d = pool_validD [OF assms(1)]
  have g: "pool_good n" by (rule d(7) [OF assms(2)])
  have i: "?i < 8" by (rule pool_of_law(1) [OF g])
  have "vlen (pb_free ?b) < 2 ^ 30" using length_free [OF assms(1) i] by simp
  then obtain v where v: "Vector_push no_cell p (pb_free ?b) = Some v" "vec_ok v" "elems v = ?F @ [p]"
    using push_ok [OF d(4) [OF i]] unfolding free_of_def by blast
  let ?s = "s\<lparr>sPoolAllocatorBlocks := (sPoolAllocatorBlocks s)[?i := ?b\<lparr>pb_deallocs := pb_deallocs ?b + 1, pb_free := v\<rparr>]\<rparr>"
  have "pool_valid (s\<lparr>sPoolAllocatorBlocks := (sPoolAllocatorBlocks s)[?i := ?b\<lparr>pb_allocs := pb_allocs ?b,
      pb_deallocs := pb_deallocs ?b + 1, pb_free := v\<rparr>]\<rparr>) (L - {(p, n)})"
  proof (rule pool_valid_upd [OF assms(1) i v(2)])
    show "distinct (elems v)" using d(5) [OF i] d(9) [OF assms(2)] v(3) by simp
    show "set (elems v) \<subseteq> segments_of s ?i" using d(6) [OF i] d(8) [OF assms(2)] v(3) by simp
    show "inj_on fst (L - {(p, n)})" using d(10) by (rule inj_on_subset) blast
    fix q k
    assume q: "(q, k) \<in> L - {(p, n)}"
    then have l: "(q, k) \<in> L" by blast
    have "q \<noteq> p" using inj_onD [OF d(10), of "(q, k)" "(p, n)"] q assms(2) by auto
    then show "pool_good k \<and> q \<in> segments_of s (pool_of k) \<and>
        q \<notin> (if pool_of k = ?i then set (elems v) else set (free_of s (pool_of k)))"
      using d(7,8,9) [OF l] v(3) by auto
  qed
  then have "pool_valid ?s (L - {(p, n)})" by simp
  moreover have "PoolAllocator_dealloc p n s = Inr ?s"
    using v(1) by (simp add: PoolAllocator_dealloc_def pool_block_law [OF assms(1) g] of_vec_def)
  moreover have "untouched (L - {(p, n)}) s ?s" by (rule untouchedI, simp, rule cells_cong, simp)
  ultimately show ?thesis by blast
qed

lemma segments_disjoint:
  assumes "j < k" "uint n \<le> 2 ^ (i + 4)"
  shows "block_bytes (segment i d j, n) \<inter> block_bytes (segment i d k, m) = {}"
proof -
  have "Suc j * pool_step i \<le> k * pool_step i" using assms(1) by (intro mult_le_mono1) simp
  then have "int (j * pool_step i + pool_step i) \<le> int (k * pool_step i)" by (simp only: of_nat_le_iff mult_Suc add.commute)
  then have "int (j * pool_step i) + uint n \<le> int (k * pool_step i)" using assms(2) by (simp add: pool_step_def)
  then show ?thesis by (auto simp: block_bytes_def segment_def shift_def)
qed

lemma pool_apart_law:
  assumes "pool_valid s L" "b \<in> L" "c \<in> L" "b \<noteq> c"
  shows "block_bytes b \<inter> block_bytes c = {}"
proof -
  note d = pool_validD [OF assms(1)]
  have l: "(fst b, snd b) \<in> L" "(fst c, snd c) \<in> L" using assms(2,3) by simp_all
  note g = d(7) [OF l(1)] d(7) [OF l(2)] and s = d(8) [OF l(1)] d(8) [OF l(2)]
  note i = pool_of_law(1) [OF g(1)] pool_of_law(1) [OF g(2)]
  have ne: "fst b \<noteq> fst c" using inj_onD [OF d(10) _ assms(2,3)] assms(4) by blast
  show ?thesis
  proof (cases "pool_of (snd b) = pool_of (snd c)")
    case True
    obtain j k where jk: "fst b = segment (pool_of (snd b)) (pb_data (sPoolAllocatorBlocks s ! pool_of (snd b))) j"
      "fst c = segment (pool_of (snd b)) (pb_data (sPoolAllocatorBlocks s ! pool_of (snd b))) k"
      using s True by (auto simp: segments_of_def)
    then consider "j < k" | "k < j" using ne by fastforce
    then show ?thesis
    proof cases
      case 1
      show ?thesis using segments_disjoint [OF 1 pool_of_law(2) [OF g(1)]] jk by (metis prod.collapse)
    next
      case 2
      show ?thesis using segments_disjoint [OF 2 pool_of_law(2) [OF g(2), folded True]] jk by (metis Int_commute prod.collapse)
    qed
  next
    case False
    have e: "fst (fst b) = map (\<lambda>b. fst (pb_data b)) (sPoolAllocatorBlocks s) ! pool_of (snd b)"
      "fst (fst c) = map (\<lambda>b. fst (pb_data b)) (sPoolAllocatorBlocks s) ! pool_of (snd c)"
      using s i d(1) by (auto simp: segments_of_def)
    then have "fst (fst b) \<noteq> fst (fst c)" using nth_eq_iff_index_eq [OF d(3)] False i d(1) by (simp add: e)
    then show ?thesis by (auto simp: block_bytes_def)
  qed
qed

interpretation pool_store: block_store pool_valid pool_good PoolAllocator_alloc PoolAllocator_dealloc
proof
  show "\<exists>p s'. PoolAllocator_alloc n s = Inr (p, s') \<and> untouched L s s' \<and>
      (p = Null \<and> pool_valid s' L \<or> p \<noteq> Null \<and> (p, n) \<notin> L \<and> pool_valid s' (insert (p, n) L))"
    if "pool_valid s L" "pool_good n" for s L n
  proof (cases "free_of s (pool_of n) = []")
    case True
    then have "PoolAllocator_alloc n s = Inr (Null, s)" using pool_alloc_law [OF that] by simp
    then show ?thesis using that(1) by (intro exI [of _ Null] exI [of _ s]) simp
  next
    case False
    then show ?thesis using pool_alloc_law [OF that] unfolding if_not_P [OF False] by blast
  qed
qed (use pool_dealloc_law pool_apart_law in blast)+


section \<open>The pools after their initialisation\<close>

definition no_pool :: "CompilerHeap \<Rightarrow> bool" where
  "no_pool s \<longleftrightarrow> fresh_above s \<and> (\<forall>b n. has_room s b n) \<and> \<not> pool_set s \<and> sPoolAllocatorBlocks s = replicate NUMBER_OF_POOLS zero_block"

lemma PoolAllocator_Init_law:
  assumes "no_pool s"
  shows "\<exists>s'. PoolAllocator_Init s = Inr s' \<and> pool_valid s' {} \<and>
    (\<forall>i < 8. free_of s' i = map (segment i (pb_data (sPoolAllocatorBlocks s' ! i))) [0..<pool_count i])"
proof -
  let ?s = "Allocator_init PoolAllocator (s\<lparr>pool_set := True\<rparr>)"
  have g: "fresh_above ?s" "\<And>b n. has_room ?s b n" "sPoolAllocatorBlocks ?s = replicate 8 zero_block"
    using assms by (auto simp: no_pool_def Allocator_init_def fresh_above_def NUMBER_OF_POOLS_def)
  have l: "0 + length (replicate 8 zero_block) \<le> 8" by simp
  obtain bs s1 where s1: "init_blocks 0 (replicate 8 zero_block) ?s = Inr (bs, s1)" "grows ?s s1" "length bs = length (replicate 8 zero_block)"
    "\<forall>k < length (replicate 8 zero_block). block_new s1 (0 + k) (bs ! k) \<and> (\<exists>b \<ge> next_obj ?s. fst (pb_data (bs ! k)) = Some b)"
    "distinct (map (\<lambda>b. fst (pb_data b)) bs)"
    using init_blocks_law [OF g(1,2) l] by blast
  let ?s1 = "s1\<lparr>sPoolAllocatorBlocks := bs\<rparr>"
  have new: "block_new s1 k (bs ! k)" if "k < 8" for k using s1(4) that by simp
  have free: "free_of ?s1 k = map (segment k (pb_data (bs ! k))) [0..<pool_count k]" if "k < 8" for k
    using new [OF that] by (simp add: block_new_def free_of_def)
  have "pool_valid ?s1 {}"
    unfolding pool_valid_def NUMBER_OF_POOLS_def
  proof (intro conjI allI impI)
    show "length (sPoolAllocatorBlocks ?s1) = 8" using s1(3) by simp
    show "distinct (map (\<lambda>b. fst (pb_data b)) (sPoolAllocatorBlocks ?s1))" using s1(5) by simp
    fix k :: nat
    assume k: "k < 8"
    show "\<exists>b. pb_data (sPoolAllocatorBlocks ?s1 ! k) = (Some b, 16) \<and> obj_size ?s1 b = Some 32768"
      using new [OF k] by (simp add: block_new_def)
    show "vec_ok (pb_free (sPoolAllocatorBlocks ?s1 ! k))" using new [OF k] by (simp add: block_new_def)
    show "distinct (free_of ?s1 k)" unfolding free [OF k] by (simp add: distinct_map inj_on_def segment_inj)
    show "set (free_of ?s1 k) \<subseteq> segments_of ?s1 k" unfolding free [OF k] by (auto simp: segments_of_def)
  qed simp_all
  moreover have "PoolAllocator_Init s = Inr ?s1"
    using assms s1(1) g(3) by (simp add: PoolAllocator_Init_def no_pool_def Let_def)
  ultimately show ?thesis using free by simp
qed

text \<open>Only the last segment of a pool reaches out of its memory.\<close>

definition last_segment :: "CompilerHeap \<Rightarrow> nat \<Rightarrow> addr" where
  "last_segment s i = segment i (pb_data (sPoolAllocatorBlocks s ! i)) (pool_count i - 1)"

lemma segment_in_memory:
  assumes "pool_valid s L" "i < 8" "p \<in> segments_of s i" "p \<noteq> last_segment s i" "m \<le> 2 ^ (i + 4)"
  shows "in_object p m s"
proof -
  obtain b where b: "pb_data (sPoolAllocatorBlocks s ! i) = (Some b, 16)" "obj_size s b = Some 32768"
    using pool_validD(2) [OF assms(1,2)] by blast
  obtain j where j: "j < pool_count i" "p = segment i (pb_data (sPoolAllocatorBlocks s ! i)) j" using assms(3) by (auto simp: segments_of_def)
  have "j \<noteq> pool_count i - 1" using assms(4) j(2) by (auto simp: last_segment_def)
  then have "Suc j \<le> pool_count i - 1" using j(1) by simp
  then have "Suc j * pool_step i \<le> (pool_count i - 1) * pool_step i" by (rule mult_le_mono1)
  then have "24 + j * pool_step i + m \<le> 32768" using pool_counts(3) [OF assms(2)] assms(5) by (simp add: pool_step_def)
  then have "int (24 + j * pool_step i + m) \<le> 32768" by linarith
  then show ?thesis using b j(2) by (simp add: in_object_def segment_def shift_def)
qed

lemma last_segment_offset:
  assumes "pool_valid s L" "i < 8" "in_object (last_segment s i) m s"
  shows "24 + (pool_count i - 1) * pool_step i + m \<le> 32768"
proof -
  obtain b where b: "pb_data (sPoolAllocatorBlocks s ! i) = (Some b, 16)" "obj_size s b = Some 32768"
    using pool_validD(2) [OF assms(1,2)] by blast
  then have "int (24 + (pool_count i - 1) * pool_step i + m) \<le> 32768"
    using assms(3) by (simp add: last_segment_def in_object_def segment_def shift_def)
  then show ?thesis by linarith
qed

text \<open>
  C24. The pool of a size below 4096: its segments have the least power of two, from sixteen on, that is no less
  than the size. Sizes above 2048 have no pool, and asking for one of them leaves the array of pools.
\<close>

theorem PoolAllocator_index:
  assumes "0 < n" and "n < 4096"
  shows "np2 (max 16 n) = 2 ^ (unat (pool_index n) + 4) \<and> unat n \<le> 2 ^ (unat (pool_index n) + 4) \<and>
    (16 < n \<longrightarrow> 2 ^ (unat (pool_index n) + 3) < unat n) \<and> (unat (pool_index n) < NUMBER_OF_POOLS \<longleftrightarrow> n \<le> 2048) \<and>
    (length (sPoolAllocatorBlocks s) = NUMBER_OF_POOLS \<and> 2048 < n \<longrightarrow> PoolAllocator_alloc n s = Inl HeapFault)"
proof -
  have n: "1 \<le> unat n" "unat n < 4096" using assms by (simp_all add: word_less_nat_alt)
  note l = pool_index_law [OF n]
  have "\<not> 4096 \<le> n" "n \<noteq> 0" using assms by auto
  then have "PoolAllocator_alloc n s = Inl HeapFault" if "length (sPoolAllocatorBlocks s) = 8" "2048 < n"
    using l(5) that by (simp add: PoolAllocator_alloc_def pool_block_def word_less_nat_alt Let_def)
  then show ?thesis using l by (simp add: NUMBER_OF_POOLS_def word_less_nat_alt word_le_nat_alt)
qed


text \<open>
  The first request of every size gets a segment that reaches out of the memory of its pool. The first
  block of up to sixteen bytes that \<open>Allocator_alloc\<close> takes from the pools cannot even hold its metadata.
\<close>

theorem PoolAllocator_first_overruns:
  assumes "no_pool s" and "0 < n" and "n \<le> 2048"
  shows "\<exists>s1 p s2. PoolAllocator_Init s = Inr s1 \<and> PoolAllocator_alloc n s1 = Inr (p, s2) \<and> p \<noteq> Null \<and>
    \<not> in_object p (unat (np2 (max 16 n))) s2 \<and> (n \<le> 16 \<longrightarrow> Allocator_alloc (Some sPoolAllocator) n s1 = Inl HeapFault)"
proof -
  obtain s1 where s1: "PoolAllocator_Init s = Inr s1" "pool_valid s1 {}"
    "\<And>i. i < 8 \<Longrightarrow> free_of s1 i = map (segment i (pb_data (sPoolAllocatorBlocks s1 ! i))) [0..<pool_count i]"
    using PoolAllocator_Init_law [OF assms(1)] by blast
  have last: "free_of s1 i \<noteq> []" "last (free_of s1 i) = last_segment s1 i" if "i < 8" for i
    using s1(3) [OF that] pool_counts(1) [OF that] by (simp_all add: last_map last_segment_def)
  have get: "\<exists>s2. PoolAllocator_alloc k s1 = Inr (last_segment s1 (pool_of k), s2) \<and> obj_size s2 = obj_size s1 \<and>
      last_segment s1 (pool_of k) \<noteq> Null" if "pool_good k" for k
    using pool_alloc_law [OF s1(2) that] last [OF pool_of_law(1) [OF that]] by auto
  have g: "pool_good n" using assms(2,3) by (simp add: pool_good_def)
  note l = pool_of_law [OF g]
  obtain s2 where s2: "PoolAllocator_alloc n s1 = Inr (last_segment s1 (pool_of n), s2)" "obj_size s2 = obj_size s1"
    "last_segment s1 (pool_of n) \<noteq> Null" using get [OF g] by blast
  have "\<not> in_object (last_segment s1 (pool_of n)) (2 ^ (pool_of n + 4)) s1"
    using last_segment_offset [OF s1(2) l(1)] pool_counts(4) [OF l(1)] by (meson leD)
  moreover have "unat (np2 (max 16 n)) = 2 ^ (pool_of n + 4)"
  proof -
    have "(2 :: nat) ^ (pool_of n + 4) < 2 ^ 32" using l(1) by (intro power_strict_increasing) simp_all
    then have "unat (of_nat (2 ^ (pool_of n + 4)) :: u32) = 2 ^ (pool_of n + 4)"
      using unat_of_nat [where 'a = 32, of "2 ^ (pool_of n + 4)"] by simp
    then show ?thesis using l(3) by simp
  qed
  ultimately have out: "\<not> in_object (last_segment s1 (pool_of n)) (unat (np2 (max 16 n))) s2"
    using in_object_cong [OF s2(2)] by simp
  have "Allocator_alloc (Some sPoolAllocator) n s1 = Inl HeapFault" if "n \<le> 16"
  proof -
    have u: "unat (n + 16) = 16 + unat n" using that by (intro unat_plus_16) (simp add: word_le_nat_alt)
    have k: "1 \<le> unat (n + 16)" "unat (n + 16) < 4096" "16 < unat (n + 16)" "unat (n + 16) \<le> 32"
      using u assms(2) that by (simp_all add: word_le_nat_alt word_less_nat_alt)
    note q = pool_index_law [OF k(1,2)]
    have gk: "pool_good (n + 16)" using k by (simp add: pool_good_def word_le_nat_alt word_less_nat_alt)
    have "(2 :: nat) ^ (pool_of (n + 16) + 3) < 2 ^ 5" using q(4) [OF k(3)] k(4) by (simp add: pool_of_def)
    then have "pool_of (n + 16) + 3 < 5" by (rule power_less_imp_less_exp [rotated]) simp
    moreover have "(2 :: nat) ^ 4 < 2 ^ (pool_of (n + 16) + 4)" using q(3) k(3) by (simp add: pool_of_def)
    then have "4 < pool_of (n + 16) + 4" by (rule power_less_imp_less_exp [rotated]) simp
    ultimately have one: "pool_of (n + 16) = 1" by simp
    obtain s3 where s3: "PoolAllocator_alloc (n + 16) s1 = Inr (last_segment s1 1, s3)" "obj_size s3 = obj_size s1" "last_segment s1 1 \<noteq> Null"
      using get [OF gk] unfolding one by blast
    have "\<not> in_object (last_segment s1 1) 16 s1"
      using last_segment_offset [OF s1(2), of 1 16] by (auto simp: pool_count_def pool_step_def POOL_BLOCK_SIZE_def)
    then have "\<not> in_object (last_segment s1 1) 16 s3" using in_object_cong [OF s3(2)] by simp
    then have "write_cells (last_segment s1 1) (AllocatorMetadata A n m) s3 = Inl HeapFault" for A m
      by (simp add: write_cells_def AllocatorMetadata_def ref_cells_def u32_cells_def)
    then show ?thesis using s3(1,3) assms(2)
      by (auto simp: Allocator_alloc_def or_default_def sPoolAllocator_def sizeof_meta_def Let_def)
  qed
  then show ?thesis using s1(1) s2(1,3) out by blast
qed

theorem PoolAllocator_index_witness: "np2 (max 16 100) = 128 \<and> unat (pool_index 100) < NUMBER_OF_POOLS"
  using PoolAllocator_index [of 100 new_heap] by (simp add: np2_def Let_def)


theorem PoolAllocator_first_overruns_witness:
  "\<exists>s1. PoolAllocator_Init new_heap = Inr s1 \<and> Allocator_alloc (Some sPoolAllocator) 8 s1 = Inl HeapFault"
  using PoolAllocator_first_overruns [of new_heap 8] by (auto simp: no_pool_def fresh_above_def new_heap_def)

end
