(* ===== verification/Cyn_Args.thy ===== *)
theory Cyn_Args
  imports Cyn_Lexer
begin

unbundle bit_operations_syntax

text \<open>
  The parser of command lines, \<^verbatim>\<open>src/args.c\<close> and \<^verbatim>\<open>include/args.h\<close>. A text is the list of its bytes without the
  terminator. A double is a type parameter, with what the code needs of it in a record: the conversion of an
  integer, the multiplication by a power of two, the test against zero and \<open>strtod\<close>. A command is its index in
  the array of commands. The text of the usage is not modelled.
\<close>

section \<open>Data\<close>

type_synonym cstring = "u8 list"

record 'f doubles =
  of_integer :: "int \<Rightarrow> 'f"
  scaled :: "nat \<Rightarrow> 'f \<Rightarrow> 'f"
  non_zero :: "'f \<Rightarrow> bool"
  strtod :: "cstring \<Rightarrow> 'f \<times> cstring \<times> bool"

datatype 'f CmdFlagValue = cmdNoValue | cmdNumber 'f | cmdString cstring

text \<open>
  A validator gets \<open>errno == ERANGE\<close>, the text and the name of the argument; it gives a value or the text of an
  error, and leaves \<open>errno\<close>.
\<close>

type_synonym 'f validator = "bool \<Rightarrow> cstring \<Rightarrow> cstring \<Rightarrow> (cstring + 'f CmdFlagValue) \<times> bool"

record 'f CmdFlag =
  fl_name :: cstring
  fl_sf :: u8
  fl_help :: "cstring option"
  fl_def :: "cstring option"
  fl_val :: "'f CmdFlagValue"
  isAppOnly :: bool
  fl_validator :: "'f validator option"

record 'f CmdPositional =
  ps_name :: cstring
  ps_help :: "cstring option"
  ps_def :: "cstring option"
  ps_val :: "'f CmdFlagValue"
  ps_validator :: "'f validator option"

record 'f CmdCommand =
  cm_name :: cstring
  cm_help :: "cstring option"
  cm_pos :: "'f CmdPositional list"
  cm_lp :: u16
  cm_la :: u16
  cm_id :: u32
  cm_args :: "'f CmdFlag list"

record 'f CmdParser =
  pr_name :: cstring
  pr_version :: cstring
  pr_def :: "nat option"
  pr_la :: u16
  pr_lc :: u16
  pr_cmds :: "'f CmdCommand list"
  pr_args :: "'f CmdFlag list"
  pr_error :: cstring
  pr_errno :: bool

section \<open>Values\<close>

definition quote_text :: "cstring \<Rightarrow> cstring" where "quote_text s = [0x27] @ s @ [0x27]"

definition value_error :: "cstring \<Rightarrow> cstring \<Rightarrow> string \<Rightarrow> cstring" where
  "value_error str name what =
     bytes_of ''error: value '' @ quote_text str @ bytes_of '' passed to flag '' @ quote_text name @
     bytes_of '' cannot be parsed as a '' @ bytes_of what @ [0x0A]"

definition cmdParseString :: "'f validator" where
  "cmdParseString er str name = (Inr (cmdString str), er)"

definition same_letters :: "cstring \<Rightarrow> cstring \<Rightarrow> bool" where
  "same_letters a b \<longleftrightarrow> map toupper a = map toupper b"

definition cmdParseBoolean :: "'f doubles \<Rightarrow> 'f validator" where
  "cmdParseBoolean fs er str name =
     (if str = [0x30] \<or> str = [0x31] then (Inr (cmdNumber (of_integer fs (of_bool (str = [0x31])))), er)
      else if length str = 4 \<and> same_letters str (bytes_of ''true'') then (Inr (cmdNumber (of_integer fs 1)), er)
      else if length str = 5 \<and> same_letters str (bytes_of ''false'') then (Inr (cmdNumber (of_integer fs 0)), er)
      else (Inl (value_error str name ''boolean''), er))"

definition cmdParseDouble :: "'f doubles \<Rightarrow> 'f validator" where
  "cmdParseDouble fs er str name =
     (case strtod fs str of (v, suf, oor) \<Rightarrow>
        if (er \<or> oor) \<or> suf \<noteq> [] then (Inl (value_error str name ''double''), er \<or> oor)
        else (Inr (cmdNumber v), er \<or> oor))"

text \<open>\<open>strtoll\<close> and \<open>strtoull\<close> with base 0: sign, magnitude and the unread rest.\<close>

definition read_integer :: "cstring \<Rightarrow> bool \<times> nat \<times> cstring" where
  "read_integer s =
     (let t = dropWhile isspace s;
          neg = (t \<noteq> [] \<and> hd t = 0x2D);
          t = (if t \<noteq> [] \<and> (hd t = 0x2D \<or> hd t = 0x2B) then tl t else t);
          hex = (length t > 2 \<and> t ! 0 = 0x30 \<and> (t ! 1 = 0x78 \<or> t ! 1 = 0x58) \<and> isxdigit (t ! 2));
          base = (if hex then 16 else if t \<noteq> [] \<and> hd t = 0x30 then 8 else 10);
          t = (if hex then drop 2 t else t);
          ds = takeWhile (\<lambda>c. digit_value c < base) t
      in if ds = [] then (False, 0, s)
         else (neg, foldl (\<lambda>n c. base * n + digit_value c) 0 ds, dropWhile (\<lambda>c. digit_value c < base) t))"

definition strtoll :: "cstring \<Rightarrow> int \<times> cstring \<times> bool" where
  "strtoll s =
     (case read_integer s of (neg, n, suf) \<Rightarrow>
        let v = (if neg then - int n else int n) in
        if v < - (2 ^ 63) then (- (2 ^ 63), suf, True)
        else if v \<ge> 2 ^ 63 then (2 ^ 63 - 1, suf, True)
        else (v, suf, False))"

definition strtoull0 :: "cstring \<Rightarrow> int \<times> cstring \<times> bool" where
  "strtoull0 s =
     (case read_integer s of (neg, n, suf) \<Rightarrow>
        if n \<ge> 2 ^ 64 then (2 ^ 64 - 1, suf, True)
        else (if neg then - int n mod 2 ^ 64 else int n, suf, False))"

definition cmdParseInteger :: "'f doubles \<Rightarrow> 'f validator" where
  "cmdParseInteger fs er str name =
     (case strtoll str of (v, suf, oor) \<Rightarrow>
        if (er \<or> oor) \<or> suf \<noteq> [] then (Inl (value_error str name ''number''), er \<or> oor)
        else (Inr (cmdNumber (of_integer fs v)), er \<or> oor))"

definition unit_scale :: "u8 \<Rightarrow> nat option" where
  "unit_scale c =
     (if c = 0x67 \<or> c = 0x47 then Some 30 else if c = 0x6D \<or> c = 0x4D then Some 20 else if c = 0x6B \<or> c = 0x4B then Some 10
      else if c = 0x62 \<or> c = 0x42 then Some 0 else None)"

definition unit_error :: "cstring \<Rightarrow> cstring" where
  "unit_error suf =
     quote_text suf @ bytes_of '' is not a supported data size unit (use g,G for gigabytes, m,M for megabytes, k,K for kilobytes or b, B for bytes)''"

definition cmdParseByteSize :: "'f doubles \<Rightarrow> 'f validator" where
  "cmdParseByteSize fs er str name =
     (case strtoull0 str of (v, suf, oor) \<Rightarrow>
        if er \<or> oor then (Inl (value_error str name ''number''), er \<or> oor)
        else case suf of
          [] \<Rightarrow> (Inr (cmdNumber (of_integer fs v)), er)
        | [c] \<Rightarrow> (case unit_scale c of None \<Rightarrow> (Inl (unit_error suf), er) | Some k \<Rightarrow> (Inr (cmdNumber (scaled fs k (of_integer fs v))), er))
        | _ \<Rightarrow> (Inl (unit_error suf), er))"

subsection \<open>Sets of bits\<close>

text \<open>
  The names between bars. A name of one letter in front of a bar is looked at again without end; \<open>None\<close> is that
  loop.
\<close>

definition skip_bars :: "cstring \<Rightarrow> cstring" where
  "skip_bars = dropWhile (\<lambda>c. c = 0x7C \<or> isspace c)"

definition bar_at :: "cstring \<Rightarrow> nat option" where
  "bar_at s = (if 0x7C \<in> set s then Some (length (takeWhile (\<lambda>c. c \<noteq> 0x7C) s)) else None)"

text \<open>The last position of a name before a bar at \<open>e\<close>, going back over blanks but not below 0.\<close>

definition name_last :: "cstring \<Rightarrow> nat \<Rightarrow> nat" where
  "name_last s e = length (dropWhile isspace (rev (take (e - 1) (tl s))))"

definition find_bits :: "(cstring \<times> u32) list \<Rightarrow> cstring \<Rightarrow> u32 option" where
  "find_bits fs s = map_option snd (find (\<lambda>d. length (fst d) = length s \<and> same_letters s (fst d)) fs)"

partial_function (option) bits_loop :: "(cstring \<times> u32) list \<Rightarrow> cstring \<Rightarrow> u32 \<Rightarrow> cstring \<Rightarrow> (cstring + u32) option" where
  "bits_loop fs name bits s =
     (let s = skip_bars s in
      case bar_at s of
        None \<Rightarrow>
          (case find_bits fs s of
             None \<Rightarrow> Some (Inl (quote_text s @ bytes_of '' is not a supported bit flags for argument '' @ quote_text name @ [0x0A]))
           | Some b \<Rightarrow> Some (Inr (bits OR b)))
      | Some e \<Rightarrow>
          let k = name_last s e in
          if k = 0 then bits_loop fs name bits s
          else
            (case find_bits fs (take (Suc k) s) of
               None \<Rightarrow> Some (Inl (quote_text (take (Suc k) s) @ bytes_of '' is not a supported bit flags for argument '' @ quote_text name @ [0x0A]))
             | Some b \<Rightarrow> bits_loop fs name (bits OR b) (drop e s)))"

definition cmdParseBitFlags :: "'f doubles \<Rightarrow> (cstring \<times> u32) list \<Rightarrow> cstring \<Rightarrow> cstring \<Rightarrow> (cstring + 'f CmdFlagValue) option" where
  "cmdParseBitFlags fs bits str name = map_option (map_sum id (\<lambda>b. cmdNumber (of_integer fs (uint b)))) (bits_loop bits name 0 str)"

section \<open>Lookup\<close>

definition cmdIsLongFlag :: "cstring \<Rightarrow> bool" where
  "cmdIsLongFlag s \<longleftrightarrow> take 2 s = [0x2D, 0x2D] \<and> 2 < length s"

definition cmdIsShortFlag :: "cstring \<Rightarrow> bool" where
  "cmdIsShortFlag s \<longleftrightarrow> (case s of c # d # r \<Rightarrow> c = 0x2D \<and> d \<noteq> 0x2D | _ \<Rightarrow> False)"

definition cmdIsIgnoreArguments :: "cstring \<Rightarrow> bool" where
  "cmdIsIgnoreArguments s \<longleftrightarrow> s = [0x2D, 0x2D]"

definition first_index :: "('a \<Rightarrow> bool) \<Rightarrow> 'a list \<Rightarrow> nat option" where
  "first_index Q xs = find (\<lambda>i. Q (xs ! i)) [0..<length xs]"

text \<open>\<open>strncmp\<close> with the length of the text of the argument.\<close>

definition cmdFindByName :: "'f CmdFlag list \<Rightarrow> cstring \<Rightarrow> u32 \<Rightarrow> nat option" where
  "cmdFindByName args name len = first_index (\<lambda>f. take (unat len) (fl_name f) = take (unat len) name) args"

definition cmdFindByShortFormat :: "'f CmdFlag list \<Rightarrow> u8 \<Rightarrow> nat option" where
  "cmdFindByShortFormat args sf = first_index (\<lambda>f. fl_sf f \<noteq> 0 \<and> fl_sf f = sf) args"

definition cmdFindCommandByName :: "'f CmdParser \<Rightarrow> cstring \<Rightarrow> nat option" where
  "cmdFindCommandByName P name = (if name = [] then pr_def P else first_index (\<lambda>c. cm_name c = name) (pr_cmds P))"

section \<open>Stops and errors\<close>

text \<open>
  The program is left: \<open>abort\<close> because of the declarations, \<open>exit\<close> after showing the version or the help, or a write
  beyond the array of 128 bytes for the error.
\<close>

datatype args_stop = ArgsAbort | ShowVersion | ShowHelp | ArgsFault

definition set_error :: "cstring \<Rightarrow> 'f CmdParser \<Rightarrow> args_stop + 'f CmdParser" where
  "set_error msg P = (if length msg < 128 then Inr (P\<lparr>pr_error := msg\<rparr>) else Inl ArgsFault)"

text \<open>A parsing function returns false, or true and the arguments that are left.\<close>

type_synonym 'f parsed = "args_stop + (cstring list option \<times> 'f CmdParser)"

definition fail_with :: "cstring \<Rightarrow> 'f CmdParser \<Rightarrow> 'f parsed" where
  "fail_with msg P = bnd (set_error msg P) (\<lambda>P. Inr (None, P))"

definition validated :: "'f validator \<Rightarrow> cstring \<Rightarrow> cstring \<Rightarrow> 'f CmdParser \<Rightarrow> ('f CmdFlagValue \<Rightarrow> 'f CmdParser \<Rightarrow> 'f parsed) \<Rightarrow> 'f parsed" where
  "validated vd str name P cont =
     (case vd (pr_errno P) str name of (r, er) \<Rightarrow>
        let P = P\<lparr>pr_errno := er\<rparr> in
        case r of Inl msg \<Rightarrow> fail_with msg P | Inr v \<Rightarrow> cont v P)"

section \<open>Arguments of a command\<close>

datatype flag_place = GlobalFlag nat | CommandFlag nat

definition flag_at :: "'f CmdParser \<Rightarrow> nat \<Rightarrow> flag_place \<Rightarrow> 'f CmdFlag" where
  "flag_at P c pl = (case pl of GlobalFlag i \<Rightarrow> pr_args P ! i | CommandFlag i \<Rightarrow> cm_args (pr_cmds P ! c) ! i)"

definition set_val :: "nat \<Rightarrow> 'f CmdFlagValue \<Rightarrow> 'f CmdFlag list \<Rightarrow> 'f CmdFlag list" where
  "set_val i v fs = fs[i := (fs ! i)\<lparr>fl_val := v\<rparr>]"

definition set_flag :: "nat \<Rightarrow> flag_place \<Rightarrow> 'f CmdFlagValue \<Rightarrow> 'f CmdParser \<Rightarrow> 'f CmdParser" where
  "set_flag c pl v P =
     (case pl of
        GlobalFlag i \<Rightarrow> P\<lparr>pr_args := set_val i v (pr_args P)\<rparr>
      | CommandFlag i \<Rightarrow> P\<lparr>pr_cmds := (pr_cmds P)[c := (pr_cmds P ! c)\<lparr>cm_args := set_val i v (cm_args (pr_cmds P ! c))\<rparr>]\<rparr>)"

definition set_pos :: "nat \<Rightarrow> nat \<Rightarrow> 'f CmdFlagValue \<Rightarrow> 'f CmdParser \<Rightarrow> 'f CmdParser" where
  "set_pos c i v P =
     P\<lparr>pr_cmds := (pr_cmds P)[c := (pr_cmds P ! c)\<lparr>cm_pos := (cm_pos (pr_cmds P ! c))[i := (cm_pos (pr_cmds P ! c) ! i)\<lparr>ps_val := v\<rparr>]\<rparr>]\<rparr>"

text \<open>
  The name and the value of a long flag. From the equals sign the code goes back to the last character of the name
  and takes what is before it.
\<close>

definition long_name :: "cstring \<Rightarrow> u32 \<times> cstring option" where
  "long_name arg =
     (if 0x3D \<in> set arg then
        let e = length (takeWhile (\<lambda>c. c \<noteq> 0x3D) arg);
            k = length (dropWhile isspace (rev (take e arg)))
        in (of_nat k - 1, Some (dropWhile isspace (drop (Suc e) arg)))
      else (of_nat (length arg), None))"

text \<open>The flag that an argument names, in an array of flags, and the value it brings along.\<close>

definition flag_index :: "cstring \<Rightarrow> 'f CmdFlag list \<Rightarrow> nat option" where
  "flag_index s fs =
     (if cmdIsShortFlag s then cmdFindByShortFormat fs (s ! 1)
      else cmdFindByName fs (drop 2 s) (fst (long_name (drop 2 s))))"

definition flag_value :: "cstring \<Rightarrow> cstring option" where
  "flag_value s =
     (if cmdIsShortFlag s then if 2 < length s then Some (drop 2 s) else None else snd (long_name (drop 2 s)))"

definition find_flag :: "cstring \<Rightarrow> nat \<Rightarrow> 'f CmdParser \<Rightarrow> flag_place option" where
  "find_flag s c P =
     (case flag_index s (pr_args P) of
        Some i \<Rightarrow> Some (GlobalFlag i)
      | None \<Rightarrow> map_option CommandFlag (flag_index s (cm_args (pr_cmds P ! c))))"

text \<open>The value behind an equals sign, or else the next argument; behind the last one there is a null pointer.\<close>

fun take_value :: "cstring option \<Rightarrow> cstring list \<Rightarrow> (cstring \<times> cstring list) option" where
  "take_value (Some v) argv = Some (v, argv)"
| "take_value None (v # argv) = Some (v, argv)"
| "take_value None [] = None"

lemma take_value_length: "take_value v argv = Some (w, argv') \<Longrightarrow> length argv' \<le> length argv"
  by (cases "(v, argv)" rule: take_value.cases) auto

lemma validated_cong [fundef_cong]:
  assumes "vd = vd'" "str = str'" "name = name'" "P = P'"
    and "\<And>v er. vd' (pr_errno P') str' name' = (Inr v, er) \<Longrightarrow> cont v (P'\<lparr>pr_errno := er\<rparr>) = cont' v (P'\<lparr>pr_errno := er\<rparr>)"
  shows "validated vd str name P cont = validated vd' str' name' P' cont'"
  using assms(5) by (auto simp: validated_def assms(1-4) Let_def split: prod.split sum.split)

definition positional_error :: "nat \<Rightarrow> cstring" where
  "positional_error n =
     bytes_of ''error: unexpected number of positional arguments passed, expecting '' @ dec_nat n @ [0x0A]"

definition flag_error :: "string \<Rightarrow> cstring \<Rightarrow> string \<Rightarrow> cstring" where
  "flag_error what name how = bytes_of what @ quote_text name @ bytes_of how @ [0x0A]"

function cmdParseCommandArguments :: "'f doubles \<Rightarrow> nat \<Rightarrow> nat \<Rightarrow> cstring list \<Rightarrow> 'f CmdParser \<Rightarrow> 'f parsed" where
  "cmdParseCommandArguments fs c npos [] P = Inr (Some [], P)"
| "cmdParseCommandArguments fs c npos (arg # argv) P =
     (if cmdIsIgnoreArguments arg then Inr (Some argv, P)
      else if cmdIsShortFlag arg \<or> cmdIsLongFlag arg then
        case find_flag arg c P of
          None \<Rightarrow> fail_with (flag_error ''error: unrecognized command argument '' arg []) P
        | Some pl \<Rightarrow>
            (case fl_validator (flag_at P c pl) of
               None \<Rightarrow>
                 if flag_value arg \<noteq> None then
                   fail_with (flag_error ''error: unexpected value passed to flag '' (fl_name (flag_at P c pl)) []) P
                 else cmdParseCommandArguments fs c npos argv (set_flag c pl (cmdNumber (of_integer fs 1)) P)
             | Some vd \<Rightarrow>
                 (case take_value (flag_value arg) argv of
                    None \<Rightarrow> fail_with (flag_error ''error: command flag '' (fl_name (flag_at P c pl)) '' expects a value'') P
                  | Some (v, argv') \<Rightarrow>
                      validated vd v (fl_name (flag_at P c pl)) P (\<lambda>v P. cmdParseCommandArguments fs c npos argv' (set_flag c pl v P))))
      else
        let ps = cm_pos (pr_cmds P ! c) in
        if npos \<ge> length ps then fail_with (positional_error (length ps)) P
        else
          case ps_validator (ps ! npos) of
            None \<Rightarrow> cmdParseCommandArguments fs c (Suc npos) argv (set_pos c npos (cmdString arg) P)
          | Some vd \<Rightarrow>
              validated vd arg (ps_name (ps ! npos)) P (\<lambda>v P. cmdParseCommandArguments fs c (Suc npos) argv (set_pos c npos v P)))"
  by pat_completeness auto
termination by (relation "measure (\<lambda>(fs, c, npos, argv, P). length argv)") (auto dest: take_value_length)

declare cmdParseCommandArguments.simps(2) [simp del]

section \<open>Preparation and checks\<close>

definition clash :: "'f CmdFlag \<Rightarrow> 'f CmdFlag \<Rightarrow> bool" where
  "clash f g \<longleftrightarrow> fl_name f = fl_name g \<or> fl_sf f \<noteq> 0 \<and> fl_sf f = fl_sf g"

primrec unique_flags :: "'f CmdFlag list \<Rightarrow> bool" where
  "unique_flags [] = True"
| "unique_flags (f # fs) = ((\<forall>g \<in> set fs. \<not> clash f g) \<and> unique_flags fs)"

text \<open>The widths are kept in sixteen bits.\<close>

definition widest :: "u16 \<Rightarrow> cstring list \<Rightarrow> u16" where
  "widest w names = fold (\<lambda>s w. if unat w > length s then w else of_nat (length s)) names w"

definition vmInitializeCommand :: "'f CmdFlag list \<Rightarrow> 'f CmdCommand \<Rightarrow> args_stop + 'f CmdCommand" where
  "vmInitializeCommand gArgs cmd =
     (if \<not> unique_flags (cm_args cmd) \<or> (\<exists>f \<in> set (cm_args cmd). \<exists>g \<in> set gArgs. clash f g) then Inl ArgsAbort
      else Inr (cmd\<lparr>cm_args := map (\<lambda>f. f\<lparr>fl_val := cmdNoValue\<rparr>) (cm_args cmd),
        cm_la := widest (cm_la cmd) (map fl_name (cm_args cmd)),
        cm_pos := map (\<lambda>p. p\<lparr>ps_val := cmdNoValue\<rparr>) (cm_pos cmd),
        cm_lp := widest (cm_lp cmd) (map ps_name (cm_pos cmd))\<rparr>))"

primrec init_commands :: "'f CmdFlag list \<Rightarrow> 'f CmdCommand list \<Rightarrow> args_stop + 'f CmdCommand list" where
  "init_commands gArgs [] = Inr []"
| "init_commands gArgs (cmd # cmds) =
     bnd (vmInitializeCommand gArgs cmd) (\<lambda>cmd. bnd (init_commands gArgs cmds) (\<lambda>cmds. Inr (cmd # cmds)))"

definition init_parser :: "'f CmdParser \<Rightarrow> args_stop + 'f CmdParser" where
  "init_parser P =
     (if \<not> unique_flags (pr_args P) \<or> \<not> distinct (map cm_name (pr_cmds P)) then Inl ArgsAbort
      else
        let gArgs = map (\<lambda>f. f\<lparr>fl_val := cmdNoValue\<rparr>) (pr_args P) in
        bnd (init_commands gArgs (pr_cmds P)) (\<lambda>cmds.
        Inr (P\<lparr>pr_args := gArgs, pr_la := widest (pr_la P) (map fl_name (pr_args P)), pr_cmds := cmds,
          pr_lc := widest (pr_lc P) (map cm_name (pr_cmds P))\<rparr>)))"

text \<open>Values; a null pointer is \<open>None\<close>.\<close>

definition value_of :: "'f CmdFlagValue \<Rightarrow> 'f CmdFlagValue option" where
  "value_of v = (case v of cmdNoValue \<Rightarrow> None | _ \<Rightarrow> Some v)"

definition cmdGetFlag :: "'f CmdCommand \<Rightarrow> nat \<Rightarrow> 'f CmdFlagValue option" where
  "cmdGetFlag cmd i = (if i \<ge> length (cm_args cmd) then None else value_of (fl_val (cm_args cmd ! i)))"

definition cmdGetGlobalFlag :: "'f CmdParser \<Rightarrow> nat \<Rightarrow> 'f CmdFlagValue option" where
  "cmdGetGlobalFlag P i = (if i \<ge> length (pr_args P) then None else value_of (fl_val (pr_args P ! i)))"

definition cmdGetPositional :: "'f CmdCommand \<Rightarrow> nat \<Rightarrow> 'f CmdFlagValue option" where
  "cmdGetPositional cmd i = (if i \<ge> length (cm_pos cmd) then None else value_of (ps_val (cm_pos cmd ! i)))"

text \<open>Whether the number of a value is not zero. In a text the number is the address, which is not.\<close>

definition is_on :: "'f doubles \<Rightarrow> 'f CmdFlagValue option \<Rightarrow> bool" where
  "is_on fs v = (case v of Some (cmdNumber x) \<Rightarrow> non_zero fs x | Some (cmdString s) \<Rightarrow> True | _ \<Rightarrow> False)"

definition cmdHandleBuiltins :: "'f doubles \<Rightarrow> 'f CmdParser \<Rightarrow> args_stop + unit" where
  "cmdHandleBuiltins fs P =
     (if is_on fs (cmdGetGlobalFlag P 0) then Inl ShowVersion
      else if is_on fs (cmdGetGlobalFlag P 1) then Inl ShowHelp
      else Inr ())"

text \<open>Defaults of flags and positional arguments that were not given, in the order of their indices.\<close>

primrec check_flags :: "'f doubles \<Rightarrow> nat \<Rightarrow> cstring list \<Rightarrow> nat list \<Rightarrow> 'f CmdParser \<Rightarrow> 'f parsed" where
  "check_flags fs c argv [] P = Inr (Some argv, P)"
| "check_flags fs c argv (i # is) P =
     (let f = cm_args (pr_cmds P ! c) ! i in
      if fl_val f \<noteq> cmdNoValue then check_flags fs c argv is P
      else case fl_validator f of
        None \<Rightarrow> check_flags fs c argv is (set_flag c (CommandFlag i) (cmdNumber (of_integer fs 0)) P)
      | Some vd \<Rightarrow>
          (case fl_def f of
             Some d \<Rightarrow>
               if d \<noteq> [] then validated vd d (fl_name f) P (\<lambda>v P. check_flags fs c argv is (set_flag c (CommandFlag i) v P))
               else check_flags fs c argv is P
           | None \<Rightarrow>
               fail_with (bytes_of ''Missing flag '' @ quote_text (fl_name f) @ bytes_of '' required by command '' @
                 quote_text (cm_name (pr_cmds P ! c)) @ [0x0A]) P))"

primrec check_positionals :: "nat \<Rightarrow> cstring list \<Rightarrow> nat list \<Rightarrow> 'f CmdParser \<Rightarrow> 'f parsed" where
  "check_positionals c argv [] P = Inr (Some argv, P)"
| "check_positionals c argv (i # is) P =
     (let p = cm_pos (pr_cmds P ! c) ! i in
      if ps_val p \<noteq> cmdNoValue then check_positionals c argv is P
      else case ps_validator p of
        None \<Rightarrow> check_positionals c argv is P
      | Some vd \<Rightarrow>
          (case ps_def p of
             Some d \<Rightarrow>
               if d \<noteq> [] then validated vd d (ps_name p) P (\<lambda>v P. check_positionals c argv is (set_pos c i v P))
               else check_positionals c argv is P
           | None \<Rightarrow>
               fail_with (bytes_of ''Missing positional argument '' @ dec_nat i @ bytes_of '' ('' @ quote_text (ps_name p) @
                 bytes_of '') required by command '' @ quote_text (cm_name (pr_cmds P ! c)) @ [0x0A]) P))"

text \<open>The command: the first argument if it names one, or else the default one.\<close>

definition choose_command :: "cstring list \<Rightarrow> 'f CmdParser \<Rightarrow> nat option \<times> cstring list" where
  "choose_command argv P =
     (case argv of
        [] \<Rightarrow> (pr_def P, [])
      | a # argv' \<Rightarrow>
          if take 1 a \<noteq> [0x2D] then
            case cmdFindCommandByName P a of Some c \<Rightarrow> (Some c, argv') | None \<Rightarrow> (pr_def P, argv)
          else (pr_def P, argv))"

text \<open>The end of the work on a command whose arguments are parsed.\<close>

definition finish_command :: "'f doubles \<Rightarrow> nat \<Rightarrow> cstring list \<Rightarrow> 'f CmdParser \<Rightarrow> 'f parsed" where
  "finish_command fs c left P =
     bnd (cmdHandleBuiltins fs P) (\<lambda>_.
     bnd (check_flags fs c left [0..<length (cm_args (pr_cmds P ! c))] P) (\<lambda>(r, P). case r of
       None \<Rightarrow> Inr (None, P)
     | Some left \<Rightarrow> check_positionals c left [0..<length (cm_pos (pr_cmds P ! c))] P))"

text \<open>The result is the id of the command, or \<open>-1\<close>. The first argument is the name of the program.\<close>

definition parseCommandLineArguments :: "'f doubles \<Rightarrow> cstring list \<Rightarrow> 'f CmdParser \<Rightarrow>
    args_stop + (u32 \<times> cstring list \<times> 'f CmdParser)" where
  "parseCommandLineArguments fs argv P =
     (if argv = [] then Inl ArgsFault
      else bnd (init_parser P) (\<lambda>P.
        case choose_command (tl argv) P of
          (None, args) \<Rightarrow>
            bnd (set_error (bytes_of ''error: missing required command to execute'' @ [0x0A]) P) (\<lambda>P. Inr (- 1, argv, P))
        | (Some c, args) \<Rightarrow>
            bnd (cmdParseCommandArguments fs c 0 args P) (\<lambda>(r, P). case r of
              None \<Rightarrow> Inr (- 1, argv, P)
            | Some left \<Rightarrow>
                bnd (finish_command fs c left P) (\<lambda>(r, P). case r of
                  None \<Rightarrow> Inr (- 1, argv, P)
                | Some left \<Rightarrow> Inr (cm_id (pr_cmds P ! c), left, P)))))"

end
