(* ===== verification/Cyn_ArgsUse.thy ===== *)
theory Cyn_ArgsUse
  imports Cyn_Args
begin

unbundle bit_operations_syntax

text \<open>
  The parser of command lines: sets of bits, arguments that are written out and what they do, and what holds of a
  command whose parsing succeeds.
\<close>

section \<open>Sets of bits\<close>

fun barred :: "cstring list \<Rightarrow> cstring" where
  "barred [] = []"
| "barred [n] = n"
| "barred (n # ns) = n @ [0x7C] @ barred ns"

text \<open>The value of a list of names, or the error of the first that is unknown.\<close>

fun all_bits :: "(cstring \<times> u32) list \<Rightarrow> cstring \<Rightarrow> u32 \<Rightarrow> cstring list \<Rightarrow> cstring + u32" where
  "all_bits fs name bits [] = Inr bits"
| "all_bits fs name bits (n # ns) =
     (case find_bits fs n of
        None \<Rightarrow> Inl (quote_text n @ bytes_of '' is not a supported bit flags for argument '' @ quote_text name @ [0x0A])
      | Some b \<Rightarrow> all_bits fs name (bits OR b) ns)"

definition bit_name :: "cstring \<Rightarrow> bool" where
  "bit_name n \<longleftrightarrow> 2 \<le> length n \<and> (\<forall>c \<in> set n. c \<noteq> 0x7C \<and> \<not> isspace c)"

lemma skip_bars_name:
  assumes "\<forall>c \<in> set pre. c = 0x7C \<or> isspace c" "bit_name n"
  shows "skip_bars (pre @ n @ s) = n @ s"
proof -
  obtain c n' where n: "n = c # n'" "c \<noteq> 0x7C" "\<not> isspace c" using assms(2) by (cases n) (auto simp: bit_name_def)
  have "skip_bars (pre @ n @ s) = dropWhile (\<lambda>c. c = 0x7C \<or> isspace c) (n @ s)"
    unfolding skip_bars_def using assms(1) by (intro dropWhile_append2) blast
  then show ?thesis using n by simp
qed

lemma bar_at_name: "bit_name n \<Longrightarrow> bar_at (n @ 0x7C # s) = Some (length n)"
  by (simp add: bar_at_def bit_name_def takeWhile_append2)

lemma bar_at_last: "bit_name n \<Longrightarrow> bar_at n = None"
  by (auto simp: bar_at_def bit_name_def)

lemma name_last_name:
  assumes "bit_name n"
  shows "name_last (n @ s) (length n) = length n - 1"
proof -
  obtain c n' where n: "n = c # n'" using assms by (cases n) (auto simp: bit_name_def)
  have "dropWhile isspace (rev n') = rev n'" using assms n by (cases n' rule: rev_cases) (auto simp: bit_name_def)
  then show ?thesis by (simp add: name_last_def n)
qed

lemma bits_loop_names:
  assumes "ns \<noteq> []" "\<forall>n \<in> set ns. bit_name n" "\<forall>c \<in> set pre. c = 0x7C \<or> isspace c"
  shows "bits_loop fs name bits (pre @ barred ns) = Some (all_bits fs name bits ns)"
  using assms
proof (induction ns arbitrary: bits pre rule: barred.induct)
  case (2 n)
  have n: "bit_name n" using 2 by simp
  have "skip_bars (pre @ n) = n" using skip_bars_name [OF 2(3) n, of "[]"] by simp
  then show ?case by (subst bits_loop.simps) (simp add: bar_at_last [OF n] Let_def split: option.split)
next
  case (3 n m ns)
  have n: "bit_name n" using 3(3) by simp
  have l: "2 \<le> length n" using n by (simp add: bit_name_def)
  let ?s = "n @ 0x7C # barred (m # ns)"
  have s: "skip_bars (pre @ barred (n # m # ns)) = ?s" using skip_bars_name [OF 3(4) n] by simp
  have k: "name_last ?s (length n) = length n - 1" using name_last_name [OF n] by simp
  have t: "take (Suc (length n - 1)) ?s = n" "drop (length n) ?s = [0x7C] @ barred (m # ns)" using l by simp_all
  have IH: "bits_loop fs name b ([0x7C] @ barred (m # ns)) = Some (all_bits fs name b (m # ns))" for b
    using 3(3) by (intro 3(1)) simp_all
  have "bits_loop fs name bits (pre @ barred (n # m # ns)) =
      (case find_bits fs n of
         None \<Rightarrow> Some (Inl (quote_text n @ bytes_of '' is not a supported bit flags for argument '' @ quote_text name @ [0x0A]))
       | Some b \<Rightarrow> bits_loop fs name (bits OR b) ([0x7C] @ barred (m # ns)))"
    apply (subst bits_loop.simps)
    unfolding s Let_def bar_at_name [OF n] option.case k t
    using l by simp
  then show ?case using IH by (simp split: option.split)
qed simp

text \<open>The loop that does not move on.\<close>

definition stuck :: "cstring \<Rightarrow> bool" where
  "stuck s \<longleftrightarrow> (\<exists>e. bar_at (skip_bars s) = Some e \<and> name_last (skip_bars s) e = 0)"

lemma skip_bars_idem [simp]: "skip_bars (skip_bars s) = skip_bars s"
  by (simp add: skip_bars_def)

lemma stuck_step:
  assumes "stuck s"
  obtains e where "bar_at (skip_bars s) = Some e" "name_last (skip_bars s) e = 0" "stuck (skip_bars s)"
  using assms by (auto simp: stuck_def)

lemma bits_loop_stuck: "bits_loop fs name bits s = Some y \<Longrightarrow> \<not> stuck s"
proof (erule bits_loop.raw_induct [where P = "\<lambda>fs name bits s y. \<not> stuck s", rotated], rule notI, goal_cases)
  case (1 loop fs name bits s y)
  from 1(3) obtain e where e: "bar_at (skip_bars s) = Some e" "name_last (skip_bars s) e = 0" "stuck (skip_bars s)"
    by (rule stuck_step)
  have "loop fs name bits (skip_bars s) = Some y" using 1(2) unfolding Let_def e(1) option.case e(2) by simp
  then show False using 1(1) e(3) by blast
qed

text \<open>
  C36. Names of at least two characters, separated by bars, give the union of their bits, or the error of
  the first unknown one. A name of one character in front of a bar makes the parser loop for ever.
\<close>

theorem cmdParseBitFlags_names:
  assumes "ns \<noteq> []" and "\<forall>n \<in> set ns. bit_name n" and "c \<noteq> 0x7C" and "\<not> isspace c"
  shows "cmdParseBitFlags fs bits (barred ns) name = Some (map_sum id (\<lambda>b. cmdNumber (of_integer fs (uint b))) (all_bits bits name 0 ns)) \<and>
    cmdParseBitFlags fs bits (c # 0x7C # s) name = None"
proof -
  have "bits_loop bits name 0 ([] @ barred ns) = Some (all_bits bits name 0 ns)" by (rule bits_loop_names [OF assms(1,2)]) simp
  moreover have "stuck (c # 0x7C # s)"
    using assms(3,4) by (simp add: stuck_def skip_bars_def bar_at_def name_last_def)
  then have "bits_loop bits name 0 (c # 0x7C # s) = None" using bits_loop_stuck by (cases "bits_loop bits name 0 (c # 0x7C # s)") auto
  ultimately show ?thesis by (simp add: cmdParseBitFlags_def)
qed

section \<open>Declarations\<close>

text \<open>What parsing does not change: everything but the values and the widths for the usage.\<close>

definition bare :: "'f CmdFlag \<Rightarrow> 'f CmdFlag" where "bare f = f\<lparr>fl_val := cmdNoValue\<rparr>"

definition bare_pos :: "'f CmdPositional \<Rightarrow> 'f CmdPositional" where "bare_pos p = p\<lparr>ps_val := cmdNoValue\<rparr>"

definition bare_cmd :: "'f CmdCommand \<Rightarrow> 'f CmdCommand" where
  "bare_cmd cmd = cmd\<lparr>cm_args := map bare (cm_args cmd), cm_pos := map bare_pos (cm_pos cmd), cm_la := 0, cm_lp := 0\<rparr>"

definition same_decl :: "'f CmdParser \<Rightarrow> 'f CmdParser \<Rightarrow> bool" where
  "same_decl P P' \<longleftrightarrow> map bare (pr_args P') = map bare (pr_args P) \<and> map bare_cmd (pr_cmds P') = map bare_cmd (pr_cmds P)"

lemma same_decl_refl [simp]: "same_decl P P"
  by (simp add: same_decl_def)

lemma same_decl_trans: "same_decl P P1 \<Longrightarrow> same_decl P1 P2 \<Longrightarrow> same_decl P P2"
  by (simp add: same_decl_def)

lemma map_eq_nth: "map g xs = map g ys \<Longrightarrow> i < length ys \<Longrightarrow> g (xs ! i) = g (ys ! i) \<and> i < length xs"
  by (metis length_map nth_map)

lemma map_update_same: "g (xs ! i) = g x \<Longrightarrow> map g (xs[i := x]) = map g xs"
  by (metis list_update_id map_update)

lemma bare_set_val [simp]: "map bare (set_val i v fs) = map bare fs"
  unfolding set_val_def by (rule map_update_same) (simp add: bare_def)

lemma same_decl_set [simp]: "same_decl P (set_flag c pl v P)" "same_decl P (set_pos c i v P)" "same_decl P (P\<lparr>pr_errno := e\<rparr>)"
    "same_decl P (P\<lparr>pr_error := s\<rparr>)"
proof -
  have "map bare_cmd ((pr_cmds P)[c := (pr_cmds P ! c)\<lparr>cm_args := set_val i v (cm_args (pr_cmds P ! c))\<rparr>]) = map bare_cmd (pr_cmds P)" for i
    by (rule map_update_same) (simp add: bare_cmd_def)
  then show "same_decl P (set_flag c pl v P)" by (cases pl) (simp_all add: same_decl_def set_flag_def)
  have "map bare_pos ((cm_pos (pr_cmds P ! c))[i := (cm_pos (pr_cmds P ! c) ! i)\<lparr>ps_val := v\<rparr>]) = map bare_pos (cm_pos (pr_cmds P ! c))"
    by (rule map_update_same) (simp add: bare_pos_def)
  then have "map bare_cmd ((pr_cmds P)[c := (pr_cmds P ! c)\<lparr>cm_pos := (cm_pos (pr_cmds P ! c))[i := (cm_pos (pr_cmds P ! c) ! i)\<lparr>ps_val := v\<rparr>]\<rparr>]) =
      map bare_cmd (pr_cmds P)"
    by (intro map_update_same) (simp add: bare_cmd_def)
  then show "same_decl P (set_pos c i v P)" by (simp add: same_decl_def set_pos_def)
qed (simp_all add: same_decl_def)

lemma bare_fields: "bare f = bare g \<Longrightarrow> fl_name f = fl_name g \<and> fl_sf f = fl_sf g \<and> fl_validator f = fl_validator g \<and> fl_def f = fl_def g"
  by (cases f; cases g) (simp add: bare_def)

lemma bare_pos_fields: "bare_pos f = bare_pos g \<Longrightarrow> ps_name f = ps_name g \<and> ps_validator f = ps_validator g \<and> ps_def f = ps_def g"
  by (cases f; cases g) (simp add: bare_pos_def)

lemma same_command:
  assumes "same_decl P P'" "c < length (pr_cmds P)"
  shows "length (pr_cmds P') = length (pr_cmds P)" "map bare (cm_args (pr_cmds P' ! c)) = map bare (cm_args (pr_cmds P ! c))"
    "map bare_pos (cm_pos (pr_cmds P' ! c)) = map bare_pos (cm_pos (pr_cmds P ! c))" "cm_id (pr_cmds P' ! c) = cm_id (pr_cmds P ! c)"
proof -
  have m: "map bare_cmd (pr_cmds P') = map bare_cmd (pr_cmds P)" using assms(1) by (simp add: same_decl_def)
  then show l: "length (pr_cmds P') = length (pr_cmds P)" by (rule map_eq_imp_length_eq)
  have "bare_cmd (pr_cmds P' ! c) = bare_cmd (pr_cmds P ! c)" using map_eq_nth [OF m assms(2)] by simp
  then show "map bare (cm_args (pr_cmds P' ! c)) = map bare (cm_args (pr_cmds P ! c))"
    "map bare_pos (cm_pos (pr_cmds P' ! c)) = map bare_pos (cm_pos (pr_cmds P ! c))" "cm_id (pr_cmds P' ! c) = cm_id (pr_cmds P ! c)"
    by (cases "pr_cmds P' ! c"; cases "pr_cmds P ! c"; simp add: bare_cmd_def)+
qed

definition place_ok :: "'f CmdParser \<Rightarrow> nat \<Rightarrow> flag_place \<Rightarrow> bool" where
  "place_ok P c pl \<longleftrightarrow> (case pl of GlobalFlag i \<Rightarrow> i < length (pr_args P) | CommandFlag i \<Rightarrow> i < length (cm_args (pr_cmds P ! c)))"

lemma same_place:
  assumes "same_decl P P'" "c < length (pr_cmds P)" "place_ok P c pl"
  shows "place_ok P' c pl" "bare (flag_at P' c pl) = bare (flag_at P c pl)"
  using assms map_eq_nth [OF same_command(2) [OF assms(1,2)]] map_eq_nth [of bare "pr_args P'" "pr_args P"]
  by (auto simp: place_ok_def flag_at_def same_decl_def split: flag_place.splits)

section \<open>Written arguments\<close>

text \<open>What a command line asks for, and doing it one by one.\<close>

datatype arg_request = SetOpt flag_place | SetVal flag_place cstring | SetPos cstring

primrec perform :: "'f doubles \<Rightarrow> nat \<Rightarrow> nat \<Rightarrow> arg_request list \<Rightarrow> 'f CmdParser \<Rightarrow> 'f parsed" where
  "perform fs c npos [] P = Inr (Some [], P)"
| "perform fs c npos (r # rs) P =
     (case r of
        SetOpt pl \<Rightarrow> perform fs c npos rs (set_flag c pl (cmdNumber (of_integer fs 1)) P)
      | SetVal pl v \<Rightarrow>
          validated (the (fl_validator (flag_at P c pl))) v (fl_name (flag_at P c pl)) P (\<lambda>v P. perform fs c npos rs (set_flag c pl v P))
      | SetPos s \<Rightarrow>
          (let ps = cm_pos (pr_cmds P ! c) in
           if length ps \<le> npos then fail_with (positional_error (length ps)) P
           else case ps_validator (ps ! npos) of
             None \<Rightarrow> perform fs c (Suc npos) rs (set_pos c npos (cmdString s) P)
           | Some vd \<Rightarrow> validated vd s (ps_name (ps ! npos)) P (\<lambda>v P. perform fs c (Suc npos) rs (set_pos c npos v P))))"

text \<open>
  Flags that can be told apart: no name is the beginning of another one, no letter is used twice, and names have no
  equals sign.
\<close>

definition flags_apart :: "'f CmdParser \<Rightarrow> nat \<Rightarrow> bool" where
  "flags_apart P c \<longleftrightarrow>
     (\<forall>pl. place_ok P c pl \<longrightarrow>
        (let f = flag_at P c pl in fl_name f \<noteq> [] \<and> 0x3D \<notin> set (fl_name f) \<and> length (fl_name f) < 2 ^ 32 \<and> fl_sf f \<noteq> 0x2D) \<and>
        (\<forall>pl'. place_ok P c pl' \<and> pl' \<noteq> pl \<longrightarrow>
           take (length (fl_name (flag_at P c pl))) (fl_name (flag_at P c pl')) \<noteq> fl_name (flag_at P c pl) \<and>
           (fl_sf (flag_at P c pl) \<noteq> 0 \<longrightarrow> fl_sf (flag_at P c pl') \<noteq> fl_sf (flag_at P c pl))))"

definition long_form :: "'f CmdFlag \<Rightarrow> cstring" where "long_form f = 0x2D # 0x2D # fl_name f"

definition short_form :: "'f CmdFlag \<Rightarrow> cstring" where "short_form f = [0x2D, fl_sf f]"

definition written :: "'f CmdParser \<Rightarrow> nat \<Rightarrow> arg_request \<Rightarrow> cstring list \<Rightarrow> bool" where
  "written P c r args \<longleftrightarrow>
     (case r of
        SetOpt pl \<Rightarrow> place_ok P c pl \<and> fl_validator (flag_at P c pl) = None \<and>
          (args = [long_form (flag_at P c pl)] \<or> fl_sf (flag_at P c pl) \<noteq> 0 \<and> args = [short_form (flag_at P c pl)])
      | SetVal pl v \<Rightarrow> place_ok P c pl \<and> fl_validator (flag_at P c pl) \<noteq> None \<and>
          (args = [long_form (flag_at P c pl), v] \<or> fl_sf (flag_at P c pl) \<noteq> 0 \<and> args = [short_form (flag_at P c pl), v] \<or>
           fl_sf (flag_at P c pl) \<noteq> 0 \<and> v \<noteq> [] \<and> args = [short_form (flag_at P c pl) @ v])
      | SetPos s \<Rightarrow> args = [s] \<and> (take 1 s \<noteq> [0x2D] \<or> s = [0x2D]))"

lemma first_index_unique:
  assumes "i < length xs" "Q (xs ! i)" "\<And>j. j < length xs \<Longrightarrow> j \<noteq> i \<Longrightarrow> \<not> Q (xs ! j)"
  shows "first_index Q xs = Some i"
proof (cases "first_index Q xs")
  case None
  then show ?thesis using assms(1,2) by (simp add: first_index_def find_None_iff)
next
  case (Some j)
  then have "j < length xs" "Q (xs ! j)" by (auto simp: first_index_def find_Some_iff)
  then show ?thesis using Some assms(3) by blast
qed

lemma first_index_none: "(\<And>j. j < length xs \<Longrightarrow> \<not> Q (xs ! j)) \<Longrightarrow> first_index Q xs = None"
  by (auto simp: first_index_def find_None_iff)

text \<open>The only place whose flag passes a test is the one that is found.\<close>

definition find_place :: "('f CmdFlag \<Rightarrow> bool) \<Rightarrow> nat \<Rightarrow> 'f CmdParser \<Rightarrow> flag_place option" where
  "find_place Q c P =
     (case first_index Q (pr_args P) of
        Some i \<Rightarrow> Some (GlobalFlag i)
      | None \<Rightarrow> map_option CommandFlag (first_index Q (cm_args (pr_cmds P ! c))))"

lemma find_place_unique:
  assumes "place_ok P c pl" "Q (flag_at P c pl)" "\<And>pl'. place_ok P c pl' \<Longrightarrow> pl' \<noteq> pl \<Longrightarrow> \<not> Q (flag_at P c pl')"
  shows "find_place Q c P = Some pl"
proof (cases pl)
  case (GlobalFlag i)
  have "first_index Q (pr_args P) = Some i"
    using assms(1,2) assms(3) [of "GlobalFlag j" for j]
    by (intro first_index_unique) (auto simp: GlobalFlag place_ok_def flag_at_def)
  then show ?thesis by (simp add: find_place_def GlobalFlag)
next
  case (CommandFlag i)
  have "first_index Q (pr_args P) = None"
    using assms(3) [of "GlobalFlag j" for j] by (intro first_index_none) (auto simp: CommandFlag place_ok_def flag_at_def)
  moreover have "first_index Q (cm_args (pr_cmds P ! c)) = Some i"
    using assms(1,2) assms(3) [of "CommandFlag j" for j]
    by (intro first_index_unique) (auto simp: CommandFlag place_ok_def flag_at_def)
  ultimately show ?thesis by (simp add: find_place_def CommandFlag)
qed

lemma find_flag_place:
  "find_flag s c P =
     (if cmdIsShortFlag s then find_place (\<lambda>f. fl_sf f \<noteq> 0 \<and> fl_sf f = s ! 1) c P
      else find_place (\<lambda>f. take (unat (fst (long_name (drop 2 s)))) (fl_name f) = take (unat (fst (long_name (drop 2 s)))) (drop 2 s)) c P)"
  unfolding find_flag_def flag_index_def find_place_def cmdFindByName_def cmdFindByShortFormat_def by simp

lemma flags_apartD:
  assumes "flags_apart P c" "place_ok P c pl"
  shows "fl_name (flag_at P c pl) \<noteq> []" "0x3D \<notin> set (fl_name (flag_at P c pl))" "length (fl_name (flag_at P c pl)) < 2 ^ 32"
    "fl_sf (flag_at P c pl) \<noteq> 0x2D"
    "place_ok P c pl' \<Longrightarrow> pl' \<noteq> pl \<Longrightarrow> take (length (fl_name (flag_at P c pl))) (fl_name (flag_at P c pl')) \<noteq> fl_name (flag_at P c pl)"
    "place_ok P c pl' \<Longrightarrow> pl' \<noteq> pl \<Longrightarrow> fl_sf (flag_at P c pl) \<noteq> 0 \<Longrightarrow> fl_sf (flag_at P c pl') \<noteq> fl_sf (flag_at P c pl)"
  using assms by (simp_all add: flags_apart_def Let_def)

lemma long_form_kind:
  assumes "fl_name f \<noteq> []"
  shows "\<not> cmdIsIgnoreArguments (long_form f)" "\<not> cmdIsShortFlag (long_form f)" "cmdIsLongFlag (long_form f)"
  using assms by (simp_all add: cmdIsIgnoreArguments_def cmdIsShortFlag_def cmdIsLongFlag_def long_form_def)

lemma long_form_value: "0x3D \<notin> set (fl_name f) \<Longrightarrow> fl_name f \<noteq> [] \<Longrightarrow> flag_value (long_form f) = None"
  by (simp add: flag_value_def cmdIsShortFlag_def long_form_def long_name_def)

lemma short_form_kind:
  assumes "fl_sf f \<noteq> 0x2D"
  shows "\<not> cmdIsIgnoreArguments (short_form f @ v)" "cmdIsShortFlag (short_form f @ v)"
    "flag_value (short_form f @ v) = (if v = [] then None else Some v)"
  using assms by (simp_all add: cmdIsIgnoreArguments_def cmdIsShortFlag_def short_form_def flag_value_def)

lemma find_flag_long:
  assumes "flags_apart P c" "place_ok P c pl"
  shows "find_flag (long_form (flag_at P c pl)) c P = Some pl"
proof -
  let ?n = "fl_name (flag_at P c pl)"
  have "fst (long_name ?n) = (of_nat (length ?n) :: u32)" using flags_apartD(2) [OF assms] by (simp add: long_name_def)
  moreover have "unat (of_nat (length ?n) :: u32) = length ?n" using flags_apartD(3) [OF assms] by (simp add: unat_of_nat)
  ultimately have u: "unat (fst (long_name ?n)) = length ?n" by simp
  have d: "drop 2 (long_form (flag_at P c pl)) = ?n" by (simp add: long_form_def)
  show ?thesis
    unfolding find_flag_place if_not_P [OF long_form_kind(2) [OF flags_apartD(1) [OF assms]]] d u
    using flags_apartD(5) [OF assms] assms(2) by (intro find_place_unique) auto
qed

lemma find_flag_short:
  assumes "flags_apart P c" "place_ok P c pl" "fl_sf (flag_at P c pl) \<noteq> 0"
  shows "find_flag (short_form (flag_at P c pl) @ v) c P = Some pl"
proof -
  have "(short_form (flag_at P c pl) @ v) ! 1 = fl_sf (flag_at P c pl)" by (simp add: short_form_def)
  then show ?thesis
    unfolding find_flag_place if_P [OF short_form_kind(2) [OF flags_apartD(4) [OF assms(1,2)]]]
    using flags_apartD(6) [OF assms(1,2) _ _ assms(3)] assms(2,3) by (intro find_place_unique) auto
qed

lemma place_ok_same:
  assumes "same_decl P P'" "c < length (pr_cmds P)"
  shows "place_ok P' c pl = place_ok P c pl"
proof -
  have "length (pr_args P') = length (pr_args P)" using assms(1) by (auto simp: same_decl_def dest: map_eq_imp_length_eq)
  moreover have "length (cm_args (pr_cmds P' ! c)) = length (cm_args (pr_cmds P ! c))" using same_command(2) [OF assms] by (rule map_eq_imp_length_eq)
  ultimately show ?thesis by (simp add: place_ok_def split: flag_place.split)
qed

lemma same_flag:
  assumes "same_decl P P'" "c < length (pr_cmds P)" "place_ok P c pl"
  shows "fl_name (flag_at P' c pl) = fl_name (flag_at P c pl)" "fl_sf (flag_at P' c pl) = fl_sf (flag_at P c pl)"
    "fl_validator (flag_at P' c pl) = fl_validator (flag_at P c pl)"
  using bare_fields [OF same_place(2) [OF assms]] by simp_all

lemma flags_apart_same:
  assumes "same_decl P P'" "c < length (pr_cmds P)" "flags_apart P c"
  shows "flags_apart P' c"
  using assms(3) unfolding flags_apart_def Let_def place_ok_same [OF assms(1,2)]
  by (simp add: same_flag [OF assms(1,2)])

lemma written_same:
  assumes "same_decl P P'" "c < length (pr_cmds P)" "written P c r args"
  shows "written P' c r args"
proof -
  have "long_form (flag_at P' c pl) = long_form (flag_at P c pl)" "short_form (flag_at P' c pl) = short_form (flag_at P c pl)"
    if "place_ok P c pl" for pl
    using same_flag [OF assms(1,2) that] by (simp_all add: long_form_def short_form_def)
  then show ?thesis
    using assms(3) same_flag [OF assms(1,2)] place_ok_same [OF assms(1,2)]
    by (auto simp: written_def split: arg_request.splits)
qed

section \<open>Parsing does what is asked for\<close>

lemma parse_long:
  assumes "flags_apart P c" "place_ok P c pl"
  defines "f \<equiv> flag_at P c pl"
  shows "fl_validator f = None \<Longrightarrow>
      cmdParseCommandArguments fs c npos (long_form f # argv) P = cmdParseCommandArguments fs c npos argv (set_flag c pl (cmdNumber (of_integer fs 1)) P)"
    and "fl_validator f = Some vd \<Longrightarrow>
      cmdParseCommandArguments fs c npos (long_form f # v # argv) P =
        validated vd v (fl_name f) P (\<lambda>v P. cmdParseCommandArguments fs c npos argv (set_flag c pl v P))"
proof -
  note k = long_form_kind [OF flags_apartD(1) [OF assms(1,2)], folded f_def]
  note fl = find_flag_long [OF assms(1,2), folded f_def] long_form_value [OF flags_apartD(2,1) [OF assms(1,2)], folded f_def]
  show "fl_validator f = None \<Longrightarrow>
      cmdParseCommandArguments fs c npos (long_form f # argv) P = cmdParseCommandArguments fs c npos argv (set_flag c pl (cmdNumber (of_integer fs 1)) P)"
    by (simp add: cmdParseCommandArguments.simps(2) k fl flip: f_def)
  show "fl_validator f = Some vd \<Longrightarrow>
      cmdParseCommandArguments fs c npos (long_form f # v # argv) P =
        validated vd v (fl_name f) P (\<lambda>v P. cmdParseCommandArguments fs c npos argv (set_flag c pl v P))"
    by (simp add: cmdParseCommandArguments.simps(2) k fl flip: f_def)
qed

lemma parse_short:
  assumes "flags_apart P c" "place_ok P c pl" "fl_sf (flag_at P c pl) \<noteq> 0"
  defines "f \<equiv> flag_at P c pl"
  shows "fl_validator f = None \<Longrightarrow>
      cmdParseCommandArguments fs c npos (short_form f # argv) P = cmdParseCommandArguments fs c npos argv (set_flag c pl (cmdNumber (of_integer fs 1)) P)"
    and "fl_validator f = Some vd \<Longrightarrow>
      cmdParseCommandArguments fs c npos (short_form f # v # argv) P =
        validated vd v (fl_name f) P (\<lambda>v P. cmdParseCommandArguments fs c npos argv (set_flag c pl v P))"
    and "fl_validator f = Some vd \<Longrightarrow> v \<noteq> [] \<Longrightarrow>
      cmdParseCommandArguments fs c npos ((short_form f @ v) # argv) P =
        validated vd v (fl_name f) P (\<lambda>v P. cmdParseCommandArguments fs c npos argv (set_flag c pl v P))"
proof -
  note k = short_form_kind [OF flags_apartD(4) [OF assms(1,2)], folded f_def]
  note fl = find_flag_short [OF assms(1-3), folded f_def]
  note k0 = k [where v = "[]", unfolded append_Nil2 if_P [OF refl]] and fl0 = fl [where v = "[]", unfolded append_Nil2]
  show "fl_validator f = None \<Longrightarrow>
      cmdParseCommandArguments fs c npos (short_form f # argv) P = cmdParseCommandArguments fs c npos argv (set_flag c pl (cmdNumber (of_integer fs 1)) P)"
    by (simp add: cmdParseCommandArguments.simps(2) k0 fl0 flip: f_def)
  show "fl_validator f = Some vd \<Longrightarrow>
      cmdParseCommandArguments fs c npos (short_form f # v # argv) P =
        validated vd v (fl_name f) P (\<lambda>v P. cmdParseCommandArguments fs c npos argv (set_flag c pl v P))"
    by (simp add: cmdParseCommandArguments.simps(2) k0 fl0 flip: f_def)
  show "fl_validator f = Some vd \<Longrightarrow> v \<noteq> [] \<Longrightarrow>
      cmdParseCommandArguments fs c npos ((short_form f @ v) # argv) P =
        validated vd v (fl_name f) P (\<lambda>v P. cmdParseCommandArguments fs c npos argv (set_flag c pl v P))"
    by (simp add: cmdParseCommandArguments.simps(2) k fl flip: f_def)
qed

lemma parse_pos:
  assumes "take 1 s \<noteq> [0x2D] \<or> s = [0x2D]"
  shows "cmdParseCommandArguments fs c npos (s # argv) P =
      (let ps = cm_pos (pr_cmds P ! c) in
       if npos \<ge> length ps then fail_with (positional_error (length ps)) P
       else case ps_validator (ps ! npos) of
         None \<Rightarrow> cmdParseCommandArguments fs c (Suc npos) argv (set_pos c npos (cmdString s) P)
       | Some vd \<Rightarrow>
           validated vd s (ps_name (ps ! npos)) P (\<lambda>v P. cmdParseCommandArguments fs c (Suc npos) argv (set_pos c npos v P)))"
proof -
  have "\<not> cmdIsIgnoreArguments s" "\<not> (cmdIsShortFlag s \<or> cmdIsLongFlag s)"
    using assms by (auto simp: cmdIsIgnoreArguments_def cmdIsShortFlag_def cmdIsLongFlag_def neq_Nil_conv split: list.splits)
  then show ?thesis by (simp add: cmdParseCommandArguments.simps(2))
qed

text \<open>One request.\<close>

lemma parse_written:
  assumes "flags_apart P c" "written P c r args"
    and "\<And>npos P'. same_decl P P' \<Longrightarrow> cmdParseCommandArguments fs c npos argv P' = perform fs c npos rs P'"
  shows "cmdParseCommandArguments fs c npos (args @ argv) P = perform fs c npos (r # rs) P"
proof (cases r)
  case (SetOpt pl)
  then show ?thesis using assms(2) by (auto simp: written_def parse_long(1) parse_short(1) assms(1,3))
next
  case (SetVal pl v)
  then obtain vd where pl: "place_ok P c pl" and vd: "fl_validator (flag_at P c pl) = Some vd"
    using assms(2) by (auto simp: written_def)
  have v: "cmdParseCommandArguments fs c npos (args @ argv) P =
      validated vd v (fl_name (flag_at P c pl)) P (\<lambda>v P. cmdParseCommandArguments fs c npos argv (set_flag c pl v P))"
    using assms(2) parse_long(2) [OF assms(1) pl vd] parse_short(2,3) [OF assms(1) pl _ vd] by (auto simp: written_def SetVal)
  have "same_decl P (set_flag c pl w (P\<lparr>pr_errno := er\<rparr>))" for w er by (rule same_decl_trans [of P "P\<lparr>pr_errno := er\<rparr>"]) simp_all
  then show ?thesis unfolding v by (auto simp: SetVal vd assms(3) intro: validated_cong)
next
  case (SetPos s)
  then have a: "args = [s]" "take 1 s \<noteq> [0x2D] \<or> s = [0x2D]" using assms(2) by (simp_all add: written_def)
  have d: "same_decl P (set_pos c i w (P\<lparr>pr_errno := er\<rparr>))" for i w er by (rule same_decl_trans [of P "P\<lparr>pr_errno := er\<rparr>"]) simp_all
  have v: "validated vd s name P (\<lambda>v P. cmdParseCommandArguments fs c (Suc npos) argv (set_pos c npos v P)) =
      validated vd s name P (\<lambda>v P. perform fs c (Suc npos) rs (set_pos c npos v P))" for vd name
    by (rule validated_cong) (simp_all add: assms(3) d)
  show ?thesis unfolding a(1) append_Cons append_Nil parse_pos [OF a(2)] v by (simp add: SetPos Let_def assms(3) split: option.split)
qed

text \<open>
  C35. The flags can be told apart. Then parsing written arguments - options by their long or their
  short name, with values in the next argument or behind the letter, and positional arguments - does the requests
  one by one in their order, up to the first error.
\<close>

theorem cmdParseCommandArguments_performs:
  assumes "same_decl P0 P" and "c < length (pr_cmds P0)" and "flags_apart P0 c" and "list_all2 (written P0 c) rs argss"
  shows "cmdParseCommandArguments fs c npos (concat argss) P = perform fs c npos rs P"
  using assms(4,1)
proof (induction arbitrary: npos P rule: list_all2_induct)
  case (Cons r rs args argss)
  have w: "written P c r args" using Cons(1) by (rule written_same [OF Cons.prems assms(2)])
  show ?case
    unfolding concat.simps
    using Cons.IH same_decl_trans [OF Cons.prems] by (intro parse_written [OF flags_apart_same [OF Cons.prems assms(2,3)] w]) blast
qed simp

section \<open>Commands whose parsing succeeds\<close>

lemma fail_with_None: "fail_with msg P = Inr (r, P') \<Longrightarrow> r = None \<and> same_decl P P'"
  by (auto simp: fail_with_def set_error_def split: if_splits)

lemma fail_with_same: "fail_with msg P = Inr (r, P') \<Longrightarrow> same_decl P P'"
  by (simp add: fail_with_None)

lemma validated_same:
  assumes "validated vd str name P cont = Inr (r, P')"
    and "\<And>v er. vd (pr_errno P) str name = (Inr v, er) \<Longrightarrow> cont v (P\<lparr>pr_errno := er\<rparr>) = Inr (r, P') \<Longrightarrow> same_decl (P\<lparr>pr_errno := er\<rparr>) P'"
  shows "same_decl P P'"
proof -
  obtain q er where q: "vd (pr_errno P) str name = (q, er)" by (cases "vd (pr_errno P) str name")
  have "same_decl (P\<lparr>pr_errno := er\<rparr>) P'"
    using assms q by (cases q) (auto simp: validated_def Let_def dest: fail_with_same)
  then show ?thesis by (rule same_decl_trans [OF same_decl_set(3)])
qed

lemma same_decl_after:
  "same_decl (set_flag c pl v P) P' \<Longrightarrow> same_decl P P'" "same_decl (set_pos c i v P) P' \<Longrightarrow> same_decl P P'"
  by (rule same_decl_trans [OF same_decl_set(1)], assumption) (rule same_decl_trans [OF same_decl_set(2)])

lemma parse_same_decl:
  "cmdParseCommandArguments fs c npos argv P = Inr (r, P') \<Longrightarrow> same_decl P P'"
proof (induction fs c npos argv P rule: cmdParseCommandArguments.induct)
  case (2 fs c npos arg argv P)
  note eq = 2(5) [unfolded cmdParseCommandArguments.simps(2)]
  consider (Ign) "cmdIsIgnoreArguments arg" | (Flag) "\<not> cmdIsIgnoreArguments arg" "cmdIsShortFlag arg \<or> cmdIsLongFlag arg"
    | (Pos) "\<not> cmdIsIgnoreArguments arg" "\<not> (cmdIsShortFlag arg \<or> cmdIsLongFlag arg)" by blast
  then show ?case
  proof cases
    case Ign
    then show ?thesis using eq by simp
  next
    case Flag
    note eq = eq [unfolded if_not_P [OF Flag(1)] if_P [OF Flag(2)]]
    show ?thesis
    proof (cases "find_flag arg c P")
      case (Some pl)
      note eq = eq [unfolded Some option.case] and IH = 2(1,2) [OF Flag Some]
      show ?thesis
      proof (cases "fl_validator (flag_at P c pl)")
        case None
        show ?thesis
          using eq [unfolded None option.case] IH(1) [OF None]
          by (auto split: if_splits dest: fail_with_same same_decl_after)
      next
        case (Some vd)
        note eq = eq [unfolded Some option.case] and IH = IH(2) [OF Some]
        show ?thesis
        proof (cases "take_value (flag_value arg) argv")
          case (Some va)
          obtain v argv' where va: "va = (v, argv')" by (cases va)
          show ?thesis
            using eq [unfolded Some va option.case prod.case] IH [OF Some va [symmetric]]
            by (elim validated_same) (rule same_decl_after(1), blast)
        qed (use eq in \<open>auto dest: fail_with_same\<close>)
      qed
    qed (use eq in \<open>auto dest: fail_with_same\<close>)
  next
    case Pos
    note eq = eq [unfolded if_not_P [OF Pos(1)] if_not_P [OF Pos(2)] Let_def] 
    show ?thesis
      using eq 2(3,4) [OF Pos refl]
      by (auto split: if_splits option.splits dest: fail_with_same same_decl_after(2) elim!: validated_same intro: same_decl_after(2) [where c = c and i = npos])
  qed
qed simp

subsection \<open>Validators give values\<close>

definition gives :: "'f validator option \<Rightarrow> bool" where
  "gives vd \<longleftrightarrow> (\<forall>w er str name. vd = Some w \<longrightarrow> fst (w er str name) \<noteq> Inr cmdNoValue)"

definition cmd_gives :: "'f CmdCommand \<Rightarrow> bool" where
  "cmd_gives cmd \<longleftrightarrow> (\<forall>f \<in> set (cm_args cmd). gives (fl_validator f)) \<and> (\<forall>p \<in> set (cm_pos cmd). gives (ps_validator p))"

definition filled :: "'f CmdParser \<Rightarrow> nat \<Rightarrow> nat \<Rightarrow> bool" where
  "filled P c i \<longleftrightarrow> fl_val (cm_args (pr_cmds P ! c) ! i) \<noteq> cmdNoValue \<or> fl_def (cm_args (pr_cmds P ! c) ! i) = Some []"

definition filled_pos :: "'f CmdParser \<Rightarrow> nat \<Rightarrow> nat \<Rightarrow> bool" where
  "filled_pos P c i \<longleftrightarrow>
     (let p = cm_pos (pr_cmds P ! c) ! i in ps_val p \<noteq> cmdNoValue \<or> ps_validator p = None \<or> ps_def p = Some [])"

lemma cmd_gives_bare: "cmd_gives (bare_cmd cmd) = cmd_gives cmd"
  by (simp add: cmd_gives_def bare_cmd_def bare_def bare_pos_def)

lemma cmd_gives_same:
  assumes "same_decl P P'" "c < length (pr_cmds P)"
  shows "cmd_gives (pr_cmds P' ! c) = cmd_gives (pr_cmds P ! c)"
proof -
  have "bare_cmd (pr_cmds P' ! c) = bare_cmd (pr_cmds P ! c)"
    using assms map_eq_nth [of bare_cmd "pr_cmds P'" "pr_cmds P" c] by (simp add: same_decl_def)
  then show ?thesis using cmd_gives_bare [of "pr_cmds P' ! c"] cmd_gives_bare [of "pr_cmds P ! c"] by simp
qed

text \<open>Filling in: declarations and global values stay, what was filled remains filled.\<close>

definition fills :: "nat \<Rightarrow> 'f CmdParser \<Rightarrow> 'f CmdParser \<Rightarrow> bool" where
  "fills c P P' \<longleftrightarrow> same_decl P P' \<and> pr_args P' = pr_args P \<and>
     (\<forall>i < length (cm_args (pr_cmds P ! c)). filled P c i \<longrightarrow> filled P' c i) \<and>
     (\<forall>i < length (cm_pos (pr_cmds P ! c)). filled_pos P c i \<longrightarrow> filled_pos P' c i)"

lemma fills_refl [simp]: "fills c P P"
  by (simp add: fills_def)

lemma fills_errno [simp]: "fills c P (P\<lparr>pr_errno := er\<rparr>)"
  by (simp add: fills_def filled_def filled_pos_def)

lemma fills_lengths:
  assumes "same_decl P P'" "c < length (pr_cmds P)"
  shows "length (cm_args (pr_cmds P' ! c)) = length (cm_args (pr_cmds P ! c))" "length (cm_pos (pr_cmds P' ! c)) = length (cm_pos (pr_cmds P ! c))"
  using same_command(2,3) [OF assms] by (blast dest: map_eq_imp_length_eq)+

lemma fills_trans:
  assumes "c < length (pr_cmds P)" "fills c P P1" "fills c P1 P2"
  shows "fills c P P2"
  using assms fills_lengths [of P P1 c] same_decl_trans [of P P1 P2] by (simp add: fills_def)

lemma fills_flag:
  assumes "v \<noteq> cmdNoValue" "c < length (pr_cmds P)" "i < length (cm_args (pr_cmds P ! c))"
  shows "fills c P (set_flag c (CommandFlag i) v P)" "filled (set_flag c (CommandFlag i) v P) c i"
proof -
  show "filled (set_flag c (CommandFlag i) v P) c i" using assms by (simp add: filled_def set_flag_def set_val_def)
  have "same_decl P (set_flag c (CommandFlag i) v P)" by simp
  then show "fills c P (set_flag c (CommandFlag i) v P)"
    using assms by (auto simp: fills_def filled_def filled_pos_def set_flag_def set_val_def nth_list_update)
qed

lemma fills_pos:
  assumes "v \<noteq> cmdNoValue" "c < length (pr_cmds P)" "i < length (cm_pos (pr_cmds P ! c))"
  shows "fills c P (set_pos c i v P)" "filled_pos (set_pos c i v P) c i"
proof -
  show "filled_pos (set_pos c i v P) c i" using assms by (simp add: filled_pos_def set_pos_def)
  have "same_decl P (set_pos c i v P)" by simp
  then show "fills c P (set_pos c i v P)"
    using assms by (auto simp: fills_def filled_def filled_pos_def set_pos_def nth_list_update)
qed

lemma validated_Some:
  assumes "validated vd str name P cont = Inr (Some l, P')" "gives (Some vd)"
  obtains v er where "v \<noteq> cmdNoValue" "cont v (P\<lparr>pr_errno := er\<rparr>) = Inr (Some l, P')"
proof -
  obtain q er where q: "vd (pr_errno P) str name = (q, er)" by (cases "vd (pr_errno P) str name")
  have "fst (vd (pr_errno P) str name) \<noteq> Inr cmdNoValue" using assms(2) unfolding gives_def by blast
  then show ?thesis
    using assms(1) q by (cases q) (auto simp: validated_def Let_def dest: fail_with_None intro: that)
qed

lemma fills_errno_flag:
  assumes "v \<noteq> cmdNoValue" "c < length (pr_cmds P)" "i < length (cm_args (pr_cmds P ! c))"
  shows "fills c P (set_flag c (CommandFlag i) v (P\<lparr>pr_errno := er\<rparr>))" "filled (set_flag c (CommandFlag i) v (P\<lparr>pr_errno := er\<rparr>)) c i"
  using fills_flag [of v c "P\<lparr>pr_errno := er\<rparr>" i] assms fills_trans [OF assms(2) fills_errno] by simp_all

lemma fills_errno_pos:
  assumes "v \<noteq> cmdNoValue" "c < length (pr_cmds P)" "i < length (cm_pos (pr_cmds P ! c))"
  shows "fills c P (set_pos c i v (P\<lparr>pr_errno := er\<rparr>))" "filled_pos (set_pos c i v (P\<lparr>pr_errno := er\<rparr>)) c i"
  using fills_pos [of v c "P\<lparr>pr_errno := er\<rparr>" i] assms fills_trans [OF assms(2) fills_errno] by simp_all

lemma gives_at:
  assumes "cmd_gives (pr_cmds P ! c)"
  shows "i < length (cm_args (pr_cmds P ! c)) \<Longrightarrow> gives (fl_validator (cm_args (pr_cmds P ! c) ! i))"
    and "i < length (cm_pos (pr_cmds P ! c)) \<Longrightarrow> gives (ps_validator (cm_pos (pr_cmds P ! c) ! i))"
  using assms by (simp_all add: cmd_gives_def)

lemma fillsD: "fills c P P' \<Longrightarrow> same_decl P P' \<and> pr_args P' = pr_args P"
  by (simp add: fills_def)

lemma fills_filled:
  "fills c P P' \<Longrightarrow> i < length (cm_args (pr_cmds P ! c)) \<Longrightarrow> filled P c i \<Longrightarrow> filled P' c i"
  "fills c P P' \<Longrightarrow> i < length (cm_pos (pr_cmds P ! c)) \<Longrightarrow> filled_pos P c i \<Longrightarrow> filled_pos P' c i"
  by (simp_all add: fills_def)

text \<open>A loop whose step fills one place and goes on fills every place.\<close>

lemma check_flags_fills:
  assumes "check_flags fs c argv is P = Inr (Some l, P')" "c < length (pr_cmds P)" "cmd_gives (pr_cmds P ! c)"
    "\<forall>i \<in> set is. i < length (cm_args (pr_cmds P ! c))"
  shows "fills c P P' \<and> (\<forall>i \<in> set is. filled P' c i)"
  using assms
proof (induction "is" arbitrary: P)
  case (Cons i "is")
  let ?f = "cm_args (pr_cmds P ! c) ! i"
  have i: "i < length (cm_args (pr_cmds P ! c))" using Cons.prems(4) by simp
  have go: "fills c P P' \<and> (\<forall>j \<in> set (i # is). filled P' c j)"
    if "fills c P P1" "filled P1 c i" "check_flags fs c argv is P1 = Inr (Some l, P')" for P1
  proof -
    have d: "same_decl P P1" using fillsD [OF that(1)] by simp
    have l: "c < length (pr_cmds P1)" using same_command(1) [OF d Cons.prems(2)] Cons.prems(2) by simp
    have i1: "i < length (cm_args (pr_cmds P1 ! c))" using i fills_lengths(1) [OF d Cons.prems(2)] by simp
    have "fills c P1 P' \<and> (\<forall>i \<in> set is. filled P' c i)"
      using Cons.prems(3,4) cmd_gives_same [OF d Cons.prems(2)] fills_lengths(1) [OF d Cons.prems(2)]
      by (intro Cons.IH [OF that(3) l]) simp_all
    then show ?thesis using fills_trans [OF Cons.prems(2) that(1)] fills_filled(1) [OF _ i1 that(2)] by simp
  qed
  note eq = Cons.prems(1) [unfolded check_flags.simps Let_def]
  show ?case
  proof (cases "fl_val ?f = cmdNoValue")
    case False
    then show ?thesis using eq by (intro go [OF fills_refl]) (simp_all add: filled_def)
  next
    case no: True
    show ?thesis
    proof (cases "fl_validator ?f")
      case None
      then show ?thesis using eq no by (intro go [OF fills_flag [OF _ Cons.prems(2) i]]) simp_all
    next
      case (Some vd)
      note vd = Some
      show ?thesis
      proof (cases "fl_def ?f")
        case None
        then show ?thesis using eq no vd fail_with_None by fastforce
      next
        case (Some d)
        show ?thesis
        proof (cases "d = []")
          case True
          then show ?thesis using eq no vd Some by (intro go [OF fills_refl]) (simp_all add: filled_def)
        next
          case False
          then have "validated vd d (fl_name ?f) P (\<lambda>v P. check_flags fs c argv is (set_flag c (CommandFlag i) v P)) = Inr (Some l, P')"
            using eq no vd Some by simp
          then show ?thesis
            using gives_at(1) [OF Cons.prems(3) i] vd
            by (elim validated_Some) (simp, rule go [OF fills_errno_flag [OF _ Cons.prems(2) i]])
        qed
      qed
    qed
  qed
qed simp

lemma check_positionals_fills:
  assumes "check_positionals c argv is P = Inr (Some l, P')" "c < length (pr_cmds P)" "cmd_gives (pr_cmds P ! c)"
    "\<forall>i \<in> set is. i < length (cm_pos (pr_cmds P ! c))"
  shows "fills c P P' \<and> (\<forall>i \<in> set is. filled_pos P' c i)"
  using assms
proof (induction "is" arbitrary: P)
  case (Cons i "is")
  let ?p = "cm_pos (pr_cmds P ! c) ! i"
  have i: "i < length (cm_pos (pr_cmds P ! c))" using Cons.prems(4) by simp
  have go: "fills c P P' \<and> (\<forall>j \<in> set (i # is). filled_pos P' c j)"
    if "fills c P P1" "filled_pos P1 c i" "check_positionals c argv is P1 = Inr (Some l, P')" for P1
  proof -
    have d: "same_decl P P1" using fillsD [OF that(1)] by simp
    have l: "c < length (pr_cmds P1)" using same_command(1) [OF d Cons.prems(2)] Cons.prems(2) by simp
    have i1: "i < length (cm_pos (pr_cmds P1 ! c))" using i fills_lengths(2) [OF d Cons.prems(2)] by simp
    have "fills c P1 P' \<and> (\<forall>i \<in> set is. filled_pos P' c i)"
      using Cons.prems(3,4) cmd_gives_same [OF d Cons.prems(2)] fills_lengths(2) [OF d Cons.prems(2)]
      by (intro Cons.IH [OF that(3) l]) simp_all
    then show ?thesis using fills_trans [OF Cons.prems(2) that(1)] fills_filled(2) [OF _ i1 that(2)] by simp
  qed
  note eq = Cons.prems(1) [unfolded check_positionals.simps Let_def]
  show ?case
  proof (cases "filled_pos P c i")
    case True
    then show ?thesis using eq by (intro go [OF fills_refl]) (auto simp: filled_pos_def Let_def split: if_splits option.splits)
  next
    case False
    then have no: "ps_val ?p = cmdNoValue" "ps_validator ?p \<noteq> None" "ps_def ?p \<noteq> Some []" by (simp_all add: filled_pos_def Let_def)
    then obtain vd where vd: "ps_validator ?p = Some vd" by blast
    show ?thesis
    proof (cases "ps_def ?p")
      case None
      then show ?thesis using eq no vd fail_with_None by fastforce
    next
      case (Some d)
      then have "validated vd d (ps_name ?p) P (\<lambda>v P. check_positionals c argv is (set_pos c i v P)) = Inr (Some l, P')"
        using eq no vd by simp
      then show ?thesis
        using gives_at(2) [OF Cons.prems(3) i] vd
        by (elim validated_Some) (simp, rule go [OF fills_errno_pos [OF _ Cons.prems(2) i]])
    qed
  qed
qed simp

lemma finish_fills:
  assumes "finish_command fs c left P = Inr (Some l, P')" "c < length (pr_cmds P)" "cmd_gives (pr_cmds P ! c)"
  shows "same_decl P P' \<and> (\<forall>i < length (cm_args (pr_cmds P' ! c)). filled P' c i) \<and> (\<forall>i < length (cm_pos (pr_cmds P' ! c)). filled_pos P' c i) \<and>
    \<not> is_on fs (cmdGetGlobalFlag P' 0) \<and> \<not> is_on fs (cmdGetGlobalFlag P' 1)"
proof -
  obtain l1 P1 where b: "cmdHandleBuiltins fs P = Inr ()" and P1: "check_flags fs c left [0..<length (cm_args (pr_cmds P ! c))] P = Inr (Some l1, P1)"
    and P2: "check_positionals c l1 [0..<length (cm_pos (pr_cmds P1 ! c))] P1 = Inr (Some l, P')"
    using assms(1) by (auto simp: finish_command_def split: option.splits)
  have f1: "fills c P P1 \<and> (\<forall>i \<in> set [0..<length (cm_args (pr_cmds P ! c))]. filled P1 c i)"
    by (rule check_flags_fills [OF P1 assms(2,3)]) simp
  then have d1: "same_decl P P1" using fillsD by blast
  have c1: "c < length (pr_cmds P1)" using same_command(1) [OF d1 assms(2)] assms(2) by simp
  have f2: "fills c P1 P' \<and> (\<forall>i \<in> set [0..<length (cm_pos (pr_cmds P1 ! c))]. filled_pos P' c i)"
    by (rule check_positionals_fills [OF P2 c1]) (simp_all add: cmd_gives_same [OF d1 assms(2)] assms(3))
  then have d2: "same_decl P1 P'" using fillsD by blast
  have args: "pr_args P' = pr_args P" using f1 f2 by (simp add: fills_def)
  have "filled P' c i" if "i < length (cm_args (pr_cmds P' ! c))" for i
    using that f1 f2 fills_lengths(1) [OF d1 assms(2)] fills_lengths(1) [OF d2 c1] fills_filled(1) [of c P1 P' i] by simp
  moreover have "\<not> is_on fs (cmdGetGlobalFlag P 0)" "\<not> is_on fs (cmdGetGlobalFlag P 1)"
    using b by (simp_all add: cmdHandleBuiltins_def split: if_splits)
  moreover have "cmdGetGlobalFlag P' i = cmdGetGlobalFlag P i" for i by (simp add: cmdGetGlobalFlag_def args)
  ultimately show ?thesis using same_decl_trans [OF d1 d2] f2 fills_lengths(2) [OF d2 c1] by simp
qed

subsection \<open>Preparation\<close>

lemma init_command_same: "vmInitializeCommand gArgs cmd = Inr cmd' \<Longrightarrow> bare_cmd cmd' = bare_cmd cmd"
  by (auto simp: vmInitializeCommand_def bare_cmd_def bare_def bare_pos_def split: if_splits)

lemma init_commands_same: "init_commands gArgs cmds = Inr cmds' \<Longrightarrow> map bare_cmd cmds' = map bare_cmd cmds"
  by (induction cmds arbitrary: cmds') (auto simp: init_command_same)

lemma init_parser_same: "init_parser P = Inr P' \<Longrightarrow> same_decl P P' \<and> pr_def P' = pr_def P"
  by (auto simp: init_parser_def Let_def same_decl_def init_commands_same bare_def split: if_splits)

lemma choose_command_bound:
  assumes "choose_command argv P = (Some c, args)" "\<forall>d. pr_def P = Some d \<longrightarrow> d < length (pr_cmds P)"
  shows "c < length (pr_cmds P)"
  using assms
  by (auto simp: choose_command_def cmdFindCommandByName_def first_index_def find_Some_iff split: list.splits if_splits option.splits)

text \<open>
  C34. A command line is accepted. Then there is a command with the id that is returned, and neither the
  version nor the help was asked for. Each of its flags has a value or the empty default; each of its positional
  arguments has a value, takes anything, or has the empty default. The declarations are as before.
\<close>

theorem parseCommandLineArguments_complete:
  assumes "parseCommandLineArguments fs argv P = Inr (r, left, P')" and "r \<noteq> - 1"
    and "\<forall>cmd \<in> set (pr_cmds P). cmd_gives cmd" and "\<forall>d. pr_def P = Some d \<longrightarrow> d < length (pr_cmds P)"
  shows "same_decl P P' \<and> \<not> is_on fs (cmdGetGlobalFlag P' 0) \<and> \<not> is_on fs (cmdGetGlobalFlag P' 1) \<and>
    (\<exists>c < length (pr_cmds P'). cm_id (pr_cmds P' ! c) = r \<and>
       (\<forall>i < length (cm_args (pr_cmds P' ! c)). filled P' c i) \<and> (\<forall>i < length (cm_pos (pr_cmds P' ! c)). filled_pos P' c i))"
proof -
  obtain P1 c args where P1: "init_parser P = Inr P1" and c: "choose_command (tl argv) P1 = (Some c, args)"
    and P: "bnd (cmdParseCommandArguments fs c 0 args P1) (\<lambda>(r, P). case r of
        None \<Rightarrow> Inr (- 1, argv, P)
      | Some left \<Rightarrow> bnd (finish_command fs c left P) (\<lambda>(r, P). case r of
          None \<Rightarrow> Inr (- 1, argv, P)
        | Some left \<Rightarrow> Inr (cm_id (pr_cmds P ! c), left, P))) = Inr (r, left, P')"
    using assms(1,2) by (auto simp: parseCommandLineArguments_def split: if_splits prod.splits option.splits)
  obtain l2 P2 where P2: "cmdParseCommandArguments fs c 0 args P1 = Inr (Some l2, P2)" and P3: "finish_command fs c l2 P2 = Inr (Some left, P')"
    and r: "r = cm_id (pr_cmds P' ! c)"
    using P assms(2) by (auto split: option.splits)
  have d1: "same_decl P P1" "pr_def P1 = pr_def P" using init_parser_same [OF P1] by simp_all
  have l1: "length (pr_cmds P1) = length (pr_cmds P)" using d1(1) unfolding same_decl_def by (blast dest: map_eq_imp_length_eq)
  have c1: "c < length (pr_cmds P1)" using c assms(4) d1(2) l1 by (intro choose_command_bound [OF c]) simp
  have d2: "same_decl P1 P2" using P2 by (rule parse_same_decl)
  have c2: "c < length (pr_cmds P2)" using same_command(1) [OF d2 c1] c1 by simp
  have "cmd_gives (pr_cmds P2 ! c)"
    using assms(3) c1 l1 cmd_gives_same [OF d2 c1] cmd_gives_same [OF d1(1), of c] by simp
  note f = finish_fills [OF P3 c2 this]
  then have "same_decl P P'" using same_decl_trans [OF same_decl_trans [OF d1(1) d2]] by blast
  moreover have "c < length (pr_cmds P')" using f same_command(1) [of P2 P' c] c2 by simp
  ultimately show ?thesis using f r by blast
qed

section \<open>An example\<close>

definition ints :: "int doubles" where
  "ints = \<lparr>of_integer = (\<lambda>i. i), scaled = (\<lambda>k x. x * 2 ^ k), non_zero = (\<lambda>x. x \<noteq> 0), strtod = (\<lambda>s. (0, s, False))\<rparr>"

definition sample_flag :: "string \<Rightarrow> u8 \<Rightarrow> cstring option \<Rightarrow> int validator option \<Rightarrow> int CmdFlag" where
  "sample_flag name sf d vd =
     \<lparr>fl_name = bytes_of name, fl_sf = sf, fl_help = None, fl_def = d, fl_val = cmdNoValue, isAppOnly = False, fl_validator = vd\<rparr>"

definition sample_command :: "int CmdCommand" where
  "sample_command =
     \<lparr>cm_name = bytes_of ''run'', cm_help = None,
      cm_pos = [\<lparr>ps_name = bytes_of ''file'', ps_help = None, ps_def = None, ps_val = cmdNoValue, ps_validator = Some cmdParseString\<rparr>],
      cm_lp = 0, cm_la = 0, cm_id = 7,
      cm_args = [sample_flag ''mem'' 0x6D None (Some (cmdParseByteSize ints)), sample_flag ''out'' 0 (Some [0x61]) (Some cmdParseString)]\<rparr>"

definition sample_parser :: "int CmdParser" where
  "sample_parser =
     \<lparr>pr_name = [], pr_version = [], pr_def = None, pr_la = 0, pr_lc = 0, pr_cmds = [sample_command],
      pr_args = [sample_flag ''version'' 0x76 None None, sample_flag ''help'' 0x68 None None], pr_error = [], pr_errno = False\<rparr>"

lemma sample_place: "place_ok sample_parser 0 pl \<longleftrightarrow> pl \<in> {GlobalFlag 0, GlobalFlag 1, CommandFlag 0, CommandFlag 1}"
  by (auto simp: place_ok_def sample_parser_def sample_command_def less_Suc_eq split: flag_place.split)

lemma sample_names:
  "fl_name (flag_at sample_parser 0 (GlobalFlag 0)) = [0x76, 0x65, 0x72, 0x73, 0x69, 0x6F, 0x6E]"
  "fl_name (flag_at sample_parser 0 (GlobalFlag (Suc 0))) = [0x68, 0x65, 0x6C, 0x70]"
  "fl_name (flag_at sample_parser 0 (CommandFlag 0)) = [0x6D, 0x65, 0x6D]"
  "fl_name (flag_at sample_parser 0 (CommandFlag (Suc 0))) = [0x6F, 0x75, 0x74]"
  "fl_sf (flag_at sample_parser 0 (GlobalFlag 0)) = 0x76" "fl_sf (flag_at sample_parser 0 (GlobalFlag (Suc 0))) = 0x68"
  "fl_sf (flag_at sample_parser 0 (CommandFlag 0)) = 0x6D" "fl_sf (flag_at sample_parser 0 (CommandFlag (Suc 0))) = 0"
  by code_simp+

lemma sample_apart: "flags_apart sample_parser 0"
  unfolding flags_apart_def sample_place Let_def by (simp add: sample_names all_conj_distrib imp_conjL)

lemma read_4k: "read_integer [0x34, 0x6B] = (False, 4, [0x6B])"
  by code_simp

lemma size_4k: "cmdParseByteSize ints False [0x34, 0x6B] name = (Inr (cmdNumber 4096), False)"
  by (simp add: cmdParseByteSize_def strtoull0_def read_4k unit_scale_def ints_def)

text \<open>For the evaluation of an example: what comes after a validation is looked at after it.\<close>

lemma validated_later:
  "vd = vd' \<Longrightarrow> str = str' \<Longrightarrow> name = name' \<Longrightarrow> P = P' \<Longrightarrow> validated vd str name P cont = validated vd' str' name' P' cont"
  by simp

lemmas sample_defs = sample_parser_def sample_command_def sample_flag_def bytes_of_def

lemmas prepare_defs = init_parser_def vmInitializeCommand_def clash_def widest_def choose_command_def cmdFindCommandByName_def
  first_index_def upt_rec Let_def

lemmas parse_defs = cmdParseCommandArguments.simps(2) cmdIsIgnoreArguments_def cmdIsShortFlag_def cmdIsLongFlag_def find_flag_def
  flag_index_def flag_value_def cmdFindByShortFormat_def cmdFindByName_def flag_at_def set_flag_def set_pos_def set_val_def validated_def

lemmas finish_defs = finish_command_def cmdHandleBuiltins_def cmdGetGlobalFlag_def value_of_def is_on_def

lemma sample_run:
  "\<exists>P'. parseCommandLineArguments ints (map bytes_of [''cyn'', ''run'', ''-m4k'', ''in'']) sample_parser = Inr (7, [], P')"
  by (simp cong: validated_later
      add: parseCommandLineArguments_def sample_defs prepare_defs parse_defs finish_defs size_4k cmdParseString_def)

theorem parseCommandLineArguments_complete_witness:
  "\<exists>P'. parseCommandLineArguments ints (map bytes_of [''cyn'', ''run'', ''-m4k'', ''in'']) sample_parser = Inr (7, [], P') \<and>
    filled P' 0 0 \<and> filled P' 0 1 \<and> filled_pos P' 0 0"
proof -
  obtain P' where p: "parseCommandLineArguments ints (map bytes_of [''cyn'', ''run'', ''-m4k'', ''in'']) sample_parser = Inr (7, [], P')"
    using sample_run by blast
  have g: "\<forall>cmd \<in> set (pr_cmds sample_parser). cmd_gives cmd"
    by (auto simp: sample_parser_def sample_command_def sample_flag_def cmd_gives_def gives_def cmdParseString_def cmdParseByteSize_def
      split: prod.splits list.splits option.splits)
  have d: "\<forall>d. pr_def sample_parser = Some d \<longrightarrow> d < length (pr_cmds sample_parser)" by (simp add: sample_parser_def)
  have "(7::u32) \<noteq> - 1" by simp
  note c = parseCommandLineArguments_complete [OF p this g d]
  then have s: "same_decl sample_parser P'" by blast
  have l: "0 < length (pr_cmds sample_parser)" by (simp add: sample_parser_def)
  have "length (pr_cmds P') = 1" using same_command(1) [OF s l] by (simp add: sample_parser_def)
  moreover have "length (cm_args (pr_cmds P' ! 0)) = 2" "length (cm_pos (pr_cmds P' ! 0)) = 1"
    using fills_lengths [OF s l] by (simp_all add: sample_parser_def sample_command_def)
  ultimately show ?thesis using c p by auto
qed

theorem cmdParseBitFlags_names_witness:
  "cmdParseBitFlags ints [(bytes_of ''read'', 1), (bytes_of ''write'', 2)] (bytes_of ''Read|WRITE'') (bytes_of ''mode'') = Some (Inr (cmdNumber 3)) \<and>
   cmdParseBitFlags ints [(bytes_of ''read'', 1), (bytes_of ''write'', 2)] (bytes_of ''r|write'') (bytes_of ''mode'') = None"
proof -
  let ?ns = "map bytes_of [''Read'', ''WRITE'']"
  have n: "\<forall>n \<in> set ?ns. bit_name n" "(0x72::u8) \<noteq> 0x7C" "\<not> isspace 0x72" by code_simp+
  have b: "barred ?ns = bytes_of ''Read|WRITE''" "0x72 # 0x7C # bytes_of ''write'' = bytes_of ''r|write''" by code_simp+
  have v: "all_bits [(bytes_of ''read'', 1), (bytes_of ''write'', 2)] (bytes_of ''mode'') 0 ?ns = Inr 3" by code_simp
  show ?thesis
    using cmdParseBitFlags_names [OF _ n, where fs = ints and bits = "[(bytes_of ''read'', 1), (bytes_of ''write'', 2)]" and name = "bytes_of ''mode''"
      and s = "bytes_of ''write''"]
    unfolding b v by (simp add: ints_def)
qed

theorem cmdParseCommandArguments_performs_witness:
  "cmdParseCommandArguments ints 0 0 (map bytes_of [''-m4k'', ''--out'', ''b'', ''-v'', ''in'']) sample_parser =
   perform ints 0 0 [SetVal (CommandFlag 0) (bytes_of ''4k''), SetVal (CommandFlag 1) (bytes_of ''b''), SetOpt (GlobalFlag 0), SetPos (bytes_of ''in'')]
     sample_parser"
proof -
  let ?rs = "[SetVal (CommandFlag 0) (bytes_of ''4k''), SetVal (CommandFlag 1) (bytes_of ''b''), SetOpt (GlobalFlag 0), SetPos (bytes_of ''in'')]"
  let ?as = "[[bytes_of ''-m4k''], [bytes_of ''--out'', bytes_of ''b''], [bytes_of ''-v''], [bytes_of ''in'']]"
  have l: "0 < length (pr_cmds sample_parser)" by code_simp
  have f: "short_form (flag_at sample_parser 0 (CommandFlag 0)) @ bytes_of ''4k'' = bytes_of ''-m4k''"
    "long_form (flag_at sample_parser 0 (CommandFlag (Suc 0))) = bytes_of ''--out''"
    "short_form (flag_at sample_parser 0 (GlobalFlag 0)) = bytes_of ''-v''"
    "bytes_of ''4k'' \<noteq> []" "take (Suc 0) (bytes_of ''in'') \<noteq> [0x2D]"
    by code_simp+
  have v: "fl_validator (flag_at sample_parser 0 (CommandFlag 0)) \<noteq> None" "fl_validator (flag_at sample_parser 0 (CommandFlag (Suc 0))) \<noteq> None"
    "fl_validator (flag_at sample_parser 0 (GlobalFlag 0)) = None"
    by (simp_all add: flag_at_def sample_parser_def sample_command_def sample_flag_def)
  have w: "list_all2 (written sample_parser 0) ?rs ?as" by (simp add: written_def sample_place sample_names f v)
  show ?thesis
    using cmdParseCommandArguments_performs [OF same_decl_refl l sample_apart w, where fs = ints and npos = 0] by simp
qed

end
