(* ===== verification/Cyn_Usage.thy ===== *)
theory Cyn_Usage
  imports Cyn_Args
begin

text \<open>
  The texts that the parser of command lines prints (\<^verbatim>\<open>src/args.c\<close>). A file is the list of its bytes. Widths are in 32
  bits and wrap around. A function gives the new contents of the file, or \<open>None\<close> when it calls itself for ever.
\<close>

section \<open>Indented text\<close>

text \<open>\<open>printf\<close> of a blank in a field; a negative width is a width to the other side.\<close>

definition padded :: "u32 \<Rightarrow> cstring" where
  "padded n = replicate (max 1 (nat \<bar>sint n\<bar>)) 0x20"

text \<open>The width of the terminal, if the system knows it.\<close>

definition cmdTerminalColumns :: "u16 option \<Rightarrow> u32" where
  "cmdTerminalColumns ws = (case ws of Some c \<Rightarrow> max 80 (ucast c) | None \<Rightarrow> 80)"

text \<open>The length of a word with its blank.\<close>

definition word_size :: "cstring \<Rightarrow> nat" where
  "word_size s = (if 0x20 \<in> set s then Suc (length (takeWhile (\<lambda>c. c \<noteq> 0x20) s)) else length s)"

lemma word_size_pos: "s \<noteq> [] \<Longrightarrow> 0 < word_size s"
  by (simp add: word_size_def)

lemma word_size_le: "word_size s \<le> length s"
proof (cases "0x20 \<in> set s")
  case True
  then have "takeWhile (\<lambda>c. c \<noteq> 0x20) s \<noteq> s" by (metis (mono_tags) takeWhile_eq_all_conv)
  then have "length (takeWhile (\<lambda>c. c \<noteq> 0x20) s) < length s"
    using length_takeWhile_le [of "\<lambda>c. c \<noteq> 0x20" s] takeWhile_eq_take [of "\<lambda>c. c \<noteq> 0x20" s] by (cases "length (takeWhile (\<lambda>c. c \<noteq> 0x20) s) = length s") auto
  then show ?thesis by (simp add: word_size_def True)
qed (simp add: word_size_def)

text \<open>The words of a line, and the text that is left when one does not fit.\<close>

function add_words :: "u32 \<Rightarrow> u32 \<Rightarrow> cstring \<Rightarrow> cstring \<Rightarrow> cstring \<times> cstring option" where
  "add_words i room str fp =
     (if str = [] then (fp, None)
      else
        let n = word_size str in
        if i + of_nat n > room then (fp @ [0x0A], Some str)
        else add_words (i + of_nat n) room (drop n str) (fp @ take n str))"
  by auto
termination by (relation "measure (\<lambda>(i, room, str, fp). length str)") (auto simp: word_size_pos)

declare add_words.simps [simp del]

partial_function (option) cmdAddIndented :: "u32 \<Rightarrow> u32 \<Rightarrow> cstring \<Rightarrow> u32 \<Rightarrow> cstring \<Rightarrow> (bool \<times> cstring) option" where
  "cmdAddIndented ident col str added fp =
     (if col < 20 then Some (False, fp)
      else if str = [] then Some (True, fp)
      else
        let fp = (if added = 0 then fp @ padded ident else fp);
            added = (if added = - 1 then 0 else added)
        in case add_words ident (col - added) str fp of
             (fp, None) \<Rightarrow> Some (True, fp)
           | (fp, Some str) \<Rightarrow> cmdAddIndented ident col str 0 fp)"

text \<open>The help text, if there is one, behind a default whose text takes \<open>defLen\<close> columns.\<close>

definition add_help :: "u32 \<Rightarrow> u32 \<Rightarrow> cstring option \<Rightarrow> u32 \<Rightarrow> cstring \<Rightarrow> cstring option" where
  "add_help ident cols help defLen fp =
     (case help of None \<Rightarrow> Some fp | Some h \<Rightarrow> map_option snd (cmdAddIndented ident cols h defLen fp))"

section \<open>Usage\<close>

text \<open>The blanks in front of a name in a column: 64 bits, cut to 32.\<close>

definition column_spaces :: "u16 \<Rightarrow> cstring \<Rightarrow> u32" where
  "column_spaces la name = ucast ((ucast la - of_nat (length name) :: u64) + 2)"

definition default_text :: "cstring option \<Rightarrow> cstring \<times> u32" where
  "default_text d =
     (case d of
        Some v \<Rightarrow> if v \<noteq> [] then (bytes_of ''(Default: '' @ v @ bytes_of '') '', of_nat (length v) + 12) else ([], - 1)
      | None \<Rightarrow> ([], - 1))"

definition star :: "'f validator option \<Rightarrow> cstring option \<Rightarrow> u8" where
  "star vd d = (if vd \<noteq> None \<and> d = None then 0x2A else 0x20)"

definition cmdShowCommandFlag :: "'f CmdFlag \<Rightarrow> u16 \<Rightarrow> u32 \<Rightarrow> bool \<Rightarrow> cstring \<Rightarrow> cstring option" where
  "cmdShowCommandFlag arg la cols skipStar fp =
     (let spaces = column_spaces la (fl_name arg);
          ident = spaces + 4 + (if skipStar then 0 else 1) + of_nat (length (fl_name arg)) + 2 + 2;
          spaces = spaces + (if fl_sf arg = 0 then 4 else 0);
          fp = fp @ padded spaces;
          fp = (if skipStar then fp else fp @ [star (fl_validator arg) (fl_def arg)]);
          fp = (if fl_sf arg \<noteq> 0 then fp @ [0x2D, fl_sf arg, 0x2C, 0x20] else fp);
          fp = fp @ [0x2D, 0x2D] @ fl_name arg @ [if fl_validator arg \<noteq> None then 0x3D else 0x20, 0x20]
      in case default_text (fl_def arg) of (d, defLen) \<Rightarrow>
         map_option (\<lambda>fp. fp @ [0x0A]) (add_help ident cols (fl_help arg) defLen (fp @ d)))"

definition show_positional :: "u16 \<Rightarrow> u32 \<Rightarrow> 'f CmdPositional \<Rightarrow> cstring \<Rightarrow> cstring option" where
  "show_positional lp cols pos fp =
     (let spaces = column_spaces lp (ps_name pos);
          ident = spaces + of_nat (length (ps_name pos)) + 2;
          fp = fp @ padded spaces @ [star (ps_validator pos) (ps_def pos)] @ ps_name pos @ [0x20]
      in case default_text (ps_def pos) of (d, defLen) \<Rightarrow>
         map_option (\<lambda>fp. fp @ [0x0A]) (add_help ident cols (ps_help pos) defLen (fp @ d)))"

primrec show_each :: "('a \<Rightarrow> cstring \<Rightarrow> cstring option) \<Rightarrow> 'a list \<Rightarrow> cstring \<Rightarrow> cstring option" where
  "show_each f [] fp = Some fp"
| "show_each f (x # xs) fp = Option.bind (f x fp) (show_each f xs)"

definition cmdShowCommandUsage :: "'f CmdParser \<Rightarrow> 'f CmdCommand \<Rightarrow> u32 \<Rightarrow> cstring \<Rightarrow> cstring option" where
  "cmdShowCommandUsage P cmd cols fp =
     (let fp = fp @ bytes_of ''Usage: '' @ pr_name P @ [0x20] @ cm_name cmd;
          fp = (if cm_args cmd \<noteq> [] \<or> pr_args P \<noteq> [] then fp @ bytes_of '' [options]'' else fp);
          fp = (if cm_pos cmd \<noteq> [] then fp @ bytes_of '' ...'' else fp);
          fp = fp @ [0x0A, 0x0A]
      in Option.bind
           (if cm_pos cmd \<noteq> [] then show_each (show_positional (cm_lp cmd) cols) (cm_pos cmd) (fp @ bytes_of ''Command inputs (in order):'' @ [0x0A])
            else Some fp) (\<lambda>fp.
         if cm_args cmd \<noteq> [] then
           show_each (\<lambda>arg. cmdShowCommandFlag arg (cm_la cmd) cols False) (cm_args cmd) (fp @ [0x0A] @ bytes_of ''Command options:'' @ [0x0A])
         else Some fp))"

definition show_command :: "'f CmdParser \<Rightarrow> u32 \<Rightarrow> nat \<Rightarrow> cstring \<Rightarrow> cstring option" where
  "show_command P cols i fp =
     (let cmd = pr_cmds P ! i;
          spaces = column_spaces (pr_lc P) (cm_name cmd);
          ident = spaces + 1 + of_nat (length (cm_name cmd)) + 1;
          fp = fp @ padded spaces @ [if pr_def P = Some i then 0x2A else 0x20] @ cm_name cmd @ [0x20]
      in map_option (\<lambda>fp. fp @ [0x0A]) (add_help ident cols (cm_help cmd) (- 1) fp))"

text \<open>
  The usage of a command or of the program. The variable for the command is used in the loop over the commands as well, so
  behind it the flags of the application are shown only if there is no command at all.
\<close>

definition cmdShowUsage :: "'f CmdParser \<Rightarrow> cstring option \<Rightarrow> u16 option \<Rightarrow> cstring \<Rightarrow> cstring option" where
  "cmdShowUsage P name ws fp =
     (let cols = cmdTerminalColumns ws;
          cmd = Option.bind name (cmdFindCommandByName P)
      in Option.bind
           (case cmd of
              Some c \<Rightarrow> cmdShowCommandUsage P (pr_cmds P ! c) cols fp
            | None \<Rightarrow>
                show_each (show_command P cols) [0..<length (pr_cmds P)]
                  (fp @ bytes_of ''Usage: '' @ pr_name P @ bytes_of '' [cmd] ...'' @ [0x0A, 0x0A] @ bytes_of ''Commands:'' @ [0x0A])) (\<lambda>fp.
         let some_cmd = (cmd \<noteq> None \<or> pr_cmds P \<noteq> []) in
         if pr_args P \<noteq> [] then
           show_each (\<lambda>arg fp. if isAppOnly arg \<and> some_cmd then Some fp else cmdShowCommandFlag arg (pr_la P) cols True fp)
             (pr_args P) (fp @ [0x0A] @ bytes_of ''Global Flags:'' @ [0x0A])
         else Some fp))"

section \<open>Wrapping\<close>

text \<open>The words of a text, with their blanks.\<close>

function chunks :: "cstring \<Rightarrow> cstring list" where
  "chunks s = (if s = [] then [] else take (word_size s) s # chunks (drop (word_size s) s))"
  by auto
termination by (relation "measure length") (auto simp: word_size_pos)

declare chunks.simps [simp del]

lemma chunks_Nil [simp]: "chunks [] = []"
  by (simp add: chunks.simps)

lemma concat_chunks [simp]: "concat (chunks s) = s"
proof (induction s rule: chunks.induct)
  case (1 s)
  then show ?case by (cases "s = []") (simp_all add: chunks.simps [of s])
qed

text \<open>What a line takes: words that fit, until one does not.\<close>

lemma add_words_line:
  assumes "add_words i room str fp = (fp', left)" "uint i + int (length str) < 2 ^ 32"
  shows "\<exists>ws r. chunks str = ws @ chunks r \<and> (ws \<noteq> [] \<longrightarrow> uint i + int (length (concat ws)) \<le> uint room) \<and>
    (case left of
       None \<Rightarrow> r = [] \<and> fp' = fp @ concat ws
     | Some str' \<Rightarrow> r = str' \<and> str' \<noteq> [] \<and> fp' = fp @ concat ws @ [0x0A] \<and>
         uint i + int (length (concat ws)) + int (length (hd (chunks r))) > uint room)"
  using assms
proof (induction i room str fp arbitrary: fp' rule: add_words.induct)
  case (1 i room str fp)
  show ?case
  proof (cases "str = []")
    case True
    then show ?thesis using 1(2) by (intro exI [of _ "[]"] exI [of _ "[]"]) (auto simp: add_words.simps)
  next
    case ne: False
    let ?n = "word_size str"
    have le: "uint i + int ?n < 2 ^ 32" using 1(3) word_size_le [of str] by linarith
    have "int ?n < 2 ^ 32" using le uint_ge_0 [of i] by linarith
    then have "?n < 2 ^ 32" by simp
    then have "uint (of_nat ?n :: u32) = int ?n" by (simp add: unsigned_of_nat take_bit_nat_eq_self)
    then have u: "uint (i + of_nat ?n) = uint i + int ?n" using le uint_ge_0 [of i] by (simp add: uint_word_ariths)
    have c: "chunks str = take ?n str # chunks (drop ?n str)" using ne by (subst chunks.simps) simp
    have l: "length (take ?n str) = ?n" using word_size_le [of str] by simp
    show ?thesis
    proof (cases "i + of_nat ?n > room")
      case True
      then have "uint room < uint i + int ?n" unfolding word_less_def u .
      moreover have "fp' = fp @ [0x0A]" "left = Some str" using 1(2) ne True by (simp_all add: add_words.simps [of i room str fp] Let_def)
      ultimately show ?thesis using ne c l by (intro exI [of _ "[]"] exI [of _ str]) simp
    next
      case False
      then have f: "uint i + int ?n \<le> uint room" using u by (simp add: word_less_def)
      have e: "add_words (i + of_nat ?n) room (drop ?n str) (fp @ take ?n str) = (fp', left)"
        using 1(2) ne False by (simp add: add_words.simps [of i room str fp] Let_def)
      have b: "uint (i + of_nat ?n) + int (length (drop ?n str)) < 2 ^ 32" using 1(3) u word_size_le [of str] by simp
      obtain ws r where w: "chunks (drop ?n str) = ws @ chunks r" "ws \<noteq> [] \<longrightarrow> uint (i + of_nat ?n) + int (length (concat ws)) \<le> uint room"
        "case left of None \<Rightarrow> r = [] \<and> fp' = (fp @ take ?n str) @ concat ws
         | Some str' \<Rightarrow> r = str' \<and> str' \<noteq> [] \<and> fp' = (fp @ take ?n str) @ concat ws @ [0x0A] \<and>
             uint (i + of_nat ?n) + int (length (concat ws)) + int (length (hd (chunks r))) > uint room"
        using 1(1) [OF ne refl False e b] by blast
      have "uint i + int (length (concat (take ?n str # ws))) \<le> uint room" using w(2) f u l by (cases "ws = []") simp_all
      then show ?thesis using w c u l by (intro exI [of _ "take ?n str # ws"] exI [of _ r]) (auto split: option.splits)
    qed
  qed
qed

text \<open>Lines with a line break and the indentation between them.\<close>

fun joined :: "u32 \<Rightarrow> cstring list \<Rightarrow> cstring" where
  "joined ident [] = []"
| "joined ident [l] = l"
| "joined ident (l # ls) = l @ [0x0A] @ padded ident @ joined ident ls"

lemma joined_Cons: "ls \<noteq> [] \<Longrightarrow> joined ident (l # ls) = l @ [0x0A] @ padded ident @ joined ident ls"
  by (cases ls) simp_all

lemma chunk_in_text: "w \<in> set (chunks s) \<Longrightarrow> length w \<le> length s"
  using sum_list_map_remove1 [of w "chunks s" length] by (metis concat_chunks le_add1 length_concat)

lemma chunks_ne: "s \<noteq> [] \<Longrightarrow> chunks s \<noteq> []"
  by (subst chunks.simps) simp

definition all_fit :: "u32 \<Rightarrow> u32 \<Rightarrow> cstring \<Rightarrow> bool" where
  "all_fit ident col s \<longleftrightarrow> (\<forall>w \<in> set (chunks s). uint ident + int (length w) \<le> uint col)"

text \<open>One line: a part of the words, and the rest on the next lines.\<close>

lemma indented_line:
  fixes ident col added :: u32
  assumes "20 \<le> col" "str \<noteq> []" "uint ident + int (length str) < 2 ^ 32"
  defines "a \<equiv> (if added = - 1 then 0 else added)" and "start \<equiv> (if added = 0 then padded ident else [])"
  obtains (Last) "cmdAddIndented ident col str added fp = Some (True, fp @ start @ str)" "uint ident + int (length str) \<le> uint (col - a)"
    | (More) ws r where "cmdAddIndented ident col str added fp = cmdAddIndented ident col r 0 (fp @ start @ concat ws @ [0x0A])"
      "chunks str = ws @ chunks r" "r \<noteq> []" "ws \<noteq> [] \<Longrightarrow> uint ident + int (length (concat ws)) \<le> uint (col - a)"
      "ws = [] \<Longrightarrow> uint (col - a) < uint ident + int (length (hd (chunks str)))"
proof -
  obtain fp' left where e: "add_words ident (col - a) str (fp @ start) = (fp', left)" by (cases "add_words ident (col - a) str (fp @ start)")
  have c: "cmdAddIndented ident col str added fp =
      (case left of None \<Rightarrow> Some (True, fp') | Some str \<Rightarrow> cmdAddIndented ident col str 0 fp')"
    using assms(1,2) e by (subst cmdAddIndented.simps) (auto simp: Let_def a_def start_def)
  obtain ws r where w: "chunks str = ws @ chunks r" "ws \<noteq> [] \<longrightarrow> uint ident + int (length (concat ws)) \<le> uint (col - a)"
    "case left of None \<Rightarrow> r = [] \<and> fp' = (fp @ start) @ concat ws
     | Some str' \<Rightarrow> r = str' \<and> str' \<noteq> [] \<and> fp' = (fp @ start) @ concat ws @ [0x0A] \<and>
         uint ident + int (length (concat ws)) + int (length (hd (chunks r))) > uint (col - a)"
    using add_words_line [OF e assms(3)] by blast
  show ?thesis
  proof (cases left)
    case None
    then have r: "r = []" "fp' = fp @ start @ concat ws" using w(3) by simp_all
    then have "chunks str = ws" using w(1) by simp
    then have "concat ws = str" "ws \<noteq> []" using chunks_ne [OF assms(2)] by (auto simp flip: \<open>chunks str = ws\<close>)
    then show ?thesis using c None r w(2) by (intro Last) simp_all
  next
    case (Some str')
    then show ?thesis using c w by (intro More [of r ws]) auto
  qed
qed

text \<open>The first line of a text whose words fit, with less room, and full lines behind it.\<close>

definition wrapped :: "u32 \<Rightarrow> u32 \<Rightarrow> u32 \<Rightarrow> cstring \<Rightarrow> cstring list list \<Rightarrow> bool" where
  "wrapped ident room col str wss \<longleftrightarrow>
     wss \<noteq> [] \<and> concat wss = chunks str \<and> (hd wss \<noteq> [] \<longrightarrow> uint ident + int (length (concat (hd wss))) \<le> uint room) \<and>
     (\<forall>ws \<in> set (tl wss). uint ident + int (length (concat ws)) \<le> uint col)"

lemma full_lines:
  assumes "20 \<le> col" "str \<noteq> []" "uint ident + int (length str) < 2 ^ 32" "all_fit ident col str"
  shows "\<exists>wss. wrapped ident col col str wss \<and> hd wss \<noteq> [] \<and>
    cmdAddIndented ident col str 0 fp = Some (True, fp @ padded ident @ joined ident (map concat wss))"
  using assms(2-4)
proof (induction "length str" arbitrary: str fp rule: less_induct)
  case less
  from assms(1) less.prems(1,2) show ?case
  proof (rule indented_line [where added = 0 and fp = fp], goal_cases)
    case 1
    then show ?case
      using chunks_ne [OF less.prems(1)] by (intro exI [of _ "[chunks str]"]) (simp add: wrapped_def)
  next
    case (2 ws r)
    have ne: "ws \<noteq> []"
    proof
      assume "ws = []"
      then have "uint col < uint ident + int (length (hd (chunks str)))" using 2(5) by simp
      moreover have "hd (chunks str) \<in> set (chunks str)" using chunks_ne [OF less.prems(1)] by simp
      ultimately show False using less.prems(3) unfolding all_fit_def by fastforce
    qed
    have "str = concat ws @ r" using arg_cong [OF 2(2), of concat] by simp
    moreover have "concat ws \<noteq> []"
    proof -
      have "hd ws = take (word_size str) str" using 2(2) ne less.prems(1) by (subst (asm) chunks.simps) (cases ws, auto)
      then have "hd ws \<noteq> []" using word_size_pos [OF less.prems(1)] less.prems(1) by simp
      then show ?thesis using ne by (cases ws) simp_all
    qed
    ultimately have l: "length r < length str" by simp
    have "all_fit ident col r" "uint ident + int (length r) < 2 ^ 32" using less.prems(2,3) 2(2) l by (auto simp: all_fit_def)
    then obtain wss where w: "wrapped ident col col r wss" "hd wss \<noteq> []"
      "cmdAddIndented ident col r 0 (fp @ padded ident @ concat ws @ [0x0A]) =
        Some (True, (fp @ padded ident @ concat ws @ [0x0A]) @ padded ident @ joined ident (map concat wss))"
      using less.hyps [OF l 2(3)] by blast
    have "wss \<noteq> []" using w(1) by (simp add: wrapped_def)
    then have "wrapped ident col col str (ws # wss)" using w(1,2) 2(2,4) ne by (cases wss) (auto simp: wrapped_def)
    then show ?case
      using 2(1) w(3) ne \<open>wss \<noteq> []\<close> by (intro exI [of _ "ws # wss"]) (simp add: joined_Cons)
  qed
qed

text \<open>A word that no line can take: the function calls itself for ever.\<close>

lemma word_left:
  assumes "chunks str = ws @ chunks r" "ws \<noteq> [] \<Longrightarrow> uint ident + int (length (concat ws)) \<le> uint room" "uint room \<le> uint col" "\<not> all_fit ident col str"
  shows "\<not> all_fit ident col r"
proof -
  have "uint ident + int (length w) \<le> uint col" if "w \<in> set ws" for w
  proof -
    have "length w \<le> length (concat ws)" using that by (induction ws) auto
    moreover have "ws \<noteq> []" using that by auto
    then have "uint ident + int (length (concat ws)) \<le> uint room" by (rule assms(2))
    ultimately show ?thesis using assms(3) by linarith
  qed
  then show ?thesis using assms(1,4) by (auto simp: all_fit_def)
qed

lemma room_below: "added \<le> col \<Longrightarrow> uint (col - added) \<le> uint (col :: u32)"
  by (simp add: word_le_def uint_sub_if')

definition real_room :: "u32 \<Rightarrow> u32 \<Rightarrow> u32" where
  "real_room col added = col - (if added = - 1 then 0 else added)"

lemma indented_stuck:
  "cmdAddIndented ident col str added fp = Some y \<Longrightarrow>
   \<not> (20 \<le> col \<and> str \<noteq> [] \<and> uint ident + int (length str) < 2 ^ 32 \<and> (added = - 1 \<or> added \<le> col) \<and> \<not> all_fit ident col str)"
proof (erule cmdAddIndented.raw_induct [where P = "\<lambda>ident col str added fp y.
    \<not> (20 \<le> col \<and> str \<noteq> [] \<and> uint ident + int (length str) < 2 ^ 32 \<and> (added = - 1 \<or> added \<le> col) \<and> \<not> all_fit ident col str)", rotated], rule notI, goal_cases)
  case (1 loop ident col str added fp y)
  define a where "a = (if added = - 1 then 0 else added)"
  have room: "uint (col - a) \<le> uint col" using 1(3) room_below [of a col] by (auto simp: a_def)
  obtain fp' left where e: "add_words ident (col - a) str (if added = 0 then fp @ padded ident else fp) = (fp', left)"
    by (cases "add_words ident (col - a) str (if added = 0 then fp @ padded ident else fp)")
  have c: "(case left of None \<Rightarrow> Some (True, fp') | Some str \<Rightarrow> loop ident col str 0 fp') = Some y"
    using 1(2,3) e by (auto simp: Let_def a_def split: if_splits option.splits)
  obtain ws r where w: "chunks str = ws @ chunks r" "ws \<noteq> [] \<longrightarrow> uint ident + int (length (concat ws)) \<le> uint (col - a)"
    "case left of None \<Rightarrow> r = [] | Some str' \<Rightarrow> r = str' \<and> str' \<noteq> []"
    using add_words_line [OF e] 1(3) by (auto split: option.splits)
  have n: "\<not> all_fit ident col r" using word_left [OF w(1) _ room] w(2) 1(3) by blast
  have "length r \<le> length str" using arg_cong [OF w(1), of concat] by simp
  then show False using 1(1) [of ident col r 0 fp' y] 1(3) c w(3) n by (cases left) (auto simp: all_fit_def)
qed

text \<open>
  C37. Text behind an indentation is broken between words. If every word fits in a line, the lines are the
  words in their order; the first takes what fits in its room, the others are as wide as the terminal at most and
  start with the indentation. If a word is wider than a line, the function calls itself for ever.
\<close>

theorem cmdAddIndented_wraps:
  assumes "20 \<le> col" and "str \<noteq> []" and "uint ident + int (length str) < 2 ^ 32" and "added = - 1 \<or> added \<le> col"
  shows "(all_fit ident col str \<longrightarrow>
      (\<exists>wss. wrapped ident (real_room col added) col str wss \<and>
        cmdAddIndented ident col str added fp = Some (True, fp @ (if added = 0 then padded ident else []) @ joined ident (map concat wss)))) \<and>
    (\<not> all_fit ident col str \<longrightarrow> cmdAddIndented ident col str added fp = None)"
proof (intro conjI impI)
  assume fit: "all_fit ident col str"
  let ?start = "if added = 0 then padded ident else []"
  from assms(1-3) show "\<exists>wss. wrapped ident (real_room col added) col str wss \<and>
      cmdAddIndented ident col str added fp = Some (True, fp @ ?start @ joined ident (map concat wss))"
  proof (rule indented_line [where added = added and fp = fp], goal_cases)
    case 1
    then show ?case by (intro exI [of _ "[chunks str]"]) (simp add: wrapped_def real_room_def)
  next
    case (2 ws r)
    have "length r \<le> length str" using arg_cong [OF 2(2), of concat] by simp
    then have "all_fit ident col r" "uint ident + int (length r) < 2 ^ 32" using fit assms(3) 2(2) by (auto simp: all_fit_def)
    then obtain wss where w: "wrapped ident col col r wss" "hd wss \<noteq> []"
      "cmdAddIndented ident col r 0 (fp @ ?start @ concat ws @ [0x0A]) =
        Some (True, (fp @ ?start @ concat ws @ [0x0A]) @ padded ident @ joined ident (map concat wss))"
      using full_lines [OF assms(1) 2(3)] by blast
    have ne: "wss \<noteq> []" using w(1) by (simp add: wrapped_def)
    then have "wrapped ident (real_room col added) col str (ws # wss)"
      using w(1,2) 2(2,4) by (cases wss) (auto simp: wrapped_def real_room_def)
    then show ?case using 2(1) w(3) ne by (intro exI [of _ "ws # wss"]) (simp add: joined_Cons)
  qed
next
  assume "\<not> all_fit ident col str"
  then show "cmdAddIndented ident col str added fp = None"
    using indented_stuck [of ident col str added fp] assms by (cases "cmdAddIndented ident col str added fp") auto
qed

theorem cmdAddIndented_wraps_witness:
  "cmdAddIndented 18 20 (bytes_of ''abc'') 0 [] = None \<and>
   (\<exists>wss. concat (concat wss) = bytes_of ''a b c'' \<and>
     cmdAddIndented 16 20 (bytes_of ''a b c'') 0 [] = Some (True, padded 16 @ joined 16 (map concat wss)))"
proof -
  have c: "chunks (bytes_of ''abc'') = [bytes_of ''abc'']" "chunks (bytes_of ''a b c'') = [bytes_of ''a '', bytes_of ''b '', bytes_of ''c'']" by code_simp+
  have "\<not> all_fit 18 20 (bytes_of ''abc'')" "all_fit 16 20 (bytes_of ''a b c'')" unfolding all_fit_def c by (simp_all add: bytes_of_def)
  moreover have "concat (concat wss) = bytes_of ''a b c''" if "wrapped 16 r 20 (bytes_of ''a b c'') wss" for wss r
    using that by (simp add: wrapped_def)
  ultimately show ?thesis
    using cmdAddIndented_wraps [of 20 "bytes_of ''abc''" 18 0 "[]"] cmdAddIndented_wraps [of 20 "bytes_of ''a b c''" 16 0 "[]"]
    by (auto simp: bytes_of_def)
qed

end
