(* ===== verification/Cyn_Report.thy ===== *)
theory Cyn_Report
  imports Cyn_Usage
begin

text \<open>
  Printing of diagnostics (\<^verbatim>\<open>src/compiler/common/log.c\<close>) to a stream, the list of its bytes. The names and the contents
  of the sources are functions of their identity. \<open>None\<close> is a failed assertion or a read outside a source.
\<close>

section \<open>Parts of a report\<close>

definition escape :: "string \<Rightarrow> cstring" where "escape s = 0x1B # 0x5B # bytes_of s"

definition cDEF :: cstring where "cDEF = escape ''0m''"
definition cRED :: cstring where "cRED = escape ''32m''"
definition cYLW :: cstring where "cYLW = escape ''33m''"
definition cBOLD :: cstring where "cBOLD = escape ''1;0m''"
definition cBRED :: cstring where "cBRED = escape ''1;32m''"

text \<open>The place of a range, with lines and columns counted from one.\<close>

definition place_text :: "cstring \<Rightarrow> Range \<Rightarrow> cstring" where
  "place_text name r =
     name @ [0x3A] @ dec_nat (lc_line (r_coord r) + 1) @ [0x3A] @ dec_nat (lc_column (r_coord r) + 1)"

definition kind_text :: "LogKind \<Rightarrow> cstring" where
  "kind_text k = (case k of logError \<Rightarrow> bytes_of ''error: '' | logWarning \<Rightarrow> bytes_of ''warning: '')"

text \<open>The marks from an index up to the end of the range or of the line, in a text that starts at \<open>base\<close>.\<close>

function marks :: "u8 list \<Rightarrow> nat \<Rightarrow> nat \<Rightarrow> nat \<Rightarrow> cstring option" where
  "marks src base i end =
     (if i < end then
        if base + i < length src then
          if src ! (base + i) \<noteq> 10 then map_option (Cons 0x7E) (marks src base (Suc i) end) else Some []
        else None
      else Some [])"
  by auto
termination by (relation "measure (\<lambda>(src, base, i, end). end - i)") auto

declare marks.simps [simp del]

section \<open>Reports\<close>

definition Diagnostics_print :: "(nat \<Rightarrow> cstring) \<Rightarrow> Sources \<Rightarrow> Diagnostic \<Rightarrow> cstring \<Rightarrow> cstring option" where
  "Diagnostics_print names srcs d os =
     (let r = d_range d;
          os = (case r_source r of Some p \<Rightarrow> os @ place_text (names p) r @ [0x3A] | None \<Rightarrow> os);
          os = os @ kind_text (d_kind d) @ bytes_of (d_message d) @ [0x0A]
      in case r_source r of
           None \<Rightarrow> Some os
         | Some p \<Rightarrow>
             let os = os @ padded (of_nat (lc_column (r_coord r))) in
             Option.bind (Range_size r) (\<lambda>n.
             if n \<le> 1 then Some (os @ [0x5E, 0x0A])
             else map_option (\<lambda>m. os @ m @ [0x0A]) (marks (srcs p) 0 (r_start r) (r_end r))))"

text \<open>The line of a range and the marks under it; the index in the line is the one in the source.\<close>

definition print_line :: "Sources \<Rightarrow> Range \<Rightarrow> cstring \<Rightarrow> cstring option" where
  "print_line srcs r os =
     Option.bind (Range_enclosingLine srcs r) (\<lambda>line.
     Option.bind (Range_view srcs line) (\<lambda>view.
     let os = os @ view @ [0x0A];
         os = (if lc_column (r_coord r) \<noteq> 0 then os @ padded (of_nat (lc_column (r_coord r))) else os) @ [0x5E]
     in case r_source r of
          None \<Rightarrow> None
        | Some p \<Rightarrow> map_option (\<lambda>m. os @ m @ [0x0A]) (marks (srcs p) (r_start line) (r_start r + 1) (r_end r))))"

definition print_diagnostic :: "(nat \<Rightarrow> cstring) \<Rightarrow> Sources \<Rightarrow> Diagnostic \<Rightarrow> cstring \<Rightarrow> cstring option" where
  "print_diagnostic names srcs d os =
     (let r = d_range d;
          os = (case r_source r of Some p \<Rightarrow> os @ cBOLD @ place_text (names p) r @ [0x20] @ cDEF | None \<Rightarrow> os);
          os = os @ (case d_kind d of logError \<Rightarrow> cRED | logWarning \<Rightarrow> cYLW) @ kind_text (d_kind d) @ cBOLD;
          os = os @ bytes_of (d_message d) @ cDEF @ [0x0A]
      in if r_source r \<noteq> None then print_line srcs r os else Some os)"

text \<open>The head, with the text of the caller, if there are errors, and the diagnostics in their order.\<close>

definition Log_print0 :: "(nat \<Rightarrow> cstring) \<Rightarrow> Sources \<Rightarrow> Diagnostic list \<Rightarrow> cstring option \<Rightarrow> cstring \<Rightarrow> cstring option" where
  "Log_print0 names srcs log msg os =
     (let errors = length (filter (\<lambda>d. d_kind d = logError) log);
          os = (if errors \<noteq> 0 then
                  os @ cBRED @ bytes_of ''error:'' @ cDEF @ [0x20] @
                  (case msg of Some m \<Rightarrow> m | None \<Rightarrow> bytes_of ''compilation failed!'') @ [0x0A]
                else os)
      in show_each (print_diagnostic names srcs) log os)"

text \<open>The exit code, and what is printed before.\<close>

definition abortCompiler0 :: "(nat \<Rightarrow> cstring) \<Rightarrow> Sources \<Rightarrow> Diagnostic list \<Rightarrow> cstring \<Rightarrow> cstring \<Rightarrow> (bool \<times> cstring) option" where
  "abortCompiler0 names srcs log msg os =
     (let errors = length (filter (\<lambda>d. d_kind d = logError) log);
          warnings = length (filter (\<lambda>d. d_kind d = logWarning) log)
      in map_option (Pair (errors = 0))
           (Log_print0 names srcs log (Some (msg @ bytes_of '', errors: '' @ dec_nat errors @ bytes_of '', warnings: '' @ dec_nat warnings)) os))"

section \<open>What the marks show\<close>

text \<open>Under a range without a line break, in the first line, there is a mark for every character.\<close>

lemma marks_all:
  assumes "end \<le> length src" "\<forall>j. i \<le> j \<and> j < end \<longrightarrow> src ! j \<noteq> 10" "i \<le> end"
  shows "marks src 0 i end = Some (replicate (end - i) 0x7E)"
  using assms
proof (induction "end - i" arbitrary: i)
  case 0
  then show ?case by (simp add: marks.simps)
next
  case (Suc n)
  then have "marks src 0 (Suc i) end = Some (replicate (end - Suc i) 0x7E)" by (intro Suc.hyps(1)) auto
  moreover have "end - i = Suc (end - Suc i)" using Suc.hyps(2) by simp
  ultimately show ?case using Suc.prems Suc.hyps(2) by (subst marks.simps) simp
qed

text \<open>In a later line the characters that are looked at are not those of the range; they may be outside the source.\<close>

lemma marks_outside: "length src \<le> base + i \<Longrightarrow> i < end \<Longrightarrow> marks src base i end = None"
  by (subst marks.simps) simp

lemma Log_print0_outside:
  assumes "r_source r = Some p" "Range_enclosingLine srcs r = Some line" "r_start r + 1 < r_end r" "length (srcs p) \<le> r_start line + r_start r + 1"
  shows "Log_print0 names srcs [\<lparr>d_kind = k, d_range = r, d_message = m\<rparr>] msg os = None"
proof -
  have "marks (srcs p) (r_start line) (r_start r + 1) (r_end r) = None" using assms(3,4) by (intro marks_outside) simp_all
  then have "print_line srcs r os = None" for os
    using assms(1,2) by (cases "Range_view srcs line") (simp_all add: print_line_def Let_def)
  then show ?thesis by (simp add: Log_print0_def print_diagnostic_def assms(1) Let_def)
qed

text \<open>An error at \<open>de\<close>, in the second line of a source of seven bytes, cannot be printed.\<close>

lemma Log_print0_outside_example:
  "Log_print0 (\<lambda>_. bytes_of ''f'') (\<lambda>_. bytes_of ''a'' @ [10] @ bytes_of ''bcdef'')
     [\<lparr>d_kind = logError, d_range = \<lparr>r_start = 4, r_end = 6, r_coord = \<lparr>lc_line = 1, lc_column = 2\<rparr>, r_source = Some 0\<rparr>, d_message = ''m''\<rparr>] None [] = None"
proof (rule Log_print0_outside)
  let ?srcs = "\<lambda>_. bytes_of ''a'' @ [10] @ bytes_of ''bcdef''"
  let ?r = "\<lparr>r_start = 4, r_end = 6, r_coord = \<lparr>lc_line = 1, lc_column = 2\<rparr>, r_source = Some 0\<rparr>"
  show "Range_enclosingLine ?srcs ?r = Some \<lparr>r_start = 2, r_end = 7, r_coord = \<lparr>lc_line = 1, lc_column = 2\<rparr>, r_source = Some 0\<rparr>" by code_simp
qed (simp_all add: bytes_of_def)

end
