(* ===== verification/Cyn_Buffer.thy ===== *)
theory Cyn_Buffer
  imports Cyn_Vector Cyn_Token Cyn_Text
begin

unbundle bit_operations_syntax

text \<open>
  Buffers of characters (\<^verbatim>\<open>src/buffer.c\<close>, vectors of bytes), streams (\<^verbatim>\<open>src/stream.c\<close>), names of files
  (\<^verbatim>\<open>src/file.c\<close>) and timers (\<^verbatim>\<open>src/compiler/common/timer.c\<close>). What a format and its arguments give is the text
  \<open>txt\<close>; \<open>None\<close> is a write outside the block, a failed assertion, or a loop without end. A clock is the list of
  its readings.
\<close>

section \<open>Buffers\<close>

type_synonym Buffer = "u8 Vector"

definition CYN_BUFFER_MIN_SIZE :: int where "CYN_BUFFER_MIN_SIZE = 8"

definition Buffer_init :: "(nat \<Rightarrow> u8) \<Rightarrow> Buffer option" where
  "Buffer_init junk = Vector_reserve junk CYN_BUFFER_MIN_SIZE Vector_init"

definition Buffer_appendStr :: "(nat \<Rightarrow> u8) \<Rightarrow> u8 list \<Rightarrow> Buffer \<Rightarrow> Buffer option" where
  "Buffer_appendStr junk str self = Vector_pushArr junk str self"

text \<open>
  \<open>vsnprintf\<close> at the end of the elements writes what fits in the room, and a terminator. A room beyond the range
  of \<open>int\<close> is an error.
\<close>

definition vsnprintf_end :: "int \<Rightarrow> u8 list \<Rightarrow> Buffer \<Rightarrow> Buffer option" where
  "vsnprintf_end room txt self =
     (if room > INT_MAX then None
      else if room = 0 then Some self
      else
        let out = take (nat room - 1) txt @ [0]; n = nat (vlen self) in
        if n + length out \<le> length (vdata self)
        then Some (self\<lparr>vdata := take n (vdata self) @ out @ drop (n + length out) (vdata self)\<rparr>) else None)"

partial_function (option) vappendf_loop :: "(nat \<Rightarrow> u8) \<Rightarrow> u8 list \<Rightarrow> Buffer \<Rightarrow> (int \<times> Buffer) option" where
  "vappendf_loop junk txt self =
     (let writable = (vcap self - vlen self) mod 2 ^ 32; nwr = int (length txt) in
      Option.bind (vsnprintf_end writable txt self) (\<lambda>self.
      if nwr > writable then
        Option.bind (Vector_reserve junk (sint (word_of_int (nwr + writable) :: u32)) self) (\<lambda>self. vappendf_loop junk txt self)
      else Option.bind (Vector_expand junk nwr self) (\<lambda>self. Some (nwr, self))))"

definition Buffer_vappendf :: "(nat \<Rightarrow> u8) \<Rightarrow> u8 list \<Rightarrow> u8 list \<Rightarrow> Buffer \<Rightarrow> (int \<times> Buffer) option" where
  "Buffer_vappendf junk fmt txt self =
     Option.bind (Vector_reserve_po2 junk (int (length fmt)) self) (\<lambda>self. vappendf_loop junk txt self)"

text \<open>
  The bytes of a buffer as a terminated string. The capacity is looked at after the buffer has been cleared, so it is zero
  there.
\<close>

definition Buffer_release :: "(nat \<Rightarrow> u8) \<Rightarrow> bool \<Rightarrow> Buffer \<Rightarrow> (u8 list \<times> Buffer) option" where
  "Buffer_release junk compact self =
     (let len = vlen self; cap = vcap self; mem = vdata self; self = Vector_init;
          mem = (if compact \<and> cap - len > 16 \<or> len = vcap self then reAlloc junk (len + 1) mem else mem)
      in if 0 \<le> len \<and> nat len < length mem then Some (mem[nat len := 0], self) else None)"

definition Buffer_seal :: "(nat \<Rightarrow> u8) \<Rightarrow> Buffer \<Rightarrow> Buffer option" where
  "Buffer_seal junk self = Option.bind (Vector_reserve junk 1 self) (\<lambda>self. store_at (vlen self - 1) 0 self)"

section \<open>Streams\<close>

text \<open>A stream goes to a file, the list of the bytes written so far, or to a buffer.\<close>

datatype Stream = FileStream "u8 list" | StringStream Buffer

definition FileStream_attach :: "u8 list \<Rightarrow> Stream" where "FileStream_attach fp = FileStream fp"

definition StringStream_attach :: "Buffer \<Rightarrow> Stream" where "StringStream_attach buffer = StringStream buffer"

definition Stream_write :: "(nat \<Rightarrow> u8) \<Rightarrow> u8 list \<Rightarrow> Stream \<Rightarrow> Stream option" where
  "Stream_write junk str S =
     (case S of
        FileStream fp \<Rightarrow> Some (FileStream (fp @ str))
      | StringStream buffer \<Rightarrow> map_option StringStream (Buffer_appendStr junk str buffer))"

definition Stream_printf :: "(nat \<Rightarrow> u8) \<Rightarrow> u8 list \<Rightarrow> u8 list \<Rightarrow> Stream \<Rightarrow> Stream option" where
  "Stream_printf junk fmt txt S =
     (case S of
        FileStream fp \<Rightarrow> Some (FileStream (fp @ txt))
      | StringStream buffer \<Rightarrow> map_option (StringStream \<circ> snd) (Buffer_vappendf junk fmt txt buffer))"

definition Stream_putc :: "(nat \<Rightarrow> u8) \<Rightarrow> u8 \<Rightarrow> Stream \<Rightarrow> Stream option" where
  "Stream_putc junk c S = Stream_write junk [c] S"

section \<open>Files\<close>

definition last_at :: "u8 \<Rightarrow> u8 list \<Rightarrow> nat option" where
  "last_at c s = (if c \<in> set s then Some (length s - Suc (length (takeWhile (\<lambda>d. d \<noteq> c) (rev s)))) else None)"

definition File_get_name :: "u8 list \<Rightarrow> u8 list" where
  "File_get_name path = (case last_at 0x2F path of None \<Rightarrow> path | Some p \<Rightarrow> drop (p + 1) path)"

definition File_replace_ext :: "u8 list \<Rightarrow> u8 list \<Rightarrow> u8 list" where
  "File_replace_ext path w = (case last_at 0x2E path of None \<Rightarrow> path @ w | Some e \<Rightarrow> take e path @ w)"

text \<open>The contents of the file, or \<open>None\<close> when it cannot be opened, behind what is in the buffer; the read goes to the start.\<close>

definition File_read_all0 :: "(nat \<Rightarrow> u8) \<Rightarrow> u8 list option \<Rightarrow> Buffer \<Rightarrow> (bool \<times> Buffer) option" where
  "File_read_all0 junk found dst =
     (case found of
        None \<Rightarrow> Some (False, dst)
      | Some bs \<Rightarrow>
          Option.bind (Vector_expand junk (int (length bs)) dst) (\<lambda>dst.
          if length bs \<le> length (vdata dst) then Some (True, dst\<lparr>vdata := bs @ drop (length bs) (vdata dst)\<rparr>) else None))"

section \<open>Timers\<close>

record Timer =
  tm_start :: u64
  tm_end :: u64

record Timers =
  tms_init :: bool
  tms_timers :: "Timer Vector"

text \<open>Microseconds, from the seconds and nanoseconds of a reading of the clock.\<close>

definition Timer_now :: "nat \<times> nat \<Rightarrow> u64" where
  "Timer_now ts = (case ts of (sec, nsec) \<Rightarrow> of_nat (sec * 1000000 + nsec div 1000))"

definition Timer_init :: "Timers \<Rightarrow> Timers" where
  "Timer_init T = (if tms_init T then T else \<lparr>tms_init = True, tms_timers = Vector_init\<rparr>)"

definition timer_at :: "nat \<Rightarrow> Timers \<Rightarrow> Timer option" where
  "timer_at i T = (if int i < vlen (tms_timers T) \<and> i < length (vdata (tms_timers T)) then Some (vdata (tms_timers T) ! i) else None)"

definition set_timer :: "nat \<Rightarrow> Timer \<Rightarrow> Timers \<Rightarrow> Timers option" where
  "set_timer i t T = map_option (\<lambda>v. T\<lparr>tms_timers := v\<rparr>) (store_at (int i) t (tms_timers T))"

definition Timer_add :: "(nat \<Rightarrow> Timer) \<Rightarrow> nat \<times> nat \<Rightarrow> bool \<Rightarrow> Timers \<Rightarrow> (nat \<times> Timers) option" where
  "Timer_add junk now start T =
     (let i = nat (vlen (tms_timers T)) in
      Option.bind (Vector_expand junk 1 (tms_timers T)) (\<lambda>v.
      Option.bind (set_timer i \<lparr>tm_start = (if start then Timer_now now else 0), tm_end = 0\<rparr> (T\<lparr>tms_timers := v\<rparr>)) (\<lambda>T.
      Some (i, T))))"

definition Timer_start :: "nat \<times> nat \<Rightarrow> nat \<Rightarrow> Timers \<Rightarrow> Timers option" where
  "Timer_start now i T =
     Option.bind (timer_at i T) (\<lambda>t.
     if tm_start t = 0 then set_timer i (t\<lparr>tm_start := Timer_now now\<rparr>) T else None)"

definition Timer_stop :: "nat \<times> nat \<Rightarrow> nat \<Rightarrow> Timers \<Rightarrow> (u64 \<times> Timers) option" where
  "Timer_stop now i T =
     Option.bind (timer_at i T) (\<lambda>t.
     if tm_start t \<noteq> 0 \<and> tm_end t = 0 then
       map_option (Pair (Timer_now now - tm_start t)) (set_timer i (t\<lparr>tm_end := Timer_now now\<rparr>) T)
     else None)"

text \<open>Of a stopped timer the end is set to the start, which is the result.\<close>

definition Timer_elapsed :: "nat \<times> nat \<Rightarrow> nat \<Rightarrow> Timers \<Rightarrow> (u64 \<times> Timers) option" where
  "Timer_elapsed now i T =
     Option.bind (timer_at i T) (\<lambda>t.
     if tm_start t \<noteq> 0 then
       if tm_end t = 0 then Some (Timer_now now - tm_start t, T)
       else map_option (Pair (tm_start t)) (set_timer i (t\<lparr>tm_end := tm_start t\<rparr>) T)
     else None)"

section \<open>What buffers do\<close>

definition po2 :: "u8 list \<Rightarrow> int" where "po2 fmt = sint (round2pow2 (word_of_int (int (length fmt))))"

lemma Buffer_reserved:
  assumes "vec_ok v" "po2 fmt \<le> vcap v - vlen v"
  shows "Buffer_vappendf junk fmt txt v = vappendf_loop junk txt v"
  using assms by (simp add: Buffer_vappendf_def Vector_reserve_po2_def Vector_reserve_def po2_def)

lemma vsnprintf_room:
  assumes "vec_ok v" "0 \<le> r" "r \<le> vcap v - vlen v"
  shows "\<exists>v'. vsnprintf_end r txt v = Some v' \<and> vec_ok v' \<and> vlen v' = vlen v \<and> vcap v' = vcap v \<and> length (vdata v') = length (vdata v) \<and>
    elems v' = elems v \<and> (r > 0 \<longrightarrow> (\<exists>d. drop (nat (vlen v)) (vdata v') = take (nat r - 1) txt @ 0 # d))"
proof (cases "r = 0")
  case True
  then show ?thesis using assms by (simp add: vsnprintf_end_def INT_MAX_def)
next
  case False
  have b: "nat (vlen v) + length (take (nat r - 1) txt @ [0 :: u8]) \<le> length (vdata v)"
  proof -
    have "nat (vlen v) + nat r \<le> length (vdata v)" using assms unfolding vec_ok_def by arith
    moreover have "length (take (nat r - 1) txt @ [0 :: u8]) \<le> nat r" using False assms(2) by auto
    ultimately show ?thesis by linarith
  qed
  have "r \<le> INT_MAX" using assms by (simp add: vec_ok_def)
  then show ?thesis
    using assms False b by (auto simp: vsnprintf_end_def Let_def vec_ok_def elems_def)
qed

lemma expand_written:
  assumes "vec_ok v" "0 \<le> n" "vlen v + n \<le> vcap v" "2 * vlen v + n \<le> INT_MAX"
  shows "\<exists>v'. Vector_expand junk n v = Some v' \<and> vec_ok v' \<and> elems v' = take (nat (vlen v + n)) (vdata v)"
  using assms by (auto simp: Vector_expand_def Vector_reserve_def vec_ok_def elems_def Let_def take_reAlloc)

text \<open>With room for the text and its terminator the text is appended; with room for the text only, its last byte is lost.\<close>

definition cut_last :: "int \<Rightarrow> u8 list \<Rightarrow> u8 list" where
  "cut_last r txt = (if int (length txt) = r \<and> txt \<noteq> [] then butlast txt @ [0] else txt)"

lemma loop_fits:
  assumes "vec_ok v" "int (length txt) \<le> vcap v - vlen v" "2 * vlen v + int (length txt) \<le> INT_MAX"
  shows "\<exists>v'. vappendf_loop junk txt v = Some (int (length txt), v') \<and> vec_ok v' \<and> elems v' = elems v @ cut_last (vcap v - vlen v) txt"
proof -
  let ?r = "vcap v - vlen v"
  have r: "0 \<le> ?r" "?r \<le> INT_MAX" using assms(1) by (simp_all add: vec_ok_def)
  then have m: "?r mod 2 ^ 32 = ?r" by (simp add: INT_MAX_def)
  obtain v1 where v1: "vsnprintf_end ?r txt v = Some v1" "vec_ok v1" "vlen v1 = vlen v" "vcap v1 = vcap v" "elems v1 = elems v"
    and d: "?r > 0 \<longrightarrow> (\<exists>d. drop (nat (vlen v)) (vdata v1) = take (nat ?r - 1) txt @ 0 # d)"
    using vsnprintf_room [OF assms(1) r(1), of "txt"] by auto
  obtain v2 where v2: "Vector_expand junk (int (length txt)) v1 = Some v2" "vec_ok v2" "elems v2 = take (nat (vlen v1 + int (length txt))) (vdata v1)"
    using expand_written [OF v1(2), of "int (length txt)"] assms(2,3) v1(3,4) by auto
  have "elems v2 = elems v1 @ take (length txt) (drop (nat (vlen v)) (vdata v1))"
    unfolding v2(3) elems_def [of v1] v1(3) using assms(1) by (simp add: nat_add_distrib vec_ok_def take_add)
  moreover have "take (length txt) (drop (nat (vlen v)) (vdata v1)) = cut_last ?r txt"
  proof (cases "txt = []")
    case False
    then have "?r > 0" using assms(2) by (cases "txt") simp_all
    then obtain e where e: "drop (nat (vlen v)) (vdata v1) = take (nat ?r - 1) txt @ 0 # e" using d by blast
    show ?thesis
    proof (cases "int (length txt) = ?r")
      case True
      then have "nat ?r = length txt" by linarith
      moreover have "length txt - (length txt - Suc 0) = Suc 0" using False by (cases "txt") simp_all
      ultimately show ?thesis using e True False by (simp add: cut_last_def butlast_conv_take)
    next
      case less: False
      then have "length txt \<le> nat ?r - 1" using assms(2) by linarith
      then show ?thesis using e less by (simp add: cut_last_def)
    qed
  qed (simp add: cut_last_def)
  ultimately show ?thesis
    using v1 v2 assms(2) m by (subst vappendf_loop.simps) (simp add: Let_def)
qed

lemma reserve_fresh:
  assumes "vec_ok v" "vlen v = 0" "0 \<le> n" "n + vcap v \<le> INT_MAX"
  shows "\<exists>v'. Vector_reserve junk n v = Some v' \<and> vec_ok v' \<and> elems v' = [] \<and> vlen v' = 0 \<and> vcap v' = max n (vcap v)"
  using assms by (auto simp: Vector_reserve_def vec_ok_def elems_def Let_def)

lemma loop_fresh:
  assumes "vec_ok v" "vlen v = 0" "2 * int (length txt) + vcap v \<le> INT_MAX" "0 < vcap v"
  shows "\<exists>v'. vappendf_loop junk txt v = Some (int (length txt), v') \<and> vec_ok v' \<and> elems v' = cut_last (vcap v) txt"
proof (cases "int (length txt) \<le> vcap v")
  case True
  then show ?thesis using loop_fits [OF assms(1), of "txt" junk] assms(2,3) by (simp add: elems_def)
next
  case False
  have m: "vcap v mod 2 ^ 32 = vcap v" using assms(1) by (simp add: vec_ok_def INT_MAX_def)
  obtain v1 where v1: "vsnprintf_end (vcap v) txt v = Some v1" "vec_ok v1" "vlen v1 = 0" "vcap v1 = vcap v"
    using vsnprintf_room [OF assms(1), of "vcap v" "txt"] assms(2,4) by auto
  let ?n = "int (length txt) + vcap v"
  have n: "sint (word_of_int ?n :: u32) = ?n" using assms(3,4) by (intro sint_of_small) (simp_all add: INT_MAX_def)
  have i: "?n + vcap v1 \<le> INT_MAX" using assms(3) False v1(4) by simp
  obtain v2 where v2: "Vector_reserve junk ?n v1 = Some v2" "vec_ok v2" "elems v2 = []" "vlen v2 = 0" "vcap v2 = max ?n (vcap v1)"
    using reserve_fresh [OF v1(2,3) _ i, of junk] assms(4) by auto
  then have c: "vcap v2 = ?n" using v1(4) by simp
  obtain v3 where "vappendf_loop junk txt v2 = Some (int (length txt), v3)" "vec_ok v3" "elems v3 = cut_last ?n txt"
    using loop_fits [OF v2(2), of "txt" junk] assms(3,4) v2(3,4) c by auto
  moreover have "cut_last ?n txt = txt" "cut_last (vcap v) txt = txt" using assms(4) False by (auto simp: cut_last_def)
  ultimately show ?thesis
    using assms(2) False v1 v2 m n by (subst vappendf_loop.simps) (simp add: Let_def)
qed

text \<open>A buffer that holds as many bytes as the text has, without room for it: the loop reserves for ever.\<close>

lemma vsnprintf_lengths:
  assumes "vsnprintf_end r txt v = Some v'"
  shows "vlen v' = vlen v" "vcap v' = vcap v"
  using assms by (auto simp: vsnprintf_end_def Let_def split: if_splits)

definition stays_full :: "u8 list \<Rightarrow> Buffer \<Rightarrow> bool" where
  "stays_full txt v \<longleftrightarrow> 0 \<le> vlen v \<and> vlen v \<le> vcap v \<and> vcap v \<le> INT_MAX \<and> vlen v = int (length txt) \<and> vcap v - vlen v < int (length txt)"

lemma stays_full_step:
  assumes "stays_full txt v" "vsnprintf_end ((vcap v - vlen v) mod 2 ^ 32) txt v = Some v1"
  shows "int (length txt) > (vcap v - vlen v) mod 2 ^ 32"
    and "Vector_reserve junk (sint (word_of_int (int (length txt) + (vcap v - vlen v) mod 2 ^ 32) :: u32)) v1 = Some v2 \<Longrightarrow> stays_full txt v2"
proof -
  have m: "(vcap v - vlen v) mod 2 ^ 32 = vcap v - vlen v" using assms(1) by (simp add: stays_full_def INT_MAX_def)
  show "int (length txt) > (vcap v - vlen v) mod 2 ^ 32" using assms(1) unfolding m by (simp add: stays_full_def)
  have n: "sint (word_of_int (int (length txt) + (vcap v - vlen v)) :: u32) = vcap v"
    using assms(1) sint_of_small [of "vcap v"] by (simp add: stays_full_def INT_MAX_def)
  show "Vector_reserve junk (sint (word_of_int (int (length txt) + (vcap v - vlen v) mod 2 ^ 32) :: u32)) v1 = Some v2 \<Longrightarrow> stays_full txt v2"
    unfolding m n using assms(1) vsnprintf_lengths [OF assms(2)]
    by (auto simp: Vector_reserve_def stays_full_def Let_def split: if_splits)
qed

lemma loop_stays: "vappendf_loop junk txt v = Some y \<Longrightarrow> \<not> stays_full txt v"
proof (erule vappendf_loop.raw_induct [where P = "\<lambda>junk txt v y. \<not> stays_full txt v", rotated], rule notI, goal_cases)
  case (1 loop junk str v y)
  let ?w = "(vcap v - vlen v) mod 2 ^ 32"
  obtain v1 where v1: "vsnprintf_end ?w str v = Some v1"
    and e: "(if int (length str) > ?w then
        Option.bind (Vector_reserve junk (sint (word_of_int (int (length str) + ?w) :: u32)) v1) (\<lambda>self. loop junk str self)
      else Option.bind (Vector_expand junk (int (length str)) v1) (\<lambda>self. Some (int (length str), self))) = Some y"
    using 1(2) unfolding Let_def bind_eq_Some_conv by blast
  note st = stays_full_step [OF 1(3) v1]
  obtain v2 where "Vector_reserve junk (sint (word_of_int (int (length str) + ?w) :: u32)) v1 = Some v2" "loop junk str v2 = Some y"
    using e st(1) by (auto simp: bind_eq_Some_conv)
  then show False using 1(1) st(2) by blast
qed

text \<open>
  C38. What formatted appending does. On a buffer whose room is at least the power of two of the length of the format (otherwise the reservation may cut the
  capacity below the length), a text
  shorter than the room is appended; of a text as long as the room the last byte is lost, and a zero is in its
  place. The first text of a buffer may have any length, with the same loss when it is as long as the capacity. A
  text that is as long as the contents, and longer than the room, is never appended.
\<close>

theorem Buffer_vappendf_appends:
  assumes "vec_ok v" and "po2 fmt \<le> vcap v - vlen v" and "2 * vlen v + 2 * int (length txt) + vcap v \<le> INT_MAX"
  shows "(int (length txt) \<le> vcap v - vlen v \<or> vlen v = 0 \<and> 0 < vcap v \<longrightarrow>
      (\<exists>v'. Buffer_vappendf junk fmt txt v = Some (int (length txt), v') \<and> vec_ok v' \<and> elems v' = elems v @ cut_last (vcap v - vlen v) txt)) \<and>
    (vlen v = int (length txt) \<and> vcap v - vlen v < int (length txt) \<longrightarrow> Buffer_vappendf junk fmt txt v = None)"
proof (intro conjI impI)
  have b: "0 \<le> vlen v" "vlen v \<le> vcap v" "vcap v \<le> INT_MAX" using assms(1) by (simp_all add: vec_ok_def)
  note r = Buffer_reserved [OF assms(1,2)]
  assume "int (length txt) \<le> vcap v - vlen v \<or> vlen v = 0 \<and> 0 < vcap v"
  then show "\<exists>v'. Buffer_vappendf junk fmt txt v = Some (int (length txt), v') \<and> vec_ok v' \<and> elems v' = elems v @ cut_last (vcap v - vlen v) txt"
  proof (elim disjE)
    assume "int (length txt) \<le> vcap v - vlen v"
    then show ?thesis unfolding r using b assms(3) by (intro loop_fits [OF assms(1)]) simp_all
  next
    assume f: "vlen v = 0 \<and> 0 < vcap v"
    then have "elems v = []" by (simp add: elems_def)
    then show ?thesis unfolding r using f assms(3) loop_fresh [OF assms(1), of "txt" junk] by simp
  qed
next
  assume "vlen v = int (length txt) \<and> vcap v - vlen v < int (length txt)"
  then have "stays_full txt v" using assms(1) by (simp add: stays_full_def vec_ok_def)
  then show "Buffer_vappendf junk fmt txt v = None"
    unfolding Buffer_reserved [OF assms(1,2)] using loop_stays [of junk "txt" v] by (cases "vappendf_loop junk txt v") auto
qed

text \<open>A new buffer has room for eight bytes; of the eight bytes of a text the last one is lost.\<close>

theorem Buffer_vappendf_appends_witness:
  "\<exists>v'. Option.bind (Buffer_init (\<lambda>_. 7)) (Buffer_vappendf (\<lambda>_. 7) (bytes_of ''%s'') (bytes_of ''abcdefgh'')) = Some (8, v') \<and>
    elems v' = bytes_of ''abcdefg'' @ [0]"
proof -
  let ?v = "\<lparr>vdata = replicate 8 7, vlen = 0, vcap = 8\<rparr> :: Buffer"
  have i: "Buffer_init (\<lambda>_. 7) = Some ?v" by code_simp
  have v: "vec_ok ?v" "2 * vlen ?v + 2 * int (length (bytes_of ''abcdefgh'')) + vcap ?v \<le> INT_MAX" "cut_last 8 (bytes_of ''abcdefgh'') = bytes_of ''abcdefg'' @ [0]"
    by (simp_all add: vec_ok_def INT_MAX_def bytes_of_def cut_last_def)
  have "po2 (bytes_of ''%s'') = 2" by code_simp
  then have p: "po2 (bytes_of ''%s'') \<le> vcap ?v - vlen ?v" by simp
  show ?thesis using Buffer_vappendf_appends [OF v(1) p v(2), of "\<lambda>_. 7"] v(3) by (auto simp: i elems_def bytes_of_def)
qed

text \<open>A full buffer is released without room for the terminator; sealing a buffer overwrites its last byte.\<close>

lemma Buffer_release_full:
  assumes "0 < vlen v" "vlen v = vcap v" "vcap v = int (length (vdata v))"
  shows "Buffer_release junk compact v = None"
  using assms by (simp add: Buffer_release_def Vector_init_def)

lemma Buffer_seal_overwrites:
  assumes "vec_ok v" "0 < vlen v" "vlen v < vcap v"
  shows "\<exists>v'. Buffer_seal junk v = Some v' \<and> elems v' = butlast (elems v) @ [0]"
proof -
  have l: "nat (vlen v) = Suc (nat (vlen v - 1))" "nat (vlen v - 1) < length (vdata v)" using assms unfolding vec_ok_def by arith+
  have "Buffer_seal junk v = Some (v\<lparr>vdata := (vdata v)[nat (vlen v - 1) := 0]\<rparr>)"
    using assms by (simp add: Buffer_seal_def Vector_reserve_def store_at_def vec_ok_def)
  moreover have "take (nat (vlen v)) ((vdata v)[nat (vlen v - 1) := 0]) = butlast (take (nat (vlen v)) (vdata v)) @ [0]"
    using l by (simp add: take_update_swap take_Suc_conv_app_nth butlast_append list_update_append)
  ultimately show ?thesis by (simp add: elems_def)
qed

section \<open>What timers do\<close>

lemma Timer_stop_then_elapsed:
  assumes "Timer_stop now i T = Some (d, T')" "Timer_now now \<noteq> 0"
  shows "\<exists>t T''. timer_at i T = Some t \<and> d = Timer_now now - tm_start t \<and> Timer_elapsed later i T' = Some (tm_start t, T'') \<and>
    (\<forall>later. Timer_elapsed later i T'' = Some (tm_start t, T''))"
  using assms
  by (auto simp: Timer_stop_def Timer_elapsed_def set_timer_def store_at_def timer_at_def bind_eq_Some_conv split: if_splits)

end
