(* ===== verification/Cyn_Main.thy ===== *)
theory Cyn_Main
  imports Cyn_Assemble Cyn_VM Cyn_Names Cyn_ArgsUse Cyn_Usage Cyn_Report Cyn_Buffer
begin

text \<open>
  The programs: the assembler, \<^verbatim>\<open>src/compiler/asm/main.c\<close>, and the machine, \<^verbatim>\<open>src/vm/main.c\<close>. The system is the
  contents of the files and what was written to the standard output; which files can be created is a parameter. What is written
  to the error output is left out, as the log keeps its messages as formats, but that a diagnostic cannot be printed is kept.
  A program ends with an exit code, or it is stopped: by an abort, an exit within a component, or undefined behaviour.
\<close>

section \<open>The system\<close>

record System =
  sy_files :: "cstring \<rightharpoonup> u8 list"
  sy_out :: cstring

datatype outcome = Exited int | Stopped

type_synonym run = "System \<Rightarrow> (outcome \<times> System) option"

definition quit :: "outcome \<Rightarrow> run" where "quit e S = Some (e, S)"

definition print_out :: "cstring \<Rightarrow> System \<Rightarrow> System" where "print_out s S = S\<lparr>sy_out := sy_out S @ s\<rparr>"

definition put_file :: "cstring \<Rightarrow> u8 list \<Rightarrow> System \<Rightarrow> System" where "put_file p bs S = S\<lparr>sy_files := (sy_files S)(p \<mapsto> bs)\<rparr>"

section \<open>The assembler\<close>

text \<open>The text of a value.\<close>

definition value_text :: "'f CmdFlagValue option \<Rightarrow> cstring option" where
  "value_text v = (case v of Some (cmdString s) \<Rightarrow> Some s | _ \<Rightarrow> None)"

text \<open>Whether there are errors, after the diagnostics are printed, if there are any; \<open>None\<close> when they cannot be.\<close>

definition checkErrors :: "cstring \<Rightarrow> u8 list \<Rightarrow> Diagnostic list \<Rightarrow> string \<Rightarrow> bool option" where
  "checkErrors name src log msg =
     (if log = [] then Some False
      else
        let errors = length (filter (\<lambda>d. d_kind d = logError) log); warnings = length (filter (\<lambda>d. d_kind d = logWarning) log);
            m = bytes_of msg @ bytes_of '', errors: '' @ dec_nat errors @ bytes_of '', warnings: '' @ dec_nat warnings
        in map_option (\<lambda>_. errors \<noteq> 0) (Log_print0 (\<lambda>_. name) (\<lambda>_. src) log (Some m) []))"

definition Source_open0 :: "cstring \<Rightarrow> System \<Rightarrow> u8 list option \<times> Diagnostic list" where
  "Source_open0 input S =
     (case sy_files S input of
        None \<Rightarrow> (None, Log_append logError no_range ''opening source file failed'' [])
      | Some src \<Rightarrow> (Some src, []))"

definition output_name :: "cstring \<Rightarrow> cstring" where
  "output_name input = File_replace_ext (File_get_name input) (bytes_of ''.bin'')"

text \<open>
  The command has no flags, so the flag for the output is a null pointer and the output is always named after the input. It is
  emptied before the source is assembled.
\<close>

definition cmdAssemble :: "LexEnv \<Rightarrow> (nat \<Rightarrow> u8) \<Rightarrow> (cstring \<Rightarrow> bool) \<Rightarrow> 'f CmdCommand \<Rightarrow> run" where
  "cmdAssemble E junk can cmd S =
     (case value_text (cmdGetPositional cmd 0) of
        None \<Rightarrow> quit Stopped S
      | Some input \<Rightarrow>
          (case Source_open0 input S of
             (None, log) \<Rightarrow> quit (if checkErrors input [] log ''opening source file failed'' = None then Stopped else Exited 1) S
           | (Some src, log) \<Rightarrow>
               let dest = (case value_text (cmdGetFlag cmd 0) of None \<Rightarrow> output_name input | Some t \<Rightarrow> t) in
               if \<not> can dest then quit (Exited 1) S
               else
                 let S = put_file dest [] S in
                 case Lexer_init log False 0 src of
                   None \<Rightarrow> quit Stopped S
                 | Some lX \<Rightarrow>
                     Option.bind (Assembler_run E junk lX) (\<lambda>(r, as).
                     case r of
                       Inl s \<Rightarrow> quit Stopped S
                     | Inr (n, code) \<Rightarrow>
                         (case checkErrors input src (lx_log (as_lexer as)) ''assembling source file failed'' of
                            None \<Rightarrow> quit Stopped S
                          | Some True \<Rightarrow> quit (Exited 1) S
                          | Some False \<Rightarrow> quit (Exited 0) (put_file dest (take (unat n) code) S)))))"

section \<open>The disassemblers\<close>

text \<open>
  The listing of a file, or \<open>None\<close> when the code of the file is not a program. With steps of at least one byte the
  fuel is enough for every position of a file below 2^31 bytes.
\<close>

definition disassembly :: "'f doubles \<Rightarrow> 'f CmdCommand \<Rightarrow> Code \<Rightarrow> u8 list option" where
  "disassembly fs cmd code = VM_code_disassemble (Suc (length code)) code (\<not> is_on fs (cmdGetFlag cmd 0))"

definition write_listing :: "u8 list option \<Rightarrow> (u8 list \<Rightarrow> System \<Rightarrow> System) \<Rightarrow> run" where
  "write_listing l write S = (case l of None \<Rightarrow> quit Stopped S | Some bs \<Rightarrow> quit (Exited 0) (write bs S))"

definition cmdDisAssemble :: "'f doubles \<Rightarrow> (cstring \<Rightarrow> bool) \<Rightarrow> 'f CmdCommand \<Rightarrow> run" where
  "cmdDisAssemble fs can cmd S =
     (case value_text (cmdGetPositional cmd 0) of
        None \<Rightarrow> quit Stopped S
      | Some input \<Rightarrow>
          (case sy_files S input of
             None \<Rightarrow> quit (Exited 1) S
           | Some code \<Rightarrow>
               (case value_text (cmdGetFlag cmd 1) of
                  Some dest \<Rightarrow>
                    if \<not> can dest then quit (Exited 1) (print_out (bytes_of ''Unable to open output file '' @ quote_text dest @ [0x0A]) S)
                    else write_listing (disassembly fs cmd code) (put_file dest) S
                | None \<Rightarrow> write_listing (disassembly fs cmd code) print_out S)))"

text \<open>
  The machine does not initialise its streams: reporting a file that cannot be opened follows a null pointer.
\<close>

definition cmdDassem :: "'f doubles \<Rightarrow> (cstring \<Rightarrow> bool) \<Rightarrow> 'f CmdCommand \<Rightarrow> run" where
  "cmdDassem fs can cmd S =
     (case value_text (cmdGetPositional cmd 0) of
        None \<Rightarrow> quit Stopped S
      | Some input \<Rightarrow>
          (case sy_files S input of
             None \<Rightarrow> quit Stopped S
           | Some code \<Rightarrow>
               (case value_text (cmdGetFlag cmd 1) of
                  Some dest \<Rightarrow>
                    if \<not> can dest then quit (Exited 1) S else write_listing (disassembly fs cmd code) (put_file dest) S
                | None \<Rightarrow> write_listing (disassembly fs cmd code) print_out S)))"

section \<open>Declarations of the programs\<close>

definition Opt :: "string \<Rightarrow> u8 \<Rightarrow> string \<Rightarrow> bool \<Rightarrow> 'f CmdFlag" where
  "Opt name sf help app =
     \<lparr>fl_name = bytes_of name, fl_sf = sf, fl_help = Some (bytes_of help), fl_def = None, fl_val = cmdNoValue, isAppOnly = app, fl_validator = None\<rparr>"

definition Use :: "'f validator \<Rightarrow> string \<Rightarrow> u8 \<Rightarrow> string \<Rightarrow> string option \<Rightarrow> 'f CmdFlag" where
  "Use vd name sf help d =
     \<lparr>fl_name = bytes_of name, fl_sf = sf, fl_help = Some (bytes_of help), fl_def = map_option bytes_of d, fl_val = cmdNoValue,
      isAppOnly = False, fl_validator = Some vd\<rparr>"

definition Str_pos :: "string \<Rightarrow> string \<Rightarrow> string option \<Rightarrow> 'f CmdPositional" where
  "Str_pos name help d =
     \<lparr>ps_name = bytes_of name, ps_help = Some (bytes_of help), ps_def = map_option bytes_of d, ps_val = cmdNoValue, ps_validator = Some cmdParseString\<rparr>"

definition Command :: "nat \<Rightarrow> string \<Rightarrow> string \<Rightarrow> 'f CmdPositional list \<Rightarrow> 'f CmdFlag list \<Rightarrow> 'f CmdCommand" where
  "Command k name help ps fs =
     \<lparr>cm_name = bytes_of name, cm_help = Some (bytes_of help), cm_pos = ps, cm_lp = 0, cm_la = 0, cm_id = of_nat k, cm_args = fs\<rparr>"

definition help_command :: "'f CmdCommand" where
  "help_command = Command 0 ''help'' ''Get the application or help related to a specific command''
     [Str_pos ''command'' ''The command whose help should be retrieved'' (Some [])] []"

definition dassem_command :: "string \<Rightarrow> string \<Rightarrow> 'f CmdCommand" where
  "dassem_command pos help = Command 2 ''dassem'' ''disassembles the given bytecode file instead of running it''
     [Str_pos pos help None]
     [Opt ''hide-addr'' 0x48 ''Hide instruction addresses from generated assembly'' False,
      Use cmdParseString ''output'' 0x6F ''Path to the output file, if not specified the disassembly will be dumped to console'' (Some [])]"

definition assem_command :: "'f CmdCommand" where
  "assem_command = Command 1 ''assem'' ''Assembles the given cyn assemble file into bytecode''
     [Str_pos ''path'' ''Path to the file containing the bytecode to disassemble'' None] []"

definition run_command :: "'f doubles \<Rightarrow> 'f CmdCommand" where
  "run_command fs = Command 1 ''run''
     (''runs the given bytecode file, parsing any command line arguments '' @ ''following the '' @ [CHR 0x27] @ ''--'' @ [CHR 0x27] @ '' marker to the program.'')
     [Str_pos ''path'' ''Path to the file containing the bytecode to run'' None]
     [Use (cmdParseByteSize fs) ''Xss'' 0 ''Adjust the virtual machine stack size'' (Some ''8K''),
      Use (cmdParseByteSize fs) ''Xms'' 0
        (''Adjust the total memory to allocate for the virtual machine. This '' @
         ''value should be larger that the stack size as the stack is chunked '' @ ''from the total allocated memory.'') (Some ''1M'')]"

definition program_parser :: "string \<Rightarrow> string \<Rightarrow> 'f CmdCommand list \<Rightarrow> 'f CmdParser" where
  "program_parser name version cmds =
     \<lparr>pr_name = bytes_of name, pr_version = bytes_of version, pr_def = Some 1, pr_la = 0, pr_lc = 0, pr_cmds = cmds,
      pr_args = [Opt ''version'' 0x76 ''Show the application version'' True, Opt ''help'' 0x68 ''Get help for the selected command'' False],
      pr_error = [], pr_errno = False\<rparr>"

definition asm_parser :: "'f CmdParser" where
  "asm_parser = program_parser ''cynas'' ''0.1.0'' [help_command, assem_command, dassem_command ''path'' ''Path to the file containing the bytecode to disassemble'']"

definition vm_parser :: "'f doubles \<Rightarrow> 'f CmdParser" where
  "vm_parser fs = program_parser ''cynvm'' ''0.1.0'' [help_command, run_command fs, dassem_command ''file'' ''Path to the file containing the bytecode to disassemble'']"

section \<open>The main functions\<close>

definition show_usage :: "'f CmdParser \<Rightarrow> cstring option \<Rightarrow> u16 option \<Rightarrow> run" where
  "show_usage P name ws S =
     (case cmdShowUsage P name ws [] of None \<Rightarrow> None | Some t \<Rightarrow> quit (Exited 0) (print_out t S))"

text \<open>The help goes to the command that was named; without a name to the whole program.\<close>

definition help_for :: "cstring list \<Rightarrow> 'f CmdParser \<Rightarrow> u16 option \<Rightarrow> run" where
  "help_for argv P ws S =
     (case init_parser P of
        Inl _ \<Rightarrow> quit Stopped S
      | Inr P \<Rightarrow>
          (case choose_command (tl argv) P of
             (Some c, args) \<Rightarrow> show_usage P (if args = tl argv then None else Some (cm_name (pr_cmds P ! c))) ws S
           | (None, args) \<Rightarrow> quit Stopped S))"

definition stopped :: "cstring list \<Rightarrow> 'f CmdParser \<Rightarrow> u16 option \<Rightarrow> args_stop \<Rightarrow> run" where
  "stopped argv P ws s S =
     (case s of
        ArgsAbort \<Rightarrow> quit Stopped S
      | ArgsFault \<Rightarrow> quit Stopped S
      | ShowVersion \<Rightarrow> quit (Exited 0) (print_out (pr_name P @ bytes_of '' v'' @ pr_version P @ [0x0A]) S)
      | ShowHelp \<Rightarrow> help_for argv P ws S)"

definition asm_main :: "'f doubles \<Rightarrow> LexEnv \<Rightarrow> (nat \<Rightarrow> u8) \<Rightarrow> (cstring \<Rightarrow> bool) \<Rightarrow> u16 option \<Rightarrow> cstring list \<Rightarrow> run" where
  "asm_main fs E junk can ws argv S =
     (case parseCommandLineArguments fs argv asm_parser of
        Inl s \<Rightarrow> stopped argv (asm_parser :: 'f CmdParser) ws s S
      | Inr (selected, left, P) \<Rightarrow>
          if selected = 1 then cmdAssemble E junk can (pr_cmds P ! 1) S
          else if selected = 2 then cmdDisAssemble fs can (pr_cmds P ! 2) S
          else if selected = 0 then show_usage P (value_text (cmdGetPositional (pr_cmds P ! 0) 0)) ws S
          else quit (Exited 1) S)"

text \<open>The machine. The sizes are cut to 32 bits by a parameter; a run gives the machine or its fault, and \<open>None\<close> when the fuel is used up.\<close>

datatype 'w vm_end = Ended outcome | Ran "fault + 'w VM"

definition value_number :: "('f \<Rightarrow> u32) \<Rightarrow> 'f CmdFlagValue option \<Rightarrow> u32 option" where
  "value_number to_u32 v = (case v of Some (cmdNumber x) \<Rightarrow> Some (to_u32 x) | _ \<Rightarrow> None)"

definition cmdRun :: "('f \<Rightarrow> u32) \<Rightarrow> 'w syscalls \<Rightarrow> nat \<Rightarrow> u64 \<Rightarrow> (nat \<Rightarrow> u8) \<Rightarrow> store \<Rightarrow> 'w \<Rightarrow> 'f CmdCommand \<Rightarrow> cstring list \<Rightarrow>
    System \<Rightarrow> ('w vm_end \<times> System) option" where
  "cmdRun to_u32 sys fuel ptr garbage blocks w cmd argv S =
     (case (value_text (cmdGetPositional cmd 0), value_number to_u32 (cmdGetFlag cmd 0), value_number to_u32 (cmdGetFlag cmd 1)) of
        (Some input, Some ss, Some ms) \<Rightarrow>
          (case sy_files S input of
             None \<Rightarrow> Some (Ended Stopped, S)
           | Some code \<Rightarrow>
               (case VM_init_with ptr garbage blocks w code (ucast ms) 256 ss of
                  Inl f \<Rightarrow> Some (Ran (Inl f), S)
                | Inr vm \<Rightarrow> map_option (\<lambda>r. (Ran r, S)) (VM_run sys fuel vm argv)))
      | _ \<Rightarrow> Some (Ended Stopped, S))"

definition ended :: "(outcome \<times> System) option \<Rightarrow> ('w vm_end \<times> System) option" where
  "ended = map_option (map_prod Ended id)"

definition vm_main :: "'f doubles \<Rightarrow> ('f \<Rightarrow> u32) \<Rightarrow> 'w syscalls \<Rightarrow> nat \<Rightarrow> u64 \<Rightarrow> (nat \<Rightarrow> u8) \<Rightarrow> store \<Rightarrow> 'w \<Rightarrow> (cstring \<Rightarrow> bool) \<Rightarrow> u16 option \<Rightarrow>
    cstring list \<Rightarrow> System \<Rightarrow> ('w vm_end \<times> System) option" where
  "vm_main fs to_u32 sys fuel ptr garbage blocks w can ws argv S =
     (case parseCommandLineArguments fs argv (vm_parser fs) of
        Inl s \<Rightarrow> ended (stopped argv (vm_parser fs) ws s S)
      | Inr (selected, left, P) \<Rightarrow>
          if selected = 2 then ended (cmdDassem fs can (pr_cmds P ! 2) S)
          else if selected = 1 then cmdRun to_u32 sys fuel ptr garbage blocks w (pr_cmds P ! 1) left S
          else if selected = 0 then ended (show_usage P (value_text (cmdGetPositional (pr_cmds P ! 0) 0)) ws S)
          else Some (Ended (Exited 1), S))"

section \<open>The assembler on a file\<close>

lemma command_texts:
  "bytes_of ''help'' = [0x68, 0x65, 0x6C, 0x70]" "bytes_of ''assem'' = [0x61, 0x73, 0x73, 0x65, 0x6D]"
  "bytes_of ''dassem'' = [0x64, 0x61, 0x73, 0x73, 0x65, 0x6D]" "bytes_of ''version'' = [0x76, 0x65, 0x72, 0x73, 0x69, 0x6F, 0x6E]"
  "bytes_of ''hide-addr'' = [0x68, 0x69, 0x64, 0x65, 0x2D, 0x61, 0x64, 0x64, 0x72]" "bytes_of ''output'' = [0x6F, 0x75, 0x74, 0x70, 0x75, 0x74]"
  by code_simp+

lemmas program_defs = program_parser_def help_command_def assem_command_def dassem_command_def Command_def Opt_def Use_def Str_pos_def

lemma asm_init:
  "\<exists>P. init_parser (asm_parser :: 'f CmdParser) = Inr P \<and> pr_def P = Some 1 \<and> map cm_name (pr_cmds P) = map bytes_of [''help'', ''assem'', ''dassem''] \<and>
    map fl_name (pr_args P) = map bytes_of [''version'', ''help''] \<and> (\<forall>f \<in> set (pr_args P). fl_val f = cmdNoValue) \<and> pr_errno P = False \<and>
    cm_args (pr_cmds P ! 1) = [] \<and> cm_id (pr_cmds P ! 1) = 1 \<and> length (cm_pos (pr_cmds P ! 1)) = 1 \<and>
    ps_validator (cm_pos (pr_cmds P ! 1) ! 0) = Some cmdParseString"
  by (simp add: asm_parser_def program_defs prepare_defs command_texts)

lemma asm_parse:
  assumes "p \<noteq> []" "take 1 p \<noteq> [0x2D]" "p \<notin> set (map bytes_of [''help'', ''assem'', ''dassem''])"
  shows "\<exists>P. parseCommandLineArguments fs [prog, p] asm_parser = Inr (1, [], P) \<and>
    cmdGetPositional (pr_cmds P ! 1) 0 = Some (cmdString p) \<and> cmdGetFlag (pr_cmds P ! 1) 0 = None"
proof -
  obtain P :: "'a CmdParser" where P: "init_parser asm_parser = Inr P" "pr_def P = Some 1"
    "map cm_name (pr_cmds P) = map bytes_of [''help'', ''assem'', ''dassem'']"
    "map fl_name (pr_args P) = map bytes_of [''version'', ''help'']" "\<forall>f \<in> set (pr_args P). fl_val f = cmdNoValue" "pr_errno P = False"
    "cm_args (pr_cmds P ! 1) = []" "cm_id (pr_cmds P ! 1) = 1" "length (cm_pos (pr_cmds P ! 1)) = 1"
    "ps_validator (cm_pos (pr_cmds P ! 1) ! 0) = Some cmdParseString"
    using asm_init by blast
  have l: "length (pr_cmds P) = 3" "length (pr_args P) = 2" using P(3,4) by (auto dest: arg_cong [of _ _ length])
  have n: "cm_name (pr_cmds P ! i) \<noteq> p" if "i < 3" for i
    using that assms(3) P(3) l(1) by (metis nth_map nth_mem length_map)
  have c: "choose_command [p] P = (Some 1, [p])"
    using assms(1,2) n l(1) P(2) by (simp add: choose_command_def cmdFindCommandByName_def first_index_def upt_rec)
  have s: "\<not> cmdIsIgnoreArguments p" "\<not> cmdIsShortFlag p" "\<not> cmdIsLongFlag p"
    using assms(1,2) by (cases p; auto simp: cmdIsIgnoreArguments_def cmdIsShortFlag_def cmdIsLongFlag_def split: list.splits)+
  define Q where "Q = set_pos 1 0 (cmdString p) P"
  have e: "P\<lparr>pr_errno := False\<rparr> = P" using P(6) by (cases P) simp
  have z: "cm_pos (pr_cmds P ! Suc 0) \<noteq> []" using P(9) by auto
  have a: "cmdParseCommandArguments fs 1 0 [p] P = Inr (Some [], Q)"
    by (simp add: cmdParseCommandArguments.simps(2) s z P(6) P(10)[simplified] validated_def cmdParseString_def e Q_def Let_def)
  have q: "pr_args Q = pr_args P" "pr_cmds Q ! 1 = (pr_cmds P ! 1)\<lparr>cm_pos := (cm_pos (pr_cmds P ! 1))[0 := (cm_pos (pr_cmds P ! 1) ! 0)\<lparr>ps_val := cmdString p\<rparr>]\<rparr>"
    using l(1) by (simp_all add: Q_def set_pos_def)
  have g: "cm_args (pr_cmds Q ! 1) = []" "length (cm_pos (pr_cmds Q ! 1)) = 1" "ps_val (cm_pos (pr_cmds Q ! 1) ! 0) = cmdString p" "cm_id (pr_cmds Q ! 1) = 1"
    using P(7-9) unfolding q by simp_all
  have v: "fl_val (pr_args Q ! i) = cmdNoValue" if "i < 2" for i using that P(5) l(2) q(1) by simp
  have h: "cmdHandleBuiltins fs Q = Inr ()"
    by (simp add: cmdHandleBuiltins_def cmdGetGlobalFlag_def v value_of_def is_on_def)
  have f: "finish_command fs 1 [] Q = Inr (Some [], Q)"
    by (simp add: finish_command_def h g[simplified] upt_rec Let_def)
  have "parseCommandLineArguments fs [prog, p] asm_parser = Inr (1, [], Q)"
    by (simp add: parseCommandLineArguments_def P(1) c a[simplified] f[simplified] g(4)[simplified])
  moreover have "cmdGetPositional (pr_cmds Q ! 1) 0 = Some (cmdString p)" "cmdGetFlag (pr_cmds Q ! 1) 0 = None"
    by (simp_all add: cmdGetPositional_def cmdGetFlag_def value_of_def g[simplified])
  ultimately show ?thesis by blast
qed

text \<open>The code is as long as the size of the program, so all of it is written.\<close>

lemma linked_length: "length (linked_code as tab ps) = program_size as"
  using offset_linked [of "label_of as tab" ps "data_end as" "as_instructions as" "length (as_instructions as)"]
  by (simp add: linked_code_def CodeHeader_def program_size_def data_end_def offset_def)

lemma no_errors:
  assumes "checkErrors name src (lx_log (as_lexer as)) msg = Some False"
  shows "\<not> log_errors as"
  using assms by (auto simp: checkErrors_def Let_def log_errors_def filter_empty_conv split: if_splits)

text \<open>The code that a program parsed from the source has.\<close>

definition code_of :: "LexEnv \<Rightarrow> (nat \<Rightarrow> u8) \<Rightarrow> u8 list \<Rightarrow> Code \<Rightarrow> bool" where
  "code_of E junk src code \<longleftrightarrow>
     (\<exists>lX as0 as tab. Lexer_init [] False 0 src = Some lX \<and> Assembler_init E lX junk = Some (Inr (), as0) \<and>
        assemble_loop E as0 = Some (Inr (), as) \<and> ready as tab (patches as) \<and>
        (\<forall>p \<in> set (patches as). Option.bind (Range_view (\<lambda>_. src) (snd p)) tab \<noteq> None) \<and>
        (program_size as < 2 ^ 31 \<longrightarrow> code = linked_code as tab (patches as)))"

lemma code_written:
  assumes "Lexer_init [] False 0 src = Some lX" "lx_text lX = src" "assembled_program E junk lX (Inr (n, code)) as'" "\<not> log_errors as'"
  shows "code_of E junk src (take (unat n) code)"
proof -
  obtain as0 as tab where a: "Assembler_init E lX junk = Some (Inr (), as0)" "assemble_loop E as0 = Some (Inr (), as)"
    "ready as tab (patches as)" "\<forall>p \<in> set (patches as). Option.bind (Range_view (\<lambda>_. src) (snd p)) tab \<noteq> None"
    "program_size as < 2 ^ 31 \<longrightarrow> n = of_nat (program_size as) \<and> code = linked_code as tab (patches as)"
    using assms(2-4) by (auto simp: assembled_program_def)
  have "take (unat n) code = linked_code as tab (patches as)" if "program_size as < 2 ^ 31"
  proof -
    have "unat n = program_size as" using a(5) that by (simp add: unat_of_nat_u32)
    then show ?thesis using a(5) that by (simp add: linked_length)
  qed
  then show ?thesis unfolding code_of_def using assms(1) a by blast
qed

lemma cmdAssemble_law:
  assumes "cmdGetPositional cmd 0 = Some (cmdString p)" "cmdGetFlag cmd 0 = None" "sy_files S p = Some src"
    "length src < 2 ^ 30" "can (output_name p)"
  shows "case cmdAssemble E junk can cmd S of None \<Rightarrow> ch CHR 0x27 \<in> set src
    | Some (e, S') \<Rightarrow> \<exists>code. S' = put_file (output_name p) code S \<and> (if e = Exited 0 then code_of E junk src code else code = [])"
proof (cases "cmdAssemble E junk can cmd S")
  case None
  obtain lX where i: "Lexer_init [] False 0 src = Some lX" using init_total by blast
  have lX: "lexer_ok lX" "words_ok lX" "lx_text lX = src" using init_ok [OF i] by simp_all
  have "Assembler_run E junk lX = None"
    using None assms(1-3,5) i
    by (cases "Assembler_run E junk lX")
      (auto simp: cmdAssemble_def value_text_def Source_open0_def Let_def quit_def split: option.splits sum.splits bool.splits)
  then show ?thesis using run_outcome [OF lX(1,2), of E junk] assms(4) lX(3) None by simp
next
  case (Some z)
  let ?t = "output_name p"
  let ?S = "put_file ?t [] S"
  obtain lX where i: "Lexer_init [] False 0 src = Some lX" using init_total by blast
  have lX: "lexer_ok lX" "words_ok lX" "lx_text lX = src" using init_ok [OF i] by simp_all
  have "Assembler_run E junk lX \<noteq> None"
    using Some assms(1-3,5) i by (cases "Assembler_run E junk lX") (auto simp: cmdAssemble_def value_text_def Source_open0_def Let_def)
  then obtain r as' where r: "Assembler_run E junk lX = Some (r, as')" "assembled_program E junk lX r as'"
    using run_outcome [OF lX(1,2), of E junk] assms(4) lX(3) by (auto split: option.splits)
  have run: "cmdAssemble E junk can cmd S =
    (case r of Inl s \<Rightarrow> quit Stopped ?S
     | Inr (n, code) \<Rightarrow>
         (case checkErrors p src (lx_log (as_lexer as')) ''assembling source file failed'' of
            None \<Rightarrow> quit Stopped ?S | Some True \<Rightarrow> quit (Exited 1) ?S | Some False \<Rightarrow> quit (Exited 0) (put_file ?t (take (unat n) code) ?S)))"
    using assms(1-3,5) i r(1) by (simp add: cmdAssemble_def value_text_def Source_open0_def Let_def)
  have twice: "put_file ?t bs ?S = put_file ?t bs S" for bs by (simp add: put_file_def)
  show ?thesis
  proof (cases "\<exists>n code. r = Inr (n, code) \<and> checkErrors p src (lx_log (as_lexer as')) ''assembling source file failed'' = Some False")
    case True
    then obtain n code where c: "r = Inr (n, code)" "checkErrors p src (lx_log (as_lexer as')) ''assembling source file failed'' = Some False"
      by blast
    have "code_of E junk src (take (unat n) code)" using code_written [OF i lX(3) _ no_errors [OF c(2)]] r(2) c(1) by simp
    moreover have "cmdAssemble E junk can cmd S = Some (Exited 0, put_file ?t (take (unat n) code) S)"
      unfolding run using c by (simp add: quit_def twice)
    ultimately show ?thesis by auto
  next
    case False
    then have "\<exists>e. e \<noteq> Exited 0 \<and> cmdAssemble E junk can cmd S = Some (e, ?S)"
      unfolding run by (auto simp: quit_def split: sum.splits option.splits bool.splits)
    then show ?thesis by auto
  qed
qed

lemma open_refused: "checkErrors p [] (Log_append logError no_range m []) t \<noteq> None"
  by (simp add: checkErrors_def Log_append_def Let_def Log_print0_def print_diagnostic_def no_range_def)


definition demo_system :: System where
  "demo_system = \<lparr>sy_files = [bytes_of ''d/a.asm'' \<mapsto> bytes_of ''jmp e''], sy_out = []\<rparr>"


end
