(* ===== verification/Cyn_Except.thy ===== *)
theory Cyn_Except
  imports Cyn_Text Cyn_Token
begin

text \<open>
  The exceptions of \<^verbatim>\<open>src/e4c.c\<close> and \<^verbatim>\<open>include/e4c.h\<close>: frames with a stage, the functions behind the macros, and
  the macros \<open>E4C_TRY\<close>, \<open>E4C_CATCH\<close> and \<open>E4C_FINALLY\<close> as a combinator on pieces of client code. A type is
  an index that a table maps to its record. The buffer of a \<open>setjmp\<close> is its index; a piece of code that does not come to its
  end leaves by a \<open>longjmp\<close> to such an index or by ending the program with a text. \<open>None\<close> is a loop without end.
\<close>

section \<open>Types and frames\<close>

type_synonym cchars = "u8 list"

record e4c_exception_type =
  et_name :: cchars
  default_message :: cchars
  supertype :: "nat option"

definition RuntimeException :: nat where "RuntimeException = 0"

definition NullPointerException :: nat where "NullPointerException = 1"

definition ITPException :: nat where "ITPException = 2"

type_synonym exception_types = "nat \<Rightarrow> e4c_exception_type"

text \<open>The types that the program defines.\<close>

definition E4C_DEFINE_EXCEPTION :: "string \<Rightarrow> string \<Rightarrow> nat \<Rightarrow> e4c_exception_type" where
  "E4C_DEFINE_EXCEPTION name message super = \<lparr>et_name = bytes_of name, default_message = bytes_of message, supertype = Some super\<rparr>"

definition program_types :: exception_types where
  "program_types t =
     (if t = NullPointerException then E4C_DEFINE_EXCEPTION ''NullPointerException'' ''Null pointer.'' RuntimeException
      else if t = ITPException then E4C_DEFINE_EXCEPTION ''ITPException'' ''Parsing error'' RuntimeException
      else E4C_DEFINE_EXCEPTION ''RuntimeException'' ''Runtime exception.'' RuntimeException)"

record e4c_exception =
  ex_message :: cchars
  ex_file :: "cchars option"
  ex_line :: int
  ex_type :: nat

definition e4c_beginning :: u8 where "e4c_beginning = 0"
definition e4c_trying :: u8 where "e4c_trying = 1"
definition e4c_catching :: u8 where "e4c_catching = 2"
definition e4c_finalizing :: u8 where "e4c_finalizing = 3"
definition e4c_done :: u8 where "e4c_done = 4"

lemmas stage_defs = e4c_beginning_def e4c_trying_def e4c_catching_def e4c_finalizing_def e4c_done_def

record e4c_frame =
  fr_stage :: u8
  fr_uncaught :: bool

record e4c_context =
  e4c_err :: e4c_exception
  e4c_stack :: "e4c_frame list"
  e4c_frames :: nat

definition E4C_MAX_FRAMES :: nat where "E4C_MAX_FRAMES = 16"
definition E4C_MESSAGE_SIZE :: nat where "E4C_MESSAGE_SIZE = 128"

datatype e4c_leave = LongJmp nat | ExitFailure cchars

definition frame_now :: "e4c_context \<Rightarrow> e4c_frame" where "frame_now c = e4c_stack c ! e4c_frames c"

definition set_frame :: "e4c_frame \<Rightarrow> e4c_context \<Rightarrow> e4c_context" where
  "set_frame f c = c\<lparr>e4c_stack := (e4c_stack c)[e4c_frames c := f]\<rparr>"

section \<open>The functions\<close>

definition uncaught_text :: "exception_types \<Rightarrow> e4c_exception \<Rightarrow> cchars" where
  "uncaught_text ts e =
     (let name = et_name (ts (ex_type e)) in
      case ex_file e of
        Some f \<Rightarrow> [10, 10] @ bytes_of ''Uncaught '' @ name @ bytes_of '': '' @ ex_message e @ [10, 10] @
          bytes_of ''    thrown at '' @ f @ bytes_of '':'' @ dec_int (ex_line e) @ [10, 10]
      | None \<Rightarrow> [10, 10] @ bytes_of ''Error: '' @ name @ bytes_of '' ('' @ ex_message e @ bytes_of '')'' @ [10, 10])"

definition e4c_propagate :: "exception_types \<Rightarrow> e4c_context \<Rightarrow> e4c_leave \<times> e4c_context" where
  "e4c_propagate ts c =
     (let c = set_frame ((frame_now c)\<lparr>fr_uncaught := True\<rparr>) c in
      (if e4c_frames c > 0 then LongJmp (e4c_frames c - 1) else ExitFailure (uncaught_text ts (e4c_err c)), c))"

definition e4c_throw :: "exception_types \<Rightarrow> nat option \<Rightarrow> cchars option \<Rightarrow> int \<Rightarrow> cchars option \<Rightarrow> e4c_context \<Rightarrow> e4c_leave \<times> e4c_context" where
  "e4c_throw ts type file line message c =
     (let t = (case type of Some t \<Rightarrow> t | None \<Rightarrow> NullPointerException);
          m = (case message of Some m \<Rightarrow> m | None \<Rightarrow> default_message (ts t))
      in e4c_propagate ts (c\<lparr>e4c_err := \<lparr>ex_message = take (E4C_MESSAGE_SIZE - 1) m, ex_file = file, ex_line = line, ex_type = t\<rparr>\<rparr>))"

definition too_many :: "cchars option \<Rightarrow> int \<Rightarrow> e4c_exception" where
  "too_many file line =
     \<lparr>ex_message = bytes_of ''Too many `try` blocks nested.'', ex_file = file, ex_line = line, ex_type = RuntimeException\<rparr>"

definition e4c_try :: "exception_types \<Rightarrow> cchars option \<Rightarrow> int \<Rightarrow> e4c_context \<Rightarrow> (e4c_leave + int) \<times> e4c_context" where
  "e4c_try ts file line c =
     (if e4c_frames c \<ge> E4C_MAX_FRAMES then
        map_prod Inl id (e4c_throw ts (Some RuntimeException) file line (Some (bytes_of ''Too many `try` blocks nested.'')) c)
      else
        let c = c\<lparr>e4c_frames := e4c_frames c + 1\<rparr> in
        (Inr 1, set_frame \<lparr>fr_stage = e4c_beginning, fr_uncaught = False\<rparr> c))"

definition e4c_hook :: "exception_types \<Rightarrow> bool \<Rightarrow> e4c_context \<Rightarrow> (e4c_leave + int) \<times> e4c_context" where
  "e4c_hook ts is_catch c =
     (if is_catch then (Inr 1, set_frame ((frame_now c)\<lparr>fr_uncaught := False\<rparr>) c)
      else
        let uncaught = fr_uncaught (frame_now c);
            stage = fr_stage (frame_now c) + 1;
            stage = (if stage = e4c_catching \<and> \<not> uncaught then stage + 1 else stage);
            c = set_frame ((frame_now c)\<lparr>fr_stage := stage\<rparr>) c
        in if stage < e4c_done then (Inr 1, c)
           else
             let c = c\<lparr>e4c_frames := e4c_frames c - 1\<rparr> in
             if uncaught then map_prod Inl id (e4c_propagate ts c) else (Inr 0, c))"

text \<open>The walk up the supertypes; a type without a supertype ends it, and so does one that is its own.\<close>

partial_function (option) e4c_extends :: "exception_types \<Rightarrow> nat option \<Rightarrow> nat \<Rightarrow> bool option" where
  "e4c_extends ts child parent =
     (case child of
        None \<Rightarrow> Some False
      | Some t \<Rightarrow>
          if supertype (ts t) \<noteq> child then
            if supertype (ts t) = Some parent then Some True else e4c_extends ts (supertype (ts t)) parent
          else Some False)"

definition E4C_IS_INSTANCE_OF :: "exception_types \<Rightarrow> nat \<Rightarrow> e4c_context \<Rightarrow> bool option" where
  "E4C_IS_INSTANCE_OF ts t c =
     (if ex_type (e4c_err c) = t then Some True else e4c_extends ts (Some (ex_type (e4c_err c))) t)"

section \<open>The macros\<close>

text \<open>A piece of client code: it does not end, or leaves, or comes to its end, with a new context and a new state.\<close>

type_synonym 's code = "e4c_context \<Rightarrow> 's \<Rightarrow> (e4c_leave option \<times> e4c_context \<times> 's) option"

definition E4C_THROW :: "exception_types \<Rightarrow> nat \<Rightarrow> cchars option \<Rightarrow> int \<Rightarrow> cchars option \<Rightarrow> 's code" where
  "E4C_THROW ts type file line message c s =
     (case e4c_throw ts (Some type) file line message c of (l, c) \<Rightarrow> Some (Some l, c, s))"

definition code_seq :: "'s code \<Rightarrow> 's code \<Rightarrow> 's code" where
  "code_seq p q c s =
     Option.bind (p c s) (\<lambda>(l, c, s). if l = None then q c s else Some (l, c, s))"

text \<open>The chain of \<open>else if\<close> behind a block: the handlers, which may look at the exception, and the final block.\<close>

primrec handlers :: "exception_types \<Rightarrow> (nat \<times> (e4c_exception \<Rightarrow> 's code)) list \<Rightarrow> 's code \<Rightarrow> 's code" where
  "handlers ts [] fin c s = (if fr_stage (frame_now c) = e4c_finalizing then fin c s else Some (None, c, s))"
| "handlers ts (h # hs) fin c s =
     (if fr_stage (frame_now c) = e4c_catching then
        Option.bind (E4C_IS_INSTANCE_OF ts (fst h) c) (\<lambda>inst.
        if inst then
          case e4c_hook ts True c of (r, c) \<Rightarrow> snd h (e4c_err c) c s
        else handlers ts hs fin c s)
      else handlers ts hs fin c s)"

definition try_stage :: "exception_types \<Rightarrow> 's code \<Rightarrow> (nat \<times> (e4c_exception \<Rightarrow> 's code)) list \<Rightarrow> 's code \<Rightarrow> 's code" where
  "try_stage ts body hs fin c s =
     (if fr_stage (frame_now c) = e4c_trying then body c s else handlers ts hs fin c s)"

text \<open>The loop of the hook; a jump to the own buffer \<open>k\<close> comes back to it.\<close>

partial_function (option) try_loop :: "exception_types \<Rightarrow> nat \<Rightarrow> 's code \<Rightarrow> (nat \<times> (e4c_exception \<Rightarrow> 's code)) list \<Rightarrow> 's code \<Rightarrow>
    e4c_context \<Rightarrow> 's \<Rightarrow> (e4c_leave option \<times> e4c_context \<times> 's) option" where
  "try_loop ts k body hs fin c s =
     (case e4c_hook ts False c of
        (Inl l, c) \<Rightarrow> Some (Some l, c, s)
      | (Inr r, c) \<Rightarrow>
          if r = 0 then Some (None, c, s)
          else
            Option.bind (try_stage ts body hs fin c s) (\<lambda>(l, c, s).
            if l = None \<or> l = Some (LongJmp k) then try_loop ts k body hs fin c s else Some (l, c, s)))"

definition E4C_TRY :: "exception_types \<Rightarrow> cchars option \<Rightarrow> int \<Rightarrow> 's code \<Rightarrow> (nat \<times> (e4c_exception \<Rightarrow> 's code)) list \<Rightarrow> 's code \<Rightarrow> 's code" where
  "E4C_TRY ts file line body hs fin c s =
     (case e4c_try ts file line c of
        (Inl l, c) \<Rightarrow> Some (Some l, c, s)
      | (Inr r, c) \<Rightarrow> try_loop ts (e4c_frames c - 1) body hs fin c s)"

end
