(* ===== verification/Cyn_ExceptUse.thy ===== *)
theory Cyn_ExceptUse
  imports Cyn_Except
begin

text \<open>
  What the frames promise: blocks with handlers and a final block, as functions on the state of the client, the last
  exception and the number of open blocks, and the proof that the macros implement them.
\<close>

section \<open>Types\<close>

definition subtype :: "exception_types \<Rightarrow> nat \<Rightarrow> nat \<Rightarrow> bool" where
  "subtype ts t p \<longleftrightarrow> (t, p) \<in> {(a, b). supertype (ts a) = Some b}\<^sup>*"

text \<open>Going up ends: apart from types that are their own supertype, a supertype has a smaller rank.\<close>

definition ranked :: "(nat \<Rightarrow> nat) \<Rightarrow> exception_types \<Rightarrow> bool" where
  "ranked rank ts \<longleftrightarrow> (\<forall>t s. supertype (ts t) = Some s \<longrightarrow> s \<noteq> t \<longrightarrow> rank s < rank t)"

lemma subtype_rank:
  assumes "ranked rank ts" "subtype ts t p"
  shows "rank p \<le> rank t"
  using assms(2) unfolding subtype_def
proof (induction rule: rtrancl_induct)
  case (step a b)
  then have "b = a \<or> rank b < rank a" using assms(1) by (auto simp: ranked_def)
  then show ?case using step.IH by auto
qed simp

lemma subtype_self: "subtype ts t t"
  by (simp add: subtype_def)

lemma subtype_up: "supertype (ts t) = Some s \<Longrightarrow> subtype ts s p \<Longrightarrow> subtype ts t p"
  unfolding subtype_def by (rule converse_rtrancl_into_rtrancl) simp_all

lemma subtype_cases:
  assumes "subtype ts t p"
  shows "t = p \<or> (\<exists>s. supertype (ts t) = Some s \<and> subtype ts s p)"
  using assms unfolding subtype_def by (auto elim: converse_rtranclE)

lemma subtype_root: "subtype ts t p \<Longrightarrow> supertype (ts t) = Some t \<or> supertype (ts t) = None \<Longrightarrow> p = t"
  unfolding subtype_def by (induction rule: rtrancl_induct) auto

lemma e4c_extends_subtype:
  assumes "ranked rank ts"
  shows "e4c_extends ts (Some t) p = Some (subtype ts t p \<and> t \<noteq> p)"
proof (induction "rank t" arbitrary: t rule: less_induct)
  case less
  consider (Root) "supertype (ts t) = Some t" | (None) "supertype (ts t) = None" | (Up) s where "supertype (ts t) = Some s" "s \<noteq> t"
    by (cases "supertype (ts t)") auto
  then show ?case
  proof cases
    case Root
    then show ?thesis using subtype_root [of ts t p] by (subst e4c_extends.simps) auto
  next
    case None
    then have "e4c_extends ts (supertype (ts t)) p = Some False" by (subst e4c_extends.simps) simp
    then show ?thesis using None subtype_root [of ts t p] by (subst e4c_extends.simps) auto
  next
    case Up
    have r: "rank s < rank t" using assms Up by (simp add: ranked_def)
    have up: "subtype ts t p \<and> t \<noteq> p \<longleftrightarrow> subtype ts s p"
      using subtype_cases [of ts t p] subtype_up [of ts t s p] subtype_rank [OF assms, of s p] r Up by auto
    show ?thesis
      using less.hyps [OF r] Up by (subst e4c_extends.simps) (auto simp: up subtype_self)
  qed
qed

lemma instance_of_subtype:
  assumes "ranked rank ts"
  shows "E4C_IS_INSTANCE_OF ts t c = Some (subtype ts (ex_type (e4c_err c)) t)"
  using subtype_self by (auto simp: E4C_IS_INSTANCE_OF_def e4c_extends_subtype [OF assms])

section \<open>Blocks\<close>

text \<open>
  The abstract side: a piece of code gets the number of open blocks, the last exception and the state. It tells
  whether it raises the last exception, and gives the new ones.
\<close>

type_synonym 's block = "nat \<Rightarrow> e4c_exception \<Rightarrow> 's \<Rightarrow> bool \<times> e4c_exception \<times> 's"

definition try_block :: "exception_types \<Rightarrow> cchars option \<Rightarrow> int \<Rightarrow> 's block \<Rightarrow> (nat \<times> (e4c_exception \<Rightarrow> 's block)) list \<Rightarrow> 's block \<Rightarrow> 's block" where
  "try_block ts file line q hs f n e s =
     (if n \<ge> E4C_MAX_FRAMES then (True, too_many file line, s)
      else
        let (raised, e, s) = q (Suc n) e s;
            (raised, e, s) =
              (if raised then
                 case find (\<lambda>h. subtype ts (ex_type e) (fst h)) hs of
                   None \<Rightarrow> (True, e, s)
                 | Some h \<Rightarrow> snd h e (Suc n) e s
               else (False, e, s));
            (again, e, s) = f (Suc n) e s
        in (raised \<or> again, e, s))"

definition seq_block :: "'s block \<Rightarrow> 's block \<Rightarrow> 's block" where
  "seq_block q r n e s = (case q n e s of (raised, e, s) \<Rightarrow> if raised then (True, e, s) else r n e s)"

section \<open>Implementation\<close>

definition context_ok :: "e4c_context \<Rightarrow> bool" where
  "context_ok c \<longleftrightarrow> length (e4c_stack c) = Suc E4C_MAX_FRAMES \<and> e4c_frames c \<le> E4C_MAX_FRAMES"

definition leave_of :: "exception_types \<Rightarrow> nat \<Rightarrow> e4c_exception \<Rightarrow> e4c_leave" where
  "leave_of ts n e = (if n > 0 then LongJmp (n - 1) else ExitFailure (uncaught_text ts e))"

text \<open>
  A context after a piece of code: the same number of frames, the frames below and the own one as before, except that the
  own one is marked when an exception is raised.
\<close>

definition after_code :: "e4c_context \<Rightarrow> bool \<Rightarrow> e4c_exception \<Rightarrow> e4c_context \<Rightarrow> bool" where
  "after_code c raised e c' \<longleftrightarrow>
     context_ok c' \<and> e4c_frames c' = e4c_frames c \<and> e4c_err c' = e \<and> take (e4c_frames c) (e4c_stack c') = take (e4c_frames c) (e4c_stack c) \<and>
     frame_now c' = (if raised then (frame_now c)\<lparr>fr_uncaught := True\<rparr> else frame_now c)"

definition implements :: "exception_types \<Rightarrow> 's code \<Rightarrow> 's block \<Rightarrow> bool" where
  "implements ts p q \<longleftrightarrow>
     (\<forall>c s. context_ok c \<longrightarrow>
       (case q (e4c_frames c) (e4c_err c) s of (raised, e, s') \<Rightarrow>
         \<exists>c'. p c s = Some (if raised then Some (leave_of ts (e4c_frames c) e) else None, c', s') \<and> after_code c raised e c'))"

lemma implementsD:
  assumes "implements ts p q" "context_ok c" "q (e4c_frames c) (e4c_err c) s = (raised, e, s')"
  shows "\<exists>c'. p c s = Some (if raised then Some (leave_of ts (e4c_frames c) e) else None, c', s') \<and> after_code c raised e c'"
  using assms(1) [unfolded implements_def, rule_format, OF assms(2), of s] by (simp add: assms(3))

lemma implementsI:
  assumes "\<And>c s raised e s'. context_ok c \<Longrightarrow> q (e4c_frames c) (e4c_err c) s = (raised, e, s') \<Longrightarrow>
    \<exists>c'. p c s = Some (if raised then Some (leave_of ts (e4c_frames c) e) else None, c', s') \<and> after_code c raised e c'"
  shows "implements ts p q"
  using assms unfolding implements_def by (auto split: prod.split)

lemma after_codeD:
  assumes "after_code c raised e c'"
  shows "context_ok c'" "e4c_frames c' = e4c_frames c" "e4c_err c' = e" "take (e4c_frames c) (e4c_stack c') = take (e4c_frames c) (e4c_stack c)"
    "frame_now c' = (if raised then (frame_now c)\<lparr>fr_uncaught := True\<rparr> else frame_now c)"
  using assms by (simp_all add: after_code_def)

lemma set_frame_simps [simp]:
  "e4c_frames (set_frame f c) = e4c_frames c" "e4c_err (set_frame f c) = e4c_err c" "context_ok (set_frame f c) = context_ok c"
  "take (e4c_frames c) (e4c_stack (set_frame f c)) = take (e4c_frames c) (e4c_stack c)"
  "context_ok c \<Longrightarrow> frame_now (set_frame f c) = f"
  by (auto simp: set_frame_def context_ok_def frame_now_def)

lemma propagate_after:
  assumes "context_ok c"
  shows "\<exists>c'. e4c_propagate ts c = (leave_of ts (e4c_frames c) (e4c_err c), c') \<and> after_code c True (e4c_err c) c'"
  using assms by (auto simp: e4c_propagate_def leave_of_def after_code_def Let_def)

definition thrown :: "exception_types \<Rightarrow> nat \<Rightarrow> cchars option \<Rightarrow> int \<Rightarrow> cchars option \<Rightarrow> e4c_exception" where
  "thrown ts t file line message =
     \<lparr>ex_message = take 127 (case message of Some m \<Rightarrow> m | None \<Rightarrow> default_message (ts t)), ex_file = file, ex_line = line, ex_type = t\<rparr>"

definition throw_block :: "exception_types \<Rightarrow> nat \<Rightarrow> cchars option \<Rightarrow> int \<Rightarrow> cchars option \<Rightarrow> 's block" where
  "throw_block ts t file line message n e s = (True, thrown ts t file line message, s)"

lemma throw_after:
  assumes "context_ok c"
  shows "\<exists>c'. e4c_throw ts (Some t) file line message c = (leave_of ts (e4c_frames c) (thrown ts t file line message), c') \<and>
    after_code c True (thrown ts t file line message) c'"
proof -
  let ?e = "thrown ts t file line message"
  let ?c = "c\<lparr>e4c_err := ?e\<rparr>"
  have ok: "context_ok ?c" using assms by (simp add: context_ok_def)
  have e: "e4c_throw ts (Some t) file line message c = e4c_propagate ts ?c"
    by (simp add: thrown_def e4c_throw_def Let_def E4C_MESSAGE_SIZE_def)
  have "frame_now ?c = frame_now c" by (simp add: frame_now_def)
  then show ?thesis using propagate_after [OF ok, of ts] by (auto simp: e after_code_def)
qed

lemma throw_implements: "implements ts (E4C_THROW ts t file line message) (throw_block ts t file line message)"
proof (rule implementsI, goal_cases)
  case (1 c s raised e s')
  then show ?case using throw_after [OF 1(1), of ts t "file" line message] by (auto simp: throw_block_def E4C_THROW_def)
qed

lemma seq_implements:
  assumes "implements ts p q" "implements ts p' q'"
  shows "implements ts (code_seq p p') (seq_block q q')"
proof (rule implementsI, goal_cases)
  case (1 c s raised e s')
  obtain r1 e1 s1 where q: "q (e4c_frames c) (e4c_err c) s = (r1, e1, s1)" by (metis prod_cases3)
  obtain c1 where c1: "p c s = Some (if r1 then Some (leave_of ts (e4c_frames c) e1) else None, c1, s1)" "after_code c r1 e1 c1"
    using implementsD [OF assms(1) 1(1) q] by blast
  show ?case
  proof (cases r1)
    case True
    then show ?thesis using 1(2) c1 q by (auto simp: seq_block_def code_seq_def)
  next
    case False
    then have "q' (e4c_frames c1) (e4c_err c1) s1 = (raised, e, s')" using 1(2) q after_codeD [OF c1(2)] by (simp add: seq_block_def)
    then obtain c2 where "p' c1 s1 = Some (if raised then Some (leave_of ts (e4c_frames c1) e) else None, c2, s')" "after_code c1 raised e c2"
      using implementsD [OF assms(2) after_codeD(1) [OF c1(2)]] by blast
    then show ?thesis using False c1 by (auto simp: code_seq_def after_code_def)
  qed
qed

section \<open>A block from inside\<close>

text \<open>The context in a block: the frames below, the stage, whether an exception is pending, and the last exception.\<close>

definition in_block :: "nat \<Rightarrow> e4c_frame list \<Rightarrow> u8 \<Rightarrow> bool \<Rightarrow> e4c_exception \<Rightarrow> e4c_context \<Rightarrow> bool" where
  "in_block n fs st u e c \<longleftrightarrow>
     context_ok c \<and> e4c_frames c = Suc n \<and> e4c_err c = e \<and> take (Suc n) (e4c_stack c) = fs \<and> frame_now c = \<lparr>fr_stage = st, fr_uncaught = u\<rparr>"

definition out_of_block :: "nat \<Rightarrow> e4c_frame list \<Rightarrow> bool \<Rightarrow> e4c_exception \<Rightarrow> e4c_context \<Rightarrow> bool" where
  "out_of_block n fs u e c \<longleftrightarrow>
     context_ok c \<and> e4c_frames c = n \<and> e4c_err c = e \<and> take n (e4c_stack c) = take n fs \<and>
     frame_now c = (if u then (fs ! n)\<lparr>fr_uncaught := True\<rparr> else fs ! n)"

lemma in_block_frame:
  assumes "in_block n fs st u e c"
  shows "in_block n fs st' u' e (set_frame \<lparr>fr_stage = st', fr_uncaught = u'\<rparr> c)"
  using assms set_frame_simps(4) [of c] by (simp add: in_block_def)

lemma hook_stage:
  assumes "in_block n fs st u e c" "st + 1 = e4c_catching \<and> \<not> u \<longrightarrow> st' = e4c_finalizing" "\<not> (st + 1 = e4c_catching \<and> \<not> u) \<longrightarrow> st' = st + 1"
    "st' < e4c_done"
  shows "\<exists>c'. e4c_hook ts False c = (Inr 1, c') \<and> in_block n fs st' u e c'"
  using assms in_block_frame [OF assms(1), of st' u] by (auto simp: e4c_hook_def in_block_def Let_def stage_defs)

lemma hook_catch:
  assumes "in_block n fs st u e c"
  shows "\<exists>c'. e4c_hook ts True c = (Inr 1, c') \<and> in_block n fs st False e c'"
  using in_block_frame [OF assms, of st False] assms by (auto simp: e4c_hook_def in_block_def)

lemma hook_done:
  assumes "in_block n fs e4c_finalizing u e c"
  shows "\<exists>c'. e4c_hook ts False c = (if u then Inl (leave_of ts n e) else Inr 0, c') \<and> out_of_block n fs u e c'"
proof -
  let ?c = "(set_frame \<lparr>fr_stage = e4c_done, fr_uncaught = u\<rparr> c)\<lparr>e4c_frames := n\<rparr>"
  have i: "in_block n fs e4c_done u e (set_frame \<lparr>fr_stage = e4c_done, fr_uncaught = u\<rparr> c)" using in_block_frame [OF assms] .
  have l: "n < length fs" using assms by (auto simp: in_block_def context_ok_def)
  have t: "take (Suc n) (e4c_stack ?c) = fs" and ok: "context_ok ?c" and e: "e4c_err ?c = e"
    using i by (simp_all add: in_block_def context_ok_def)
  have f: "frame_now ?c = fs ! n" using t by (simp add: frame_now_def flip: t)
  have tn: "take n (e4c_stack ?c) = take n fs" using t by (simp flip: t add: min_def)
  have h: "e4c_hook ts False c = (if u then map_prod Inl id (e4c_propagate ts ?c) else (Inr 0, ?c))"
    using assms by (simp add: e4c_hook_def in_block_def Let_def stage_defs)
  show ?thesis
  proof (cases u)
    case True
    obtain c' where "e4c_propagate ts ?c = (leave_of ts n e, c')" "after_code ?c True e c'"
      using propagate_after [OF ok, of ts] e by auto
    then show ?thesis using True h tn f by (auto simp: out_of_block_def after_code_def)
  next
    case False
    then show ?thesis using h ok e tn f by (simp add: out_of_block_def)
  qed
qed

lemma code_in_block:
  assumes "implements ts p q" "in_block n fs st u e c" "q (Suc n) e s = (raised, e', s')"
  shows "\<exists>c'. p c s = Some (if raised then Some (LongJmp n) else None, c', s') \<and> in_block n fs st (u \<or> raised) e' c'"
proof -
  have "context_ok c" "e4c_frames c = Suc n" "e4c_err c = e" using assms(2) by (simp_all add: in_block_def)
  then obtain c' where p: "p c s = Some (if raised then Some (LongJmp n) else None, c', s')" and a: "after_code c raised e' c'"
    using implementsD [OF assms(1), of c s raised e' s'] assms(3) by (auto simp: leave_of_def split: if_splits)
  have "in_block n fs st (u \<or> raised) e' c'" using a assms(2) by (auto simp: after_code_def in_block_def)
  then show ?thesis using p by blast
qed

section \<open>The loop of the stages\<close>

definition handlers_implement :: "exception_types \<Rightarrow> (nat \<times> (e4c_exception \<Rightarrow> 's code)) list \<Rightarrow> (nat \<times> (e4c_exception \<Rightarrow> 's block)) list \<Rightarrow> bool" where
  "handlers_implement ts hs ks \<longleftrightarrow> list_all2 (\<lambda>h k. fst h = fst k \<and> (\<forall>e. implements ts (snd h e) (snd k e))) hs ks"

lemma loop_done:
  assumes "in_block n fs e4c_finalizing u e c"
  shows "\<exists>c'. try_loop ts n body hs fin c s = Some (if u then Some (leave_of ts n e) else None, c', s) \<and> out_of_block n fs u e c'"
  using hook_done [OF assms, of ts] by (subst try_loop.simps) auto

lemma loop_stage:
  assumes "e4c_hook ts False c = (Inr 1, c1)" "try_stage ts body hs fin c1 s = Some (if raised then Some (LongJmp n) else None, c2, s')"
  shows "try_loop ts n body hs fin c s = try_loop ts n body hs fin c2 s'"
  using assms by (subst try_loop.simps) simp

lemma stage_simps:
  "in_block n fs e4c_trying u e c \<Longrightarrow> try_stage ts body hs fin c s = body c s"
  "in_block n fs e4c_catching u e c \<Longrightarrow> try_stage ts body hs fin c s = handlers ts hs fin c s"
  "in_block n fs e4c_finalizing u e c \<Longrightarrow> try_stage ts body hs fin c s = fin c s"
proof -
  show "in_block n fs e4c_trying u e c \<Longrightarrow> try_stage ts body hs fin c s = body c s"
    "in_block n fs e4c_catching u e c \<Longrightarrow> try_stage ts body hs fin c s = handlers ts hs fin c s"
    by (simp_all add: in_block_def try_stage_def stage_defs)
  assume "in_block n fs e4c_finalizing u e c"
  then have f: "fr_stage (frame_now c) = e4c_finalizing" by (simp add: in_block_def)
  have "handlers ts hs fin c s = fin c s" using f by (induction hs) (simp_all add: stage_defs)
  then show "try_stage ts body hs fin c s = fin c s" using f by (simp add: try_stage_def stage_defs)
qed

text \<open>From the stage in front of the final block.\<close>

lemma loop_final:
  assumes "implements ts fin f" "in_block n fs st u e c" "st = e4c_catching \<or> st = e4c_trying \<and> \<not> u" "f (Suc n) e s = (again, e', s')"
  shows "\<exists>c'. try_loop ts n body hs fin c s = Some (if u \<or> again then Some (leave_of ts n e') else None, c', s') \<and> out_of_block n fs (u \<or> again) e' c'"
proof -
  obtain c1 where c1: "e4c_hook ts False c = (Inr 1, c1)" "in_block n fs e4c_finalizing u e c1"
    using hook_stage [OF assms(2), of e4c_finalizing ts] assms(3) by (auto simp: stage_defs)
  obtain c2 where c2: "fin c1 s = Some (if again then Some (LongJmp n) else None, c2, s')" "in_block n fs e4c_finalizing (u \<or> again) e' c2"
    using code_in_block [OF assms(1) c1(2) assms(4)] by blast
  show ?thesis
    using loop_done [OF c2(2), of ts body hs fin s'] loop_stage [OF c1(1) trans [OF stage_simps(3) [OF c1(2), of ts body hs fin s] c2(1)]] by (simp only:)
qed

text \<open>The chain of handlers takes the first that fits.\<close>

lemma handlers_run:
  assumes "ranked rank ts" "handlers_implement ts hs ks" "in_block n fs e4c_catching True e c"
    and "(case find (\<lambda>h. subtype ts (ex_type e) (fst h)) ks of None \<Rightarrow> (True, e, s) | Some h \<Rightarrow> snd h e (Suc n) e s) = (raised, e', s')"
  shows "\<exists>c' jump. handlers ts hs fin c s = Some (if jump then Some (LongJmp n) else None, c', s') \<and> in_block n fs e4c_catching raised e' c'"
  using assms(2,4) unfolding handlers_implement_def
proof (induction rule: list_all2_induct)
  case Nil
  then show ?case using assms(3) by (auto simp: in_block_def stage_defs)
next
  case (Cons h hs k ks)
  have st: "fr_stage (frame_now c) = e4c_catching" and e: "e4c_err c = e" using assms(3) by (simp_all add: in_block_def)
  have i: "E4C_IS_INSTANCE_OF ts (fst h) c = Some (subtype ts (ex_type e) (fst k))"
    using instance_of_subtype [OF assms(1), of "fst h" c] Cons.hyps(1) e by simp
  show ?case
  proof (cases "subtype ts (ex_type e) (fst k)")
    case True
    obtain c1 where c1: "e4c_hook ts True c = (Inr 1, c1)" "in_block n fs e4c_catching False e c1" using hook_catch [OF assms(3)] by blast
    have "implements ts (snd h e) (snd k e)" "snd k e (Suc n) e s = (raised, e', s')" using Cons True by simp_all
    then obtain c2 where c2: "snd h e c1 s = Some (if raised then Some (LongJmp n) else None, c2, s')" "in_block n fs e4c_catching raised e' c2"
      using code_in_block [OF _ c1(2)] by fastforce
    have "e4c_err c1 = e" using c1(2) by (simp add: in_block_def)
    then have "handlers ts (h # hs) fin c s = snd h e c1 s" using st i True c1(1) by simp
    then show ?thesis using c2 by metis
  next
    case False
    then show ?thesis using Cons st i by simp
  qed
qed

lemma loop_caught:
  assumes "ranked rank ts" "handlers_implement ts hs ks" "implements ts fin f" "in_block n fs e4c_trying True e c"
    and "(case find (\<lambda>h. subtype ts (ex_type e) (fst h)) ks of None \<Rightarrow> (True, e, s) | Some h \<Rightarrow> snd h e (Suc n) e s) = (raised, e1, s1)"
    and "f (Suc n) e1 s1 = (again, e', s')"
  shows "\<exists>c'. try_loop ts n body hs fin c s = Some (if raised \<or> again then Some (leave_of ts n e') else None, c', s') \<and>
    out_of_block n fs (raised \<or> again) e' c'"
proof -
  obtain c1 where c1: "e4c_hook ts False c = (Inr 1, c1)" "in_block n fs e4c_catching True e c1"
    using hook_stage [OF assms(4), of e4c_catching ts] by (auto simp: stage_defs)
  obtain c2 jump where c2: "handlers ts hs fin c1 s = Some (if jump then Some (LongJmp n) else None, c2, s1)" "in_block n fs e4c_catching raised e1 c2"
    using handlers_run [OF assms(1,2) c1(2) assms(5)] by blast
  show ?thesis
    using loop_final [OF assms(3) c2(2) _ assms(6), of body hs] loop_stage [OF c1(1) trans [OF stage_simps(2) [OF c1(2)] c2(1)], of body]
    by (simp only: simp_thms)
qed

section \<open>The macros implement the blocks\<close>

lemma try_enters:
  assumes "context_ok c" "e4c_frames c < E4C_MAX_FRAMES"
  shows "\<exists>c'. e4c_try ts file line c = (Inr 1, c') \<and>
    in_block (e4c_frames c) (take (Suc (e4c_frames c)) (e4c_stack c)) e4c_beginning False (e4c_err c) c'"
proof -
  let ?c = "c\<lparr>e4c_frames := e4c_frames c + 1\<rparr>"
  have ok: "context_ok ?c" using assms by (simp add: context_ok_def)
  then show ?thesis
    using assms set_frame_simps(4) [of ?c] by (auto simp: e4c_try_def in_block_def Let_def)
qed

lemma out_of_block_after:
  assumes "out_of_block (e4c_frames c) (take (Suc (e4c_frames c)) (e4c_stack c)) raised e c'" "context_ok c"
  shows "after_code c raised e c'"
  using assms by (auto simp: out_of_block_def after_code_def frame_now_def context_ok_def)

text \<open>
  C4. Blocks with handlers and a final block are what they look like, at any depth of nesting: the body runs with one
  more block open; the first handler that fits takes an exception; the final block runs in any case; what is
  pending then goes to the block around, or ends the program with its text. A seventeenth block raises an exception.
\<close>

theorem E4C_TRY_refines:
  assumes "ranked rank ts" and "implements ts body q" and "handlers_implement ts hs ks" and "implements ts fin f"
  shows "implements ts (E4C_TRY ts file line body hs fin) (try_block ts file line q ks f)"
proof (rule implementsI, goal_cases)
  case (1 c s raised e s')
  let ?n = "e4c_frames c"
  let ?fs = "take (Suc ?n) (e4c_stack c)"
  show ?case
  proof (cases "?n < E4C_MAX_FRAMES")
    case False
    have "thrown ts RuntimeException file line (Some (bytes_of ''Too many `try` blocks nested.'')) = too_many file line"
      by (simp add: thrown_def too_many_def bytes_of_def)
    then show ?thesis
      using throw_after [OF 1(1), of ts RuntimeException "file" line "Some (bytes_of ''Too many `try` blocks nested.'')"] False 1(2)
      by (auto simp: E4C_TRY_def e4c_try_def try_block_def)
  next
    case True
    obtain c0 where c0: "e4c_try ts file line c = (Inr 1, c0)" "in_block ?n ?fs e4c_beginning False (e4c_err c) c0"
      using try_enters [OF 1(1) True] by blast
    then have t: "E4C_TRY ts file line body hs fin c s = try_loop ts ?n body hs fin c0 s" by (simp add: E4C_TRY_def in_block_def)
    obtain c1 where c1: "e4c_hook ts False c0 = (Inr 1, c1)" "in_block ?n ?fs e4c_trying False (e4c_err c) c1"
      using hook_stage [OF c0(2), of e4c_trying ts] by (auto simp: stage_defs)
    obtain r1 e1 s1 where q: "q (Suc ?n) (e4c_err c) s = (r1, e1, s1)" by (metis prod_cases3)
    obtain c2 where c2: "body c1 s = Some (if r1 then Some (LongJmp ?n) else None, c2, s1)" "in_block ?n ?fs e4c_trying r1 e1 c2"
      using code_in_block [OF assms(2) c1(2) q] by auto
    have l: "E4C_TRY ts file line body hs fin c s = try_loop ts ?n body hs fin c2 s1"
      unfolding t by (rule loop_stage [OF c1(1) trans [OF stage_simps(1) [OF c1(2), of ts body hs fin s] c2(1)]])
    obtain r2 e2 s2 where h: "(if r1 then case find (\<lambda>h. subtype ts (ex_type e1) (fst h)) ks of None \<Rightarrow> (True, e1, s1)
        | Some h \<Rightarrow> snd h e1 (Suc ?n) e1 s1 else (False, e1, s1)) = (r2, e2, s2)" by (metis prod_cases3)
    obtain again e3 s3 where f: "f (Suc ?n) e2 s2 = (again, e3, s3)" by (metis prod_cases3)
    have res: "(raised, e, s') = (r2 \<or> again, e3, s3)" using 1(2) True by (simp add: try_block_def q h f)
    have "\<exists>c'. try_loop ts ?n body hs fin c2 s1 = Some (if r2 \<or> again then Some (leave_of ts ?n e3) else None, c', s3) \<and>
        out_of_block ?n ?fs (r2 \<or> again) e3 c'"
    proof (cases r1)
      case True
      then show ?thesis using h c2(2) by (intro loop_caught [OF assms(1,3,4) _ _ f]) simp_all
    next
      case False
      then show ?thesis using h c2(2) loop_final [OF assms(4) _ _ f, of ?fs e4c_trying False c2 body hs] by simp
    qed
    then show ?thesis using res l out_of_block_after [OF _ 1(1)] by auto
  qed
qed

section \<open>An example\<close>

text \<open>Code that neither throws nor looks at the frames.\<close>

definition act :: "('s \<Rightarrow> 's) \<Rightarrow> 's code" where "act g c s = Some (None, c, g s)"

lemma act_implements: "implements ts (act g) (\<lambda>n e s. (False, e, g s))"
  by (rule implementsI) (auto simp: act_def after_code_def)

lemma program_types_ranked: "ranked (\<lambda>t. of_bool (t \<noteq> RuntimeException)) program_types"
  by (auto simp: ranked_def program_types_def E4C_DEFINE_EXCEPTION_def)

definition no_frames :: e4c_context where
  "no_frames =
     \<lparr>e4c_err = \<lparr>ex_message = [], ex_file = None, ex_line = 0, ex_type = RuntimeException\<rparr>,
      e4c_stack = replicate 17 \<lparr>fr_stage = 0, fr_uncaught = False\<rparr>, e4c_frames = 0\<rparr>"

text \<open>
  The last exception is one for all blocks: when a final block catches an exception of its own, the pending one is
  lost, and the one that was caught ends the program.
\<close>

abbreviation lost_throw :: "nat \<Rightarrow> string \<Rightarrow> nat list code" where
  "lost_throw t m \<equiv> E4C_THROW program_types t None 0 (Some (bytes_of m))"

abbreviation lost_final :: "nat list code" where
  "lost_final \<equiv> E4C_TRY program_types None 0 (lost_throw ITPException ''second'') [(RuntimeException, \<lambda>e. act (\<lambda>s. 1 # s))] (act (\<lambda>s. s))"

theorem E4C_TRY_refines_witness:
  "\<exists>c. E4C_TRY program_types None 0 (lost_throw NullPointerException ''first'') [] lost_final no_frames [] =
     Some (Some (ExitFailure (uncaught_text program_types (thrown program_types ITPException None 0 (Some (bytes_of ''second''))))), c, [1])"
proof -
  note frames = E4C_TRY_refines [OF program_types_ranked, of _ _ _ _ _ _ None 0]
  have h: "handlers_implement program_types [(RuntimeException, \<lambda>e. act (\<lambda>s. 1 # s))] [(RuntimeException, \<lambda>e n e s. (False, e, 1 # s))]"
    by (simp add: handlers_implement_def act_implements)
  let ?thr = "\<lambda>t m. throw_block program_types t None 0 (Some (bytes_of m))"
  let ?fin = "try_block program_types None 0 (?thr ITPException ''second'') [(RuntimeException, \<lambda>e n e s. (False, e, 1 # s))] (\<lambda>n e s. (False, e, s))"
  have fin: "implements program_types lost_final ?fin" by (rule frames [OF throw_implements h act_implements])
  have n: "handlers_implement program_types [] []" by (simp add: handlers_implement_def)
  let ?q = "try_block program_types None 0 (?thr NullPointerException ''first'') [] ?fin"
  have q: "implements program_types (E4C_TRY program_types None 0 (lost_throw NullPointerException ''first'') [] lost_final) ?q"
    by (rule frames [OF throw_implements n fin])
  have "subtype program_types ITPException RuntimeException"
    by (rule subtype_up [OF _ subtype_self]) (simp add: program_types_def E4C_DEFINE_EXCEPTION_def ITPException_def NullPointerException_def)
  then have "?q (e4c_frames no_frames) (e4c_err no_frames) [] = (True, thrown program_types ITPException None 0 (Some (bytes_of ''second'')), [1])"
    by (simp add: try_block_def throw_block_def thrown_def no_frames_def E4C_MAX_FRAMES_def)
  moreover have "context_ok no_frames" by (simp add: context_ok_def no_frames_def E4C_MAX_FRAMES_def)
  ultimately obtain c where "E4C_TRY program_types None 0 (lost_throw NullPointerException ''first'') [] lost_final no_frames [] =
      Some (Some (leave_of program_types (e4c_frames no_frames) (thrown program_types ITPException None 0 (Some (bytes_of ''second'')))), c, [1])"
    using implementsD [OF q] by fastforce
  then show ?thesis by (simp add: leave_of_def no_frames_def)
qed

end
