(* ===== verification/Spec2Isabelle.thy ===== *)
theory Spec2Isabelle
  imports Cyn_Exec Cyn_TreeErase Cyn_Program Cyn_CompileProgram Cyn_PoolUse Cyn_Main Cyn_ExceptUse
begin

text \<open>
  A verification of the virtual machine of cyntatic (\<^verbatim>\<open>src/vm\<close>, \<^verbatim>\<open>include/vm\<close>), of the lexer and the
  assembler of its compiler, of its code generator, of the containers and allocators of its library, of its
  exceptions and of its command line parser.

  The program. A code vector is a header, constant data and a sequence of byte-coded instructions.
  The machine copies the data to its memory, keeps a heap of linked block descriptors below it,
  a stack above it, fetches and executes instructions, and hands native calls to the operating
  system. The compiler reads a source with a lexer, whose keywords are in a hash map; the assembler
  parses them, keeps its symbols in red-black trees and the instructions in a vector, and links them to a code
  vector. The code generator of the compiler takes syntax trees and emits instructions to a code builder, which
  links them in the same way.

  The theories, in the order of their imports:

  \<^item> \<^verbatim>\<open>Cyn_Prelude\<close>: types of machine integers, errors as sums, little-endian bytes, the alignment
    macro of \<^verbatim>\<open>include/common.h\<close>.
  \<^item> \<^verbatim>\<open>Cyn_Instr\<close>: registers, modes, operation codes and the packed instruction of
    \<^verbatim>\<open>include/vm/vm.h\<close>. \<^verbatim>\<open>Cyn_Code\<close>: encoding and disassembly of \<^verbatim>\<open>src/vm/code.c\<close>, and the locale
    \<open>instr_codec\<close> of readers that give back what was encoded.
  \<^item> \<^verbatim>\<open>Cyn_Alloc\<close>: the contract of an allocator, as operations on lists of blocks and as the locale
    \<open>allocator\<close>. \<^verbatim>\<open>Cyn_Heap\<close>: the operations of \<^verbatim>\<open>src/vm/memory.c\<close> on a store of descriptors linked by
    their index, and the simulation of the contract. \<^verbatim>\<open>Cyn_HeapInv\<close>: the invariant (blocks tile the
    used part of the memory, no two adjacent free blocks) and the interpretation of the locale.
  \<^item> \<^verbatim>\<open>Cyn_Text\<close>: the UTF-8 writers of \<^verbatim>\<open>src/vm/utils.c\<close> and \<^verbatim>\<open>src/stream.c\<close> and the reader of
    \<^verbatim>\<open>src/compiler/common/lexer.c\<close>.
  \<^item> \<^verbatim>\<open>Cyn_Machine\<close>: state, memory access and stack of the machine. \<^verbatim>\<open>Cyn_Native\<close>: the builtins of
    \<^verbatim>\<open>src/vm/builtins.c\<close>; the operating system is a parameter, a call of
    which gets addresses of the host and may change the whole machine. \<^verbatim>\<open>Cyn_VM\<close>: fetching, executing,
    setting up and running of \<^verbatim>\<open>src/vm/vm.c\<close>.
  \<^item> \<^verbatim>\<open>Cyn_Fetch\<close>: the fetch stage agrees with the disassembler. \<^verbatim>\<open>Cyn_Stack\<close>: push and pop, the
    calling convention. \<^verbatim>\<open>Cyn_Exec\<close>: the descriptors of the heap during an execution.

  \<^item> \<^verbatim>\<open>Cyn_Tree\<close>: the nodes of \<^verbatim>\<open>src/tree.c\<close> as a store of records with parent links, insertion with its
    rotations, and the simulation by trees with a context. \<^verbatim>\<open>Cyn_TreeOps\<close>: lookup, insertion of values,
    iteration, release, and the locale \<open>comparator\<close> of the orders for which they are correct.
    \<^verbatim>\<open>Cyn_TreeUse\<close>: its interpretations on the comparisons of the library, and the properties.
    \<^verbatim>\<open>Cyn_TreeErase\<close>: removal, with the case that is right and the one that is not.
  \<^item> \<^verbatim>\<open>Cyn_Vector\<close>: the vectors of \<^verbatim>\<open>include/vector.h\<close> and \<^verbatim>\<open>src/vector.c\<close>, refining lists. \<^verbatim>\<open>Cyn_Map\<close>: the
    hash map of \<^verbatim>\<open>src/map.c\<close>, the locale \<open>string_map\<close> of its contract and the interpretation for sets of
    keys that the comparison tells apart.
  \<^item> \<^verbatim>\<open>Cyn_Source\<close>: positions and ranges of \<^verbatim>\<open>src/compiler/common/source.c\<close>. \<^verbatim>\<open>Cyn_Token\<close>: the tokens of
    \<^verbatim>\<open>include/compiler/common/token.h\<close> and \<^verbatim>\<open>src/compiler/common/token.c\<close> and the map of keywords, an
    instance of \<open>string_map\<close>. \<^verbatim>\<open>Cyn_Lexer\<close>: state and movement of the lexer, \<^verbatim>\<open>Cyn_LexToken\<close>: the functions
    of \<^verbatim>\<open>src/compiler/common/lexer.c\<close>, \<^verbatim>\<open>Cyn_LexUse\<close>: typed tokens, progress to the end of the source,
    numbers and words read back, and the inputs on which the lexer loops or misreads.
  \<^item> \<^verbatim>\<open>Cyn_Names\<close>: the mnemonics of \<^verbatim>\<open>src/vm/utils.c\<close> and their tree, the text of an instruction, the listing
    of \<^verbatim>\<open>src/vm/code.c\<close>, and the cache of identifiers of \<^verbatim>\<open>src/compiler/common/ident.c\<close>.
  \<^item> \<^verbatim>\<open>Cyn_Asm\<close>: the token cursor of \<^verbatim>\<open>src/compiler/common/itp.c\<close> and the parser of
    \<^verbatim>\<open>src/compiler/asm/asm.c\<close>: an operation takes the context and returns its value or a stop (the exception
    that \<open>ITP_fail\<close> throws, a fatal error of the lexer, a bad pointer) with the new context, and \<open>None\<close> when it does
    not return. \<^verbatim>\<open>Cyn_Link\<close>: the linker of \<^verbatim>\<open>src/compiler/asm/asm.c\<close>. \<^verbatim>\<open>Cyn_LinkUse\<close>: the code it writes, by
    instruction and label. \<^verbatim>\<open>Cyn_Program\<close>: that code in the machine.
  \<^item> \<^verbatim>\<open>Cyn_AsmLex\<close>: what the assembler needs of the lexer. \<^verbatim>\<open>Cyn_AsmUse\<close>: the invariant of the context and that
    every function of the parser keeps it and comes closer to the end of the source. \<^verbatim>\<open>Cyn_Assemble\<close>: the
    assembler as a whole.
  \<^item> \<^verbatim>\<open>Cyn_Macros\<close>: the macros of \<^verbatim>\<open>include/vm/instr.h\<close> as functions on instructions. \<^verbatim>\<open>Cyn_Builder\<close>: the code
    builder of \<^verbatim>\<open>src/vm/builder.c\<close>, in the style of the assembler. \<^verbatim>\<open>Cyn_BuilderUse\<close>: its contract, a program of
    constants, symbols, patches and instructions with an effect for each request, and the proof that the
    builder and its linker implement it.
  \<^item> \<^verbatim>\<open>Cyn_Type\<close>: the types of \<^verbatim>\<open>src/compiler/type.c\<close>, objects with an address, and what their comparison sees.
    \<^verbatim>\<open>Cyn_Codegen\<close>: the syntax trees of \<^verbatim>\<open>include/compiler/ast.h\<close> and the generator of
    \<^verbatim>\<open>src/compiler/codegen.c\<close>. \<^verbatim>\<open>Cyn_CompileExec\<close>: the effect of each generated instruction. \<^verbatim>\<open>Cyn_Compile\<close>:
    the code of a plain expression as a list of instructions, and its value (\<open>byte_value\<close>), which is computed in
    bytes and with the operands in the order of the code; for the operators where this makes no difference it is compared with
    the value of the expression over the integers (\<open>int_value\<close>). \<^verbatim>\<open>Cyn_CompileRun\<close>, \<^verbatim>\<open>Cyn_CompileUse\<close>: pieces of code in a program
    and what they compute. \<^verbatim>\<open>Cyn_CompileProgram\<close>: generating, building, linking and running an expression.
  \<^item> \<^verbatim>\<open>Cyn_Host\<close>: the memory of the host as objects of cells, and the allocators of \<^verbatim>\<open>src/allocator.c\<close>, records of
    operations with metadata in front of each block. \<^verbatim>\<open>Cyn_Pool\<close>: the arena and the pools of
    \<^verbatim>\<open>src/compiler/common/heap.c\<close>. \<^verbatim>\<open>Cyn_BlockStore\<close>: the contract of an allocator as the locale \<open>block_store\<close>; its
    extension \<open>store_allocator\<close>, for blocks that are in memory, gives the same contract for the operations with
    metadata (\<open>sublocale\<close>). \<^verbatim>\<open>Cyn_ArenaUse\<close>: the interpretations for the default allocator and the arena.
    \<^verbatim>\<open>Cyn_PoolUse\<close>: the pools, which are a \<open>block_store\<close> but, because of the last segment of each, not a \<open>store_allocator\<close>.
  \<^item> \<^verbatim>\<open>Cyn_Args\<close>: the parser of command lines of \<^verbatim>\<open>src/args.c\<close>; a parsing function returns false or the arguments that
    are left, with the new parser, or stops the program. \<^verbatim>\<open>Cyn_ArgsUse\<close>: sets of bits, written arguments and the
    requests they stand for, and what holds of a command that is accepted. \<^verbatim>\<open>Cyn_Usage\<close>: the usage texts, and how they
    are broken into lines. \<^verbatim>\<open>Cyn_Report\<close>: printing of diagnostics, \<^verbatim>\<open>src/compiler/common/log.c\<close>.
  \<^item> \<^verbatim>\<open>Cyn_Except\<close>: the exceptions of \<^verbatim>\<open>src/e4c.c\<close>, a stack of frames with stages, and the macros on pieces of client
    code, which come to their end or leave by a jump. \<^verbatim>\<open>Cyn_ExceptUse\<close>: blocks with handlers as functions, and the
    relation \<open>implements\<close> between code and blocks, which the macros keep.
  \<^item> \<^verbatim>\<open>Cyn_Buffer\<close>: buffers, streams, names of files and timers. \<^verbatim>\<open>Cyn_Main\<close>: the programs
    \<^verbatim>\<open>src/compiler/asm/main.c\<close> and \<^verbatim>\<open>src/vm/main.c\<close> on a system of files, and what the assembler leaves there.

  Loops. The loops over linked descriptors are \<open>partial_function (option)\<close>, with \<open>None\<close> for a loop
  that does not end; that they end is part of the theorems. The main loop takes a number of steps.
  \<open>Lexer_next\<close> and the loop of character literals are partial functions too; so are the loops of
  the parser (\<open>byte_list\<close>, \<open>Assembler_synchronize\<close>, \<open>assemble_loop\<close>), which end because every round takes a token
  or stops. All other loops of the lexer are functions with a measure, the rest of the source.

  The descriptors of the heap lie in front of the memory, in the same block of the host. The model keeps them in the store of
  \<open>Cyn_Heap\<close> and not as bytes: an instruction that reaches below the memory ends with the fault \<open>Descriptors\<close>, and what is said of
  the descriptors during an execution supposes that native calls leave them alone (\<open>spares_descriptors\<close>). The operations of trees on
  values take the node that the allocation of it gives, or none; the clients of the trees suppose that they get one.

  Not modelled: tracing and the debugger hook, which are compiled in on demand; floating-point
  values and the conversion of their literals, and what \<open>printf\<close> makes of a format (parameters); reading
  the clock, and files beyond their contents; the text of the error output; the demonstration in \<^verbatim>\<open>src/compiler/main.c\<close>. In the assembler the exceptions appear as the stop that they cause. The parser of the compiler is an empty stub in the source.
\<close>

end
